(* ===== verification/Prelude.thy ===== *)
theory Prelude
  imports Main "HOL-Library.AList"
begin

text \<open>
  Shared vocabulary of the development: JavaScript values, the truth and the
  nullish tests of the language, \<open>Map\<close> and \<open>Set\<close> with their insertion order,
  and the contract that every "walk some keys and rewrite each entry" loop of
  the program satisfies (\<^theory_text>\<open>locale pointwise_update\<close>).

  A JavaScript \<open>Map\<close> is an association list in insertion order: \<open>set\<close> of a
  present key keeps its position and of a new one appends
  (\<open>AList.update\<close>), \<open>delete\<close> drops it, \<open>get\<close> is \<open>map_of\<close>.
  A \<open>Set\<close> is a list without repetitions, again in insertion order. Strings are
  \<open>string\<close>; a length counts code units, which for the Latin-1 characters a
  \<open>char\<close> stands for is the number of characters.
\<close>

section \<open>JavaScript values\<close>

text \<open>
  What a JSON document or an untyped field may hold. Numbers occur only as
  whole numbers in the code modelled here. Nested objects and arrays compare by
  identity in the language and by value here; the code modelled compares only
  strings, booleans and the nullish values.
\<close>

datatype jsval =
    JUndef
  | JNull
  | JBool bool
  | JNum int
  | JStr string
  | JArr "jsval list"
  | JObj "(string \<times> jsval) list"

text \<open>\<open>Boolean(v)\<close>: what \<open>if (v)\<close>, \<open>!v\<close>, \<open>&&\<close> and \<open>||\<close> test.\<close>

fun truthy :: "jsval \<Rightarrow> bool" where
  "truthy JUndef = False"
| "truthy JNull = False"
| "truthy (JBool b) = b"
| "truthy (JNum n) = (n \<noteq> 0)"
| "truthy (JStr s) = (s \<noteq> [])"
| "truthy (JArr _) = True"
| "truthy (JObj _) = True"

text \<open>\<open>a ?? b\<close>.\<close>

fun nullish :: "jsval \<Rightarrow> bool" where
  "nullish JUndef = True"
| "nullish JNull = True"
| "nullish _ = False"

definition coalesce :: "jsval \<Rightarrow> jsval \<Rightarrow> jsval" where
  "coalesce a b = (if nullish a then b else a)"

fun is_str :: "jsval \<Rightarrow> bool" where
  "is_str (JStr _) = True"
| "is_str _ = False"

fun is_bool :: "jsval \<Rightarrow> bool" where
  "is_bool (JBool _) = True"
| "is_bool _ = False"

fun is_arr :: "jsval \<Rightarrow> bool" where
  "is_arr (JArr _) = True"
| "is_arr _ = False"

text \<open>The elements of a value used as an array: none for anything else.\<close>

fun elems :: "jsval \<Rightarrow> jsval list" where
  "elems (JArr xs) = xs"
| "elems _ = []"

text \<open>\<open>Array.isArray(v) && v.includes(x)\<close>.\<close>

definition arr_includes :: "jsval \<Rightarrow> jsval \<Rightarrow> bool" where
  "arr_includes v x = (is_arr v \<and> x \<in> set (elems v))"

text \<open>\<open>v?.[k]\<close> of a parsed value: a field of an object, nothing otherwise.\<close>

fun js_field :: "jsval \<Rightarrow> string \<Rightarrow> jsval" where
  "js_field (JObj fs) k = (case map_of fs k of Some v \<Rightarrow> v | None \<Rightarrow> JUndef)"
| "js_field _ k = JUndef"

section \<open>Maps and sets in insertion order\<close>

type_synonym ('k, 'v) jsmap = "('k \<times> 'v) list"

abbreviation map_set :: "'k \<Rightarrow> 'v \<Rightarrow> ('k, 'v) jsmap \<Rightarrow> ('k, 'v) jsmap" where
  "map_set \<equiv> AList.update"

abbreviation map_del :: "'k \<Rightarrow> ('k, 'v) jsmap \<Rightarrow> ('k, 'v) jsmap" where
  "map_del \<equiv> AList.delete"

abbreviation map_keys :: "('k, 'v) jsmap \<Rightarrow> 'k list" where
  "map_keys m \<equiv> map fst m"

text \<open>Every key once: what the language's \<open>Map\<close> guarantees of itself.\<close>

definition map_ok :: "('k, 'v) jsmap \<Rightarrow> bool" where
  "map_ok m = distinct (map_keys m)"

definition map_has :: "('k, 'v) jsmap \<Rightarrow> 'k \<Rightarrow> bool" where
  "map_has m k = (map_of m k \<noteq> None)"

definition set_add :: "'a list \<Rightarrow> 'a \<Rightarrow> 'a list" where
  "set_add xs x = (if x \<in> set xs then xs else xs @ [x])"

definition set_del :: "'a list \<Rightarrow> 'a \<Rightarrow> 'a list" where
  "set_del xs x = filter (\<lambda>y. y \<noteq> x) xs"

text \<open>\<open>new Set(xs)\<close>: the first occurrence of each element.\<close>

definition js_set :: "'a list \<Rightarrow> 'a list" where
  "js_set xs = foldl set_add [] xs"

section \<open>Loops that rewrite one key at a time\<close>

text \<open>
  The contract: a step names the key it is about, its effect on the entry under
  that key is a function of that entry alone, and it leaves every other key
  alone. Whole loops then have a closed form, key by key.
\<close>

locale pointwise_update =
  fixes step :: "'a \<Rightarrow> ('k, 'v) jsmap \<Rightarrow> ('k, 'v) jsmap"
    and key :: "'a \<Rightarrow> 'k"
    and eff :: "'a \<Rightarrow> 'v option \<Rightarrow> 'v option"
  assumes step_at: "map_of (step x m) (key x) = eff x (map_of m (key x))"
    and step_frame: "k \<noteq> key x \<Longrightarrow> map_of (step x m) k = map_of m k"
begin

lemma step_conv:
  "map_of (step x m) k = (if k = key x then eff x (map_of m k) else map_of m k)"
  by (simp add: step_at step_frame)

lemma fold_conv:
  "map_of (fold step xs m) k = fold eff (filter (\<lambda>x. key x = k) xs) (map_of m k)"
  by (induction xs arbitrary: m) (auto simp: step_conv)

lemma fold_frame:
  "k \<notin> key ` set xs \<Longrightarrow> map_of (fold step xs m) k = map_of m k"
  by (induction xs arbitrary: m) (auto simp: step_conv)

lemma fold_at:
  assumes "distinct (map key xs)" and "x \<in> set xs"
  shows "map_of (fold step xs m) (key x) = eff x (map_of m (key x))"
  using assms
proof (induction xs arbitrary: m)
  case Nil
  then show ?case by simp
next
  case (Cons y ys)
  show ?case
  proof (cases "x = y")
    case True
    with Cons.prems have "key x \<notin> key ` set ys" by auto
    with True show ?thesis by (simp add: fold_frame step_at)
  next
    case False
    with Cons.prems have x: "x \<in> set ys" by simp
    with Cons.prems(1) have "key x \<noteq> key y" by (metis distinct.simps(2) imageI list.set_map list.simps(9))
    with Cons x show ?thesis by (simp add: step_frame)
  qed
qed

end

text \<open>
  The relational form: a step keeps an invariant of the whole map, relates the
  old to the new entry under its key and leaves the others alone; a walk over
  distinct keys then relates each entry to its original.
\<close>

locale keyed_walk =
  fixes step :: "'a \<Rightarrow> ('k, 'v) jsmap \<Rightarrow> ('k, 'v) jsmap"
    and key :: "'a \<Rightarrow> 'k"
    and inv :: "('k, 'v) jsmap \<Rightarrow> bool"
    and rel :: "'a \<Rightarrow> 'v option \<Rightarrow> 'v option \<Rightarrow> bool"
  assumes step_inv: "inv m \<Longrightarrow> inv (step x m)"
    and step_rel: "inv m \<Longrightarrow> rel x (map_of m (key x)) (map_of (step x m) (key x))"
    and step_other: "inv m \<Longrightarrow> k \<noteq> key x \<Longrightarrow> map_of (step x m) k = map_of m k"
begin

lemma walk_inv: "inv m \<Longrightarrow> inv (fold step xs m)"
  by (induction xs arbitrary: m) (auto intro: step_inv)

lemma walk_other:
  "inv m \<Longrightarrow> k \<notin> key ` set xs \<Longrightarrow> map_of (fold step xs m) k = map_of m k"
  by (induction xs arbitrary: m) (auto simp: step_other step_inv)

lemma walk_rel:
  assumes "inv m" and "distinct (map key xs)" and "x \<in> set xs"
  shows "rel x (map_of m (key x)) (map_of (fold step xs m) (key x))"
  using assms
proof (induction xs arbitrary: m)
  case (Cons y ys)
  show ?case
  proof (cases "x = y")
    case True
    with Cons.prems have "key x \<notin> key ` set ys" by auto
    with True Cons.prems show ?thesis by (simp add: walk_other step_inv step_rel)
  next
    case False
    with Cons.prems have x: "x \<in> set ys" by simp
    with Cons.prems(2) have "key x \<noteq> key y" by (metis distinct.simps(2) imageI list.set_map list.simps(9))
    then have "map_of (step y m) (key x) = map_of m (key x)" using Cons.prems(1) step_other by simp
    with Cons.IH [OF step_inv [OF Cons.prems(1)] _ x, of y] Cons.prems(2) show ?thesis by simp
  qed
qed simp

end

text \<open>A predicate every step of a loop keeps is kept by the loop.\<close>

lemma fold_invariant:
  assumes "P s" and "\<And>x s. x \<in> set xs \<Longrightarrow> P s \<Longrightarrow> P (f x s)"
  shows "P (fold f xs s)"
  using assms by (induction xs arbitrary: s) auto

section \<open>Facts about the vocabulary\<close>

lemma coalesce_simps [simp]:
  "coalesce JUndef b = b" "coalesce JNull b = b" "coalesce (JStr s) b = JStr s"
  "coalesce (JBool c) b = JBool c" "coalesce (JArr xs) b = JArr xs"
  "coalesce (JNum n) b = JNum n" "coalesce (JObj fs) b = JObj fs"
  by (simp_all add: coalesce_def)

lemma is_str_conv: "is_str v \<longleftrightarrow> (\<exists>s. v = JStr s)"
  by (cases v) auto

lemma is_arr_conv: "is_arr v \<longleftrightarrow> (\<exists>xs. v = JArr xs)"
  by (cases v) auto

lemma is_bool_conv: "is_bool v \<longleftrightarrow> (\<exists>b. v = JBool b)"
  by (cases v) auto

lemma arr_includes_simps [simp]:
  "arr_includes (JArr xs) x = (x \<in> set xs)" "arr_includes JUndef x = False"
  by (simp_all add: arr_includes_def)

lemma set_set_add [simp]: "set (set_add xs x) = insert x (set xs)"
  by (auto simp: set_add_def)

lemma set_set_del [simp]: "set (set_del xs x) = set xs - {x}"
  by (auto simp: set_del_def)

lemma distinct_set_add [simp]: "distinct xs \<Longrightarrow> distinct (set_add xs x)"
  by (simp add: set_add_def)

lemma distinct_set_del [simp]: "distinct xs \<Longrightarrow> distinct (set_del xs x)"
  by (simp add: set_del_def)

lemma foldl_set_add_set: "set (foldl set_add acc xs) = set acc \<union> set xs"
  by (induction xs arbitrary: acc) auto

lemma foldl_set_add_distinct: "distinct acc \<Longrightarrow> distinct (foldl set_add acc xs)"
  by (induction xs arbitrary: acc) auto

lemma foldl_set_add_id:
  "distinct (acc @ xs) \<Longrightarrow> foldl set_add acc xs = acc @ xs"
proof (induction xs arbitrary: acc)
  case Nil
  then show ?case by simp
next
  case (Cons x xs)
  then have "x \<notin> set acc" and "distinct ((acc @ [x]) @ xs)" by auto
  with Cons.IH [of "acc @ [x]"] show ?case by (simp add: set_add_def)
qed

lemma set_js_set [simp]: "set (js_set xs) = set xs"
  by (simp add: js_set_def foldl_set_add_set)

lemma distinct_js_set [simp]: "distinct (js_set xs)"
  by (simp add: js_set_def foldl_set_add_distinct)

lemma js_set_id [simp]: "distinct xs \<Longrightarrow> js_set xs = xs"
  by (simp add: js_set_def foldl_set_add_id)

lemma js_set_empty_iff [simp]: "js_set xs = [] \<longleftrightarrow> xs = []"
  by (metis set_empty set_js_set)

lemma set_del_id: "x \<notin> set xs \<Longrightarrow> set_del xs x = xs"
  by (auto simp: set_del_def filter_id_conv)

lemma map_ok_simps [simp]:
  "map_ok []" "map_ok m \<Longrightarrow> map_ok (map_set k v m)" "map_ok m \<Longrightarrow> map_ok (map_del k m)"
  by (auto simp: map_ok_def distinct_update intro: distinct_delete)

lemma map_of_map_set [simp]: "map_of (map_set k v m) = (map_of m)(k \<mapsto> v)"
  by (rule update_conv')

lemma map_of_map_del [simp]: "map_of (map_del k m) = (map_of m)(k := None)"
  by (rule delete_conv')

lemma map_has_iff [simp]: "map_has m k \<longleftrightarrow> k \<in> set (map_keys m)"
  by (auto simp: map_has_def map_of_eq_None_iff)

lemma map_del_absent: "k \<notin> set (map_keys m) \<Longrightarrow> map_del k m = m"
  by (induction m) (auto simp: AList.delete_eq filter_id_conv)

lemma in_map_of_iff:
  "map_ok m \<Longrightarrow> (k, v) \<in> set m \<longleftrightarrow> map_of m k = Some v"
  by (simp add: map_ok_def)

text \<open>Two lists of the same length, the second without repetitions and inside
  the first: the same set. What every cheap set comparison of the program uses.\<close>

lemma subset_length_set_eq:
  assumes "length ys = length xs" and "set ys \<subseteq> set xs" and "distinct ys"
  shows "set ys = set xs"
proof -
  have "card (set xs) \<le> card (set ys)"
    using assms(1,3) card_length [of xs] by (simp add: distinct_card)
  with assms(2) show ?thesis by (simp add: card_seteq)
qed

end
