(* ===== verification/JsText.thy ===== *)
theory JsText
  imports Prelude
begin

text \<open>
  The string operations of the language the program uses: \<open>startsWith\<close>,
  \<open>endsWith\<close>, \<open>includes\<close>, \<open>indexOf\<close>, \<open>split\<close> at a character, \<open>join\<close>,
  \<open>replaceAll\<close> of one character, \<open>trim\<close>, and the tests a small regular
  expression makes. Each is structurally recursive, so it evaluates.
\<close>

section \<open>Operations\<close>

definition starts_with :: "string \<Rightarrow> string \<Rightarrow> bool" where
  "starts_with p s = (take (length p) s = p)"

definition ends_with :: "string \<Rightarrow> string \<Rightarrow> bool" where
  "ends_with p s = starts_with (rev p) (rev s)"

fun str_includes :: "string \<Rightarrow> string \<Rightarrow> bool" where
  "str_includes p [] = (p = [])"
| "str_includes p (x # xs) = (starts_with p (x # xs) \<or> str_includes p xs)"

text \<open>\<open>s.indexOf(p)\<close>, with \<open>None\<close> for the answer -1.\<close>

fun index_of :: "string \<Rightarrow> string \<Rightarrow> nat option" where
  "index_of p [] = (if p = [] then Some 0 else None)"
| "index_of p (x # xs) = (if starts_with p (x # xs) then Some 0 else map_option Suc (index_of p xs))"

text \<open>\<open>s.lastIndexOf(c)\<close> of one character.\<close>

fun last_index_of :: "char \<Rightarrow> string \<Rightarrow> nat option" where
  "last_index_of c [] = None"
| "last_index_of c (x # xs) = (case last_index_of c xs of Some n \<Rightarrow> Some (Suc n)
     | None \<Rightarrow> if x = c then Some 0 else None)"

fun split_on :: "char \<Rightarrow> string \<Rightarrow> string list" where
  "split_on c [] = [[]]"
| "split_on c (x # xs) = (if x = c then [] # split_on c xs
     else case split_on c xs of [] \<Rightarrow> [[x]] | w # ws \<Rightarrow> (x # w) # ws)"

fun join :: "string \<Rightarrow> string list \<Rightarrow> string" where
  "join sep [] = []"
| "join sep [w] = w"
| "join sep (w # ws) = w @ sep @ join sep ws"

definition replace_char :: "char \<Rightarrow> char \<Rightarrow> string \<Rightarrow> string" where
  "replace_char a b s = map (\<lambda>x. if x = a then b else x) s"

definition backslash :: char where
  "backslash = CHR 0x5C"

definition is_digit :: "char \<Rightarrow> bool" where
  "is_digit c = (c \<in> set ''0123456789'')"

text \<open>\<open>s.trim()\<close>, with the white space the Latin-1 characters have.\<close>

definition js_space :: "char \<Rightarrow> bool" where
  "js_space c = (c = CHR '' '' \<or> (9::nat) \<le> of_char c \<and> of_char c \<le> (13::nat) \<or> of_char c = (160::nat))"

definition trim :: "string \<Rightarrow> string" where
  "trim s = rev (dropWhile js_space (rev (dropWhile js_space s)))"

text \<open>\<open>/^\d+$/u.test(s)\<close>.\<close>

definition all_digits :: "string \<Rightarrow> bool" where
  "all_digits s = (s \<noteq> [] \<and> list_all is_digit s)"

section \<open>Facts\<close>

lemma starts_with_Nil [simp]: "starts_with [] s"
  by (simp add: starts_with_def)

lemma starts_with_empty [simp]: "starts_with p [] = (p = [])"
  by (auto simp: starts_with_def)

lemma starts_with_Cons [simp]: "starts_with (a # p) (x # xs) = (x = a \<and> starts_with p xs)"
  by (auto simp: starts_with_def)

lemma starts_with_append [simp]: "starts_with p (p @ s)"
  by (simp add: starts_with_def)

lemma starts_with_iff: "starts_with p s \<longleftrightarrow> (\<exists>r. s = p @ r)"
  by (metis append_eq_conv_conj append_take_drop_id starts_with_def)

lemma ends_with_iff: "ends_with p s \<longleftrightarrow> (\<exists>r. s = r @ p)"
  by (metis ends_with_def rev_append rev_rev_ident starts_with_iff)

lemma str_includes_iff: "str_includes p s \<longleftrightarrow> (\<exists>a b. s = a @ p @ b)"
proof (induction s)
  case (Cons x xs)
  have "(\<exists>a b. x # xs = a @ p @ b) \<longleftrightarrow> starts_with p (x # xs) \<or> (\<exists>a b. xs = a @ p @ b)"
    by (metis append_Cons append_Nil starts_with_iff neq_Nil_conv list.inject)
  with Cons show ?case by simp
qed simp

lemma split_on_not_Nil [simp]: "split_on c s \<noteq> []"
  by (induction s) (auto split: list.splits)

lemma split_on_Cons_other:
  "x \<noteq> c \<Longrightarrow> split_on c (x # xs) = (x # hd (split_on c xs)) # tl (split_on c xs)"
  by (cases "split_on c xs") auto

lemma split_on_no_sep: "w \<in> set (split_on c s) \<Longrightarrow> c \<notin> set w"
proof (induction s arbitrary: w)
  case (Cons x xs)
  then show ?case
  proof (cases "x = c")
    case False
    have "hd (split_on c xs) \<in> set (split_on c xs)" by simp
    moreover have "set (tl (split_on c xs)) \<subseteq> set (split_on c xs)" by (cases "split_on c xs") auto
    ultimately show ?thesis using Cons False by (auto simp: split_on_Cons_other simp del: split_on.simps(2))
  qed auto
qed simp

lemma join_split [simp]: "join [c] (split_on c s) = s"
proof (induction s)
  case (Cons x xs)
  have j: "join sep ((y # w) # ws) = y # join sep (w # ws)" for sep y w ws
    by (cases ws) simp_all
  show ?case
  proof (cases "x = c")
    case True
    then show ?thesis using Cons by (cases "split_on c xs") auto
  next
    case False
    then show ?thesis using Cons by (simp add: split_on_Cons_other j del: split_on.simps(2))
  qed
qed simp

lemma split_no_sep: "c \<notin> set w \<Longrightarrow> split_on c w = [w]"
  by (induction w) auto

lemma split_append_sep: "c \<notin> set w \<Longrightarrow> split_on c (w @ c # s) = w # split_on c s"
  by (induction w) auto

lemma split_join: "ws \<noteq> [] \<Longrightarrow> list_all (\<lambda>w. c \<notin> set w) ws \<Longrightarrow> split_on c (join [c] ws) = ws"
  by (induction "[c]" ws rule: join.induct) (simp_all add: split_no_sep split_append_sep)

text \<open>A prefix up to a separator is a first segment; an infix between two
  separators is an inner segment.\<close>

lemma starts_with_segment:
  "c \<notin> set d \<Longrightarrow> starts_with (d @ [c]) s \<longleftrightarrow> hd (split_on c s) = d \<and> tl (split_on c s) \<noteq> []"
proof (induction s arbitrary: d)
  case (Cons x xs)
  then show ?case
    by (cases d; cases "x = c") (auto simp: split_on_Cons_other simp del: split_on.simps(2), simp_all)
qed simp

lemma includes_segment:
  assumes "c \<notin> set d"
  shows "str_includes (c # d @ [c]) s \<longleftrightarrow> d \<in> set (butlast (tl (split_on c s)))"
proof (induction s)
  case (Cons x xs)
  show ?case
  proof (cases "x = c")
    case True
    obtain w ws where ws: "split_on c xs = w # ws" by (cases "split_on c xs") auto
    with True Cons starts_with_segment [OF assms, of xs] show ?thesis by auto
  next
    case False
    with Cons show ?thesis by (simp add: split_on_Cons_other del: split_on.simps(2))
  qed
qed simp

end
