(* ===== verification/TriageEntry.thy ===== *)
theory TriageEntry
  imports Prelude
begin

text \<open>
  The unified triage map and the pure operations over it
  (\<^verbatim>\<open>src/client/triage-entry.ts\<close>; the type of an entry is
  \<^verbatim>\<open>src/client/state.ts\<close>). One entry per finding id, every field
  optional. The fields hold JavaScript values, since a stored or received entry
  is only as well formed as whoever wrote it; \<open>normalizeEntry\<close> is what makes
  one clean, and \<open>entry_ok\<close> says what clean means.

  An argument that may be missing (\<open>undefined\<close>, \<open>null\<close>, or any value that
  is no object) is \<open>None\<close>.
\<close>

section \<open>Entries\<close>

record entry =
  e_color :: jsval
  e_triage :: jsval
  e_comment :: jsval
  e_fix :: jsval
  e_flagged :: jsval
  e_ignored :: jsval
  e_scoped :: jsval
  e_deleted :: jsval

type_synonym tmap = "(string, entry) jsmap"

text \<open>\<open>{}\<close>: no field set.\<close>

definition no_fields :: entry where
  "no_fields = \<lparr>e_color = JUndef, e_triage = JUndef, e_comment = JUndef, e_fix = JUndef,
     e_flagged = JUndef, e_ignored = JUndef, e_scoped = JUndef, e_deleted = JUndef\<rparr>"

text \<open>
  A patch names some fields and gives each a value; a field named with
  \<open>JUndef\<close> is cleared, one not named is kept (\<open>{ ...cur, ...patch }\<close>).
\<close>

datatype field = Color | Triage | Comment | Fix | Flagged | Ignored | Scoped | Deleted

type_synonym patch = "(field \<times> jsval) list"

fun put_field :: "field \<Rightarrow> jsval \<Rightarrow> entry \<Rightarrow> entry" where
  "put_field Color v e = e\<lparr>e_color := v\<rparr>"
| "put_field Triage v e = e\<lparr>e_triage := v\<rparr>"
| "put_field Comment v e = e\<lparr>e_comment := v\<rparr>"
| "put_field Fix v e = e\<lparr>e_fix := v\<rparr>"
| "put_field Flagged v e = e\<lparr>e_flagged := v\<rparr>"
| "put_field Ignored v e = e\<lparr>e_ignored := v\<rparr>"
| "put_field Scoped v e = e\<lparr>e_scoped := v\<rparr>"
| "put_field Deleted v e = e\<lparr>e_deleted := v\<rparr>"

definition spread :: "entry option \<Rightarrow> patch \<Rightarrow> entry" where
  "spread cur p = fold (\<lambda>(f, v). put_field f v) p (case cur of Some e \<Rightarrow> e | None \<Rightarrow> no_fields)"

text \<open>A parsed value read as an entry: its fields, where it is an object.\<close>

definition entry_of :: "jsval \<Rightarrow> entry option" where
  "entry_of v = (if truthy v then Some
     \<lparr>e_color = js_field v ''color'', e_triage = js_field v ''triage'', e_comment = js_field v ''comment'',
      e_fix = js_field v ''fix'', e_flagged = js_field v ''flagged'', e_ignored = js_field v ''ignoredReports'',
      e_scoped = js_field v ''scopedIgnoredReports'', e_deleted = js_field v ''deleted''\<rparr> else None)"

section \<open>Reading an entry\<close>

definition bucket_names :: "string list" where
  "bucket_names = [''inprogress'', ''fixed'', ''invalid'', ''deleted'', ''ignored'']"

definition asBucket :: "jsval \<Rightarrow> jsval" where
  "asBucket v = (if v \<in> set (map JStr bucket_names) then v else JUndef)"

fun bucketOf :: "entry option \<Rightarrow> jsval" where
  "bucketOf None = JUndef"
| "bucketOf (Some e) =
     coalesce (asBucket (e_triage e)) (if truthy (e_deleted e) then JStr ''deleted'' else JUndef)"

definition allowsReportIgnores :: "entry option \<Rightarrow> bool" where
  "allowsReportIgnores e = (let bucket = bucketOf e in bucket = JUndef \<or> bucket = JStr ''ignored'')"

text \<open>\<open>v && v.length > 0\<close> of a list of report names.\<close>

definition has_items :: "jsval \<Rightarrow> bool" where
  "has_items v = (elems v \<noteq> [])"

fun entryIsEmpty :: "entry option \<Rightarrow> bool" where
  "entryIsEmpty None = True"
| "entryIsEmpty (Some e) = (\<not> truthy (e_color e) \<and> \<not> truthy (bucketOf (Some e))
     \<and> \<not> truthy (e_comment e) \<and> \<not> truthy (e_fix e) \<and> \<not> has_items (e_ignored e)
     \<and> e_flagged e = JUndef)"

definition isReportIgnored :: "tmap \<Rightarrow> string \<Rightarrow> string \<Rightarrow> bool" where
  "isReportIgnored m i report =
     (case map_of m i of None \<Rightarrow> False | Some e \<Rightarrow> arr_includes (e_ignored e) (JStr report))"

definition isReportIgnoreScoped :: "entry option \<Rightarrow> string \<Rightarrow> bool" where
  "isReportIgnoreScoped e report =
     (case e of None \<Rightarrow> False | Some e \<Rightarrow> arr_includes (e_scoped e) (JStr report))"

section \<open>Normalization and equality\<close>

text \<open>\<open>typeof v === 'string' && v\<close>, kept or dropped.\<close>

definition keep_str :: "jsval \<Rightarrow> jsval" where
  "keep_str v = (if is_str v \<and> truthy v then v else JUndef)"

definition keep_reports :: "jsval \<Rightarrow> jsval" where
  "keep_reports v = (if is_arr v then
     let reports = filter (\<lambda>r. is_str r \<and> r \<noteq> JStr []) (elems v)
     in if reports \<noteq> [] then JArr reports else JUndef else JUndef)"

definition keep_scoped :: "jsval \<Rightarrow> jsval \<Rightarrow> jsval" where
  "keep_scoped v ignored = (if is_arr v \<and> truthy ignored then
     let scoped = js_set (filter (\<lambda>r. is_str r \<and> r \<in> set (elems ignored)) (elems v))
     in if scoped \<noteq> [] then JArr scoped else JUndef else JUndef)"

definition clean :: "entry \<Rightarrow> entry" where
  "clean e = (let ignored = keep_reports (e_ignored e) in
     \<lparr>e_color = keep_str (e_color e), e_triage = bucketOf (Some e),
      e_comment = keep_str (e_comment e), e_fix = keep_str (e_fix e),
      e_flagged = (if is_bool (e_flagged e) then e_flagged e else JUndef),
      e_ignored = ignored, e_scoped = keep_scoped (e_scoped e) ignored, e_deleted = JUndef\<rparr>)"

fun normalizeEntry :: "entry option \<Rightarrow> entry option" where
  "normalizeEntry None = None"
| "normalizeEntry (Some e) = (if entryIsEmpty (Some (clean e)) then None else Some (clean e))"

definition ignoredEqual :: "jsval \<Rightarrow> jsval \<Rightarrow> bool" where
  "ignoredEqual a b = (let la = elems a; lb = elems b in
     if length la \<noteq> length lb then False
     else if la = [] then True
     else list_all (\<lambda>r. r \<in> set la) lb)"

definition or_empty :: "jsval \<Rightarrow> jsval" where
  "or_empty v = coalesce v (JStr [])"

definition entriesEqual :: "entry option \<Rightarrow> entry option \<Rightarrow> bool" where
  "entriesEqual a b =
     (let ea = (case a of Some e \<Rightarrow> e | None \<Rightarrow> no_fields);
          eb = (case b of Some e \<Rightarrow> e | None \<Rightarrow> no_fields)
      in or_empty (e_color ea) = or_empty (e_color eb)
       \<and> or_empty (bucketOf (Some ea)) = or_empty (bucketOf (Some eb))
       \<and> or_empty (e_comment ea) = or_empty (e_comment eb)
       \<and> or_empty (e_fix ea) = or_empty (e_fix eb)
       \<and> e_flagged ea = e_flagged eb
       \<and> ignoredEqual (e_ignored ea) (e_ignored eb)
       \<and> ignoredEqual (e_scoped ea) (e_scoped eb))"

section \<open>Writing an entry\<close>

text \<open>
  The three writers return the map and whether it changed. They share the
  write-back: delete the id where nothing is left, keep the map where the new
  entry says the same, replace the whole entry otherwise.
\<close>

definition write_back :: "tmap \<Rightarrow> string \<Rightarrow> entry option \<Rightarrow> tmap \<times> bool" where
  "write_back m i next =
     (case next of
        None \<Rightarrow> (map_del i m, map_has m i)
      | Some e \<Rightarrow> if entriesEqual (map_of m i) (Some e) then (m, False) else (map_set i e m, True))"

definition patchEntry :: "tmap \<Rightarrow> string \<Rightarrow> patch \<Rightarrow> tmap \<times> bool" where
  "patchEntry m i p = write_back m i (normalizeEntry (Some (spread (map_of m i) p)))"

definition setEntry :: "tmap \<Rightarrow> string \<Rightarrow> entry option \<Rightarrow> tmap \<times> bool" where
  "setEntry m i e = write_back m i (normalizeEntry e)"

definition setReportIgnored :: "tmap \<Rightarrow> string \<Rightarrow> string \<Rightarrow> bool \<Rightarrow> bool \<Rightarrow> tmap \<times> bool" where
  "setReportIgnored m i report ignored scoped =
     (let cur = map_of m i;
          names = js_set (case cur of Some e \<Rightarrow> elems (e_ignored e) | None \<Rightarrow> []);
          names' = (if ignored then set_add names (JStr report) else set_del names (JStr report));
          markers = js_set (case cur of Some e \<Rightarrow> elems (e_scoped e) | None \<Rightarrow> []);
          markers' = (if ignored \<and> scoped then set_add markers (JStr report) else markers)
      in patchEntry m i [(Ignored, if names' \<noteq> [] then JArr names' else JUndef), (Scoped, JArr markers')])"

section \<open>What a clean entry is\<close>

definition opt_str :: "jsval \<Rightarrow> bool" where
  "opt_str v = (v = JUndef \<or> is_str v \<and> v \<noteq> JStr [])"

definition reports_ok :: "jsval \<Rightarrow> bool" where
  "reports_ok v = (v = JUndef \<or> is_arr v \<and> elems v \<noteq> [] \<and> list_all (\<lambda>r. is_str r \<and> r \<noteq> JStr []) (elems v))"

definition scoped_ok :: "jsval \<Rightarrow> jsval \<Rightarrow> bool" where
  "scoped_ok v ignored = (v = JUndef \<or> is_arr v \<and> elems v \<noteq> [] \<and> distinct (elems v)
     \<and> list_all (\<lambda>r. r \<in> set (elems ignored)) (elems v))"

definition entry_ok :: "entry \<Rightarrow> bool" where
  "entry_ok e = (opt_str (e_color e) \<and> asBucket (e_triage e) = e_triage e \<and> opt_str (e_comment e)
     \<and> opt_str (e_fix e) \<and> (e_flagged e = JUndef \<or> is_bool (e_flagged e)) \<and> reports_ok (e_ignored e)
     \<and> scoped_ok (e_scoped e) (e_ignored e) \<and> e_deleted e = JUndef \<and> \<not> entryIsEmpty (Some e))"

definition tmap_ok :: "tmap \<Rightarrow> bool" where
  "tmap_ok m = (map_ok m \<and> list_all (\<lambda>(_, e). entry_ok e) m)"

text \<open>The report names an entry ignores its finding in, as a set of values.\<close>

definition ignored_of :: "entry option \<Rightarrow> jsval set" where
  "ignored_of e = (case e of None \<Rightarrow> {} | Some e \<Rightarrow> set (elems (e_ignored e)))"

definition scoped_of :: "entry option \<Rightarrow> jsval set" where
  "scoped_of e = (case e of None \<Rightarrow> {} | Some e \<Rightarrow> set (elems (e_scoped e)))"

text \<open>What a write-back leaves under its own id.\<close>

definition wb_eff :: "entry option \<Rightarrow> entry option \<Rightarrow> entry option" where
  "wb_eff cur next = (case next of None \<Rightarrow> None
     | Some e \<Rightarrow> if entriesEqual cur (Some e) then cur else Some e)"

section \<open>Lemmas\<close>

declare bucketOf.simps [simp del] entryIsEmpty.simps [simp del] normalizeEntry.simps [simp del]

lemmas entry_evals = bucketOf.simps entryIsEmpty.simps normalizeEntry.simps

lemma arr_includes_elems: "arr_includes v x = (x \<in> set (elems v))"
  by (cases v) (simp_all add: arr_includes_def)

lemma asBucket_idem [simp]: "asBucket (asBucket v) = asBucket v"
  by (simp add: asBucket_def)

lemma asBucket_cases: "asBucket v = JUndef \<or> (\<exists>s \<in> set bucket_names. asBucket v = JStr s)"
  by (auto simp: asBucket_def)

lemma asBucket_deleted [simp]: "asBucket (JStr ''deleted'') = JStr ''deleted''"
  by (simp add: asBucket_def bucket_names_def)

lemma asBucket_JUndef [simp]: "asBucket JUndef = JUndef"
  by (simp add: asBucket_def)

lemma bucketOf_bucket [simp]: "asBucket (bucketOf e) = bucketOf e"
  by (cases e) (use asBucket_cases in \<open>auto simp: coalesce_def bucketOf.simps\<close>)

lemma bucketOf_cases: "bucketOf e = JUndef \<or> (\<exists>s \<in> set bucket_names. bucketOf e = JStr s)"
  using asBucket_cases [of "bucketOf e"] by simp

lemma bucketOf_clean:
  assumes "asBucket (e_triage e) = e_triage e" and "e_deleted e = JUndef"
  shows "bucketOf (Some e) = e_triage e"
  using assms asBucket_cases [of "e_triage e"] by (auto simp: coalesce_def bucketOf.simps)

lemma keep_str_ok [simp]: "opt_str (keep_str v)"
  by (cases v) (auto simp: keep_str_def opt_str_def)

lemma keep_str_id: "opt_str v \<Longrightarrow> keep_str v = v"
  by (cases v) (auto simp: keep_str_def opt_str_def)

lemma keep_reports_ok [simp]: "reports_ok (keep_reports v)"
  by (auto simp: keep_reports_def reports_ok_def list_all_iff Let_def)

lemma keep_reports_id: "reports_ok v \<Longrightarrow> keep_reports v = v"
  by (cases v) (auto simp: keep_reports_def reports_ok_def list_all_iff filter_id_conv Let_def)

lemma keep_scoped_ok [simp]: "scoped_ok (keep_scoped v ignored) ignored"
  by (auto simp: keep_scoped_def scoped_ok_def list_all_iff Let_def)

lemma reports_ok_str:
  "reports_ok v \<Longrightarrow> r \<in> set (elems v) \<Longrightarrow> is_str r"
  by (auto simp: reports_ok_def list_all_iff)

lemma reports_ok_nonempty:
  "reports_ok v \<Longrightarrow> r \<in> set (elems v) \<Longrightarrow> r \<noteq> JStr []"
  by (auto simp: reports_ok_def list_all_iff)

lemma keep_scoped_id:
  assumes "reports_ok ignored" and "scoped_ok v ignored"
  shows "keep_scoped v ignored = v"
proof (cases "v = JUndef")
  case True
  then show ?thesis by (simp add: keep_scoped_def)
next
  case False
  then obtain xs where v: "v = JArr xs" "xs \<noteq> []" "distinct xs" "\<forall>r \<in> set xs. r \<in> set (elems ignored)"
    using assms(2) by (auto simp: scoped_ok_def is_arr_conv list_all_iff)
  then have "truthy ignored" using assms(1) by (cases ignored) auto
  moreover have "filter (\<lambda>r. is_str r \<and> r \<in> set (elems ignored)) xs = xs"
    using v(4) reports_ok_str [OF assms(1)] by (auto simp: filter_id_conv)
  ultimately show ?thesis using v by (simp add: keep_scoped_def)
qed

lemma clean_fields [simp]:
  "e_color (clean e) = keep_str (e_color e)" "e_triage (clean e) = bucketOf (Some e)"
  "e_comment (clean e) = keep_str (e_comment e)" "e_fix (clean e) = keep_str (e_fix e)"
  "e_flagged (clean e) = (if is_bool (e_flagged e) then e_flagged e else JUndef)"
  "e_ignored (clean e) = keep_reports (e_ignored e)"
  "e_scoped (clean e) = keep_scoped (e_scoped e) (keep_reports (e_ignored e))"
  "e_deleted (clean e) = JUndef"
  by (simp_all add: clean_def Let_def)

lemma clean_ok: "\<not> entryIsEmpty (Some (clean e)) \<Longrightarrow> entry_ok (clean e)"
  by (simp add: entry_ok_def)

lemma clean_id: "entry_ok e \<Longrightarrow> clean e = e"
  by (rule entry.equality)
    (auto simp: entry_ok_def keep_str_id keep_reports_id keep_scoped_id bucketOf_clean)

lemma normalizeEntry_ok: "normalizeEntry e = Some e' \<Longrightarrow> entry_ok e'"
  by (cases e) (auto simp: clean_ok normalizeEntry.simps split: if_splits)

lemma normalizeEntry_id: "entry_ok e \<Longrightarrow> normalizeEntry (Some e) = Some e"
  by (simp add: clean_id normalizeEntry.simps) (simp add: entry_ok_def)

lemma ignoredEqual_refl [simp]: "ignoredEqual v v"
  by (simp add: ignoredEqual_def list_all_iff Let_def)

lemma ignoredEqual_iff:
  "ignoredEqual a b \<longleftrightarrow>
     length (elems b) = length (elems a) \<and> (\<forall>r \<in> set (elems b). r \<in> set (elems a))"
  by (cases "elems a = []") (auto simp: ignoredEqual_def Let_def list_all_iff)

lemma ignoredEqual_set:
  assumes "ignoredEqual a b" and "distinct (elems b)"
  shows "set (elems b) = set (elems a)"
proof (rule subset_length_set_eq)
  show "length (elems b) = length (elems a)" using assms(1) by (simp add: ignoredEqual_iff)
  show "set (elems b) \<subseteq> set (elems a)" using assms(1) by (simp add: ignoredEqual_iff subset_iff)
qed (rule assms(2))

lemma entriesEqual_refl [simp]: "entriesEqual (Some e) (Some e)"
  by (simp add: entriesEqual_def Let_def)

lemma write_back_lookup:
  "map_of (fst (write_back m i next)) j = (if j = i then wb_eff (map_of m i) next else map_of m j)"
  by (simp add: write_back_def wb_eff_def split: option.splits)

lemma tmap_ok_lookup: "tmap_ok m \<Longrightarrow> map_of m i = Some e \<Longrightarrow> entry_ok e"
  by (auto simp: tmap_ok_def list_all_iff dest: map_of_SomeD)

lemma tmap_okI:
  assumes "map_ok m" and "\<And>i e. map_of m i = Some e \<Longrightarrow> entry_ok e"
  shows "tmap_ok m"
  using assms by (auto simp: tmap_ok_def list_all_iff in_map_of_iff [symmetric])

lemma tmap_ok_map_ok: "tmap_ok m \<Longrightarrow> map_ok m"
  by (simp add: tmap_ok_def)

lemma write_back_tmap_ok:
  assumes "tmap_ok m" and "\<And>e. next = Some e \<Longrightarrow> entry_ok e"
  shows "tmap_ok (fst (write_back m i next))"
proof (rule tmap_okI)
  show "map_ok (fst (write_back m i next))"
    using tmap_ok_map_ok [OF assms(1)] by (simp add: write_back_def split: option.splits)
  fix j e
  assume "map_of (fst (write_back m i next)) j = Some e"
  then show "entry_ok e"
    using assms tmap_ok_lookup [OF assms(1)]
    by (auto simp: write_back_lookup wb_eff_def split: if_splits option.splits)
qed

lemma map_del_neq: "k \<in> set (map_keys m) \<Longrightarrow> map_del k m \<noteq> m"
  by (metis fun_upd_same map_of_eq_None_iff list.set_map map_of_map_del)

lemma write_back_honest:
  "snd (write_back m i next) \<longleftrightarrow> fst (write_back m i next) \<noteq> m"
proof (cases "next")
  case None
  then show ?thesis by (simp add: write_back_def) (metis list.set_map map_del_absent map_del_neq)
next
  case (Some e)
  have "map_set i e m \<noteq> m" if "\<not> entriesEqual (map_of m i) (Some e)"
  proof
    assume "map_set i e m = m"
    then have "map_of m i = Some e" by (metis fun_upd_same map_of_map_set)
    with that show False by simp
  qed
  with Some show ?thesis by (auto simp: write_back_def)
qed

lemma patchEntry_tmap_ok [simp]: "tmap_ok m \<Longrightarrow> tmap_ok (fst (patchEntry m i p))"
  by (simp add: patchEntry_def write_back_tmap_ok normalizeEntry_ok)

lemma setEntry_tmap_ok [simp]: "tmap_ok m \<Longrightarrow> tmap_ok (fst (setEntry m i e))"
  by (simp add: setEntry_def write_back_tmap_ok normalizeEntry_ok)

lemma setReportIgnored_tmap_ok [simp]: "tmap_ok m \<Longrightarrow> tmap_ok (fst (setReportIgnored m i r b s))"
  by (simp add: setReportIgnored_def Let_def)

section \<open>Report ignores as sets\<close>

lemma isReportIgnored_iff: "isReportIgnored m i r \<longleftrightarrow> JStr r \<in> ignored_of (map_of m i)"
  by (simp add: isReportIgnored_def ignored_of_def arr_includes_elems split: option.splits)

lemma isReportIgnoreScoped_iff: "isReportIgnoreScoped e r \<longleftrightarrow> JStr r \<in> scoped_of e"
  by (simp add: isReportIgnoreScoped_def scoped_of_def arr_includes_elems split: option.splits)

lemma ignored_of_simps [simp]: "ignored_of None = {}" "ignored_of (Some e) = set (elems (e_ignored e))"
  by (simp_all add: ignored_of_def)

lemma scoped_of_simps [simp]: "scoped_of None = {}" "scoped_of (Some e) = set (elems (e_scoped e))"
  by (simp_all add: scoped_of_def)

lemma elems_keep_reports:
  "elems (keep_reports v) = filter (\<lambda>r. is_str r \<and> r \<noteq> JStr []) (elems v)"
  by (cases v) (simp_all add: keep_reports_def Let_def)

lemma set_elems_keep_scoped:
  "reports_ok ignored \<Longrightarrow> set (elems (keep_scoped v ignored)) = set (elems v) \<inter> set (elems ignored)"
  by (cases v; cases ignored) (auto simp: keep_scoped_def Let_def reports_ok_def list_all_iff filter_empty_conv)

lemma distinct_keep_scoped: "distinct (elems (keep_scoped v ignored))"
  by (cases v) (auto simp: keep_scoped_def Let_def)

lemma ignored_of_normalize:
  "ignored_of (normalizeEntry (Some e)) = {r \<in> set (elems (e_ignored e)). is_str r \<and> r \<noteq> JStr []}"
proof (cases "entryIsEmpty (Some (clean e))")
  case True
  then have "elems (keep_reports (e_ignored e)) = []" by (simp add: entryIsEmpty.simps has_items_def)
  then show ?thesis using True by (auto simp: normalizeEntry.simps elems_keep_reports filter_empty_conv)
next
  case False
  then show ?thesis by (auto simp: normalizeEntry.simps elems_keep_reports)
qed

lemma scoped_of_normalize:
  "scoped_of (normalizeEntry (Some e)) = set (elems (e_scoped e)) \<inter> ignored_of (normalizeEntry (Some e))"
  by (simp add: normalizeEntry.simps set_elems_keep_scoped)

text \<open>An equality test whose right side repeats no report name is exact.\<close>

lemma wb_eff_ignored:
  assumes "distinct (elems (e_ignored e))"
  shows "ignored_of (wb_eff cur (Some e)) = ignored_of (Some e)"
  using ignoredEqual_set [OF _ assms, of "e_ignored (case cur of Some e \<Rightarrow> e | None \<Rightarrow> no_fields)"]
  by (cases cur) (auto simp: wb_eff_def entriesEqual_def Let_def no_fields_def)

lemma wb_eff_scoped:
  assumes "distinct (elems (e_scoped e))"
  shows "scoped_of (wb_eff cur (Some e)) = scoped_of (Some e)"
  using ignoredEqual_set [OF _ assms, of "e_scoped (case cur of Some e \<Rightarrow> e | None \<Rightarrow> no_fields)"]
  by (cases cur) (auto simp: wb_eff_def entriesEqual_def Let_def no_fields_def)

lemma wb_eff_ignored_normalize:
  assumes "distinct (elems (e_ignored e))"
  shows "ignored_of (wb_eff cur (normalizeEntry (Some e))) = ignored_of (normalizeEntry (Some e))"
    and "scoped_of (wb_eff cur (normalizeEntry (Some e))) = scoped_of (normalizeEntry (Some e))"
proof -
  have "distinct (elems (e_ignored (clean e)))" using assms by (simp add: elems_keep_reports)
  moreover have "distinct (elems (e_scoped (clean e)))" by (simp add: distinct_keep_scoped)
  ultimately show "ignored_of (wb_eff cur (normalizeEntry (Some e))) = ignored_of (normalizeEntry (Some e))"
    and "scoped_of (wb_eff cur (normalizeEntry (Some e))) = scoped_of (normalizeEntry (Some e))"
    using wb_eff_ignored [of "clean e" cur] wb_eff_scoped [of "clean e" cur]
    by (auto simp: normalizeEntry.simps wb_eff_def)
qed

lemma ignored_of_ok:
  assumes "tmap_ok m" and "r \<in> ignored_of (map_of m i)"
  shows "is_str r \<and> r \<noteq> JStr []"
proof -
  from assms(2) obtain e where "map_of m i = Some e" "r \<in> set (elems (e_ignored e))"
    by (cases "map_of m i") auto
  moreover from this assms(1) have "reports_ok (e_ignored e)"
    by (auto simp: entry_ok_def dest: tmap_ok_lookup)
  ultimately show ?thesis using reports_ok_str reports_ok_nonempty by blast
qed

lemma scoped_sub_ignored: "tmap_ok m \<Longrightarrow> scoped_of (map_of m i) \<subseteq> ignored_of (map_of m i)"
  by (cases "map_of m i")
    (auto simp: entry_ok_def scoped_ok_def list_all_iff dest!: tmap_ok_lookup)

lemma spread_reports [simp]:
  "e_ignored (spread cur [(Ignored, a), (Scoped, b)]) = a"
  "e_scoped (spread cur [(Ignored, a), (Scoped, b)]) = b"
  by (simp_all add: spread_def)

text \<open>\<open>setReportIgnored\<close> on the two sets it maintains.\<close>

lemma setReportIgnored_sets_any:
  fixes m :: tmap and i r :: string and ign sc :: bool
  assumes ok: "tmap_ok m"
  defines "m' \<equiv> fst (setReportIgnored m i r ign sc)"
  shows "ignored_of (map_of m' i) = (if ign then insert (JStr r) (ignored_of (map_of m i))
      else ignored_of (map_of m i) - {JStr r}) - {JStr []}"
    and "scoped_of (map_of m' i) = (if ign \<and> sc then insert (JStr r) (scoped_of (map_of m i))
       else if ign then scoped_of (map_of m i) else scoped_of (map_of m i) - {JStr r}) - {JStr []}"
proof -
  define names where "names = js_set (case map_of m i of Some e \<Rightarrow> elems (e_ignored e) | None \<Rightarrow> [])"
  define names' where "names' = (if ign then set_add names (JStr r) else set_del names (JStr r))"
  define marks where "marks = js_set (case map_of m i of Some e \<Rightarrow> elems (e_scoped e) | None \<Rightarrow> [])"
  define marks' where "marks' = (if ign \<and> sc then set_add marks (JStr r) else marks)"
  define e where "e = spread (map_of m i)
    [(Ignored, if names' \<noteq> [] then JArr names' else JUndef), (Scoped, JArr marks')]"
  have m': "m' = fst (write_back m i (normalizeEntry (Some e)))"
    by (simp add: m'_def setReportIgnored_def patchEntry_def Let_def e_def names'_def names_def marks'_def marks_def)
  have names: "set names = ignored_of (map_of m i)" "distinct names"
    by (cases "map_of m i"; simp add: names_def)+
  have marks: "set marks = scoped_of (map_of m i)"
    by (cases "map_of m i"; simp add: marks_def)
  have el: "elems (e_ignored e) = names'" by (simp add: e_def)
  have d: "distinct (elems (e_ignored e))" using names(2) by (simp add: el names'_def)
  have strs: "\<And>x. x \<in> set names' \<Longrightarrow> is_str x"
    using ignored_of_ok [OF ok] names by (auto simp: names'_def split: if_splits)
  have ig: "ignored_of (normalizeEntry (Some e)) = set names' - {JStr []}"
    unfolding ignored_of_normalize el using strs by blast
  then have "ignored_of (map_of m' i) = set names' - {JStr []}"
    using wb_eff_ignored_normalize [OF d] by (simp add: m' write_back_lookup)
  then show "ignored_of (map_of m' i) = (if ign then insert (JStr r) (ignored_of (map_of m i))
      else ignored_of (map_of m i) - {JStr r}) - {JStr []}"
    by (simp add: names'_def names)
  have "scoped_of (map_of m' i) = set marks' \<inter> (set names' - {JStr []})"
    using wb_eff_ignored_normalize [OF d] ig scoped_of_normalize [of e]
    by (simp add: m' write_back_lookup) (simp add: e_def)
  then show "scoped_of (map_of m' i) = (if ign \<and> sc then insert (JStr r) (scoped_of (map_of m i))
       else if ign then scoped_of (map_of m i) else scoped_of (map_of m i) - {JStr r}) - {JStr []}"
    using scoped_sub_ignored [OF ok, of i] by (auto simp: marks'_def names'_def names marks)
qed

lemma setReportIgnored_sets:
  assumes "tmap_ok m" and "r \<noteq> []"
  shows "ignored_of (map_of (fst (setReportIgnored m i r ign sc)) i) =
      (if ign then insert (JStr r) (ignored_of (map_of m i)) else ignored_of (map_of m i) - {JStr r})"
    and "scoped_of (map_of (fst (setReportIgnored m i r ign sc)) i) =
      (if ign \<and> sc then insert (JStr r) (scoped_of (map_of m i))
       else if ign then scoped_of (map_of m i) else scoped_of (map_of m i) - {JStr r})"
  using setReportIgnored_sets_any [OF assms(1), of i r ign sc] ignored_of_ok [OF assms(1), of _ i]
    scoped_sub_ignored [OF assms(1), of i] assms(2) by auto

lemma setReportIgnored_frame:
  "j \<noteq> i \<Longrightarrow> map_of (fst (setReportIgnored m i r ign sc)) j = map_of m j"
  by (simp add: setReportIgnored_def patchEntry_def Let_def write_back_lookup)

section \<open>Properties\<close>

text \<open>Whatever a stored or received entry holds, \<open>normalizeEntry\<close> yields either
  nothing or a clean entry (typed fields, known bucket, non-empty report names, scope
  markers only for ignored reports, no legacy field, not empty), a second pass changes
  nothing, and the effective triage bucket is the one the raw entry had.\<close>

theorem normalizeEntry_clean:
  "(case normalizeEntry x of None \<Rightarrow> True | Some e \<Rightarrow> entry_ok e)
   \<and> normalizeEntry (normalizeEntry x) = normalizeEntry x
   \<and> bucketOf (normalizeEntry x) = bucketOf x"
proof -
  have b: "bucketOf (normalizeEntry x) = bucketOf x"
  proof (cases x)
    case None
    then show ?thesis by (simp add: normalizeEntry.simps)
  next
    case (Some e)
    have "bucketOf (Some (clean e)) = bucketOf (Some e)" by (subst bucketOf_clean) simp_all
    moreover have "bucketOf (Some e) = JUndef" if "entryIsEmpty (Some (clean e))"
      using that calculation bucketOf_cases [of "Some e"]
      by (auto simp: entryIsEmpty.simps bucket_names_def)
    ultimately show ?thesis using Some by (simp add: normalizeEntry.simps) (simp add: bucketOf.simps)
  qed
  have "normalizeEntry (normalizeEntry x) = normalizeEntry x"
    by (cases "normalizeEntry x") (simp_all add: normalizeEntry_id normalizeEntry_ok, simp add: normalizeEntry.simps)
  with b show ?thesis by (simp add: normalizeEntry_ok split: option.splits)
qed

text \<open>\<open>patchEntry\<close> keeps the map well formed, touches no other id, leaves under
  the id an entry that says what the merged and normalized entry says, and returns
  \<open>true\<close> exactly when the map changed.\<close>

theorem patchEntry_contract:
  assumes "tmap_ok m"
  shows "tmap_ok (fst (patchEntry m i p))
    \<and> map_of (fst (patchEntry m i p)) = (map_of m)(i := map_of (fst (patchEntry m i p)) i)
    \<and> entriesEqual (map_of (fst (patchEntry m i p)) i) (normalizeEntry (Some (spread (map_of m i) p)))
    \<and> (snd (patchEntry m i p) \<longleftrightarrow> fst (patchEntry m i p) \<noteq> m)"
proof (intro conjI)
  show "tmap_ok (fst (patchEntry m i p))" using assms by simp
  show "map_of (fst (patchEntry m i p)) = (map_of m)(i := map_of (fst (patchEntry m i p)) i)"
    by (rule ext) (simp add: patchEntry_def write_back_lookup)
  show "entriesEqual (map_of (fst (patchEntry m i p)) i) (normalizeEntry (Some (spread (map_of m i) p)))"
    by (cases "normalizeEntry (Some (spread (map_of m i) p))")
      (simp_all add: patchEntry_def write_back_lookup wb_eff_def, simp add: entriesEqual_def Let_def)
  show "snd (patchEntry m i p) \<longleftrightarrow> fst (patchEntry m i p) \<noteq> m"
    by (simp add: patchEntry_def write_back_honest)
qed

theorem patchEntry_contract_witness:
  "tmap_ok [(''f1'', no_fields\<lparr>e_color := JStr ''red''\<rparr>)]
   \<and> tmap_ok (fst (patchEntry [(''f1'', no_fields\<lparr>e_color := JStr ''red''\<rparr>)] ''f1'' [(Color, JUndef)]))
   \<and> fst (patchEntry [(''f1'', no_fields\<lparr>e_color := JStr ''red''\<rparr>)] ''f1'' [(Color, JUndef)]) = []"
proof -
  have ok: "tmap_ok [(''f1'', no_fields\<lparr>e_color := JStr ''red''\<rparr>)]" by code_simp
  have "fst (patchEntry [(''f1'', no_fields\<lparr>e_color := JStr ''red''\<rparr>)] ''f1'' [(Color, JUndef)]) = []"
    by code_simp
  with ok patchEntry_contract [OF ok, of "''f1''" "[(Color, JUndef)]"] show ?thesis by blast
qed

text \<open>On a well-formed map, ignoring or un-ignoring a finding in one report
  changes that report's answer for that finding and no other answer for any report or
  finding; un-ignoring drops the report's scope marker with it.\<close>

theorem setReportIgnored_spec:
  assumes "tmap_ok m" and "r \<noteq> []"
  shows "isReportIgnored (fst (setReportIgnored m i r ign sc)) j q =
      (if j = i \<and> q = r then ign else isReportIgnored m j q)
    \<and> isReportIgnoreScoped (map_of (fst (setReportIgnored m i r ign sc)) j) q =
      (if j = i \<and> q = r then ign \<and> (sc \<or> isReportIgnoreScoped (map_of m j) q)
       else isReportIgnoreScoped (map_of m j) q)"
  using setReportIgnored_sets [OF assms, of i ign sc]
  by (cases "j = i") (auto simp: isReportIgnored_iff isReportIgnoreScoped_iff setReportIgnored_frame)

theorem setReportIgnored_spec_witness:
  "tmap_ok [(''f1'', no_fields\<lparr>e_ignored := JArr [JStr ''a.json'']\<rparr>)]
   \<and> isReportIgnored (fst (setReportIgnored [(''f1'', no_fields\<lparr>e_ignored := JArr [JStr ''a.json'']\<rparr>)]
       ''f1'' ''b.json'' True True)) ''f1'' ''b.json''"
proof -
  have ok: "tmap_ok [(''f1'', no_fields\<lparr>e_ignored := JArr [JStr ''a.json'']\<rparr>)]" by code_simp
  show ?thesis
    using ok setReportIgnored_spec [OF ok, of "''b.json''" "''f1''" True True "''f1''" "''b.json''"] by simp
qed

text \<open>The equality that suppresses a write compares lengths and then one direction of
  membership, so a received list that repeats a name equals a stored one that does not:
  replacing the ignores \<open>a, b\<close> by \<open>a, a\<close> writes nothing and \<open>b\<close> stays ignored.\<close>

theorem setEntry_repeated_name_suppressed:
  "let m = [(''f1'', no_fields\<lparr>e_ignored := JArr [JStr ''a'', JStr ''b'']\<rparr>)];
       wire = Some (no_fields\<lparr>e_ignored := JArr [JStr ''a'', JStr ''a'']\<rparr>)
   in setEntry m ''f1'' wire = (m, False)
    \<and> isReportIgnored (fst (setEntry m ''f1'' wire)) ''f1'' ''b''
    \<and> \<not> isReportIgnored [(''f1'', the (normalizeEntry wire))] ''f1'' ''b''"
  by code_simp

end
