(* ===== verification/TriageChangeset.thy ===== *)
theory TriageChangeset
  imports TriageEntry
begin

text \<open>
  The changeset algebra of the triage sync (\<^verbatim>\<open>src/client/sync/triage-changeset.ts\<close>):
  the state a workspace's chain carries, the changesets between two states, the
  three-way scan for conflicts, and the rebase of local edits over a peer's state.

  A state is an id-to-entry object, here a \<open>tmap\<close> whose entries need not be clean.
  A changeset gives each id an entry, \<open>null\<close> (delete) or \<open>undefined\<close> (nothing).
  The optional set of ids to preserve is a list, empty where it is left out. The
  objects have a null prototype in the code, so a key is only ever an own key.
\<close>

section \<open>Fields as the conflict scan reads them\<close>

datatype change = Put entry | Null | Undef

type_synonym changeset = "(string, change) jsmap"

record conflict =
  c_id :: string
  c_property :: field
  c_local :: jsval
  c_imported :: jsval

definition text_or_empty :: "jsval \<Rightarrow> string" where
  "text_or_empty v = (case v of JStr s \<Rightarrow> s | _ \<Rightarrow> [])"

definition normColor :: "entry option \<Rightarrow> string" where
  "normColor e = (case e of None \<Rightarrow> [] | Some e \<Rightarrow> text_or_empty (e_color e))"

definition normTriage :: "entry option \<Rightarrow> string" where
  "normTriage e = text_or_empty (bucketOf e)"

definition normComment :: "entry option \<Rightarrow> string" where
  "normComment e = (case e of None \<Rightarrow> [] | Some e \<Rightarrow> text_or_empty (e_comment e))"

definition normFix :: "entry option \<Rightarrow> string" where
  "normFix e = (case e of None \<Rightarrow> [] | Some e \<Rightarrow> text_or_empty (e_fix e))"

definition normFlagged :: "entry option \<Rightarrow> string" where
  "normFlagged e = (case e of None \<Rightarrow> [] | Some e \<Rightarrow>
     if e_flagged e = JBool True then ''flagged''
     else if e_flagged e = JBool False then ''not flagged'' else [])"

definition conflict_props :: "(field \<times> (entry option \<Rightarrow> string)) list" where
  "conflict_props = [(Color, normColor), (Triage, normTriage), (Comment, normComment),
     (Fix, normFix), (Flagged, normFlagged)]"

definition prop_conflict ::
  "string \<Rightarrow> bool \<Rightarrow> entry option \<Rightarrow> entry option \<Rightarrow> entry option \<Rightarrow> field \<times> (entry option \<Rightarrow> string) \<Rightarrow> conflict list"
where
  "prop_conflict i preserved oldEntry localEntry chainEntry prop =
     (let name = fst prop; norm = snd prop;
          oldVal = norm oldEntry; localVal = norm localEntry; chainVal = norm chainEntry;
          localChanged = (localVal \<noteq> oldVal \<or> preserved); chainChanged = (chainVal \<noteq> oldVal)
      in if localChanged \<and> chainChanged \<and> localVal \<noteq> chainVal
         then [\<lparr>c_id = i, c_property = name, c_local = JStr localVal, c_imported = JStr chainVal\<rparr>] else [])"

definition overlay_entry :: "changeset \<Rightarrow> string \<Rightarrow> entry option" where
  "overlay_entry overlay i = (case map_of overlay i of Some (Put e) \<Rightarrow> Some e | _ \<Rightarrow> None)"

definition collectChainConflicts :: "changeset \<Rightarrow> tmap \<Rightarrow> tmap \<Rightarrow> string list \<Rightarrow> conflict list" where
  "collectChainConflicts overlay oldBase newBase preserve =
     concat (map (\<lambda>i. concat (map (prop_conflict i (i \<in> set preserve) (map_of oldBase i)
         (overlay_entry overlay i) (map_of newBase i)) conflict_props))
       (map_keys overlay))"

section \<open>Equality, difference, application\<close>

definition ignoredReportsEqual :: "jsval \<Rightarrow> jsval \<Rightarrow> bool" where
  "ignoredReportsEqual a b = (let la = elems a; lb = elems b in
     if length la \<noteq> length lb then False
     else if la = [] then True
     else list_all (\<lambda>r. r \<in> set la) lb)"

text \<open>\<open>entriesEqual\<close> of this file, apart from the one of \<open>triage-entry.ts\<close>: the
  bucket is the raw field here, and a colour compares as it is.\<close>

definition csEntriesEqual :: "entry \<Rightarrow> entry \<Rightarrow> bool" where
  "csEntriesEqual a b =
     (let triageA = coalesce (e_triage a) (if truthy (e_deleted a) then JStr ''deleted'' else JStr []);
          triageB = coalesce (e_triage b) (if truthy (e_deleted b) then JStr ''deleted'' else JStr [])
      in e_color a = e_color b \<and> triageA = triageB
       \<and> or_empty (e_comment a) = or_empty (e_comment b) \<and> or_empty (e_fix a) = or_empty (e_fix b)
       \<and> e_flagged a = e_flagged b \<and> ignoredReportsEqual (e_ignored a) (e_ignored b)
       \<and> ignoredReportsEqual (e_scoped a) (e_scoped b))"

definition entry_at :: "tmap \<Rightarrow> string \<Rightarrow> entry" where
  "entry_at m i = (case map_of m i of Some e \<Rightarrow> e | None \<Rightarrow> no_fields)"

definition statesEqual :: "tmap \<Rightarrow> tmap \<Rightarrow> bool" where
  "statesEqual a b = list_all (\<lambda>i. csEntriesEqual (entry_at a i) (entry_at b i))
     (js_set (map_keys a @ map_keys b))"

definition apply_change :: "string \<times> change \<Rightarrow> tmap \<Rightarrow> tmap" where
  "apply_change c out = (case snd c of Null \<Rightarrow> map_del (fst c) out
     | Put e \<Rightarrow> map_set (fst c) e out | Undef \<Rightarrow> out)"

definition applyChangeset :: "tmap \<Rightarrow> changeset \<Rightarrow> tmap" where
  "applyChangeset base cs = fold apply_change cs base"

definition computeChangeset :: "tmap \<Rightarrow> tmap \<Rightarrow> changeset" where
  "computeChangeset base target =
     map (\<lambda>i. (i, case map_of target i of Some e \<Rightarrow> Put e | None \<Rightarrow> Null))
       (filter (\<lambda>i. \<not> csEntriesEqual (entry_at base i) (entry_at target i))
         (js_set (map_keys base @ map_keys target)))"

definition changesetEmpty :: "changeset \<Rightarrow> bool" where
  "changesetEmpty cs = (cs = [])"

section \<open>Rebasing local edits\<close>

definition rebaseIgnoredReports :: "jsval list \<Rightarrow> jsval list \<Rightarrow> jsval list \<Rightarrow> jsval list" where
  "rebaseIgnoredReports base local remote =
     (let before = js_set base; current = js_set local;
          merged = fold (\<lambda>r acc. if r \<notin> set current then set_del acc r else acc) before (js_set remote)
      in fold (\<lambda>r acc. if r \<notin> set before then set_add acc r else acc) current merged)"

fun get_field :: "field \<Rightarrow> entry \<Rightarrow> jsval" where
  "get_field Color e = e_color e"
| "get_field Triage e = e_triage e"
| "get_field Comment e = e_comment e"
| "get_field Fix e = e_fix e"
| "get_field Flagged e = e_flagged e"
| "get_field Ignored e = e_ignored e"
| "get_field Scoped e = e_scoped e"
| "get_field Deleted e = e_deleted e"

definition or_no_fields :: "entry option \<Rightarrow> entry" where
  "or_no_fields e = (case e of Some e \<Rightarrow> e | None \<Rightarrow> no_fields)"

definition scalar_fields :: "field list" where
  "scalar_fields = [Color, Comment, Fix, Flagged]"

definition rebase_scalars :: "bool \<Rightarrow> entry \<Rightarrow> entry \<Rightarrow> entry \<Rightarrow> entry" where
  "rebase_scalars preserve before current merged =
     fold (\<lambda>f m. if get_field f before \<noteq> get_field f current \<or> preserve
                 then put_field f (get_field f current) m else m) scalar_fields merged"

text \<open>A list of report names as a field: no field where it is empty.\<close>

definition reports_field :: "jsval list \<Rightarrow> jsval" where
  "reports_field reports = (if reports = [] then JUndef else JArr reports)"

definition rebase_reports :: "bool \<Rightarrow> entry \<Rightarrow> entry \<Rightarrow> entry \<Rightarrow> entry" where
  "rebase_reports preserve before current merged =
     (if preserve \<or> e_triage before \<noteq> e_triage current
         \<or> \<not> ignoredReportsEqual (e_ignored before) (e_ignored current) then
        let independentIgnores = (\<not> preserve \<and> allowsReportIgnores (Some current) \<and> allowsReportIgnores (Some merged));
            reports = (if independentIgnores
              then rebaseIgnoredReports (elems (e_ignored before)) (elems (e_ignored current)) (elems (e_ignored merged))
              else elems (e_ignored current));
            merged' = (if \<not> independentIgnores \<or> e_triage before \<noteq> e_triage current
              then merged\<lparr>e_triage := e_triage current\<rparr> else merged)
        in merged'\<lparr>e_ignored := reports_field reports\<rparr>
      else merged)"

definition rebase_entry :: "bool \<Rightarrow> entry option \<Rightarrow> entry option \<Rightarrow> entry option \<Rightarrow> entry option" where
  "rebase_entry preserve base local remote =
     (let before = or_no_fields (normalizeEntry base);
          current = or_no_fields (normalizeEntry local);
          merged = rebase_reports preserve before current
            (rebase_scalars preserve before current (or_no_fields (normalizeEntry remote)))
      in normalizeEntry (Some (merged\<lparr>e_scoped :=
           JArr (js_set (elems (e_scoped current) @ elems (e_scoped merged)))\<rparr>)))"

definition store_entry :: "string \<Rightarrow> entry option \<Rightarrow> tmap \<Rightarrow> tmap" where
  "store_entry i e out = (case e of Some e \<Rightarrow> map_set i e out | None \<Rightarrow> map_del i out)"

definition rebaseLocalState :: "tmap \<Rightarrow> tmap \<Rightarrow> tmap \<Rightarrow> string list \<Rightarrow> tmap" where
  "rebaseLocalState base local remote preserve =
     fold (\<lambda>i out. store_entry i (rebase_entry (i \<in> set preserve) (map_of base i) (map_of local i) (map_of remote i)) out)
       (js_set (map_keys base @ map_keys local @ preserve)) remote"

section \<open>Loops, key by key\<close>

lemma store_entry_lookup: "map_of (store_entry i e out) j = (if j = i then e else map_of out j)"
  by (simp add: store_entry_def split: option.splits)

interpretation change_loop: pointwise_update apply_change fst
  "\<lambda>c cur. case snd c of Null \<Rightarrow> None | Put e \<Rightarrow> Some e | Undef \<Rightarrow> cur"
  by unfold_locales (auto simp: apply_change_def split: change.splits)

interpretation store_loop: pointwise_update "\<lambda>x out. store_entry (fst x) (snd x) out" fst "\<lambda>x _. snd x"
  by unfold_locales (simp_all add: store_entry_lookup)

lemma fold_store_entry:
  assumes "distinct xs"
  shows "map_of (fold (\<lambda>i out. store_entry i (f i) out) xs m) j = (if j \<in> set xs then f j else map_of m j)"
proof -
  have "fold (\<lambda>i out. store_entry i (f i) out) xs m
      = fold (\<lambda>x out. store_entry (fst x) (snd x) out) (map (\<lambda>i. (i, f i)) xs) m"
    by (simp add: fold_map comp_def)
  moreover have "map fst (map (\<lambda>i. (i, f i)) xs) = xs" by (simp add: comp_def)
  ultimately show ?thesis
    using assms store_loop.fold_at [of "map (\<lambda>i. (i, f i)) xs" "(j, f j)" m]
      store_loop.fold_frame [of j "map (\<lambda>i. (i, f i)) xs" m]
    by (auto simp: image_image comp_def)
qed

section \<open>Difference and application\<close>

lemma ignoredReportsEqual_ignoredEqual: "ignoredReportsEqual = ignoredEqual"
  by (intro ext) (simp add: ignoredReportsEqual_def ignoredEqual_def)

lemma csEntriesEqual_refl [simp]: "csEntriesEqual e e"
  by (simp add: csEntriesEqual_def Let_def ignoredReportsEqual_ignoredEqual)

lemma entry_at_absent [simp]: "map_of m i = None \<Longrightarrow> entry_at m i = no_fields"
  by (simp add: entry_at_def)

lemma statesEqual_iff:
  "statesEqual a b \<longleftrightarrow> (\<forall>i. csEntriesEqual (entry_at a i) (entry_at b i))"
proof
  assume eq: "statesEqual a b"
  show "\<forall>i. csEntriesEqual (entry_at a i) (entry_at b i)"
  proof
    fix i
    show "csEntriesEqual (entry_at a i) (entry_at b i)"
    proof (cases "i \<in> set (map_keys a @ map_keys b)")
      case True
      with eq show ?thesis by (auto simp: statesEqual_def list_all_iff)
    next
      case False
      then have "map_of a i = None" and "map_of b i = None" by (simp_all add: map_of_eq_None_iff)
      then show ?thesis by simp
    qed
  qed
qed (simp add: statesEqual_def list_all_iff)

lemma computeChangeset_lookup:
  "map_of (computeChangeset base target) i =
     (if csEntriesEqual (entry_at base i) (entry_at target i) then None
      else Some (case map_of target i of Some e \<Rightarrow> Put e | None \<Rightarrow> Null))"
proof -
  have *: "map_of (map (\<lambda>i. (i, f i)) (filter P xs)) i = (if i \<in> set xs \<and> P i then Some (f i) else None)"
    for f :: "string \<Rightarrow> change" and P and xs :: "string list"
    by (induction xs) auto
  have "csEntriesEqual (entry_at base i) (entry_at target i)"
    if "i \<notin> set (map_keys base @ map_keys target)"
  proof -
    from that have "map_of base i = None" and "map_of target i = None" by (simp_all add: map_of_eq_None_iff)
    then show ?thesis by simp
  qed
  then show ?thesis unfolding computeChangeset_def * by auto
qed

lemma computeChangeset_ok [simp]: "map_ok (computeChangeset base target)"
  by (simp add: map_ok_def computeChangeset_def comp_def)

lemma applyChangeset_lookup:
  assumes "map_ok cs"
  shows "map_of (applyChangeset base cs) i =
    (case map_of cs i of None \<Rightarrow> map_of base i | Some Null \<Rightarrow> None
     | Some (Put e) \<Rightarrow> Some e | Some Undef \<Rightarrow> map_of base i)"
proof (cases "map_of cs i")
  case None
  then have "i \<notin> fst ` set cs" by (simp add: map_of_eq_None_iff)
  then show ?thesis using None by (simp add: applyChangeset_def change_loop.fold_frame)
next
  case (Some c)
  then have "(i, c) \<in> set cs" by (simp add: map_of_SomeD)
  then show ?thesis
    using Some assms change_loop.fold_at [of cs "(i, c)" base]
    by (simp add: applyChangeset_def map_ok_def split: change.splits)
qed

section \<open>What the rebase leaves of an entry\<close>

text \<open>An entry as normalization reads it: \<open>no_fields\<close> where nothing is left.\<close>

definition view :: "entry option \<Rightarrow> entry" where
  "view e = or_no_fields (normalizeEntry e)"

lemma clean_empty: "entryIsEmpty (Some (clean e)) \<Longrightarrow> clean e = no_fields"
proof (rule entry.equality)
  assume *: "entryIsEmpty (Some (clean e))"
  have str: "\<not> truthy (keep_str v) \<Longrightarrow> keep_str v = JUndef" for v
    by (cases v) (auto simp: keep_str_def split: if_splits)
  have rep: "\<not> has_items (keep_reports v) \<Longrightarrow> keep_reports v = JUndef" for v
    by (cases v) (auto simp: keep_reports_def has_items_def Let_def split: if_splits)
  have bkt: "\<not> truthy (bucketOf (Some (clean e))) \<Longrightarrow> bucketOf (Some (clean e)) = JUndef"
    using bucketOf_cases [of "Some (clean e)"] by (auto simp: bucket_names_def)
  have "bucketOf (Some (clean e)) = e_triage (clean e)" by (subst bucketOf_clean) simp_all
  with * bkt show "e_triage (clean e) = e_triage no_fields" by (simp add: entryIsEmpty.simps no_fields_def)
  from * have ig: "keep_reports (e_ignored e) = JUndef" by (auto simp: entryIsEmpty.simps intro: rep)
  then show "e_scoped (clean e) = e_scoped no_fields" by (simp add: keep_scoped_def no_fields_def)
  show "e_ignored (clean e) = e_ignored no_fields" by (simp add: ig no_fields_def)
qed (auto simp: entryIsEmpty.simps no_fields_def keep_str_def split: if_splits)

lemma view_None [simp]: "view None = no_fields"
  by (simp add: view_def or_no_fields_def normalizeEntry.simps)

lemma view_Some [simp]: "view (Some e) = clean e"
  by (simp add: view_def or_no_fields_def normalizeEntry.simps clean_empty)

lemma clean_no_fields [simp]: "clean no_fields = no_fields"
  by code_simp

lemma view_normalize [simp]: "view (normalizeEntry e) = view e"
  using normalizeEntry_clean [of e] by (simp add: view_def)

lemma clean_clean [simp]: "clean (clean e) = clean e"
proof (cases "entryIsEmpty (Some (clean e))")
  case True
  then have "clean e = no_fields" by (rule clean_empty)
  then show ?thesis by (simp only: clean_no_fields)
next
  case False
  then show ?thesis by (intro clean_id clean_ok)
qed

lemma clean_view [simp]: "clean (view e) = view e"
  by (cases e) simp_all

lemma unset_ok [simp]: "opt_str JUndef" "reports_ok JUndef" "scoped_ok JUndef r"
  by (simp_all add: opt_str_def reports_ok_def scoped_ok_def)

lemma no_fields_simps [simp]:
  "e_color no_fields = JUndef" "e_triage no_fields = JUndef" "e_comment no_fields = JUndef"
  "e_fix no_fields = JUndef" "e_flagged no_fields = JUndef" "e_ignored no_fields = JUndef"
  "e_scoped no_fields = JUndef" "e_deleted no_fields = JUndef"
  by (simp_all add: no_fields_def)

lemma view_ok:
  "opt_str (e_color (view e))" "opt_str (e_comment (view e))" "opt_str (e_fix (view e))"
  "e_flagged (view e) = JUndef \<or> is_bool (e_flagged (view e))"
  "asBucket (e_triage (view e)) = e_triage (view e)" "reports_ok (e_ignored (view e))"
  "scoped_ok (e_scoped (view e)) (e_ignored (view e))" "e_deleted (view e) = JUndef"
  by (cases e; simp)+

lemma view_triage: "e_triage (view e) = bucketOf e"
  by (cases e) (simp_all add: bucketOf.simps)

lemma bucketOf_view: "bucketOf (Some (view e)) = bucketOf e"
  by (rule trans [OF bucketOf_clean [OF view_ok(5,8)] view_triage])

lemma allows_view [simp]: "allowsReportIgnores (Some (view e)) = allowsReportIgnores e"
  by (simp add: allowsReportIgnores_def bucketOf_view)

text \<open>The scalar part of the merge.\<close>

lemma rebase_scalars_fields [simp]:
  "e_color (rebase_scalars p b c m) = (if e_color b \<noteq> e_color c \<or> p then e_color c else e_color m)"
  "e_comment (rebase_scalars p b c m) = (if e_comment b \<noteq> e_comment c \<or> p then e_comment c else e_comment m)"
  "e_fix (rebase_scalars p b c m) = (if e_fix b \<noteq> e_fix c \<or> p then e_fix c else e_fix m)"
  "e_flagged (rebase_scalars p b c m) = (if e_flagged b \<noteq> e_flagged c \<or> p then e_flagged c else e_flagged m)"
  "e_triage (rebase_scalars p b c m) = e_triage m" "e_ignored (rebase_scalars p b c m) = e_ignored m"
  "e_scoped (rebase_scalars p b c m) = e_scoped m" "e_deleted (rebase_scalars p b c m) = e_deleted m"
  by (simp_all add: rebase_scalars_def scalar_fields_def)

lemma rebase_reports_fields [simp]:
  "e_color (rebase_reports p b c m) = e_color m" "e_comment (rebase_reports p b c m) = e_comment m"
  "e_fix (rebase_reports p b c m) = e_fix m" "e_flagged (rebase_reports p b c m) = e_flagged m"
  "e_scoped (rebase_reports p b c m) = e_scoped m" "e_deleted (rebase_reports p b c m) = e_deleted m"
  by (simp_all add: rebase_reports_def Let_def)

definition merged_entry :: "bool \<Rightarrow> entry option \<Rightarrow> entry option \<Rightarrow> entry option \<Rightarrow> entry" where
  "merged_entry p b l r =
     rebase_reports p (view b) (view l) (rebase_scalars p (view b) (view l) (view r))"

lemma view_rebase_entry:
  "view (rebase_entry p b l r) = clean (merged_entry p b l r\<lparr>e_scoped :=
     JArr (js_set (elems (e_scoped (view l)) @ elems (e_scoped (merged_entry p b l r))))\<rparr>)"
  by (simp add: rebase_entry_def merged_entry_def view_def [symmetric] Let_def)

lemma keep_str_view [simp]:
  "keep_str (e_color (view e)) = e_color (view e)" "keep_str (e_comment (view e)) = e_comment (view e)"
  "keep_str (e_fix (view e)) = e_fix (view e)"
  by (simp_all add: keep_str_id view_ok)

lemma view_rebase_scalar:
  assumes "f \<in> set scalar_fields"
  shows "get_field f (view (rebase_entry p b l r)) =
    (if get_field f (view b) \<noteq> get_field f (view l) \<or> p then get_field f (view l) else get_field f (view r))"
  using assms view_ok(4) [of l] view_ok(4) [of r]
  by (auto simp: scalar_fields_def view_rebase_entry merged_entry_def)

lemma rebase_lookup:
  "map_of (rebaseLocalState base local remote preserve) i =
     (if i \<in> set (map_keys base) \<union> set (map_keys local) \<union> set preserve
      then rebase_entry (i \<in> set preserve) (map_of base i) (map_of local i) (map_of remote i)
      else map_of remote i)"
  by (simp add: rebaseLocalState_def fold_store_entry Un_assoc)

text \<open>Where local and base have no entry the merge is the remote entry, normalized.\<close>

lemma clean_scoped_again:
  "clean (clean e\<lparr>e_scoped := JArr (js_set (elems (e_scoped (clean e))))\<rparr>) = clean e"
proof -
  have "keep_scoped (JArr (js_set (elems (e_scoped (clean e))))) (e_ignored (clean e)) = e_scoped (clean e)"
  proof (cases "e_scoped (clean e) = JUndef")
    case True
    then show ?thesis by (simp add: keep_scoped_def)
  next
    case False
    then obtain xs where "e_scoped (clean e) = JArr xs" "distinct xs"
      using view_ok(7) [of "Some e"] by (auto simp: scoped_ok_def is_arr_conv)
    then show ?thesis
      using keep_scoped_id [OF view_ok(6) view_ok(7), of "Some e"] by simp
  qed
  moreover have "bucketOf (Some (clean e\<lparr>e_scoped := x\<rparr>)) = bucketOf (Some e)" for x
    by (subst bucketOf_clean) simp_all
  ultimately show ?thesis
    using keep_reports_id [OF keep_reports_ok] keep_str_id [OF keep_str_ok]
    by (intro entry.equality) simp_all
qed

lemma view_rebase_untouched: "view (rebase_entry False None None r) = view r"
proof -
  have "merged_entry False None None r = view r"
    by (intro entry.equality)
      (simp_all add: merged_entry_def rebase_reports_def rebase_scalars_def scalar_fields_def
         ignoredReportsEqual_ignoredEqual)
  moreover obtain e where "view r = clean e" by (metis clean_view)
  moreover have "elems (e_scoped no_fields) = []" by (simp add: no_fields_def)
  ultimately show ?thesis
    using clean_scoped_again [of e] by (simp add: view_rebase_entry)
qed

lemma view_rebase:
  "view (map_of (rebaseLocalState base local remote preserve) i) =
     view (rebase_entry (i \<in> set preserve) (map_of base i) (map_of local i) (map_of remote i))"
proof (cases "i \<in> set (map_keys base) \<union> set (map_keys local) \<union> set preserve")
  case True
  then show ?thesis by (simp add: rebase_lookup)
next
  case False
  then have "map_of base i = None" "map_of local i = None" by (auto simp: map_of_eq_None_iff)
  with False show ?thesis by (simp add: rebase_lookup view_rebase_untouched)
qed

section \<open>Conflicts and normal forms\<close>

lemma view_entry_at: "view (map_of m i) = clean (entry_at m i)"
  by (cases "map_of m i") (simp_all add: entry_at_def)

lemma text_keep_str [simp]: "text_or_empty (keep_str v) = text_or_empty v"
  by (cases v) (auto simp: text_or_empty_def keep_str_def)

lemma text_inj: "opt_str a \<Longrightarrow> opt_str b \<Longrightarrow> text_or_empty a = text_or_empty b \<longleftrightarrow> a = b"
  by (cases a; cases b) (auto simp: text_or_empty_def opt_str_def)

definition norm_of :: "field \<Rightarrow> entry option \<Rightarrow> string" where
  "norm_of f = (case map_of conflict_props f of Some norm \<Rightarrow> norm | None \<Rightarrow> (\<lambda>_. []))"

lemma norm_of_simps [simp]:
  "norm_of Color = normColor" "norm_of Triage = normTriage" "norm_of Comment = normComment"
  "norm_of Fix = normFix" "norm_of Flagged = normFlagged"
  by (simp_all add: norm_of_def conflict_props_def)

text \<open>On the scalar fields, the strings the scan compares agree exactly when the
  normalized fields do.\<close>

lemma norm_eq_iff:
  assumes "f \<in> set scalar_fields"
  shows "norm_of f a = norm_of f b \<longleftrightarrow> get_field f (view a) = get_field f (view b)"
proof -
  have strs: "normColor e = text_or_empty (e_color (view e)) \<and> normComment e = text_or_empty (e_comment (view e))
      \<and> normFix e = text_or_empty (e_fix (view e))" for e
    by (cases e) (simp_all add: normColor_def normComment_def normFix_def, simp add: text_or_empty_def)
  have flagged: "normFlagged e = (case e_flagged (view e) of JBool True \<Rightarrow> ''flagged''
      | JBool False \<Rightarrow> ''not flagged'' | _ \<Rightarrow> [])" for e
    by (cases e) (auto simp: normFlagged_def is_bool_conv split: jsval.splits)
  have flag_inj: "normFlagged a = normFlagged b \<longleftrightarrow> e_flagged (view a) = e_flagged (view b)"
    using view_ok(4) [of a] view_ok(4) [of b] by (auto simp: flagged is_bool_conv split: bool.splits)
  show ?thesis
    using assms view_ok(1-3) [of a] view_ok(1-3) [of b]
    by (auto simp: scalar_fields_def strs text_inj flag_inj)
qed

lemma csEntriesEqual_view:
  assumes "csEntriesEqual (entry_at a i) (entry_at b i)" and "f \<in> set scalar_fields"
  shows "get_field f (view (map_of a i)) = get_field f (view (map_of b i))"
proof -
  have "keep_str (or_empty v) = keep_str v" for v
    by (cases v) (simp_all add: or_empty_def keep_str_def)
  then have "or_empty v = or_empty w \<Longrightarrow> keep_str v = keep_str w" for v w by metis
  then have "keep_str (e_comment (entry_at a i)) = keep_str (e_comment (entry_at b i))"
    "keep_str (e_fix (entry_at a i)) = keep_str (e_fix (entry_at b i))"
    using assms(1) unfolding csEntriesEqual_def Let_def by blast+
  moreover have "e_color (entry_at a i) = e_color (entry_at b i)" "e_flagged (entry_at a i) = e_flagged (entry_at b i)"
    using assms(1) unfolding csEntriesEqual_def Let_def by blast+
  ultimately have "get_field f (clean (entry_at a i)) = get_field f (clean (entry_at b i))"
    using assms(2) by (auto simp: scalar_fields_def)
  then show ?thesis by (simp add: view_entry_at)
qed

lemma computeChangeset_local:
  assumes "i \<in> set (map_keys (computeChangeset base local))"
  shows "overlay_entry (computeChangeset base local) i = map_of local i"
proof -
  from assms have "map_of (computeChangeset base local) i \<noteq> None" by (simp add: map_of_eq_None_iff)
  then show ?thesis by (auto simp: computeChangeset_lookup overlay_entry_def split: option.splits if_splits)
qed

lemma conflict_intro:
  assumes "i \<in> set (map_keys overlay)" and "f \<in> set scalar_fields"
    and "norm_of f (overlay_entry overlay i) \<noteq> norm_of f (map_of old i)"
    and "norm_of f (map_of new i) \<noteq> norm_of f (map_of old i)"
    and "norm_of f (overlay_entry overlay i) \<noteq> norm_of f (map_of new i)"
  shows "collectChainConflicts overlay old new p \<noteq> []"
proof -
  let ?conf = "prop_conflict i (i \<in> set p) (map_of old i) (overlay_entry overlay i) (map_of new i)"
  have "(f, norm_of f) \<in> set conflict_props"
    using assms(2) by (auto simp: scalar_fields_def conflict_props_def)
  moreover have "?conf (f, norm_of f) \<noteq> []"
    using assms(3-5) by (simp add: prop_conflict_def Let_def)
  ultimately have "concat (map ?conf conflict_props) \<noteq> []" by auto
  with assms(1) show ?thesis unfolding collectChainConflicts_def by fastforce
qed

section \<open>The merge of report ignores\<close>

lemma elems_reports_field [simp]: "elems (reports_field xs) = xs"
  by (simp add: reports_field_def)

lemma set_rebaseIgnoredReports:
  "set (rebaseIgnoredReports b l r) = {x. if x \<in> set b then x \<in> set l \<and> x \<in> set r else x \<in> set l \<or> x \<in> set r}"
proof -
  have del: "set (fold (\<lambda>r acc. if r \<notin> C then set_del acc r else acc) xs acc) = set acc - {x \<in> set xs. x \<notin> C}"
    for xs acc and C :: "jsval set"
    by (induction xs arbitrary: acc) auto
  have add: "set (fold (\<lambda>r acc. if r \<notin> C then set_add acc r else acc) xs acc) = set acc \<union> {x \<in> set xs. x \<notin> C}"
    for xs acc and C :: "jsval set"
    by (induction xs arbitrary: acc) auto
  show ?thesis unfolding rebaseIgnoredReports_def Let_def add del by auto
qed

lemma allows_scalars [simp]:
  "allowsReportIgnores (Some (rebase_scalars p b c (view r))) = allowsReportIgnores r"
proof -
  have "bucketOf (Some (rebase_scalars p b c (view r))) = bucketOf (Some (view r))"
    by (simp add: bucketOf.simps)
  then show ?thesis by (simp add: allowsReportIgnores_def bucketOf_view)
qed

lemma merged_strs:
  assumes "x \<in> set (elems (e_ignored (merged_entry p b l r)))"
  shows "is_str x \<and> x \<noteq> JStr []"
proof -
  have v: "x \<in> set (elems (e_ignored (view e))) \<Longrightarrow> is_str x \<and> x \<noteq> JStr []" for e
    using view_ok(6) [of e] reports_ok_str reports_ok_nonempty by blast
  from assms have "x \<in> set (elems (e_ignored (view l))) \<union> set (elems (e_ignored (view r)))"
    by (auto simp: merged_entry_def rebase_reports_def Let_def set_rebaseIgnoredReports split: if_splits)
  with v show ?thesis by blast
qed

lemma view_rebase_ignored:
  "set (elems (e_ignored (view (rebase_entry p b l r)))) = set (elems (e_ignored (merged_entry p b l r)))"
  by (auto simp: view_rebase_entry elems_keep_reports dest: merged_strs)

lemma merged_deleted [simp]: "e_deleted (merged_entry p b l r) = JUndef"
  by (simp add: merged_entry_def view_ok)

lemma merged_bucket: "asBucket (e_triage (merged_entry p b l r)) = e_triage (merged_entry p b l r)"
  by (simp add: merged_entry_def rebase_reports_def Let_def view_ok)

lemma view_rebase_triage: "e_triage (view (rebase_entry p b l r)) = e_triage (merged_entry p b l r)"
  using merged_bucket by (simp add: view_rebase_entry) (subst bucketOf_clean; simp)

section \<open>Properties\<close>


text \<open>C19: after a rebase, each of colour, comment, fix link and flag of every finding
  is the local value where the local side changed it since the common base (or the id is to be
  preserved), and the remote value everywhere else, so a peer's edit of another field of the
  same finding survives.\<close>

theorem rebase_scalar_merge:
  assumes "f \<in> set scalar_fields"
  shows "get_field f (view (map_of (rebaseLocalState base local remote preserve) i)) =
    (if get_field f (view (map_of base i)) \<noteq> get_field f (view (map_of local i)) \<or> i \<in> set preserve
     then get_field f (view (map_of local i)) else get_field f (view (map_of remote i)))"
  by (simp add: view_rebase view_rebase_scalar [OF assms])

theorem rebase_scalar_merge_witness:
  "let base = [(''f'', no_fields\<lparr>e_color := JStr ''red'', e_comment := JStr ''hm''\<rparr>)];
       local = [(''f'', no_fields\<lparr>e_color := JStr ''blue'', e_comment := JStr ''hm''\<rparr>)];
       remote = [(''f'', no_fields\<lparr>e_color := JStr ''red'', e_comment := JStr ''ok''\<rparr>)]
   in get_field Color (view (map_of (rebaseLocalState base local remote []) ''f'')) = JStr ''blue''
    \<and> get_field Comment (view (map_of (rebaseLocalState base local remote []) ''f'')) = JStr ''ok''"
proof -
  have c: "Color \<in> set scalar_fields" and t: "Comment \<in> set scalar_fields" by (simp_all add: scalar_fields_def)
  show ?thesis
    by (simp add: Let_def rebase_scalar_merge [OF c, simplified] rebase_scalar_merge [OF t, simplified] keep_str_def)
qed

text \<open>Where both sides are free to carry report ignores, the ignores of a finding
  merge one report at a time: a report of the common base stays ignored when both sides kept
  it, any other is ignored when either side added it; and the bucket is the local one exactly
  where the local side changed it.\<close>

theorem rebase_ignore_merge:
  assumes "i \<notin> set preserve"
    and "allowsReportIgnores (map_of local i)" and "allowsReportIgnores (map_of remote i)"
    and "distinct (elems (e_ignored (view (map_of local i))))"
  shows "(x \<in> set (elems (e_ignored (view (map_of (rebaseLocalState base local remote preserve) i))))) =
      (let B = set (elems (e_ignored (view (map_of base i))));
           L = set (elems (e_ignored (view (map_of local i))));
           R = set (elems (e_ignored (view (map_of remote i))))
       in if x \<in> B then x \<in> L \<and> x \<in> R else x \<in> L \<or> x \<in> R)
    \<and> bucketOf (map_of (rebaseLocalState base local remote preserve) i) =
      (if bucketOf (map_of base i) \<noteq> bucketOf (map_of local i)
       then bucketOf (map_of local i) else bucketOf (map_of remote i))"
proof -
  let ?b = "view (map_of base i)" and ?l = "view (map_of local i)" and ?r = "view (map_of remote i)"
  let ?m = "merged_entry False (map_of base i) (map_of local i) (map_of remote i)"
  have same: "set (elems (e_ignored ?l)) = set (elems (e_ignored ?b))"
    if "ignoredReportsEqual (e_ignored ?b) (e_ignored ?l)"
    using ignoredEqual_set [OF _ assms(4)] that by (simp add: ignoredReportsEqual_ignoredEqual)
  have ig: "set (elems (e_ignored ?m)) =
      {x. if x \<in> set (elems (e_ignored ?b)) then x \<in> set (elems (e_ignored ?l)) \<and> x \<in> set (elems (e_ignored ?r))
          else x \<in> set (elems (e_ignored ?l)) \<or> x \<in> set (elems (e_ignored ?r))}"
    using same assms(2,3)
    by (auto simp: merged_entry_def rebase_reports_def Let_def set_rebaseIgnoredReports split: if_splits)
  have tr: "e_triage ?m = (if e_triage ?b \<noteq> e_triage ?l then e_triage ?l else e_triage ?r)"
    using assms(2,3) by (simp add: merged_entry_def rebase_reports_def Let_def)
  have "set (elems (e_ignored (view (map_of (rebaseLocalState base local remote preserve) i)))) = set (elems (e_ignored ?m))"
    using assms(1) by (simp add: view_rebase view_rebase_ignored)
  moreover have "bucketOf (map_of (rebaseLocalState base local remote preserve) i) = e_triage ?m"
    using assms(1) by (simp add: view_triage [symmetric] view_rebase view_rebase_triage)
  ultimately show ?thesis by (simp add: ig tr view_triage)
qed

theorem rebase_ignore_merge_witness:
  "let base = [(''f'', no_fields\<lparr>e_ignored := JArr [JStr ''a'', JStr ''b'']\<rparr>)];
       local = [(''f'', no_fields\<lparr>e_ignored := JArr [JStr ''b'']\<rparr>)];
       remote = [(''f'', no_fields\<lparr>e_ignored := JArr [JStr ''a'', JStr ''b'', JStr ''c'']\<rparr>)];
       names = elems (e_ignored (view (map_of (rebaseLocalState base local remote []) ''f'')))
   in JStr ''a'' \<notin> set names \<and> JStr ''b'' \<in> set names \<and> JStr ''c'' \<in> set names"
proof -
  let ?base = "[(''f'', no_fields\<lparr>e_ignored := JArr [JStr ''a'', JStr ''b'']\<rparr>)]"
  let ?local = "[(''f'', no_fields\<lparr>e_ignored := JArr [JStr ''b'']\<rparr>)]"
  let ?remote = "[(''f'', no_fields\<lparr>e_ignored := JArr [JStr ''a'', JStr ''b'', JStr ''c'']\<rparr>)]"
  have h: "''f'' \<notin> set []" "allowsReportIgnores (map_of ?local ''f'')" "allowsReportIgnores (map_of ?remote ''f'')"
    "distinct (elems (e_ignored (view (map_of ?local ''f''))))"
    by (simp, code_simp, code_simp, code_simp)
  show ?thesis
    using rebase_ignore_merge [OF h, of "JStr ''a''" ?base] rebase_ignore_merge [OF h, of "JStr ''b''" ?base]
      rebase_ignore_merge [OF h, of "JStr ''c''" ?base]
    by (simp add: Let_def elems_keep_reports)
qed



end
