(* ===== verification/TriageProjection.thy ===== *)
theory TriageProjection
  imports TriageChangeset
begin

text \<open>
  The bridge between the live triage map and the state a workspace's chain carries
  (\<^verbatim>\<open>src/client/sync/triage-state-projection.ts\<close>): the overlay of the live
  entries a save represents, the gap-only hydration of newly loaded findings with its
  conflicts, the user's answers to those conflicts, and the replacement of live entries by
  an incoming state. \<open>syncHost().state.triage\<close> is the argument \<open>live\<close>, returned updated.
\<close>

section \<open>Reading\<close>

definition effectiveLocalState :: "tmap \<Rightarrow> tmap \<Rightarrow> string list \<Rightarrow> tmap" where
  "effectiveLocalState base live ids =
     fold (\<lambda>i out. store_entry i (normalizeEntry (map_of live i)) out) (js_set ids) base"

section \<open>Gap-only hydration\<close>

type_synonym hydration = "tmap \<times> conflict list"

text \<open>One text field: \<open>if (entry.color) { \<dots> }\<close> and the two like it.\<close>

definition hydrate_text :: "string \<Rightarrow> entry \<Rightarrow> entry option \<Rightarrow> field \<Rightarrow> hydration \<Rightarrow> hydration" where
  "hydrate_text i entry cur f s =
     (let imported = get_field f entry; local = get_field f (or_no_fields cur) in
      if \<not> truthy imported then s
      else if local = JUndef then (fst (patchEntry (fst s) i [(f, imported)]), snd s)
      else if local \<noteq> imported
        then (fst s, snd s @ [\<lparr>c_id = i, c_property = f, c_local = local, c_imported = imported\<rparr>])
      else s)"

definition hydrate_triage :: "string \<Rightarrow> entry \<Rightarrow> entry option \<Rightarrow> hydration \<Rightarrow> hydration" where
  "hydrate_triage i entry cur s =
     (let triageNext = bucketOf (Some entry); local = bucketOf cur in
      if \<not> truthy triageNext then s
      else if local = JUndef then (fst (patchEntry (fst s) i [(Triage, triageNext)]), snd s)
      else if local \<noteq> triageNext
        then (fst s, snd s @ [\<lparr>c_id = i, c_property = Triage, c_local = local, c_imported = triageNext\<rparr>])
      else s)"

definition flag_token :: "jsval \<Rightarrow> jsval" where
  "flag_token v = JStr (if truthy v then ''flagged'' else ''not flagged'')"

definition hydrate_flagged :: "string \<Rightarrow> entry \<Rightarrow> entry option \<Rightarrow> hydration \<Rightarrow> hydration" where
  "hydrate_flagged i entry cur s =
     (let imported = e_flagged entry; local = e_flagged (or_no_fields cur) in
      if \<not> is_bool imported then s
      else if local = JUndef then (fst (patchEntry (fst s) i [(Flagged, imported)]), snd s)
      else if local \<noteq> imported
        then (fst s, snd s @ [\<lparr>c_id = i, c_property = Flagged, c_local = flag_token local,
               c_imported = flag_token imported\<rparr>])
      else s)"

definition hydrate_report :: "string \<Rightarrow> entry \<Rightarrow> entry option \<Rightarrow> jsval \<Rightarrow> tmap \<Rightarrow> tmap" where
  "hydrate_report i entry cur r live =
     (case r of
        JStr report \<Rightarrow>
          if has_items (e_ignored (or_no_fields cur)) \<and> \<not> arr_includes (e_ignored (or_no_fields cur)) r then live
          else fst (setReportIgnored live i report True (isReportIgnoreScoped (Some entry) report))
      | _ \<Rightarrow> live)"

definition hydrate_reports :: "string \<Rightarrow> entry \<Rightarrow> entry option \<Rightarrow> hydration \<Rightarrow> hydration" where
  "hydrate_reports i entry cur s =
     (let triageEffectivelySet = (\<not> allowsReportIgnores (Some entry) \<or> \<not> allowsReportIgnores cur) in
      if triageEffectivelySet \<or> \<not> is_arr (e_ignored entry) then s
      else (fold (hydrate_report i entry cur) (elems (e_ignored entry)) (fst s), snd s))"

definition hydrate_id :: "tmap \<Rightarrow> string \<Rightarrow> hydration \<Rightarrow> hydration" where
  "hydrate_id base i s =
     (case map_of base i of
        None \<Rightarrow> s
      | Some entry \<Rightarrow>
          let cur = map_of (fst s) i in
          hydrate_reports i entry cur (hydrate_flagged i entry cur (hydrate_text i entry cur Fix
            (hydrate_text i entry cur Comment (hydrate_triage i entry cur (hydrate_text i entry cur Color s))))))"

definition hydrateStateFromBaseState :: "tmap \<Rightarrow> tmap \<Rightarrow> string list \<Rightarrow> hydration" where
  "hydrateStateFromBaseState base live ids = fold (hydrate_id base) ids (live, [])"

section \<open>The answers to the conflicts\<close>

fun prop_name :: "field \<Rightarrow> string" where
  "prop_name Color = ''color''"
| "prop_name Triage = ''triage''"
| "prop_name Comment = ''comment''"
| "prop_name Fix = ''fix''"
| "prop_name Flagged = ''flagged''"
| "prop_name Ignored = ''ignoredReports''"
| "prop_name Scoped = ''scopedIgnoredReports''"
| "prop_name Deleted = ''deleted''"

definition currentLocalValue :: "tmap \<Rightarrow> string \<Rightarrow> field \<Rightarrow> jsval" where
  "currentLocalValue live i f =
     (let entry = map_of live i; e = or_no_fields entry in
      if f = Color then or_empty (e_color e)
      else if f = Triage then or_empty (bucketOf entry)
      else if f = Comment then or_empty (e_comment e)
      else if f = Fix then or_empty (e_fix e)
      else if f = Flagged then (if e_flagged e = JBool True then JStr ''flagged''
        else if e_flagged e = JBool False then JStr ''not flagged'' else JStr [])
      else JStr [])"

definition decision_patch :: "conflict \<Rightarrow> patch" where
  "decision_patch c =
     (if c_property c = Color then [(Color, c_imported c)]
      else if c_property c = Comment then [(Comment, c_imported c)]
      else if c_property c = Fix then [(Fix, c_imported c)]
      else if c_property c = Triage then
        (if c_imported c \<in> set (map JStr bucket_names)
         then (Triage, c_imported c) # (if c_imported c = JStr ''ignored'' then [] else [(Ignored, JUndef)])
         else [(Triage, JUndef)])
      else if c_property c = Flagged then
        [(Flagged, if c_imported c = JStr ''flagged'' then JBool True
                   else if c_imported c = JStr ''not flagged'' then JBool False else JUndef)]
      else [])"

definition apply_decision :: "(string, string) jsmap \<Rightarrow> conflict \<Rightarrow> tmap \<Rightarrow> tmap" where
  "apply_decision decisions c live =
     (if map_of decisions (c_id c @ '':'' @ prop_name (c_property c)) \<noteq> Some ''imported'' then live
      else if currentLocalValue live (c_id c) (c_property c) \<noteq> c_local c then live
      else if c_property c \<in> {Color, Triage, Comment, Fix, Flagged}
        then fst (patchEntry live (c_id c) (decision_patch c)) else live)"

definition applyHydrationDecisions :: "conflict list \<Rightarrow> (string, string) jsmap \<Rightarrow> tmap \<Rightarrow> tmap" where
  "applyHydrationDecisions conflicts decisions live = fold (apply_decision decisions) conflicts live"

section \<open>Writing an incoming state\<close>

definition apply_target :: "tmap \<Rightarrow> string \<Rightarrow> tmap \<Rightarrow> tmap" where
  "apply_target target i live =
     (let entry = map_of target i;
          ignoredReports = (if allowsReportIgnores entry then e_ignored (or_no_fields entry) else JUndef)
      in fst (setEntry live i (Some (spread entry [(Ignored, ignoredReports)]))))"

definition applyToReactiveState :: "tmap \<Rightarrow> tmap \<Rightarrow> string list \<Rightarrow> tmap" where
  "applyToReactiveState target live ids = fold (apply_target target) (js_set ids) live"

section \<open>Lemmas\<close>

lemma effective_lookup:
  "map_of (effectiveLocalState base live ids) i =
     (if i \<in> set ids then normalizeEntry (map_of live i) else map_of base i)"
  by (simp add: effectiveLocalState_def fold_store_entry)

interpretation target_loop: pointwise_update "apply_target target" "\<lambda>i. i"
  "\<lambda>i cur. wb_eff cur (normalizeEntry (Some (spread (map_of target i)
     [(Ignored, if allowsReportIgnores (map_of target i) then e_ignored (or_no_fields (map_of target i)) else JUndef)])))"
  for target
  by unfold_locales (simp_all add: apply_target_def Let_def setEntry_def write_back_lookup)

lemma applyToReactiveState_tmap_ok: "tmap_ok live \<Longrightarrow> tmap_ok (applyToReactiveState target live ids)"
  unfolding applyToReactiveState_def
  by (rule fold_invariant) (simp_all add: apply_target_def Let_def)

text \<open>The fields a patch of one scalar field or of the bucket is read back through.\<close>

definition main_fields :: "field list" where
  "main_fields = [Color, Triage, Comment, Fix, Flagged]"

lemma main_fields_mem [simp]:
  "Color \<in> set main_fields" "Triage \<in> set main_fields" "Comment \<in> set main_fields"
  "Fix \<in> set main_fields" "Flagged \<in> set main_fields"
  by (simp_all add: main_fields_def)

lemma main_fields_cases:
  "f \<in> set main_fields \<longleftrightarrow> f = Color \<or> f = Triage \<or> f = Comment \<or> f = Fix \<or> f = Flagged"
  by (simp add: main_fields_def)

lemma entriesEqual_view:
  assumes "entriesEqual a b" and "f \<in> set main_fields"
  shows "get_field f (view a) = get_field f (view b)"
proof -
  have keep: "or_empty v = or_empty w \<Longrightarrow> keep_str v = keep_str w" for v w
  proof -
    have "keep_str (or_empty u) = keep_str u" for u by (cases u) (simp_all add: or_empty_def keep_str_def)
    then show "or_empty v = or_empty w \<Longrightarrow> keep_str v = keep_str w" by metis
  qed
  have bucket: "or_empty (bucketOf x) = or_empty (bucketOf y) \<Longrightarrow> bucketOf x = bucketOf y" for x y
    using bucketOf_cases [of x] bucketOf_cases [of y] by (auto simp: or_empty_def bucket_names_def)
  have v: "view e = clean (or_no_fields e)" for e by (cases e) (simp_all add: or_no_fields_def)
  let ?a = "or_no_fields a" and ?b = "or_no_fields b"
  have "or_empty (e_color ?a) = or_empty (e_color ?b)" "or_empty (bucketOf (Some ?a)) = or_empty (bucketOf (Some ?b))"
    "or_empty (e_comment ?a) = or_empty (e_comment ?b)" "or_empty (e_fix ?a) = or_empty (e_fix ?b)"
    "e_flagged ?a = e_flagged ?b"
    using assms(1) unfolding entriesEqual_def Let_def or_no_fields_def by blast+
  with assms(2) show ?thesis by (auto simp: main_fields_cases v dest: keep bucket)
qed

lemma view_write_back:
  assumes "f \<in> set main_fields"
  shows "get_field f (view (map_of (fst (write_back m i next)) i)) = get_field f (view next)"
proof (cases "next")
  case None
  then show ?thesis by (simp add: write_back_lookup wb_eff_def)
next
  case (Some e)
  then show ?thesis
    using entriesEqual_view [OF _ assms] by (auto simp: write_back_lookup wb_eff_def)
qed

lemma view_patchEntry:
  assumes "f \<in> set main_fields"
  shows "get_field f (view (map_of (fst (patchEntry m i p)) i)) = get_field f (clean (spread (map_of m i) p))"
  by (simp add: patchEntry_def view_write_back [OF assms])

lemma view_ok_entry: "entry_ok e \<Longrightarrow> view (Some e) = e"
  by (simp add: clean_id)

section \<open>Hydration, field by field\<close>

fun norm_field :: "field \<Rightarrow> jsval \<Rightarrow> jsval" where
  "norm_field Triage v = asBucket v"
| "norm_field Flagged v = (if is_bool v then v else JUndef)"
| "norm_field f v = keep_str v"

text \<open>An entry of a well-formed map, or none, and the value the code reads of its fields.\<close>

definition cur_ok :: "entry option \<Rightarrow> bool" where
  "cur_ok cur = (case cur of None \<Rightarrow> True | Some e \<Rightarrow> entry_ok e)"

lemma cur_ok_lookup: "tmap_ok m \<Longrightarrow> cur_ok (map_of m i)"
  by (auto simp: cur_ok_def tmap_ok_lookup split: option.splits)

lemma cur_ok_view: "cur_ok cur \<Longrightarrow> or_no_fields cur = view cur"
  by (cases cur) (simp_all add: cur_ok_def or_no_fields_def clean_id)

lemma view_set_main:
  assumes "f \<in> set main_fields" and "g \<in> set main_fields"
  shows "get_field g (clean (put_field f v (view e))) = (if g = f then norm_field f v else get_field g (view e))"
proof -
  have flag: "(if is_bool (e_flagged (view e)) then e_flagged (view e) else JUndef) = e_flagged (view e)"
    using view_ok(4) [of e] by auto
  have b1: "bucketOf (Some (put_field Triage v (view e))) = asBucket v"
    using asBucket_cases [of v] by (auto simp: bucketOf.simps view_ok)
  have b2: "bucketOf (Some (put_field h v (view e))) = bucketOf (Some (view e))"
    if "h \<in> {Color, Comment, Fix, Flagged}" for h
    using that by (auto simp: bucketOf.simps)
  show ?thesis
    using assms b1 b2 [of f] flag by (auto simp: main_fields_cases bucketOf_view view_triage)
qed

lemma patch_main:
  assumes "tmap_ok m" and "f \<in> set main_fields" and "g \<in> set main_fields"
  shows "get_field g (view (map_of (fst (patchEntry m i [(f, v)])) i)) =
    (if g = f then norm_field f v else get_field g (view (map_of m i)))"
proof -
  have "spread (map_of m i) [(f, v)] = put_field f v (view (map_of m i))"
    using cur_ok_view [OF cur_ok_lookup [OF assms(1)], of i] by (simp add: spread_def or_no_fields_def)
  then show ?thesis by (simp add: view_patchEntry [OF assms(3)] view_set_main [OF assms(2,3)])
qed

lemma patch_frame: "j \<noteq> i \<Longrightarrow> map_of (fst (patchEntry m i p)) j = map_of m j"
  by (simp add: patchEntry_def write_back_lookup)

lemma setReportIgnored_main:
  assumes "tmap_ok m" and "g \<in> set main_fields"
  shows "get_field g (view (map_of (fst (setReportIgnored m i r b sc)) i)) = get_field g (view (map_of m i))"
proof -
  have sp: "spread (map_of m i) [(Ignored, a), (Scoped, c)] = (view (map_of m i))\<lparr>e_ignored := a, e_scoped := c\<rparr>" for a c
    using cur_ok_view [OF cur_ok_lookup [OF assms(1)], of i] by (simp add: spread_def or_no_fields_def)
  have "bucketOf (Some ((view e)\<lparr>e_ignored := a, e_scoped := c\<rparr>)) = bucketOf (Some (view e))" for e a c
    by (simp add: bucketOf.simps)
  then have "get_field g (clean ((view (map_of m i))\<lparr>e_ignored := a, e_scoped := c\<rparr>)) = get_field g (view (map_of m i))" for a c
    using assms(2) view_ok(4) [of "map_of m i"] by (auto simp: main_fields_cases bucketOf_view view_triage)
  then show ?thesis
    by (simp add: setReportIgnored_def Let_def view_patchEntry [OF assms(2)] sp)
qed

text \<open>What one step of hydration may do: keep the map well formed, touch the one id, fill
  the one field where it was unset.\<close>

definition fills :: "string \<Rightarrow> field \<Rightarrow> bool \<Rightarrow> jsval \<Rightarrow> tmap \<Rightarrow> tmap \<Rightarrow> bool" where
  "fills i f gap v m m' =
     (tmap_ok m' \<and> (\<forall>j. j \<noteq> i \<longrightarrow> map_of m' j = map_of m j)
      \<and> (\<forall>g \<in> set main_fields. get_field g (view (map_of m' i)) =
           (if g = f \<and> gap then v else get_field g (view (map_of m i)))))"

lemma fills_same: "tmap_ok m \<Longrightarrow> \<not> gap \<or> get_field f (view (map_of m i)) = v \<Longrightarrow> fills i f gap v m m"
  by (auto simp: fills_def)

lemma fills_patch:
  "tmap_ok m \<Longrightarrow> f \<in> set main_fields \<Longrightarrow> gap \<Longrightarrow> v = norm_field f w \<Longrightarrow>
    fills i f gap v m (fst (patchEntry m i [(f, w)]))"
  using patch_main [of m f] by (simp add: fills_def patch_frame)

lemma keep_str_falsy: "\<not> truthy v \<Longrightarrow> keep_str v = JUndef"
  by (simp add: keep_str_def)

text \<open>The three kinds of step.\<close>

lemma hydrate_text_fills:
  assumes "tmap_ok (fst s)" and "cur_ok cur" and "f \<in> {Color, Comment, Fix}"
    and "get_field f (view (map_of (fst s) i)) = get_field f (view cur)"
  shows "fills i f (get_field f (view cur) = JUndef) (get_field f (view (Some entry)))
    (fst s) (fst (hydrate_text i entry cur f s))"
proof -
  have v: "get_field f (view (Some entry)) = keep_str (get_field f entry)"
    "norm_field f (get_field f entry) = keep_str (get_field f entry)" and f: "f \<in> set main_fields"
    using assms(3) by auto
  show ?thesis
    using assms(1,4) f unfolding v hydrate_text_def Let_def cur_ok_view [OF assms(2)]
    by (auto simp: v(2) keep_str_falsy intro!: fills_same fills_patch)
qed

lemma hydrate_triage_fills:
  assumes "tmap_ok (fst s)" and "cur_ok cur"
    and "get_field Triage (view (map_of (fst s) i)) = get_field Triage (view cur)"
  shows "fills i Triage (get_field Triage (view cur) = JUndef) (get_field Triage (view (Some entry)))
    (fst s) (fst (hydrate_triage i entry cur s))"
proof -
  have v: "get_field Triage (view (Some entry)) = bucketOf (Some entry)"
    "get_field Triage (view cur) = bucketOf cur" by (simp_all add: view_triage)
  have "\<not> truthy (bucketOf (Some entry)) \<Longrightarrow> bucketOf (Some entry) = JUndef"
    using bucketOf_cases [of "Some entry"] by (auto simp: bucket_names_def)
  then show ?thesis
    using assms(1,3) unfolding v hydrate_triage_def Let_def
    by (auto intro!: fills_same fills_patch)
qed

lemma hydrate_flagged_fills:
  assumes "tmap_ok (fst s)" and "cur_ok cur"
    and "get_field Flagged (view (map_of (fst s) i)) = get_field Flagged (view cur)"
  shows "fills i Flagged (get_field Flagged (view cur) = JUndef) (get_field Flagged (view (Some entry)))
    (fst s) (fst (hydrate_flagged i entry cur s))"
  using assms(1,3) unfolding hydrate_flagged_def Let_def cur_ok_view [OF assms(2)]
  by (auto intro!: fills_same fills_patch)

lemma hydrate_report_fills:
  assumes "tmap_ok m"
  shows "fills i f False v m (hydrate_report i entry cur r m)"
  using assms setReportIgnored_main [OF assms]
  by (auto simp: hydrate_report_def fills_def setReportIgnored_frame split: jsval.splits)

lemma fills_trans_none:
  "fills i f gap v m m' \<Longrightarrow> fills i g False w m' m'' \<Longrightarrow> fills i f gap v m m''"
  by (auto simp: fills_def)

lemma hydrate_reports_fills:
  assumes "tmap_ok (fst s)"
  shows "fills i f False v (fst s) (fst (hydrate_reports i entry cur s))"
proof -
  have "fills i f False v m (fold (hydrate_report i entry cur) rs m)" if "tmap_ok m" for rs m
    using that
  proof (induction rs arbitrary: m)
    case Nil
    then show ?case by (simp add: fills_same)
  next
    case (Cons r rs)
    have "fills i f False v m (hydrate_report i entry cur r m)"
      using Cons.prems by (rule hydrate_report_fills)
    moreover from this have "tmap_ok (hydrate_report i entry cur r m)" by (simp add: fills_def)
    ultimately show ?case using Cons.IH fills_trans_none by fastforce
  qed
  then show ?thesis using assms by (simp add: hydrate_reports_def Let_def fills_same)
qed

lemma fills_ok: "fills i f gap v m m' \<Longrightarrow> tmap_ok m'"
  by (simp add: fills_def)

lemma fills_other:
  "fills i f gap v m m' \<Longrightarrow> g \<in> set main_fields \<Longrightarrow> g \<noteq> f \<Longrightarrow>
    get_field g (view (map_of m' i)) = get_field g (view (map_of m i))"
  by (simp add: fills_def)

lemma fills_at:
  "fills i f gap v m m' \<Longrightarrow> g \<in> set main_fields \<Longrightarrow>
    get_field g (view (map_of m' i)) = (if g = f \<and> gap then v else get_field g (view (map_of m i)))"
  by (simp add: fills_def)

lemma fills_frame: "fills i f gap v m m' \<Longrightarrow> j \<noteq> i \<Longrightarrow> map_of m' j = map_of m j"
  by (simp add: fills_def)

text \<open>One id: every field that was unset takes the base's value, the others stay.\<close>

lemma hydrate_id_spec:
  assumes "tmap_ok (fst s)"
  shows "tmap_ok (fst (hydrate_id base i s))
    \<and> (\<forall>j. j \<noteq> i \<longrightarrow> map_of (fst (hydrate_id base i s)) j = map_of (fst s) j)
    \<and> (\<forall>g \<in> set main_fields. get_field g (view (map_of (fst (hydrate_id base i s)) i)) =
         (if get_field g (view (map_of (fst s) i)) = JUndef then get_field g (view (map_of base i))
          else get_field g (view (map_of (fst s) i))))"
proof (cases "map_of base i")
  case None
  then show ?thesis using assms by (auto simp: hydrate_id_def main_fields_cases)
next
  case (Some entry)
  let ?cur = "map_of (fst s) i" and ?imp = "\<lambda>f. get_field f (view (Some entry))"
  let ?gap = "\<lambda>f. get_field f (view ?cur) = JUndef"
  have ok: "cur_ok ?cur" using assms by (rule cur_ok_lookup)
  define s1 where "s1 = hydrate_text i entry ?cur Color s"
  define s2 where "s2 = hydrate_triage i entry ?cur s1"
  define s3 where "s3 = hydrate_text i entry ?cur Comment s2"
  define s4 where "s4 = hydrate_text i entry ?cur Fix s3"
  define s5 where "s5 = hydrate_flagged i entry ?cur s4"
  define s6 where "s6 = hydrate_reports i entry ?cur s5"
  have 1: "fills i Color (?gap Color) (?imp Color) (fst s) (fst s1)"
    unfolding s1_def by (rule hydrate_text_fills [OF assms ok]) simp_all
  have 2: "fills i Triage (?gap Triage) (?imp Triage) (fst s1) (fst s2)"
    unfolding s2_def by (rule hydrate_triage_fills [OF fills_ok [OF 1] ok fills_other [OF 1]]) simp_all
  have 3: "fills i Comment (?gap Comment) (?imp Comment) (fst s2) (fst s3)"
    unfolding s3_def
    by (rule hydrate_text_fills [OF fills_ok [OF 2] ok])
      (simp_all del: get_field.simps add: fills_other [OF 1] fills_other [OF 2])
  have 4: "fills i Fix (?gap Fix) (?imp Fix) (fst s3) (fst s4)"
    unfolding s4_def
    by (rule hydrate_text_fills [OF fills_ok [OF 3] ok])
      (simp_all del: get_field.simps add: fills_other [OF 1] fills_other [OF 2] fills_other [OF 3])
  have 5: "fills i Flagged (?gap Flagged) (?imp Flagged) (fst s4) (fst s5)"
    unfolding s5_def
    by (rule hydrate_flagged_fills [OF fills_ok [OF 4] ok])
      (simp_all del: get_field.simps add: fills_other [OF 1] fills_other [OF 2] fills_other [OF 3] fills_other [OF 4])
  have 6: "fills i Color False JUndef (fst s5) (fst s6)"
    unfolding s6_def by (rule hydrate_reports_fills [OF fills_ok [OF 5]])
  have "hydrate_id base i s = s6"
    by (simp add: hydrate_id_def Some Let_def s1_def s2_def s3_def s4_def s5_def s6_def)
  moreover have "get_field g (view (map_of (fst s6) i)) =
      (if get_field g (view ?cur) = JUndef then ?imp g else get_field g (view ?cur))" if g: "g \<in> set main_fields" for g
    unfolding fills_at [OF 6 g] fills_at [OF 5 g] fills_at [OF 4 g] fills_at [OF 3 g] fills_at [OF 2 g]
      fills_at [OF 1 g]
    using g by (auto simp del: get_field.simps simp: main_fields_cases)
  moreover have "map_of (fst s6) j = map_of (fst s) j" if j: "j \<noteq> i" for j
    by (simp add: fills_frame [OF 6 j] fills_frame [OF 5 j] fills_frame [OF 4 j] fills_frame [OF 3 j]
      fills_frame [OF 2 j] fills_frame [OF 1 j])
  ultimately show ?thesis using fills_ok [OF 6] Some by (simp del: get_field.simps view_Some)
qed

lemma hydrate_fold_spec:
  assumes "distinct ids" and "tmap_ok (fst s)"
  shows "tmap_ok (fst (fold (hydrate_id base) ids s))
    \<and> (\<forall>g \<in> set main_fields. \<forall>i. get_field g (view (map_of (fst (fold (hydrate_id base) ids s)) i)) =
         (if i \<in> set ids \<and> get_field g (view (map_of (fst s) i)) = JUndef
          then get_field g (view (map_of base i)) else get_field g (view (map_of (fst s) i))))
    \<and> (\<forall>i. i \<notin> set ids \<longrightarrow> map_of (fst (fold (hydrate_id base) ids s)) i = map_of (fst s) i)"
  using assms
proof (induction ids arbitrary: s)
  case Nil
  then show ?case by simp
next
  case (Cons k ids)
  note one = hydrate_id_spec [OF Cons.prems(2), of base k]
  have "tmap_ok (fst (hydrate_id base k s))" using one by blast
  moreover have "distinct ids" and k: "k \<notin> set ids" using Cons.prems(1) by auto
  ultimately have ih: "tmap_ok (fst (fold (hydrate_id base) ids (hydrate_id base k s)))"
    "\<forall>g \<in> set main_fields. \<forall>i. get_field g (view (map_of (fst (fold (hydrate_id base) ids (hydrate_id base k s))) i)) =
         (if i \<in> set ids \<and> get_field g (view (map_of (fst (hydrate_id base k s)) i)) = JUndef
          then get_field g (view (map_of base i)) else get_field g (view (map_of (fst (hydrate_id base k s)) i)))"
    "\<forall>i. i \<notin> set ids \<longrightarrow> map_of (fst (fold (hydrate_id base) ids (hydrate_id base k s))) i = map_of (fst (hydrate_id base k s)) i"
    using Cons.IH [of "hydrate_id base k s"] by blast+
  show ?case
  proof (intro conjI ballI allI impI)
    fix g i
    assume "g \<in> set main_fields"
    with ih(2) one k show "get_field g (view (map_of (fst (fold (hydrate_id base) (k # ids) s)) i)) =
         (if i \<in> set (k # ids) \<and> get_field g (view (map_of (fst s) i)) = JUndef
          then get_field g (view (map_of base i)) else get_field g (view (map_of (fst s) i)))"
      by (cases "i = k") (simp_all split: if_split)
  next
    fix i
    assume "i \<notin> set (k # ids)"
    with ih(3) one show "map_of (fst (fold (hydrate_id base) (k # ids) s)) i = map_of (fst s) i" by simp
  qed (use ih(1) in simp)
qed

section \<open>Properties\<close>

text \<open>The changeset a save computes against the chain's state names only findings
  of the session's own scope, whatever the chain holds for findings of reports that are not
  loaded: no save deletes or rewrites triage this client cannot see.\<close>

theorem save_changeset_in_scope:
  "set (map_keys (computeChangeset base (effectiveLocalState base live ids))) \<subseteq> set ids"
proof
  fix i
  assume "i \<in> set (map_keys (computeChangeset base (effectiveLocalState base live ids)))"
  then have "map_of (computeChangeset base (effectiveLocalState base live ids)) i \<noteq> None"
    by (simp add: map_of_eq_None_iff)
  then have "entry_at base i \<noteq> entry_at (effectiveLocalState base live ids) i"
    by (auto simp: computeChangeset_lookup split: if_splits)
  then show "i \<in> set ids" by (auto simp: entry_at_def effective_lookup split: if_splits)
qed

text \<open>Hydration only fills gaps: on every finding it names, each of colour, bucket,
  comment, fix link and flag keeps its local value where it has one and takes the chain's
  normalized value where it has none; other findings are untouched and the map stays well
  formed.\<close>

theorem hydrate_fills_gaps_only:
  assumes "tmap_ok live" and "distinct ids" and "f \<in> set main_fields"
  shows "get_field f (view (map_of (fst (hydrateStateFromBaseState base live ids)) i)) =
      (if i \<in> set ids \<and> get_field f (view (map_of live i)) = JUndef
       then get_field f (view (map_of base i)) else get_field f (view (map_of live i)))
    \<and> (i \<notin> set ids \<longrightarrow> map_of (fst (hydrateStateFromBaseState base live ids)) i = map_of live i)
    \<and> tmap_ok (fst (hydrateStateFromBaseState base live ids))"
  using hydrate_fold_spec [OF assms(2), of "(live, [])" base] assms(1,3)
  by (simp add: hydrateStateFromBaseState_def)

theorem hydrate_fills_gaps_only_witness:
  "let live = [(''f'', no_fields\<lparr>e_color := JStr ''red''\<rparr>)];
       base = [(''f'', no_fields\<lparr>e_color := JStr ''blue'', e_flagged := JBool True\<rparr>)]
   in tmap_ok live
    \<and> get_field Color (view (map_of (fst (hydrateStateFromBaseState base live [''f''])) ''f'')) = JStr ''red''
    \<and> get_field Flagged (view (map_of (fst (hydrateStateFromBaseState base live [''f''])) ''f'')) = JBool True"
proof -
  let ?live = "[(''f'', no_fields\<lparr>e_color := JStr ''red''\<rparr>)]"
  let ?base = "[(''f'', no_fields\<lparr>e_color := JStr ''blue'', e_flagged := JBool True\<rparr>)]"
  have ok: "tmap_ok ?live" by code_simp
  have d: "distinct [''f'']" by simp
  show ?thesis
    using ok hydrate_fills_gaps_only [OF ok d, of Color ?base "''f''"]
      hydrate_fills_gaps_only [OF ok d, of Flagged ?base "''f''"]
    by (simp add: Let_def keep_str_def)
qed

text \<open>An incoming state written into the live map is read back by the next save: on
  every finding in scope the overlay equals, as the live map compares entries, the incoming
  entry normalized with its report ignores dropped where its bucket excludes them; findings out
  of scope keep the chain's entry in the overlay and their live entry.\<close>

theorem apply_then_effective:
  assumes "tmap_ok live"
  shows "(i \<in> set ids \<longrightarrow> entriesEqual
        (map_of (effectiveLocalState base (applyToReactiveState target live ids) ids) i)
        (normalizeEntry (Some (spread (map_of target i) [(Ignored,
           if allowsReportIgnores (map_of target i) then e_ignored (or_no_fields (map_of target i)) else JUndef)]))))
    \<and> (i \<notin> set ids \<longrightarrow> map_of (effectiveLocalState base (applyToReactiveState target live ids) ids) i = map_of base i
        \<and> map_of (applyToReactiveState target live ids) i = map_of live i)"
proof (intro conjI impI)
  let ?live = "applyToReactiveState target live ids"
  let ?next = "normalizeEntry (Some (spread (map_of target i) [(Ignored,
     if allowsReportIgnores (map_of target i) then e_ignored (or_no_fields (map_of target i)) else JUndef)]))"
  assume i: "i \<in> set ids"
  have "map_of ?live i = wb_eff (map_of live i) ?next"
    unfolding applyToReactiveState_def using i target_loop.fold_at [of "js_set ids" i target live] by simp
  moreover have "normalizeEntry (map_of ?live i) = map_of ?live i"
    using applyToReactiveState_tmap_ok [OF assms, of target ids]
    by (cases "map_of ?live i") (auto simp: normalizeEntry.simps(1) intro: normalizeEntry_id tmap_ok_lookup)
  moreover have "entriesEqual (wb_eff cur n) n" for cur n
    by (cases n) (simp_all add: wb_eff_def, simp add: entriesEqual_def Let_def)
  ultimately show "entriesEqual (map_of (effectiveLocalState base ?live ids) i) ?next"
    using i by (simp add: effective_lookup)
next
  assume i: "i \<notin> set ids"
  then show "map_of (effectiveLocalState base (applyToReactiveState target live ids) ids) i = map_of base i"
    by (simp add: effective_lookup)
  show "map_of (applyToReactiveState target live ids) i = map_of live i"
    unfolding applyToReactiveState_def using i target_loop.fold_frame [of i "js_set ids" target live] by simp
qed

theorem apply_then_effective_witness:
  "let live = [(''f'', no_fields\<lparr>e_color := JStr ''red''\<rparr>)];
       target = [(''f'', no_fields\<lparr>e_triage := JStr ''fixed'', e_ignored := JArr [JStr ''a'']\<rparr>)]
   in tmap_ok live
    \<and> entriesEqual (map_of (effectiveLocalState [] (applyToReactiveState target live [''f'']) [''f'']) ''f'')
        (Some (no_fields\<lparr>e_triage := JStr ''fixed''\<rparr>))"
proof -
  let ?live = "[(''f'', no_fields\<lparr>e_color := JStr ''red''\<rparr>)]"
  let ?target = "[(''f'', no_fields\<lparr>e_triage := JStr ''fixed'', e_ignored := JArr [JStr ''a'']\<rparr>)]"
  have ok: "tmap_ok ?live" by code_simp
  have n: "normalizeEntry (Some (spread (map_of ?target ''f'') [(Ignored,
     if allowsReportIgnores (map_of ?target ''f'') then e_ignored (or_no_fields (map_of ?target ''f'')) else JUndef)]))
     = Some (no_fields\<lparr>e_triage := JStr ''fixed''\<rparr>)" by code_simp
  from apply_then_effective [OF ok, of "''f''" "[''f'']" "[]" ?target] ok show ?thesis
    unfolding n by (simp add: Let_def)
qed

text \<open>An answer is applied only to the value it was given for: a conflict decided
  \<open>imported\<close> whose field still holds the local value shown takes the imported value, one whose
  field has changed since or that was decided otherwise changes nothing, and no answer touches
  another finding.\<close>

theorem decision_applies_to_shown_value:
  assumes "tmap_ok live" and "c_property c \<in> set main_fields"
  shows "let live' = apply_decision decisions c live;
             adopted = (map_of decisions (c_id c @ '':'' @ prop_name (c_property c)) = Some ''imported''
               \<and> currentLocalValue live (c_id c) (c_property c) = c_local c)
         in (\<not> adopted \<longrightarrow> live' = live)
          \<and> (adopted \<longrightarrow> get_field (c_property c) (view (map_of live' (c_id c))) =
               norm_field (c_property c) (snd (hd (decision_patch c))))
          \<and> (\<forall>j. j \<noteq> c_id c \<longrightarrow> map_of live' j = map_of live j)"
proof -
  let ?i = "c_id c" and ?f = "c_property c"
  have cur: "spread (map_of live ?i) p = spread (Some (view (map_of live ?i))) p" for p
    using cur_ok_view [OF cur_ok_lookup [OF assms(1)], of ?i] by (simp add: spread_def or_no_fields_def)
  have two: "get_field Triage (clean (spread (Some (view e)) [(Triage, v), (Ignored, JUndef)])) = asBucket v" for e v
    using asBucket_cases [of v] by (auto simp: spread_def bucketOf.simps view_ok)
  have one: "get_field f (clean (spread (Some (view e)) [(f, v)])) = norm_field f v" if "f \<in> set main_fields" for e f v
    using view_set_main [OF that that] by (simp add: spread_def)
  have "get_field ?f (clean (spread (Some (view e)) (decision_patch c))) =
      norm_field ?f (snd (hd (decision_patch c)))" for e
    using one [OF assms(2)] two assms(2)
    by (cases "c_property c") (simp_all del: get_field.simps norm_field.simps add: decision_patch_def, simp_all add: main_fields_cases)
  then have "get_field ?f (view (map_of (fst (patchEntry live ?i (decision_patch c))) ?i)) =
      norm_field ?f (snd (hd (decision_patch c)))"
    by (simp only: view_patchEntry [OF assms(2)] cur)
  moreover have "?f \<in> {Color, Triage, Comment, Fix, Flagged}" using assms(2) by (simp add: main_fields_def)
  ultimately show ?thesis
    unfolding apply_decision_def Let_def by (simp del: get_field.simps norm_field.simps add: patch_frame)
qed

theorem decision_applies_to_shown_value_witness:
  "let live = [(''f'', no_fields\<lparr>e_color := JStr ''red''\<rparr>)];
       c = \<lparr>c_id = ''f'', c_property = Color, c_local = JStr ''red'', c_imported = JStr ''blue''\<rparr>
   in tmap_ok live
    \<and> get_field Color (view (map_of (apply_decision [(''f:color'', ''imported'')] c live) ''f'')) = JStr ''blue''"
proof -
  let ?live = "[(''f'', no_fields\<lparr>e_color := JStr ''red''\<rparr>)]"
  let ?c = "\<lparr>c_id = ''f'', c_property = Color, c_local = JStr ''red'', c_imported = JStr ''blue''\<rparr>"
  have ok: "tmap_ok ?live" by code_simp
  have "currentLocalValue ?live ''f'' Color = JStr ''red''" by code_simp
  with ok decision_applies_to_shown_value [OF ok, of ?c "[(''f:color'', ''imported'')]"] show ?thesis
    by (simp add: Let_def decision_patch_def keep_str_def)
qed

end
