(* ===== verification/IgnoredTriage.thy ===== *)
theory IgnoredTriage
  imports JsText TriageProjection
begin

text \<open>
  Report ignores of dependency findings (\<^verbatim>\<open>src/client/ignored-triage.js\<close>,
  \<^verbatim>\<open>src/client/dependency-paths.js\<close>): which occurrence of a finding is a
  dependency's, whose ignore is filed per report, and the migration that
  classifies the ignores an older version stored. \<open>isAppFinding\<close>,
  \<open>inheritReportMeta\<close> and \<open>loadFindings\<close> are of the package
  \<open>@preventive/report\<close> and are parameters.
\<close>

section \<open>Findings and reports\<close>

text \<open>
  The fields read here. \<open>f_sid\<close> is \<open>String(finding._id)\<close>; a missing field
  (\<open>undefined\<close> or \<open>null\<close>) is \<open>None\<close>. A report's \<open>r_tree\<close> holds the keys of
  its file tree.
\<close>

record finding =
  f_id :: "string option"
  f_sid :: string
  f_file :: jsval
  f_isApp :: "bool option"
  f_source :: "string option"
  f_source' :: "string option"
  f_reportName :: "string option"
  f_depsDirectory :: "string option"

record report =
  r_groups :: "finding list list"
  r_tree :: "string list option"
  r_treeDependencies :: jsval
  r_source :: "string option"
  r_name :: "string option"
  r_fileName :: "string option"

definition or_else :: "'a option \<Rightarrow> 'a option \<Rightarrow> 'a option" where
  "or_else a b = (case a of None \<Rightarrow> b | Some x \<Rightarrow> Some x)"

definition or_default :: "'a option \<Rightarrow> 'a \<Rightarrow> 'a" where
  "or_default a d = (case a of None \<Rightarrow> d | Some x \<Rightarrow> x)"

section \<open>Dependency paths\<close>

fun isDependencyFile :: "jsval \<Rightarrow> string \<Rightarrow> bool" where
  "isDependencyFile (JStr file) directory =
     (let path = replace_char backslash CHR ''/'' file
      in starts_with (directory @ ''/'') path \<or> str_includes (''/'' @ directory @ ''/'') path)"
| "isDependencyFile _ directory = False"

text \<open>
  A walk over files that stops at the first one under \<open>node_modules\<close>
  (\<open>None\<close>: the enclosing function returned) and otherwise remembers whether
  one was under \<open>vendor\<close>.
\<close>

fun scan_files :: "jsval list \<Rightarrow> bool \<Rightarrow> bool option" where
  "scan_files [] vendor = Some vendor"
| "scan_files (f # fs) vendor =
     (if isDependencyFile f ''node_modules'' then None
      else scan_files fs (if isDependencyFile f ''vendor'' then True else vendor))"

definition treeDependencyDirectory :: "string list \<Rightarrow> jsval" where
  "treeDependencyDirectory tree = (case scan_files (map JStr tree) False of
     None \<Rightarrow> JStr ''node_modules''
   | Some vendor \<Rightarrow> if vendor then JStr ''vendor'' else JNull)"

definition named_directory :: "report \<Rightarrow> jsval" where
  "named_directory r = (case r_tree r of
     Some tree \<Rightarrow> treeDependencyDirectory tree
   | None \<Rightarrow> r_treeDependencies r)"

fun scan_reports :: "report list \<Rightarrow> bool \<Rightarrow> bool option" where
  "scan_reports [] vendor = Some vendor"
| "scan_reports (r # rs) vendor =
     (case scan_files (map f_file (concat (r_groups r))) vendor of
        None \<Rightarrow> None
      | Some vendor' \<Rightarrow>
          if named_directory r = JStr ''node_modules'' then None
          else scan_reports rs (if named_directory r = JStr ''vendor'' then True else vendor'))"

definition dependencyDirectory :: "report list \<Rightarrow> string" where
  "dependencyDirectory reports = (case scan_reports reports False of
     None \<Rightarrow> ''node_modules''
   | Some vendor \<Rightarrow> if vendor then ''vendor'' else ''dependencies'')"

text \<open>\<open>[{ groups: [findings], tree, treeDependencies }]\<close>.\<close>

definition bare_report :: "finding list list \<Rightarrow> string list option \<Rightarrow> jsval \<Rightarrow> report" where
  "bare_report groups tree deps = \<lparr>r_groups = groups, r_tree = tree, r_treeDependencies = deps,
     r_source = None, r_name = None, r_fileName = None\<rparr>"

section \<open>Whose ignore is per report\<close>

definition usesReportIgnore ::
    "(finding \<Rightarrow> string option \<Rightarrow> bool) \<Rightarrow> finding \<Rightarrow> string option \<Rightarrow> bool" where
  "usesReportIgnore isAppFinding f directory =
     (\<not> or_default (f_isApp f) (isAppFinding f (or_else (f_source' f) (f_source f)))
      \<and> isDependencyFile (f_file f)
          (or_default (or_else (f_depsDirectory f) directory)
            (dependencyDirectory [bare_report [[f]] None JUndef])))"

definition stampIndexedFindings ::
    "(finding \<Rightarrow> string option \<Rightarrow> bool) \<Rightarrow> (finding \<Rightarrow> report \<Rightarrow> finding) \<Rightarrow>
     finding list \<Rightarrow> report \<Rightarrow> finding list" where
  "stampIndexedFindings isAppFinding inheritReportMeta findings data =
     (let directory = dependencyDirectory [bare_report [findings] (r_tree data) (r_treeDependencies data)]
      in map (\<lambda>f0. let f = inheritReportMeta f0 data;
             app = or_default (f_isApp f) (isAppFinding f (or_else (f_source f) (r_source data)))
           in f\<lparr>f_isApp := Some app, f_depsDirectory := Some directory\<rparr>) findings)"

definition sharedFindingTriage ::
    "(finding \<Rightarrow> string option \<Rightarrow> bool) \<Rightarrow> finding \<Rightarrow> entry option \<Rightarrow> string option \<Rightarrow> jsval" where
  "sharedFindingTriage isAppFinding f e directory =
     (let bucket = bucketOf e
      in if bucket = JStr ''ignored'' \<and> usesReportIgnore isAppFinding f directory then JUndef else bucket)"

definition finding_key :: "finding \<Rightarrow> string" where
  "finding_key f = or_default (f_id f) (f_sid f)"

definition setFindingTriage ::
    "(finding \<Rightarrow> string option \<Rightarrow> bool) \<Rightarrow> tmap \<Rightarrow> finding \<Rightarrow> string \<Rightarrow> string option \<Rightarrow> tmap" where
  "setFindingTriage isAppFinding m f target directory =
     (let i = finding_key f;
          report = or_default (f_reportName f) [];
          perReport = usesReportIgnore isAppFinding f directory
      in if perReport \<and> (target = ''ignored'' \<or> target = ''untriaged'') then
           let m1 = (if bucketOf (map_of m i) \<noteq> JStr ''ignored''
                     then fst (patchEntry m i [(Triage, JUndef)]) else m)
           in fst (setReportIgnored m1 i report (target = ''ignored'') True)
         else
           let m1 = fst (patchEntry m i [(Triage, if target = ''untriaged'' then JUndef else JStr target)])
           in if target \<noteq> ''ignored'' \<and> target \<noteq> ''untriaged''
              then fst (setReportIgnored m1 i report False False) else m1)"

section \<open>Migrating stored ignores\<close>

text \<open>
  The report names not settled yet: ignored somewhere without a scope marker,
  or held twice by one entry.
\<close>

definition unsettled_names :: "entry \<Rightarrow> jsval list" where
  "unsettled_names e =
     (let names = elems (e_ignored e);
          twice = (length (js_set names) \<noteq> length names)
      in filter (\<lambda>n. twice \<or> \<not> arr_includes (e_scoped e) n) names)"

definition unsettled :: "tmap \<Rightarrow> jsval list" where
  "unsettled m = js_set (concat (map (unsettled_names \<circ> snd) m))"

definition report_label :: "report \<Rightarrow> string" where
  "report_label r = or_default (or_else (r_name r) (r_fileName r)) []"

definition name_in :: "report \<Rightarrow> finding \<Rightarrow> string" where
  "name_in r f = or_default (f_reportName f) (report_label r)"

definition classified :: "report \<Rightarrow> finding \<Rightarrow> finding" where
  "classified r f = f\<lparr>f_source' := or_else (f_source' f) (or_else (f_source f) (r_source r))\<rparr>"

type_synonym mig = "tmap \<times> bool"

definition or_changed :: "mig \<Rightarrow> bool \<Rightarrow> mig" where
  "or_changed w changed = (fst w, snd w \<or> changed)"

text \<open>The first pass over one finding: an unscoped ignore of an App or own row
  becomes the shared status.\<close>

definition promote ::
    "(finding \<Rightarrow> bool) \<Rightarrow> string list \<Rightarrow> (finding \<Rightarrow> string) \<Rightarrow> finding \<Rightarrow> mig \<Rightarrow> mig" where
  "promote perReport dependencyIds nm f s =
     (let i = finding_key f; name = nm f; e = map_of (fst s) i in
      if \<not> isReportIgnored (fst s) i name then s
      else if isReportIgnoreScoped e name then s
      else if perReport f then s
      else
        let s1 = (if \<not> truthy (bucketOf e)
                  then or_changed (patchEntry (fst s) i [(Triage, JStr ''ignored'')]) (snd s) else s)
        in if i \<notin> set dependencyIds
           then or_changed (setReportIgnored (fst s1) i name False False) (snd s1) else s1)"

text \<open>The second pass: the ignore of a dependency row is marked as scoped.\<close>

definition scope_ignore :: "(finding \<Rightarrow> bool) \<Rightarrow> (finding \<Rightarrow> string) \<Rightarrow> finding \<Rightarrow> mig \<Rightarrow> mig" where
  "scope_ignore perReport nm f s =
     (if \<not> perReport f then s
      else if isReportIgnored (fst s) (finding_key f) (nm f)
      then or_changed (setReportIgnored (fst s) (finding_key f) (nm f) True True) (snd s) else s)"

definition migrate_report ::
    "(finding \<Rightarrow> string option \<Rightarrow> bool) \<Rightarrow> jsval list \<Rightarrow> report \<Rightarrow> mig \<Rightarrow> mig" where
  "migrate_report isAppFinding names r s =
     (let findings = concat (r_groups r) in
      if \<not> list_ex (\<lambda>f. JStr (name_in r f) \<in> set names) findings then s
      else
        let directory = dependencyDirectory [r];
            perReport = (\<lambda>f. usesReportIgnore isAppFinding (classified r f) (Some directory));
            dependencyIds = js_set (map finding_key (filter perReport findings))
        in fold (scope_ignore perReport (name_in r)) findings
             (fold (promote perReport dependencyIds (name_in r)) findings s))"

definition migrateIgnoredReports ::
    "(finding \<Rightarrow> string option \<Rightarrow> bool) \<Rightarrow> tmap \<Rightarrow> report list \<Rightarrow> mig" where
  "migrateIgnoredReports isAppFinding m reports =
     (let names = unsettled m in
      if names = [] then (m, False)
      else fold (migrate_report isAppFinding names) reports (m, False))"

text \<open>
  The report names the legacy ignores of a stored snapshot refer to, and the
  reports read for them: \<open>readReport\<close> gives the content of a stored file
  (\<open>None\<close> where it throws or gives no string) and \<open>loadFindings\<close> parses it
  (\<open>None\<close> where it throws or finds no report).
\<close>

definition legacy_names :: "(string \<times> jsval) list \<Rightarrow> string list" where
  "legacy_names entries = js_set (concat (map (\<lambda>(i, v).
     concat (map (\<lambda>n. case n of
         JStr s \<Rightarrow> if arr_includes (js_field v ''scopedIgnoredReports'') n then [] else [s]
       | _ \<Rightarrow> []) (elems (js_field v ''ignoredReports'')))) entries))"

definition readIgnoredReportContexts ::
    "(string \<Rightarrow> string option) \<Rightarrow> (string \<Rightarrow> (report \<times> finding list) option) \<Rightarrow>
     (string \<times> jsval) list \<Rightarrow> report list" where
  "readIgnoredReportContexts readReport loadFindings entries =
     concat (map (\<lambda>name. case readReport name of
         None \<Rightarrow> []
       | Some content \<Rightarrow> (case loadFindings content of
             None \<Rightarrow> []
           | Some (data, findings) \<Rightarrow> [data\<lparr>r_name := Some name, r_groups := [findings]\<rparr>]))
       (legacy_names entries))"

section \<open>Lemmas\<close>

lemma reports_write_back:
  assumes "e_ignored e = e_ignored c" and "e_scoped e = e_scoped c" and "cur = Some c"
  shows "ignored_of (wb_eff cur (Some e)) = ignored_of cur" and "scoped_of (wb_eff cur (Some e)) = scoped_of cur"
  using assms by (simp_all add: wb_eff_def)

lemma reports_survive_normalize:
  assumes "entry_ok c" and "e_ignored e = e_ignored c" and "e_scoped e = e_scoped c"
  shows "ignored_of (wb_eff (Some c) (normalizeEntry (Some e))) = ignored_of (Some c)"
    and "scoped_of (wb_eff (Some c) (normalizeEntry (Some e))) = scoped_of (Some c)"
proof -
  have r: "keep_reports (e_ignored c) = e_ignored c" "keep_scoped (e_scoped c) (e_ignored c) = e_scoped c"
    using assms(1) by (simp_all add: entry_ok_def keep_reports_id keep_scoped_id)
  have "ignored_of (wb_eff (Some c) (normalizeEntry (Some e))) = ignored_of (Some c)
    \<and> scoped_of (wb_eff (Some c) (normalizeEntry (Some e))) = scoped_of (Some c)"
  proof (cases "normalizeEntry (Some e)")
    case None
    then have "entryIsEmpty (Some (clean e))" by (simp add: normalizeEntry.simps split: if_splits)
    then have "elems (e_ignored c) = []" using assms(2) r(1) by (simp add: entryIsEmpty.simps has_items_def)
    moreover have "elems (e_scoped c) = []"
      using assms(1) calculation by (cases "elems (e_scoped c)") (auto simp: entry_ok_def scoped_ok_def)
    ultimately show ?thesis by (simp add: None wb_eff_def)
  next
    case (Some n)
    then have n: "n = clean e" by (simp add: normalizeEntry.simps split: if_splits)
    have "e_ignored n = e_ignored c" "e_scoped n = e_scoped c" using assms(2,3) r by (simp_all add: n)
    then show ?thesis using reports_write_back [of n c "Some c"] Some by simp
  qed
  then show "ignored_of (wb_eff (Some c) (normalizeEntry (Some e))) = ignored_of (Some c)"
    "scoped_of (wb_eff (Some c) (normalizeEntry (Some e))) = scoped_of (Some c)" by simp_all
qed

lemma patch_main_reports:
  assumes "tmap_ok m" and "f \<in> set main_fields"
  shows "ignored_of (map_of (fst (patchEntry m i [(f, v)])) i) = ignored_of (map_of m i)"
    and "scoped_of (map_of (fst (patchEntry m i [(f, v)])) i) = scoped_of (map_of m i)"
proof -
  let ?e = "put_field f v (or_no_fields (map_of m i))"
  have e: "e_ignored ?e = e_ignored (or_no_fields (map_of m i))"
    "e_scoped ?e = e_scoped (or_no_fields (map_of m i))" using assms(2) by (auto simp: main_fields_cases)
  have lk: "map_of (fst (patchEntry m i [(f, v)])) i = wb_eff (map_of m i) (normalizeEntry (Some ?e))"
    by (simp add: patchEntry_def write_back_lookup spread_def or_no_fields_def)
  have "ignored_of (wb_eff (map_of m i) (normalizeEntry (Some ?e))) = ignored_of (map_of m i)
    \<and> scoped_of (wb_eff (map_of m i) (normalizeEntry (Some ?e))) = scoped_of (map_of m i)"
  proof (cases "map_of m i")
    case None
    then have "e_ignored ?e = JUndef" "e_scoped ?e = JUndef" using e by (simp_all add: or_no_fields_def)
    then have "ignored_of (normalizeEntry (Some ?e)) = {}" "scoped_of (normalizeEntry (Some ?e)) = {}"
      by (simp_all add: ignored_of_normalize scoped_of_normalize)
    with None show ?thesis by (auto simp: wb_eff_def split: option.splits)
  next
    case (Some c)
    then show ?thesis using reports_survive_normalize [OF tmap_ok_lookup [OF assms(1) Some]] e
      by (simp add: or_no_fields_def)
  qed
  then show "ignored_of (map_of (fst (patchEntry m i [(f, v)])) i) = ignored_of (map_of m i)"
    "scoped_of (map_of (fst (patchEntry m i [(f, v)])) i) = scoped_of (map_of m i)"
    unfolding lk by simp_all
qed

lemma patch_bucket:
  assumes "tmap_ok m"
  shows "bucketOf (map_of (fst (patchEntry m i [(Triage, v)])) i) = asBucket v"
  using patch_main [OF assms, of Triage Triage i v] by (simp add: view_triage)

lemma setReportIgnored_bucket:
  assumes "tmap_ok m"
  shows "bucketOf (map_of (fst (setReportIgnored m i r b sc)) j) = bucketOf (map_of m j)"
proof (cases "j = i")
  case True
  then show ?thesis using setReportIgnored_main [OF assms, of Triage i r b sc] by (simp add: view_triage)
qed (simp add: setReportIgnored_frame)

lemma or_changed_fst [simp]: "fst (or_changed w b) = fst w"
  by (simp add: or_changed_def)

section \<open>What the migration may do\<close>

text \<open>
  Every step only drops unscoped ignores of findings that have a shared status
  afterwards, only adds scope markers, and never replaces a status.
\<close>

definition migrates :: "tmap \<Rightarrow> tmap \<Rightarrow> bool" where
  "migrates m m' = (tmap_ok m' \<and>
     (\<forall>j. ignored_of (map_of m' j) \<subseteq> ignored_of (map_of m j)
        \<and> scoped_of (map_of m j) \<subseteq> scoped_of (map_of m' j)
        \<and> (bucketOf (map_of m j) \<noteq> JUndef \<longrightarrow> bucketOf (map_of m' j) = bucketOf (map_of m j))
        \<and> (ignored_of (map_of m j) = ignored_of (map_of m' j) \<or> bucketOf (map_of m' j) \<noteq> JUndef)))"

lemma migrates_refl: "tmap_ok m \<Longrightarrow> migrates m m"
  by (simp add: migrates_def)

lemma migrates_trans: "migrates a b \<Longrightarrow> migrates b c \<Longrightarrow> migrates a c"
  unfolding migrates_def by (metis (no_types, lifting) subset_trans)

lemma migrates_ok: "migrates m m' \<Longrightarrow> tmap_ok m'"
  by (simp add: migrates_def)

text \<open>An ignore that is settled: gone, or scoped to its report.\<close>

definition settled :: "tmap \<Rightarrow> string \<Rightarrow> string \<Rightarrow> bool" where
  "settled m i r = (isReportIgnored m i r \<longrightarrow> isReportIgnoreScoped (map_of m i) r)"

lemma settled_mono: "migrates m m' \<Longrightarrow> settled m i r \<Longrightarrow> settled m' i r"
  unfolding migrates_def settled_def isReportIgnored_iff isReportIgnoreScoped_iff by blast

lemma migrates_at:
  assumes "tmap_ok m'" and "\<And>j. j \<noteq> i \<Longrightarrow> map_of m' j = map_of m j"
    and "ignored_of (map_of m' i) \<subseteq> ignored_of (map_of m i)"
    and "scoped_of (map_of m i) \<subseteq> scoped_of (map_of m' i)"
    and "bucketOf (map_of m i) \<noteq> JUndef \<longrightarrow> bucketOf (map_of m' i) = bucketOf (map_of m i)"
    and "ignored_of (map_of m i) = ignored_of (map_of m' i) \<or> bucketOf (map_of m' i) \<noteq> JUndef"
  shows "migrates m m'"
  unfolding migrates_def using assms by (metis order_refl)

lemma falsy_bucket: "\<not> truthy (bucketOf e) \<longleftrightarrow> bucketOf e = JUndef"
  using bucketOf_cases [of e] by (auto simp: bucket_names_def)

lemma promote_migrates:
  assumes ok: "tmap_ok (fst s)"
  shows "migrates (fst s) (fst (promote pr ids nm f s))
    \<and> (pr f \<or> finding_key f \<in> set ids \<or> settled (fst (promote pr ids nm f s)) (finding_key f) (nm f))"
proof (cases "isReportIgnored (fst s) (finding_key f) (nm f)
    \<and> \<not> isReportIgnoreScoped (map_of (fst s) (finding_key f)) (nm f) \<and> \<not> pr f")
  case False
  then have p: "promote pr ids nm f s = s" by (auto simp: promote_def Let_def)
  show ?thesis unfolding p using False ok by (auto simp: settled_def migrates_refl)
next
  case True
  let ?i = "finding_key f" and ?r = "nm f" and ?m = "fst s"
  define m1 where "m1 = (if \<not> truthy (bucketOf (map_of ?m ?i)) then fst (patchEntry ?m ?i [(Triage, JStr ''ignored'')]) else ?m)"
  define m2 where "m2 = (if ?i \<notin> set ids then fst (setReportIgnored m1 ?i ?r False False) else m1)"
  have m2: "fst (promote pr ids nm f s) = m2" using True by (simp add: promote_def Let_def m2_def m1_def)
  from True have r: "JStr ?r \<in> ignored_of (map_of ?m ?i)" "JStr ?r \<notin> scoped_of (map_of ?m ?i)"
    by (simp_all add: isReportIgnored_iff isReportIgnoreScoped_iff)
  with ignored_of_ok [OF ok] have "?r \<noteq> []" by blast
  have ok1: "tmap_ok m1" using ok by (simp add: m1_def)
  have sets1: "ignored_of (map_of m1 ?i) = ignored_of (map_of ?m ?i)" "scoped_of (map_of m1 ?i) = scoped_of (map_of ?m ?i)"
    using patch_main_reports [OF ok, of Triage] by (simp_all add: m1_def)
  have "asBucket (JStr ''ignored'') = JStr ''ignored''" by code_simp
  then have b1: "bucketOf (map_of m1 ?i) \<noteq> JUndef"
    "bucketOf (map_of ?m ?i) \<noteq> JUndef \<longrightarrow> bucketOf (map_of m1 ?i) = bucketOf (map_of ?m ?i)"
    by (simp_all add: m1_def patch_bucket [OF ok] falsy_bucket)
  have s2: "ignored_of (map_of m2 ?i) = (if ?i \<notin> set ids then ignored_of (map_of ?m ?i) - {JStr ?r} else ignored_of (map_of ?m ?i))"
    "scoped_of (map_of m2 ?i) = scoped_of (map_of ?m ?i)"
    using setReportIgnored_sets [OF ok1 \<open>?r \<noteq> []\<close>, of ?i False False] r(2) sets1 by (auto simp: m2_def)
  have b2: "bucketOf (map_of m2 ?i) = bucketOf (map_of m1 ?i)"
    by (simp add: m2_def setReportIgnored_bucket [OF ok1])
  have "migrates ?m m2"
  proof (rule migrates_at)
    show "tmap_ok m2" using ok1 by (simp add: m2_def)
    show "map_of m2 j = map_of ?m j" if "j \<noteq> ?i" for j
      using that by (simp add: m2_def m1_def setReportIgnored_frame patch_frame)
  qed (use s2 b1 b2 in auto)
  moreover have "?i \<in> set ids \<or> settled m2 ?i ?r"
    using s2 by (auto simp: settled_def isReportIgnored_iff)
  ultimately show ?thesis by (simp add: m2)
qed

lemma scope_migrates:
  assumes ok: "tmap_ok (fst s)"
  shows "migrates (fst s) (fst (scope_ignore pr nm f s))
    \<and> (pr f \<longrightarrow> settled (fst (scope_ignore pr nm f s)) (finding_key f) (nm f))"
proof (cases "pr f \<and> isReportIgnored (fst s) (finding_key f) (nm f)")
  case False
  then have "scope_ignore pr nm f s = s" by (auto simp: scope_ignore_def)
  with False ok show ?thesis by (auto simp: settled_def migrates_refl)
next
  case True
  let ?i = "finding_key f" and ?r = "nm f" and ?m = "fst s"
  define m1 where "m1 = fst (setReportIgnored ?m ?i ?r True True)"
  have m1: "fst (scope_ignore pr nm f s) = m1" using True by (simp add: scope_ignore_def m1_def)
  from True have r: "JStr ?r \<in> ignored_of (map_of ?m ?i)" by (simp add: isReportIgnored_iff)
  with ignored_of_ok [OF ok] have "?r \<noteq> []" by blast
  note sets = setReportIgnored_sets [OF ok this, of ?i True True, folded m1_def]
  have b: "bucketOf (map_of m1 j) = bucketOf (map_of ?m j)" for j
    by (simp add: m1_def setReportIgnored_bucket [OF ok])
  have "migrates ?m m1"
  proof (rule migrates_at)
    show "tmap_ok m1" using ok by (simp add: m1_def)
    show "map_of m1 j = map_of ?m j" if "j \<noteq> ?i" for j
      using that by (simp add: m1_def setReportIgnored_frame)
  qed (use sets r b in auto)
  moreover have "settled m1 ?i ?r" using sets by (simp add: settled_def isReportIgnored_iff isReportIgnoreScoped_iff)
  ultimately show ?thesis by (simp add: m1)
qed

text \<open>
  The contract of a pass: each step migrates the map and establishes a goal of
  its own that later migration keeps; then the whole pass does so for all.
\<close>

locale migration_pass =
  fixes step :: "'a \<Rightarrow> mig \<Rightarrow> mig" and inv :: "tmap \<Rightarrow> bool" and goal :: "'a \<Rightarrow> tmap \<Rightarrow> bool"
  assumes inv_ok: "inv m \<Longrightarrow> tmap_ok m"
    and inv_keep: "inv m \<Longrightarrow> migrates m m' \<Longrightarrow> inv m'"
    and step: "inv (fst s) \<Longrightarrow> migrates (fst s) (fst (step x s)) \<and> goal x (fst (step x s))"
    and goal_keep: "goal x m \<Longrightarrow> migrates m m' \<Longrightarrow> goal x m'"
begin

lemma pass:
  "inv (fst s) \<Longrightarrow> migrates (fst s) (fst (fold step xs s)) \<and> (\<forall>x \<in> set xs. goal x (fst (fold step xs s)))"
proof (induction xs arbitrary: s)
  case Nil
  then show ?case by (simp add: migrates_refl inv_ok)
next
  case (Cons x xs)
  note st = step [OF Cons.prems, of x]
  with Cons.prems inv_keep have "inv (fst (step x s))" by blast
  note ih = Cons.IH [OF this]
  have "migrates (fst s) (fst (fold step xs (step x s)))" using st ih migrates_trans by blast
  moreover have "goal x (fst (fold step xs (step x s)))" using st ih goal_keep by blast
  ultimately show ?case using ih by simp
qed

end

interpretation promote_pass: migration_pass "promote pr ids nm" tmap_ok
    "\<lambda>f m. pr f \<or> finding_key f \<in> set ids \<or> settled m (finding_key f) (nm f)"
  for pr ids nm
  using promote_migrates settled_mono migrates_ok by unfold_locales blast+

interpretation scope_pass: migration_pass "scope_ignore pr nm" tmap_ok
    "\<lambda>f m. pr f \<longrightarrow> settled m (finding_key f) (nm f)"
  for pr nm
  using scope_migrates settled_mono migrates_ok by unfold_locales blast+

text \<open>One report, where the names it does not list are settled already.\<close>

definition rest_settled :: "jsval list \<Rightarrow> tmap \<Rightarrow> bool" where
  "rest_settled names m = (tmap_ok m \<and> (\<forall>n i. JStr n \<notin> set names \<longrightarrow> settled m i n))"

definition one_name :: "report \<Rightarrow> bool" where
  "one_name r = (\<forall>f \<in> set (concat (r_groups r)). \<forall>g \<in> set (concat (r_groups r)).
     finding_key f = finding_key g \<longrightarrow> name_in r f = name_in r g)"

definition report_settled :: "report \<Rightarrow> tmap \<Rightarrow> bool" where
  "report_settled r m = (\<forall>f \<in> set (concat (r_groups r)). settled m (finding_key f) (name_in r f))"

lemma migrate_report_step:
  assumes inv: "rest_settled names (fst s)"
  shows "migrates (fst s) (fst (migrate_report app names r s))
    \<and> (one_name r \<longrightarrow> report_settled r (fst (migrate_report app names r s)))"
proof (cases "list_ex (\<lambda>f. JStr (name_in r f) \<in> set names) (concat (r_groups r))")
  case False
  then have "migrate_report app names r s = s" by (simp add: migrate_report_def Let_def)
  moreover have "report_settled r (fst s)"
    using False inv by (auto simp: report_settled_def rest_settled_def list_ex_iff)
  ultimately show ?thesis using inv by (simp add: rest_settled_def migrates_refl)
next
  case True
  define pr where "pr = (\<lambda>f. usesReportIgnore app (classified r f) (Some (dependencyDirectory [r])))"
  define ids where "ids = js_set (map finding_key (filter pr (concat (r_groups r))))"
  define s1 where "s1 = fold (promote pr ids (name_in r)) (concat (r_groups r)) s"
  define s2 where "s2 = fold (scope_ignore pr (name_in r)) (concat (r_groups r)) s1"
  have e: "migrate_report app names r s = s2"
    using True by (simp add: migrate_report_def Let_def pr_def ids_def s1_def s2_def)
  have ok: "tmap_ok (fst s)" using inv by (simp add: rest_settled_def)
  note p = promote_pass.pass [OF ok, of pr ids "name_in r" "concat (r_groups r)", folded s1_def]
  note q = scope_pass.pass [OF migrates_ok [OF conjunct1 [OF p]], of pr "name_in r" "concat (r_groups r)", folded s2_def]
  have "report_settled r (fst s2)" if one: "one_name r"
    unfolding report_settled_def
  proof
    fix f assume f: "f \<in> set (concat (r_groups r))"
    consider "pr f" | "finding_key f \<in> set ids" | "settled (fst s1) (finding_key f) (name_in r f)"
      using p f by blast
    then show "settled (fst s2) (finding_key f) (name_in r f)"
    proof cases
      case 1
      then show ?thesis using q f by blast
    next
      case 2
      then have "finding_key f \<in> finding_key ` set (filter pr (concat (r_groups r)))"
        unfolding ids_def by (simp only: set_js_set list.set_map)
      then obtain g where g: "g \<in> set (concat (r_groups r))" "pr g" "finding_key g = finding_key f"
        unfolding set_filter by (elim imageE CollectE conjE) metis
      then have "name_in r g = name_in r f" using one f unfolding one_name_def by blast
      then show ?thesis using q g by metis
    next
      case 3
      then show ?thesis using q settled_mono by blast
    qed
  qed
  moreover have "migrates (fst s) (fst s2)" using p q migrates_trans by blast
  ultimately show ?thesis by (simp add: e)
qed

interpretation report_pass: migration_pass "migrate_report app names" "rest_settled names"
    "\<lambda>r m. one_name r \<longrightarrow> report_settled r m"
  for app names
  using migrate_report_step settled_mono
  by unfold_locales (auto simp: rest_settled_def report_settled_def migrates_ok)

lemma unsettled_settled:
  assumes "tmap_ok m" and "JStr n \<notin> set (unsettled m)"
  shows "settled m i n"
proof (cases "map_of m i")
  case None
  then show ?thesis by (simp add: settled_def isReportIgnored_def)
next
  case (Some e)
  then have "(i, e) \<in> set m" by (rule map_of_SomeD)
  with assms(2) have "JStr n \<notin> set (unsettled_names e)" by (auto simp: unsettled_def)
  with Some show ?thesis
    by (auto simp: settled_def isReportIgnored_def isReportIgnoreScoped_def unsettled_names_def Let_def arr_includes_elems)
qed

lemma migrate_pass:
  assumes "tmap_ok m"
  shows "migrates m (fst (migrateIgnoredReports app m reports))
    \<and> (\<forall>r \<in> set reports. one_name r \<longrightarrow> report_settled r (fst (migrateIgnoredReports app m reports)))"
proof (cases "unsettled m = []")
  case True
  then have "migrateIgnoredReports app m reports = (m, False)" by (simp add: migrateIgnoredReports_def)
  with True assms show ?thesis using unsettled_settled [OF assms] by (simp add: report_settled_def migrates_refl)
next
  case False
  have "rest_settled (unsettled m) (fst (m, False))"
    using assms unsettled_settled by (simp add: rest_settled_def)
  from report_pass.pass [OF this] False show ?thesis by (simp add: migrateIgnoredReports_def)
qed

section \<open>Properties\<close>

text \<open>A file is a dependency's exactly when the dependency directory is one of the
  whole segments of its path, with either kind of slash, and not the last one.\<close>

theorem isDependencyFile_segments:
  assumes "CHR ''/'' \<notin> set directory"
  shows "isDependencyFile (JStr file) directory \<longleftrightarrow>
    directory \<in> set (butlast (split_on CHR ''/'' (replace_char backslash CHR ''/'' file)))"
proof -
  obtain w ws where ws: "split_on CHR ''/'' (replace_char backslash CHR ''/'' file) = w # ws"
    by (cases "split_on CHR ''/'' (replace_char backslash CHR ''/'' file)") auto
  show ?thesis
    using starts_with_segment [OF assms, of "replace_char backslash CHR ''/'' file"]
      includes_segment [OF assms, of "replace_char backslash CHR ''/'' file"]
    by (auto simp: Let_def ws)
qed

theorem isDependencyFile_segments_witness:
  "isDependencyFile (JStr ''a/vendor/b.js'') ''vendor''
   \<and> ''vendor'' \<in> set (butlast (split_on CHR ''/'' (replace_char backslash CHR ''/'' ''a/vendor/b.js'')))"
  using isDependencyFile_segments [of "''vendor''" "''a/vendor/b.js''"] by code_simp

text \<open>Setting a status on a dependency row files or lifts the ignore of its own
  report only: the shared status of the finding never becomes \<open>ignored\<close> by it and
  a shared \<open>ignored\<close> is not undone, every other report's ignore of every finding and
  every other finding's status stay as they were.\<close>

theorem setFindingTriage_dependency:
  assumes "tmap_ok m" and "usesReportIgnore app f d" and "t \<in> {''ignored'', ''untriaged''}"
    and "f_reportName f = Some r" and "r \<noteq> []"
  shows "isReportIgnored (setFindingTriage app m f t d) j q =
      (if j = finding_key f \<and> q = r then t = ''ignored'' else isReportIgnored m j q)
    \<and> bucketOf (map_of (setFindingTriage app m f t d) j) =
      (if j = finding_key f \<and> bucketOf (map_of m j) \<noteq> JStr ''ignored'' then JUndef else bucketOf (map_of m j))"
proof -
  let ?i = "finding_key f"
  define m1 where "m1 = (if bucketOf (map_of m ?i) \<noteq> JStr ''ignored''
    then fst (patchEntry m ?i [(Triage, JUndef)]) else m)"
  have e: "setFindingTriage app m f t d = fst (setReportIgnored m1 ?i r (t = ''ignored'') True)"
    using assms(2,3,4) by (simp add: setFindingTriage_def Let_def m1_def or_default_def)
  have ok: "tmap_ok m1" using assms(1) by (simp add: m1_def)
  have rep: "ignored_of (map_of m1 k) = ignored_of (map_of m k)" for k
    using patch_main_reports [OF assms(1), of Triage ?i JUndef] patch_frame [of k ?i m]
    by (cases "k = ?i") (simp_all add: m1_def)
  have b: "bucketOf (map_of m1 k) =
      (if k = ?i \<and> bucketOf (map_of m k) \<noteq> JStr ''ignored'' then JUndef else bucketOf (map_of m k))" for k
    using patch_bucket [OF assms(1), of ?i JUndef] patch_frame [of k ?i m]
    by (cases "k = ?i") (simp_all add: m1_def)
  have "isReportIgnored (setFindingTriage app m f t d) j q =
      (if j = ?i \<and> q = r then t = ''ignored'' else isReportIgnored m j q)"
    using setReportIgnored_sets [OF ok assms(5), of ?i "t = ''ignored''" True] rep
    by (cases "j = ?i") (auto simp: e isReportIgnored_iff setReportIgnored_frame split: if_splits)
  then show ?thesis by (simp add: e setReportIgnored_bucket [OF ok] b)
qed

definition sample_dependency :: finding where
  "sample_dependency = \<lparr>f_id = Some ''f1'', f_sid = ''7'', f_file = JStr ''node_modules/a/i.js'',
     f_isApp = Some False, f_source = None, f_source' = None, f_reportName = Some ''a.json'',
     f_depsDirectory = None\<rparr>"

theorem setFindingTriage_dependency_witness:
  "usesReportIgnore (\<lambda>_ _. True) sample_dependency None
   \<and> isReportIgnored (setFindingTriage (\<lambda>_ _. True) [] sample_dependency ''ignored'' None) ''f1'' ''a.json''"
proof -
  have u: "usesReportIgnore (\<lambda>_ _. True) sample_dependency None" by code_simp
  have "tmap_ok []" and k: "finding_key sample_dependency = ''f1''"
    and r: "f_reportName sample_dependency = Some ''a.json''" by code_simp+
  note conjunct1 [OF setFindingTriage_dependency [OF this(1) u _ r, of "''ignored''" "''f1''" "''a.json''"]]
  with u k show ?thesis by simp
qed

text \<open>Migrating stored ignores hides nothing and unhides nothing: every status
  stays, an ignore is dropped only where the finding has a shared status afterwards,
  scope markers are only added; and afterwards every ignore of a row of the given
  reports is scoped to its report, where each report files a finding under one name.\<close>

theorem migrateIgnoredReports_settles:
  assumes "tmap_ok m"
    and "\<forall>r \<in> set reports. \<forall>f \<in> set (concat (r_groups r)). \<forall>g \<in> set (concat (r_groups r)).
      finding_key f = finding_key g \<longrightarrow> name_in r f = name_in r g"
  shows "(\<forall>i q. isReportIgnored m i q \<longrightarrow> isReportIgnored (fst (migrateIgnoredReports app m reports)) i q
        \<or> bucketOf (map_of (fst (migrateIgnoredReports app m reports)) i) \<noteq> JUndef)
    \<and> (\<forall>i q. isReportIgnored (fst (migrateIgnoredReports app m reports)) i q \<longrightarrow> isReportIgnored m i q)
    \<and> (\<forall>i. bucketOf (map_of m i) \<noteq> JUndef \<longrightarrow>
        bucketOf (map_of (fst (migrateIgnoredReports app m reports)) i) = bucketOf (map_of m i))
    \<and> (\<forall>r \<in> set reports. \<forall>f \<in> set (concat (r_groups r)).
        isReportIgnored (fst (migrateIgnoredReports app m reports)) (finding_key f) (name_in r f) \<longrightarrow>
        isReportIgnoreScoped (map_of (fst (migrateIgnoredReports app m reports)) (finding_key f)) (name_in r f))"
proof -
  let ?m = "fst (migrateIgnoredReports app m reports)"
  have mig: "migrates m ?m" and s: "\<forall>r \<in> set reports. report_settled r ?m"
    using migrate_pass [OF assms(1), of app reports, unfolded one_name_def] assms(2) by blast+
  have "\<forall>i q. isReportIgnored m i q \<longrightarrow> isReportIgnored ?m i q \<or> bucketOf (map_of ?m i) \<noteq> JUndef"
    using mig unfolding migrates_def isReportIgnored_iff by metis
  moreover have "\<forall>i q. isReportIgnored ?m i q \<longrightarrow> isReportIgnored m i q"
    using mig unfolding migrates_def isReportIgnored_iff by blast
  moreover have "\<forall>i. bucketOf (map_of m i) \<noteq> JUndef \<longrightarrow> bucketOf (map_of ?m i) = bucketOf (map_of m i)"
    using mig by (simp add: migrates_def)
  ultimately show ?thesis using s unfolding report_settled_def settled_def by blast
qed

definition sample_report :: report where
  "sample_report = \<lparr>r_groups = [[sample_dependency, sample_dependency\<lparr>f_id := Some ''f2'', f_isApp := Some True\<rparr>]],
     r_tree = None, r_treeDependencies = JUndef, r_source = None, r_name = Some ''a.json'', r_fileName = None\<rparr>"

theorem migrateIgnoredReports_settles_witness:
  "let m = [(''f1'', no_fields\<lparr>e_ignored := JArr [JStr ''a.json'']\<rparr>),
            (''f2'', no_fields\<lparr>e_ignored := JArr [JStr ''a.json'']\<rparr>)];
       m' = fst (migrateIgnoredReports (\<lambda>_ _. True) m [sample_report])
   in isReportIgnoreScoped (map_of m' ''f1'') ''a.json'' \<and> \<not> isReportIgnored m' ''f2'' ''a.json''
    \<and> bucketOf (map_of m' ''f2'') = JStr ''ignored''"
proof -
  define m where "m = [(''f1'', no_fields\<lparr>e_ignored := JArr [JStr ''a.json'']\<rparr>),
            (''f2'', no_fields\<lparr>e_ignored := JArr [JStr ''a.json'']\<rparr>)]"
  define m' where "m' = fst (migrateIgnoredReports (\<lambda>_ _. True) m [sample_report])"
  have ok: "tmap_ok m" unfolding m_def by code_simp
  have one: "\<forall>r \<in> set [sample_report]. \<forall>f \<in> set (concat (r_groups r)). \<forall>g \<in> set (concat (r_groups r)).
      finding_key f = finding_key g \<longrightarrow> name_in r f = name_in r g" by code_simp
  have f1: "isReportIgnored m' ''f1'' ''a.json''" unfolding m'_def m_def by code_simp
  have f2: "\<not> isReportIgnored m' ''f2'' ''a.json'' \<and> bucketOf (map_of m' ''f2'') = JStr ''ignored''"
    unfolding m'_def m_def by code_simp
  have d: "sample_dependency \<in> set (concat (r_groups sample_report))"
    "finding_key sample_dependency = ''f1''" "name_in sample_report sample_dependency = ''a.json''"
    by (simp_all add: sample_report_def sample_dependency_def finding_key_def name_in_def or_default_def)
  note all = migrateIgnoredReports_settles [OF ok one, of "\<lambda>_ _. True", folded m'_def,
      THEN conjunct2, THEN conjunct2, THEN conjunct2]
  have "isReportIgnoreScoped (map_of m' ''f1'') ''a.json''"
    using bspec [OF bspec [OF all, of sample_report] d(1)] f1 by (simp add: d)
  with f2 show ?thesis unfolding m'_def m_def Let_def by simp
qed

end
