(* ===== verification/TriageStore.thy ===== *)
theory TriageStore
  imports IgnoredTriage
begin

text \<open>
  The persistence of the triage map (\<^verbatim>\<open>src/client/triage.js\<close>): what is
  stored, how a stored blob is read back into the live map, and the protocol of
  a save, which writes an uncompressed snapshot at once, compresses and seals
  outside the lock, and commits only if no newer save has started.

  A stored text stands for what it decodes to. JSON, UTF-8, deflate and base64
  are inverses of their readers, so the main key holds a \<open>blob\<close>: an entry
  object in the clear, one sealed under a session key, or bytes that do not
  decode.
\<close>

section \<open>What is stored\<close>

text \<open>\<open>SESSION_ID_RE\<close>: ids that live only in this session.\<close>

definition session_id :: "string \<Rightarrow> bool" where
  "session_id i = all_digits i"

text \<open>A plain object of entries, its keys in insertion order.\<close>

type_synonym snapshot = "(string, entry) jsmap"

definition buildPersistedTriageEntries ::
    "bool \<Rightarrow> (finding \<Rightarrow> string option \<Rightarrow> bool) \<Rightarrow> report list \<Rightarrow> tmap \<Rightarrow> tmap \<times> snapshot" where
  "buildPersistedTriageEntries managed isAppFinding reports live =
     (let live' = (if managed then live else fst (migrateIgnoredReports isAppFinding live reports))
      in (live', concat (map (\<lambda>(i, e). if session_id i then []
           else case normalizeEntry (Some e) of None \<Rightarrow> [] | Some p \<Rightarrow> [(i, p)]) live')))"

text \<open>An entry as the object \<open>JSON.stringify\<close> writes: the fields that are set.\<close>

definition entry_json :: "entry \<Rightarrow> jsval" where
  "entry_json e = JObj (filter (\<lambda>(k, v). v \<noteq> JUndef)
     [(''color'', e_color e), (''triage'', e_triage e), (''comment'', e_comment e), (''fix'', e_fix e),
      (''flagged'', e_flagged e), (''ignoredReports'', e_ignored e),
      (''scopedIgnoredReports'', e_scoped e), (''deleted'', e_deleted e)])"

definition snapshot_json :: "snapshot \<Rightarrow> (string, jsval) jsmap" where
  "snapshot_json s = map (\<lambda>(i, e). (i, entry_json e)) s"

section \<open>Applying a stored blob to the live map\<close>

text \<open>A parsed object of entries; a value that is no object reads as \<open>None\<close> fields.\<close>

type_synonym parsed = "(string, jsval) jsmap"

definition lookup_entry :: "parsed option \<Rightarrow> string \<Rightarrow> entry option" where
  "lookup_entry p i = (case p of None \<Rightarrow> None | Some es \<Rightarrow>
     (case map_of es i of None \<Rightarrow> None | Some v \<Rightarrow> entry_of v))"

definition has_key :: "parsed option \<Rightarrow> string \<Rightarrow> bool" where
  "has_key p i = (case p of None \<Rightarrow> False | Some es \<Rightarrow> map_has es i)"

definition field_of :: "entry option \<Rightarrow> (entry \<Rightarrow> jsval) \<Rightarrow> jsval" where
  "field_of e sel = (case e of None \<Rightarrow> JUndef | Some x \<Rightarrow> sel x)"

definition nonempty_str :: "jsval \<Rightarrow> bool" where
  "nonempty_str v = (is_str v \<and> truthy v)"

text \<open>\<open>if (c) patchEntry(map, id, { f: undefined })\<close>.\<close>

definition clear_if :: "bool \<Rightarrow> string \<Rightarrow> field \<Rightarrow> tmap \<Rightarrow> tmap" where
  "clear_if c i f m = (if c then fst (patchEntry m i [(f, JUndef)]) else m)"

text \<open>First pass of a replace: clear each field the blob no longer carries,
  unless this tab's pending snapshot still holds it.\<close>

definition clears :: "parsed option \<Rightarrow> parsed option \<Rightarrow> string \<Rightarrow> field \<Rightarrow> bool" where
  "clears entries pending i f =
     (let v = lookup_entry entries i; p = lookup_entry pending i; noBlob = \<not> has_key entries i
      in case f of
        Color \<Rightarrow> \<not> (has_key pending i \<and> truthy (field_of p e_color))
          \<and> (noBlob \<or> \<not> truthy (field_of v e_color))
      | Triage \<Rightarrow> \<not> (has_key pending i \<and> (truthy (field_of p e_triage) \<or> truthy (field_of p e_deleted)))
          \<and> \<not> truthy (bucketOf v)
      | Comment \<Rightarrow> \<not> (has_key pending i \<and> truthy (field_of p e_comment))
          \<and> (noBlob \<or> \<not> nonempty_str (field_of v e_comment))
      | Fix \<Rightarrow> \<not> (has_key pending i \<and> truthy (field_of p e_fix))
          \<and> (noBlob \<or> \<not> nonempty_str (field_of v e_fix))
      | Flagged \<Rightarrow> \<not> (has_key pending i \<and> field_of p e_flagged \<noteq> JUndef)
          \<and> (noBlob \<or> field_of v e_flagged = JUndef)
      | _ \<Rightarrow> False)"

definition clear_fields :: "parsed option \<Rightarrow> parsed option \<Rightarrow> string \<Rightarrow> tmap \<Rightarrow> tmap" where
  "clear_fields entries pending i m =
     (if session_id i then m
      else fold (\<lambda>f. clear_if (clears entries pending i f) i f) [Color, Triage, Comment, Fix, Flagged] m)"

text \<open>Second pass: drop the report ignores the blob no longer lists.\<close>

definition drops :: "parsed option \<Rightarrow> parsed option \<Rightarrow> string \<Rightarrow> jsval \<Rightarrow> bool" where
  "drops entries pending i r =
     (let v = lookup_entry entries i in
      \<not> (has_key pending i \<and> arr_includes (field_of (lookup_entry pending i) e_ignored) r)
      \<and> (\<not> allowsReportIgnores v \<or> \<not> arr_includes (field_of v e_ignored) r))"

fun drop_report :: "string \<Rightarrow> jsval \<Rightarrow> tmap \<Rightarrow> tmap" where
  "drop_report i (JStr r) m = fst (setReportIgnored m i r False False)"
| "drop_report i _ m = m"

definition clear_reports :: "parsed option \<Rightarrow> parsed option \<Rightarrow> string \<Rightarrow> tmap \<Rightarrow> tmap" where
  "clear_reports entries pending i m =
     (if session_id i then m
      else fold (drop_report i) (filter (drops entries pending i) (elems (field_of (map_of m i) e_ignored))) m)"

text \<open>The pass over the blob's entries, in both modes.\<close>

definition load_patch :: "entry option \<Rightarrow> patch" where
  "load_patch v =
     (if truthy (field_of v e_color) then [(Color, field_of v e_color)] else [])
     @ (if truthy (bucketOf v) then [(Triage, bucketOf v)] else [])
     @ (if nonempty_str (field_of v e_comment) then [(Comment, field_of v e_comment)] else [])
     @ (if nonempty_str (field_of v e_fix) then [(Fix, field_of v e_fix)] else [])
     @ (if is_bool (field_of v e_flagged) then [(Flagged, field_of v e_flagged)] else [])"

fun load_report :: "string \<Rightarrow> entry option \<Rightarrow> jsval \<Rightarrow> tmap \<Rightarrow> tmap" where
  "load_report i v (JStr r) m = fst (setReportIgnored m i r True (isReportIgnoreScoped v r))"
| "load_report i v _ m = m"

definition apply_stored :: "string \<times> jsval \<Rightarrow> tmap \<Rightarrow> tmap" where
  "apply_stored iv m =
     (let i = fst iv; v = entry_of (snd iv); p = load_patch v;
          m1 = (if p \<noteq> [] then fst (patchEntry m i p) else m)
      in if allowsReportIgnores v \<and> v \<noteq> None
         then fold (load_report i v) (elems (field_of v e_ignored)) m1 else m1)"

definition applyTriageEntries ::
    "parsed option \<Rightarrow> bool \<Rightarrow> parsed option \<Rightarrow> tmap \<Rightarrow> tmap" where
  "applyTriageEntries entries replace pending m =
     (let m1 = (if replace then fold (clear_fields entries pending) (map_keys m) m else m);
          m2 = (if replace then fold (clear_reports entries pending) (map_keys m1) m1 else m1)
      in case entries of None \<Rightarrow> m2 | Some es \<Rightarrow> fold apply_stored es m2)"

section \<open>The stored keys and the save protocol\<close>

datatype 'a blob = Plain 'a | Sealed nat 'a | Undecodable

text \<open>What \<open>readTriageBlob\<close> answers: nothing stored, the entries, or a thrown error.\<close>

datatype read_error = VaultLocked | WrongKey | Undecoded

text \<open>A pending text parses or not.\<close>

datatype 'a pending = Parsed 'a | Unparsable

record 'a keys =
  main :: "'a blob option"
  pend :: "'a pending option"

fun openForTriage :: "nat option \<Rightarrow> 'a blob \<Rightarrow> read_error + 'a" where
  "openForTriage key (Plain x) = Inr x"
| "openForTriage key (Sealed k x) =
     (case key of None \<Rightarrow> Inl VaultLocked | Some k' \<Rightarrow> if k' = k then Inr x else Inl WrongKey)"
| "openForTriage key Undecodable = Inl Undecoded"

definition readTriageBlob :: "'a keys \<Rightarrow> nat option \<Rightarrow> read_error + 'a option" where
  "readTriageBlob st key = (case pend st of
     Some (Parsed x) \<Rightarrow> Inr (Some x)
   | _ \<Rightarrow> (case main st of
        None \<Rightarrow> Inr None
      | Some b \<Rightarrow> (case openForTriage key b of Inl e \<Rightarrow> Inl e | Inr x \<Rightarrow> Inr (Some x))))"

text \<open>
  One save in flight: its generation, the snapshot it serialized (\<open>None\<close> when
  there was nothing to store), and, once compressed, the key it was sealed with.
\<close>

record job =
  j_gen :: nat
  j_json :: "snapshot option"
  j_ready :: bool
  j_sealed :: "nat option"

record tab =
  t_live :: tmap
  t_reports :: "report list"
  t_gen :: nat
  t_key :: "nat option"
  t_jobs :: "job list"
  t_keys :: "snapshot keys"
  t_notified :: nat
  t_managed :: bool

text \<open>
  The synchronous part of \<open>saveTriage\<close>; \<open>quota\<close> says whether writing the
  pending key throws. In managed mode only the managed notifier runs.
\<close>

definition saveTriage :: "(finding \<Rightarrow> string option \<Rightarrow> bool) \<Rightarrow> bool \<Rightarrow> tab \<Rightarrow> tab" where
  "saveTriage isAppFinding quota t =
     (if t_managed t then t\<lparr>t_notified := t_notified t + 1\<rparr>
      else
        let gen = t_gen t + 1;
            (live, entries) = buildPersistedTriageEntries (t_managed t) isAppFinding (t_reports t) (t_live t);
            json = (if entries = [] then None else Some entries);
            keys = (case json of Some x \<Rightarrow> if quota then t_keys t else (t_keys t)\<lparr>pend := Some (Parsed x)\<rparr>
                    | None \<Rightarrow> t_keys t)
        in t\<lparr>t_live := live, t_gen := gen, t_keys := keys,
             t_jobs := t_jobs t @ [\<lparr>j_gen = gen, j_json = json, j_ready = False, j_sealed = None\<rparr>]\<rparr>)"

text \<open>The asynchronous part up to the commit: compress, read the session key, seal.\<close>

definition compress :: "job \<Rightarrow> tab \<Rightarrow> tab" where
  "compress j t = t\<lparr>t_jobs := map (\<lambda>x. if x = j then j\<lparr>j_ready := True,
     j_sealed := (if j_json j = None then None else t_key t)\<rparr> else x) (t_jobs t)\<rparr>"

definition compress_fails :: "job \<Rightarrow> tab \<Rightarrow> tab" where
  "compress_fails j t = t\<lparr>t_jobs := removeAll j (t_jobs t), t_notified := t_notified t + 1\<rparr>"

definition seal_blob :: "nat option \<Rightarrow> 'a \<Rightarrow> 'a blob" where
  "seal_blob key x = (case key of None \<Rightarrow> Plain x | Some k \<Rightarrow> Sealed k x)"

text \<open>The commit under the lock; \<open>quota\<close> says whether writing the main key throws.\<close>

definition commit :: "(finding \<Rightarrow> string option \<Rightarrow> bool) \<Rightarrow> bool \<Rightarrow> job \<Rightarrow> tab \<Rightarrow> tab" where
  "commit isAppFinding quota j t =
     (let t1 = t\<lparr>t_jobs := removeAll j (t_jobs t), t_notified := t_notified t + 1\<rparr> in
      if j_gen j \<noteq> t_gen t then t1
      else case j_json j of
        None \<Rightarrow> t1\<lparr>t_keys := \<lparr>main = None, pend = None\<rparr>\<rparr>
      | Some x \<Rightarrow>
          if t_key t \<noteq> j_sealed j then saveTriage isAppFinding quota t1
          else if quota then t1
          else t1\<lparr>t_keys := \<lparr>main = Some (seal_blob (j_sealed j) x), pend = None\<rparr>\<rparr>)"

text \<open>What one tab may do: edit, save, let a save progress, learn of a new session key.\<close>

inductive save_step :: "(finding \<Rightarrow> string option \<Rightarrow> bool) \<Rightarrow> tab \<Rightarrow> tab \<Rightarrow> bool"
  for isAppFinding where
  edit: "save_step isAppFinding t (t\<lparr>t_live := m\<rparr>)"
| save: "save_step isAppFinding t (saveTriage isAppFinding quota t)"
| ready: "j \<in> set (t_jobs t) \<Longrightarrow> \<not> j_ready j \<Longrightarrow> save_step isAppFinding t (compress j t)"
| failed: "j \<in> set (t_jobs t) \<Longrightarrow> \<not> j_ready j \<Longrightarrow> j_json j \<noteq> None \<Longrightarrow>
    save_step isAppFinding t (compress_fails j t)"
| committed: "j \<in> set (t_jobs t) \<Longrightarrow> j_ready j \<Longrightarrow> save_step isAppFinding t (commit isAppFinding quota j t)"
| rekey: "save_step isAppFinding t (t\<lparr>t_key := k\<rparr>)"

section \<open>Loading\<close>

text \<open>
  The ignores stored without a classification are migrated with the reports
  they name, read from storage (\<open>readReport\<close>, \<open>loadFindings\<close> as in
  \<open>readIgnoredReportContexts\<close>).
\<close>

definition migrateLocalStoredIgnores ::
    "(finding \<Rightarrow> string option \<Rightarrow> bool) \<Rightarrow> (string \<Rightarrow> string option) \<Rightarrow>
     (string \<Rightarrow> (report \<times> finding list) option) \<Rightarrow> bool \<Rightarrow> tmap \<Rightarrow> tmap \<times> bool" where
  "migrateLocalStoredIgnores isAppFinding readReport loadFindings managed m =
     (if managed then (m, False)
      else if \<not> list_ex (\<lambda>(_, e). has_items (e_ignored e)) m then (m, False)
      else migrateIgnoredReports isAppFinding m
        (readIgnoredReportContexts readReport loadFindings (snapshot_json m)))"

definition pending_entries :: "snapshot keys \<Rightarrow> parsed option" where
  "pending_entries st = (case pend st of Some (Parsed x) \<Rightarrow> Some (snapshot_json x) | _ \<Rightarrow> None)"

text \<open>\<open>loadTriage\<close> (\<open>replace = False\<close>) and \<open>reloadTriageFromStorage\<close>
  (\<open>replace = True\<close>): a read that throws leaves the live map alone.\<close>

definition loadTriage ::
    "(finding \<Rightarrow> string option \<Rightarrow> bool) \<Rightarrow> (string \<Rightarrow> string option) \<Rightarrow>
     (string \<Rightarrow> (report \<times> finding list) option) \<Rightarrow> bool \<Rightarrow> tab \<Rightarrow> tab" where
  "loadTriage isAppFinding readReport loadFindings replace t =
     (if t_managed t then t
      else case readTriageBlob (t_keys t) (t_key t) of
        Inl e \<Rightarrow> t
      | Inr stored \<Rightarrow>
          let live = applyTriageEntries (map_option snapshot_json stored) replace
                (pending_entries (t_keys t)) (t_live t);
              (live', changed) = migrateLocalStoredIgnores isAppFinding readReport loadFindings False live
          in if changed then saveTriage isAppFinding False (t\<lparr>t_live := live'\<rparr>)
             else t\<lparr>t_live := live'\<rparr>)"

section \<open>Vault transitions\<close>

text \<open>
  \<open>migrateTriageToEncrypted\<close> and \<open>migrateTriageToPlaintext\<close>, run under the
  exclusive vault lock: the keys afterwards and the error thrown, if any. The
  pending snapshot is dropped first, whatever happens next.
\<close>

definition migrateTriageToEncrypted :: "nat \<Rightarrow> 'a keys \<Rightarrow> 'a keys \<times> read_error option" where
  "migrateTriageToEncrypted k st =
     (let st1 = st\<lparr>pend := None\<rparr> in case main st of
        None \<Rightarrow> (st1, None)
      | Some (Sealed k' x) \<Rightarrow> (st1, None)
      | Some (Plain x) \<Rightarrow> (st1\<lparr>main := Some (Sealed k x)\<rparr>, None)
      | Some Undecodable \<Rightarrow> (st1, Some Undecoded))"

definition migrateTriageToPlaintext :: "nat \<Rightarrow> 'a keys \<Rightarrow> 'a keys \<times> read_error option" where
  "migrateTriageToPlaintext k st =
     (let st1 = st\<lparr>pend := None\<rparr> in case main st of
        None \<Rightarrow> (st1, None)
      | Some (Plain x) \<Rightarrow> (st1, None)
      | Some (Sealed k' x) \<Rightarrow>
          if k' = k then (st1\<lparr>main := Some (Plain x)\<rparr>, None) else (st1, Some WrongKey)
      | Some Undecodable \<Rightarrow> (st1, Some Undecoded))"

section \<open>Patches of the main fields\<close>

lemma get_field_clean:
  "e_deleted e = JUndef \<Longrightarrow> f \<in> set main_fields \<Longrightarrow> get_field f (clean e) = norm_field f (get_field f e)"
  using asBucket_cases [of "e_triage e"]
  by (auto simp: main_fields_cases bucketOf.simps coalesce_def)

lemma put_field_get:
  "f \<in> set main_fields \<Longrightarrow> g \<in> set main_fields \<Longrightarrow>
     get_field g (put_field f v e) = (if g = f then v else get_field g e)"
  by (auto simp: main_fields_cases)

lemma put_field_rest:
  "f \<in> set main_fields \<Longrightarrow> e_deleted (put_field f v e) = e_deleted e
     \<and> e_ignored (put_field f v e) = e_ignored e \<and> e_scoped (put_field f v e) = e_scoped e"
  by (auto simp: main_fields_cases)

lemma fold_put_rest:
  assumes "fst ` set p \<subseteq> set main_fields"
  shows "e_deleted (fold (\<lambda>(f, v). put_field f v) p e) = e_deleted e
     \<and> e_ignored (fold (\<lambda>(f, v). put_field f v) p e) = e_ignored e
     \<and> e_scoped (fold (\<lambda>(f, v). put_field f v) p e) = e_scoped e"
  using assms by (induction p arbitrary: e) (auto simp: put_field_rest)

lemma fold_put_get:
  assumes "fst ` set p \<subseteq> set main_fields" and "distinct (map fst p)" and "g \<in> set main_fields"
  shows "get_field g (fold (\<lambda>(f, v). put_field f v) p e) =
    (case map_of p g of Some v \<Rightarrow> v | None \<Rightarrow> get_field g e)"
  using assms
proof (induction p arbitrary: e)
  case (Cons x p)
  obtain f v where x: "x = (f, v)" by (cases x)
  with Cons.prems have f: "f \<in> set main_fields" "map_of p f = None" by (auto simp: map_of_eq_None_iff)
  have "get_field g (fold (\<lambda>(f, v). put_field f v) p (put_field f v e)) =
      (case map_of p g of Some w \<Rightarrow> w | None \<Rightarrow> get_field g (put_field f v e))"
    using Cons by simp
  with f show ?case by (auto simp: x put_field_get [OF f(1) Cons.prems(3)] put_field_get [OF f(1) f(1)] split: option.splits)
qed simp

text \<open>A patch of main fields: what each field reads afterwards, and the report ignores kept.\<close>

lemma patch_mains:
  assumes ok: "tmap_ok m" and keys: "fst ` set p \<subseteq> set main_fields" and d: "distinct (map fst p)"
    and g: "g \<in> set main_fields"
  shows "get_field g (view (map_of (fst (patchEntry m i p)) i)) =
    (case map_of p g of Some v \<Rightarrow> norm_field g v | None \<Rightarrow> get_field g (view (map_of m i)))"
proof -
  let ?e = "fold (\<lambda>(f, v). put_field f v) p (view (map_of m i))"
  have sp: "spread (map_of m i) p = ?e"
    using cur_ok_view [OF cur_ok_lookup [OF ok], of i] by (simp add: spread_def or_no_fields_def)
  have del: "e_deleted (view (map_of m i)) = JUndef" by (cases "map_of m i") simp_all
  then have dele: "e_deleted ?e = JUndef" using fold_put_rest [OF keys] by simp
  have vv: "norm_field g (get_field g (view (map_of m i))) = get_field g (view (map_of m i))"
    using get_field_clean [OF del g] by simp
  show ?thesis
    unfolding view_patchEntry [OF g] sp get_field_clean [OF dele g] fold_put_get [OF keys d g]
    using vv by (simp split: option.splits)
qed

lemma patch_mains_reports:
  assumes ok: "tmap_ok m" and keys: "fst ` set p \<subseteq> set main_fields"
  shows "ignored_of (map_of (fst (patchEntry m i p)) i) = ignored_of (map_of m i)
    \<and> scoped_of (map_of (fst (patchEntry m i p)) i) = scoped_of (map_of m i)"
proof -
  let ?e = "spread (map_of m i) p"
  have e: "e_ignored ?e = e_ignored (or_no_fields (map_of m i))"
    "e_scoped ?e = e_scoped (or_no_fields (map_of m i))"
    using fold_put_rest [OF keys] by (simp_all add: spread_def or_no_fields_def)
  have lk: "map_of (fst (patchEntry m i p)) i = wb_eff (map_of m i) (normalizeEntry (Some ?e))"
    by (simp add: patchEntry_def write_back_lookup)
  show ?thesis unfolding lk
  proof (cases "map_of m i")
    case None
    then have "e_ignored ?e = JUndef" "e_scoped ?e = JUndef" using e by (simp_all add: or_no_fields_def)
    then have "ignored_of (normalizeEntry (Some ?e)) = {}" "scoped_of (normalizeEntry (Some ?e)) = {}"
      by (simp_all add: ignored_of_normalize scoped_of_normalize)
    with None show "ignored_of (wb_eff (map_of m i) (normalizeEntry (Some ?e))) = ignored_of (map_of m i)
      \<and> scoped_of (wb_eff (map_of m i) (normalizeEntry (Some ?e))) = scoped_of (map_of m i)"
      by (auto simp: wb_eff_def split: option.splits)
  next
    case (Some c)
    then show "ignored_of (wb_eff (map_of m i) (normalizeEntry (Some ?e))) = ignored_of (map_of m i)
      \<and> scoped_of (wb_eff (map_of m i) (normalizeEntry (Some ?e))) = scoped_of (map_of m i)"
      using reports_survive_normalize [OF tmap_ok_lookup [OF ok Some]] e by (simp add: or_no_fields_def)
  qed
qed

section \<open>The three passes, entry by entry\<close>

definition same_reports :: "entry option \<Rightarrow> entry option \<Rightarrow> bool" where
  "same_reports a b = (ignored_of b = ignored_of a \<and> scoped_of b = scoped_of a)"

definition same_main :: "entry option \<Rightarrow> entry option \<Rightarrow> bool" where
  "same_main a b = (\<forall>g \<in> set main_fields. get_field g (view b) = get_field g (view a))"

lemma get_field_unset [simp]: "get_field g no_fields = JUndef"
  by (cases g) simp_all

lemma norm_undef [simp]: "g \<in> set main_fields \<Longrightarrow> norm_field g JUndef = JUndef"
  by (auto simp: main_fields_cases keep_str_def)

lemma clear_if_step:
  assumes "tmap_ok m" and "f \<in> set main_fields"
  shows "tmap_ok (clear_if c i f m) \<and> same_reports (map_of m i) (map_of (clear_if c i f m) i)
    \<and> (\<forall>j. j \<noteq> i \<longrightarrow> map_of (clear_if c i f m) j = map_of m j)
    \<and> (\<forall>g \<in> set main_fields. get_field g (view (map_of (clear_if c i f m) i)) =
        (if c \<and> g = f then JUndef else get_field g (view (map_of m i))))"
  using assms patch_main_reports [OF assms, of i JUndef] patch_main [OF assms, of _ i JUndef]
  by (auto simp: clear_if_def same_reports_def patch_frame)

lemma clear_fold:
  assumes "tmap_ok m" and "distinct fs" and "set fs \<subseteq> set main_fields"
  shows "tmap_ok (fold (\<lambda>f. clear_if (c f) i f) fs m)
    \<and> same_reports (map_of m i) (map_of (fold (\<lambda>f. clear_if (c f) i f) fs m) i)
    \<and> (\<forall>j. j \<noteq> i \<longrightarrow> map_of (fold (\<lambda>f. clear_if (c f) i f) fs m) j = map_of m j)
    \<and> (\<forall>g \<in> set main_fields. get_field g (view (map_of (fold (\<lambda>f. clear_if (c f) i f) fs m) i)) =
        (if g \<in> set fs \<and> c g then JUndef else get_field g (view (map_of m i))))"
  using assms
proof (induction fs arbitrary: m)
  case Nil
  then show ?case by (simp add: same_reports_def)
next
  case (Cons f fs)
  from Cons.prems have f: "f \<in> set main_fields" by simp
  note st = clear_if_step [OF Cons.prems(1) f, of "c f" i]
  from Cons.IH [of "clear_if (c f) i f m"] st Cons.prems show ?case
    by (auto simp: same_reports_def)
qed

definition cleared :: "parsed option \<Rightarrow> parsed option \<Rightarrow> string \<Rightarrow> entry option \<Rightarrow> entry option \<Rightarrow> bool" where
  "cleared entries pending i cur cur' = (if session_id i then cur' = cur else
     same_reports cur cur' \<and> (\<forall>g \<in> set main_fields. get_field g (view cur') =
       (if clears entries pending i g then JUndef else get_field g (view cur))))"

interpretation clear_walk: keyed_walk "clear_fields entries pending" "\<lambda>i. i" tmap_ok "cleared entries pending"
  for entries pending
proof
  fix m i k
  assume m: "tmap_ok m"
  have fs: "distinct [Color, Triage, Comment, Fix, Flagged]" "set [Color, Triage, Comment, Fix, Flagged] = set main_fields"
    by (simp_all add: main_fields_def)
  note f = clear_fold [OF m fs(1) equalityD1 [OF fs(2)], of "clears entries pending i" i]
  show "tmap_ok (clear_fields entries pending i m)" using f m by (simp add: clear_fields_def)
  show "cleared entries pending i (map_of m i) (map_of (clear_fields entries pending i m) i)"
    using f fs(2) unfolding clear_fields_def cleared_def by auto
  assume "k \<noteq> i"
  then show "map_of (clear_fields entries pending i m) k = map_of m k"
    using f by (simp add: clear_fields_def)
qed

lemma drop_fold:
  assumes "tmap_ok m" and "list_all is_str rs"
  shows "tmap_ok (fold (drop_report i) rs m)
    \<and> same_main (map_of m i) (map_of (fold (drop_report i) rs m) i)
    \<and> (\<forall>j. j \<noteq> i \<longrightarrow> map_of (fold (drop_report i) rs m) j = map_of m j)
    \<and> ignored_of (map_of (fold (drop_report i) rs m) i) = ignored_of (map_of m i) - set rs
    \<and> scoped_of (map_of (fold (drop_report i) rs m) i) = scoped_of (map_of m i) - set rs"
  using assms
proof (induction rs arbitrary: m)
  case Nil
  then show ?case by (simp add: same_main_def)
next
  case (Cons x rs)
  then obtain r where x: "x = JStr r" by (auto simp: is_str_conv)
  let ?m = "fst (setReportIgnored m i r False False)"
  have "JStr [] \<notin> ignored_of (map_of m i)" using ignored_of_ok [OF Cons.prems(1)] by blast
  moreover have "JStr [] \<notin> scoped_of (map_of m i)" using calculation scoped_sub_ignored [OF Cons.prems(1)] by blast
  ultimately have s: "ignored_of (map_of ?m i) = ignored_of (map_of m i) - {x}" "scoped_of (map_of ?m i) = scoped_of (map_of m i) - {x}"
    using setReportIgnored_sets_any [OF Cons.prems(1), of i r False False] by (auto simp: x)
  have mn: "same_main (map_of m i) (map_of ?m i)"
    using setReportIgnored_main [OF Cons.prems(1)] by (simp add: same_main_def)
  from Cons.IH [of ?m] Cons.prems s mn show ?case
    by (auto simp: x same_main_def setReportIgnored_frame)
qed

definition dropped :: "parsed option \<Rightarrow> parsed option \<Rightarrow> string \<Rightarrow> entry option \<Rightarrow> entry option \<Rightarrow> bool" where
  "dropped entries pending i cur cur' = (if session_id i then cur' = cur else
     same_main cur cur' \<and> ignored_of cur' = {r \<in> ignored_of cur. \<not> drops entries pending i r}
     \<and> scoped_of cur' = {r \<in> scoped_of cur. \<not> drops entries pending i r})"

lemma elems_field_ignored [simp]: "set (elems (field_of e e_ignored)) = ignored_of e"
  by (cases e) (simp_all add: field_of_def)

interpretation drop_walk: keyed_walk "clear_reports entries pending" "\<lambda>i. i" tmap_ok "dropped entries pending"
  for entries pending
proof
  fix m i k
  assume m: "tmap_ok m"
  let ?rs = "filter (drops entries pending i) (elems (field_of (map_of m i) e_ignored))"
  have "list_all is_str ?rs" using ignored_of_ok [OF m] by (auto simp: list_all_iff)
  note f = drop_fold [OF m this, of i]
  show "tmap_ok (clear_reports entries pending i m)" using f m by (simp add: clear_reports_def)
  show "dropped entries pending i (map_of m i) (map_of (clear_reports entries pending i m) i)"
    using f scoped_sub_ignored [OF m, of i] unfolding clear_reports_def dropped_def by auto
  assume "k \<noteq> i"
  then show "map_of (clear_reports entries pending i m) k = map_of m k"
    using f by (simp add: clear_reports_def)
qed

lemma load_fold:
  assumes "tmap_ok m"
  shows "tmap_ok (fold (load_report i v) rs m)
    \<and> same_main (map_of m i) (map_of (fold (load_report i v) rs m) i)
    \<and> (\<forall>j. j \<noteq> i \<longrightarrow> map_of (fold (load_report i v) rs m) j = map_of m j)
    \<and> ignored_of (map_of (fold (load_report i v) rs m) i) =
        ignored_of (map_of m i) \<union> {r \<in> set rs. is_str r \<and> r \<noteq> JStr []}
    \<and> scoped_of (map_of (fold (load_report i v) rs m) i) =
        scoped_of (map_of m i) \<union> {r \<in> set rs. is_str r \<and> r \<noteq> JStr [] \<and> r \<in> scoped_of v}"
  using assms
proof (induction rs arbitrary: m)
  case Nil
  then show ?case by (simp add: same_main_def)
next
  case (Cons x rs)
  show ?case
  proof (cases x)
    case (JStr r)
    let ?m = "fst (setReportIgnored m i r True (isReportIgnoreScoped v r))"
    have "JStr [] \<notin> ignored_of (map_of m i)" using ignored_of_ok [OF Cons.prems(1)] by blast
    moreover have "JStr [] \<notin> scoped_of (map_of m i)" using calculation scoped_sub_ignored [OF Cons.prems(1)] by blast
    ultimately have s: "ignored_of (map_of ?m i) = ignored_of (map_of m i) \<union> ({x} - {JStr []})"
      "scoped_of (map_of ?m i) = scoped_of (map_of m i) \<union> ({x} \<inter> scoped_of v - {JStr []})"
      using setReportIgnored_sets_any [OF Cons.prems(1), of i r True "isReportIgnoreScoped v r"]
      by (auto simp: JStr isReportIgnoreScoped_iff)
    have mn: "same_main (map_of m i) (map_of ?m i)"
      using setReportIgnored_main [OF Cons.prems(1)] by (simp add: same_main_def)
    from Cons.IH [of ?m] Cons.prems s mn show ?thesis
      by (auto simp: JStr same_main_def setReportIgnored_frame)
  qed (use Cons in auto)
qed

definition loaded :: "string \<times> jsval \<Rightarrow> entry option \<Rightarrow> entry option \<Rightarrow> bool" where
  "loaded iv cur cur' = (let v = entry_of (snd iv);
       new = (if allowsReportIgnores v then {r \<in> ignored_of v. is_str r \<and> r \<noteq> JStr []} else {}) in
     (\<forall>g \<in> set main_fields. get_field g (view cur') =
        (case map_of (load_patch v) g of Some w \<Rightarrow> norm_field g w | None \<Rightarrow> get_field g (view cur)))
     \<and> ignored_of cur' = ignored_of cur \<union> new \<and> scoped_of cur' = scoped_of cur \<union> (new \<inter> scoped_of v))"

lemma load_patch_keys:
  "fst ` set (load_patch v) \<subseteq> set main_fields" "distinct (map fst (load_patch v))"
  by (auto simp: load_patch_def)

interpretation load_walk: keyed_walk apply_stored fst tmap_ok loaded
proof
  fix m :: tmap and x :: "string \<times> jsval" and k
  assume m: "tmap_ok m"
  let ?i = "fst x" and ?v = "entry_of (snd x)"
  define m1 where "m1 = (if load_patch ?v \<noteq> [] then fst (patchEntry m ?i (load_patch ?v)) else m)"
  define rs where "rs = (if allowsReportIgnores ?v \<and> ?v \<noteq> None then elems (field_of ?v e_ignored) else [])"
  have e: "apply_stored x m = fold (load_report ?i ?v) rs m1"
    by (auto simp: apply_stored_def Let_def m1_def rs_def field_of_def)
  have ok1: "tmap_ok m1" using m by (simp add: m1_def)
  note f = load_fold [OF ok1, of ?i ?v rs]
  have g1: "get_field g (view (map_of m1 ?i)) =
      (case map_of (load_patch ?v) g of Some w \<Rightarrow> norm_field g w | None \<Rightarrow> get_field g (view (map_of m ?i)))"
    if "g \<in> set main_fields" for g
    using patch_mains [OF m load_patch_keys that, of ?i ?v] by (simp add: m1_def)
  have r1: "ignored_of (map_of m1 ?i) = ignored_of (map_of m ?i)" "scoped_of (map_of m1 ?i) = scoped_of (map_of m ?i)"
    using patch_mains_reports [OF m load_patch_keys(1), of ?i ?v] by (simp_all add: m1_def)
  have rs: "set rs = (if allowsReportIgnores ?v then ignored_of ?v else {})"
    by (cases ?v) (auto simp: rs_def field_of_def)
  show "tmap_ok (apply_stored x m)" using f by (simp add: e)
  show "loaded x (map_of m ?i) (map_of (apply_stored x m) ?i)"
    using f g1 r1 unfolding e loaded_def Let_def same_main_def rs by auto
  assume "k \<noteq> ?i"
  then show "map_of (apply_stored x m) k = map_of m k"
    using f by (simp add: e m1_def patch_frame)
qed

section \<open>Stored entries read back\<close>

lemma js_field_filter:
  assumes "distinct (map fst fs)"
  shows "js_field (JObj (filter (\<lambda>(k, v). v \<noteq> JUndef) fs)) k =
    (case map_of fs k of Some v \<Rightarrow> v | None \<Rightarrow> JUndef)"
  using assms
proof (induction fs)
  case (Cons x fs)
  obtain k' v where x: "x = (k', v)" by (cases x)
  with Cons.prems have "k' = k \<Longrightarrow> map_of fs k = None" by (auto simp: map_of_eq_None_iff)
  with Cons x show ?case by auto
qed simp

lemma entry_of_json [simp]: "entry_of (entry_json e) = Some e"
  unfolding entry_json_def entry_of_def by (subst (1 2 3 4 5 6 7 8) js_field_filter) simp_all

lemma lookup_snapshot [simp]:
  "lookup_entry (Some (snapshot_json s)) i = map_of s i" "has_key (Some (snapshot_json s)) i = map_has s i"
  by (induction s) (auto simp: lookup_entry_def has_key_def snapshot_json_def)

lemma lookup_none [simp]: "lookup_entry None i = None" "has_key None i = False"
  by (simp_all add: lookup_entry_def has_key_def)

text \<open>What a save stores of a well-formed map: its entries, the session ids left out.\<close>

definition stored_of :: "tmap \<Rightarrow> snapshot" where
  "stored_of m = filter (\<lambda>(i, e). \<not> session_id i) m"

lemma build_stored:
  assumes "tmap_ok (fst (buildPersistedTriageEntries managed app reports live))"
  shows "snd (buildPersistedTriageEntries managed app reports live) =
    stored_of (fst (buildPersistedTriageEntries managed app reports live))"
proof -
  have "concat (map (\<lambda>(i, e). if session_id i then []
        else case normalizeEntry (Some e) of None \<Rightarrow> [] | Some p \<Rightarrow> [(i, p)]) m) = stored_of m"
    if "list_all (\<lambda>(_, e). entry_ok e) m" for m
    using that by (induction m) (auto simp: stored_of_def normalizeEntry_id)
  with assms show ?thesis by (simp add: buildPersistedTriageEntries_def Let_def tmap_ok_def)
qed

lemma stored_lookup: "map_of (stored_of m) i = (if session_id i then None else map_of m i)"
  by (induction m) (auto simp: stored_of_def)

lemma stored_ok: "tmap_ok m \<Longrightarrow> tmap_ok (stored_of m)"
  by (auto simp: tmap_ok_def map_ok_def stored_of_def list_all_iff distinct_map_filter)

lemma load_patch_value:
  assumes "cur_ok v" and "g \<in> set main_fields"
  shows "(case map_of (load_patch v) g of Some w \<Rightarrow> norm_field g w | None \<Rightarrow> x) =
    (if get_field g (view v) \<noteq> JUndef then get_field g (view v) else x)"
proof (cases v)
  case None
  then show ?thesis by (simp add: load_patch_def field_of_def bucketOf.simps nonempty_str_def)
next
  case (Some e)
  then have ok: "entry_ok e" using assms(1) by (simp add: cur_ok_def)
  then have vw: "view v = e" using Some by (simp add: clean_id)
  have strs: "opt_str w \<Longrightarrow> nonempty_str w = (w \<noteq> JUndef)" "opt_str w \<Longrightarrow> truthy w = (w \<noteq> JUndef)"
    "opt_str w \<Longrightarrow> keep_str w = w" for w
    by (cases w; auto simp: opt_str_def nonempty_str_def keep_str_def)+
  have b: "bucketOf v = e_triage e" using ok Some by (simp add: entry_ok_def bucketOf_clean)
  have tb: "truthy (bucketOf v) = (bucketOf v \<noteq> JUndef)" by (metis falsy_bucket)
  show ?thesis
    using assms(2) ok b tb strs unfolding vw main_fields_cases load_patch_def
    by (auto simp: Some field_of_def entry_ok_def)
qed

lemma allows_none [simp]: "allowsReportIgnores None"
  by (simp add: allowsReportIgnores_def bucketOf.simps)

lemma loaded_from:
  assumes "cur_ok v" and "entry_of x = v" and "loaded (i, x) cur cur'"
  shows "\<forall>g \<in> set main_fields. get_field g (view cur') =
      (if get_field g (view v) \<noteq> JUndef then get_field g (view v) else get_field g (view cur))"
    and "ignored_of cur' = ignored_of cur \<union> (if allowsReportIgnores v then ignored_of v else {})"
    and "scoped_of cur' = scoped_of cur \<union> (if allowsReportIgnores v then scoped_of v else {})"
proof -
  have new: "{r \<in> ignored_of v. is_str r \<and> r \<noteq> JStr []} = ignored_of v"
    using assms(1) by (cases v) (auto simp: cur_ok_def entry_ok_def reports_ok_def list_all_iff)
  have sc: "ignored_of v \<inter> scoped_of v = scoped_of v"
    using assms(1) by (cases v) (auto simp: cur_ok_def entry_ok_def scoped_ok_def list_all_iff)
  show "\<forall>g \<in> set main_fields. get_field g (view cur') =
      (if get_field g (view v) \<noteq> JUndef then get_field g (view v) else get_field g (view cur))"
    using assms(3) load_patch_value [OF assms(1)] by (simp add: loaded_def Let_def assms(2))
  show "ignored_of cur' = ignored_of cur \<union> (if allowsReportIgnores v then ignored_of v else {})"
    "scoped_of cur' = scoped_of cur \<union> (if allowsReportIgnores v then scoped_of v else {})"
    using assms(3) new sc by (auto simp: loaded_def Let_def assms(2))
qed

lemma load_all:
  assumes m: "tmap_ok m" and s: "tmap_ok s"
  defines "m' \<equiv> fold apply_stored (snapshot_json s) m"
  shows "tmap_ok m'
    \<and> (\<forall>g \<in> set main_fields. get_field g (view (map_of m' i)) =
      (if get_field g (view (map_of s i)) \<noteq> JUndef then get_field g (view (map_of s i)) else get_field g (view (map_of m i))))
    \<and> ignored_of (map_of m' i) = ignored_of (map_of m i) \<union> (if allowsReportIgnores (map_of s i) then ignored_of (map_of s i) else {})
    \<and> scoped_of (map_of m' i) = scoped_of (map_of m i) \<union> (if allowsReportIgnores (map_of s i) then scoped_of (map_of s i) else {})
    \<and> (map_of s i = None \<longrightarrow> map_of m' i = map_of m i)"
proof (cases "map_of s i")
  case None
  then have "i \<notin> fst ` set (snapshot_json s)" by (force simp: snapshot_json_def map_of_eq_None_iff)
  from load_walk.walk_other [OF m this] None show ?thesis
    using load_walk.walk_inv [OF m] by (simp add: m'_def)
next
  case (Some e)
  then have x: "(i, entry_json e) \<in> set (snapshot_json s)"
    by (force simp: snapshot_json_def dest: map_of_SomeD)
  have d: "distinct (map fst (snapshot_json s))"
    using tmap_ok_map_ok [OF s] by (simp add: snapshot_json_def map_ok_def comp_def case_prod_beta)
  have c: "cur_ok (map_of s i)" by (rule cur_ok_lookup [OF s])
  have "entry_of (entry_json e) = map_of s i" using Some by simp
  note l = loaded_from [OF c this load_walk.walk_rel [OF m d x, simplified fst_conv, folded m'_def]]
  show ?thesis using l Some load_walk.walk_inv [OF m] by (simp add: m'_def)
qed

lemma reports_of_ok: "cur_ok v \<Longrightarrow> arr_includes (field_of v e_ignored) r = (r \<in> ignored_of v)"
  by (cases v) (simp_all add: field_of_def arr_includes_elems)

lemma text_tests:
  assumes "cur_ok v"
  shows "f \<in> {Color, Comment, Fix} \<Longrightarrow> nonempty_str (field_of v (get_field f)) = (get_field f (view v) \<noteq> JUndef)"
    and "f \<in> {Color, Comment, Fix} \<Longrightarrow> truthy (field_of v (get_field f)) = (get_field f (view v) \<noteq> JUndef)"
    and "field_of v (get_field Flagged) = get_field Flagged (view v)"
    and "truthy (bucketOf v) = (get_field Triage (view v) \<noteq> JUndef)"
    and "(truthy (field_of v e_triage) \<or> truthy (field_of v e_deleted)) = (get_field Triage (view v) \<noteq> JUndef)"
proof -
  have w: "opt_str w \<Longrightarrow> nonempty_str w = (w \<noteq> JUndef) \<and> truthy w = (w \<noteq> JUndef)" for w
    by (cases w) (auto simp: opt_str_def nonempty_str_def)
  have vw: "v = Some e \<Longrightarrow> view v = e" for e using assms by (simp add: cur_ok_def clean_id)
  show "f \<in> {Color, Comment, Fix} \<Longrightarrow> nonempty_str (field_of v (get_field f)) = (get_field f (view v) \<noteq> JUndef)"
    "f \<in> {Color, Comment, Fix} \<Longrightarrow> truthy (field_of v (get_field f)) = (get_field f (view v) \<noteq> JUndef)"
    "field_of v (get_field Flagged) = get_field Flagged (view v)"
    using assms vw w by (cases v; auto simp: field_of_def nonempty_str_def cur_ok_def entry_ok_def)+
  show tb: "truthy (bucketOf v) = (get_field Triage (view v) \<noteq> JUndef)"
    by (simp add: view_triage) (metis falsy_bucket)
  show "(truthy (field_of v e_triage) \<or> truthy (field_of v e_deleted)) = (get_field Triage (view v) \<noteq> JUndef)"
  proof (cases v)
    case None
    then show ?thesis by (simp add: field_of_def)
  next
    case (Some e)
    then have "bucketOf v = e_triage e" "e_deleted e = JUndef"
      using assms by (simp_all add: cur_ok_def entry_ok_def bucketOf_clean)
    with tb Some show ?thesis by (simp add: field_of_def)
  qed
qed

lemma clears_iff:
  assumes "cur_ok v" and "cur_ok q" and "lookup_entry entries i = v" and "lookup_entry pending i = q"
    and "has_key entries i = (v \<noteq> None)" and "has_key pending i = (q \<noteq> None)" and "g \<in> set main_fields"
  shows "clears entries pending i g \<longleftrightarrow> get_field g (view v) = JUndef \<and> get_field g (view q) = JUndef"
proof -
  have sel: "e_color = get_field Color" "e_comment = get_field Comment" "e_fix = get_field Fix" "e_flagged = get_field Flagged"
    by (simp_all add: fun_eq_iff)
  have un: "e = None \<Longrightarrow> get_field g (view e) = JUndef" for e by simp
  note tv = text_tests [OF assms(1)] and tq = text_tests [OF assms(2)]
  consider "g = Triage" | "g = Flagged" | "g = Color" | "g = Comment" | "g = Fix"
    using assms(7) unfolding main_fields_cases by blast
  then show ?thesis
  proof cases
    case 1
    show ?thesis using un [of q] unfolding 1 clears_def Let_def assms(3-6) field.case tq(5) tv(4) by blast
  next
    case 2
    show ?thesis using un [of q] un [of v] unfolding 2 clears_def Let_def assms(3-6) field.case sel tq(3) tv(3) by blast
  next
    case 3
    have "Color \<in> {Color, Comment, Fix}" by simp
    note t = tv(2) [OF this] tq(2) [OF this]
    show ?thesis using un [of q] un [of v] unfolding 3 clears_def Let_def assms(3-6) field.case sel t by blast
  next
    case 4
    have "Comment \<in> {Color, Comment, Fix}" by simp
    note t = tv(1) [OF this] tq(2) [OF this]
    show ?thesis using un [of q] un [of v] unfolding 4 clears_def Let_def assms(3-6) field.case sel t by blast
  next
    case 5
    have "Fix \<in> {Color, Comment, Fix}" by simp
    note t = tv(1) [OF this] tq(2) [OF this]
    show ?thesis using un [of q] un [of v] unfolding 5 clears_def Let_def assms(3-6) field.case sel t by blast
  qed
qed

text \<open>A replace in closed form, for snapshots as the program stores them.\<close>

lemma replace_closed:
  fixes live s :: tmap and ps :: "tmap option" and i :: string
  assumes live: "tmap_ok live" and s: "tmap_ok s" and ps: "\<And>p. ps = Some p \<Longrightarrow> tmap_ok p"
  defines "m' \<equiv> applyTriageEntries (Some (snapshot_json s)) True (map_option snapshot_json ps) live"
    and "q \<equiv> (case ps of None \<Rightarrow> None | Some p \<Rightarrow> map_of p i)"
  shows "tmap_ok m'" and "session_id i \<Longrightarrow> map_of s i = None \<Longrightarrow> map_of m' i = map_of live i"
    and "\<not> session_id i \<Longrightarrow> g \<in> set main_fields \<Longrightarrow> get_field g (view (map_of m' i)) =
      (if get_field g (view (map_of s i)) \<noteq> JUndef then get_field g (view (map_of s i))
       else if get_field g (view q) \<noteq> JUndef then get_field g (view (map_of live i)) else JUndef)"
    and "\<not> session_id i \<Longrightarrow> ignored_of (map_of m' i) = ignored_of (map_of live i) \<inter> ignored_of q
      \<union> (if allowsReportIgnores (map_of s i) then ignored_of (map_of s i) else {})"
proof -
  let ?e = "Some (snapshot_json s)" and ?p = "map_option snapshot_json ps"
  define m1 where "m1 = fold (clear_fields ?e ?p) (map_keys live) live"
  define m2 where "m2 = fold (clear_reports ?e ?p) (map_keys m1) m1"
  have m': "m' = fold apply_stored (snapshot_json s) m2"
    by (simp add: m'_def applyTriageEntries_def Let_def m1_def m2_def)
  have ok1: "tmap_ok m1" using clear_walk.walk_inv [OF live] by (simp add: m1_def)
  have ok2: "tmap_ok m2" using drop_walk.walk_inv [OF ok1] by (simp add: m2_def)
  have cq: "cur_ok q" using cur_ok_lookup ps by (cases ps) (simp_all add: q_def cur_ok_def [of None])
  have lq: "lookup_entry ?p i = q" "has_key ?p i = (q \<noteq> None)" "lookup_entry ?e i = map_of s i"
    "has_key ?e i = (map_of s i \<noteq> None)"
    by (cases ps; simp add: q_def map_has_def del: map_has_iff)+
  have dk: "distinct (map (\<lambda>i. i) (map_keys live))" "distinct (map (\<lambda>i. i) (map_keys m1))"
    using tmap_ok_map_ok [OF live] tmap_ok_map_ok [OF ok1] by (simp_all add: map_ok_def)
  have r1: "cleared ?e ?p i (map_of live i) (map_of m1 i)"
  proof (cases "i \<in> set (map_keys live)")
    case True
    then show ?thesis unfolding m1_def by (rule clear_walk.walk_rel [OF live dk(1)])
  next
    case False
    then have "map_of m1 i = map_of live i" unfolding m1_def using clear_walk.walk_other [OF live, of i] by simp
    with False show ?thesis by (simp add: cleared_def same_reports_def) (simp add: map_of_eq_None_iff [symmetric])
  qed
  have r2: "dropped ?e ?p i (map_of m1 i) (map_of m2 i)"
  proof (cases "i \<in> set (map_keys m1)")
    case True
    then show ?thesis unfolding m2_def by (rule drop_walk.walk_rel [OF ok1 dk(2)])
  next
    case False
    then have "map_of m2 i = map_of m1 i" unfolding m2_def using drop_walk.walk_other [OF ok1, of i] by simp
    moreover from False have "map_of m1 i = None" by (simp add: map_of_eq_None_iff)
    ultimately show ?thesis by (simp add: dropped_def same_main_def)
  qed
  note la = load_all [OF ok2 s, of i, folded m']
  show "tmap_ok m'" using la by simp
  show "session_id i \<Longrightarrow> map_of s i = None \<Longrightarrow> map_of m' i = map_of live i"
    using la r1 r2 by (simp add: cleared_def dropped_def)
  show "get_field g (view (map_of m' i)) =
      (if get_field g (view (map_of s i)) \<noteq> JUndef then get_field g (view (map_of s i))
       else if get_field g (view q) \<noteq> JUndef then get_field g (view (map_of live i)) else JUndef)"
    if "\<not> session_id i" "g \<in> set main_fields"
    using la r1 r2 that clears_iff [OF cur_ok_lookup [OF s] cq lq(3,1,4,2) that(2)]
    by (simp add: cleared_def dropped_def same_main_def)
  show "ignored_of (map_of m' i) = ignored_of (map_of live i) \<inter> ignored_of q
      \<union> (if allowsReportIgnores (map_of s i) then ignored_of (map_of s i) else {})" if "\<not> session_id i"
  proof -
    have dr: "drops ?e ?p i r = (r \<notin> ignored_of q \<and> (\<not> allowsReportIgnores (map_of s i) \<or> r \<notin> ignored_of (map_of s i)))" for r
      using reports_of_ok [OF cq, of r] reports_of_ok [OF cur_ok_lookup [OF s], of i r]
      by (cases q) (simp_all add: drops_def Let_def lq)
    have "ignored_of (map_of m2 i) = {r \<in> ignored_of (map_of live i). \<not> drops ?e ?p i r}"
      using r1 r2 that by (simp add: cleared_def dropped_def same_reports_def)
    with la show ?thesis by (auto simp: dr)
  qed
qed

section \<open>The save protocol\<close>

text \<open>\<open>x\<close> survives a crash: it is what the pending key holds, or, with no pending
  key, what the main key holds.\<close>

definition durable :: "snapshot \<Rightarrow> tab \<Rightarrow> bool" where
  "durable x t = (pend (t_keys t) = Some (Parsed x)
     \<or> pend (t_keys t) = None \<and> (\<exists>k. main (t_keys t) = Some (seal_blob k x)))"

definition gone :: "tab \<Rightarrow> bool" where
  "gone t = (t_keys t = \<lparr>main = None, pend = None\<rparr>)"

text \<open>Saves are numbered: no job is ahead of the counter.\<close>

definition numbered :: "tab \<Rightarrow> bool" where
  "numbered t = (\<forall>j \<in> set (t_jobs t). j_gen j \<le> t_gen t)"

lemma saveTriage_gen: "\<not> t_managed t \<Longrightarrow> t_gen (saveTriage app q t) = t_gen t + 1"
  by (simp add: saveTriage_def Let_def split: prod.splits)

lemma saveTriage_managed [simp]: "t_managed (saveTriage app q t) = t_managed t"
  by (simp add: saveTriage_def Let_def split: prod.splits)

lemma saveTriage_numbered: "numbered t \<Longrightarrow> numbered (saveTriage app q t)"
  by (auto simp: saveTriage_def numbered_def Let_def split: prod.splits)

lemma saveTriage_mono: "t_gen t \<le> t_gen (saveTriage app q t)"
  by (simp add: saveTriage_def Let_def split: prod.splits)

text \<open>The invariant of one generation \<open>g\<close>: what its save recorded, and that its
  jobs carry that snapshot.\<close>

definition holds_gen :: "nat \<Rightarrow> snapshot option \<Rightarrow> tab \<Rightarrow> bool" where
  "holds_gen g x t = (g \<le> t_gen t \<and> numbered t \<and> \<not> t_managed t \<and> (t_gen t = g \<longrightarrow>
     (\<forall>j \<in> set (t_jobs t). j_gen j = g \<longrightarrow> j_json j = x)
     \<and> (case x of Some s \<Rightarrow> durable s t | None \<Rightarrow> gone t \<or> (\<exists>j \<in> set (t_jobs t). j_gen j = g))))"

lemma holds_gen_later: "g < t_gen t \<Longrightarrow> numbered t \<Longrightarrow> \<not> t_managed t \<Longrightarrow> holds_gen g x t"
  by (simp add: holds_gen_def)

lemma holds_gen_save:
  assumes "holds_gen g x t"
  shows "holds_gen g x (saveTriage app q t)"
  using assms by (intro holds_gen_later) (simp_all add: holds_gen_def saveTriage_numbered saveTriage_gen)

lemma durable_jobs [simp]: "durable x (t\<lparr>t_jobs := js, t_notified := n\<rparr>) = durable x t"
  "durable x (t\<lparr>t_jobs := js\<rparr>) = durable x t" "durable x (t\<lparr>t_live := l\<rparr>) = durable x t"
  "durable x (t\<lparr>t_key := k\<rparr>) = durable x t"
  by (simp_all add: durable_def)

lemma gone_jobs [simp]: "gone (t\<lparr>t_jobs := js, t_notified := n\<rparr>) = gone t"
  "gone (t\<lparr>t_jobs := js\<rparr>) = gone t" "gone (t\<lparr>t_live := l\<rparr>) = gone t" "gone (t\<lparr>t_key := k\<rparr>) = gone t"
  by (simp_all add: gone_def)

lemma holds_gen_commit:
  assumes h: "holds_gen g x t" and j: "j \<in> set (t_jobs t)"
  shows "holds_gen g x (commit app q j t)"
proof -
  let ?t = "t\<lparr>t_jobs := removeAll j (t_jobs t), t_notified := t_notified t + 1\<rparr>"
  have n: "numbered ?t" "\<not> t_managed ?t" "g \<le> t_gen ?t" using h by (auto simp: holds_gen_def numbered_def)
  show ?thesis
  proof (cases "j_gen j = t_gen t")
    case False
    then have "commit app q j t = ?t" by (simp add: commit_def)
    moreover have "holds_gen g x ?t"
      unfolding holds_gen_def using n h False
      by (auto simp: holds_gen_def split: option.splits)
    ultimately show ?thesis by simp
  next
    case cur: True
    show ?thesis
    proof (cases "t_gen t = g")
      case False
      with n have "g < t_gen ?t" by simp
      with n show ?thesis
        by (cases "j_json j") (auto simp: commit_def Let_def cur numbered_def
            intro!: holds_gen_later saveTriage_numbered order.strict_trans2 [OF _ saveTriage_mono])
    next
      case True
      with h cur j have json: "j_json j = x" by (simp add: holds_gen_def)
      show ?thesis
      proof (cases x)
        case None
        have "\<forall>y \<in> set (t_jobs t). j_gen y = g \<longrightarrow> j_json y = None" using h True None by (simp add: holds_gen_def)
        with json cur n True None show ?thesis
          by (auto simp: commit_def Let_def holds_gen_def gone_def numbered_def)
      next
        case (Some s)
        have ok: "holds_gen g x ?t" using n h Some True by (auto simp: holds_gen_def)
        have "holds_gen g x (?t\<lparr>t_keys := \<lparr>main = Some (seal_blob (j_sealed j) s), pend = None\<rparr>\<rparr>)"
          using ok Some by (auto simp: holds_gen_def durable_def numbered_def)
        with ok holds_gen_save [OF ok] json cur Some show ?thesis
          by (simp add: commit_def Let_def)
      qed
    qed
  qed
qed

lemma holds_gen_step:
  assumes "save_step app t t'" and "holds_gen g x t"
  shows "holds_gen g x t'"
  using assms(1)
proof cases
  case (edit m)
  with assms(2) show ?thesis by (auto simp: holds_gen_def numbered_def split: option.splits)
next
  case (save q)
  with assms(2) show ?thesis by (simp add: holds_gen_save)
next
  case (ready j)
  define f where "f = (\<lambda>y. if y = j then j\<lparr>j_ready := True, j_sealed := (if j_json j = None then None else t_key t)\<rparr> else y)"
  have f: "j_gen (f y) = j_gen y" "j_json (f y) = j_json y" for y by (simp_all add: f_def)
  have t': "t' = t\<lparr>t_jobs := map f (t_jobs t)\<rparr>" using ready by (simp add: compress_def f_def)
  show ?thesis unfolding t' using assms(2) by (auto simp: holds_gen_def numbered_def f split: option.splits)
next
  case (failed j)
  then have t': "t' = t\<lparr>t_jobs := removeAll j (t_jobs t), t_notified := t_notified t + 1\<rparr>"
    by (simp add: compress_fails_def)
  show ?thesis unfolding t' using assms(2) failed(4)
    by (auto simp: holds_gen_def numbered_def split: option.splits)
next
  case (committed j q)
  with assms(2) show ?thesis by (simp add: holds_gen_commit)
next
  case (rekey k)
  with assms(2) show ?thesis by (auto simp: holds_gen_def numbered_def split: option.splits)
qed

lemma holds_gen_run:
  assumes "(save_step app)\<^sup>*\<^sup>* t t'" and "holds_gen g x t"
  shows "holds_gen g x t'"
  using assms by (induction rule: rtranclp_induct) (auto intro: holds_gen_step)

text \<open>The snapshot a save records: what it serializes, \<open>None\<close> where nothing is left.\<close>

definition saved_snapshot :: "(finding \<Rightarrow> string option \<Rightarrow> bool) \<Rightarrow> tab \<Rightarrow> snapshot option" where
  "saved_snapshot app t = (let x = snd (buildPersistedTriageEntries (t_managed t) app (t_reports t) (t_live t))
     in if x = [] then None else Some x)"

lemma holds_gen_start:
  assumes "numbered t" and "\<not> t_managed t"
  shows "holds_gen (t_gen t + 1) (saved_snapshot app t) (saveTriage app False t)"
proof -
  obtain m x where b: "buildPersistedTriageEntries (t_managed t) app (t_reports t) (t_live t) = (m, x)"
    by (cases "buildPersistedTriageEntries (t_managed t) app (t_reports t) (t_live t)")
  show ?thesis
    using assms saveTriage_numbered [OF assms(1)] b
    by (auto simp: holds_gen_def saveTriage_def saved_snapshot_def Let_def durable_def numbered_def)
qed

section \<open>Properties\<close>

text \<open>C35: what a save stores of a well-formed map is read back by the next load into an
  empty map: every main field of every persisted finding, and its report ignores with
  their scope markers wherever the shared status leaves room for them; a session-only id
  is not stored and not restored.\<close>

theorem persist_load_roundtrip:
  assumes "tmap_ok (fst (buildPersistedTriageEntries managed app reports live))"
    and "buildPersistedTriageEntries managed app reports live = (m, stored)"
  shows "let m' = applyTriageEntries (Some (snapshot_json stored)) False pending [] in
    if session_id i then map_of m' i = None
    else (\<forall>g \<in> set main_fields. get_field g (view (map_of m' i)) = get_field g (view (map_of m i)))
      \<and> (allowsReportIgnores (map_of m i) \<longrightarrow>
          ignored_of (map_of m' i) = ignored_of (map_of m i) \<and> scoped_of (map_of m' i) = scoped_of (map_of m i))"
proof -
  have m: "tmap_ok m" and st: "stored = stored_of m" using assms build_stored [OF assms(1)] by simp_all
  have s: "tmap_ok stored" "map_of stored i = (if session_id i then None else map_of m i)"
    by (simp_all add: st stored_ok [OF m] stored_lookup)
  have e: "applyTriageEntries (Some (snapshot_json stored)) False pending [] = fold apply_stored (snapshot_json stored) []"
    by (simp add: applyTriageEntries_def)
  have "tmap_ok []" by (simp add: tmap_ok_def)
  from load_all [OF this s(1), of i] s(2) show ?thesis
    unfolding e Let_def by auto
qed

definition stored_sample :: tmap where
  "stored_sample = [(''12'', no_fields\<lparr>e_color := JStr ''red''\<rparr>),
     (''f1'', no_fields\<lparr>e_triage := JStr ''fixed'', e_flagged := JBool False\<rparr>)]"

theorem persist_load_roundtrip_witness:
  "map_of (applyTriageEntries (Some (snapshot_json
      (snd (buildPersistedTriageEntries False (\<lambda>_ _. True) [] stored_sample)))) False None []) ''12'' = None"
proof -
  have ok: "tmap_ok (fst (buildPersistedTriageEntries False (\<lambda>_ _. True) [] stored_sample))" by code_simp
  have "session_id ''12''" by code_simp
  then show ?thesis
    using persist_load_roundtrip [OF ok, where pending = None and i = "''12''"]
    by (cases "buildPersistedTriageEntries False (\<lambda>_ _. True) [] stored_sample") (simp add: Let_def)
qed

text \<open>A reload after another tab's save mirrors the stored blob without losing an
  edit this tab has not committed: for every persisted finding each main field becomes the
  blob's where the blob has one, stays as it is where only this tab's pending snapshot has
  one, and is cleared otherwise; report ignores become the blob's (where its status leaves
  room for them) together with the live ones the pending snapshot holds; session-only
  findings are untouched and the map stays well formed.\<close>

theorem reload_mirrors_blob:
  assumes "tmap_ok live" and "tmap_ok stored" and "tmap_ok pending"
  shows "let m' = applyTriageEntries (Some (snapshot_json stored)) True (Some (snapshot_json pending)) live in
    tmap_ok m'
    \<and> (session_id i \<longrightarrow> map_of stored i = None \<longrightarrow> map_of m' i = map_of live i)
    \<and> (\<not> session_id i \<longrightarrow>
        (\<forall>g \<in> set main_fields. get_field g (view (map_of m' i)) =
          (if get_field g (view (map_of stored i)) \<noteq> JUndef then get_field g (view (map_of stored i))
           else if get_field g (view (map_of pending i)) \<noteq> JUndef then get_field g (view (map_of live i)) else JUndef))
        \<and> ignored_of (map_of m' i) = ignored_of (map_of live i) \<inter> ignored_of (map_of pending i)
          \<union> (if allowsReportIgnores (map_of stored i) then ignored_of (map_of stored i) else {}))"
proof -
  have p: "tmap_ok q" if "Some pending = Some q" for q using that assms(3) by simp
  show ?thesis
    using replace_closed(1) [OF assms(1,2), of "Some pending"] replace_closed(2-4) [OF assms(1,2), of "Some pending" i] p
    by (simp add: Let_def)
qed

theorem reload_mirrors_blob_witness:
  "get_field Color (view (map_of (applyTriageEntries (Some (snapshot_json [])) True (Some (snapshot_json []))
      [(''f1'', no_fields\<lparr>e_color := JStr ''red''\<rparr>)]) ''f1'')) = JUndef"
proof -
  have ok: "tmap_ok [(''f1'', no_fields\<lparr>e_color := JStr ''red''\<rparr>)]" "tmap_ok []" by code_simp+
  have "\<not> session_id ''f1''" by code_simp
  with reload_mirrors_blob [OF ok(1,2,2), of "''f1''"] show ?thesis by (simp add: Let_def del: get_field.simps)
qed


definition sample_tab :: tab where
  "sample_tab = \<lparr>t_live = stored_sample, t_reports = [], t_gen = 0, t_key = None, t_jobs = [],
     t_keys = \<lparr>main = None, pend = None\<rparr>, t_notified = 0, t_managed = False\<rparr>"

definition sample_stored :: snapshot where
  "sample_stored = [(''f1'', no_fields\<lparr>e_triage := JStr ''fixed'', e_flagged := JBool False\<rparr>)]"


text \<open>Once a save that found nothing to store has run, and no newer one has started,
  nothing is left in storage, whatever older saves were still in flight.\<close>

theorem empty_save_clears:
  assumes "numbered t" and "\<not> t_managed t" and "saved_snapshot app t = None"
    and "(save_step app)\<^sup>*\<^sup>* (saveTriage app False t) t'" and "t_gen t' = t_gen t + 1"
    and "\<forall>j \<in> set (t_jobs t'). j_gen j \<noteq> t_gen t'"
  shows "t_keys t' = \<lparr>main = None, pend = None\<rparr>"
  using holds_gen_run [OF assms(4) holds_gen_start [OF assms(1,2)]] assms(3,5,6)
  by (auto simp: holds_gen_def gone_def)

definition empty_tab :: tab where
  "empty_tab = sample_tab\<lparr>t_live := [], t_keys := \<lparr>main = Some (Plain sample_stored), pend = Some (Parsed sample_stored)\<rparr>\<rparr>"

definition empty_job :: job where
  "empty_job = \<lparr>j_gen = 1, j_json = None, j_ready = False, j_sealed = None\<rparr>"

theorem empty_save_clears_witness:
  "let t = saveTriage (\<lambda>_ _. True) False empty_tab;
       t' = commit (\<lambda>_ _. True) False (empty_job\<lparr>j_ready := True\<rparr>) (compress empty_job t)
   in t_keys t \<noteq> \<lparr>main = None, pend = None\<rparr> \<and> t_keys t' = \<lparr>main = None, pend = None\<rparr>"
proof -
  define t where "t = saveTriage (\<lambda>_ _. True) False empty_tab"
  define t1 where "t1 = compress empty_job t"
  define t2 where "t2 = commit (\<lambda>_ _. True) False (empty_job\<lparr>j_ready := True\<rparr>) t1"
  have n: "numbered empty_tab" "\<not> t_managed empty_tab" "saved_snapshot (\<lambda>_ _. True) empty_tab = None" by code_simp+
  have "empty_job \<in> set (t_jobs t)" "\<not> j_ready empty_job" unfolding t_def by code_simp+
  then have s1: "save_step (\<lambda>_ _. True) t t1" unfolding t1_def by (rule save_step.ready)
  have "empty_job\<lparr>j_ready := True\<rparr> \<in> set (t_jobs t1)" "j_ready (empty_job\<lparr>j_ready := True\<rparr>)"
    unfolding t1_def t_def by code_simp+
  then have s2: "save_step (\<lambda>_ _. True) t1 t2" unfolding t2_def by (rule save_step.committed)
  have r: "(save_step (\<lambda>_ _. True))\<^sup>*\<^sup>* (saveTriage (\<lambda>_ _. True) False empty_tab) t2"
    using s1 s2 unfolding t_def by (meson rtranclp.rtrancl_into_rtrancl rtranclp.rtrancl_refl)
  have g: "t_gen t2 = t_gen empty_tab + 1" "\<forall>j \<in> set (t_jobs t2). j_gen j \<noteq> t_gen t2"
    unfolding t2_def t1_def t_def by code_simp+
  have "t_keys t \<noteq> \<lparr>main = None, pend = None\<rparr>" unfolding t_def by code_simp
  with empty_save_clears [OF n r g] show ?thesis by (simp add: t2_def t1_def t_def)
qed

text \<open>The latest save, let to finish, ends with its snapshot in the main key under
  the session key of the moment and no pending text, and reading the keys gives it back.\<close>

theorem save_completes:
  assumes "j \<in> set (t_jobs t)" and "j_gen j = t_gen t" and "j_json j = Some x"
  shows "let j' = j\<lparr>j_ready := True, j_sealed := t_key t\<rparr>; t' = commit app False j' (compress j t)
    in j' \<in> set (t_jobs (compress j t)) \<and> j' \<notin> set (t_jobs t')
     \<and> t_keys t' = \<lparr>main = Some (seal_blob (t_key t) x), pend = None\<rparr>
     \<and> readTriageBlob (t_keys t') (t_key t') = Inr (Some x)
     \<and> t_notified t' = t_notified t + 1"
proof -
  define j' where "j' = j\<lparr>j_ready := True, j_sealed := t_key t\<rparr>"
  have "j' \<in> set (t_jobs (compress j t))" using assms(1,3) by (force simp: compress_def j'_def)
  moreover have "t_key (compress j t) = t_key t" "t_gen (compress j t) = t_gen t"
    "t_notified (compress j t) = t_notified t" by (simp_all add: compress_def)
  moreover have "j_gen j' = t_gen t" "j_json j' = Some x" "j_sealed j' = t_key t" using assms by (simp_all add: j'_def)
  ultimately show ?thesis
    unfolding Let_def j'_def [symmetric]
    by (auto simp: commit_def Let_def readTriageBlob_def seal_blob_def split: option.splits)
qed

theorem save_completes_witness:
  "let t = saveTriage (\<lambda>_ _. True) False sample_tab;
       t' = commit (\<lambda>_ _. True) False ((hd (t_jobs t))\<lparr>j_ready := True, j_sealed := t_key t\<rparr>) (compress (hd (t_jobs t)) t)
   in readTriageBlob (t_keys t') (t_key t') = Inr (Some sample_stored)"
proof -
  define t where "t = saveTriage (\<lambda>_ _. True) False sample_tab"
  have "hd (t_jobs t) \<in> set (t_jobs t)" "j_gen (hd (t_jobs t)) = t_gen t" "j_json (hd (t_jobs t)) = Some sample_stored"
    unfolding t_def by code_simp+
  from save_completes [OF this, of "\<lambda>_ _. True"] show ?thesis unfolding Let_def t_def by blast
qed

text \<open>Enabling encryption seals what the main key held and disabling it brings it
  back: under the right key a read before and after gives the same, no plaintext is left
  while enabled, and decrypting undoes encrypting.\<close>

theorem vault_migration_roundtrip:
  "let enc = migrateTriageToEncrypted k st; dec = migrateTriageToPlaintext k (fst enc) in
    (snd enc = None \<longrightarrow> (\<forall>x. main (fst enc) \<noteq> Some (Plain x)) \<and> pend (fst enc) = None)
    \<and> (main st = None \<or> (\<exists>x. main st = Some (Plain x)) \<longrightarrow>
        snd enc = None \<and> dec = (st\<lparr>pend := None\<rparr>, None)
        \<and> readTriageBlob (fst enc) (Some k) = readTriageBlob (st\<lparr>pend := None\<rparr>) None)"
  by (auto simp: migrateTriageToEncrypted_def migrateTriageToPlaintext_def readTriageBlob_def Let_def
      split: option.splits blob.splits)

theorem vault_migration_roundtrip_witness:
  "snd (migrateTriageToEncrypted 7 \<lparr>main = Some (Plain sample_stored), pend = None\<rparr>) = None
   \<and> readTriageBlob (fst (migrateTriageToEncrypted 7 \<lparr>main = Some (Plain sample_stored), pend = None\<rparr>)) (Some 7)
     = Inr (Some sample_stored)"
proof -
  have "readTriageBlob (\<lparr>main = Some (Plain sample_stored), pend = None\<rparr>\<lparr>pend := None\<rparr>) None = Inr (Some sample_stored)"
    by code_simp
  with vault_migration_roundtrip [of 7 "\<lparr>main = Some (Plain sample_stored), pend = None\<rparr>"]
  show ?thesis by (simp add: Let_def)
qed

text \<open>A save that finds nothing to store writes no pending text and leaves the one of
  an uncommitted earlier save in place: a crash before it commits brings the cleared
  entries back.\<close>

theorem clearing_save_not_durable:
  "let t = saveTriage (\<lambda>_ _. True) False ((saveTriage (\<lambda>_ _. True) False sample_tab)\<lparr>t_live := []\<rparr>)
   in saved_snapshot (\<lambda>_ _. True) (sample_tab\<lparr>t_live := []\<rparr>) = None
    \<and> readTriageBlob (t_keys t) None = Inr (Some sample_stored)"
  by code_simp

end
