(* ===== verification/TriageGc.thy ===== *)
theory TriageGc
  imports TriageStore
begin

text \<open>
  Garbage collection of triage entries and the question asked before reports
  are deleted (\<^verbatim>\<open>src/client/triage-gc.js\<close>). Reading a stored file and
  parsing a report are parameters: \<open>readFile\<close> answers with content, nothing,
  or an error; \<open>loadFindings\<close> gives the ids of a report's findings, or nothing
  for a text that is no report.
\<close>

section \<open>Reachable findings\<close>

record read_failure =
  err_name :: jsval
  err_message :: jsval

datatype read_result = Content "string option" | Failed read_failure

definition isReadFileNotFound :: "read_failure \<Rightarrow> bool" where
  "isReadFileNotFound err = (err_name err = JStr ''NotFoundError''
     \<or> (case err_message err of JStr m \<Rightarrow> starts_with ''File not found:'' m | _ \<Rightarrow> False))"

definition message_of :: "read_failure \<Rightarrow> string" where
  "message_of err = (case err_message err of JStr m \<Rightarrow> m | _ \<Rightarrow> ''undefined'')"

text \<open>A finding's id counts where it is truthy.\<close>

definition finding_ids :: "string option list \<Rightarrow> string list" where
  "finding_ids fs = filter (\<lambda>i. i \<noteq> []) (map the (filter (\<lambda>i. i \<noteq> None) fs))"

fun collect_ids ::
    "(string \<Rightarrow> read_result) \<Rightarrow> (string \<Rightarrow> string option list option) \<Rightarrow> string list \<Rightarrow> string list \<Rightarrow>
     string + string list" where
  "collect_ids readFile loadFindings [] ids = Inr ids"
| "collect_ids readFile loadFindings (name # names) ids = (case readFile name of
     Failed err \<Rightarrow> if isReadFileNotFound err then collect_ids readFile loadFindings names ids
       else Inl (''Failed to read '' @ name @ '': '' @ message_of err)
   | Content None \<Rightarrow> collect_ids readFile loadFindings names ids
   | Content (Some content) \<Rightarrow> (case loadFindings content of
         None \<Rightarrow> collect_ids readFile loadFindings names ids
       | Some fs \<Rightarrow> collect_ids readFile loadFindings names (foldl set_add ids (finding_ids fs))))"

definition collectReachableIds ::
    "(string \<Rightarrow> read_result) \<Rightarrow> (string \<Rightarrow> string option list option) \<Rightarrow> string list \<Rightarrow> string + string list" where
  "collectReachableIds readFile loadFindings names = collect_ids readFile loadFindings names []"

definition collectPersistedTriageIds :: "tmap \<Rightarrow> string list" where
  "collectPersistedTriageIds m = filter (\<lambda>i. \<not> session_id i) (map_keys m)"

section \<open>The impact of a deletion\<close>

text \<open>\<open>listFiles\<close> gives the stored names or throws. The answer pairs the
  orphaned with the shared count.\<close>

definition analyzeTriageImpact ::
    "(string \<Rightarrow> read_result) \<Rightarrow> (string \<Rightarrow> string option list option) \<Rightarrow> (string + string list) \<Rightarrow>
     tmap \<Rightarrow> string list \<Rightarrow> string + (nat \<times> nat)" where
  "analyzeTriageImpact readFile loadFindings listFiles m deleted =
     (let persisted = collectPersistedTriageIds m in
      if persisted = [] then Inr (0, 0)
      else case collectReachableIds readFile loadFindings deleted of
        Inl e \<Rightarrow> Inl e
      | Inr deletedIds \<Rightarrow>
          let inDeleted = filter (\<lambda>i. i \<in> set deletedIds) persisted in
          if inDeleted = [] then Inr (0, 0)
          else case listFiles of
            Inl e \<Rightarrow> Inl e
          | Inr allFiles \<Rightarrow>
              (case collectReachableIds readFile loadFindings (filter (\<lambda>n. n \<notin> set deleted) allFiles) of
                 Inl e \<Rightarrow> Inl e
               | Inr keptIds \<Rightarrow> Inr (length (filter (\<lambda>i. i \<notin> set keptIds) inDeleted),
                   length (filter (\<lambda>i. i \<in> set keptIds) inDeleted))))"

section \<open>Pruning\<close>

type_synonym pruned = "tmap \<times> bool"

definition or_prune :: "tmap \<times> bool \<Rightarrow> bool \<Rightarrow> pruned" where
  "or_prune w changed = (fst w, changed \<or> snd w)"

definition prune_patch :: patch where
  "prune_patch = [(Color, JUndef), (Triage, JUndef), (Comment, JUndef), (Fix, JUndef), (Flagged, JUndef),
     (Deleted, JUndef)]"

definition has_main :: "entry \<Rightarrow> bool" where
  "has_main e = (truthy (e_color e) \<or> truthy (bucketOf (Some e)) \<or> truthy (e_comment e) \<or> truthy (e_fix e)
     \<or> e_flagged e \<noteq> JUndef)"

definition prune_id :: "string list \<Rightarrow> string \<Rightarrow> pruned \<Rightarrow> pruned" where
  "prune_id reachable i s =
     (if session_id i then s
      else if i \<in> set reachable then s
      else case map_of (fst s) i of
        None \<Rightarrow> s
      | Some cur \<Rightarrow> if \<not> has_main cur then s else or_prune (patchEntry (fst s) i prune_patch) (snd s))"

definition snap_ignored :: "tmap \<Rightarrow> (string \<times> jsval) list" where
  "snap_ignored m = concat (map (\<lambda>(i, e). map (\<lambda>r. (i, r)) (elems (e_ignored e))) m)"

fun prune_ignore :: "string list \<Rightarrow> string list \<Rightarrow> string \<times> jsval \<Rightarrow> pruned \<Rightarrow> pruned" where
  "prune_ignore reachable names (i, JStr r) s =
     (if session_id i then s
      else if i \<in> set reachable \<and> r \<in> set names then s
      else if \<not> isReportIgnored (fst s) i r then s
      else or_prune (setReportIgnored (fst s) i r False False) (snd s))"
| "prune_ignore reachable names (i, _) s = s"

text \<open>
  \<open>snap\<close> is the live map when the prune starts, \<open>m\<close> the live map once the
  files have been read: other tabs and the user may have edited it meanwhile.
\<close>

definition pruneOrphanTriage ::
    "(string \<Rightarrow> read_result) \<Rightarrow> (string \<Rightarrow> string option list option) \<Rightarrow> (string + string list) \<Rightarrow>
     tmap \<Rightarrow> tmap \<Rightarrow> string + pruned" where
  "pruneOrphanTriage readFile loadFindings listFiles snap m = (case listFiles of
     Inl e \<Rightarrow> Inl e
   | Inr names \<Rightarrow> (case collectReachableIds readFile loadFindings names of
       Inl e \<Rightarrow> Inl e
     | Inr reachable \<Rightarrow>
         Inr (fold (prune_ignore reachable names) (snap_ignored snap)
           (fold (prune_id reachable) (map_keys snap) (m, False)))))"

section \<open>Lemmas\<close>

text \<open>The ids a set of stored files reaches.\<close>

definition reaches :: "(string \<Rightarrow> read_result) \<Rightarrow> (string \<Rightarrow> string option list option) \<Rightarrow> string \<Rightarrow> string \<Rightarrow> bool" where
  "reaches readFile loadFindings name i = (case readFile name of
     Content (Some c) \<Rightarrow> (case loadFindings c of Some fs \<Rightarrow> Some i \<in> set fs \<and> i \<noteq> [] | None \<Rightarrow> False)
   | _ \<Rightarrow> False)"

lemma set_finding_ids: "set (finding_ids fs) = {i. Some i \<in> set fs \<and> i \<noteq> []}"
  by (force simp: finding_ids_def)

lemma collect_ids_sound:
  "collect_ids rd ld names ids = Inr out \<Longrightarrow>
    set out = set ids \<union> {i. \<exists>n \<in> set names. reaches rd ld n i}"
proof (induction names arbitrary: ids)
  case (Cons n ns)
  have r: "reaches rd ld n i = (case rd n of
     Content (Some c) \<Rightarrow> (case ld c of Some fs \<Rightarrow> Some i \<in> set fs \<and> i \<noteq> [] | None \<Rightarrow> False)
   | _ \<Rightarrow> False)" for i by (simp add: reaches_def)
  from Cons.prems obtain ids' where c: "collect_ids rd ld ns ids' = Inr out"
    and ids': "set ids' = set ids \<union> {i. reaches rd ld n i}"
    by (auto simp: r foldl_set_add_set set_finding_ids split: read_result.splits option.splits if_splits)
  show ?case using Cons.IH [OF c] ids' by auto
qed simp

text \<open>A file that fails to read, other than by being gone, stops the walk.\<close>

definition unreadable :: "(string \<Rightarrow> read_result) \<Rightarrow> string \<Rightarrow> bool" where
  "unreadable readFile name = (case readFile name of Failed err \<Rightarrow> \<not> isReadFileNotFound err | _ \<Rightarrow> False)"

lemma collect_ids_error:
  "(\<exists>e. collect_ids rd ld names ids = Inl e) \<longleftrightarrow> (\<exists>n \<in> set names. unreadable rd n)"
proof (induction names arbitrary: ids)
  case (Cons n ns)
  have u: "unreadable rd n = (case rd n of Failed err \<Rightarrow> \<not> isReadFileNotFound err | _ \<Rightarrow> False)"
    by (simp add: unreadable_def)
  with Cons show ?case by (cases "rd n") (simp_all add: u split: option.splits)
qed simp

lemma set_reachable:
  "collectReachableIds rd ld names = Inr ids \<Longrightarrow> set ids = {i. \<exists>n \<in> set names. reaches rd ld n i}"
  using collect_ids_sound [of rd ld names "[]" ids] by (simp add: collectReachableIds_def)

lemma or_prune_fst [simp]: "fst (or_prune w b) = fst w"
  by (simp add: or_prune_def)

lemma prune_patch_main:
  assumes "tmap_ok m"
  shows "patchEntry m i prune_patch =
    patchEntry m i [(Color, JUndef), (Triage, JUndef), (Comment, JUndef), (Fix, JUndef), (Flagged, JUndef)]"
proof -
  have "e_deleted (or_no_fields (map_of m i)) = JUndef"
    using cur_ok_view [OF cur_ok_lookup [OF assms], of i] by (cases "map_of m i") simp_all
  moreover have "fold (\<lambda>(f, v). put_field f v) prune_patch e = fold (\<lambda>(f, v). put_field f v)
      [(Color, JUndef), (Triage, JUndef), (Comment, JUndef), (Fix, JUndef), (Flagged, JUndef)] e"
    if "e_deleted e = JUndef" for e
    using that by (cases e) (simp add: prune_patch_def)
  ultimately show ?thesis
    unfolding patchEntry_def spread_def or_no_fields_def by presburger
qed

lemma prune_patch_effect:
  assumes "tmap_ok m"
  shows "\<forall>g \<in> set main_fields. get_field g (view (map_of (fst (patchEntry m i prune_patch)) i)) = JUndef"
    and "same_reports (map_of m i) (map_of (fst (patchEntry m i prune_patch)) i)"
proof -
  let ?p = "[(Color, JUndef), (Triage, JUndef), (Comment, JUndef), (Fix, JUndef), (Flagged, JUndef)]"
  have k: "fst ` set ?p \<subseteq> set main_fields" "distinct (map fst ?p)" by (simp_all add: main_fields_def)
  show "\<forall>g \<in> set main_fields. get_field g (view (map_of (fst (patchEntry m i prune_patch)) i)) = JUndef"
    unfolding prune_patch_main [OF assms] using patch_mains [OF assms k] by (auto simp: main_fields_cases keep_str_def)
  show "same_reports (map_of m i) (map_of (fst (patchEntry m i prune_patch)) i)"
    unfolding prune_patch_main [OF assms] using patch_mains_reports [OF assms k(1)] by (simp add: same_reports_def)
qed

lemma no_main_view:
  assumes "entry_ok e" and "\<not> has_main e" and "g \<in> set main_fields"
  shows "get_field g (view (Some e)) = JUndef"
proof -
  have "cur_ok (Some e)" using assms(1) by (simp add: cur_ok_def)
  note t = text_tests [OF this]
  show ?thesis
    using assms(2,3) t(2) [of Color] t(2) [of Comment] t(2) [of Fix] t(3,4)
    unfolding main_fields_cases has_main_def
    by (auto simp: field_of_def)
qed

text \<open>What the first pass does to one entry.\<close>

definition pruned_entry :: "string list \<Rightarrow> string \<Rightarrow> entry option \<Rightarrow> entry option \<Rightarrow> bool" where
  "pruned_entry reachable i cur cur' =
     (if session_id i \<or> i \<in> set reachable then cur' = cur
      else same_reports cur cur' \<and> (\<forall>g \<in> set main_fields. get_field g (view cur') = JUndef))"

lemma prune_id_step:
  assumes "tmap_ok (fst s)"
  shows "tmap_ok (fst (prune_id reachable i s))
    \<and> pruned_entry reachable i (map_of (fst s) i) (map_of (fst (prune_id reachable i s)) i)
    \<and> (\<forall>k. k \<noteq> i \<longrightarrow> map_of (fst (prune_id reachable i s)) k = map_of (fst s) k)"
proof (cases "session_id i \<or> i \<in> set reachable")
  case True
  then show ?thesis using assms by (auto simp: prune_id_def pruned_entry_def)
next
  case False
  show ?thesis
  proof (cases "map_of (fst s) i")
    case None
    with False assms show ?thesis by (simp add: prune_id_def pruned_entry_def same_reports_def)
  next
    case (Some e)
    show ?thesis
    proof (cases "has_main e")
      case True
      then have "prune_id reachable i s = or_prune (patchEntry (fst s) i prune_patch) (snd s)"
        using False Some by (simp add: prune_id_def)
      with False assms prune_patch_effect [OF assms, of i] show ?thesis
        by (simp add: pruned_entry_def patch_frame)
    next
      case no: False
      then have "prune_id reachable i s = s" using False Some by (simp add: prune_id_def)
      with no_main_view [OF tmap_ok_lookup [OF assms Some] no] assms Some False show ?thesis
        by (simp add: pruned_entry_def same_reports_def del: view_Some)
    qed
  qed
qed

lemma prune_ids:
  assumes "tmap_ok (fst s)" and "distinct is"
  shows "tmap_ok (fst (fold (prune_id reachable) is s))
    \<and> (\<forall>i. if i \<in> set is then pruned_entry reachable i (map_of (fst s) i) (map_of (fst (fold (prune_id reachable) is s)) i)
        else map_of (fst (fold (prune_id reachable) is s)) i = map_of (fst s) i)"
  using assms
proof (induction "is" arbitrary: s)
  case (Cons i "is")
  note st = prune_id_step [OF Cons.prems(1), of reachable i]
  let ?s = "prune_id reachable i s"
  have ih: "tmap_ok (fst (fold (prune_id reachable) is ?s))"
    "\<And>j. if j \<in> set is then pruned_entry reachable j (map_of (fst ?s) j) (map_of (fst (fold (prune_id reachable) is ?s)) j)
        else map_of (fst (fold (prune_id reachable) is ?s)) j = map_of (fst ?s) j"
    using Cons.IH [of ?s] st Cons.prems(2) by simp_all
  have "if j \<in> set (i # is) then pruned_entry reachable j (map_of (fst s) j) (map_of (fst (fold (prune_id reachable) is ?s)) j)
        else map_of (fst (fold (prune_id reachable) is ?s)) j = map_of (fst s) j" for j
  proof (cases "j = i")
    case True
    then show ?thesis using ih(2) [of j] st Cons.prems(2) by simp
  next
    case False
    then have "map_of (fst ?s) j = map_of (fst s) j" using st by blast
    with False ih(2) [of j] show ?thesis by (simp only:) auto
  qed
  with ih(1) show ?case by simp
qed simp

lemma prune_ignores:
  assumes "tmap_ok (fst s)"
  shows "tmap_ok (fst (fold (prune_ignore reachable names) ps s))
    \<and> (\<forall>i. same_main (map_of (fst s) i) (map_of (fst (fold (prune_ignore reachable names) ps s)) i)
        \<and> (i \<notin> fst ` set ps \<longrightarrow> map_of (fst (fold (prune_ignore reachable names) ps s)) i = map_of (fst s) i)
        \<and> (session_id i \<longrightarrow> map_of (fst (fold (prune_ignore reachable names) ps s)) i = map_of (fst s) i)
        \<and> (\<forall>r. JStr r \<in> ignored_of (map_of (fst (fold (prune_ignore reachable names) ps s)) i) \<longleftrightarrow>
            JStr r \<in> ignored_of (map_of (fst s) i)
            \<and> ((i, JStr r) \<in> set ps \<and> \<not> session_id i \<longrightarrow> i \<in> set reachable \<and> r \<in> set names)))"
  using assms
proof (induction ps arbitrary: s)
  case Nil
  then show ?case by (simp add: same_main_def)
next
  case (Cons p ps)
  obtain i v where p: "p = (i, v)" by (cases p)
  let ?s = "prune_ignore reachable names p s"
  have st: "tmap_ok (fst ?s)
    \<and> (\<forall>k. same_main (map_of (fst s) k) (map_of (fst ?s) k)
        \<and> (k \<noteq> i \<longrightarrow> map_of (fst ?s) k = map_of (fst s) k)
        \<and> (session_id k \<longrightarrow> map_of (fst ?s) k = map_of (fst s) k)
        \<and> (\<forall>r. JStr r \<in> ignored_of (map_of (fst ?s) k) \<longleftrightarrow> JStr r \<in> ignored_of (map_of (fst s) k)
            \<and> ((k, JStr r) = p \<and> \<not> session_id k \<longrightarrow> k \<in> set reachable \<and> r \<in> set names)))"
  proof (cases "\<exists>r. v = JStr r \<and> \<not> session_id i \<and> \<not> (i \<in> set reachable \<and> r \<in> set names) \<and> isReportIgnored (fst s) i r")
    case False
    then have "?s = s" by (cases v) (auto simp: p)
    with False Cons.prems show ?thesis by (auto simp: p same_main_def isReportIgnored_iff)
  next
    case True
    then obtain r where r: "v = JStr r" "\<not> session_id i" "\<not> (i \<in> set reachable \<and> r \<in> set names)"
      "isReportIgnored (fst s) i r" by blast
    let ?m = "fst (setReportIgnored (fst s) i r False False)"
    have s': "fst ?s = ?m" using r by (auto simp: p)
    have "r \<noteq> []" using r(4) ignored_of_ok [OF Cons.prems] by (auto simp: isReportIgnored_iff)
    note sets = setReportIgnored_sets(1) [OF Cons.prems this, of i False False]
    have mn: "same_main (map_of (fst s) k) (map_of ?m k)" for k
      using setReportIgnored_main [OF Cons.prems] by (cases "k = i") (simp_all add: same_main_def setReportIgnored_frame)
    have ig: "JStr q \<in> ignored_of (map_of ?m k) \<longleftrightarrow> JStr q \<in> ignored_of (map_of (fst s) k)
            \<and> ((k, JStr q) = p \<and> \<not> session_id k \<longrightarrow> k \<in> set reachable \<and> q \<in> set names)" for k q
      using sets r by (cases "k = i") (simp_all add: setReportIgnored_frame p, blast)
    have fr: "k \<noteq> i \<or> session_id k \<Longrightarrow> map_of ?m k = map_of (fst s) k" for k
      using r(2) by (cases "k = i") (simp_all add: setReportIgnored_frame)
    have "tmap_ok ?m" using Cons.prems by simp
    with mn ig fr show ?thesis unfolding s' by blast
  qed
  have "tmap_ok (fst ?s)" using st by blast
  note ih = Cons.IH [OF this]
  show ?case
    unfolding fold_simps(2)
    using st ih by (intro conjI allI) (auto simp: same_main_def p)
qed

lemma set_snap_ignored:
  assumes "map_ok m"
  shows "(i, v) \<in> set (snap_ignored m) \<longleftrightarrow> v \<in> ignored_of (map_of m i)"
proof
  assume "(i, v) \<in> set (snap_ignored m)"
  then obtain e where "(i, e) \<in> set m" "v \<in> set (elems (e_ignored e))" by (auto simp: snap_ignored_def)
  with assms show "v \<in> ignored_of (map_of m i)" by (simp add: in_map_of_iff)
next
  assume v: "v \<in> ignored_of (map_of m i)"
  then obtain e where "map_of m i = Some e" by (cases "map_of m i") auto
  with v map_of_SomeD [OF this] show "(i, v) \<in> set (snap_ignored m)" by (force simp: snap_ignored_def)
qed

section \<open>Properties\<close>

text \<open>A deletion's impact is exact: the first number counts the persisted findings
  with triage that some deleted report reaches and no kept report does, the second those
  that a kept report reaches as well.\<close>

theorem analyzeTriageImpact_counts:
  assumes "map_ok m" and "analyzeTriageImpact readFile loadFindings (Inr files) m deleted = Inr (orphaned, shared)"
  shows "orphaned = card {i \<in> set (map_keys m). \<not> session_id i
        \<and> (\<exists>n \<in> set deleted. reaches readFile loadFindings n i)
        \<and> \<not> (\<exists>n \<in> set files - set deleted. reaches readFile loadFindings n i)}
    \<and> shared = card {i \<in> set (map_keys m). \<not> session_id i
        \<and> (\<exists>n \<in> set deleted. reaches readFile loadFindings n i)
        \<and> (\<exists>n \<in> set files - set deleted. reaches readFile loadFindings n i)}"
proof -
  define ps where "ps = collectPersistedTriageIds m"
  have ps: "set ps = {i \<in> set (map_keys m). \<not> session_id i}" "distinct ps"
    using assms(1) by (auto simp: ps_def collectPersistedTriageIds_def map_ok_def)
  have empty: "orphaned = 0 \<and> shared = 0" if "ps = []" using assms(2) that by (simp add: analyzeTriageImpact_def ps_def)
  show ?thesis
  proof (cases "ps = []")
    case True
    with ps(1) have "{i \<in> set (map_keys m). \<not> session_id i} = {}" by simp
    then have "{i \<in> set (map_keys m). \<not> session_id i \<and> Q i} = {}" for Q by blast
    note z = this
    show ?thesis using empty [OF True] by (simp only: z card.empty)
  next
    case False
    then obtain del where del: "collectReachableIds readFile loadFindings deleted = Inr del"
      using assms(2) by (auto simp: analyzeTriageImpact_def ps_def Let_def split: sum.splits)
    define ds where "ds = filter (\<lambda>i. i \<in> set del) ps"
    have ds: "set ds = {i \<in> set (map_keys m). \<not> session_id i \<and> (\<exists>n \<in> set deleted. reaches readFile loadFindings n i)}"
      "distinct ds" using ps set_reachable [OF del] by (auto simp: ds_def)
    show ?thesis
    proof (cases "ds = []")
      case True
      then have "orphaned = 0 \<and> shared = 0"
        using assms(2) False del by (simp add: analyzeTriageImpact_def ps_def ds_def Let_def)
      moreover from True ds(1) have "{i \<in> set (map_keys m). \<not> session_id i
        \<and> (\<exists>n \<in> set deleted. reaches readFile loadFindings n i) \<and> Q i} = {}" for Q by auto
      note z = this
      ultimately show ?thesis by (simp only: z card.empty)
    next
      case ne: False
      let ?kept = "filter (\<lambda>n. n \<notin> set deleted) files"
      obtain kept where kept: "collectReachableIds readFile loadFindings ?kept = Inr kept"
        and r: "orphaned = length (filter (\<lambda>i. i \<notin> set kept) ds)" "shared = length (filter (\<lambda>i. i \<in> set kept) ds)"
        using assms(2) False del ne
        by (auto simp: analyzeTriageImpact_def ps_def [symmetric] ds_def [symmetric] Let_def split: sum.splits)
      have k: "i \<in> set kept \<longleftrightarrow> (\<exists>n \<in> set files - set deleted. reaches readFile loadFindings n i)" for i
        using set_reachable [OF kept] by auto
      have c: "length (filter Q ds) = card {i \<in> set ds. Q i}" for Q
        using ds(2) by (metis distinct_card distinct_filter set_filter)
      show ?thesis
        unfolding r c k ds(1)
        by (intro conjI arg_cong [where f = card]) auto
    qed
  qed
qed

definition gc_files :: "string \<Rightarrow> read_result" where
  "gc_files n = (if n = ''a.json'' then Content (Some ''1'') else if n = ''b.json'' then Content (Some ''2'')
     else Failed \<lparr>err_name = JStr ''NotFoundError'', err_message = JUndef\<rparr>)"

definition gc_reports :: "string \<Rightarrow> string option list option" where
  "gc_reports c = (if c = ''1'' then Some [Some ''f1'', Some ''f2''] else Some [Some ''f2'', None])"

definition gc_map :: tmap where
  "gc_map = [(''f1'', no_fields\<lparr>e_color := JStr ''red''\<rparr>), (''f2'', no_fields\<lparr>e_color := JStr ''red''\<rparr>),
     (''f3'', no_fields\<lparr>e_comment := JStr ''c'', e_ignored := JArr [JStr ''a.json'']\<rparr>)]"

theorem analyzeTriageImpact_counts_witness:
  "analyzeTriageImpact gc_files gc_reports (Inr [''a.json'', ''b.json'']) gc_map [''a.json''] = Inr (1, 1)
   \<and> 1 = card {i \<in> set (map_keys gc_map). \<not> session_id i
        \<and> (\<exists>n \<in> set [''a.json'']. reaches gc_files gc_reports n i)
        \<and> \<not> (\<exists>n \<in> set [''a.json'', ''b.json''] - set [''a.json'']. reaches gc_files gc_reports n i)}"
proof -
  have ok: "map_ok gc_map" by code_simp
  have r: "analyzeTriageImpact gc_files gc_reports (Inr [''a.json'', ''b.json'']) gc_map [''a.json''] = Inr (1, 1)"
    by code_simp
  show ?thesis using conjunct1 [OF analyzeTriageImpact_counts [OF ok r]] r by blast
qed

text \<open>C33: a prune drops exactly the orphans it saw: with every listed file read, a finding
  the snapshot had and no stored report reaches loses its colour, status, comment, fix link
  and flag; a report ignore goes exactly when the snapshot had it and its finding or its
  report is gone; reachable findings keep their fields, and entries that appeared while the
  files were read, and session-only ones, are not touched.\<close>

theorem pruneOrphanTriage_spec:
  assumes "tmap_ok snap" and "tmap_ok m"
    and "pruneOrphanTriage readFile loadFindings (Inr names) snap m = Inr (m', changed)"
  shows "tmap_ok m'
    \<and> (\<forall>i. session_id i \<or> i \<notin> set (map_keys snap) \<longrightarrow> map_of m' i = map_of m i)
    \<and> (\<forall>i. \<forall>g \<in> set main_fields. \<not> session_id i \<and> i \<in> set (map_keys snap) \<longrightarrow>
        get_field g (view (map_of m' i)) =
        (if \<exists>n \<in> set names. reaches readFile loadFindings n i then get_field g (view (map_of m i)) else JUndef))
    \<and> (\<forall>i r. isReportIgnored m' i r \<longleftrightarrow> isReportIgnored m i r
        \<and> (isReportIgnored snap i r \<and> \<not> session_id i \<longrightarrow>
            r \<in> set names \<and> (\<exists>n \<in> set names. reaches readFile loadFindings n i)))"
proof -
  obtain ids where ids: "collectReachableIds readFile loadFindings names = Inr ids"
    and w: "(m', changed) = fold (prune_ignore ids names) (snap_ignored snap) (fold (prune_id ids) (map_keys snap) (m, False))"
    using assms(3) by (auto simp: pruneOrphanTriage_def split: sum.splits)
  define s1 where "s1 = fold (prune_id ids) (map_keys snap) (m, False)"
  have snap: "map_ok snap" by (rule tmap_ok_map_ok [OF assms(1)])
  have i: "i \<in> set ids \<longleftrightarrow> (\<exists>n \<in> set names. reaches readFile loadFindings n i)" for i
    using set_reachable [OF ids] by simp
  have p1: "tmap_ok (fst s1)"
    "\<And>i. if i \<in> set (map_keys snap) then pruned_entry ids i (map_of m i) (map_of (fst s1) i)
        else map_of (fst s1) i = map_of m i"
    using prune_ids [where s = "(m, False)" and reachable = ids, unfolded fst_conv, OF assms(2) snap [unfolded map_ok_def]]
    unfolding s1_def by blast+
  have m': "m' = fst (fold (prune_ignore ids names) (snap_ignored snap) s1)" using w by (metis fst_conv s1_def)
  note p2 = prune_ignores [OF p1(1), of ids names "snap_ignored snap", folded m', unfolded set_snap_ignored [OF snap]]
  have keys: "i \<in> fst ` set (snap_ignored snap) \<Longrightarrow> i \<in> set (map_keys snap)" for i
    by (force simp: snap_ignored_def)
  have untouched: "map_of m' j = map_of m j" if "session_id j \<or> j \<notin> set (map_keys snap)" for j
  proof (cases "session_id j")
    case True
    then show ?thesis using p2 p1(2) [of j] by (simp add: pruned_entry_def split: if_splits)
  next
    case False
    with that keys [of j] p1(2) [of j] p2 show ?thesis by (metis (no_types, lifting))
  qed
  have fields: "get_field g (view (map_of m' j)) = (if j \<in> set ids then get_field g (view (map_of m j)) else JUndef)"
    if "g \<in> set main_fields" "\<not> session_id j" "j \<in> set (map_keys snap)" for g j
    using p2 p1(2) [of j] that by (simp add: pruned_entry_def same_main_def split: if_splits)
  have rep: "ignored_of (map_of (fst s1) j) = ignored_of (map_of m j)" for j
    using p1(2) [of j] by (auto simp: pruned_entry_def same_reports_def split: if_splits)
  have "isReportIgnored m' j r \<longleftrightarrow> isReportIgnored m j r
        \<and> (isReportIgnored snap j r \<and> \<not> session_id j \<longrightarrow> r \<in> set names \<and> j \<in> set ids)" for j r
    using p2 rep [of j] unfolding isReportIgnored_iff by blast
  with untouched fields p2 show ?thesis unfolding i by blast
qed

theorem pruneOrphanTriage_spec_witness:
  "\<exists>m'. pruneOrphanTriage gc_files gc_reports (Inr [''b.json'']) gc_map gc_map = Inr (m', True)
    \<and> map_of m' ''f3'' = None \<and> get_field Color (view (map_of m' ''f2'')) = JStr ''red''"
proof -
  have ok: "tmap_ok gc_map" by code_simp
  let ?w = "pruneOrphanTriage gc_files gc_reports (Inr [''b.json'']) gc_map gc_map"
  define m' where "m' = [(''f2'', no_fields\<lparr>e_color := JStr ''red''\<rparr>)]"
  have r: "?w = Inr (m', True)" unfolding m'_def by code_simp
  note p = pruneOrphanTriage_spec [OF ok ok r, THEN conjunct2, THEN conjunct2, THEN conjunct1]
  have "\<not> session_id ''f2'' \<and> ''f2'' \<in> set (map_keys gc_map)"
    "\<exists>n \<in> set [''b.json'']. reaches gc_files gc_reports n ''f2''" by code_simp+
  with p main_fields_mem(1) have "get_field Color (view (map_of m' ''f2'')) = get_field Color (view (map_of gc_map ''f2''))"
    by (metis (no_types, lifting))
  moreover have "get_field Color (view (map_of gc_map ''f2'')) = JStr ''red''" "map_of m' ''f3'' = None"
    unfolding m'_def by code_simp+
  ultimately show ?thesis using r by metis
qed

text \<open>A prune acts on a complete picture or not at all: it fails exactly when the
  files cannot be listed or a listed file cannot be read for a reason other than having
  disappeared, and then no entry is changed.\<close>

theorem pruneOrphanTriage_fails_closed:
  "(\<exists>e. pruneOrphanTriage readFile loadFindings listing snap m = Inl e) \<longleftrightarrow>
    (case listing of Inl e \<Rightarrow> True | Inr names \<Rightarrow> \<exists>n \<in> set names. unreadable readFile n)"
  using collect_ids_error [of readFile loadFindings _ "[]"]
  by (auto simp: pruneOrphanTriage_def collectReachableIds_def split: sum.splits) (metis Inl_Inr_False)+

end
