(* ===== verification/TriageExport.thy ===== *)
theory TriageExport
  imports TriageStore
begin

text \<open>
  The triage backup (\<^verbatim>\<open>src/client/triage-export.js\<close>): the checks on a parsed
  backup file, and the import in its three modes. The gzip and the JSON layers
  are inverses of their readers; a payload is a parsed value. The merge of the
  repository URLs is \<open>importRepoUrls\<close> of \<^verbatim>\<open>src/client/state.ts\<close>, on the map
  as decrypted inside the storage lock.
\<close>

section \<open>Payloads\<close>

datatype import_error =
    NotAnObject
  | UnsupportedVersion jsval
  | MissingTriage
  | MissingRepoUrls
  | UnknownMode string

definition EXPORT_VERSION :: int where
  "EXPORT_VERSION = 1"

text \<open>\<open>v && typeof v === 'object'\<close>.\<close>

fun is_object :: "jsval \<Rightarrow> bool" where
  "is_object (JObj _) = True"
| "is_object (JArr _) = True"
| "is_object _ = False"

fun own_fields :: "jsval \<Rightarrow> (string \<times> jsval) list" where
  "own_fields (JObj fs) = fs"
| "own_fields _ = []"

definition buildTriageExportPayload ::
    "bool \<Rightarrow> (finding \<Rightarrow> string option \<Rightarrow> bool) \<Rightarrow> report list \<Rightarrow> tmap \<Rightarrow> string \<Rightarrow>
     (string, string) jsmap \<Rightarrow> tmap \<times> jsval" where
  "buildTriageExportPayload managed isAppFinding reports live now repoUrls =
     (let (live', entries) = buildPersistedTriageEntries managed isAppFinding reports live
      in (live', JObj [(''version'', JNum EXPORT_VERSION), (''exportedAt'', JStr now),
            (''triage'', JObj (snapshot_json entries)),
            (''repoUrls'', JObj (map (\<lambda>(k, u). (k, JStr u)) repoUrls))]))"

definition parseTriageExport :: "jsval \<Rightarrow> import_error + jsval" where
  "parseTriageExport payload =
     (if \<not> is_object payload then Inl NotAnObject
      else if js_field payload ''version'' \<noteq> JNum EXPORT_VERSION
        then Inl (UnsupportedVersion (js_field payload ''version''))
      else if \<not> is_object (js_field payload ''triage'') then Inl MissingTriage
      else if \<not> is_object (js_field payload ''repoUrls'') then Inl MissingRepoUrls
      else Inr payload)"

section \<open>Importing\<close>

definition import_modes :: "string list" where
  "import_modes = [''replace'', ''prefer-imported'', ''prefer-current'']"

text \<open>\<open>if (c) patchEntry(map, id, { f: w })\<close>.\<close>

definition set_if :: "bool \<Rightarrow> string \<Rightarrow> field \<Rightarrow> jsval \<Rightarrow> tmap \<Rightarrow> tmap" where
  "set_if c i f w m = (if c then fst (patchEntry m i [(f, w)]) else m)"

definition import_fields :: "bool \<Rightarrow> string \<Rightarrow> entry \<Rightarrow> tmap \<Rightarrow> tmap" where
  "import_fields keepCurrent i v m =
     (let m1 = set_if (nonempty_str (e_color v)
            \<and> (\<not> keepCurrent \<or> \<not> truthy (field_of (map_of m i) e_color))) i Color (e_color v) m;
          m2 = set_if (truthy (bucketOf (Some v))
            \<and> (\<not> keepCurrent \<or> \<not> truthy (bucketOf (map_of m1 i)))) i Triage (bucketOf (Some v)) m1;
          m3 = set_if (nonempty_str (e_comment v)
            \<and> (\<not> keepCurrent \<or> \<not> truthy (field_of (map_of m2 i) e_comment))) i Comment (e_comment v) m2;
          m4 = set_if (nonempty_str (e_fix v)
            \<and> (\<not> keepCurrent \<or> \<not> truthy (field_of (map_of m3 i) e_fix))) i Fix (e_fix v) m3
      in set_if (is_bool (e_flagged v)
            \<and> (\<not> keepCurrent \<or> field_of (map_of m4 i) e_flagged = JUndef)) i Flagged (e_flagged v) m4)"

definition import_entry :: "bool \<Rightarrow> string \<times> jsval \<Rightarrow> tmap \<Rightarrow> tmap" where
  "import_entry keepCurrent iv m =
     (let i = fst iv in
      if session_id i \<or> \<not> is_object (snd iv) then m
      else case entry_of (snd iv) of
        None \<Rightarrow> m
      | Some v \<Rightarrow>
          let m1 = import_fields keepCurrent i v m
          in if is_arr (e_ignored v) \<and> allowsReportIgnores (map_of m1 i)
             then fold (load_report i (Some v)) (elems (e_ignored v)) m1 else m1)"

definition drop_persisted :: "tmap \<Rightarrow> tmap" where
  "drop_persisted m = fold (\<lambda>i m. if session_id i then m else map_del i m) (map_keys m) m"

definition applyTriageImport :: "jsval \<Rightarrow> string \<Rightarrow> tmap \<Rightarrow> import_error + tmap" where
  "applyTriageImport payload mode m =
     (if mode \<notin> set import_modes then Inl (UnknownMode mode)
      else if \<not> is_object payload then Inl NotAnObject
      else if \<not> is_object (js_field payload ''triage'') \<or> is_arr (js_field payload ''triage'') then Inl MissingTriage
      else if \<not> is_object (js_field payload ''repoUrls'') \<or> is_arr (js_field payload ''repoUrls'') then Inl MissingRepoUrls
      else
        let m1 = (if mode = ''replace'' then drop_persisted m else m)
        in Inr (fold (import_entry (mode = ''prefer-current'')) (own_fields (js_field payload ''triage'')) m1))"

text \<open>\<open>{ ...a, ...b }\<close>, and the three merges of the repository URLs.\<close>

definition spread_map :: "('k, 'v) jsmap \<Rightarrow> ('k, 'v) jsmap \<Rightarrow> ('k, 'v) jsmap" where
  "spread_map a b = fold (\<lambda>(k, v). map_set k v) b a"

definition importRepoUrls :: "string \<Rightarrow> ('k, 'v) jsmap \<Rightarrow> ('k, 'v) jsmap \<Rightarrow> ('k, 'v) jsmap" where
  "importRepoUrls mode current imported =
     (if mode = ''replace'' then spread_map [] imported
      else if mode = ''prefer-imported'' then spread_map (spread_map [] current) imported
      else spread_map (spread_map [] imported) current)"

text \<open>\<open>adoptRepoUrls\<close>: the names that landed, and the map.\<close>

definition adoptRepoUrls ::
    "(string, jsval) jsmap \<Rightarrow> (string, jsval) jsmap \<Rightarrow> (string, jsval) jsmap \<times> string list" where
  "adoptRepoUrls imported current = foldl (\<lambda>(m, landed) (name, url).
     if name = [] \<or> \<not> nonempty_str url \<or> (case map_of m name of Some u \<Rightarrow> truthy u | None \<Rightarrow> False)
     then (m, landed) else (map_set name url m, landed @ [name])) (current, []) imported"

section \<open>What an imported entry does\<close>

lemma set_if_step:
  assumes "tmap_ok m" and "f \<in> set main_fields"
  shows "tmap_ok (set_if c i f w m) \<and> same_reports (map_of m i) (map_of (set_if c i f w m) i)
    \<and> (\<forall>j. j \<noteq> i \<longrightarrow> map_of (set_if c i f w m) j = map_of m j)
    \<and> (\<forall>g \<in> set main_fields. get_field g (view (map_of (set_if c i f w m) i)) =
        (if g = f \<and> c then norm_field f w else get_field g (view (map_of m i))))"
  using assms patch_main_reports [OF assms, of i w] patch_main [OF assms, of _ i w]
  by (simp add: set_if_def same_reports_def patch_frame)

text \<open>The value an entry of the backup offers for a field, valid or not, is the clean one.\<close>

lemma offered:
  "nonempty_str (e_color v) \<longleftrightarrow> get_field Color (clean v) \<noteq> JUndef"
  "truthy (bucketOf (Some v)) \<longleftrightarrow> get_field Triage (clean v) \<noteq> JUndef"
  "nonempty_str (e_comment v) \<longleftrightarrow> get_field Comment (clean v) \<noteq> JUndef"
  "nonempty_str (e_fix v) \<longleftrightarrow> get_field Fix (clean v) \<noteq> JUndef"
  "is_bool (e_flagged v) \<longleftrightarrow> get_field Flagged (clean v) \<noteq> JUndef"
proof -
  have k: "nonempty_str w \<longleftrightarrow> keep_str w \<noteq> JUndef" for w
    by (cases w) (auto simp: nonempty_str_def keep_str_def)
  show "nonempty_str (e_color v) \<longleftrightarrow> get_field Color (clean v) \<noteq> JUndef"
    "nonempty_str (e_comment v) \<longleftrightarrow> get_field Comment (clean v) \<noteq> JUndef"
    "nonempty_str (e_fix v) \<longleftrightarrow> get_field Fix (clean v) \<noteq> JUndef"
    by (simp_all add: k)
  show "truthy (bucketOf (Some v)) \<longleftrightarrow> get_field Triage (clean v) \<noteq> JUndef"
    using falsy_bucket [of "Some v"] by simp blast
  show "is_bool (e_flagged v) \<longleftrightarrow> get_field Flagged (clean v) \<noteq> JUndef"
    by (cases "e_flagged v") simp_all
qed

lemma norm_offered:
  "norm_field Color (e_color v) = get_field Color (clean v)"
  "norm_field Triage (bucketOf (Some v)) = get_field Triage (clean v)"
  "norm_field Comment (e_comment v) = get_field Comment (clean v)"
  "norm_field Fix (e_fix v) = get_field Fix (clean v)"
  "norm_field Flagged (e_flagged v) = get_field Flagged (clean v)"
  by simp_all

definition merged_field :: "bool \<Rightarrow> jsval \<Rightarrow> jsval \<Rightarrow> jsval" where
  "merged_field keepCurrent new cur =
     (if new \<noteq> JUndef \<and> (\<not> keepCurrent \<or> cur = JUndef) then new else cur)"

text \<open>One conditional patch: the guard over the live entry is the guard over its view.\<close>

definition taken :: "bool \<Rightarrow> string \<Rightarrow> field \<Rightarrow> entry \<Rightarrow> tmap \<Rightarrow> bool" where
  "taken keep i f v m = (get_field f (clean v) \<noteq> JUndef \<and> (\<not> keep \<or> get_field f (view (map_of m i)) = JUndef))"

lemma guards:
  assumes "tmap_ok m"
  shows "(nonempty_str (e_color v) \<and> (\<not> k \<or> \<not> truthy (field_of (map_of m i) e_color))) = taken k i Color v m"
    and "(truthy (bucketOf (Some v)) \<and> (\<not> k \<or> \<not> truthy (bucketOf (map_of m i)))) = taken k i Triage v m"
    and "(nonempty_str (e_comment v) \<and> (\<not> k \<or> \<not> truthy (field_of (map_of m i) e_comment))) = taken k i Comment v m"
    and "(nonempty_str (e_fix v) \<and> (\<not> k \<or> \<not> truthy (field_of (map_of m i) e_fix))) = taken k i Fix v m"
    and "(is_bool (e_flagged v) \<and> (\<not> k \<or> field_of (map_of m i) e_flagged = JUndef)) = taken k i Flagged v m"
proof -
  have sel: "e_color = get_field Color" "e_comment = get_field Comment" "e_fix = get_field Fix" "e_flagged = get_field Flagged"
    by (simp_all add: fun_eq_iff)
  note t = text_tests [OF cur_ok_lookup [OF assms, of i]]
  have t2: "truthy (field_of (map_of m i) (get_field f)) = (get_field f (view (map_of m i)) \<noteq> JUndef)"
    if "f \<in> {Color, Comment, Fix}" for f using t(2) that by blast
  show "(nonempty_str (e_color v) \<and> (\<not> k \<or> \<not> truthy (field_of (map_of m i) e_color))) = taken k i Color v m"
    unfolding offered(1) taken_def unfolding sel using t2 [of Color] by blast
  show "(truthy (bucketOf (Some v)) \<and> (\<not> k \<or> \<not> truthy (bucketOf (map_of m i)))) = taken k i Triage v m"
    unfolding offered(2) taken_def t(4) by blast
  show "(nonempty_str (e_comment v) \<and> (\<not> k \<or> \<not> truthy (field_of (map_of m i) e_comment))) = taken k i Comment v m"
    unfolding offered(3) taken_def unfolding sel using t2 [of Comment] by blast
  show "(nonempty_str (e_fix v) \<and> (\<not> k \<or> \<not> truthy (field_of (map_of m i) e_fix))) = taken k i Fix v m"
    unfolding offered(4) taken_def unfolding sel using t2 [of Fix] by blast
  show "(is_bool (e_flagged v) \<and> (\<not> k \<or> field_of (map_of m i) e_flagged = JUndef)) = taken k i Flagged v m"
    unfolding offered(5) taken_def unfolding sel t(3) by blast
qed

text \<open>The fields merged so far, the rest as they were.\<close>

definition merged_upto :: "bool \<Rightarrow> string \<Rightarrow> entry \<Rightarrow> field set \<Rightarrow> tmap \<Rightarrow> tmap \<Rightarrow> bool" where
  "merged_upto k i v fs m m' = (tmap_ok m' \<and> same_reports (map_of m i) (map_of m' i)
     \<and> (\<forall>j. j \<noteq> i \<longrightarrow> map_of m' j = map_of m j)
     \<and> (\<forall>g \<in> set main_fields. get_field g (view (map_of m' i)) =
         (if g \<in> fs then merged_field k (get_field g (clean v)) (get_field g (view (map_of m i)))
          else get_field g (view (map_of m i)))))"

lemma merged_upto_step:
  assumes "merged_upto k i v fs m m1" and "f \<in> set main_fields" and "f \<notin> fs"
    and "norm_field f w = get_field f (clean v)"
  shows "merged_upto k i v (insert f fs) m (set_if (taken k i f v m1) i f w m1)"
proof -
  have ok: "tmap_ok m1" using assms(1) by (simp add: merged_upto_def)
  note st = set_if_step [OF ok assms(2), of "taken k i f v m1" i w]
  have f1: "get_field f (view (map_of m1 i)) = get_field f (view (map_of m i))"
    using assms(1,2,3) by (simp add: merged_upto_def)
  have val: "get_field g (view (map_of (set_if (taken k i f v m1) i f w m1) i)) =
      (if g \<in> insert f fs then merged_field k (get_field g (clean v)) (get_field g (view (map_of m i)))
       else get_field g (view (map_of m i)))" if g: "g \<in> set main_fields" for g
  proof (cases "g = f")
    case True
    have "get_field g (view (map_of (set_if (taken k i f v m1) i f w m1) i)) =
        (if taken k i f v m1 then norm_field f w else get_field f (view (map_of m1 i)))"
      using st g True by metis
    then show ?thesis unfolding assms(4) taken_def f1 True by (simp add: merged_field_def del: get_field.simps)
  next
    case False
    then show ?thesis using st g assms(1) by (simp add: merged_upto_def del: get_field.simps)
  qed
  show ?thesis
    unfolding merged_upto_def using st assms(1) val
    by (intro conjI allI impI ballI) (simp_all add: merged_upto_def same_reports_def del: get_field.simps)
qed

lemma import_fields_spec:
  assumes "tmap_ok m"
  shows "merged_upto k i v (set main_fields) m (import_fields k i v m)"
proof -
  define m1 where "m1 = set_if (taken k i Color v m) i Color (e_color v) m"
  define m2 where "m2 = set_if (taken k i Triage v m1) i Triage (bucketOf (Some v)) m1"
  define m3 where "m3 = set_if (taken k i Comment v m2) i Comment (e_comment v) m2"
  define m4 where "m4 = set_if (taken k i Fix v m3) i Fix (e_fix v) m3"
  define m5 where "m5 = set_if (taken k i Flagged v m4) i Flagged (e_flagged v) m4"
  have "merged_upto k i v {} m m" using assms by (simp add: merged_upto_def same_reports_def)
  then have u1: "merged_upto k i v {Color} m m1" unfolding m1_def
    by (rule merged_upto_step) (simp_all add: main_fields_mem)
  then have u2: "merged_upto k i v {Triage, Color} m m2" unfolding m2_def
    by (rule merged_upto_step) (simp_all add: main_fields_mem)
  then have u3: "merged_upto k i v {Comment, Triage, Color} m m3" unfolding m3_def
    by (rule merged_upto_step) (simp_all add: main_fields_mem)
  then have u4: "merged_upto k i v {Fix, Comment, Triage, Color} m m4" unfolding m4_def
    by (rule merged_upto_step) (simp_all add: main_fields_mem)
  then have u5: "merged_upto k i v {Flagged, Fix, Comment, Triage, Color} m m5" unfolding m5_def
    by (rule merged_upto_step) (simp_all add: main_fields_mem)
  have ok: "tmap_ok m1" "tmap_ok m2" "tmap_ok m3" "tmap_ok m4" using u1 u2 u3 u4 by (simp_all add: merged_upto_def)
  have "import_fields k i v m = m5"
    unfolding import_fields_def Let_def guards(1) [OF assms, of v k i] m1_def [symmetric]
      guards(2) [OF ok(1), of v k i] m2_def [symmetric] guards(3) [OF ok(2), of v k i] m3_def [symmetric]
      guards(4) [OF ok(3), of v k i] m4_def [symmetric] guards(5) [OF ok(4), of v k i] m5_def ..
  moreover have "{Flagged, Fix, Comment, Triage, Color} = set main_fields" by (auto simp: main_fields_def)
  ultimately show ?thesis using u5 by simp
qed

text \<open>One entry of the backup, over the one of the live map.\<close>

definition imported :: "bool \<Rightarrow> string \<times> jsval \<Rightarrow> entry option \<Rightarrow> entry option \<Rightarrow> bool" where
  "imported k iv cur cur' =
     (if session_id (fst iv) \<or> \<not> is_object (snd iv) then cur' = cur
      else let v = entry_of (snd iv) in
       (\<forall>g \<in> set main_fields. get_field g (view cur') =
          merged_field k (get_field g (view v)) (get_field g (view cur)))
       \<and> ignored_of cur' = ignored_of cur
          \<union> (if allowsReportIgnores cur' then {r \<in> ignored_of v. is_str r \<and> r \<noteq> JStr []} else {}))"

lemma allows_main:
  "get_field Triage (view a) = get_field Triage (view b) \<Longrightarrow> allowsReportIgnores a = allowsReportIgnores b"
  by (simp add: allowsReportIgnores_def view_triage)

lemma object_entry: "is_object v \<Longrightarrow> \<exists>e. entry_of v = Some e"
  by (cases v) (simp_all add: entry_of_def)

interpretation import_walk: keyed_walk "import_entry k" fst tmap_ok "imported k" for k
proof
  fix m :: tmap and x :: "string \<times> jsval" and j
  assume m: "tmap_ok m"
  let ?i = "fst x"
  have all: "tmap_ok (import_entry k x m) \<and> imported k x (map_of m ?i) (map_of (import_entry k x m) ?i)
    \<and> (\<forall>j. j \<noteq> ?i \<longrightarrow> map_of (import_entry k x m) j = map_of m j)"
  proof (cases "session_id ?i \<or> \<not> is_object (snd x)")
    case True
    then show ?thesis using m by (auto simp: import_entry_def imported_def)
  next
    case False
    then obtain v where v: "entry_of (snd x) = Some v" using object_entry by blast
    define m1 where "m1 = import_fields k ?i v m"
    define rs where "rs = (if is_arr (e_ignored v) \<and> allowsReportIgnores (map_of m1 ?i) then elems (e_ignored v) else [])"
    have e: "import_entry k x m = fold (load_report ?i (Some v)) rs m1"
      using False v by (simp add: import_entry_def Let_def m1_def rs_def)
    have u: "merged_upto k ?i v (set main_fields) m m1" unfolding m1_def by (rule import_fields_spec [OF m])
    then have ok1: "tmap_ok m1" by (simp add: merged_upto_def)
    note f = load_fold [OF ok1, of ?i "Some v" rs, folded e]
    have mains: "get_field g (view (map_of (import_entry k x m) ?i)) =
        merged_field k (get_field g (view (Some v))) (get_field g (view (map_of m ?i)))"
      if "g \<in> set main_fields" for g
      using f u that by (simp add: same_main_def merged_upto_def del: get_field.simps)
    have "get_field Triage (view (map_of (import_entry k x m) ?i)) = get_field Triage (view (map_of m1 ?i))"
      using f main_fields_mem(2) by (simp add: same_main_def del: get_field.simps)
    note al = allows_main [OF this]
    have rs: "set rs = (if allowsReportIgnores (map_of m1 ?i) then ignored_of (Some v) else {})"
      by (cases "e_ignored v") (auto simp: rs_def)
    have ig: "ignored_of (map_of (import_entry k x m) ?i) = ignored_of (map_of m ?i)
        \<union> (if allowsReportIgnores (map_of (import_entry k x m) ?i) then {r \<in> ignored_of (Some v). is_str r \<and> r \<noteq> JStr []} else {})"
      unfolding al using f u rs by (auto simp: merged_upto_def same_reports_def)
    have "imported k x (map_of m ?i) (map_of (import_entry k x m) ?i)"
      using False mains ig unfolding imported_def Let_def v by (simp del: get_field.simps view_Some ignored_of_simps)
    then show ?thesis using f u by (simp add: merged_upto_def)
  qed
  show "tmap_ok (import_entry k x m)" using all by blast
  show "imported k x (map_of m ?i) (map_of (import_entry k x m) ?i)" using all by blast
  assume "j \<noteq> ?i"
  then show "map_of (import_entry k x m) j = map_of m j" using all by blast
qed

lemma drop_fold_lookup:
  "map_of (fold (\<lambda>i m. if session_id i then m else map_del i m) is m) j =
    (if j \<in> set is \<and> \<not> session_id j then None else map_of m j)"
  by (induction "is" arbitrary: m) auto

lemma drop_persisted_lookup:
  "map_of (drop_persisted m) j = (if session_id j then map_of m j else None)"
  by (auto simp: drop_persisted_def drop_fold_lookup map_of_eq_None_iff)

lemma drop_persisted_ok: "tmap_ok m \<Longrightarrow> tmap_ok (drop_persisted m)"
  unfolding drop_persisted_def
proof (rule fold_invariant)
  show "tmap_ok (if session_id i then s else map_del i s)" if "tmap_ok s" for i s
    using that tmap_ok_map_ok [OF that] by (auto intro!: tmap_okI dest: tmap_ok_lookup split: if_splits)
qed

lemma spread_map_lookup: "map_of (spread_map a b) k = (case map_of (rev b) k of Some v \<Rightarrow> Some v | None \<Rightarrow> map_of a k)"
  by (induction b arbitrary: a) (auto simp: spread_map_def map_add_def split: option.splits)

section \<open>Properties\<close>

text \<open>An import in each mode is, for every persisted finding and every main field, the
  backup's value where it offers a valid one and the mode takes it, and otherwise what was
  there: nothing in mode replace, the current value in the merging ones, of which
  prefer-current takes the backup's only where there is none. Report ignores are added
  only where the resulting status leaves room; session-only findings are never touched;
  whatever the file holds, the map stays well formed.\<close>

theorem applyTriageImport_merges:
  assumes "tmap_ok m" and "map_ok fs" and "js_field payload ''triage'' = JObj fs"
    and "applyTriageImport payload mode m = Inr m'"
  shows "tmap_ok m'
    \<and> (session_id i \<longrightarrow> map_of m' i = map_of m i)
    \<and> (\<not> session_id i \<longrightarrow>
        (let cur = (if mode = ''replace'' then None else map_of m i);
             new = (case map_of fs i of Some v \<Rightarrow> if is_object v then entry_of v else None | None \<Rightarrow> None) in
         (\<forall>g \<in> set main_fields. get_field g (view (map_of m' i)) =
            merged_field (mode = ''prefer-current'') (get_field g (view new)) (get_field g (view cur)))
         \<and> ignored_of (map_of m' i) = ignored_of cur
            \<union> (if allowsReportIgnores (map_of m' i) then {r \<in> ignored_of new. is_str r \<and> r \<noteq> JStr []} else {})))"
proof -
  let ?k = "mode = ''prefer-current''"
  define m1 where "m1 = (if mode = ''replace'' then drop_persisted m else m)"
  have m': "m' = fold (import_entry ?k) fs m1"
    using assms(3,4) by (auto simp: applyTriageImport_def m1_def Let_def split: if_splits)
  have ok1: "tmap_ok m1" using assms(1) by (simp add: m1_def drop_persisted_ok)
  have cur: "map_of m1 i = (if mode = ''replace'' \<and> \<not> session_id i then None else map_of m i)"
    by (simp add: m1_def drop_persisted_lookup)
  have ok: "tmap_ok m'" unfolding m' by (rule import_walk.walk_inv [OF ok1])
  have nop: "merged_field k JUndef c = c" for k c by (simp add: merged_field_def)
  show ?thesis
  proof (cases "map_of fs i")
    case None
    then have "i \<notin> fst ` set fs" by (simp add: map_of_eq_None_iff)
    then have "map_of m' i = map_of m1 i" unfolding m' by (rule import_walk.walk_other [OF ok1])
    with ok None cur show ?thesis by (simp add: Let_def nop)
  next
    case (Some v)
    then have x: "(i, v) \<in> set fs" by (rule map_of_SomeD)
    have d: "distinct (map fst fs)" using assms(2) by (simp add: map_ok_def)
    note r = import_walk.walk_rel [OF ok1 d x, of ?k, folded m', unfolded fst_conv]
    show ?thesis
    proof (cases "session_id i \<or> \<not> is_object v")
      case True
      with r have "map_of m' i = map_of m1 i" by (simp add: imported_def)
      with ok True Some cur show ?thesis by (auto simp: Let_def nop)
    next
      case False
      with r ok Some cur show ?thesis
        by (simp add: imported_def Let_def del: get_field.simps)
    qed
  qed
qed

definition backup_sample :: jsval where
  "backup_sample = JObj [(''version'', JNum 1),
     (''triage'', JObj [(''f1'', JObj [(''color'', JStr ''blue''), (''fix'', JNum 3)]), (''7'', JNull)]),
     (''repoUrls'', JObj [])]"

theorem applyTriageImport_merges_witness:
  "\<exists>m'. applyTriageImport backup_sample ''prefer-imported'' [(''f1'', no_fields\<lparr>e_color := JStr ''red''\<rparr>)] = Inr m'
     \<and> get_field Color (view (map_of m' ''f1'')) = JStr ''blue''"
proof -
  let ?m = "[(''f1'', no_fields\<lparr>e_color := JStr ''red''\<rparr>)]"
  define fs where "fs = [(''f1'', JObj [(''color'', JStr ''blue''), (''fix'', JNum 3)]), (''7'', JNull)]"
  define m' where "m' = [(''f1'', no_fields\<lparr>e_color := JStr ''blue''\<rparr>)]"
  have a: "tmap_ok ?m" "map_ok fs" "js_field backup_sample ''triage'' = JObj fs" "\<not> session_id ''f1''"
    unfolding fs_def by code_simp+
  have r: "applyTriageImport backup_sample ''prefer-imported'' ?m = Inr m'" unfolding m'_def by code_simp
  have "merged_field (''prefer-imported'' = ''prefer-current'')
      (get_field Color (view (case map_of fs ''f1'' of Some v \<Rightarrow> if is_object v then entry_of v else None | None \<Rightarrow> None)))
      (get_field Color (view (if ''prefer-imported'' = ''replace'' then None else map_of ?m ''f1''))) = JStr ''blue''"
    unfolding fs_def by code_simp
  moreover note bspec [OF conjunct1 [OF mp [OF conjunct2 [OF conjunct2 [OF
      applyTriageImport_merges [OF a(1-3) r, of "''f1''", unfolded Let_def]]] a(4)]] main_fields_mem(1)]
  ultimately have "get_field Color (view (map_of m' ''f1'')) = JStr ''blue''" by (rule trans [rotated])
  with r show ?thesis by blast
qed



end
