(* ===== verification/FindingLink.thy ===== *)
theory FindingLink
  imports JsText
begin

text \<open>
  Deep links to one finding (\<^verbatim>\<open>src/client/finding-link.js\<close>,
  \<^verbatim>\<open>src/common/finding-id.js\<close>): which ids a link may carry, the two location
  hints packed into one parameter, and the fragment that is written and read
  back. \<open>encodeURIComponent\<close> and \<open>decodeURIComponent\<close> are written out for the
  characters a \<open>char\<close> holds (code points up to 255, one code unit each, two
  bytes of UTF-8 from 128 on); a hint's digest is a parameter, since
  \<open>crypto.subtle\<close> is the browser's.
\<close>

section \<open>Ids\<close>

definition code :: "char \<Rightarrow> nat" where
  "code c = of_char c"

definition hasControlChar :: "string \<Rightarrow> bool" where
  "hasControlChar s = list_ex (\<lambda>c. code c < 32 \<or> code c = 127) s"

definition MAX_FINDING_ID_LENGTH :: nat where
  "MAX_FINDING_ID_LENGTH = 512"

fun isUsablePart :: "jsval \<Rightarrow> bool" where
  "isUsablePart (JStr s) = (length s > 0 \<and> length s \<le> MAX_FINDING_ID_LENGTH \<and> \<not> hasControlChar s)"
| "isUsablePart _ = False"

definition isLinkableFindingId :: "jsval \<Rightarrow> bool" where
  "isLinkableFindingId v = (isUsablePart v \<and> \<not> (case v of JStr s \<Rightarrow> all_digits s | _ \<Rightarrow> False))"

section \<open>Hints\<close>

definition alnum :: string where
  "alnum = ''ABCDEFGHIJKLMNOPQRSTUVWXYZabcdefghijklmnopqrstuvwxyz0123456789''"

definition hint_char :: "char \<Rightarrow> bool" where
  "hint_char c = (c \<in> set alnum \<or> c = CHR ''_'' \<or> c = CHR ''-'')"

fun isLinkHint :: "jsval \<Rightarrow> bool" where
  "isLinkHint (JStr s) = (length s = 4 \<and> list_all hint_char s)"
| "isLinkHint _ = False"

definition NO_HINT :: string where
  "NO_HINT = ''AAAA''"

datatype hint_kind = ReportHint | WorkspaceHint

definition hint_domain :: "hint_kind \<Rightarrow> string" where
  "hint_domain k = (case k of
     ReportHint \<Rightarrow> ''deepview/finding-link/report/v1'' @ [CHR 0x0A]
   | WorkspaceHint \<Rightarrow> ''deepview/finding-link/workspace/v1'' @ [CHR 0x0A])"

type_synonym hint_cache = "(hint_kind \<times> string, string) jsmap"

text \<open>\<open>digest\<close> gives the first characters of the hash of a text, or nothing
  where the browser throws; a failure is not remembered.\<close>

definition computeLinkHint ::
    "(string \<Rightarrow> string option) \<Rightarrow> hint_kind \<Rightarrow> string \<Rightarrow> hint_cache \<Rightarrow> hint_cache \<times> string option" where
  "computeLinkHint digest kind value cache =
     (if value = [] then (cache, None)
      else case map_of cache (kind, value) of
        Some token \<Rightarrow> (cache, Some token)
      | None \<Rightarrow> (case digest (hint_domain kind @ value) of
            None \<Rightarrow> (cache, None)
          | Some token \<Rightarrow> (map_set (kind, value) token cache, Some token)))"

definition knownLinkHint :: "hint_kind \<Rightarrow> string \<Rightarrow> hint_cache \<Rightarrow> string option" where
  "knownLinkHint kind value cache = (if value = [] then None else map_of cache (kind, value))"

datatype link_error = HintNotAToken string | NotAPersistentId

definition hint_half :: "string \<Rightarrow> jsval \<Rightarrow> link_error + string" where
  "hint_half what hint =
     (if hint = JNull \<or> hint = JUndef \<or> hint = JStr [] then Inr NO_HINT
      else if \<not> isLinkHint hint then Inl (HintNotAToken what)
      else case hint of JStr h \<Rightarrow> Inr h | _ \<Rightarrow> Inl (HintNotAToken what))"

definition packLinkHints :: "jsval \<Rightarrow> jsval \<Rightarrow> link_error + string option" where
  "packLinkHints report workspace = (case hint_half ''report'' report of
     Inl e \<Rightarrow> Inl e
   | Inr r \<Rightarrow> (case hint_half ''workspace'' workspace of
       Inl e \<Rightarrow> Inl e
     | Inr w \<Rightarrow> if r = NO_HINT \<and> w = NO_HINT then Inr None
         else if r = NO_HINT then Inr (Some (''w'' @ w))
         else Inr (Some (r @ w))))"

definition known_half :: "string \<Rightarrow> string option" where
  "known_half h = (if h = NO_HINT then None else Some h)"

definition unpackLinkHints :: "string \<Rightarrow> string option \<times> string option" where
  "unpackLinkHints v = (known_half (take 4 v), known_half (drop 4 v))"

section \<open>Percent encoding\<close>

definition unreserved :: "char \<Rightarrow> bool" where
  "unreserved c = (c \<in> set alnum \<or> c \<in> set ''-_.!~*'' \<or> c = CHR 0x27 \<or> c \<in> set ''()'')"

definition hex_digits :: string where
  "hex_digits = ''0123456789ABCDEF''"

definition pct :: "nat \<Rightarrow> string" where
  "pct b = [CHR ''%'', hex_digits ! (b div 16), hex_digits ! (b mod 16)]"

definition encode_char :: "char \<Rightarrow> string" where
  "encode_char c = (if unreserved c then [c]
     else if code c < 128 then pct (code c)
     else pct (192 + code c div 64) @ pct (128 + code c mod 64))"

definition encodeURIComponent :: "string \<Rightarrow> string" where
  "encodeURIComponent s = concat (map encode_char s)"

definition hex_val :: "char \<Rightarrow> nat option" where
  "hex_val c = (if c \<in> set ''0123456789'' then Some (code c - 48)
     else if c \<in> set ''ABCDEF'' then Some (code c - 55)
     else if c \<in> set ''abcdef'' then Some (code c - 87) else None)"

definition hex_byte :: "char \<Rightarrow> char \<Rightarrow> nat option" where
  "hex_byte a b = (case hex_val a of None \<Rightarrow> None | Some m \<Rightarrow>
     (case hex_val b of None \<Rightarrow> None | Some n \<Rightarrow> Some (16 * m + n)))"

text \<open>\<open>decodeURIComponent\<close>: \<open>None\<close> for the \<open>URIError\<close> of a truncated or
  invalid escape, and for a code point no \<open>char\<close> holds.\<close>

fun decodeURIComponent :: "string \<Rightarrow> string option" where
  "decodeURIComponent [] = Some []"
| "decodeURIComponent (x # rest) =
     (if x \<noteq> CHR ''%'' then map_option ((#) x) (decodeURIComponent rest)
      else case rest of
        a # b # rest1 \<Rightarrow> (case hex_byte a b of
            None \<Rightarrow> None
          | Some n \<Rightarrow>
              if n < 128 then map_option ((#) (char_of n)) (decodeURIComponent rest1)
              else if n = 194 \<or> n = 195 then (case rest1 of
                  p # a' # b' # rest2 \<Rightarrow>
                    if p \<noteq> CHR ''%'' then None
                    else (case hex_byte a' b' of
                        None \<Rightarrow> None
                      | Some k \<Rightarrow> if 128 \<le> k \<and> k < 192
                          then map_option ((#) (char_of ((n - 192) * 64 + (k - 128)))) (decodeURIComponent rest2)
                          else None)
                | _ \<Rightarrow> None)
              else None)
      | _ \<Rightarrow> None)"

section \<open>The fragment\<close>

definition encodeFindingRef :: "jsval \<Rightarrow> jsval \<Rightarrow> jsval \<Rightarrow> link_error + string" where
  "encodeFindingRef i report workspace =
     (if \<not> isLinkableFindingId i then Inl NotAPersistentId
      else case packLinkHints report workspace of
        Inl e \<Rightarrow> Inl e
      | Inr packed \<Rightarrow> (case i of
            JStr s \<Rightarrow> Inr (join ''&'' ([''finding='' @ encodeURIComponent s]
              @ (case packed of Some p \<Rightarrow> [''v='' @ p] | None \<Rightarrow> [])))
          | _ \<Rightarrow> Inl NotAPersistentId))"

text \<open>\<open>location\<close> is missing outside a browser.\<close>

definition buildFindingUrl ::
    "(string \<times> string) option \<Rightarrow> string option \<Rightarrow> jsval \<Rightarrow> jsval \<Rightarrow> jsval \<Rightarrow> link_error + string" where
  "buildFindingUrl location pathname i report workspace =
     (case encodeFindingRef i report workspace of
        Inl e \<Rightarrow> Inl e
      | Inr encoded \<Rightarrow> (case location of
            None \<Rightarrow> Inr ((case pathname of Some p \<Rightarrow> p | None \<Rightarrow> []) @ ''#'' @ encoded)
          | Some (origin, path) \<Rightarrow>
              Inr (origin @ (case pathname of Some p \<Rightarrow> p | None \<Rightarrow> path) @ ''#'' @ encoded)))"

record found =
  found_id :: "string option"
  found_report :: "string option"
  found_workspace :: "string option"

definition read_part :: "string \<Rightarrow> found \<Rightarrow> found" where
  "read_part part found = (case index_of ''='' part of
     None \<Rightarrow> found
   | Some eq \<Rightarrow>
       let key = take eq part; raw = drop (eq + 1) part in
       if raw = [] then found
       else if key = ''v'' then
         (if length raw = 5 \<and> hd raw = CHR ''w'' \<and> isLinkHint (JStr (tl raw)) then
            found\<lparr>found_report := None, found_workspace := known_half (tl raw)\<rparr>
          else if \<not> (length raw = 8 \<and> list_all hint_char raw) then found
          else found\<lparr>found_report := fst (unpackLinkHints raw), found_workspace := snd (unpackLinkHints raw)\<rparr>)
       else if key \<noteq> ''finding'' then found
       else if length raw > MAX_FINDING_ID_LENGTH * 3 then found
       else case decodeURIComponent raw of
         None \<Rightarrow> found
       | Some value \<Rightarrow> if isLinkableFindingId (JStr value) then found\<lparr>found_id := Some value\<rparr> else found)"

definition strip_hash :: "string \<Rightarrow> string" where
  "strip_hash s = (case s of x # r \<Rightarrow> if x = CHR ''#'' then r else s | [] \<Rightarrow> [])"

definition extractFindingRef :: "string \<Rightarrow> found option" where
  "extractFindingRef raw =
     (let stripped = strip_hash raw in
      if stripped = [] then None
      else
        let found = fold read_part (split_on CHR ''&'' stripped)
              \<lparr>found_id = None, found_report = None, found_workspace = None\<rparr>
        in if found_id found = None then None else Some found)"

section \<open>Lemmas\<close>

lemma code_less [simp]: "code c < 256"
  by (simp add: code_def)

lemma char_of_code [simp]: "char_of (code c) = c"
  by (simp add: code_def)

lemma utf8_bytes:
  "192 + code c div 64 < 256" "128 + code c mod 64 < 256" "code c div 64 < 4"
proof -
  show "code c div 64 < 4" by (rule less_mult_imp_div_less) simp
  then show "192 + code c div 64 < 256" by simp
  have "code c mod 64 < 64" by simp
  then show "128 + code c mod 64 < 256" by linarith
qed

lemma hex_digit_val:
  assumes "n < 16"
  shows "hex_val (hex_digits ! n) = Some n" and "hex_digits ! n \<noteq> CHR ''&''"
proof -
  have "\<forall>n \<in> set [0..<16]. hex_val (hex_digits ! n) = Some n \<and> hex_digits ! n \<noteq> CHR ''&''" by code_simp
  with assms show "hex_val (hex_digits ! n) = Some n" "hex_digits ! n \<noteq> CHR ''&''" by simp_all
qed

lemma hex_byte_pct:
  "b < 256 \<Longrightarrow> hex_byte (hex_digits ! (b div 16)) (hex_digits ! (b mod 16)) = Some b"
  by (simp add: hex_byte_def hex_digit_val)

lemma unreserved_chars:
  "unreserved c \<Longrightarrow> c \<noteq> CHR ''%'' \<and> c \<noteq> CHR ''&''"
  by (auto simp: unreserved_def alnum_def)

lemma decode_encode_char:
  "decodeURIComponent (encode_char c @ s) = map_option ((#) c) (decodeURIComponent s)"
proof (cases "unreserved c")
  case True
  then show ?thesis by (simp add: encode_char_def unreserved_chars)
next
  case False
  have bytes: "hex_byte (hex_digits ! (b div 16)) (hex_digits ! (b mod 16)) = Some b" if "b < 256" for b
    using that by (rule hex_byte_pct)
  show ?thesis
  proof (cases "code c < 128")
    case True
    with False show ?thesis by (simp add: encode_char_def pct_def bytes)
  next
    case hi: False
    note n = utf8_bytes(1,2) [of c]
    have "2 \<le> code c div 64" using hi div_le_mono [of 128 "code c" 64] by simp
    then have d: "code c div 64 = 2 \<or> code c div 64 = 3" using utf8_bytes(3) [of c] by linarith
    have e: "code c div 64 * 64 + code c mod 64 = code c" by simp
    define k where "k = 128 + code c mod 64"
    have k: "128 \<le> k" "k < 192" "k - 128 = code c mod 64" "k < 256" using utf8_bytes(2) [of c] by (simp_all add: k_def)
    have lead: "hex_byte (hex_digits ! (194 div 16)) (hex_digits ! (194 mod 16)) = Some 194"
      "hex_byte (hex_digits ! (195 div 16)) (hex_digits ! (195 mod 16)) = Some 195" by (rule bytes; simp)+
    have two: "decodeURIComponent (pct b @ pct k @ s) = map_option ((#) (char_of ((b - 192) * 64 + (k - 128)))) (decodeURIComponent s)"
      if "b = 194 \<or> b = 195" for b
      using that lead k(1,2) bytes [OF k(4)] by (elim disjE) (simp_all add: pct_def)
    have "192 + code c div 64 = 194 \<or> 192 + code c div 64 = 195" using d by auto
    from two [OF this] have "decodeURIComponent (pct (192 + code c div 64) @ pct (128 + code c mod 64) @ s) =
        map_option ((#) (char_of (code c div 64 * 64 + code c mod 64))) (decodeURIComponent s)"
      unfolding k(3) unfolding k_def by simp
    then show ?thesis using False hi by (simp add: encode_char_def e)
  qed
qed

lemma decode_encode [simp]: "decodeURIComponent (encodeURIComponent s) = Some s"
proof (induction s)
  case (Cons c s)
  then show ?case using decode_encode_char [of c "encodeURIComponent s"] by (simp add: encodeURIComponent_def)
qed (simp add: encodeURIComponent_def)

lemma encode_no_amp: "CHR ''&'' \<notin> set (encodeURIComponent s)"
proof -
  have "CHR ''&'' \<notin> set (pct b)" if "b < 256" for b
  proof -
    have "b div 16 < 16" "b mod 16 < 16" using that by simp_all
    from hex_digit_val(2) [OF this(1)] hex_digit_val(2) [OF this(2)] show ?thesis by (auto simp: pct_def)
  qed
  note pct = this
  have "CHR ''&'' \<notin> set (encode_char c)" for c
  proof (cases "unreserved c")
    case True
    then show ?thesis using unreserved_chars [OF True] by (auto simp: encode_char_def)
  next
    case False
    have "code c < 256" by simp
    with False pct [of "code c"] pct [OF utf8_bytes(1) [of c]] pct [OF utf8_bytes(2) [of c]] show ?thesis
      by (simp add: encode_char_def)
  qed
  then show ?thesis by (auto simp: encodeURIComponent_def)
qed

lemma encode_nonempty: "s \<noteq> [] \<Longrightarrow> encodeURIComponent s \<noteq> []"
  by (cases s) (auto simp: encodeURIComponent_def encode_char_def pct_def)

text \<open>A half as the receiver reads it: a token, or nothing known.\<close>

fun hint_read :: "jsval \<Rightarrow> string option" where
  "hint_read (JStr h) = (if h = [] \<or> h = NO_HINT then None else Some h)"
| "hint_read _ = None"

lemma hint_half_cases:
  assumes "hint_half what h = Inr r"
  shows "known_half r = hint_read h" and "length r = 4" and "list_all hint_char r"
proof -
  have n: "length NO_HINT = 4" "list_all hint_char NO_HINT" by code_simp+
  have "known_half r = hint_read h \<and> length r = 4 \<and> list_all hint_char r"
  proof (cases "h = JNull \<or> h = JUndef \<or> h = JStr []")
    case True
    then show ?thesis using assms n by (auto simp: hint_half_def known_half_def)
  next
    case False
    then have l: "isLinkHint h" and r: "(case h of JStr x \<Rightarrow> Inr x | _ \<Rightarrow> Inl (HintNotAToken what)) = Inr r"
      using assms unfolding hint_half_def by (simp_all only: if_False split: if_splits) simp_all
    from l obtain x where x: "h = JStr x" by (cases h) simp_all
    have "r = x" using r unfolding x by simp
    moreover have "length x = 4" "list_all hint_char x" using l unfolding x by simp_all
    moreover have "x \<noteq> []" using False x by simp
    ultimately show ?thesis by (simp add: known_half_def x)
  qed
  then show "known_half r = hint_read h" "length r = 4" "list_all hint_char r" by simp_all
qed

lemma hint_no_amp: "list_all hint_char p \<Longrightarrow> CHR ''&'' \<notin> set p"
proof -
  have "\<not> hint_char CHR ''&''" by code_simp
  then show "list_all hint_char p \<Longrightarrow> CHR ''&'' \<notin> set p" unfolding list_all_iff by blast
qed

lemma pack_cases:
  assumes "packLinkHints report workspace = Inr packed"
  obtains "packed = None" "hint_read report = None" "hint_read workspace = None"
  | w where "packed = Some (''w'' @ w)" "length w = 4" "list_all hint_char w"
      "hint_read report = None" "hint_read workspace = known_half w"
  | r w where "packed = Some (r @ w)" "length r = 4" "length w = 4" "list_all hint_char r" "list_all hint_char w"
      "hint_read report = known_half r" "hint_read workspace = known_half w"
proof -
  obtain r w where r: "hint_half ''report'' report = Inr r" and w: "hint_half ''workspace'' workspace = Inr w"
    and p: "packed = (if r = NO_HINT \<and> w = NO_HINT then None else if r = NO_HINT then Some (''w'' @ w) else Some (r @ w))"
    using assms by (auto simp: packLinkHints_def split: sum.splits if_splits)
  note hr = hint_half_cases [OF r] and hw = hint_half_cases [OF w]
  have k: "known_half NO_HINT = None" by (simp add: known_half_def)
  show thesis
  proof (cases "r = NO_HINT")
    case False
    then have "packed = Some (r @ w)" using p by simp
    from that(3) [OF this hr(2) hw(2) hr(3) hw(3) hr(1) [symmetric] hw(1) [symmetric]] show thesis .
  next
    case r: True
    have rn: "hint_read report = None" using hr(1) unfolding r k by simp
    show thesis
    proof (cases "w = NO_HINT")
      case True
      have "hint_read workspace = None" using hw(1) unfolding True k by simp
      moreover have "packed = None" using p r True by simp
      ultimately show thesis using that(1) rn by blast
    next
      case False
      then have "packed = Some (''w'' @ w)" using p r by simp
      from that(2) [OF this hw(2,3) rn hw(1) [symmetric]] show thesis .
    qed
  qed
qed

lemma read_finding:
  assumes "isLinkableFindingId (JStr s)" and "length (encodeURIComponent s) \<le> MAX_FINDING_ID_LENGTH * 3"
  shows "read_part (''finding='' @ encodeURIComponent s) f = f\<lparr>found_id := Some s\<rparr>"
proof -
  have "s \<noteq> []" using assms(1) by (auto simp: isLinkableFindingId_def)
  then show ?thesis using assms by (simp add: read_part_def encode_nonempty)
qed

lemma read_workspace:
  assumes "length w = 4" and "list_all hint_char w"
  shows "read_part (''v=w'' @ w) f = f\<lparr>found_report := None, found_workspace := known_half w\<rparr>"
  using assms by (simp add: read_part_def)

lemma read_both:
  assumes "length r = 4" and "length w = 4" and "list_all hint_char r" and "list_all hint_char w"
  shows "read_part (''v='' @ r @ w) f = f\<lparr>found_report := known_half r, found_workspace := known_half w\<rparr>"
proof -
  have "r \<noteq> []" using assms(1) by auto
  then show ?thesis using assms by (simp add: read_part_def unpackLinkHints_def)
qed

lemma read_part_cases:
  "read_part p f = f
   \<or> (\<exists>w. length w = 4 \<and> list_all hint_char w
        \<and> read_part p f = f\<lparr>found_report := None, found_workspace := known_half w\<rparr>)
   \<or> (\<exists>r w. length r = 4 \<and> list_all hint_char r \<and> length w = 4 \<and> list_all hint_char w
        \<and> read_part p f = f\<lparr>found_report := known_half r, found_workspace := known_half w\<rparr>)
   \<or> (\<exists>s. isLinkableFindingId (JStr s) \<and> read_part p f = f\<lparr>found_id := Some s\<rparr>)"
proof (cases "index_of ''='' p")
  case None
  then show ?thesis by (simp add: read_part_def)
next
  case (Some eq)
  define key raw where "key = take eq p" and "raw = drop (eq + 1) p"
  have parts: "length (take 4 v) = 4 \<and> list_all hint_char (take 4 v) \<and> length (drop 4 v) = 4 \<and> list_all hint_char (drop 4 v)"
    if "length v = 8" "list_all hint_char v" for v :: string
    using that by (auto simp: list_all_iff dest: in_set_takeD in_set_dropD)
  consider "raw = []" | "raw \<noteq> []" "key = ''v''" "length raw = 5 \<and> hd raw = CHR ''w'' \<and> isLinkHint (JStr (tl raw))"
    | "raw \<noteq> []" "key = ''v''" "\<not> (length raw = 5 \<and> hd raw = CHR ''w'' \<and> isLinkHint (JStr (tl raw)))"
      "length raw = 8 \<and> list_all hint_char raw"
    | "raw \<noteq> []" "key = ''v''" "\<not> (length raw = 5 \<and> hd raw = CHR ''w'' \<and> isLinkHint (JStr (tl raw)))"
      "\<not> (length raw = 8 \<and> list_all hint_char raw)"
    | "raw \<noteq> []" "key \<noteq> ''v''" by blast
  then show ?thesis
  proof cases
    case 1
    then have "read_part p f = f" by (simp add: read_part_def Some Let_def raw_def)
    then show ?thesis by blast
  next
    case 2
    then have "read_part p f = f\<lparr>found_report := None, found_workspace := known_half (tl raw)\<rparr>"
      by (simp add: read_part_def Some Let_def raw_def key_def)
    moreover have "length (tl raw) = 4" "list_all hint_char (tl raw)" using 2 by simp_all
    ultimately show ?thesis by blast
  next
    case 3
    then have "read_part p f = f\<lparr>found_report := known_half (take 4 raw), found_workspace := known_half (drop 4 raw)\<rparr>"
      by (simp add: read_part_def Some Let_def raw_def key_def unpackLinkHints_def)
    with parts [of raw] 3 show ?thesis by blast
  next
    case 4
    have "read_part p f = f"
      unfolding read_part_def Some Let_def raw_def [symmetric] key_def [symmetric] option.case
        if_not_P [OF 4(1)] if_P [OF 4(2)] if_not_P [OF 4(3)] if_P [OF 4(4)] by (rule refl)
    then show ?thesis by blast
  next
    case 5
    then show ?thesis
      unfolding read_part_def Some Let_def raw_def [symmetric] key_def [symmetric] option.case
      by (auto split: option.splits)
  qed
qed

lemma extract_frag:
  assumes "\<forall>p \<in> set ps. CHR ''&'' \<notin> set p" and "ps = (''finding='' @ e) # qs"
  shows "extractFindingRef (join ''&'' ps) =
      (let found = fold read_part ps \<lparr>found_id = None, found_report = None, found_workspace = None\<rparr>
       in if found_id found = None then None else Some found)"
    and "extractFindingRef (''#'' @ join ''&'' ps) = extractFindingRef (join ''&'' ps)"
proof -
  have sp: "split_on CHR ''&'' (join ''&'' ps) = ps"
    by (rule split_join) (use assms in \<open>auto simp: list_all_iff\<close>)
  have st: "strip_hash (join ''&'' ps) = join ''&'' ps" "join ''&'' ps \<noteq> []"
    by (cases qs; simp add: assms(2) strip_hash_def)+
  show "extractFindingRef (join ''&'' ps) =
      (let found = fold read_part ps \<lparr>found_id = None, found_report = None, found_workspace = None\<rparr>
       in if found_id found = None then None else Some found)"
    using st by (simp add: extractFindingRef_def sp)
  show "extractFindingRef (''#'' @ join ''&'' ps) = extractFindingRef (join ''&'' ps)"
    using st by (simp add: extractFindingRef_def strip_hash_def [of "CHR ''#'' # _"])
qed

section \<open>Properties\<close>

text \<open>A finding link is read back as it was written: the fragment built for a
  persistent id and two optional hint tokens gives, with or without its \<open>#\<close>, the same id
  and the hints that name something, provided the encoded id is within the reader's bound.\<close>

theorem finding_ref_roundtrip:
  assumes "encodeFindingRef (JStr s) report workspace = Inr fragment"
    and "length (encodeURIComponent s) \<le> MAX_FINDING_ID_LENGTH * 3"
  shows "extractFindingRef (''#'' @ fragment) = extractFindingRef fragment
    \<and> extractFindingRef fragment = Some \<lparr>found_id = Some s, found_report = hint_read report,
        found_workspace = hint_read workspace\<rparr>"
proof -
  obtain packed where l: "isLinkableFindingId (JStr s)" and p: "packLinkHints report workspace = Inr packed"
    and f: "fragment = join ''&'' ([''finding='' @ encodeURIComponent s]
      @ (case packed of Some p \<Rightarrow> [''v='' @ p] | None \<Rightarrow> []))"
    using assms(1) by (auto simp: encodeFindingRef_def split: if_splits sum.splits)
  note rd = read_finding [OF l assms(2)]
  have amp: "CHR ''&'' \<notin> set (''finding='' @ encodeURIComponent s)" using encode_no_amp by simp
  show ?thesis using p
  proof (cases rule: pack_cases)
    case 1
    have fr: "fragment = join ''&'' [''finding='' @ encodeURIComponent s]" using f 1 by simp
    show ?thesis unfolding fr using extract_frag [OF _ refl, of "encodeURIComponent s" "[]"] amp rd 1
      by (simp add: Let_def)
  next
    case (2 w)
    have fr: "fragment = join ''&'' [''finding='' @ encodeURIComponent s, ''v=w'' @ w]" using f 2 by simp
    have "CHR ''&'' \<notin> set (''v=w'' @ w)" using hint_no_amp [OF 2(3)] by simp
    then have a: "\<forall>p \<in> set [''finding='' @ encodeURIComponent s, ''v=w'' @ w]. CHR ''&'' \<notin> set p"
      using amp by auto
    note ex = extract_frag [OF a refl]
    have e1: "extractFindingRef fragment = Some \<lparr>found_id = Some s, found_report = None, found_workspace = known_half w\<rparr>"
      using ex(1) unfolding fr fold_simps rd read_workspace [OF 2(2,3)] Let_def found.simps by (simp only: option.distinct if_False)
    show ?thesis using e1 ex(2) unfolding fr 2(4,5) by blast
  next
    case (3 r w)
    have fr: "fragment = join ''&'' [''finding='' @ encodeURIComponent s, ''v='' @ r @ w]" using f 3 by simp
    have "CHR ''&'' \<notin> set (''v='' @ r @ w)" using hint_no_amp 3 by simp
    then have a: "\<forall>p \<in> set [''finding='' @ encodeURIComponent s, ''v='' @ r @ w]. CHR ''&'' \<notin> set p"
      using amp by auto
    note ex = extract_frag [OF a refl]
    have e1: "extractFindingRef fragment =
        Some \<lparr>found_id = Some s, found_report = known_half r, found_workspace = known_half w\<rparr>"
      using ex(1) unfolding fr fold_simps rd read_both [OF 3(2,3,4,5)] Let_def found.simps by (simp only: option.distinct if_False)
    show ?thesis using e1 ex(2) unfolding fr 3(6,7) by blast
  qed
qed

theorem finding_ref_roundtrip_witness:
  "extractFindingRef ''#finding=a%26b&v=wx_9Z'' =
    Some \<lparr>found_id = Some ''a&b'', found_report = None, found_workspace = Some ''x_9Z''\<rparr>"
proof -
  have e: "encodeFindingRef (JStr ''a&b'') JNull (JStr ''x_9Z'') = Inr ''finding=a%26b&v=wx_9Z''" by code_simp
  have b: "length (encodeURIComponent ''a&b'') \<le> MAX_FINDING_ID_LENGTH * 3" by code_simp
  have h: "hint_read JNull = None" "hint_read (JStr ''x_9Z'') = Some ''x_9Z''" by code_simp+
  have s: "''#'' @ ''finding=a%26b&v=wx_9Z'' = ''#finding=a%26b&v=wx_9Z''" by simp
  show ?thesis using finding_ref_roundtrip [OF e b, unfolded s h] by (elim conjE) (rule trans)
qed

text \<open>Whatever text a hash holds, an id that is read out of it is one a link may carry:
  not empty, at most 512 characters, no control character, not session-local, and the two
  hints are four-character tokens other than the filler.\<close>

theorem extractFindingRef_safe:
  "case extractFindingRef raw of None \<Rightarrow> True | Some found \<Rightarrow>
     (\<exists>s. found_id found = Some s \<and> isLinkableFindingId (JStr s))
     \<and> (case found_report found of None \<Rightarrow> True | Some h \<Rightarrow> isLinkHint (JStr h) \<and> h \<noteq> NO_HINT)
     \<and> (case found_workspace found of None \<Rightarrow> True | Some h \<Rightarrow> isLinkHint (JStr h) \<and> h \<noteq> NO_HINT)"
proof -
  define good where "good (f :: found) = ((case found_id f of None \<Rightarrow> True | Some s \<Rightarrow> isLinkableFindingId (JStr s))
     \<and> (case found_report f of None \<Rightarrow> True | Some h \<Rightarrow> isLinkHint (JStr h) \<and> h \<noteq> NO_HINT)
     \<and> (case found_workspace f of None \<Rightarrow> True | Some h \<Rightarrow> isLinkHint (JStr h) \<and> h \<noteq> NO_HINT))" for f :: found
  have half: "case known_half h of None \<Rightarrow> True | Some h \<Rightarrow> isLinkHint (JStr h) \<and> h \<noteq> NO_HINT"
    if "length h = 4" "list_all hint_char h" for h using that by (simp add: known_half_def)
  have step: "good (read_part p f)" if g: "good f" for p and f :: found
    using read_part_cases [of p f]
  proof (elim disjE exE conjE)
    show "good (read_part p f)" if "read_part p f = f" using g that by simp
    show "good (read_part p f)" if "length w = 4" "list_all hint_char w"
      "read_part p f = f\<lparr>found_report := None, found_workspace := known_half w\<rparr>" for w
      using g half [OF that(1,2)] unfolding that(3) good_def by simp
    show "good (read_part p f)" if "length r = 4" "list_all hint_char r" "length w = 4" "list_all hint_char w"
      "read_part p f = f\<lparr>found_report := known_half r, found_workspace := known_half w\<rparr>" for r w
      using g half [OF that(1,2)] half [OF that(3,4)] unfolding that(5) good_def by simp
    show "good (read_part p f)" if "isLinkableFindingId (JStr s)" "read_part p f = f\<lparr>found_id := Some s\<rparr>" for s
      using g that(1) unfolding that(2) good_def by simp
  qed
  have "good (fold read_part ps \<lparr>found_id = None, found_report = None, found_workspace = None\<rparr>)" for ps
    by (rule fold_invariant) (auto simp: step, simp add: good_def)
  note g = this [of "split_on CHR ''&'' (strip_hash raw)"]
  show ?thesis
  proof (cases "extractFindingRef raw")
    case (Some f)
    then have "good f" "found_id f \<noteq> None" using g by (auto simp: extractFindingRef_def Let_def split: if_splits)
    with Some show ?thesis by (auto simp: good_def)
  qed simp
qed

text \<open>The reader's bound on the encoded id assumes an expansion of at most three to one;
  a character from 128 on takes six. An id of 300 such characters is offered a link that
  its own reader drops.\<close>

theorem long_encoded_id_dropped:
  defines "s \<equiv> replicate 300 (CHR 0xE9)"
  shows "isLinkableFindingId (JStr s)
    \<and> encodeFindingRef (JStr s) JNull JNull = Inr (''finding='' @ encodeURIComponent s)
    \<and> extractFindingRef (''finding='' @ encodeURIComponent s) = None"
proof -
  have c: "\<not> (code (CHR 0xE9) < 32 \<or> code (CHR 0xE9) = 127)" "\<not> is_digit (CHR 0xE9)"
    "length (encode_char (CHR 0xE9)) = 6" by code_simp+
  have r: "list_ex P (replicate n x) = (n > 0 \<and> P x)" "list_all P (replicate n x) = (n > 0 \<longrightarrow> P x)" for P n and x :: char
    by (induction n) auto
  have lk: "isLinkableFindingId (JStr s)"
    unfolding isLinkableFindingId_def isUsablePart.simps hasControlChar_def all_digits_def jsval.case s_def
      MAX_FINDING_ID_LENGTH_def r length_replicate using c by simp
  have p: "packLinkHints JNull JNull = Inr None" by code_simp
  have e: "encodeFindingRef (JStr s) JNull JNull = Inr (''finding='' @ encodeURIComponent s)"
    using lk p by (simp add: encodeFindingRef_def)
  have "length (encodeURIComponent (replicate n (CHR 0xE9))) = 6 * n" for n
    by (induction n) (simp_all add: encodeURIComponent_def c(3))
  then have len: "length (encodeURIComponent s) = 1800" unfolding s_def by simp
  then have "read_part (''finding='' @ encodeURIComponent s) f = f" for f
    by (cases "encodeURIComponent s = []") (simp_all add: read_part_def MAX_FINDING_ID_LENGTH_def Let_def)
  then have "extractFindingRef (''finding='' @ encodeURIComponent s) = None"
    using extract_frag(1) [OF _ refl, of "encodeURIComponent s" "[]"] encode_no_amp [of s] by (simp add: Let_def)
  with lk e show ?thesis by blast
qed

text \<open>The link builder, which cannot wait, finds every hint that has been computed: the
  cache then answers with the token the computation gave, keeps every other answer, and
  hashes report and workspace names in separate domains.\<close>

theorem computed_hint_known:
  "case computeLinkHint digest kind value cache of (cache', token) \<Rightarrow>
     knownLinkHint kind value cache' = token
     \<and> (\<forall>k v. (k, v) \<noteq> (kind, value) \<longrightarrow> knownLinkHint k v cache' = knownLinkHint k v cache)
     \<and> (token = None \<longrightarrow> cache' = cache)
     \<and> hint_domain ReportHint @ value \<noteq> hint_domain WorkspaceHint @ value"
  by (auto simp: computeLinkHint_def knownLinkHint_def hint_domain_def split: option.splits)

end
