(* ===== verification/LinkedFindings.thy ===== *)
theory LinkedFindings
  imports FindingLink
begin

text \<open>
  The links files (\<^verbatim>\<open>src/client/linked-findings.js\<close>): what is recognised as
  one, what it says, and the map from a finding to its duplicates. \<open>JSON.parse\<close>
  is a parameter: a text gives a value or fails.
\<close>

section \<open>Links files\<close>

fun entryId :: "jsval \<Rightarrow> string option" where
  "entryId (JStr s) = (if s \<noteq> [] then Some s else None)"
| "entryId (JObj fs) = (case js_field (JObj fs) ''id'' of
     JStr s \<Rightarrow> if s \<noteq> [] then Some s else None
   | _ \<Rightarrow> None)"
| "entryId _ = None"

record parsed_links =
  link_groups :: "string list list"
  link_skipped :: nat

text \<open>The ids of one link so far and the count of skipped ones; \<open>None\<close> refuses the file.\<close>

fun read_link :: "jsval list \<Rightarrow> string list \<Rightarrow> nat \<Rightarrow> (string list \<times> nat) option" where
  "read_link [] ids n = Some (ids, n)"
| "read_link (e # es) ids n = (case entryId e of
     None \<Rightarrow> None
   | Some i \<Rightarrow> if isLinkableFindingId (JStr i) then read_link es (set_add ids i) n
       else read_link es ids (n + 1))"

fun read_links :: "jsval list \<Rightarrow> parsed_links \<Rightarrow> parsed_links option" where
  "read_links [] p = Some p"
| "read_links (JArr raw # rest) p = (case read_link raw [] (link_skipped p) of
     None \<Rightarrow> None
   | Some (ids, n) \<Rightarrow>
       read_links rest (p\<lparr>link_groups := (if length ids > 1 then link_groups p @ [ids] else link_groups p), link_skipped := n\<rparr>))"
| "read_links (_ # rest) p = None"

definition is_space :: "char \<Rightarrow> bool" where
  "is_space c = (c = CHR '' '' \<or> 9 \<le> code c \<and> code c \<le> 13 \<or> code c = 160)"

definition opens_array :: "string \<Rightarrow> bool" where
  "opens_array content = (case dropWhile is_space content of x # _ \<Rightarrow> x = CHR ''['' | [] \<Rightarrow> False)"

definition parseLinkedFindings :: "(string \<Rightarrow> jsval option) \<Rightarrow> string \<Rightarrow> parsed_links option" where
  "parseLinkedFindings parseJson content =
     (if \<not> opens_array content then None
      else case parseJson content of
        Some (JArr data) \<Rightarrow> if data = [] then None else read_links data \<lparr>link_groups = [], link_skipped = 0\<rparr>
      | _ \<Rightarrow> None)"

definition countLinkedIds :: "string list list \<Rightarrow> nat" where
  "countLinkedIds gs = length (foldl (\<lambda>ids g. foldl set_add ids g) [] gs)"

type_synonym duplicates = "(string, string list) jsmap"

definition others :: "string \<Rightarrow> string list \<Rightarrow> string list" where
  "others i link = filter (\<lambda>x. x \<noteq> i) link"

definition collect_id :: "string list \<Rightarrow> string \<Rightarrow> duplicates \<Rightarrow> duplicates" where
  "collect_id link i index =
     map_set i (foldl set_add (case map_of index i of None \<Rightarrow> [] | Some s \<Rightarrow> s) (others i link)) index"

definition collectDuplicates :: "string list list \<Rightarrow> duplicates \<Rightarrow> duplicates" where
  "collectDuplicates gs index = fold (\<lambda>link. fold (collect_id link) link) gs index"

section \<open>What links say\<close>

definition dups :: "duplicates \<Rightarrow> string \<Rightarrow> string list" where
  "dups index i = (case map_of index i of None \<Rightarrow> [] | Some s \<Rightarrow> s)"

lemma set_others: "set (others i g) = set g - {i}"
  by (auto simp: others_def)

lemma dups_collect_id:
  "set (dups (collect_id g i index) j) = (if j = i then set (dups index i) \<union> (set g - {i}) else set (dups index j))"
  by (auto simp: dups_def collect_id_def foldl_set_add_set set_others split: option.splits)

lemma dups_collect_ids:
  "set (dups (fold (collect_id g) is index) j) =
    set (dups index j) \<union> (if j \<in> set is then set g - {j} else {})"
  by (induction "is" arbitrary: index) (auto simp: dups_collect_id)

lemma dups_collect:
  "set (dups (collectDuplicates gs index) j) =
    set (dups index j) \<union> {k. k \<noteq> j \<and> (\<exists>g \<in> set gs. j \<in> set g \<and> k \<in> set g)}"
proof (induction gs arbitrary: index)
  case (Cons g gs)
  have "collectDuplicates (g # gs) index = collectDuplicates gs (fold (collect_id g) g index)"
    by (simp add: collectDuplicates_def)
  with Cons show ?case by (auto simp: dups_collect_ids)
qed (simp add: collectDuplicates_def)

lemma distinct_dups_collect:
  "(\<And>i. distinct (dups index i)) \<Longrightarrow> distinct (dups (collectDuplicates gs index) j)"
proof -
  have one: "(\<And>i. distinct (dups index i)) \<Longrightarrow> distinct (dups (collect_id g i index) j)" for g i index j
    by (auto simp: dups_def collect_id_def foldl_set_add_distinct split: option.splits if_splits)
  have many: "(\<And>i. distinct (dups index i)) \<Longrightarrow> distinct (dups (fold (collect_id g) is index) j)" for g "is" index j
    by (induction "is" arbitrary: index) (auto simp: one)
  show "(\<And>i. distinct (dups index i)) \<Longrightarrow> distinct (dups (collectDuplicates gs index) j)"
    unfolding collectDuplicates_def by (induction gs arbitrary: index) (auto simp: many)
qed

lemma read_link_ids:
  assumes "read_link es ids n = Some (ids', n')"
  shows "(distinct ids \<longrightarrow> distinct ids') \<and> n \<le> n'
    \<and> set ids' = set ids \<union> {i. Some i \<in> entryId ` set es \<and> isLinkableFindingId (JStr i)}
    \<and> None \<notin> entryId ` set es
    \<and> n' = n + length (filter (\<lambda>e. \<not> isLinkableFindingId (JStr (the (entryId e)))) es)"
  using assms
proof (induction es arbitrary: ids n)
  case (Cons e es)
  then obtain i where i: "entryId e = Some i" by (auto split: option.splits)
  show ?case
  proof (cases "isLinkableFindingId (JStr i)")
    case True
    with Cons i show ?thesis by (auto dest!: Cons.IH)
  next
    case False
    with Cons.prems i have "read_link es ids (n + 1) = Some (ids', n')" by simp
    from Cons.IH [OF this] False i show ?thesis by auto
  qed
qed simp

definition link_ok :: "string list \<Rightarrow> bool" where
  "link_ok g = (distinct g \<and> length g > 1 \<and> list_all (\<lambda>i. isLinkableFindingId (JStr i)) g)"

lemma read_links_ok:
  "read_links data p = Some p' \<Longrightarrow> list_all link_ok (link_groups p) \<Longrightarrow> list_all link_ok (link_groups p')"
proof (induction data p rule: read_links.induct)
  case (2 raw rest p)
  then obtain ids n where r: "read_link raw [] (link_skipped p) = Some (ids, n)" by (auto split: option.splits)
  from read_link_ids [OF r] have "length ids > 1 \<Longrightarrow> link_ok ids" by (auto simp: link_ok_def list_all_iff)
  with 2 r show ?case by (auto split: if_splits)
qed simp_all

lemma length_countLinkedIds: "countLinkedIds gs = card (\<Union> (set ` set gs))"
proof -
  have d: "distinct acc \<Longrightarrow> distinct (foldl (\<lambda>ids g. foldl set_add ids g) acc gs)
      \<and> set (foldl (\<lambda>ids g. foldl set_add ids g) acc gs) = set acc \<union> \<Union> (set ` set gs)" for acc gs
    by (induction gs arbitrary: acc) (auto simp: foldl_set_add_set foldl_set_add_distinct)
  from d [of "[]" gs] show ?thesis by (metis countLinkedIds_def distinct.simps(1) distinct_card empty_set sup_bot_left)
qed

section \<open>Properties\<close>

text \<open>What is recognised as a links file holds only links worth following: each link
  kept names at least two different findings, all of them persistent ids, and the badge
  counts every finding named by some link once.\<close>

theorem parseLinkedFindings_ok:
  "case parseLinkedFindings parseJson content of None \<Rightarrow> True | Some p \<Rightarrow>
     list_all link_ok (link_groups p) \<and> countLinkedIds (link_groups p) = card {i. \<exists>g \<in> set (link_groups p). i \<in> set g}"
proof (cases "parseLinkedFindings parseJson content")
  case (Some p)
  then obtain data where "read_links data \<lparr>link_groups = [], link_skipped = 0\<rparr> = Some p"
    by (auto simp: parseLinkedFindings_def split: if_splits option.splits jsval.splits)
  then have "list_all link_ok (link_groups p)" by (rule read_links_ok) simp
  moreover have "\<Union> (set ` set (link_groups p)) = {i. \<exists>g \<in> set (link_groups p). i \<in> set g}" by auto
  ultimately show ?thesis using Some by (simp add: length_countLinkedIds)
qed simp

text \<open>Folding links into a duplicates index adds exactly the pairs of different findings
  some link names together, in both directions, and nothing inferred from two links that
  share a finding; a second fold of the same links changes no answer.\<close>

theorem collectDuplicates_pairs:
  "(k \<in> set (dups (collectDuplicates gs []) i) \<longleftrightarrow> k \<noteq> i \<and> (\<exists>g \<in> set gs. i \<in> set g \<and> k \<in> set g))
   \<and> (k \<in> set (dups (collectDuplicates gs []) i) \<longleftrightarrow> i \<in> set (dups (collectDuplicates gs []) k))
   \<and> set (dups (collectDuplicates gs (collectDuplicates gs [])) i) = set (dups (collectDuplicates gs []) i)"
  by (auto simp: dups_collect dups_def [of "[]"])

end
