(* ===== verification/FileCounts.thy ===== *)
theory FileCounts
  imports LinkedFindings
begin

text \<open>
  The cache of row counts and file kinds the sidebar shows
  (\<^verbatim>\<open>src/client/counts.js\<close>): the versioned blob, reads and writes of an entry,
  and the background walk that fills it, at most one at a time, while ingests
  write to the same cache. \<open>analyzeReport\<close> of \<open>@preventive/report\<close> is a
  parameter: a count and a source marker, or nothing where it throws.
\<close>

section \<open>The blob\<close>

definition COUNTS_VERSION :: int where
  "COUNTS_VERSION = 4"

definition COMPATIBLE_VERSIONS :: "jsval list" where
  "COMPATIBLE_VERSIONS = [JNum 3, JNum COUNTS_VERSION]"

type_synonym counts = "(string, jsval) jsmap"

text \<open>The parsed stored text: \<open>None\<close> where there is none or it does not parse.\<close>

definition load_counts :: "jsval option \<Rightarrow> counts" where
  "load_counts stored = (let data = (case stored of None \<Rightarrow> JObj [] | Some v \<Rightarrow> v) in
     if js_field data ''__v'' \<in> set COMPATIBLE_VERSIONS
     then (case data of JObj fs \<Rightarrow> map_set ''__v'' (JNum COUNTS_VERSION) fs | _ \<Rightarrow> [])
     else [(''__v'', JNum COUNTS_VERSION)])"

text \<open>\<open>JUndef\<close> for no entry.\<close>

definition entryOf :: "counts \<Rightarrow> string \<Rightarrow> jsval" where
  "entryOf c name =
     (if name = ''__v'' then JUndef
      else case map_of c name of
        None \<Rightarrow> JUndef
      | Some (JNum n) \<Rightarrow> JObj [(''count'', JNum n)]
      | Some v \<Rightarrow> v)"

definition getCount :: "counts \<Rightarrow> string \<Rightarrow> jsval" where
  "getCount c name = js_field (entryOf c name) ''count''"

definition getKind :: "counts \<Rightarrow> string \<Rightarrow> jsval" where
  "getKind c name = js_field (entryOf c name) ''source''"

definition setCount :: "string \<Rightarrow> jsval \<Rightarrow> jsval \<Rightarrow> counts \<Rightarrow> counts" where
  "setCount name count source c =
     map_set name (JObj [(''count'', count), (''source'', coalesce source JNull)]) c"

definition removeCount :: "string \<Rightarrow> counts \<Rightarrow> counts" where
  "removeCount name c = map_del name c"

definition LINKS_KIND :: string where
  "LINKS_KIND = ''links''"

text \<open>A count and a source; \<open>None\<close> where the report reader throws.\<close>

definition analyzeContent ::
    "(string \<Rightarrow> jsval option) \<Rightarrow> (string \<Rightarrow> (jsval \<times> jsval) option) \<Rightarrow> string \<Rightarrow> (jsval \<times> jsval) option" where
  "analyzeContent parseJson analyzeReport content = (case parseLinkedFindings parseJson content of
     Some links \<Rightarrow> Some (JNum (int (countLinkedIds (link_groups links))), JStr LINKS_KIND)
   | None \<Rightarrow> analyzeReport content)"

section \<open>The walk\<close>

text \<open>
  The state shared by all callers: the cache, the names still to do, the
  callbacks with the names each asked about, the name being read, and, for the
  record, which callback was told about which file.
\<close>

record walk =
  w_cache :: counts
  w_active :: bool
  w_pending :: "string list"
  w_callbacks :: "(string list \<times> nat) list"
  w_reading :: "string option"
  w_fired :: "(nat \<times> string \<times> jsval) list"

definition ensureCounts :: "string list \<Rightarrow> nat option \<Rightarrow> walk \<Rightarrow> walk" where
  "ensureCounts names cb w =
     (let cbs = (case cb of None \<Rightarrow> [] | Some k \<Rightarrow> [(js_set names, k)]) in
      if w_active w
      then w\<lparr>w_callbacks := w_callbacks w @ cbs, w_pending := foldl set_add (w_pending w) names\<rparr>
      else w\<lparr>w_pending := js_set names, w_callbacks := cbs, w_active := True, w_reading := None\<rparr>)"

definition fireCallbacksFor :: "string \<Rightarrow> jsval \<Rightarrow> walk \<Rightarrow> walk" where
  "fireCallbacksFor name count w =
     w\<lparr>w_fired := w_fired w @ map (\<lambda>(ns, k). (k, name, count)) (filter (\<lambda>(ns, k). name \<in> set ns) (w_callbacks w))\<rparr>"

text \<open>The loop up to the read: take the first pending name; a cached one is done.\<close>

definition walk_pick :: "walk \<Rightarrow> walk" where
  "walk_pick w = (case w_pending w of
     [] \<Rightarrow> w\<lparr>w_active := False, w_callbacks := []\<rparr>
   | n # ns \<Rightarrow> w\<lparr>w_pending := ns, w_reading := (if map_has (w_cache w) n then None else Some n)\<rparr>)"

text \<open>The rest of the iteration, once the read has given its content, or nothing.\<close>

definition walk_read ::
    "(string \<Rightarrow> jsval option) \<Rightarrow> (string \<Rightarrow> (jsval \<times> jsval) option) \<Rightarrow> string \<Rightarrow> string option \<Rightarrow> walk \<Rightarrow> walk" where
  "walk_read parseJson analyzeReport n content w =
     (let w1 = w\<lparr>w_reading := None\<rparr> in case content of
        None \<Rightarrow> w1
      | Some text \<Rightarrow>
          if map_has (w_cache w) n then w1
          else case analyzeContent parseJson analyzeReport text of
            None \<Rightarrow> w1
          | Some (count, source) \<Rightarrow>
              fireCallbacksFor n count (w1\<lparr>w_cache := map_set n (if truthy source
                then JObj [(''count'', count), (''source'', source)]
                else JObj [(''count'', count)]) (w_cache w)\<rparr>))"

inductive walk_step ::
    "(string \<Rightarrow> jsval option) \<Rightarrow> (string \<Rightarrow> (jsval \<times> jsval) option) \<Rightarrow> walk \<Rightarrow> walk \<Rightarrow> bool"
  for parseJson analyzeReport where
  asked: "walk_step parseJson analyzeReport w (ensureCounts names cb w)"
| picked: "w_active w \<Longrightarrow> w_reading w = None \<Longrightarrow> walk_step parseJson analyzeReport w (walk_pick w)"
| was_read: "w_reading w = Some n \<Longrightarrow> walk_step parseJson analyzeReport w (walk_read parseJson analyzeReport n content w)"
| ingested: "walk_step parseJson analyzeReport w (w\<lparr>w_cache := setCount n count source (w_cache w)\<rparr>)"

section \<open>Lemmas\<close>

lemma fire_fields [simp]:
  "w_cache (fireCallbacksFor n c w) = w_cache w" "w_active (fireCallbacksFor n c w) = w_active w"
  "w_pending (fireCallbacksFor n c w) = w_pending w" "w_callbacks (fireCallbacksFor n c w) = w_callbacks w"
  "w_reading (fireCallbacksFor n c w) = w_reading w"
  by (simp_all add: fireCallbacksFor_def)

text \<open>
  One run seen from a name asked for during it: still pending, being read, or
  done (in the cache, or its read came to nothing).
\<close>

definition queued :: "string \<Rightarrow> walk \<Rightarrow> bool" where
  "queued n w = (n \<in> set (w_pending w) \<or> w_reading w = Some n)"

lemma walk_read_cache:
  "walk_read pj ar n content w = w' \<Longrightarrow> m \<noteq> n \<or> map_has (w_cache w) m \<Longrightarrow>
    map_of (w_cache w') m = map_of (w_cache w) m"
  by (auto simp: walk_read_def Let_def split: option.splits prod.splits if_splits)

lemma walk_keeps_cached:
  assumes "walk_step pj ar w w'" and "map_of (w_cache w) m = Some v"
  shows "map_of (w_cache w') m = Some v \<or> (\<exists>c s. w' = w\<lparr>w_cache := setCount m c s (w_cache w)\<rparr>)"
  using assms(1)
proof cases
  case (asked names cb)
  then show ?thesis using assms(2) by (auto simp: ensureCounts_def Let_def)
next
  case picked
  then show ?thesis using assms(2) by (auto simp: walk_pick_def split: list.splits)
next
  case (was_read n content)
  have "map_has (w_cache w) m" using assms(2) by (simp add: map_has_def del: map_has_iff)
  then have "map_of (w_cache w') m = map_of (w_cache w) m"
    using walk_read_cache [OF was_read(1) [symmetric], of m] by blast
  with assms(2) show ?thesis by simp
next
  case (ingested n c s)
  then show ?thesis using assms(2) by (cases "n = m") (auto simp: setCount_def)
qed

text \<open>An inactive walk has nothing left to do.\<close>

definition walk_ok :: "walk \<Rightarrow> bool" where
  "walk_ok w = (\<not> w_active w \<longrightarrow> w_pending w = [] \<and> w_reading w = None)"

lemma walk_read_other [simp]:
  "w_active (walk_read pj ar n content w) = w_active w" "w_pending (walk_read pj ar n content w) = w_pending w"
  "w_reading (walk_read pj ar n content w) = None"
  by (simp_all add: walk_read_def Let_def split: option.splits prod.splits)

lemma walk_ok_step: "walk_step pj ar w w' \<Longrightarrow> walk_ok w \<Longrightarrow> walk_ok w'"
  by (erule walk_step.cases) (auto simp: walk_ok_def ensureCounts_def walk_pick_def Let_def split: list.splits)

definition unread :: "(string \<Rightarrow> jsval option) \<Rightarrow> (string \<Rightarrow> (jsval \<times> jsval) option) \<Rightarrow> string option \<Rightarrow> bool" where
  "unread pj ar content = (case content of None \<Rightarrow> True | Some t \<Rightarrow> analyzeContent pj ar t = None)"

lemma walk_queued_step:
  assumes "walk_step pj ar w w'" and "walk_ok w" and "queued n w"
  shows "queued n w' \<or> map_has (w_cache w') n
    \<or> (\<exists>content. w_reading w = Some n \<and> w' = walk_read pj ar n content w \<and> unread pj ar content)"
  using assms(1)
proof cases
  case (asked names cb)
  then show ?thesis using assms(2,3)
    by (cases "w_active w") (auto simp: ensureCounts_def Let_def queued_def walk_ok_def foldl_set_add_set)
next
  case picked
  then show ?thesis using assms(3) by (auto simp: walk_pick_def queued_def split: list.splits)
next
  case (was_read m content)
  show ?thesis
  proof (cases "m = n")
    case False
    then show ?thesis using was_read assms(3) by (auto simp: queued_def)
  next
    case True
    show ?thesis
    proof (cases "unread pj ar content")
      case True
      with was_read \<open>m = n\<close> show ?thesis by blast
    next
      case False
      then obtain t c src where c: "content = Some t" "analyzeContent pj ar t = Some (c, src)"
        by (auto simp: unread_def split: option.splits)
      have "map_has (w_cache w') n"
        using was_read(1) \<open>m = n\<close> c by (cases "map_has (w_cache w) n") (auto simp: walk_read_def Let_def dom_update)
      then show ?thesis by blast
    qed
  qed
next
  case (ingested m c s)
  then show ?thesis using assms(3) by (auto simp: queued_def)
qed

lemma cached_step:
  assumes "walk_step pj ar w w'" and "map_has (w_cache w) n"
  shows "map_has (w_cache w') n"
proof -
  obtain v where "map_of (w_cache w) n = Some v" using assms(2) by (auto simp: map_has_def simp del: map_has_iff)
  from walk_keeps_cached [OF assms(1) this] show ?thesis
    by (auto simp: map_has_def setCount_def simp del: map_has_iff)
qed

lemma cached_run:
  assumes "(walk_step pj ar)\<^sup>*\<^sup>* w w'" and "map_has (w_cache w) n"
  shows "map_has (w_cache w') n"
  using assms by (induction rule: rtranclp_induct) (auto intro: cached_step simp del: map_has_iff)

section \<open>Properties\<close>

text \<open>The cache answers what was last written: a written file's count and kind, where a
  missing source reads as \<open>null\<close> (analyzed, no producer), nothing after a removal, and
  every other file as before; the version marker is no file.\<close>

theorem counts_lookup:
  "getCount (setCount n count source c) m = (if m = n \<and> n \<noteq> ''__v'' then count else getCount c m)
    \<and> getKind (setCount n count source c) m = (if m = n \<and> n \<noteq> ''__v'' then coalesce source JNull else getKind c m)
    \<and> getCount (removeCount n c) m = (if m = n then JUndef else getCount c m)
    \<and> getKind (removeCount n c) m = (if m = n then JUndef else getKind c m)"
  by (auto simp: getCount_def getKind_def setCount_def removeCount_def entryOf_def)

text \<open>A stored blob is read as it is under either live version marker, and is empty
  under any other; what is read is stamped with the current version, so writing it back
  and reading it again changes nothing.\<close>

theorem counts_version:
  "(js_field (JObj fs) ''__v'' \<in> {JNum 3, JNum 4} \<longrightarrow>
      (\<forall>n. entryOf (load_counts (Some (JObj fs))) n = entryOf fs n))
    \<and> (js_field (JObj fs) ''__v'' \<notin> {JNum 3, JNum 4} \<longrightarrow> (\<forall>n. entryOf (load_counts (Some (JObj fs))) n = JUndef))
    \<and> js_field (JObj (load_counts stored)) ''__v'' = JNum COUNTS_VERSION
    \<and> (\<forall>n. entryOf (load_counts (Some (JObj (load_counts stored)))) n = entryOf (load_counts stored) n)"
proof -
  have v: "js_field (JObj (load_counts stored)) ''__v'' = JNum COUNTS_VERSION" for stored
    by (auto simp: load_counts_def Let_def COMPATIBLE_VERSIONS_def split: option.splits jsval.splits)
  have keep: "js_field (JObj fs) ''__v'' \<in> {JNum 3, JNum 4} \<Longrightarrow>
      entryOf (load_counts (Some (JObj fs))) n = entryOf fs n" for fs n
    by (auto simp: load_counts_def Let_def COMPATIBLE_VERSIONS_def COUNTS_VERSION_def entryOf_def)
  have drop: "js_field (JObj fs) ''__v'' \<notin> {JNum 3, JNum 4} \<Longrightarrow>
      entryOf (load_counts (Some (JObj fs))) n = JUndef" for fs n
    by (auto simp: load_counts_def Let_def COMPATIBLE_VERSIONS_def COUNTS_VERSION_def entryOf_def)
  show ?thesis using v keep drop by (simp add: COUNTS_VERSION_def)
qed

theorem counts_version_witness:
  "getCount (load_counts (Some (JObj [(''a.json'', JNum 5), (''__v'', JNum 3)]))) ''a.json'' = JNum 5"
proof -
  have "js_field (JObj [(''a.json'', JNum 5), (''__v'', JNum 3)]) ''__v'' \<in> {JNum 3, JNum 4}" by simp
  then have "entryOf (load_counts (Some (JObj [(''a.json'', JNum 5), (''__v'', JNum 3)]))) ''a.json''
      = entryOf [(''a.json'', JNum 5), (''__v'', JNum 3)] ''a.json''"
    using counts_version [of "[(''a.json'', JNum 5), (''__v'', JNum 3)]" None] by blast
  then show ?thesis by (simp add: getCount_def entryOf_def)
qed

text \<open>The background walk forgets no name and overwrites no fresher answer: a name asked
  for in a run is, whatever calls and ingests interleave, still queued, in the cache, or was
  read in that run without giving a count; so when the run ends it is one of the last two;
  and an entry already cached changes only by an ingest of that very file.\<close>

theorem walk_answers_every_name:
  assumes "walk_ok w" and "queued n w" and "(walk_step parseJson analyzeReport)\<^sup>*\<^sup>* w w'"
  shows "(w_active w' \<and> queued n w') \<or> map_has (w_cache w') n
    \<or> (\<exists>a content. (walk_step parseJson analyzeReport)\<^sup>*\<^sup>* w a \<and> w_reading a = Some n
        \<and> unread parseJson analyzeReport content
        \<and> (walk_step parseJson analyzeReport)\<^sup>*\<^sup>* (walk_read parseJson analyzeReport n content a) w')"
proof -
  have "walk_ok w' \<and> (queued n w' \<or> map_has (w_cache w') n
    \<or> (\<exists>a content. (walk_step parseJson analyzeReport)\<^sup>*\<^sup>* w a \<and> w_reading a = Some n
        \<and> unread parseJson analyzeReport content
        \<and> (walk_step parseJson analyzeReport)\<^sup>*\<^sup>* (walk_read parseJson analyzeReport n content a) w'))"
    using assms(3)
  proof (induction rule: rtranclp_induct)
    case base
    then show ?case using assms(1,2) by blast
  next
    case (step y z)
    from step.IH have ok: "walk_ok y" by blast
    from step.IH consider "queued n y" | "map_has (w_cache y) n"
      | a content where "(walk_step parseJson analyzeReport)\<^sup>*\<^sup>* w a" "w_reading a = Some n"
          "unread parseJson analyzeReport content"
          "(walk_step parseJson analyzeReport)\<^sup>*\<^sup>* (walk_read parseJson analyzeReport n content a) y" by blast
    then show ?case
    proof cases
      case 1
      from walk_queued_step [OF step.hyps(2) ok 1] walk_ok_step [OF step.hyps(2) ok] step.hyps(1)
      show ?thesis by (metis (no_types, lifting) rtranclp.rtrancl_refl)
    next
      case 2
      from cached_step [OF step.hyps(2) 2] walk_ok_step [OF step.hyps(2) ok] show ?thesis by blast
    next
      case 3
      from 3 step.hyps(2) walk_ok_step [OF step.hyps(2) ok] show ?thesis by (metis rtranclp.rtrancl_into_rtrancl)
    qed
  qed
  moreover have "walk_ok w' \<Longrightarrow> queued n w' \<Longrightarrow> w_active w'" by (auto simp: walk_ok_def queued_def)
  ultimately show ?thesis by blast
qed

definition idle_walk :: walk where
  "idle_walk = \<lparr>w_cache = [], w_active = False, w_pending = [], w_callbacks = [], w_reading = None, w_fired = []\<rparr>"

theorem walk_answers_every_name_witness:
  "let w = ensureCounts [''a''] None idle_walk in w_active w \<and> queued ''a'' w"
proof -
  let ?w = "ensureCounts [''a''] None idle_walk"
  have ok: "walk_ok ?w" and q: "queued ''a'' ?w" by code_simp+
  have c: "\<not> map_has (w_cache ?w) ''a''" by code_simp
  have "(w_active ?w \<and> queued ''a'' ?w) \<or> map_has (w_cache ?w) ''a''
    \<or> (\<exists>a content. (walk_step (\<lambda>_. None) (\<lambda>_. None))\<^sup>*\<^sup>* ?w a \<and> w_reading a = Some ''a''
        \<and> unread (\<lambda>_. None) (\<lambda>_. None) content
        \<and> (walk_step (\<lambda>_. None) (\<lambda>_. None))\<^sup>*\<^sup>* (walk_read (\<lambda>_. None) (\<lambda>_. None) ''a'' content a) ?w)"
    by (rule walk_answers_every_name [OF ok q rtranclp.rtrancl_refl])
  moreover have "w_active ?w" by code_simp
  ultimately show ?thesis using q by (simp add: Let_def)
qed

text \<open>When a file's count lands, exactly the callers that asked about that file are told,
  each with the count just cached, and a file that was cached meanwhile is left alone.\<close>

theorem walk_read_notifies:
  "let w' = walk_read parseJson analyzeReport n content w in
    (if map_has (w_cache w) n \<or> unread parseJson analyzeReport content
     then w_cache w' = w_cache w \<and> w_fired w' = w_fired w
     else \<exists>count. getCount (w_cache w') n = (if n = ''__v'' then JUndef else count)
       \<and> w_fired w' = w_fired w @ map (\<lambda>(ns, k). (k, n, count)) (filter (\<lambda>(ns, k). n \<in> set ns) (w_callbacks w))
       \<and> (\<forall>m. m \<noteq> n \<longrightarrow> map_of (w_cache w') m = map_of (w_cache w) m))"
  by (auto simp: walk_read_def Let_def unread_def fireCallbacksFor_def getCount_def entryOf_def
      split: option.splits prod.splits)

text \<open>A report without a producer is cached with the source \<open>null\<close> by an ingest and
  with no source by the background walk, so its kind then reads as of a file nothing has
  looked at.\<close>

theorem lazy_fill_kind_unknown:
  "getKind (setCount ''a.json'' (JNum 2) JUndef []) ''a.json'' = JNull
    \<and> getKind (w_cache (walk_read (\<lambda>_. None) (\<lambda>_. Some (JNum 2, JUndef)) ''a.json'' (Some ''{}'') idle_walk)) ''a.json''
      = JUndef"
  by code_simp

end
