(* ===== verification/LinkedIndex.thy ===== *)
theory LinkedIndex
  imports FileCounts
begin

text \<open>
  The index over the links files in storage
  (\<^verbatim>\<open>src/client/linked-findings-index.js\<close>), as a state machine: the run over
  the files already known to be links, the walk over all files, which waits for
  that run's file list, and the notices of writes and deletes, which may land
  while reads are in flight. A read captures the generation of its file, and a
  notice that lands while it is in flight makes its result unusable. Managed
  mode, where the index is bypassed, and the subscribers are left out.
\<close>

section \<open>The index\<close>

text \<open>
  \<open>ix_disk\<close> is what storage holds; \<open>ix_noticed\<close> lists writes whose mutation
  callback has not run yet. A read in flight carries its name, which run asked
  for it, the generation it captured and, once the bytes are there, the content
  it got. The fields \<open>k_*\<close> are the local variables of
  \<open>ensureKnownLinkedFindingsIndexed\<close>, \<open>a_*\<close> those of
  \<open>ensureLinkedFindingsIndexed\<close>, whose \<open>a_names\<close> is \<open>None\<close> while it
  waits for the other.
\<close>

record reading =
  rd_name :: string
  rd_walk :: bool
  rd_gen :: nat
  rd_content :: "string option"

record index =
  ix_disk :: "(string, string) jsmap"
  ix_noticed :: "string list"
  byFile :: "(string, parsed_links option) jsmap"
  byId :: duplicates
  fileGen :: "(string, nat) jsmap"
  ix_counts :: counts
  needsRescan :: bool
  ix_ready :: bool
  mutationEpoch :: nat
  ix_reads :: "reading list"
  knownRun :: bool
  k_started :: nat
  k_names :: "string list option"
  k_added :: bool
  activeRun :: bool
  a_names :: "string list option"
  a_added :: bool

definition gen_of :: "index \<Rightarrow> string \<Rightarrow> nat" where
  "gen_of s n = (case map_of (fileGen s) n of None \<Rightarrow> 0 | Some g \<Rightarrow> g)"

definition reindex :: "index \<Rightarrow> index" where
  "reindex s = s\<lparr>byId := fold (\<lambda>(_, p) m. case p of None \<Rightarrow> m | Some p \<Rightarrow> collectDuplicates (link_groups p) m) (byFile s) []\<rparr>"

definition duplicatesOf :: "index \<Rightarrow> string \<Rightarrow> string list" where
  "duplicatesOf s i = dups (byId s) i"

definition hasLinkedFindings :: "index \<Rightarrow> bool" where
  "hasLinkedFindings s = (byId s \<noteq> [])"

text \<open>\<open>onFileMutated\<close>'s callback.\<close>

definition fileMutated :: "string \<Rightarrow> index \<Rightarrow> index" where
  "fileMutated n s =
     (let wasLinks = (case map_of (byFile s) n of Some (Some _) \<Rightarrow> True | _ \<Rightarrow> False);
          s1 = s\<lparr>ix_ready := False, mutationEpoch := mutationEpoch s + 1,
                 fileGen := map_set n (gen_of s n + 1) (fileGen s),
                 needsRescan := True, byFile := map_del n (byFile s)\<rparr>
      in if wasLinks then reindex s1 else s1)"

text \<open>\<open>indexOne\<close> up to its read.\<close>

definition index_start :: "bool \<Rightarrow> string \<Rightarrow> index \<Rightarrow> index" where
  "index_start walk n s = (if map_has (byFile s) n then s
     else s\<lparr>ix_reads := ix_reads s @ [\<lparr>rd_name = n, rd_walk = walk, rd_gen = gen_of s n, rd_content = None\<rparr>]\<rparr>)"

text \<open>
  The rest of it: what it files, the correction of the cached kind, and whether
  the file is a links file; \<open>None\<close> where \<open>analyzeContent\<close> throws.
\<close>

definition index_file ::
    "(string \<Rightarrow> jsval option) \<Rightarrow> (string \<Rightarrow> (jsval \<times> jsval) option) \<Rightarrow> string \<Rightarrow> string \<Rightarrow> index \<Rightarrow> index \<times> bool option" where
  "index_file parseJson analyzeReport n content s =
     (let parsed = parseLinkedFindings parseJson content;
          s1 = s\<lparr>byFile := map_set n parsed (byFile s)\<rparr>;
          known = (getKind (ix_counts s) n = JStr LINKS_KIND)
      in case parsed of
        Some p \<Rightarrow> (if known then s1
          else s1\<lparr>ix_counts := setCount n (JNum (int (countLinkedIds (link_groups p)))) (JStr LINKS_KIND) (ix_counts s)\<rparr>,
          Some True)
      | None \<Rightarrow> if \<not> known then (s1, Some False)
          else case analyzeContent parseJson analyzeReport content of
            None \<Rightarrow> (s1, None)
          | Some (count, source) \<Rightarrow> (s1\<lparr>ix_counts := setCount n count source (ix_counts s)\<rparr>, Some False))"

definition index_finish ::
    "(string \<Rightarrow> jsval option) \<Rightarrow> (string \<Rightarrow> (jsval \<times> jsval) option) \<Rightarrow> reading \<Rightarrow> index \<Rightarrow> index \<times> bool option" where
  "index_finish parseJson analyzeReport r s =
     (let s1 = s\<lparr>ix_reads := remove1 r (ix_reads s)\<rparr> in
      case rd_content r of
        None \<Rightarrow> (s1, Some False)
      | Some content \<Rightarrow>
          if gen_of s (rd_name r) \<noteq> rd_gen r then (s1\<lparr>needsRescan := True\<rparr>, Some False)
          else index_file parseJson analyzeReport (rd_name r) content s1)"

text \<open>A run that throws ends; one that waited for it ends with it.\<close>

definition known_failed :: "index \<Rightarrow> index" where
  "known_failed s = s\<lparr>ix_ready := False, knownRun := False, k_names := None,
     activeRun := (activeRun s \<and> a_names s \<noteq> None)\<rparr>"

definition walk_failed :: "index \<Rightarrow> index" where
  "walk_failed s = s\<lparr>ix_ready := False, activeRun := False, a_names := None\<rparr>"

text \<open>A run takes note of what one of its reads gave.\<close>

definition take_result :: "bool \<Rightarrow> index \<times> bool option \<Rightarrow> index" where
  "take_result walk res = (case snd res of
     None \<Rightarrow> if walk then walk_failed (fst res) else known_failed (fst res)
   | Some added \<Rightarrow> if walk then (fst res)\<lparr>a_added := (a_added (fst res) \<or> added)\<rparr>
       else (fst res)\<lparr>k_added := (k_added (fst res) \<or> added)\<rparr>)"

text \<open>The run over known links: start of an iteration, the file list, the end of the iteration.\<close>

definition known_begin :: "index \<Rightarrow> index" where
  "known_begin s = s\<lparr>knownRun := True, k_started := mutationEpoch s, k_names := None, k_added := False\<rparr>"

definition known_listed :: "index \<Rightarrow> index" where
  "known_listed s = s\<lparr>k_names := Some (map_keys (ix_disk s)),
     ix_ready := (ix_ready s \<and> list_all (map_has (byFile s)) (map_keys (ix_disk s)))\<rparr>"

definition known_end :: "index \<Rightarrow> index" where
  "known_end s =
     (let s1 = (if k_added s then reindex s else s) in
      if k_started s \<noteq> mutationEpoch s then known_begin s1
      else s1\<lparr>knownRun := False, k_names := None,
              a_names := (if activeRun s \<and> a_names s = None then k_names s else a_names s)\<rparr>)"

text \<open>The walk: start of an iteration, and its end.\<close>

definition walk_begin :: "index \<Rightarrow> index" where
  "walk_begin s =
     (let s1 = s\<lparr>activeRun := True, needsRescan := False, a_names := None, a_added := False\<rparr>
      in if knownRun s then s1 else known_begin s1)"

definition walk_end :: "string list \<Rightarrow> index \<Rightarrow> index" where
  "walk_end ns s =
     (let s1 = s\<lparr>ix_ready := (\<not> needsRescan s \<and> list_all (map_has (byFile s)) ns)\<rparr>;
          s2 = (if a_added s then reindex s1 else s1)
      in if needsRescan s then walk_begin s2 else s2\<lparr>activeRun := False, a_names := None\<rparr>)"

inductive index_step ::
    "(string \<Rightarrow> jsval option) \<Rightarrow> (string \<Rightarrow> (jsval \<times> jsval) option) \<Rightarrow> index \<Rightarrow> index \<Rightarrow> bool"
  for parseJson analyzeReport where
  written: "index_step parseJson analyzeReport s (s\<lparr>ix_disk := map_set n c (ix_disk s), ix_noticed := n # ix_noticed s\<rparr>)"
| deleted: "index_step parseJson analyzeReport s (s\<lparr>ix_disk := map_del n (ix_disk s), ix_noticed := n # ix_noticed s\<rparr>)"
| mutated: "n \<in> set (ix_noticed s) \<Longrightarrow>
    index_step parseJson analyzeReport s (fileMutated n (s\<lparr>ix_noticed := removeAll n (ix_noticed s)\<rparr>))"
| counted: "index_step parseJson analyzeReport s (s\<lparr>ix_counts := setCount n count source (ix_counts s)\<rparr>)"
| known: "\<not> knownRun s \<Longrightarrow> index_step parseJson analyzeReport s (known_begin s)"
| walk: "\<not> activeRun s \<Longrightarrow> index_step parseJson analyzeReport s (walk_begin s)"
| listed: "knownRun s \<Longrightarrow> k_names s = None \<Longrightarrow> index_step parseJson analyzeReport s (known_listed s)"
| unlisted: "knownRun s \<Longrightarrow> k_names s = None \<Longrightarrow> index_step parseJson analyzeReport s (known_failed s)"
| known_read: "knownRun s \<Longrightarrow> k_names s = Some ns \<Longrightarrow> n \<in> set ns \<Longrightarrow> getKind (ix_counts s) n = JStr LINKS_KIND \<Longrightarrow>
    index_step parseJson analyzeReport s (index_start False n s)"
| walk_read: "activeRun s \<Longrightarrow> a_names s = Some ns \<Longrightarrow> n \<in> set ns \<Longrightarrow>
    index_step parseJson analyzeReport s (index_start True n s)"
| got: "r \<in> set (ix_reads s) \<Longrightarrow> rd_content r = None \<Longrightarrow> map_of (ix_disk s) (rd_name r) = Some c \<Longrightarrow>
    index_step parseJson analyzeReport s (s\<lparr>ix_reads := r\<lparr>rd_content := Some c\<rparr> # remove1 r (ix_reads s)\<rparr>)"
| finished: "r \<in> set (ix_reads s) \<Longrightarrow>
    index_step parseJson analyzeReport s (take_result (rd_walk r) (index_finish parseJson analyzeReport r s))"
| known_done: "knownRun s \<Longrightarrow> k_names s = Some ns \<Longrightarrow>
    index_step parseJson analyzeReport s (known_end s)"
| walk_done: "activeRun s \<Longrightarrow> a_names s = Some ns \<Longrightarrow> \<forall>r \<in> set (ix_reads s). \<not> rd_walk r \<Longrightarrow>
    index_step parseJson analyzeReport s (walk_end ns s)"

section \<open>What the index knows\<close>

definition index_start_state :: "(string, string) jsmap \<Rightarrow> counts \<Rightarrow> index" where
  "index_start_state d c = \<lparr>ix_disk = d, ix_noticed = [], byFile = [], byId = [], fileGen = [], ix_counts = c,
     needsRescan = False, ix_ready = False, mutationEpoch = 0, ix_reads = [],
     knownRun = False, k_started = 0, k_names = None, k_added = False,
     activeRun = False, a_names = None, a_added = False\<rparr>"

text \<open>
  The parts of the invariant: filed files are what storage holds, reads in
  flight that are still current got what storage holds, a file list that is
  still current covers what storage holds, and so does a ready index. A file
  with a notice outstanding is excepted throughout.
\<close>

definition settled_on :: "index \<Rightarrow> string \<Rightarrow> bool" where
  "settled_on s n = (map_of (ix_disk s) n \<noteq> None \<and> n \<notin> set (ix_noticed s))"

definition files_ok :: "(string \<Rightarrow> jsval option) \<Rightarrow> index \<Rightarrow> bool" where
  "files_ok parseJson s = (map_ok (byFile s) \<and> (\<forall>n p. n \<notin> set (ix_noticed s) \<and> map_of (byFile s) n = Some p \<longrightarrow>
     (\<exists>c. map_of (ix_disk s) n = Some c \<and> parseLinkedFindings parseJson c = p)))"

definition reads_ok :: "index \<Rightarrow> bool" where
  "reads_ok s = (\<forall>r \<in> set (ix_reads s). rd_gen r \<le> gen_of s (rd_name r)
     \<and> (\<forall>c. rd_content r = Some c \<and> rd_gen r = gen_of s (rd_name r) \<and> rd_name r \<notin> set (ix_noticed s) \<longrightarrow>
          map_of (ix_disk s) (rd_name r) = Some c))"

definition covers :: "index \<Rightarrow> string list \<Rightarrow> bool" where
  "covers s ns = (\<forall>n. settled_on s n \<longrightarrow> n \<in> set ns)"

definition lists_ok :: "index \<Rightarrow> bool" where
  "lists_ok s = (k_started s \<le> mutationEpoch s
     \<and> (\<forall>ns. k_names s = Some ns \<longrightarrow> k_started s = mutationEpoch s \<longrightarrow> covers s ns)
     \<and> (\<forall>ns. a_names s = Some ns \<longrightarrow> \<not> needsRescan s \<longrightarrow> covers s ns))"

definition ready_ok :: "index \<Rightarrow> bool" where
  "ready_ok s = (ix_ready s \<longrightarrow> covers s (map_keys (byFile s)))"

definition index_inv :: "(string \<Rightarrow> jsval option) \<Rightarrow> index \<Rightarrow> bool" where
  "index_inv parseJson s = (files_ok parseJson s \<and> reads_ok s \<and> lists_ok s \<and> ready_ok s)"

lemma reindex_fields [simp]:
  "ix_disk (reindex s) = ix_disk s" "ix_noticed (reindex s) = ix_noticed s" "byFile (reindex s) = byFile s"
  "fileGen (reindex s) = fileGen s" "ix_reads (reindex s) = ix_reads s" "a_names (reindex s) = a_names s"
  "needsRescan (reindex s) = needsRescan s" "ix_ready (reindex s) = ix_ready s" "activeRun (reindex s) = activeRun s"
  "knownRun (reindex s) = knownRun s" "k_names (reindex s) = k_names s" "k_started (reindex s) = k_started s"
  "mutationEpoch (reindex s) = mutationEpoch s" "ix_counts (reindex s) = ix_counts s"
  by (simp_all add: reindex_def)

text \<open>Each part reads only some of the fields.\<close>

lemma files_ok_cong:
  "byFile s = byFile s' \<Longrightarrow> ix_noticed s = ix_noticed s' \<Longrightarrow> ix_disk s = ix_disk s' \<Longrightarrow> files_ok pj s = files_ok pj s'"
  by (simp add: files_ok_def)

lemma gen_of_cong: "fileGen s = fileGen s' \<Longrightarrow> gen_of s = gen_of s'"
  by (simp add: gen_of_def fun_eq_iff)

lemma settled_on_cong: "ix_noticed s = ix_noticed s' \<Longrightarrow> ix_disk s = ix_disk s' \<Longrightarrow> settled_on s = settled_on s'"
  by (simp add: settled_on_def fun_eq_iff)

lemma covers_cong: "ix_noticed s = ix_noticed s' \<Longrightarrow> ix_disk s = ix_disk s' \<Longrightarrow> covers s = covers s'"
  by (simp add: covers_def fun_eq_iff settled_on_cong [of s s'])

lemma reads_ok_cong:
  assumes "ix_reads s = ix_reads s'" "fileGen s = fileGen s'" "ix_noticed s = ix_noticed s'" "ix_disk s = ix_disk s'"
  shows "reads_ok s = reads_ok s'"
  unfolding reads_ok_def gen_of_cong [OF assms(2)] by (simp only: assms)

lemma ready_ok_cong:
  assumes "byFile s = byFile s'" "ix_ready s = ix_ready s'" "ix_noticed s = ix_noticed s'" "ix_disk s = ix_disk s'"
  shows "ready_ok s = ready_ok s'"
  unfolding ready_ok_def covers_cong [OF assms(3,4)] by (simp only: assms)

lemma lists_ok_cong:
  assumes "k_started s = k_started s'" "mutationEpoch s = mutationEpoch s'" "k_names s = k_names s'" "a_names s = a_names s'"
    "needsRescan s = needsRescan s'" "ix_noticed s = ix_noticed s'" "ix_disk s = ix_disk s'"
  shows "lists_ok s = lists_ok s'"
  unfolding lists_ok_def covers_cong [OF assms(6,7)] by (simp only: assms)

lemma index_inv_reindex [simp]: "index_inv pj (reindex s) = index_inv pj s"
proof -
  have "files_ok pj (reindex s) = files_ok pj s" by (rule files_ok_cong) simp_all
  moreover have "reads_ok (reindex s) = reads_ok s" by (rule reads_ok_cong) simp_all
  moreover have "lists_ok (reindex s) = lists_ok s" by (rule lists_ok_cong) simp_all
  moreover have "ready_ok (reindex s) = ready_ok s" by (rule ready_ok_cong) simp_all
  ultimately show ?thesis by (simp add: index_inv_def)
qed

lemma inv_lists:
  assumes "index_inv pj s"
  shows "k_started s \<le> mutationEpoch s"
    and "\<And>ns. k_names s = Some ns \<Longrightarrow> k_started s = mutationEpoch s \<Longrightarrow> covers s ns"
    and "\<And>ns. a_names s = Some ns \<Longrightarrow> \<not> needsRescan s \<Longrightarrow> covers s ns"
    and "ix_ready s \<Longrightarrow> covers s (map_keys (byFile s))"
  using assms unfolding index_inv_def lists_ok_def ready_ok_def by blast+

text \<open>A step that leaves storage, notices, files and reads alone answers for the lists and readiness only.\<close>

lemma index_inv_runs:
  assumes "index_inv pj s" and eq: "ix_disk s' = ix_disk s" "ix_noticed s' = ix_noticed s" "byFile s' = byFile s"
    "fileGen s' = fileGen s" "ix_reads s' = ix_reads s" and "k_started s' \<le> mutationEpoch s'"
    and k: "\<And>ns. k_names s' = Some ns \<Longrightarrow> k_started s' = mutationEpoch s' \<Longrightarrow> covers s ns"
    and a: "\<And>ns. a_names s' = Some ns \<Longrightarrow> \<not> needsRescan s' \<Longrightarrow> covers s ns"
    and r: "ix_ready s' \<Longrightarrow> covers s (map_keys (byFile s))"
  shows "index_inv pj s'"
proof -
  have c: "covers s' = covers s" by (rule covers_cong) (simp_all add: eq)
  have "files_ok pj s' = files_ok pj s" by (rule files_ok_cong) (simp_all add: eq)
  moreover have "reads_ok s' = reads_ok s" by (rule reads_ok_cong) (simp_all add: eq)
  moreover have "lists_ok s'" unfolding lists_ok_def c using assms(7) k a by blast
  moreover have "ready_ok s'" unfolding ready_ok_def c eq using r by blast
  ultimately show ?thesis using assms(1) by (simp only: index_inv_def)
qed

lemma inv_known_begin:
  assumes "index_inv pj s"
  shows "index_inv pj (known_begin s)"
  by (rule index_inv_runs [OF assms]) (simp_all add: known_begin_def inv_lists [OF assms])

lemma inv_walk_begin:
  assumes "index_inv pj s"
  shows "index_inv pj (walk_begin s)"
proof -
  have "index_inv pj (s\<lparr>activeRun := True, needsRescan := False, a_names := None, a_added := False\<rparr>)"
    by (rule index_inv_runs [OF assms]) (simp_all add: inv_lists [OF assms])
  then show ?thesis by (simp add: walk_begin_def Let_def inv_known_begin)
qed

lemma covers_disk: "covers s (map_keys (ix_disk s))"
  by (auto simp: covers_def settled_on_def map_of_eq_None_iff)

lemma inv_known_listed:
  assumes "index_inv pj s"
  shows "index_inv pj (known_listed s)"
  by (rule index_inv_runs [OF assms]) (use covers_disk in \<open>auto simp: known_listed_def inv_lists [OF assms]\<close>)

lemma inv_known_failed:
  assumes "index_inv pj s"
  shows "index_inv pj (known_failed s)"
  by (rule index_inv_runs [OF assms]) (simp_all add: known_failed_def inv_lists [OF assms])

lemma inv_walk_failed:
  assumes "index_inv pj s"
  shows "index_inv pj (walk_failed s)"
  by (rule index_inv_runs [OF assms]) (simp_all add: walk_failed_def inv_lists [OF assms])

lemma inv_known_end:
  assumes inv: "index_inv pj s"
  shows "index_inv pj (known_end s)"
proof -
  let ?s1 = "if k_added s then reindex s else s"
  have i: "index_inv pj ?s1" using inv by simp
  have c: "covers ?s1 = covers s" by (rule covers_cong) simp_all
  show ?thesis
  proof (cases "k_started s = mutationEpoch s")
    case True
    then have e: "known_end s = ?s1\<lparr>knownRun := False, k_names := None,
        a_names := (if activeRun s \<and> a_names s = None then k_names s else a_names s)\<rparr>"
      by (simp add: known_end_def Let_def)
    show ?thesis unfolding e
      by (rule index_inv_runs [OF i]) (simp_all add: c inv_lists [OF inv] True split: if_splits)
  next
    case False
    then show ?thesis using inv_known_begin [OF i] by (simp add: known_end_def Let_def)
  qed
qed

lemma inv_walk_end:
  assumes inv: "index_inv pj s" and ns: "a_names s = Some ns"
  shows "index_inv pj (walk_end ns s)"
proof -
  let ?s1 = "s\<lparr>ix_ready := (\<not> needsRescan s \<and> list_all (map_has (byFile s)) ns)\<rparr>"
  have "covers s (map_keys (byFile s))" if "\<not> needsRescan s" and "list_all (map_has (byFile s)) ns"
  proof -
    have "set ns \<subseteq> set (map_keys (byFile s))"
      using that(2) by (auto simp: list_all_iff map_has_def map_of_eq_None_iff)
    with inv_lists(3) [OF inv ns that(1)] show ?thesis unfolding covers_def by blast
  qed
  then have i1: "index_inv pj ?s1"
    by (intro index_inv_runs [OF inv]) (simp_all add: inv_lists [OF inv])
  let ?s2 = "if a_added s then reindex ?s1 else ?s1"
  have i2: "index_inv pj ?s2" using i1 by simp
  have "index_inv pj (?s2\<lparr>activeRun := False, a_names := None\<rparr>)"
    by (rule index_inv_runs [OF i2]) (use inv_lists [OF i2] in simp_all)
  then show ?thesis using inv_walk_begin [OF i2] by (simp add: walk_end_def Let_def)
qed

lemma inv_mutated:
  assumes "index_inv pj s"
  shows "index_inv pj (fileMutated n (s\<lparr>ix_noticed := removeAll n (ix_noticed s)\<rparr>))"
proof -
  let ?s = "s\<lparr>ix_noticed := removeAll n (ix_noticed s), ix_ready := False, mutationEpoch := mutationEpoch s + 1,
    fileGen := map_set n (gen_of s n + 1) (fileGen s), needsRescan := True, byFile := map_del n (byFile s)\<rparr>"
  have g0: "gen_of (s\<lparr>ix_noticed := removeAll n (ix_noticed s)\<rparr>) = gen_of s" by (rule gen_of_cong) simp
  have e: "fileMutated n (s\<lparr>ix_noticed := removeAll n (ix_noticed s)\<rparr>) = ?s
      \<or> fileMutated n (s\<lparr>ix_noticed := removeAll n (ix_noticed s)\<rparr>) = reindex ?s"
    unfolding fileMutated_def Let_def g0 by simp
  have rs: "reads_ok s" using assms by (simp add: index_inv_def)
  have gen: "gen_of ?s m = (if m = n then gen_of s n + 1 else gen_of s m)" for m by (simp add: gen_of_def)
  have "files_ok pj s" using assms by (simp add: index_inv_def)
  then have "files_ok pj ?s" unfolding files_ok_def by (simp split: if_split)
  moreover have "lists_ok ?s" using inv_lists(1) [OF assms] by (simp add: lists_ok_def)
  moreover have "reads_ok ?s" unfolding reads_ok_def
  proof (intro ballI conjI allI impI)
    fix r assume r: "r \<in> set (ix_reads ?s)"
    then have le: "rd_gen r \<le> gen_of s (rd_name r)" using rs by (simp add: reads_ok_def)
    then show "rd_gen r \<le> gen_of ?s (rd_name r)" unfolding gen by auto
    fix c assume h: "rd_content r = Some c \<and> rd_gen r = gen_of ?s (rd_name r) \<and> rd_name r \<notin> set (ix_noticed ?s)"
    with le have "rd_name r \<noteq> n" unfolding gen by auto
    with h r show "map_of (ix_disk ?s) (rd_name r) = Some c"
      using rs unfolding gen by (simp add: reads_ok_def)
  qed
  ultimately have "index_inv pj ?s" by (simp add: index_inv_def ready_ok_def)
  with e show ?thesis by auto
qed

lemma index_inv_reads:
  assumes inv: "index_inv pj s" and "\<And>x. x \<in> set rs \<Longrightarrow> x \<in> set (ix_reads s) \<or> rd_gen x = gen_of s (rd_name x)
      \<and> (\<forall>c. rd_content x = Some c \<longrightarrow> map_of (ix_disk s) (rd_name x) = Some c)
    \<or> (\<exists>r \<in> set (ix_reads s). rd_name x = rd_name r \<and> rd_gen x = rd_gen r
      \<and> (\<forall>c. rd_content x = Some c \<longrightarrow> map_of (ix_disk s) (rd_name x) = Some c))"
  shows "index_inv pj (s\<lparr>ix_reads := rs\<rparr>)"
proof -
  let ?s = "s\<lparr>ix_reads := rs\<rparr>"
  have g: "gen_of ?s = gen_of s" by (rule gen_of_cong) simp
  have ro: "reads_ok s" using inv by (simp add: index_inv_def)
  have "reads_ok ?s" unfolding reads_ok_def g
  proof
    fix x assume "x \<in> set (ix_reads ?s)"
    then have "x \<in> set rs" by simp
    with assms(2) ro show "rd_gen x \<le> gen_of s (rd_name x) \<and>
        (\<forall>c. rd_content x = Some c \<and> rd_gen x = gen_of s (rd_name x) \<and> rd_name x \<notin> set (ix_noticed ?s) \<longrightarrow>
          map_of (ix_disk ?s) (rd_name x) = Some c)"
      unfolding reads_ok_def by fastforce
  qed
  moreover have "files_ok pj ?s = files_ok pj s" by (rule files_ok_cong) simp_all
  moreover have "lists_ok ?s = lists_ok s" by (rule lists_ok_cong) simp_all
  moreover have "ready_ok ?s = ready_ok s" by (rule ready_ok_cong) simp_all
  ultimately show ?thesis using inv by (simp only: index_inv_def)
qed

lemma inv_started:
  assumes "index_inv pj s"
  shows "index_inv pj (index_start w n s)"
proof -
  have "index_inv pj (s\<lparr>ix_reads := ix_reads s @ [\<lparr>rd_name = n, rd_walk = w, rd_gen = gen_of s n, rd_content = None\<rparr>]\<rparr>)"
    by (rule index_inv_reads [OF assms]) auto
  with assms show ?thesis by (simp add: index_start_def)
qed

lemma remove1_subset: "x \<in> set (remove1 r xs) \<Longrightarrow> x \<in> set xs"
  by (rule subsetD [OF set_remove1_subset])

lemma inv_got:
  assumes inv: "index_inv pj s" and r: "r \<in> set (ix_reads s)" and c: "map_of (ix_disk s) (rd_name r) = Some c"
  shows "index_inv pj (s\<lparr>ix_reads := r\<lparr>rd_content := Some c\<rparr> # remove1 r (ix_reads s)\<rparr>)"
proof (rule index_inv_reads [OF inv])
  fix x assume "x \<in> set (r\<lparr>rd_content := Some c\<rparr> # remove1 r (ix_reads s))"
  then consider "x = r\<lparr>rd_content := Some c\<rparr>" | "x \<in> set (ix_reads s)" by (auto dest: remove1_subset)
  then show "x \<in> set (ix_reads s) \<or> rd_gen x = gen_of s (rd_name x)
      \<and> (\<forall>c. rd_content x = Some c \<longrightarrow> map_of (ix_disk s) (rd_name x) = Some c)
    \<or> (\<exists>r \<in> set (ix_reads s). rd_name x = rd_name r \<and> rd_gen x = rd_gen r
      \<and> (\<forall>c. rd_content x = Some c \<longrightarrow> map_of (ix_disk s) (rd_name x) = Some c))"
    by cases (use r c in simp_all, blast)
qed

lemma index_file_fields:
  assumes "index_file pj ar n c s = (s', res)"
  shows "byFile s' = map_set n (parseLinkedFindings pj c) (byFile s) \<and> ix_disk s' = ix_disk s
    \<and> ix_noticed s' = ix_noticed s \<and> fileGen s' = fileGen s \<and> ix_reads s' = ix_reads s \<and> ix_ready s' = ix_ready s
    \<and> k_started s' = k_started s \<and> mutationEpoch s' = mutationEpoch s \<and> k_names s' = k_names s
    \<and> a_names s' = a_names s \<and> needsRescan s' = needsRescan s"
  using assms by (auto simp: index_file_def Let_def split: option.splits if_splits)

lemma inv_file:
  assumes inv: "index_inv pj s" and f: "index_file pj ar n c s = (s', res)"
    and d: "n \<notin> set (ix_noticed s) \<Longrightarrow> map_of (ix_disk s) n = Some c"
  shows "index_inv pj s'"
proof -
  note fs = index_file_fields [OF f]
  have fo: "files_ok pj s" using inv by (simp add: index_inv_def)
  then have "files_ok pj s'" unfolding files_ok_def using d by (simp add: fs)
  moreover have "reads_ok s' = reads_ok s" by (rule reads_ok_cong) (simp_all add: fs)
  moreover have "lists_ok s' = lists_ok s" by (rule lists_ok_cong) (simp_all add: fs)
  moreover have "ready_ok s'"
  proof -
    have c: "covers s' = covers s" by (rule covers_cong) (simp_all add: fs)
    have "set (map_keys (byFile s)) \<subseteq> set (map_keys (byFile s'))" unfolding conjunct1 [OF fs] by (simp add: dom_update subset_insertI)
    moreover have "ix_ready s' = ix_ready s" using fs by simp
    ultimately show ?thesis using inv_lists(4) [OF inv] unfolding ready_ok_def c covers_def by blast
  qed
  ultimately show ?thesis using inv by (simp only: index_inv_def)
qed

lemma inv_finish:
  assumes inv: "index_inv pj s" and r: "r \<in> set (ix_reads s)" and fin: "index_finish pj ar r s = (s', res)"
  shows "index_inv pj s'"
proof -
  let ?s1 = "s\<lparr>ix_reads := remove1 r (ix_reads s)\<rparr>"
  have i1: "index_inv pj ?s1" by (rule index_inv_reads [OF inv]) (auto dest: remove1_subset)
  consider "s' = ?s1" | "s' = ?s1\<lparr>needsRescan := True\<rparr>"
    | c where "rd_content r = Some c" "gen_of s (rd_name r) = rd_gen r" "index_file pj ar (rd_name r) c ?s1 = (s', res)"
    using fin by (auto simp: index_finish_def Let_def split: option.splits if_splits)
  then show ?thesis
  proof cases
    case 1
    with i1 show ?thesis by simp
  next
    case 2
    show ?thesis unfolding 2 by (rule index_inv_runs [OF i1]) (use inv_lists [OF i1] in simp_all)
  next
    case (3 c)
    have "reads_ok s" using inv by (simp add: index_inv_def)
    with r 3(1,2) have "rd_name r \<notin> set (ix_noticed s) \<Longrightarrow> map_of (ix_disk s) (rd_name r) = Some c"
      unfolding reads_ok_def by simp
    then show ?thesis by (intro inv_file [OF i1 3(3)]) simp
  qed
qed

lemma inv_take:
  assumes "index_inv pj (fst x)"
  shows "index_inv pj (take_result w x)"
proof -
  have "index_inv pj ((fst x)\<lparr>a_added := b\<rparr>)" for b
    by (rule index_inv_runs [OF assms]) (simp_all add: inv_lists [OF assms])
  moreover have "index_inv pj ((fst x)\<lparr>k_added := b\<rparr>)" for b
    by (rule index_inv_runs [OF assms]) (simp_all add: inv_lists [OF assms])
  ultimately show ?thesis
    using assms by (simp add: take_result_def inv_known_failed inv_walk_failed split: option.splits)
qed

lemma inv_written:
  assumes inv: "index_inv pj s" and that: "\<And>m. m \<noteq> n \<Longrightarrow> map_of d m = map_of (ix_disk s) m"
  shows "index_inv pj (s\<lparr>ix_disk := d, ix_noticed := n # ix_noticed s\<rparr>)"
proof -
  let ?s = "s\<lparr>ix_disk := d, ix_noticed := n # ix_noticed s\<rparr>"
  have g: "gen_of ?s = gen_of s" by (rule gen_of_cong) simp
  have st: "covers s ns \<Longrightarrow> covers ?s ns" for ns
    unfolding covers_def
  proof (intro allI impI)
    fix m assume ns: "\<forall>n. settled_on s n \<longrightarrow> n \<in> set ns" and "settled_on ?s m"
    then have "m \<noteq> n" "settled_on s m" using that [of m] by (auto simp: settled_on_def)
    with ns show "m \<in> set ns" by blast
  qed
  have "files_ok pj s" "reads_ok s" "lists_ok s" "ready_ok s" using inv by (simp_all add: index_inv_def)
  have "files_ok pj ?s" using \<open>files_ok pj s\<close> that unfolding files_ok_def by simp
  moreover have "reads_ok ?s" using \<open>reads_ok s\<close> that unfolding reads_ok_def g by simp
  moreover have "lists_ok ?s" using \<open>lists_ok s\<close> st unfolding lists_ok_def by simp
  moreover have "ready_ok ?s" using \<open>ready_ok s\<close> st unfolding ready_ok_def by simp
  ultimately show ?thesis by (simp only: index_inv_def)
qed

lemma index_inv_step:
  assumes "index_step pj ar s s'" and inv: "index_inv pj s"
  shows "index_inv pj s'"
  using assms(1)
proof cases
  case (written n c)
  then show ?thesis using inv_written [OF inv] by simp
next
  case (deleted n)
  then show ?thesis using inv_written [OF inv] by simp
next
  case (mutated n)
  then show ?thesis using inv_mutated [OF inv] by simp
next
  case (counted n count source)
  show ?thesis unfolding counted
    by (rule index_inv_runs [OF inv]) (simp_all add: inv_lists [OF inv])
next
  case (finished r)
  then show ?thesis using inv_take inv_finish [OF inv, of r ar] by (metis prod.collapse)
qed (use inv in \<open>simp_all add: inv_known_begin inv_walk_begin inv_known_listed inv_known_failed inv_started inv_got
  inv_known_end inv_walk_end\<close>)

lemma index_inv_reachable:
  assumes "(index_step pj ar)\<^sup>*\<^sup>* (index_start_state d c) s"
  shows "index_inv pj s"
  using assms
proof (induction rule: rtranclp_induct)
  case base
  show ?case
    by (simp add: index_inv_def files_ok_def reads_ok_def lists_ok_def ready_ok_def index_start_state_def)
qed (rule index_inv_step)

text \<open>The id index as rebuilt from the files.\<close>

lemma dups_reindex:
  "set (dups (byId (reindex s)) i) =
    {k. k \<noteq> i \<and> (\<exists>n p. (n, Some p) \<in> set (byFile s) \<and> (\<exists>g \<in> set (link_groups p). i \<in> set g \<and> k \<in> set g))}"
proof -
  let ?f = "\<lambda>(_, p) m. case p of None \<Rightarrow> m | Some p \<Rightarrow> collectDuplicates (link_groups p) m"
  have "set (dups (fold ?f bf m) i) = set (dups m i) \<union>
      {k. k \<noteq> i \<and> (\<exists>n p. (n, Some p) \<in> set bf \<and> (\<exists>g \<in> set (link_groups p). i \<in> set g \<and> k \<in> set g))}"
    for bf :: "(string \<times> parsed_links option) list" and m
  proof (induction bf arbitrary: m)
    case (Cons x bf)
    obtain n q where x: "x = (n, q)" by (cases x)
    show ?case
    proof (cases q)
      case None
      then show ?thesis using Cons by (auto simp: x)
    next
      case (Some p)
      then show ?thesis using Cons by (auto simp: x dups_collect)
    qed
  qed simp
  then show ?thesis by (simp add: reindex_def dups_def [of "[]"])
qed

section \<open>Properties\<close>


text \<open>Whenever the id index is rebuilt in a ready state with no notice outstanding, a
  finding's duplicates are exactly what the stored links files say of it.\<close>

theorem duplicates_complete:
  assumes "(index_step parseJson analyzeReport)\<^sup>*\<^sup>* (index_start_state d c) s" and "ix_ready s" and "ix_noticed s = []"
  shows "set (duplicatesOf (reindex s) i) = {k. k \<noteq> i \<and> (\<exists>n bytes p. map_of (ix_disk s) n = Some bytes
    \<and> parseLinkedFindings parseJson bytes = Some p \<and> (\<exists>g \<in> set (link_groups p). i \<in> set g \<and> k \<in> set g))}"
proof -
  note inv = index_inv_reachable [OF assms(1)]
  have ok: "map_ok (byFile s)" and f: "\<And>n p. map_of (byFile s) n = Some p \<Longrightarrow>
      \<exists>bytes. map_of (ix_disk s) n = Some bytes \<and> parseLinkedFindings parseJson bytes = p"
    using inv assms(3) unfolding index_inv_def files_ok_def by simp_all
  have iff: "(n, Some p) \<in> set (byFile s) \<longleftrightarrow>
      (\<exists>bytes. map_of (ix_disk s) n = Some bytes \<and> parseLinkedFindings parseJson bytes = Some p)" for n p
  proof
    assume "(n, Some p) \<in> set (byFile s)"
    then have "map_of (byFile s) n = Some (Some p)" using ok by (simp add: in_map_of_iff)
    then show "\<exists>bytes. map_of (ix_disk s) n = Some bytes \<and> parseLinkedFindings parseJson bytes = Some p" by (rule f)
  next
    assume "\<exists>bytes. map_of (ix_disk s) n = Some bytes \<and> parseLinkedFindings parseJson bytes = Some p"
    then obtain bytes where c: "map_of (ix_disk s) n = Some bytes" "parseLinkedFindings parseJson bytes = Some p" by blast
    then have "settled_on s n" using assms(3) by (simp add: settled_on_def)
    then have "n \<in> set (map_keys (byFile s))" using inv_lists(4) [OF inv assms(2)] unfolding covers_def by blast
    then obtain q where q: "map_of (byFile s) n = Some q" by (metis map_of_eq_None_iff not_None_eq set_map)
    with f [OF q] c have "q = Some p" by simp
    with q show "(n, Some p) \<in> set (byFile s)" by (auto dest: map_of_SomeD)
  qed
  show ?thesis unfolding duplicatesOf_def dups_reindex iff by blast
qed

definition sample_json :: "string \<Rightarrow> jsval option" where
  "sample_json c = (if c = ''[1'' then Some (JArr [JArr [JStr ''f1'', JStr ''f2'', JStr ''f1'']]) else None)"

text \<open>A walk over one stored links file, from the empty index to a ready one.\<close>

definition sample_read :: "string option \<Rightarrow> reading" where
  "sample_read c = \<lparr>rd_name = ''l'', rd_walk = True, rd_gen = 0, rd_content = c\<rparr>"

definition sample_index :: "nat \<Rightarrow> index" where
  "sample_index n =
    (let s0 = index_start_state [(''l'', ''[1'')] [];
         s1 = walk_begin s0;
         s2 = known_listed s1;
         s3 = known_end s2;
         s4 = index_start True ''l'' s3;
         s5 = s4\<lparr>ix_reads := (sample_read None)\<lparr>rd_content := Some ''[1''\<rparr> # remove1 (sample_read None) (ix_reads s4)\<rparr>;
         s6 = take_result (rd_walk (sample_read (Some ''[1'')))
            (index_finish sample_json (\<lambda>_. None) (sample_read (Some ''[1'')) s5)
     in [s0, s1, s2, s3, s4, s5, s6, walk_end [''l''] s6] ! n)"

lemma sample_index_run:
  "(index_step sample_json (\<lambda>_. None))\<^sup>*\<^sup>* (index_start_state [(''l'', ''[1'')] []) (sample_index 7)"
proof -
  let ?step = "index_step sample_json (\<lambda>_. None)"
  have s: "index_start_state [(''l'', ''[1'')] [] = sample_index 0" by (simp add: sample_index_def Let_def)
  have nxt: "sample_index 1 = walk_begin (sample_index 0)" "sample_index 2 = known_listed (sample_index 1)"
    "sample_index 3 = known_end (sample_index 2)" "sample_index 4 = index_start True ''l'' (sample_index 3)"
    "sample_index 5 = (sample_index 4)\<lparr>ix_reads := (sample_read None)\<lparr>rd_content := Some ''[1''\<rparr>
      # remove1 (sample_read None) (ix_reads (sample_index 4))\<rparr>"
    "sample_index 6 = take_result (rd_walk (sample_read (Some ''[1'')))
      (index_finish sample_json (\<lambda>_. None) (sample_read (Some ''[1'')) (sample_index 5))"
    "sample_index 7 = walk_end [''l''] (sample_index 6)"
    by (simp_all add: sample_index_def Let_def)
  have "\<not> activeRun (sample_index 0)" "knownRun (sample_index 1)" "k_names (sample_index 1) = None"
    "knownRun (sample_index 2)" "k_names (sample_index 2) = Some [''l'']"
    "activeRun (sample_index 3)" "a_names (sample_index 3) = Some [''l'']"
    "sample_read None \<in> set (ix_reads (sample_index 4))" "map_of (ix_disk (sample_index 4)) ''l'' = Some ''[1''"
    "sample_read (Some ''[1'') \<in> set (ix_reads (sample_index 5))"
    "activeRun (sample_index 6)" "a_names (sample_index 6) = Some [''l'']" "\<forall>r \<in> set (ix_reads (sample_index 6)). \<not> rd_walk r"
    by code_simp+
  note g = this
  have a1: "?step (sample_index 0) (sample_index 1)" unfolding nxt(1) by (rule index_step.walk) (rule g)
  have a2: "?step (sample_index 1) (sample_index 2)" unfolding nxt(2) by (rule index_step.listed) (rule g)+
  have a3: "?step (sample_index 2) (sample_index 3)" unfolding nxt(3) by (rule index_step.known_done) (rule g)+
  have a4: "?step (sample_index 3) (sample_index 4)" unfolding nxt(4)
    by (rule index_step.walk_read [OF g(6,7)]) simp
  have a5: "?step (sample_index 4) (sample_index 5)" unfolding nxt(5)
    by (rule index_step.got [OF g(8)]) (simp_all add: sample_read_def g(9))
  have a6: "?step (sample_index 5) (sample_index 6)" unfolding nxt(6) by (rule index_step.finished) (rule g)
  have a7: "?step (sample_index 6) (sample_index 7)" unfolding nxt(7) by (rule index_step.walk_done) (rule g)+
  have "?step\<^sup>*\<^sup>* (sample_index 0) (sample_index 1)" by (rule r_into_rtranclp) (rule a1)
  then have "?step\<^sup>*\<^sup>* (sample_index 0) (sample_index 2)" by (rule rtranclp.rtrancl_into_rtrancl) (rule a2)
  then have "?step\<^sup>*\<^sup>* (sample_index 0) (sample_index 3)" by (rule rtranclp.rtrancl_into_rtrancl) (rule a3)
  then have "?step\<^sup>*\<^sup>* (sample_index 0) (sample_index 4)" by (rule rtranclp.rtrancl_into_rtrancl) (rule a4)
  then have "?step\<^sup>*\<^sup>* (sample_index 0) (sample_index 5)" by (rule rtranclp.rtrancl_into_rtrancl) (rule a5)
  then have "?step\<^sup>*\<^sup>* (sample_index 0) (sample_index 6)" by (rule rtranclp.rtrancl_into_rtrancl) (rule a6)
  then have "?step\<^sup>*\<^sup>* (sample_index 0) (sample_index 7)" by (rule rtranclp.rtrancl_into_rtrancl) (rule a7)
  then show ?thesis unfolding s .
qed


theorem duplicates_complete_witness:
  "set (duplicatesOf (reindex (sample_index 7)) ''f2'') = {''f1''}"
proof -
  have f: "ix_ready (sample_index 7)" "ix_noticed (sample_index 7) = []" by code_simp+
  have d: "ix_disk (sample_index 7) = [(''l'', ''[1'')]" by code_simp
  have p: "parseLinkedFindings sample_json ''[1'' = Some \<lparr>link_groups = [[''f1'', ''f2'']], link_skipped = 0\<rparr>" by code_simp
  show ?thesis unfolding duplicates_complete [OF sample_index_run f, of "''f2''"] d using p by auto
qed

end
