(* ===== verification/Workspaces.thy ===== *)
theory Workspaces
  imports JsText
begin

text \<open>
  The workspaces a user keeps (\<^verbatim>\<open>src/client/workspaces.js\<close>): the stored blob,
  the read-modify-write every change goes through, the operations, and what each
  tab has told its listeners. Several tabs share the storage; a change runs under
  a lock, from the storage as it is then, so a tab's change is one step. The seal
  and the encoding of the stored value, the random key and the clock are
  parameters or left out: a tab can read the stored value or not
  (\<open>tab_opens\<close>), its writes are accepted or not (\<open>tab_saves\<close>).
\<close>

section \<open>The data\<close>

text \<open>
  A row of the blob. The two membership lists may be missing in a row stored
  before the field existed, and so may a name.
\<close>

record workspace =
  w_id :: string
  w_name :: "string option"
  w_key :: string
  w_reports :: "string list option"
  w_bundles :: "string list option"
  w_created :: int

datatype membership_field = Reports | Bundles

fun members :: "membership_field \<Rightarrow> workspace \<Rightarrow> string list option" where
  "members Reports w = w_reports w"
| "members Bundles w = w_bundles w"

fun set_members :: "membership_field \<Rightarrow> string list \<Rightarrow> workspace \<Rightarrow> workspace" where
  "set_members Reports xs w = w\<lparr>w_reports := Some xs\<rparr>"
| "set_members Bundles xs w = w\<lparr>w_bundles := Some xs\<rparr>"

text \<open>\<open>Array.isArray(w[field]) ? w[field] : []\<close>.\<close>

definition listed :: "membership_field \<Rightarrow> workspace \<Rightarrow> string list" where
  "listed fd w = (case members fd w of None \<Rightarrow> [] | Some xs \<Rightarrow> xs)"

text \<open>What the stored text parses to.\<close>

datatype wblob =
    Versioned int "workspace list"
  | LegacyArray "workspace list"
  | OtherJson
  | NotJson

definition rows_in :: "wblob option \<Rightarrow> workspace list" where
  "rows_in raw = (case raw of
     Some (Versioned _ ws) \<Rightarrow> ws
   | Some (LegacyArray ws) \<Rightarrow> ws
   | _ \<Rightarrow> [])"

text \<open>A row as listeners know it.\<close>

record wsnap =
  s_id :: string
  s_key :: string
  s_reports :: "string list"
  s_bundles :: "string list"

definition snapshotForCache :: "workspace \<Rightarrow> wsnap" where
  "snapshotForCache w = \<lparr>s_id = w_id w, s_key = w_key w, s_reports = listed Reports w, s_bundles = listed Bundles w\<rparr>"

fun snap_members :: "membership_field \<Rightarrow> wsnap \<Rightarrow> string list" where
  "snap_members Reports p = s_reports p"
| "snap_members Bundles p = s_bundles p"

fun set_snap_members :: "membership_field \<Rightarrow> string list \<Rightarrow> wsnap \<Rightarrow> wsnap" where
  "set_snap_members Reports xs p = p\<lparr>s_reports := xs\<rparr>"
| "set_snap_members Bundles xs p = p\<lparr>s_bundles := xs\<rparr>"

datatype wevent =
    Created string
  | Deleted string
  | KeyChanged string
  | MembersChanged membership_field string

text \<open>A tab: the cached value, what its listeners have observed, and what was fired so far.\<close>

record wtab =
  tab_cache :: "wblob option"
  lastSeen :: "wsnap list"
  fired :: "wevent list"
  tab_opens :: bool
  tab_saves :: bool

type_synonym wstore = "wblob option \<times> wtab"

section \<open>Reading\<close>

definition readRaw :: "wtab \<Rightarrow> workspace list" where
  "readRaw t = rows_in (tab_cache t)"

definition backfilled :: "workspace \<Rightarrow> workspace" where
  "backfilled w = w\<lparr>w_reports := Some (listed Reports w), w_bundles := Some (listed Bundles w)\<rparr>"

definition listWorkspaces :: "wtab \<Rightarrow> workspace list" where
  "listWorkspaces t = map backfilled (readRaw t)"

text \<open>\<open>lastSeen\<close> as it is set at boot.\<close>

definition syncObservedAfterHydrate :: "wtab \<Rightarrow> wtab" where
  "syncObservedAfterHydrate t = t\<lparr>lastSeen := map snapshotForCache (readRaw t)\<rparr>"

section \<open>What listeners are told\<close>

definition filesSetEqual :: "string list \<Rightarrow> string list \<Rightarrow> bool" where
  "filesSetEqual a b =
     (let setA = js_set a; setB = js_set b in
      if length setA \<noteq> length setB then False else list_all (\<lambda>x. x \<in> set setB) setA)"

definition fire :: "wevent \<Rightarrow> wtab \<Rightarrow> wtab" where
  "fire e t = t\<lparr>fired := fired t @ [e]\<rparr>"

definition markObservedFor :: "workspace \<Rightarrow> wtab \<Rightarrow> wtab" where
  "markObservedFor w t = t\<lparr>lastSeen := filter (\<lambda>p. s_id p \<noteq> w_id w) (lastSeen t) @ [snapshotForCache w]\<rparr>"

text \<open>The first element that passes, changed in place.\<close>

fun update_first :: "('a \<Rightarrow> bool) \<Rightarrow> ('a \<Rightarrow> 'a) \<Rightarrow> 'a list \<Rightarrow> 'a list" where
  "update_first P f [] = []"
| "update_first P f (x # xs) = (if P x then f x # xs else x # update_first P f xs)"

definition markObservedFieldFor :: "membership_field \<Rightarrow> workspace \<Rightarrow> wtab \<Rightarrow> wtab" where
  "markObservedFieldFor fd w t =
     (case find (\<lambda>p. s_id p = w_id w) (lastSeen t) of
        Some _ \<Rightarrow> t\<lparr>lastSeen := update_first (\<lambda>p. s_id p = w_id w) (set_snap_members fd (listed fd w)) (lastSeen t)\<rparr>
      | None \<Rightarrow> t\<lparr>lastSeen := lastSeen t @ [snapshotForCache w]\<rparr>)"

definition markObservedDeleted :: "string \<Rightarrow> wtab \<Rightarrow> wtab" where
  "markObservedDeleted i t = t\<lparr>lastSeen := filter (\<lambda>p. s_id p \<noteq> i) (lastSeen t)\<rparr>"

text \<open>\<open>new Map(list.map(w => [w.id, w]))\<close>.\<close>

definition by_id :: "wsnap list \<Rightarrow> (string, wsnap) jsmap" where
  "by_id ps = fold (\<lambda>p m. map_set (s_id p) p m) ps []"

text \<open>The events a row that was already known gives rise to.\<close>

definition row_changes :: "string \<Rightarrow> wsnap \<Rightarrow> wsnap \<Rightarrow> wevent list" where
  "row_changes i p w =
     (if s_key p \<noteq> s_key w then [KeyChanged i] else []) @
     (if \<not> filesSetEqual (s_reports p) (s_reports w) then [MembersChanged Reports i] else []) @
     (if \<not> filesSetEqual (s_bundles p) (s_bundles w) then [MembersChanged Bundles i] else [])"

definition storage_changes :: "wsnap list \<Rightarrow> wsnap list \<Rightarrow> wevent list" where
  "storage_changes prev next =
     (let prevById = by_id prev; nextById = by_id next in
      map Deleted (filter (\<lambda>i. \<not> map_has nextById i) (map_keys prevById)) @
      concat (map (\<lambda>(i, w). case map_of prevById i of
                None \<Rightarrow> [Created i]
              | Some p \<Rightarrow> row_changes i p w) nextById))"

definition propagateWorkspaceChangesFromStorage :: "wtab \<Rightarrow> wtab" where
  "propagateWorkspaceChangesFromStorage t =
     (let next = map snapshotForCache (readRaw t) in
      (fold fire (storage_changes (lastSeen t) next) t)\<lparr>lastSeen := next\<rparr>)"

section \<open>The read-modify-write\<close>

text \<open>
  Hydration takes the stored value into the cache and calls the hook, which is
  the propagation above. The value cannot be read by a tab that cannot open it.
\<close>

definition hydrate :: "wstore \<Rightarrow> wstore" where
  "hydrate st = (case st of (disk, t) \<Rightarrow>
     (disk, propagateWorkspaceChangesFromStorage (t\<lparr>tab_cache := (if tab_opens t then disk else None)\<rparr>)))"

text \<open>\<open>setItem\<close>: \<open>None\<close> where it throws, with nothing changed.\<close>

definition writeRaw :: "workspace list \<Rightarrow> wstore \<Rightarrow> wstore option" where
  "writeRaw ws st = (case st of (disk, t) \<Rightarrow>
     if tab_saves t then Some (Some (Versioned 1 ws), t\<lparr>tab_cache := Some (Versioned 1 ws)\<rparr>) else None)"

text \<open>What a change comes back with: nothing for a mutator that answered \<open>false\<close>.\<close>

datatype 'r outcome = Wrote 'r | Skipped | Threw

definition mutateWorkspaces ::
    "(workspace list \<Rightarrow> (workspace list \<times> 'r) option) \<Rightarrow> wstore \<Rightarrow> wstore \<times> 'r outcome" where
  "mutateWorkspaces mutator st =
     (let st1 = hydrate st in
      case mutator (readRaw (snd st1)) of
        None \<Rightarrow> (st1, Skipped)
      | Some (ws, r) \<Rightarrow> (case writeRaw ws st1 of None \<Rightarrow> (st1, Threw) | Some st2 \<Rightarrow> (st2, Wrote r)))"

text \<open>
  What a change does once the lock is released, by what it changed: it fires and
  marks as observed what it touched, and nothing else. By then other tabs may have
  written, and this tab may have been hydrated again.
\<close>

datatype followup =
    CreatedHere workspace
  | DeletedHere string
  | RenamedHere workspace
  | Upserted workspace
  | AttachedHere workspace
  | MembersSet membership_field "(string \<times> workspace) list"

definition announce_upsert :: "workspace \<Rightarrow> wtab \<Rightarrow> wtab" where
  "announce_upsert w t =
     (case find (\<lambda>p. s_id p = w_id w) (lastSeen t) of
        None \<Rightarrow> fire (Created (w_id w)) t
      | Some p \<Rightarrow> fold fire (row_changes (w_id w) p (snapshotForCache w)) t)"

fun finish :: "followup \<Rightarrow> wtab \<Rightarrow> wtab" where
  "finish (CreatedHere w) t = markObservedFor w t"
| "finish (DeletedHere i) t = markObservedDeleted i (fire (Deleted i) t)"
| "finish (RenamedHere w) t = t"
| "finish (Upserted w) t = markObservedFor w (announce_upsert w t)"
| "finish (AttachedHere w) t = markObservedFor w (fire (Created (w_id w)) t)"
| "finish (MembersSet fd affected) t =
     fold (\<lambda>(i, w) t. markObservedFieldFor fd w (fire (MembersChanged fd i) t)) affected t"

type_synonym mutator = "workspace list \<Rightarrow> (workspace list \<times> followup) option"

definition perform :: "mutator \<Rightarrow> wstore \<Rightarrow> wstore \<times> followup outcome" where
  "perform m st = (case mutateWorkspaces m st of
     ((disk, t), Wrote fu) \<Rightarrow> ((disk, finish fu t), Wrote fu)
   | other \<Rightarrow> other)"

section \<open>The operations\<close>

definition control_char :: "char \<Rightarrow> bool" where
  "control_char c = ((of_char c :: nat) < 32 \<or> (of_char c :: nat) = 127)"

definition MAX_WORKSPACE_NAME_LEN :: nat where
  "MAX_WORKSPACE_NAME_LEN = 200"

definition sanitizeWorkspaceName :: "string option \<Rightarrow> string option" where
  "sanitizeWorkspaceName raw =
     (let trimmed = trim (case raw of None \<Rightarrow> [] | Some s \<Rightarrow> s) in
      if trimmed = [] then None else
      let cleaned = take MAX_WORKSPACE_NAME_LEN (filter (\<lambda>c. \<not> control_char c) trimmed) in
      if cleaned = [] then None else Some cleaned)"

definition has_id :: "string \<Rightarrow> workspace list \<Rightarrow> bool" where
  "has_id i ws = list_ex (\<lambda>w. w_id w = i) ws"

definition create_mutator :: "workspace \<Rightarrow> mutator" where
  "create_mutator w ws = (if has_id (w_id w) ws then None else Some (ws @ [w], CreatedHere w))"

definition new_workspace :: "string \<Rightarrow> string \<Rightarrow> string \<Rightarrow> int \<Rightarrow> workspace" where
  "new_workspace i name key created = \<lparr>w_id = i, w_name = Some name, w_key = key,
     w_reports = Some [], w_bundles = Some [], w_created = created\<rparr>"

text \<open>\<open>derive\<close> is the hash that turns a private key into an id.\<close>

definition createWorkspace ::
    "(string \<Rightarrow> string) \<Rightarrow> string option \<Rightarrow> string \<Rightarrow> int \<Rightarrow> wstore \<Rightarrow> wstore \<times> followup outcome" where
  "createWorkspace derive name privateKey now st =
     (case sanitizeWorkspaceName name of
        None \<Rightarrow> (st, Skipped)
      | Some cleaned \<Rightarrow> perform (create_mutator (new_workspace (derive privateKey) cleaned privateKey now)) st)"

text \<open>The first row with the id is the one an operation works on.\<close>

fun remove_first :: "('a \<Rightarrow> bool) \<Rightarrow> 'a list \<Rightarrow> 'a list" where
  "remove_first P [] = []"
| "remove_first P (x # xs) = (if P x then xs else x # remove_first P xs)"

definition delete_mutator :: "string \<Rightarrow> mutator" where
  "delete_mutator i ws = (if has_id i ws then Some (remove_first (\<lambda>w. w_id w = i) ws, DeletedHere i) else None)"

definition deleteWorkspace :: "string \<Rightarrow> wstore \<Rightarrow> wstore \<times> followup outcome" where
  "deleteWorkspace i st = perform (delete_mutator i) st"

definition rename_mutator :: "string \<Rightarrow> string \<Rightarrow> mutator" where
  "rename_mutator i cleaned ws = (case find (\<lambda>w. w_id w = i) ws of
     None \<Rightarrow> None
   | Some w \<Rightarrow> if w_name w = Some cleaned then None
       else Some (update_first (\<lambda>w. w_id w = i) (\<lambda>w. w\<lparr>w_name := Some cleaned\<rparr>) ws,
                  RenamedHere (w\<lparr>w_name := Some cleaned\<rparr>)))"

definition renameWorkspace :: "string \<Rightarrow> string option \<Rightarrow> wstore \<Rightarrow> wstore \<times> followup outcome" where
  "renameWorkspace i name st = (case sanitizeWorkspaceName name of
     None \<Rightarrow> (st, Skipped)
   | Some cleaned \<Rightarrow> perform (rename_mutator i cleaned) st)"

record upsert_arg =
  u_id :: string
  u_name :: "string option"
  u_key :: string
  u_reports :: "string list option"
  u_bundles :: "string list option"
  u_preserveBundles :: bool
  u_created :: "int option"

definition upserted :: "upsert_arg \<Rightarrow> int \<Rightarrow> workspace option \<Rightarrow> workspace" where
  "upserted u now previous =
     (let cleanedName = (case sanitizeWorkspaceName (u_name u) of Some n \<Rightarrow> n
            | None \<Rightarrow> (case Option.bind previous w_name of Some n \<Rightarrow> n | None \<Rightarrow> ''Workspace''));
          resolvedBundles = (if u_preserveBundles u then (case previous of None \<Rightarrow> [] | Some p \<Rightarrow> listed Bundles p)
            else (case u_bundles u of None \<Rightarrow> [] | Some bs \<Rightarrow> bs))
      in \<lparr>w_id = u_id u, w_name = Some cleanedName, w_key = u_key u,
          w_reports = Some (case u_reports u of None \<Rightarrow> [] | Some rs \<Rightarrow> js_set rs),
          w_bundles = Some (js_set resolvedBundles),
          w_created = (case u_created u of None \<Rightarrow> now | Some c \<Rightarrow> c)\<rparr>)"

definition upsert_mutator :: "upsert_arg \<Rightarrow> int \<Rightarrow> mutator" where
  "upsert_mutator u now ws =
     (let previous = find (\<lambda>w. w_id w = u_id u) ws; w = upserted u now previous in
      Some (case previous of None \<Rightarrow> ws @ [w] | Some _ \<Rightarrow> update_first (\<lambda>w. w_id w = u_id u) (\<lambda>_. w) ws, Upserted w))"

definition upsertWorkspace :: "upsert_arg \<Rightarrow> int \<Rightarrow> wstore \<Rightarrow> wstore \<times> followup outcome" where
  "upsertWorkspace u now st = perform (upsert_mutator u now) st"

datatype attach_outcome =
    Attached workspace
  | AlreadyAttached workspace
  | NameCollision "workspace option"

definition attach_decision :: "string \<Rightarrow> string option \<Rightarrow> string \<Rightarrow> int \<Rightarrow> workspace list \<Rightarrow> attach_outcome" where
  "attach_decision i name privateKey created ws =
     (case sanitizeWorkspaceName name of
        None \<Rightarrow> NameCollision None
      | Some sanitisedName \<Rightarrow> (case find (\<lambda>w. w_id w = i) ws of
          Some w \<Rightarrow> AlreadyAttached w
        | None \<Rightarrow> (case find (\<lambda>w. sanitizeWorkspaceName (w_name w) = Some sanitisedName) ws of
            Some w \<Rightarrow> NameCollision (Some w)
          | None \<Rightarrow> Attached (new_workspace i sanitisedName privateKey created))))"

definition attach_mutator :: "string \<Rightarrow> string option \<Rightarrow> string \<Rightarrow> int \<Rightarrow> mutator" where
  "attach_mutator i name privateKey created ws =
     (case attach_decision i name privateKey created ws of
        Attached w \<Rightarrow> Some (ws @ [w], AttachedHere w)
      | _ \<Rightarrow> None)"

definition attachSharedWorkspace ::
    "string \<Rightarrow> string option \<Rightarrow> string \<Rightarrow> int option \<Rightarrow> int \<Rightarrow> wstore \<Rightarrow> wstore \<times> attach_outcome option" where
  "attachSharedWorkspace i name privateKey createdAt now st =
     (let created = (case createdAt of None \<Rightarrow> now | Some c \<Rightarrow> c);
          (st', r) = perform (attach_mutator i name privateKey created) st
      in (st', case r of Threw \<Rightarrow> None
           | _ \<Rightarrow> Some (attach_decision i name privateKey created (readRaw (snd (hydrate st))))))"

text \<open>
  Membership: the detach loop, over one workspace where \<open>scope\<close> names it, then
  the attach, with the ids of the rows either changed.
\<close>

definition owns :: "membership_field \<Rightarrow> string \<Rightarrow> workspace \<Rightarrow> bool" where
  "owns fd x w = (x \<in> set (listed fd w))"

definition in_scope :: "string option \<Rightarrow> workspace \<Rightarrow> bool" where
  "in_scope scope w = (case scope of None \<Rightarrow> True | Some i \<Rightarrow> w_id w = i)"

definition detach :: "membership_field \<Rightarrow> string \<Rightarrow> string option \<Rightarrow> workspace \<Rightarrow> workspace" where
  "detach fd x scope w = (if in_scope scope w then set_members fd (filter (\<lambda>y. y \<noteq> x) (listed fd w)) w else w)"

definition attach :: "membership_field \<Rightarrow> string \<Rightarrow> workspace \<Rightarrow> workspace" where
  "attach fd x w = set_members fd (if owns fd x w then listed fd w else listed fd w @ [x]) w"

definition membership_mutator ::
    "membership_field \<Rightarrow> string \<Rightarrow> string option \<Rightarrow> bool \<Rightarrow> string option \<Rightarrow> mutator" where
  "membership_mutator fd x workspaceId additive scope ws =
     (let currentOwnerId = map_option w_id (find (owns fd x) ws) in
      if currentOwnerId = workspaceId then None
      else if workspaceId \<noteq> None \<and> \<not> has_id (the workspaceId) ws then None
      else
        let detached = (if additive then ws else map (detach fd x scope) ws);
            left = (if additive then [] else map w_id (filter (\<lambda>w. in_scope scope w \<and> owns fd x w) ws));
            target = Option.bind workspaceId (\<lambda>i. find (\<lambda>w. w_id w = i) detached);
            joined = (case target of None \<Rightarrow> [] | Some w \<Rightarrow> if owns fd x w then [] else [w_id w]);
            moved = (case workspaceId of None \<Rightarrow> detached
              | Some i \<Rightarrow> update_first (\<lambda>w. w_id w = i) (attach fd x) detached);
            aff = js_set (left @ joined)
        in if aff = [] then None
           else Some (moved, MembersSet fd (concat (map (\<lambda>i. case find (\<lambda>w. w_id w = i) moved of
                  None \<Rightarrow> [] | Some w \<Rightarrow> [(i, w)]) aff))))"

definition setWorkspaceMembership ::
    "membership_field \<Rightarrow> string \<Rightarrow> string option \<Rightarrow> bool \<Rightarrow> string option \<Rightarrow> wstore \<Rightarrow> wstore \<times> followup outcome" where
  "setWorkspaceMembership fd x workspaceId additive scope st =
     perform (membership_mutator fd x workspaceId additive scope) st"

text \<open>The three operations of \<open>membershipApi\<close>.\<close>

definition membership_move :: "membership_field \<Rightarrow> string \<Rightarrow> string option \<Rightarrow> wstore \<Rightarrow> wstore \<times> followup outcome" where
  "membership_move fd x workspaceId = setWorkspaceMembership fd x workspaceId False None"

definition membership_add :: "membership_field \<Rightarrow> string \<Rightarrow> string option \<Rightarrow> wstore \<Rightarrow> wstore \<times> followup outcome" where
  "membership_add fd x workspaceId = setWorkspaceMembership fd x workspaceId True None"

definition membership_remove :: "membership_field \<Rightarrow> string \<Rightarrow> string option \<Rightarrow> wstore \<Rightarrow> wstore \<times> followup outcome" where
  "membership_remove fd x workspaceId = setWorkspaceMembership fd x None False workspaceId"

section \<open>Facts\<close>

lemma filesSetEqual_iff: "filesSetEqual a b \<longleftrightarrow> set a = set b"
proof -
  have "length (js_set b) = length (js_set a) \<and> set (js_set a) \<subseteq> set (js_set b) \<longleftrightarrow> set a = set b"
    using subset_length_set_eq [of "js_set a" "js_set b"] by (auto simp: distinct_card [symmetric])
  then show ?thesis by (auto simp: filesSetEqual_def Let_def list_all_iff)
qed

lemma update_first_id [simp]:
  "(\<And>x. g (f x) = g x) \<Longrightarrow> map g (update_first P f xs) = map g xs"
  by (induction xs) auto

lemma distinct_head_other: "distinct (map g (x # xs)) \<Longrightarrow> y \<in> set xs \<Longrightarrow> g y \<noteq> g x"
  by (metis distinct.simps(2) imageI list.set_map list.simps(9))

lemma update_first_unique:
  assumes "distinct (map g xs)" and "P = (\<lambda>x. g x = k)"
  shows "update_first P f xs = map (\<lambda>x. if g x = k then f x else x) xs"
  using assms(1)
proof (induction xs)
  case (Cons x xs)
  have "map (\<lambda>x. if g x = k then f x else x) xs = xs" if "g x = k"
    using distinct_head_other [OF Cons.prems] that by (intro map_idI) simp
  with Cons show ?case by (simp add: assms(2))
qed simp

lemma set_remove_first: "set (remove_first P xs) \<subseteq> set xs"
  by (induction xs) auto

lemma remove_first_unique:
  "distinct (map g xs) \<Longrightarrow> P = (\<lambda>x. g x = k) \<Longrightarrow> remove_first P xs = filter (\<lambda>x. g x \<noteq> k) xs"
proof (induction xs)
  case (Cons x xs)
  have "filter (\<lambda>x. g x \<noteq> k) xs = xs" if "g x = k"
    using distinct_head_other [OF Cons.prems(1)] that by (intro filter_True) simp
  with Cons show ?case by simp
qed simp

lemma find_None: "find P xs = None \<longleftrightarrow> \<not> list_ex P xs"
  by (induction xs) auto

lemma find_SomeD: "find P xs = Some x \<Longrightarrow> x \<in> set xs \<and> P x"
  by (induction xs) (auto split: if_splits)

lemma find_unique:
  "distinct (map g xs) \<Longrightarrow> x \<in> set xs \<Longrightarrow> find (\<lambda>y. g y = g x) xs = Some x"
proof (induction xs)
  case (Cons a xs)
  then show ?case by (cases "g a = g x") auto
qed simp

lemma has_id_iff: "has_id i ws \<longleftrightarrow> i \<in> w_id ` set ws"
  by (auto simp: has_id_def list_ex_iff)

lemma set_members_simps [simp]:
  "w_id (set_members fd xs w) = w_id w" "listed fd (set_members fd xs w) = xs"
  "fd' \<noteq> fd \<Longrightarrow> listed fd' (set_members fd xs w) = listed fd' w"
  "w_name (set_members fd xs w) = w_name w" "w_key (set_members fd xs w) = w_key w"
  "w_created (set_members fd xs w) = w_created w"
  by (cases fd; cases fd'; simp add: listed_def)+

lemma set_snap_members_simps [simp]:
  "s_id (set_snap_members fd xs p) = s_id p" "snap_members fd (set_snap_members fd xs p) = xs"
  "fd' \<noteq> fd \<Longrightarrow> snap_members fd' (set_snap_members fd xs p) = snap_members fd' p"
  "s_key (set_snap_members fd xs p) = s_key p"
  by (cases fd; cases fd'; simp)+

lemma snapshot_simps [simp]:
  "s_id (snapshotForCache w) = w_id w" "s_key (snapshotForCache w) = w_key w"
  "snap_members fd (snapshotForCache w) = listed fd w"
  by (cases fd; simp add: snapshotForCache_def)+

lemma row_changes_iff:
  "e \<in> set (row_changes i p w) \<longleftrightarrow>
     (e = KeyChanged i \<and> s_key p \<noteq> s_key w)
     \<or> (\<exists>fd. e = MembersChanged fd i \<and> set (snap_members fd p) \<noteq> set (snap_members fd w))"
proof -
  have "(\<exists>fd. Q fd) \<longleftrightarrow> Q Reports \<or> Q Bundles" for Q
    by (metis (full_types) membership_field.exhaust)
  then show ?thesis by (auto simp: row_changes_def filesSetEqual_iff)
qed

text \<open>Map lookup and first match agree on a list with unique ids.\<close>

lemma by_id_distinct:
  "distinct (map s_id ps) \<Longrightarrow> by_id ps = map (\<lambda>p. (s_id p, p)) ps"
proof -
  have gen: "distinct (map fst m @ map s_id ps) \<Longrightarrow>
      fold (\<lambda>p m. map_set (s_id p) p m) ps m = m @ map (\<lambda>p. (s_id p, p)) ps" for m
  proof (induction ps arbitrary: m)
    case (Cons p ps)
    have new: "map_set k v m = m @ [(k, v)]" if "k \<notin> fst ` set m" for k and v :: wsnap
      using that by (induction m) auto
    from Cons.prems have "map_set (s_id p) p m = m @ [(s_id p, p)]" by (intro new) auto
    with Cons show ?case by simp
  qed simp
  assume "distinct (map s_id ps)"
  with gen [of "[]"] show ?thesis by (simp add: by_id_def)
qed

definition observed :: "string \<Rightarrow> wsnap list \<Rightarrow> wsnap option" where
  "observed i ps = find (\<lambda>p. s_id p = i) ps"

lemma map_of_observed: "map_of (map (\<lambda>p. (s_id p, p)) ps) i = observed i ps"
  by (induction ps) (auto simp: observed_def)

lemma observed_in: "observed i ps = Some p \<Longrightarrow> p \<in> set ps \<and> s_id p = i"
  by (auto simp: observed_def dest: find_SomeD)

lemma observed_None: "observed i ps = None \<longleftrightarrow> i \<notin> s_id ` set ps"
  by (auto simp: observed_def find_None list_ex_iff)

lemma storage_changes_distinct:
  assumes "distinct (map s_id prev)" and "distinct (map s_id next)"
  shows "storage_changes prev next =
     map Deleted (filter (\<lambda>i. observed i next = None) (map s_id prev)) @
     concat (map (\<lambda>w. case observed (s_id w) prev of None \<Rightarrow> [Created (s_id w)]
         | Some p \<Rightarrow> row_changes (s_id w) p w) next)"
  by (simp add: storage_changes_def by_id_distinct [OF assms(1)] by_id_distinct [OF assms(2)]
      map_of_observed comp_def observed_None image_image)

section \<open>What each change does to the rows\<close>

lemma owns_detach: "owns fd x (detach fd x scope w) \<longleftrightarrow> owns fd x w \<and> \<not> in_scope scope w"
  by (auto simp: owns_def detach_def)

lemma owns_attach: "owns fd x (attach fd x w)"
  by (auto simp: owns_def attach_def)

text \<open>Only membership of \<open>x\<close> in the list \<open>fd\<close> may differ.\<close>

definition same_but :: "membership_field \<Rightarrow> string \<Rightarrow> workspace \<Rightarrow> workspace \<Rightarrow> bool" where
  "same_but fd x w w' = (w_id w' = w_id w \<and> w_name w' = w_name w \<and> w_key w' = w_key w \<and> w_created w' = w_created w
     \<and> filter (\<lambda>y. y \<noteq> x) (listed fd w') = filter (\<lambda>y. y \<noteq> x) (listed fd w)
     \<and> (\<forall>fd'. fd' \<noteq> fd \<longrightarrow> listed fd' w' = listed fd' w))"

lemma same_but_refl [simp]: "same_but fd x w w"
  by (simp add: same_but_def)

lemma same_but_trans: "same_but fd x a b \<Longrightarrow> same_but fd x b c \<Longrightarrow> same_but fd x a c"
  by (auto simp: same_but_def)

lemma same_but_detach: "same_but fd x w (detach fd x scope w)"
  by (simp add: same_but_def detach_def)

lemma same_but_attach: "same_but fd x w (attach fd x w)"
  by (auto simp: same_but_def attach_def)

lemma same_but_id: "same_but fd x w w' \<Longrightarrow> w_id w' = w_id w"
  by (simp add: same_but_def)

text \<open>The row a membership change makes of a row.\<close>

definition membership_row ::
    "membership_field \<Rightarrow> string \<Rightarrow> string option \<Rightarrow> bool \<Rightarrow> string option \<Rightarrow> workspace \<Rightarrow> workspace" where
  "membership_row fd x workspaceId additive scope w =
     (let d = (if additive then w else detach fd x scope w) in
      if workspaceId = Some (w_id w) then attach fd x d else d)"

lemma detach_id [simp]: "w_id (detach fd x scope w) = w_id w"
  by (simp add: detach_def)

lemma membership_row_same: "same_but fd x w (membership_row fd x i additive scope w)"
  by (auto simp: membership_row_def Let_def intro: same_but_trans same_but_detach same_but_attach)

lemma membership_row_id [simp]: "w_id (membership_row fd x i additive scope w) = w_id w"
  by (rule same_but_id [OF membership_row_same])

lemma membership_row_owns:
  "owns fd x (membership_row fd x i additive scope w) \<longleftrightarrow>
     i = Some (w_id w) \<or> (owns fd x w \<and> (additive \<or> \<not> in_scope scope w))"
  by (auto simp: membership_row_def Let_def owns_attach owns_detach)

lemma membership_moved:
  assumes "distinct (map w_id ws)"
  shows "(case i of None \<Rightarrow> if additive then ws else map (detach fd x scope) ws
     | Some j \<Rightarrow> update_first (\<lambda>w. w_id w = j) (attach fd x) (if additive then ws else map (detach fd x scope) ws))
     = map (membership_row fd x i additive scope) ws"
proof -
  have "distinct (map w_id (if additive then ws else map (detach fd x scope) ws))"
    using assms by (simp add: comp_def)
  from update_first_unique [OF this, of "\<lambda>w. w_id w = j" j "attach fd x" for j] show ?thesis
    by (cases i; cases additive) (auto simp: membership_row_def map_idI [symmetric])
qed

lemma membership_affected:
  assumes "distinct (map w_id ws)" and "i = None \<or> has_id (the i) ws"
  shows "(case Option.bind i (\<lambda>j. find (\<lambda>w. w_id w = j) (if additive then ws else map (detach fd x scope) ws)) of
      None \<Rightarrow> [] | Some w \<Rightarrow> if owns fd x w then [] else [w_id w])
    = map w_id (filter (\<lambda>w. i = Some (w_id w) \<and> \<not> (owns fd x w \<and> (additive \<or> \<not> in_scope scope w))) ws)"
proof (cases i)
  case (Some j)
  with assms(2) obtain t where t: "t \<in> set ws" "w_id t = j" by (auto simp: has_id_iff)
  let ?h = "\<lambda>w. if additive then w else detach fd x scope w"
  have ids: "w_id (?h w) = w_id w" for w by simp
  have ws: "(if additive then ws else map (detach fd x scope) ws) = map ?h ws" by simp
  have "distinct (map w_id (map ?h ws))" using assms(1) by (simp add: comp_def ids)
  moreover have "?h t \<in> set (map ?h ws)" using t(1) by (auto split: if_splits)
  ultimately have "find (\<lambda>w. w_id w = w_id (?h t)) (map ?h ws) = Some (?h t)" by (rule find_unique)
  then have f: "find (\<lambda>w. w_id w = j) (map ?h ws) = Some (?h t)" by (simp add: ids t(2))
  have only: "filter (\<lambda>w. j = w_id w \<and> Q w) ws = (if Q t then [t] else [])" for Q
    using assms(1) t
  proof (induction ws)
    case (Cons a as)
    show ?case
    proof (cases "t = a")
      case True
      with distinct_head_other [OF Cons.prems(1)] Cons.prems(3)
      have "filter (\<lambda>w. j = w_id w \<and> Q w) as = []" by (simp add: filter_empty_conv eq_commute)
      with True Cons.prems show ?thesis by simp
    next
      case False
      with distinct_head_other [OF Cons.prems(1)] Cons.prems have "w_id a \<noteq> j" by (metis set_ConsD)
      with Cons False show ?thesis by simp
    qed
  qed simp
  have "owns fd x (?h t) \<longleftrightarrow> owns fd x t \<and> (additive \<or> \<not> in_scope scope t)" by (simp add: owns_detach)
  with f ws Some only [of "\<lambda>w. \<not> (owns fd x w \<and> (additive \<or> \<not> in_scope scope w))"] t(2) show ?thesis
    by (simp del: if_split_asm)
qed simp

lemma find_row:
  assumes "distinct (map w_id ws)" and "i \<in> w_id ` set ws"
  shows "\<exists>w\<in>set ws. w_id w = i \<and> find (\<lambda>w. w_id w = i) ws = Some w"
  using assms find_unique [OF assms(1)] by fastforce

lemma membership_cases:
  assumes d: "distinct (map w_id ws)"
  shows "membership_mutator fd x i additive scope ws =
     (if map_option w_id (find (owns fd x) ws) = i then None
      else if i \<noteq> None \<and> \<not> has_id (the i) ws then None
      else let aff = js_set (map w_id (filter (\<lambda>w. \<not> additive \<and> in_scope scope w \<and> owns fd x w) ws) @
                map w_id (filter (\<lambda>w. i = Some (w_id w) \<and> \<not> (owns fd x w \<and> (additive \<or> \<not> in_scope scope w))) ws));
               ws' = map (membership_row fd x i additive scope) ws
           in if aff = [] then None
              else Some (ws', MembersSet fd (map (\<lambda>j. (j, the (find (\<lambda>w. w_id w = j) ws'))) aff)))"
proof -
  let ?ws' = "map (membership_row fd x i additive scope) ws"
  have left: "(if additive then [] else map w_id (filter (\<lambda>w. in_scope scope w \<and> owns fd x w) ws))
      = map w_id (filter (\<lambda>w. \<not> additive \<and> in_scope scope w \<and> owns fd x w) ws)" by simp
  have pairs: "concat (map (\<lambda>j. case find (\<lambda>w. w_id w = j) ?ws' of None \<Rightarrow> [] | Some w \<Rightarrow> [(j, w)]) js)
      = map (\<lambda>j. (j, the (find (\<lambda>w. w_id w = j) ?ws'))) js" if "set js \<subseteq> w_id ` set ws" for js
    using that
  proof (induction js)
    case (Cons j js)
    have "distinct (map w_id ?ws')" using d by (simp add: comp_def)
    moreover have "j \<in> w_id ` set ?ws'" using Cons.prems by (auto simp: image_image)
    ultimately obtain w where "find (\<lambda>w. w_id w = j) ?ws' = Some w" using find_row by blast
    with Cons show ?case by simp
  qed simp
  show ?thesis
  proof (cases "i = None \<or> has_id (the i) ws")
    case True
    show ?thesis
      unfolding membership_mutator_def Let_def membership_moved [OF d] membership_affected [OF d True] left
      by (subst pairs) auto
  next
    case False
    then show ?thesis by (simp add: membership_mutator_def)
  qed
qed

lemma create_rows: "create_mutator w ws = Some (ws', fu) \<Longrightarrow>
    ws' = ws @ [w] \<and> w_id w \<notin> w_id ` set ws \<and> fu = CreatedHere w"
  by (auto simp: create_mutator_def has_id_iff split: if_splits)

lemma delete_rows: "delete_mutator i ws = Some (ws', fu) \<Longrightarrow>
    ws' = remove_first (\<lambda>w. w_id w = i) ws \<and> i \<in> w_id ` set ws \<and> fu = DeletedHere i"
  by (auto simp: delete_mutator_def has_id_iff split: if_splits)

lemma rename_rows: "rename_mutator i n ws = Some (ws', fu) \<Longrightarrow>
    ws' = update_first (\<lambda>w. w_id w = i) (\<lambda>w. w\<lparr>w_name := Some n\<rparr>) ws \<and> (\<exists>w. fu = RenamedHere w)"
  by (auto simp: rename_mutator_def split: if_splits option.splits)

lemma upserted_id [simp]: "w_id (upserted u now p) = u_id u"
  by (simp add: upserted_def Let_def)

lemma upsert_rows:
  assumes "distinct (map w_id ws)" and "upsert_mutator u now ws = Some (ws', fu)"
  shows "(\<exists>w. fu = Upserted w \<and> w_id w = u_id u) \<and> distinct (map w_id ws')"
proof -
  let ?p = "find (\<lambda>w. w_id w = u_id u) ws"
  let ?w = "upserted u now ?p"
  have ids: "w_id ?w = u_id u" by simp
  from assms(2) have fu: "fu = Upserted ?w"
    and ws': "ws' = (case ?p of None \<Rightarrow> ws @ [?w] | Some _ \<Rightarrow> update_first (\<lambda>w. w_id w = u_id u) (\<lambda>_. ?w) ws)"
    by (auto simp: upsert_mutator_def Let_def)
  have "distinct (map w_id ws')"
  proof (cases ?p)
    case None
    then have "u_id u \<notin> w_id ` set ws" by (auto simp: find_None list_ex_iff)
    with None ws' assms(1) show ?thesis by simp
  next
    case (Some a)
    have "map w_id (update_first (\<lambda>w. w_id w = u_id u) (\<lambda>_. ?w) ws)
        = map w_id (map (\<lambda>w. if w_id w = u_id u then ?w else w) ws)"
      by (simp add: update_first_unique [OF assms(1) refl])
    also have "\<dots> = map w_id ws" by simp
    finally show ?thesis using Some ws' assms(1) by simp
  qed
  with fu ids show ?thesis by blast
qed

lemma attach_rows:
  assumes "attach_mutator i name key created ws = Some (ws', fu)"
  shows "\<exists>w. ws' = ws @ [w] \<and> w_id w = i \<and> i \<notin> w_id ` set ws \<and> fu = AttachedHere w"
proof -
  from assms obtain w where w: "attach_decision i name key created ws = Attached w"
    and ws': "ws' = ws @ [w]" "fu = AttachedHere w"
    by (auto simp: attach_mutator_def split: attach_outcome.splits)
  from w have "w_id w = i \<and> i \<notin> w_id ` set ws"
    by (auto simp: attach_decision_def new_workspace_def find_None list_ex_iff split: option.splits)
  with ws' show ?thesis by blast
qed

lemma membership_rows:
  assumes "distinct (map w_id ws)" and "membership_mutator fd x i additive scope ws = Some (ws', fu)"
  shows "ws' = map (membership_row fd x i additive scope) ws
     \<and> (\<exists>js. fu = MembersSet fd (map (\<lambda>j. (j, the (find (\<lambda>w. w_id w = j) ws'))) js)
          \<and> js = js_set (map w_id (filter (\<lambda>w. \<not> additive \<and> in_scope scope w \<and> owns fd x w) ws) @
                map w_id (filter (\<lambda>w. i = Some (w_id w) \<and> \<not> (owns fd x w \<and> (additive \<or> \<not> in_scope scope w))) ws)))"
  using assms(2) unfolding membership_cases [OF assms(1)] Let_def by (auto simp del: map_append split: if_splits)

section \<open>Properties of the operations\<close>

text \<open>Whether a row holds the identifier after a change.\<close>

definition holds_after :: "membership_field \<Rightarrow> string \<Rightarrow> string option \<Rightarrow> bool \<Rightarrow> string option \<Rightarrow> workspace \<Rightarrow> bool" where
  "holds_after fd x i additive scope w =
     (i = Some (w_id w) \<or> (owns fd x w \<and> (additive \<or> \<not> in_scope scope w)))"

text \<open>A membership change, in each of its three modes, does to every row exactly
  what it says: the target holds the identifier, a row in the scope of a detaching
  change no longer does, every other row and every other identifier and field is as it
  was; and the listeners called are those of the rows whose membership changed, or of
  the target. Where nothing is written, the target is unknown, is already the first
  owner, or no membership would change.\<close>

theorem membership_spec:
  assumes "distinct (map w_id ws)"
  shows "case membership_mutator fd x i additive scope ws of
     None \<Rightarrow> map_option w_id (find (owns fd x) ws) = i \<or> (i \<noteq> None \<and> the i \<notin> w_id ` set ws)
       \<or> (\<forall>w\<in>set ws. holds_after fd x i additive scope w = owns fd x w)
   | Some (ws', fu) \<Rightarrow> list_all2 (\<lambda>w w'. same_but fd x w w' \<and> owns fd x w' = holds_after fd x i additive scope w) ws ws'
       \<and> (\<exists>aff. fu = MembersSet fd aff \<and> set (map snd aff) \<subseteq> set ws'
          \<and> w_id ` {w \<in> set ws. holds_after fd x i additive scope w \<noteq> owns fd x w} \<subseteq> set (map fst aff)
          \<and> set (map fst aff) \<subseteq> w_id ` {w \<in> set ws. holds_after fd x i additive scope w \<noteq> owns fd x w \<or> i = Some (w_id w)})"
proof (cases "membership_mutator fd x i additive scope ws")
  case None
  have "\<forall>w\<in>set ws. holds_after fd x i additive scope w = owns fd x w"
    if "js_set (map w_id (filter (\<lambda>w. \<not> additive \<and> in_scope scope w \<and> owns fd x w) ws) @
        map w_id (filter (\<lambda>w. i = Some (w_id w) \<and> \<not> (owns fd x w \<and> (additive \<or> \<not> in_scope scope w))) ws)) = []"
    using that by (auto simp: holds_after_def filter_empty_conv)
  with None show ?thesis unfolding membership_cases [OF assms(1)] Let_def
    by (auto simp: has_id_iff split: if_splits)
next
  case (Some p)
  then obtain ws' fu where p: "membership_mutator fd x i additive scope ws = Some (ws', fu)" by (cases p) auto
  let ?js = "js_set (map w_id (filter (\<lambda>w. \<not> additive \<and> in_scope scope w \<and> owns fd x w) ws) @
      map w_id (filter (\<lambda>w. i = Some (w_id w) \<and> \<not> (owns fd x w \<and> (additive \<or> \<not> in_scope scope w))) ws))"
  from membership_rows [OF assms(1) p] have ws': "ws' = map (membership_row fd x i additive scope) ws"
    and fu: "fu = MembersSet fd (map (\<lambda>j. (j, the (find (\<lambda>w. w_id w = j) ws'))) ?js)" by auto
  have d: "distinct (map w_id ws')" using assms(1) by (simp add: ws' comp_def)
  have found: "the (find (\<lambda>w. w_id w = j) ws') \<in> set ws'" if "j \<in> set ?js" for j
  proof -
    from that have "j \<in> w_id ` set ws'" by (auto simp: ws' image_image)
    with find_row [OF d] show ?thesis by force
  qed
  have rows: "list_all2 (\<lambda>w w'. same_but fd x w w' \<and> owns fd x w' = holds_after fd x i additive scope w) ws ws'"
    by (simp add: ws' list_all2_map2 membership_row_same membership_row_owns holds_after_def list_all2_same)
  have upper: "set ?js \<subseteq> w_id ` {w \<in> set ws. holds_after fd x i additive scope w \<noteq> owns fd x w \<or> i = Some (w_id w)}"
    by (auto simp: holds_after_def)
  have lower: "w_id ` {w \<in> set ws. holds_after fd x i additive scope w \<noteq> owns fd x w} \<subseteq> set ?js"
    by (auto simp: holds_after_def)
  have keys: "set (map fst (map (\<lambda>j. (j, the (find (\<lambda>w. w_id w = j) ws'))) ?js)) = set ?js"
    by (simp add: comp_def)
  have rows_in: "set (map snd (map (\<lambda>j. (j, the (find (\<lambda>w. w_id w = j) ws'))) ?js)) \<subseteq> set ws'"
    using found by auto
  show ?thesis unfolding p option.case prod.case
    using rows fu rows_in lower upper unfolding keys [symmetric] by blast
qed

definition sample_row :: "string \<Rightarrow> string list \<Rightarrow> workspace" where
  "sample_row i rs = \<lparr>w_id = i, w_name = Some i, w_key = ''k'' @ i, w_reports = Some rs, w_bundles = None, w_created = 1\<rparr>"

definition sample_rows :: "workspace list" where
  "sample_rows = [sample_row ''a'' [''r'', ''q''], sample_row ''b'' [], sample_row ''c'' [''r'']]"

theorem membership_spec_witness:
  "\<exists>ws' fu. membership_mutator Reports ''r'' (Some ''b'') False None sample_rows = Some (ws', fu)
     \<and> map (owns Reports ''r'') ws' = [False, True, False]"
proof -
  have d: "distinct (map w_id sample_rows)" by (simp add: sample_rows_def sample_row_def)
  have "membership_mutator Reports ''r'' (Some ''b'') False None sample_rows \<noteq> None"
    by (simp add: membership_cases [OF d]) (simp add: sample_rows_def sample_row_def owns_def listed_def in_scope_def
      has_id_def js_set_def set_add_def Let_def)
  then obtain ws' fu where m: "membership_mutator Reports ''r'' (Some ''b'') False None sample_rows = Some (ws', fu)"
    by auto
  have "list_all2 (\<lambda>w w'. same_but Reports ''r'' w w' \<and> owns Reports ''r'' w' = holds_after Reports ''r'' (Some ''b'') False None w) sample_rows ws'"
    using membership_spec [OF d, of Reports "''r''" "Some ''b''" False None] by (simp add: m)
  then have "map (owns Reports ''r'') ws' = map (holds_after Reports ''r'' (Some ''b'') False None) sample_rows"
    by (induction rule: list_all2_induct) auto
  also have "\<dots> = [False, True, False]"
    by (simp add: sample_rows_def sample_row_def holds_after_def in_scope_def)
  finally show ?thesis by (intro exI [of _ ws'] exI [of _ fu] conjI m)
qed

lemma hydrate_fst [simp]: "fst (hydrate st) = fst st"
  by (cases st) (simp add: hydrate_def)

lemma fire_simps [simp]:
  "tab_cache (fire e t) = tab_cache t" "lastSeen (fire e t) = lastSeen t" "fired (fire e t) = fired t @ [e]"
  "tab_opens (fire e t) = tab_opens t" "tab_saves (fire e t) = tab_saves t"
  by (simp_all add: fire_def)

lemma fires_simps [simp]:
  "tab_cache (fold fire es t) = tab_cache t" "lastSeen (fold fire es t) = lastSeen t" "fired (fold fire es t) = fired t @ es"
  "tab_opens (fold fire es t) = tab_opens t" "tab_saves (fold fire es t) = tab_saves t"
  by (induction es arbitrary: t) auto

lemma propagate_simps [simp]:
  "tab_cache (propagateWorkspaceChangesFromStorage t) = tab_cache t"
  "lastSeen (propagateWorkspaceChangesFromStorage t) = map snapshotForCache (readRaw t)"
  "fired (propagateWorkspaceChangesFromStorage t) = fired t @ storage_changes (lastSeen t) (map snapshotForCache (readRaw t))"
  "tab_opens (propagateWorkspaceChangesFromStorage t) = tab_opens t"
  "tab_saves (propagateWorkspaceChangesFromStorage t) = tab_saves t"
  by (simp_all add: propagateWorkspaceChangesFromStorage_def Let_def)

lemma hydrate_simps [simp]:
  "tab_cache (snd (hydrate st)) = (if tab_opens (snd st) then fst st else None)"
  "tab_opens (snd (hydrate st)) = tab_opens (snd st)" "tab_saves (snd (hydrate st)) = tab_saves (snd st)"
  by (cases st; simp add: hydrate_def)+

text \<open>The rows a change under the lock works on.\<close>

definition rows_read :: "wstore \<Rightarrow> workspace list" where
  "rows_read st = (if tab_opens (snd st) then rows_in (fst st) else [])"

lemma readRaw_hydrate [simp]: "readRaw (snd (hydrate st)) = rows_read st"
  by (simp add: readRaw_def rows_read_def rows_in_def)

lemma hydrate_seen: "lastSeen (snd (hydrate st)) = map snapshotForCache (rows_read st)"
  "fired (snd (hydrate st)) = fired (snd st) @ storage_changes (lastSeen (snd st)) (map snapshotForCache (rows_read st))"
  by (cases st; simp add: hydrate_def readRaw_def rows_read_def rows_in_def)+

lemma mutate_cases:
  "mutateWorkspaces m st = (case m (rows_read st) of
      None \<Rightarrow> (hydrate st, Skipped)
    | Some (ws, r) \<Rightarrow> if tab_saves (snd st)
        then ((Some (Versioned 1 ws), (snd (hydrate st))\<lparr>tab_cache := Some (Versioned 1 ws)\<rparr>), Wrote r)
        else (hydrate st, Threw))"
proof -
  have "tab_saves (snd (hydrate st)) = tab_saves (snd st)" by simp
  then show ?thesis
    by (cases "hydrate st")
      (auto simp: mutateWorkspaces_def Let_def writeRaw_def readRaw_hydrate [of st, symmetric] simp del: readRaw_hydrate
        split: option.splits prod.splits)
qed

lemma rows_in_written [simp]: "rows_in (Some (Versioned n ws)) = ws"
  by (simp add: rows_in_def)

lemma attach_run:
  "attachSharedWorkspace i name key createdAt now st =
     (let created = (case createdAt of None \<Rightarrow> now | Some c \<Rightarrow> c) in
      case attach_decision i name key created (rows_read st) of
        Attached w \<Rightarrow>
          if tab_saves (snd st)
          then ((Some (Versioned 1 (rows_read st @ [w])),
                 finish (AttachedHere w) ((snd (hydrate st))\<lparr>tab_cache := Some (Versioned 1 (rows_read st @ [w]))\<rparr>)), Some (Attached w))
          else (hydrate st, None)
      | d \<Rightarrow> (hydrate st, Some d))"
proof -
  let ?d = "attach_decision i name key (case createdAt of None \<Rightarrow> now | Some c \<Rightarrow> c) (rows_read st)"
  obtain dk t where h: "hydrate st = (dk, t)" by (cases "hydrate st")
  then have "readRaw t = rows_read st" using readRaw_hydrate [of st] by simp
  note h = h this
  show ?thesis
    by (cases ?d; simp add: attachSharedWorkspace_def Let_def perform_def mutate_cases attach_mutator_def h)
qed

text \<open>Attaching a shared workspace answers exactly one of its outcomes, for its
  reason: attached only where the id is new and no stored name reads the same, then
  stored after every row that was there and announced; any other answer writes nothing,
  and a name that reads as empty or a stored twin is named as the collision.\<close>

theorem attach_outcomes:
  assumes "attachSharedWorkspace i name key createdAt now st = (st', out)"
  shows "case out of
     None \<Rightarrow> \<not> tab_saves (snd st) \<and> fst st' = fst st
   | Some (Attached w) \<Rightarrow> w_id w = i \<and> w_key w = key \<and> w_name w = sanitizeWorkspaceName name
       \<and> i \<notin> w_id ` set (rows_read st)
       \<and> (\<forall>r\<in>set (rows_read st). sanitizeWorkspaceName (w_name r) \<noteq> sanitizeWorkspaceName name)
       \<and> fst st' = Some (Versioned 1 (rows_read st @ [w])) \<and> Created i \<in> set (fired (snd st'))
   | Some (AlreadyAttached w) \<Rightarrow> fst st' = fst st \<and> w \<in> set (rows_read st) \<and> w_id w = i
   | Some (NameCollision None) \<Rightarrow> fst st' = fst st \<and> sanitizeWorkspaceName name = None
   | Some (NameCollision (Some w)) \<Rightarrow> fst st' = fst st \<and> w \<in> set (rows_read st) \<and> w_id w \<noteq> i
       \<and> sanitizeWorkspaceName (w_name w) = sanitizeWorkspaceName name"
proof -
  let ?c = "case createdAt of None \<Rightarrow> now | Some c \<Rightarrow> c"
  let ?d = "attach_decision i name key ?c (rows_read st)"
  show ?thesis
  proof (cases ?d)
    case (Attached w)
    then obtain n where n: "sanitizeWorkspaceName name = Some n" "w = new_workspace i n key ?c"
      "find (\<lambda>w. w_id w = i) (rows_read st) = None"
      "find (\<lambda>w. sanitizeWorkspaceName (w_name w) = Some n) (rows_read st) = None"
      by (auto simp: attach_decision_def split: option.splits)
    from n(3,4) have "i \<notin> w_id ` set (rows_read st)"
      "\<forall>r\<in>set (rows_read st). sanitizeWorkspaceName (w_name r) \<noteq> Some n"
      by (auto simp: find_None list_ex_iff)
    with assms Attached n(1,2) show ?thesis
      by (cases "tab_saves (snd st)") (auto simp: attach_run Let_def markObservedFor_def new_workspace_def)
  next
    case (AlreadyAttached w)
    then have "find (\<lambda>w. w_id w = i) (rows_read st) = Some w"
      by (auto simp: attach_decision_def split: option.splits)
    with find_SomeD [OF this] assms AlreadyAttached show ?thesis
      by (auto simp: attach_run Let_def)
  next
    case (NameCollision ow)
    have st': "fst st' = fst st" "out = Some ?d"
      using assms NameCollision
      by (auto simp: attach_run Let_def)
    show ?thesis
    proof (cases ow)
      case None
      with NameCollision have "sanitizeWorkspaceName name = None"
        by (auto simp: attach_decision_def split: option.splits)
      with None NameCollision st' show ?thesis by simp
    next
      case (Some w)
      with NameCollision obtain n where n: "sanitizeWorkspaceName name = Some n"
        "find (\<lambda>w. w_id w = i) (rows_read st) = None"
        "find (\<lambda>w. sanitizeWorkspaceName (w_name w) = Some n) (rows_read st) = Some w"
        by (auto simp: attach_decision_def split: option.splits)
      from find_SomeD [OF n(3)] n(2) have "w \<in> set (rows_read st)" "sanitizeWorkspaceName (w_name w) = Some n" "w_id w \<noteq> i"
        by (auto simp: find_None list_ex_iff)
      with Some NameCollision st' n(1) show ?thesis by simp
    qed
  qed
qed

definition sample_tab :: wtab where
  "sample_tab = \<lparr>tab_cache = None, lastSeen = [], fired = [], tab_opens = True, tab_saves = True\<rparr>"

theorem attach_outcomes_witness:
  "\<exists>st' w. attachSharedWorkspace ''x'' (Some '' a '') ''kx'' None 7 (Some (Versioned 1 sample_rows), sample_tab)
      = (st', Some (NameCollision (Some w))) \<and> w \<in> set sample_rows \<and> w_id w \<noteq> ''x''"
proof -
  let ?st = "(Some (Versioned 1 sample_rows), sample_tab)"
  obtain st' out where r: "attachSharedWorkspace ''x'' (Some '' a '') ''kx'' None 7 ?st = (st', out)" by fastforce
  have rows: "rows_read ?st = sample_rows" by (simp add: rows_read_def sample_tab_def)
  have "attach_decision ''x'' (Some '' a '') ''kx'' 7 sample_rows = NameCollision (Some (sample_row ''a'' [''r'', ''q'']))"
    by code_simp
  then have out: "out = Some (NameCollision (Some (sample_row ''a'' [''r'', ''q''])))"
    using r rows by (auto simp: attach_run Let_def)
  from attach_outcomes [OF r] have "sample_row ''a'' [''r'', ''q''] \<in> set sample_rows \<and> w_id (sample_row ''a'' [''r'', ''q'']) \<noteq> ''x''"
    by (simp add: out rows)
  with r out show ?thesis by blast
qed

text \<open>The check reads a stored name once more through \<open>sanitizeWorkspaceName\<close>, which
  does not always give it back: a name that starts with a control character keeps a
  space that a second reading trims, so its twin is not seen.\<close>

lemma twin_names_attached:
  defines "raw \<equiv> Some (CHR 0x01 # '' a'')"
  shows "sanitizeWorkspaceName raw = Some '' a'' \<and> sanitizeWorkspaceName (Some '' a'') = Some ''a''
    \<and> attach_decision ''j'' raw ''k'' 0 [new_workspace ''i'' '' a'' ''k'' 0] = Attached (new_workspace ''j'' '' a'' ''k'' 0)"
  unfolding raw_def by code_simp

end
