(* ===== verification/WorkspaceTabs.thy ===== *)
theory WorkspaceTabs
  imports Workspaces
begin

text \<open>
  Several tabs over one storage (\<^verbatim>\<open>src/client/workspaces.js\<close>): what a propagation
  tells the listeners, the changes of all tabs as one sequence, and that no tab's
  view moves without its listeners being told.
\<close>

section \<open>Several tabs\<close>

text \<open>
  A request is an operation with its arguments and what the clock and the random
  source gave it. A tab's step is the part of a request under the lock, the rest
  of one, a hydration (that of a storage event, or of the vault), or the vault
  opening and closing: a tab that cannot read the stored value has no key to write
  with, while one that reads may still be refused a write. A name that reads as
  empty ends a request before the lock; its step here hydrates the tab as well.
\<close>

datatype request =
    Create "string option" string int
  | Delete string
  | Rename string "string option"
  | Upsert upsert_arg int
  | Attach string "string option" string int
  | Member membership_field string "string option" bool "string option"

fun mutator_of :: "(string \<Rightarrow> string) \<Rightarrow> request \<Rightarrow> mutator" where
  "mutator_of derive (Create name key now) ws = (case sanitizeWorkspaceName name of
     None \<Rightarrow> None | Some n \<Rightarrow> create_mutator (new_workspace (derive key) n key now) ws)"
| "mutator_of derive (Delete i) ws = delete_mutator i ws"
| "mutator_of derive (Rename i name) ws = (case sanitizeWorkspaceName name of
     None \<Rightarrow> None | Some n \<Rightarrow> rename_mutator i n ws)"
| "mutator_of derive (Upsert u now) ws = upsert_mutator u now ws"
| "mutator_of derive (Attach i name key created) ws = attach_mutator i name key created ws"
| "mutator_of derive (Member fd x i additive scope) ws = membership_mutator fd x i additive scope ws"

record wsystem =
  wdisk :: "wblob option"
  wtabs :: "nat \<Rightarrow> wtab"
  pending :: "(nat \<times> followup) list"

definition put_tab :: "nat \<Rightarrow> wstore \<Rightarrow> wsystem \<Rightarrow> wsystem" where
  "put_tab i st s = s\<lparr>wdisk := fst st, wtabs := (wtabs s)(i := snd st)\<rparr>"

inductive wstep :: "(string \<Rightarrow> string) \<Rightarrow> wsystem \<Rightarrow> request option \<Rightarrow> nat \<Rightarrow> wsystem \<Rightarrow> bool" for derive where
  Request: "mutateWorkspaces (mutator_of derive r) (wdisk s, wtabs s i) = (st, res) \<Longrightarrow>
     s' = (put_tab i st s)\<lparr>pending := pending s @ (case res of Wrote fu \<Rightarrow> [(i, fu)] | _ \<Rightarrow> [])\<rparr> \<Longrightarrow>
     wstep derive s (if (\<exists>fu. res = Wrote fu) then Some r else None) i s'"
| Finish: "(i, fu) \<in> set (pending s) \<Longrightarrow>
     s' = s\<lparr>wtabs := (wtabs s)(i := finish fu (wtabs s i)), pending := remove1 (i, fu) (pending s)\<rparr> \<Longrightarrow>
     wstep derive s None i s'"
| Hydrate: "s' = put_tab i (hydrate (wdisk s, wtabs s i)) s \<Longrightarrow> wstep derive s None i s'"
| Vault: "(o2 \<Longrightarrow> o1) \<Longrightarrow> s' = s\<lparr>wtabs := (wtabs s)(i := (wtabs s i)\<lparr>tab_opens := o1, tab_saves := o2\<rparr>)\<rparr> \<Longrightarrow> wstep derive s None i s'"

section \<open>What a propagation tells\<close>

lemma observed_simps [simp]:
  "observed i [] = None" "observed i (p # ps) = (if s_id p = i then Some p else observed i ps)"
  by (auto simp: observed_def)

lemma observed_append: "observed i (ps @ qs) = (case observed i ps of None \<Rightarrow> observed i qs | Some p \<Rightarrow> Some p)"
  by (induction ps) auto

lemma observed_filter: "k \<noteq> i \<Longrightarrow> observed k (filter (\<lambda>p. s_id p \<noteq> i) ps) = observed k ps"
  by (induction ps) auto

lemma observed_filter_self [simp]: "observed i (filter (\<lambda>p. s_id p \<noteq> i) ps) = None"
  by (induction ps) auto

lemma observed_member: "distinct (map s_id ps) \<Longrightarrow> p \<in> set ps \<Longrightarrow> observed (s_id p) ps = Some p"
  by (simp add: observed_def find_unique)

fun about :: "wevent \<Rightarrow> string" where
  "about (Created i) = i" | "about (Deleted i) = i" | "about (KeyChanged i) = i" | "about (MembersChanged _ i) = i"

definition told :: "wevent \<Rightarrow> wsnap list \<Rightarrow> wsnap list \<Rightarrow> bool" where
  "told e prev next = (case e of
     Created i \<Rightarrow> observed i prev = None \<and> observed i next \<noteq> None
   | Deleted i \<Rightarrow> observed i prev \<noteq> None \<and> observed i next = None
   | KeyChanged i \<Rightarrow> (\<exists>p q. observed i prev = Some p \<and> observed i next = Some q \<and> s_key p \<noteq> s_key q)
   | MembersChanged fd i \<Rightarrow> (\<exists>p q. observed i prev = Some p \<and> observed i next = Some q
        \<and> set (snap_members fd p) \<noteq> set (snap_members fd q)))"

lemma changes_of_row:
  "e \<in> set (case observed i prev of None \<Rightarrow> [Created i] | Some p \<Rightarrow> row_changes i p q) \<longleftrightarrow>
     (e = Created i \<and> observed i prev = None)
     \<or> (\<exists>p. observed i prev = Some p \<and> (e = KeyChanged i \<and> s_key p \<noteq> s_key q
          \<or> (\<exists>fd. e = MembersChanged fd i \<and> set (snap_members fd p) \<noteq> set (snap_members fd q))))"
  by (auto simp: row_changes_iff split: option.splits)

lemma storage_changes_exact:
  assumes "distinct (map s_id prev)" and "distinct (map s_id next)"
  shows "e \<in> set (storage_changes prev next) \<longleftrightarrow> told e prev next"
proof -
  have mem: "(\<exists>q\<in>set next. s_id q = i \<and> P q) \<longleftrightarrow> (\<exists>q. observed i next = Some q \<and> P q)" for i P
    using observed_member [OF assms(2)] observed_in [of i "next"] by fastforce
  have del: "i \<in> s_id ` set prev \<longleftrightarrow> observed i prev \<noteq> None" for i
    by (simp add: observed_None)
  have conc: "e \<in> set (storage_changes prev next) \<longleftrightarrow>
      (\<exists>i. e = Deleted i \<and> i \<in> s_id ` set prev \<and> observed i next = None)
      \<or> (\<exists>q\<in>set next. e \<in> set (case observed (s_id q) prev of None \<Rightarrow> [Created (s_id q)] | Some p \<Rightarrow> row_changes (s_id q) p q))"
    unfolding storage_changes_distinct [OF assms] by auto
  show ?thesis
  proof (cases e)
    case (Created i)
    have "(\<exists>q\<in>set next. Created i = Created (s_id q) \<and> observed (s_id q) prev = None) \<longleftrightarrow> (\<exists>q\<in>set next. s_id q = i \<and> observed i prev = None)"
      by auto
    with Created mem [of i "\<lambda>_. observed i prev = None"] show ?thesis
      unfolding conc changes_of_row by (simp add: told_def) blast
  next
    case (Deleted i)
    with del [of i] show ?thesis unfolding conc changes_of_row by (simp add: told_def)
  next
    case (KeyChanged i)
    have "(\<exists>q\<in>set next. \<exists>p. observed (s_id q) prev = Some p \<and> KeyChanged i = KeyChanged (s_id q) \<and> s_key p \<noteq> s_key q) \<longleftrightarrow>
        (\<exists>q\<in>set next. s_id q = i \<and> (\<exists>p. observed i prev = Some p \<and> s_key p \<noteq> s_key q))" by auto
    with KeyChanged mem [of i "\<lambda>q. \<exists>p. observed i prev = Some p \<and> s_key p \<noteq> s_key q"] show ?thesis
      unfolding conc changes_of_row by (simp add: told_def) blast
  next
    case (MembersChanged fd i)
    have "(\<exists>q\<in>set next. \<exists>p. observed (s_id q) prev = Some p \<and> (\<exists>fd'. MembersChanged fd i = MembersChanged fd' (s_id q)
          \<and> set (snap_members fd' p) \<noteq> set (snap_members fd' q))) \<longleftrightarrow>
        (\<exists>q\<in>set next. s_id q = i \<and> (\<exists>p. observed i prev = Some p \<and> set (snap_members fd p) \<noteq> set (snap_members fd q)))" by auto
    with MembersChanged mem [of i "\<lambda>q. \<exists>p. observed i prev = Some p \<and> set (snap_members fd p) \<noteq> set (snap_members fd q)"] show ?thesis
      unfolding conc changes_of_row by (simp add: told_def) blast
  qed
qed

text \<open>A propagation leaves the tab knowing exactly the rows it read, and tells its
  listeners exactly the differences from what they knew: every row that is new or gone,
  every key that differs, every membership list that differs as a set, and nothing else.\<close>

theorem propagation_exact:
  assumes "distinct (map w_id (readRaw t))" and "distinct (map s_id (lastSeen t))"
    and "t' = propagateWorkspaceChangesFromStorage t"
  shows "lastSeen t' = map snapshotForCache (readRaw t)
    \<and> (\<exists>ev. fired t' = fired t @ ev \<and> (\<forall>e. e \<in> set ev \<longleftrightarrow> told e (lastSeen t) (lastSeen t')))"
proof -
  have "distinct (map s_id (map snapshotForCache (readRaw t)))" using assms(1) by (simp add: comp_def)
  from storage_changes_exact [OF assms(2) this] show ?thesis unfolding assms(3) by simp
qed

theorem propagation_exact_witness:
  "\<exists>ev. fired (propagateWorkspaceChangesFromStorage (sample_tab\<lparr>tab_cache := Some (LegacyArray sample_rows)\<rparr>)) = ev
     \<and> Created ''b'' \<in> set ev \<and> KeyChanged ''b'' \<notin> set ev"
proof -
  let ?t = "sample_tab\<lparr>tab_cache := Some (LegacyArray sample_rows)\<rparr>"
  have "distinct (map w_id (readRaw ?t))" "distinct (map s_id (lastSeen ?t))"
    by (simp_all add: readRaw_def rows_in_def sample_rows_def sample_row_def sample_tab_def)
  from propagation_exact [OF this refl] obtain ev where
    "fired (propagateWorkspaceChangesFromStorage ?t) = fired ?t @ ev"
    and ev: "\<And>e. e \<in> set ev \<longleftrightarrow> told e (lastSeen ?t) (lastSeen (propagateWorkspaceChangesFromStorage ?t))" by blast
  moreover have "told (Created ''b'') (lastSeen ?t) (lastSeen (propagateWorkspaceChangesFromStorage ?t))"
    "\<not> told (KeyChanged ''b'') (lastSeen ?t) (lastSeen (propagateWorkspaceChangesFromStorage ?t))"
    by (simp_all add: told_def readRaw_def rows_in_def sample_rows_def sample_row_def sample_tab_def)
  ultimately show ?thesis by (simp add: sample_tab_def)
qed

section \<open>The changes of all tabs as one sequence\<close>

text \<open>A request as a function of the stored rows alone.\<close>

definition applied :: "(string \<Rightarrow> string) \<Rightarrow> request \<Rightarrow> workspace list \<Rightarrow> workspace list" where
  "applied derive r ws = (case mutator_of derive r ws of None \<Rightarrow> ws | Some (ws', _) \<Rightarrow> ws')"

inductive wrun :: "(string \<Rightarrow> string) \<Rightarrow> wsystem \<Rightarrow> request list \<Rightarrow> wsystem \<Rightarrow> bool" for derive where
  Start: "wrun derive s [] s"
| Step: "wrun derive s rs s1 \<Longrightarrow> wstep derive s1 done i s2 \<Longrightarrow>
    wrun derive s (rs @ (case done of None \<Rightarrow> [] | Some r \<Rightarrow> [r])) s2"

lemma mutator_distinct:
  assumes "distinct (map w_id ws)" and "mutator_of derive r ws = Some (ws', fu)"
  shows "distinct (map w_id ws')"
proof (cases r)
  case (Create name key now)
  with assms show ?thesis by (auto dest!: create_rows split: option.splits)
next
  case (Delete i)
  with assms(2) have "ws' = filter (\<lambda>w. w_id w \<noteq> i) ws"
    using remove_first_unique [OF assms(1) refl, of i] by (auto dest: delete_rows)
  with assms(1) show ?thesis by (simp add: distinct_map_filter)
next
  case (Rename i name)
  with assms show ?thesis by (auto dest!: rename_rows split: option.splits)
next
  case (Upsert u now)
  with assms upsert_rows show ?thesis by auto
next
  case (Attach i name key created)
  with assms show ?thesis by (auto dest!: attach_rows)
next
  case (Member fd x i additive scope)
  with membership_rows [OF assms(1), of fd x i additive scope] assms show ?thesis by (auto simp: comp_def)
qed

lemma applied_distinct: "distinct (map w_id ws) \<Longrightarrow> distinct (map w_id (applied derive r ws))"
  by (auto simp: applied_def mutator_distinct split: option.splits)

text \<open>What one step does to the storage and to the tabs.\<close>

definition tab_ok :: "wtab \<Rightarrow> bool" where
  "tab_ok t = ((tab_saves t \<longrightarrow> tab_opens t) \<and> distinct (map s_id (lastSeen t)))"

definition system_ok :: "wsystem \<Rightarrow> bool" where
  "system_ok s = (distinct (map w_id (rows_in (wdisk s))) \<and> (\<forall>i. tab_ok (wtabs s i)))"

lemma hydrate_ok:
  assumes "tab_ok t" and "distinct (map w_id (rows_in d))"
  shows "tab_ok (snd (hydrate (d, t)))"
  using assms by (simp add: tab_ok_def hydrate_seen rows_read_def comp_def)

lemma mark_simps [simp]:
  "tab_opens (markObservedFor w t) = tab_opens t" "tab_saves (markObservedFor w t) = tab_saves t"
  "tab_opens (markObservedDeleted i t) = tab_opens t" "tab_saves (markObservedDeleted i t) = tab_saves t"
  "tab_opens (markObservedFieldFor fd w t) = tab_opens t" "tab_saves (markObservedFieldFor fd w t) = tab_saves t"
  "fired (markObservedFor w t) = fired t" "fired (markObservedDeleted i t) = fired t"
  "fired (markObservedFieldFor fd w t) = fired t"
  by (simp_all add: markObservedFor_def markObservedDeleted_def markObservedFieldFor_def split: option.splits)

lemma announce_upsert_simps [simp]:
  "tab_opens (announce_upsert w t) = tab_opens t" "tab_saves (announce_upsert w t) = tab_saves t"
  "lastSeen (announce_upsert w t) = lastSeen t"
  by (simp_all add: announce_upsert_def split: option.splits)

lemma mark_ok:
  "tab_ok t \<Longrightarrow> tab_ok (markObservedFor w t)"
  "tab_ok t \<Longrightarrow> tab_ok (markObservedDeleted i t)"
  "tab_ok t \<Longrightarrow> tab_ok (markObservedFieldFor fd w t)"
  "tab_ok (fire e t) = tab_ok t" "tab_ok (announce_upsert w t) = tab_ok t"
  by (auto simp: tab_ok_def markObservedFor_def markObservedDeleted_def markObservedFieldFor_def distinct_map_filter
      find_None list_ex_iff split: option.splits)

lemma finish_ok: "tab_ok t \<Longrightarrow> tab_ok (finish fu t)"
proof (cases fu)
  case (MembersSet fd affected)
  have "tab_ok t \<Longrightarrow> tab_ok (fold (\<lambda>(i, w) t. markObservedFieldFor fd w (fire (MembersChanged fd i) t)) affected t)"
    by (rule fold_invariant [where P = tab_ok]) (auto simp: mark_ok)
  with MembersSet show "tab_ok t \<Longrightarrow> tab_ok (finish fu t)" by simp
qed (simp_all add: mark_ok)

lemma mutate_step:
  assumes "mutateWorkspaces (mutator_of derive r) (d, t) = ((d', t'), res)" and "tab_ok t"
    and "distinct (map w_id (rows_in d))"
  shows "rows_in d' = (if \<exists>fu. res = Wrote fu then applied derive r (rows_in d) else rows_in d)
     \<and> tab_ok t' \<and> fired t' = fired (snd (hydrate (d, t))) \<and> lastSeen t' = lastSeen (snd (hydrate (d, t)))"
proof -
  have ok: "tab_ok (snd (hydrate (d, t)))" by (rule hydrate_ok [OF assms(2,3)])
  have f: "fst (hydrate (d, t)) = d" by simp
  show ?thesis
  proof (cases "\<exists>fu. res = Wrote fu")
    case True
    then obtain fu where res: "res = Wrote fu" by blast
    with assms(1) obtain ws where m: "mutator_of derive r (rows_read (d, t)) = Some (ws, fu)" "tab_saves t"
      "d' = Some (Versioned 1 ws)" "t' = (snd (hydrate (d, t)))\<lparr>tab_cache := Some (Versioned 1 ws)\<rparr>"
      by (auto simp: mutate_cases split: option.splits if_splits)
    from m(2) assms(2) have "rows_read (d, t) = rows_in d" by (simp add: tab_ok_def rows_read_def)
    with m ok res show ?thesis by (simp add: applied_def tab_ok_def)
  next
    case False
    with assms(1) have "(d', t') = hydrate (d, t)" by (auto simp: mutate_cases split: option.splits if_splits)
    with f have "d' = d" "t' = snd (hydrate (d, t))" by (metis fst_conv, metis snd_conv)
    with ok False show ?thesis by simp
  qed
qed

lemma wstep_storage:
  assumes "wstep derive s done i s'" and "system_ok s"
  shows "rows_in (wdisk s') = fold (applied derive) (case done of None \<Rightarrow> [] | Some r \<Rightarrow> [r]) (rows_in (wdisk s))
     \<and> system_ok s'"
  using assms
proof cases
  case (Request r st res)
  obtain d' t' where st: "st = (d', t')" by (cases st)
  from assms(2) have "tab_ok (wtabs s i)" "distinct (map w_id (rows_in (wdisk s)))" by (simp_all add: system_ok_def)
  from mutate_step [OF Request(2) [unfolded st] this] assms(2) Request(1,3) st show ?thesis
    by (auto simp: system_ok_def put_tab_def applied_distinct)
next
  case (Finish fu)
  with assms(2) finish_ok show ?thesis by (simp add: system_ok_def)
next
  case Hydrate
  with assms(2) hydrate_ok show ?thesis by (simp add: system_ok_def put_tab_def)
next
  case (Vault o2 o1)
  with assms(2) show ?thesis by (simp add: system_ok_def tab_ok_def)
qed

lemma wrun_ok: "wrun derive s rs s' \<Longrightarrow> system_ok s \<Longrightarrow>
    rows_in (wdisk s') = fold (applied derive) rs (rows_in (wdisk s)) \<and> system_ok s'"
proof (induction rule: wrun.induct)
  case (Step s rs s1 don i s2)
  with wstep_storage [OF Step.hyps(2)] show ?case by auto
qed simp


definition sample_system :: wsystem where
  "sample_system = \<lparr>wdisk = None, wtabs = (\<lambda>_. sample_tab), pending = []\<rparr>"

lemma sample_system_ok: "system_ok sample_system"
  by (simp add: system_ok_def sample_system_def tab_ok_def sample_tab_def rows_in_def)

lemma sample_request:
  "\<exists>s'. wstep id sample_system (Some (Attach ''x'' (Some ''n'') ''k'' 5)) 0 s'"
proof -
  obtain st res where m: "mutateWorkspaces (mutator_of id (Attach ''x'' (Some ''n'') ''k'' 5)) (wdisk sample_system, wtabs sample_system 0)
      = (st, res)" by fastforce
  have "attach_mutator ''x'' (Some ''n'') ''k'' 5 [] = Some ([new_workspace ''x'' ''n'' ''k'' 5], AttachedHere (new_workspace ''x'' ''n'' ''k'' 5))"
    by code_simp
  then have "\<exists>fu. res = Wrote fu"
    using m by (auto simp: mutate_cases sample_system_def rows_read_def rows_in_def sample_tab_def)
  with wstep.Request [OF m refl] show ?thesis by auto
qed


section \<open>No tab's view moves unannounced\<close>

text \<open>
  What the listeners were told of a row whose known state went from \<open>p\<close> to \<open>q\<close>. A row
  may come back with a membership event alone, where it was deleted elsewhere while this
  tab's own membership change was on its way.
\<close>

definition announced :: "string \<Rightarrow> wevent list \<Rightarrow> wsnap option \<Rightarrow> wsnap option \<Rightarrow> bool" where
  "announced k ev p q = (case (p, q) of
     (None, None) \<Rightarrow> True
   | (None, Some _) \<Rightarrow> Created k \<in> set ev \<or> (\<exists>fd. MembersChanged fd k \<in> set ev)
   | (Some _, None) \<Rightarrow> Deleted k \<in> set ev
   | (Some p, Some q) \<Rightarrow> Created k \<in> set ev \<or>
       ((s_key p \<noteq> s_key q \<longrightarrow> KeyChanged k \<in> set ev)
        \<and> (\<forall>fd. set (snap_members fd p) \<noteq> set (snap_members fd q) \<longrightarrow> MembersChanged fd k \<in> set ev)))"

lemma announced_same [simp]: "announced k ev p p"
  by (simp add: announced_def split: option.splits)

lemma announced_told:
  assumes "\<And>e. told e prev next \<Longrightarrow> e \<in> set ev"
  shows "announced k ev (observed k prev) (observed k next)"
proof -
  have "told (Created k) prev next" if "observed k prev = None" "observed k next = Some q" for q
    using that by (simp add: told_def)
  moreover have "told (Deleted k) prev next" if "observed k prev = Some p" "observed k next = None" for p
    using that by (simp add: told_def)
  moreover have "told (KeyChanged k) prev next"
    if "observed k prev = Some p" "observed k next = Some q" "s_key p \<noteq> s_key q" for p q
    using that by (simp add: told_def)
  moreover have "told (MembersChanged fd k) prev next"
    if "observed k prev = Some p" "observed k next = Some q" "set (snap_members fd p) \<noteq> set (snap_members fd q)" for p q fd
    using that by (simp add: told_def)
  ultimately show ?thesis using assms unfolding announced_def by (auto split: option.splits)
qed

lemma observed_marked: "observed k (lastSeen (markObservedFor w t)) =
    (if k = w_id w then Some (snapshotForCache w) else observed k (lastSeen t))"
  by (auto simp: markObservedFor_def observed_append observed_filter split: option.splits)

lemma observed_update_first:
  "observed k (update_first (\<lambda>p. s_id p = i) (set_snap_members fd xs) ps) =
     (if k = i then map_option (set_snap_members fd xs) (observed k ps) else observed k ps)"
  by (induction ps) auto

lemma observed_field: "observed k (lastSeen (markObservedFieldFor fd w t)) =
    (if k = w_id w then Some (case observed k (lastSeen t) of
        None \<Rightarrow> snapshotForCache w | Some p \<Rightarrow> set_snap_members fd (listed fd w) p)
     else observed k (lastSeen t))"
  by (auto simp: markObservedFieldFor_def observed_def [symmetric] observed_update_first observed_append
    split: option.splits)

lemma observed_deleted: "observed k (lastSeen (markObservedDeleted i t)) =
    (if k = i then None else observed k (lastSeen t))"
  by (auto simp: markObservedDeleted_def observed_filter)

text \<open>A step of a finished membership change, and the whole of it.\<close>

definition members_told :: "membership_field \<Rightarrow> string \<Rightarrow> wevent list \<Rightarrow> wsnap option \<Rightarrow> wsnap option \<Rightarrow> bool" where
  "members_told fd k ev p q = (case (p, q) of
     (None, None) \<Rightarrow> True
   | (None, Some _) \<Rightarrow> MembersChanged fd k \<in> set ev
   | (Some _, None) \<Rightarrow> False
   | (Some p, Some q) \<Rightarrow> s_key p = s_key q \<and> (\<forall>fd'. fd' \<noteq> fd \<longrightarrow> snap_members fd' p = snap_members fd' q)
       \<and> (snap_members fd p \<noteq> snap_members fd q \<longrightarrow> MembersChanged fd k \<in> set ev))"

lemma members_told_announced: "members_told fd k ev p q \<Longrightarrow> announced k ev p q"
proof -
  assume m: "members_told fd k ev p q"
  show ?thesis
  proof (cases p)
    case None
    with m show ?thesis by (auto simp: members_told_def announced_def split: option.splits)
  next
    case (Some a)
    with m obtain b where b: "q = Some b" by (cases q) (auto simp: members_told_def)
    have "set (snap_members fd' a) \<noteq> set (snap_members fd' b) \<Longrightarrow> MembersChanged fd' k \<in> set ev" for fd'
      using m Some b by (cases "fd' = fd") (auto simp: members_told_def)
    with m Some b show ?thesis by (simp add: members_told_def announced_def)
  qed
qed

lemma members_told_step:
  "members_told fd k [MembersChanged fd (w_id w)] (observed k (lastSeen t)) (observed k (lastSeen (markObservedFieldFor fd w t)))"
  unfolding observed_field by (auto simp: members_told_def split: option.splits)

lemma members_told_trans:
  assumes "members_told fd k ev1 p m" and "members_told fd k ev2 m q"
  shows "members_told fd k (ev1 @ ev2) p q"
  using assms by (cases p; cases m; cases q) (auto simp: members_told_def)

definition keyed_by_id :: "followup \<Rightarrow> bool" where
  "keyed_by_id fu = (case fu of MembersSet _ affected \<Rightarrow> list_all (\<lambda>(i, w). w_id w = i) affected | _ \<Rightarrow> True)"

lemma members_finish:
  assumes "list_all (\<lambda>(i, w). w_id w = i) affected"
  shows "\<exists>ev. fired (finish (MembersSet fd affected) t) = fired t @ ev
     \<and> members_told fd k ev (observed k (lastSeen t)) (observed k (lastSeen (finish (MembersSet fd affected) t)))"
  using assms
proof (induction affected arbitrary: t)
  case Nil
  then show ?case by (simp add: members_told_def split: option.splits)
next
  case (Cons a affected)
  obtain i w where a: "a = (i, w)" by (cases a)
  let ?t1 = "markObservedFieldFor fd w (fire (MembersChanged fd i) t)"
  from Cons.prems a have i: "w_id w = i" by simp
  from Cons.IH [of ?t1] Cons.prems obtain ev where ev:
    "fired (finish (MembersSet fd affected) ?t1) = fired ?t1 @ ev"
    "members_told fd k ev (observed k (lastSeen ?t1)) (observed k (lastSeen (finish (MembersSet fd affected) ?t1)))" by auto
  have "members_told fd k [MembersChanged fd i] (observed k (lastSeen t)) (observed k (lastSeen ?t1))"
    using members_told_step [of fd k w "fire (MembersChanged fd i) t"] by (simp add: i)
  from members_told_trans [OF this ev(2)] ev(1) show ?case
    by (intro exI [of _ "[MembersChanged fd i] @ ev"]) (simp add: a)
qed

lemma finish_told:
  assumes "keyed_by_id fu"
  shows "\<exists>ev. fired (finish fu t) = fired t @ ev \<and>
     (announced k ev (observed k (lastSeen t)) (observed k (lastSeen (finish fu t))) \<or> (\<exists>w. fu = CreatedHere w \<and> w_id w = k))"
proof (cases fu)
  case (CreatedHere w)
  then show ?thesis by (auto simp: observed_marked)
next
  case (DeletedHere i)
  then show ?thesis by (auto simp: observed_deleted announced_def split: option.splits)
next
  case (RenamedHere w)
  then show ?thesis by simp
next
  case (Upserted w)
  show ?thesis
  proof (cases "observed (w_id w) (lastSeen t)")
    case None
    then have "finish fu t = markObservedFor w (fire (Created (w_id w)) t)"
      using Upserted by (simp add: announce_upsert_def observed_def)
    with None show ?thesis
      by (cases "k = w_id w") (auto simp: observed_marked announced_def split: option.splits)
  next
    case (Some p)
    then have f: "finish fu t = markObservedFor w (fold fire (row_changes (w_id w) p (snapshotForCache w)) t)"
      using Upserted by (simp add: announce_upsert_def observed_def)
    have "announced k (row_changes (w_id w) p (snapshotForCache w)) (observed k (lastSeen t))
        (if k = w_id w then Some (snapshotForCache w) else observed k (lastSeen t))"
      using Some by (cases "k = w_id w") (auto simp: announced_def row_changes_iff split: option.splits)
    with f show ?thesis by (auto simp: observed_marked)
  qed
next
  case (AttachedHere w)
  then show ?thesis by (auto simp: observed_marked announced_def split: option.splits)
next
  case (MembersSet fd affected)
  with assms have "list_all (\<lambda>(i, w). w_id w = i) affected" by (simp add: keyed_by_id_def)
  from members_finish [OF this, of fd t k] MembersSet members_told_announced show ?thesis by blast
qed


lemma mutator_keyed:
  assumes d: "distinct (map w_id ws)" and m: "mutator_of derive r ws = Some (ws', fu)"
  shows "keyed_by_id fu"
proof (cases r)
  case (Member fd x i additive scope)
  with m have m': "membership_mutator fd x i additive scope ws = Some (ws', fu)" by simp
  let ?js = "js_set (map w_id (filter (\<lambda>w. \<not> additive \<and> in_scope scope w \<and> owns fd x w) ws) @
      map w_id (filter (\<lambda>w. i = Some (w_id w) \<and> \<not> (owns fd x w \<and> (additive \<or> \<not> in_scope scope w))) ws))"
  from membership_rows [OF d m'] have ws': "ws' = map (membership_row fd x i additive scope) ws"
    and fu: "fu = MembersSet fd (map (\<lambda>j. (j, the (find (\<lambda>w. w_id w = j) ws'))) ?js)" by auto
  have "w_id (the (find (\<lambda>w. w_id w = j) ws')) = j" if "j \<in> set ?js" for j
  proof -
    have "distinct (map w_id ws')" using d by (simp add: ws' comp_def)
    moreover from that have "j \<in> w_id ` set ws'" by (auto simp: ws' image_image)
    ultimately show ?thesis using find_row by force
  qed
  with fu show ?thesis by (simp add: keyed_by_id_def list_all_iff)
next
  case (Create name key now)
  with m show ?thesis by (auto simp: keyed_by_id_def dest!: create_rows split: option.splits)
next
  case (Delete i)
  with m show ?thesis by (auto simp: keyed_by_id_def dest!: delete_rows)
next
  case (Rename i name)
  with m show ?thesis by (auto simp: keyed_by_id_def dest!: rename_rows split: option.splits)
next
  case (Upsert u now)
  with m have "upsert_mutator u now ws = Some (ws', fu)" by simp
  from upsert_rows [OF d this] show ?thesis by (auto simp: keyed_by_id_def)
next
  case (Attach i name key created)
  with m show ?thesis by (auto simp: keyed_by_id_def dest!: attach_rows)
qed

definition pending_ok :: "wsystem \<Rightarrow> bool" where
  "pending_ok s = list_all (\<lambda>(_, fu). keyed_by_id fu) (pending s)"

lemma rows_read_distinct: "distinct (map w_id (rows_in (fst st))) \<Longrightarrow> distinct (map w_id (rows_read st))"
  by (simp add: rows_read_def)

lemma wstep_pending:
  assumes "wstep derive s done i s'" and "system_ok s" and "pending_ok s"
  shows "pending_ok s'"
  using assms(1)
proof cases
  case (Request r st res)
  have d: "distinct (map w_id (rows_read (wdisk s, wtabs s i)))"
    using assms(2) by (intro rows_read_distinct) (simp add: system_ok_def)
  have "keyed_by_id fu" if "res = Wrote fu" for fu
    using Request(2) that mutator_keyed [OF d] by (auto simp: mutate_cases split: option.splits if_splits)
  with assms(3) Request(3) show ?thesis by (auto simp: pending_ok_def split: outcome.splits)
next
  case (Finish fu)
  with assms(3) show ?thesis by (auto simp: pending_ok_def list_all_iff dest: set_remove1_subset [THEN subsetD])
qed (use assms(3) in \<open>auto simp: pending_ok_def put_tab_def\<close>)

lemma wrun_pending: "wrun derive s rs s' \<Longrightarrow> system_ok s \<Longrightarrow> pending_ok s \<Longrightarrow> pending_ok s'"
proof (induction rule: wrun.induct)
  case (Step s rs s1 don i s2)
  with wrun_ok [OF Step.hyps(1)] wstep_pending [OF Step.hyps(2)] show ?case by blast
qed

lemma hydrate_announced:
  assumes "system_ok s"
  shows "\<exists>ev. fired (snd (hydrate (wdisk s, wtabs s i))) = fired (wtabs s i) @ ev \<and>
     announced k ev (observed k (lastSeen (wtabs s i))) (observed k (lastSeen (snd (hydrate (wdisk s, wtabs s i)))))"
proof -
  let ?next = "map snapshotForCache (rows_read (wdisk s, wtabs s i))"
  from assms have "distinct (map w_id (rows_read (wdisk s, wtabs s i)))"
    by (intro rows_read_distinct) (simp add: system_ok_def)
  then have "distinct (map s_id ?next)" by (simp add: comp_def)
  moreover have "distinct (map s_id (lastSeen (wtabs s i)))" using assms by (simp add: system_ok_def tab_ok_def)
  ultimately have "told e (lastSeen (wtabs s i)) ?next \<Longrightarrow> e \<in> set (storage_changes (lastSeen (wtabs s i)) ?next)" for e
    using storage_changes_exact by blast
  from announced_told [of "lastSeen (wtabs s i)" ?next, OF this] show ?thesis by (simp add: hydrate_seen)
qed

text \<open>C15: in every state the tabs can reach, a step that changes what a tab takes its
  listeners to know of a workspace, its existence, its key or either membership set, fires
  the event of that change in that tab, whichever tab made the change; no other tab's
  view moves. The one exception is a workspace this tab has itself just created, whose
  caller shows it.\<close>

theorem no_silent_change:
  assumes "system_ok s0" and "pending s0 = []" and "wrun derive s0 rs s" and "wstep derive s done i s'"
  shows "(\<forall>j. j \<noteq> i \<longrightarrow> wtabs s' j = wtabs s j) \<and>
    (\<exists>ev. fired (wtabs s' i) = fired (wtabs s i) @ ev \<and>
       (announced k ev (observed k (lastSeen (wtabs s i))) (observed k (lastSeen (wtabs s' i)))
        \<or> (\<exists>w. (i, CreatedHere w) \<in> set (pending s) \<and> w_id w = k)))"
proof -
  from wrun_ok [OF assms(3,1)] have ok: "system_ok s" by simp
  from wrun_pending [OF assms(3,1)] assms(2) have pend: "pending_ok s" by (simp add: pending_ok_def)
  from assms(4) show ?thesis
  proof cases
    case (Request r st res)
    obtain d' t' where st: "st = (d', t')" by (cases st)
    from ok have "tab_ok (wtabs s i)" "distinct (map w_id (rows_in (wdisk s)))" by (simp_all add: system_ok_def)
    from mutate_step [OF Request(2) [unfolded st] this]
    have "fired t' = fired (snd (hydrate (wdisk s, wtabs s i)))" "lastSeen t' = lastSeen (snd (hydrate (wdisk s, wtabs s i)))"
      by simp_all
    moreover have "wtabs s' = (wtabs s)(i := t')" using Request(3) st by (simp add: put_tab_def)
    ultimately show ?thesis using hydrate_announced [OF ok, of i k] by auto
  next
    case (Finish fu)
    with pend have "keyed_by_id fu" by (auto simp: pending_ok_def list_all_iff)
    from finish_told [OF this, of "wtabs s i" k] Finish show ?thesis by auto
  next
    case Hydrate
    then have "wtabs s' = (wtabs s)(i := snd (hydrate (wdisk s, wtabs s i)))" by (simp add: put_tab_def)
    then show ?thesis using hydrate_announced [OF ok, of i k] by auto
  next
    case (Vault o2 o1)
    then show ?thesis by simp
  qed
qed

theorem no_silent_change_witness:
  "\<exists>s1 s2 ev. wrun id sample_system [Attach ''x'' (Some ''n'') ''k'' 5] s1
     \<and> s2 = put_tab 1 (hydrate (wdisk s1, wtabs s1 1)) s1
     \<and> fired (wtabs s2 1) = ev \<and> Created ''x'' \<in> set ev"
proof -
  obtain s1 where s1: "wstep id sample_system (Some (Attach ''x'' (Some ''n'') ''k'' 5)) 0 s1" using sample_request by blast
  from wrun.Step [OF wrun.Start s1] have run: "wrun id sample_system [Attach ''x'' (Some ''n'') ''k'' 5] s1" by simp
  let ?s2 = "put_tab 1 (hydrate (wdisk s1, wtabs s1 1)) s1"
  have "wtabs s1 1 = sample_tab"
    using s1 by cases (simp_all add: put_tab_def sample_system_def)
  moreover have "rows_in (wdisk s1) = [new_workspace ''x'' ''n'' ''k'' 5]"
  proof -
    have "applied id (Attach ''x'' (Some ''n'') ''k'' 5) [] = [new_workspace ''x'' ''n'' ''k'' 5]" by code_simp
    with wrun_ok [OF run sample_system_ok] show ?thesis by (simp add: sample_system_def rows_in_def)
  qed
  ultimately have seen: "observed ''x'' (lastSeen (wtabs s1 1)) = None" "observed ''x'' (lastSeen (wtabs ?s2 1)) \<noteq> None"
    "fired (wtabs s1 1) = []" "fired (wtabs ?s2 1) = storage_changes [] (map snapshotForCache [new_workspace ''x'' ''n'' ''k'' 5])"
    by (simp_all add: put_tab_def hydrate_seen rows_read_def sample_tab_def new_workspace_def)
  have nopend: "(1, CreatedHere w) \<notin> set (pending s1)" for w
    using s1 by cases (auto simp: put_tab_def sample_system_def split: outcome.splits)
  have nomem: "MembersChanged fd ''x'' \<notin> set (storage_changes [] (map snapshotForCache [new_workspace ''x'' ''n'' ''k'' 5]))" for fd
    by (subst storage_changes_exact) (simp_all add: told_def)
  from no_silent_change [OF sample_system_ok _ run wstep.Hydrate [OF refl], of 1 "''x''"] seen nopend nomem
  have "Created ''x'' \<in> set (fired (wtabs ?s2 1))"
    by (auto simp: announced_def sample_system_def split: option.splits)
  with run show ?thesis by blast
qed

end
