(* ===== verification/WorkspaceImport.thy ===== *)
theory WorkspaceImport
  imports TriageExport FileCounts Workspaces
begin

text \<open>
  Importing a workspace file (\<^verbatim>\<open>src/client/workspace-import.js\<close>, and the shape check
  of \<^verbatim>\<open>src/client/workspace-format.js\<close>): the imported triage merged into the live
  map, filling gaps and queueing conflicts, the answers to the conflicts, and the import as a
  whole: the reports saved, the bundle bytes stored, the workspace upserted. The report
  metadata of the conflict dialog is display only and left out; the dialog itself answers
  after any time, in which the map may change.
\<close>

section \<open>Merging the triage\<close>

definition readImportedTriageBucket :: "entry \<Rightarrow> jsval" where
  "readImportedTriageBucket v = coalesce (bucketOf (Some v)) JNull"

definition conflict_at :: "string \<Rightarrow> field \<Rightarrow> jsval \<Rightarrow> jsval \<Rightarrow> conflict" where
  "conflict_at i f local theirs = \<lparr>c_id = i, c_property = f, c_local = local, c_imported = theirs\<rparr>"

text \<open>Colour, comment and fix link; an unset comment or link reads as the empty text.\<close>

definition merge_text :: "string \<Rightarrow> entry \<Rightarrow> field \<Rightarrow> hydration \<Rightarrow> hydration" where
  "merge_text i v f s =
     (let absent = (if f = Color then JUndef else JStr []);
          local = coalesce (get_field f (or_no_fields (map_of (fst s) i))) absent;
          theirs = (if is_str (get_field f v) then get_field f v else absent)
      in if truthy theirs \<and> truthy local \<and> local \<noteq> theirs
           then (fst s, snd s @ [conflict_at i f local theirs])
         else if truthy theirs \<and> theirs \<noteq> local then (fst (patchEntry (fst s) i [(f, theirs)]), snd s)
         else s)"

definition bucket_patch :: "jsval \<Rightarrow> patch" where
  "bucket_patch b = (Triage, b) # (if b = JStr ''ignored'' then [] else [(Ignored, JUndef)])"

definition merge_bucket :: "string \<Rightarrow> entry \<Rightarrow> hydration \<Rightarrow> hydration" where
  "merge_bucket i v s =
     (let theirs = readImportedTriageBucket v; local = coalesce (bucketOf (map_of (fst s) i)) JNull
      in if truthy theirs \<and> truthy local \<and> local \<noteq> theirs
           then (fst s, snd s @ [conflict_at i Triage local theirs])
         else if truthy theirs \<and> \<not> truthy local then (fst (patchEntry (fst s) i (bucket_patch theirs)), snd s)
         else s)"

definition merge_flagged :: "string \<Rightarrow> entry \<Rightarrow> hydration \<Rightarrow> hydration" where
  "merge_flagged i v s =
     (let local = e_flagged (or_no_fields (map_of (fst s) i));
          theirs = (if is_bool (e_flagged v) then e_flagged v else JUndef)
      in if theirs \<noteq> JUndef \<and> local \<noteq> JUndef \<and> local \<noteq> theirs
           then (fst s, snd s @ [conflict_at i Flagged (flag_token local) (flag_token theirs)])
         else if theirs \<noteq> JUndef \<and> theirs \<noteq> local then (fst (patchEntry (fst s) i [(Flagged, theirs)]), snd s)
         else s)"

definition merge_ignores :: "string \<Rightarrow> entry \<Rightarrow> hydration \<Rightarrow> hydration" where
  "merge_ignores i v s =
     (let ignoredReports = (if is_arr (e_ignored v) then elems (e_ignored v) else []) in
      if allowsReportIgnores (map_of (fst s) i)
      then (fold (load_report i (Some v)) ignoredReports (fst s), snd s) else s)"

definition merge_entry :: "string \<times> jsval \<Rightarrow> hydration \<Rightarrow> hydration" where
  "merge_entry iv s =
     (if \<not> is_object (snd iv) then s
      else case entry_of (snd iv) of
        None \<Rightarrow> s
      | Some v \<Rightarrow> let i = fst iv in
          merge_ignores i v (merge_flagged i v (merge_bucket i v
            (merge_text i v Fix (merge_text i v Comment (merge_text i v Color s))))))"

section \<open>The answers\<close>

definition importLocalValue :: "tmap \<Rightarrow> string \<Rightarrow> field \<Rightarrow> jsval" where
  "importLocalValue m i f =
     (let e = or_no_fields (map_of m i) in
      if f = Color then e_color e
      else if f = Triage then coalesce (bucketOf (map_of m i)) JNull
      else if f = Comment then coalesce (e_comment e) (JStr [])
      else if f = Fix then coalesce (e_fix e) (JStr [])
      else if f = Flagged then (if e_flagged e = JBool True then JStr ''flagged''
        else if e_flagged e = JBool False then JStr ''not flagged'' else JStr [])
      else JUndef)"

definition import_answer_patch :: "conflict \<Rightarrow> patch" where
  "import_answer_patch c =
     (if c_property c = Triage then bucket_patch (c_imported c)
      else if c_property c = Flagged then
        [(Flagged, if c_imported c = JStr ''flagged'' then JBool True
                   else if c_imported c = JStr ''not flagged'' then JBool False else JUndef)]
      else [(c_property c, c_imported c)])"

definition apply_answer :: "(string, string) jsmap \<Rightarrow> conflict \<Rightarrow> tmap \<Rightarrow> tmap" where
  "apply_answer decisions c m =
     (if map_of decisions (c_id c @ '':'' @ prop_name (c_property c)) \<noteq> Some ''imported'' then m
      else if importLocalValue m (c_id c) (c_property c) \<noteq> c_local c then m
      else if c_property c \<in> {Color, Comment, Fix, Triage, Flagged}
        then fst (patchEntry m (c_id c) (import_answer_patch c)) else m)"

definition applyConflictDecisions :: "conflict list \<Rightarrow> (string, string) jsmap \<Rightarrow> tmap \<Rightarrow> tmap" where
  "applyConflictDecisions conflicts decisions m = fold (apply_answer decisions) conflicts m"

text \<open>
  \<open>resolver\<close> is the dialog, where there is one, and \<open>meanwhile\<close> what becomes of the live
  map while it is open.
\<close>

definition mergeTriage ::
    "jsval \<Rightarrow> (conflict list \<Rightarrow> (string, string) jsmap option) option \<Rightarrow> (tmap \<Rightarrow> tmap) \<Rightarrow> tmap \<Rightarrow> tmap" where
  "mergeTriage triage resolver meanwhile m =
     (if \<not> is_object triage \<or> is_arr triage then m
      else let (m1, conflicts) = fold merge_entry (own_fields triage) (m, []) in
        case resolver of
          None \<Rightarrow> m1
        | Some ask \<Rightarrow>
            if conflicts = [] then m1
            else case ask conflicts of
              None \<Rightarrow> meanwhile m1
            | Some decisions \<Rightarrow> applyConflictDecisions conflicts decisions (meanwhile m1))"

section \<open>What merging one entry does\<close>

text \<open>
  The main fields merged so far, and the conflicts queued, over an entry whose values the
  backup's cleaning leaves: \<open>new\<close> of the import, \<open>cur\<close> of the map it began with.
\<close>

definition shown :: "field \<Rightarrow> jsval \<Rightarrow> jsval" where
  "shown f v = (if f = Flagged then flag_token v else v)"

definition clashes :: "string \<Rightarrow> entry option \<Rightarrow> entry option \<Rightarrow> field set \<Rightarrow> conflict set" where
  "clashes i new cur fs = {conflict_at i f (shown f (get_field f (view cur))) (shown f (get_field f (view new))) |f.
     f \<in> fs \<and> get_field f (view new) \<noteq> JUndef \<and> get_field f (view cur) \<noteq> JUndef
       \<and> get_field f (view cur) \<noteq> get_field f (view new)}"

definition merging :: "string \<Rightarrow> entry \<Rightarrow> field set \<Rightarrow> hydration \<Rightarrow> hydration \<Rightarrow> bool" where
  "merging i v fs s s' =
     (tmap_ok (fst s') \<and> (\<forall>j. j \<noteq> i \<longrightarrow> map_of (fst s') j = map_of (fst s) j)
      \<and> (\<forall>g \<in> set main_fields. get_field g (view (map_of (fst s') i)) =
           (if g \<in> fs then merged_field True (get_field g (clean v)) (get_field g (view (map_of (fst s) i)))
            else get_field g (view (map_of (fst s) i))))
      \<and> set (snd s') = set (snd s) \<union> clashes i (Some v) (map_of (fst s) i) fs)"

lemma clashes_insert:
  "clashes i new cur (insert f fs) = clashes i new cur fs \<union>
     (if get_field f (view new) \<noteq> JUndef \<and> get_field f (view cur) \<noteq> JUndef
        \<and> get_field f (view cur) \<noteq> get_field f (view new)
      then {conflict_at i f (shown f (get_field f (view cur))) (shown f (get_field f (view new)))} else {})"
  by (auto simp: clashes_def)

lemma clashes_empty [simp]: "clashes i new cur {} = {}"
  by (simp add: clashes_def)

text \<open>A step that queues a clash, fills a gap, or does nothing.\<close>

lemma merging_step:
  assumes m: "merging i v fs s s1" and f: "f \<in> set main_fields" "f \<notin> fs"
    and cases: "let new = get_field f (clean v); cur = get_field f (view (map_of (fst s1) i)) in
      if new \<noteq> JUndef \<and> cur \<noteq> JUndef \<and> cur \<noteq> new then s2 = (fst s1, snd s1 @ [conflict_at i f (shown f cur) (shown f new)])
      else if new \<noteq> JUndef \<and> cur = JUndef then snd s2 = snd s1 \<and> tmap_ok (fst s2)
        \<and> (\<forall>j. j \<noteq> i \<longrightarrow> map_of (fst s2) j = map_of (fst s1) j)
        \<and> (\<forall>g \<in> set main_fields. get_field g (view (map_of (fst s2) i)) =
              (if g = f then new else get_field g (view (map_of (fst s1) i))))
      else s2 = s1"
  shows "merging i v (insert f fs) s s2"
proof -
  let ?new = "get_field f (clean v)" and ?cur = "get_field f (view (map_of (fst s) i))"
  have cur: "get_field f (view (map_of (fst s1) i)) = ?cur" using m f by (simp add: merging_def)
  have nv: "get_field f (view (Some v)) = ?new" by simp
  consider (clash) "?new \<noteq> JUndef" "?cur \<noteq> JUndef" "?cur \<noteq> ?new" | (gap) "?new \<noteq> JUndef" "?cur = JUndef"
    | (same) "?new = JUndef \<or> ?cur = ?new" by blast
  then show ?thesis
  proof cases
    case clash
    with cases cur have s2: "s2 = (fst s1, snd s1 @ [conflict_at i f (shown f ?cur) (shown f ?new)])" by (simp add: Let_def)
    with m f clash nv show ?thesis
      by (simp add: merging_def clashes_insert merged_field_def del: get_field.simps view_Some)
  next
    case gap
    with cases cur have s2: "snd s2 = snd s1" "tmap_ok (fst s2)" "\<forall>j. j \<noteq> i \<longrightarrow> map_of (fst s2) j = map_of (fst s1) j"
      "\<forall>g \<in> set main_fields. get_field g (view (map_of (fst s2) i)) =
              (if g = f then ?new else get_field g (view (map_of (fst s1) i)))" by (simp_all add: Let_def)
    with m f gap nv show ?thesis
      by (simp add: merging_def clashes_insert merged_field_def del: get_field.simps view_Some)
  next
    case same
    with cases cur have "s2 = s1" by (auto simp: Let_def split: if_splits)
    with m f same nv show ?thesis
      by (auto simp add: merging_def clashes_insert merged_field_def simp del: get_field.simps view_Some)
  qed
qed

lemma view_is_entry: "tmap_ok m \<Longrightarrow> or_no_fields (map_of m i) = view (map_of m i)"
  using cur_ok_view [OF cur_ok_lookup] .

lemma merging_ok: "merging i v fs s s' \<Longrightarrow> tmap_ok (fst s')"
  by (simp add: merging_def)

lemma opt_str_cases: "opt_str v \<Longrightarrow> v = JUndef \<or> (\<exists>t. v = JStr t \<and> t \<noteq> [])"
  by (auto simp: opt_str_def is_str_conv)

lemma merge_text_step:
  assumes m: "merging i v fs s s1" and f: "f \<in> {Color, Comment, Fix}" "f \<notin> fs"
  shows "merging i v (insert f fs) s (merge_text i v f s1)"
proof -
  note ok = merging_ok [OF m]
  have fm: "f \<in> set main_fields" using f(1) by auto
  have nv: "get_field f (clean v) = keep_str (get_field f v)" using f(1) by auto
  have nf: "norm_field f w = keep_str w" for w using f(1) by auto
  have os: "opt_str (get_field f (view (map_of (fst s1) i)))"
    using f(1) view_ok(1-3) [of "map_of (fst s1) i"] by auto
  have sh: "shown f w = w" for w using f(1) by (auto simp: shown_def)
  have raw: "is_str (get_field f v) \<and> truthy (get_field f v) \<longleftrightarrow> keep_str (get_field f v) \<noteq> JUndef"
    "keep_str (get_field f v) \<noteq> JUndef \<Longrightarrow> keep_str (get_field f v) = get_field f v"
    by (auto simp: keep_str_def is_str_conv split: if_splits)
  let ?cur = "get_field f (view (map_of (fst s1) i))"
  have step: "merge_text i v f s1 =
      (if keep_str (get_field f v) \<noteq> JUndef \<and> ?cur \<noteq> JUndef \<and> ?cur \<noteq> keep_str (get_field f v)
       then (fst s1, snd s1 @ [conflict_at i f ?cur (keep_str (get_field f v))])
       else if keep_str (get_field f v) \<noteq> JUndef \<and> ?cur = JUndef
       then (fst (patchEntry (fst s1) i [(f, get_field f v)]), snd s1) else s1)"
  proof -
    consider (given) t where "get_field f v = JStr t" "t \<noteq> []" | (none) "keep_str (get_field f v) = JUndef"
        "\<not> (is_str (get_field f v) \<and> truthy (get_field f v))"
      using raw(1) by (auto simp: is_str_conv)
    then show ?thesis
    proof cases
      case given
      then have k: "keep_str (JStr t) = JStr t" by (simp add: keep_str_def)
      from opt_str_cases [OF os] show ?thesis
      proof
        assume c: "?cur = JUndef"
        show ?thesis unfolding merge_text_def Let_def view_is_entry [OF ok] c given(1) k by (simp add: given(2))
      next
        assume "\<exists>u. ?cur = JStr u \<and> u \<noteq> []"
        then obtain u where c: "?cur = JStr u" "u \<noteq> []" by blast
        show ?thesis unfolding merge_text_def Let_def view_is_entry [OF ok] c(1) given(1) k by (simp add: given(2) c(2))
      qed
    next
      case none
      then have "\<not> truthy (if is_str (get_field f v) then get_field f v else if f = Color then JUndef else JStr [])"
        by simp
      then show ?thesis unfolding merge_text_def Let_def none(1) by simp
    qed
  qed
  show ?thesis
  proof (rule merging_step [OF m fm f(2)])
    show "let new = get_field f (clean v); cur = get_field f (view (map_of (fst s1) i)) in
      if new \<noteq> JUndef \<and> cur \<noteq> JUndef \<and> cur \<noteq> new then merge_text i v f s1 = (fst s1, snd s1 @ [conflict_at i f (shown f cur) (shown f new)])
      else if new \<noteq> JUndef \<and> cur = JUndef then snd (merge_text i v f s1) = snd s1 \<and> tmap_ok (fst (merge_text i v f s1))
        \<and> (\<forall>j. j \<noteq> i \<longrightarrow> map_of (fst (merge_text i v f s1)) j = map_of (fst s1) j)
        \<and> (\<forall>g \<in> set main_fields. get_field g (view (map_of (fst (merge_text i v f s1)) i)) =
              (if g = f then new else get_field g (view (map_of (fst s1) i))))
      else merge_text i v f s1 = s1"
      unfolding nv sh step Let_def using ok patch_main [OF ok fm, of _ i "get_field f v"]
      by (simp add: patch_frame nf)
  qed
qed

lemma clean_ignored: "g \<in> set main_fields \<Longrightarrow> get_field g (clean (e\<lparr>e_ignored := x\<rparr>)) = get_field g (clean e)"
  by (auto simp: main_fields_cases bucketOf.simps)

lemma spread_bucket: "spread c (bucket_patch b) =
    (if b = JStr ''ignored'' then put_field Triage b (or_no_fields c)
     else (put_field Triage b (or_no_fields c))\<lparr>e_ignored := JUndef\<rparr>)"
  by (auto simp: spread_def bucket_patch_def or_no_fields_def)

lemma patch_bucket_field:
  assumes "tmap_ok m" and "g \<in> set main_fields"
  shows "get_field g (view (map_of (fst (patchEntry m i (bucket_patch b))) i)) =
    (if g = Triage then asBucket b else get_field g (view (map_of m i)))"
proof -
  note v = view_set_main [OF main_fields_mem(2) assms(2), of b "map_of m i", unfolded norm_field.simps]
  show ?thesis
  proof (cases "b = JStr ''ignored''")
    case True
    show ?thesis
      unfolding view_patchEntry [OF assms(2)] spread_bucket view_is_entry [OF assms(1)] using v by (simp only: True simp_thms if_True)
  next
    case False
    show ?thesis
      unfolding view_patchEntry [OF assms(2)] spread_bucket view_is_entry [OF assms(1)]
      using v False by (simp only: if_False clean_ignored [OF assms(2)])
  qed
qed

lemma patch_bucket_ignored:
  assumes "tmap_ok m"
  shows "ignored_of (map_of (fst (patchEntry m i (bucket_patch b))) i) =
    (if b = JStr ''ignored'' then ignored_of (map_of m i) else {})"
proof (cases "b = JStr ''ignored''")
  case True
  then show ?thesis using patch_main_reports [OF assms, of Triage i b] by (simp add: bucket_patch_def)
next
  case False
  let ?e = "spread (map_of m i) (bucket_patch b)"
  have ig: "e_ignored (clean ?e) = JUndef" using False by (simp add: spread_bucket keep_reports_def)
  have "ignored_of (wb_eff (map_of m i) (normalizeEntry (Some ?e))) = {}"
  proof (cases "normalizeEntry (Some ?e)")
    case None
    then show ?thesis by (simp add: wb_eff_def)
  next
    case (Some n)
    then have n: "n = clean ?e" by (auto simp: normalizeEntry.simps split: if_splits)
    show ?thesis
    proof (cases "entriesEqual (map_of m i) (Some n)")
      case True
      then have "ignoredEqual (e_ignored (or_no_fields (map_of m i))) (e_ignored n)"
        unfolding entriesEqual_def Let_def or_no_fields_def by (cases "map_of m i") auto
      then have "elems (e_ignored (or_no_fields (map_of m i))) = []" using ig n by (simp add: ignoredEqual_iff)
      with Some True show ?thesis by (cases "map_of m i") (simp_all add: wb_eff_def or_no_fields_def)
    qed (use Some n ig in \<open>simp add: wb_eff_def\<close>)
  qed
  with False show ?thesis by (simp add: patchEntry_def write_back_lookup)
qed

lemma bucket_tests:
  "truthy (coalesce (bucketOf c) JNull) \<longleftrightarrow> bucketOf c \<noteq> JUndef"
  "bucketOf c \<noteq> JUndef \<Longrightarrow> coalesce (bucketOf c) JNull = bucketOf c"
  using bucketOf_cases [of c] by (auto simp: bucket_names_def)

lemma merge_bucket_step:
  assumes m: "merging i v fs s s1" and f: "Triage \<notin> fs"
  shows "merging i v (insert Triage fs) s (merge_bucket i v s1)"
proof -
  note ok = merging_ok [OF m]
  let ?cur = "bucketOf (map_of (fst s1) i)" and ?new = "bucketOf (Some v)"
  have vt: "get_field Triage (view (map_of (fst s1) i)) = ?cur" "get_field Triage (clean v) = ?new" by (simp_all add: view_triage)
  have step: "merge_bucket i v s1 =
      (if ?new \<noteq> JUndef \<and> ?cur \<noteq> JUndef \<and> ?cur \<noteq> ?new
       then (fst s1, snd s1 @ [conflict_at i Triage ?cur ?new])
       else if ?new \<noteq> JUndef \<and> ?cur = JUndef
       then (fst (patchEntry (fst s1) i (bucket_patch ?new)), snd s1) else s1)"
    using bucket_tests [of "Some v"] bucket_tests [of "map_of (fst s1) i"]
    unfolding merge_bucket_def Let_def readImportedTriageBucket_def by auto
  show ?thesis
    by (rule merging_step [OF m main_fields_mem(2) f])
      (use ok patch_bucket_field [OF ok, of _ i ?new] in \<open>simp add: Let_def vt step shown_def patch_frame del: get_field.simps\<close>)
qed

lemma merge_flagged_step:
  assumes m: "merging i v fs s s1" and f: "Flagged \<notin> fs"
  shows "merging i v (insert Flagged fs) s (merge_flagged i v s1)"
proof -
  note ok = merging_ok [OF m]
  let ?cur = "e_flagged (view (map_of (fst s1) i))" and ?new = "if is_bool (e_flagged v) then e_flagged v else JUndef"
  have step: "merge_flagged i v s1 =
      (if ?new \<noteq> JUndef \<and> ?cur \<noteq> JUndef \<and> ?cur \<noteq> ?new
       then (fst s1, snd s1 @ [conflict_at i Flagged (flag_token ?cur) (flag_token ?new)])
       else if ?new \<noteq> JUndef \<and> ?cur = JUndef
       then (fst (patchEntry (fst s1) i [(Flagged, ?new)]), snd s1) else s1)"
    unfolding merge_flagged_def Let_def view_is_entry [OF ok] by auto
  show ?thesis
    by (rule merging_step [OF m main_fields_mem(5) f])
      (use ok patch_main [OF ok main_fields_mem(5), of _ i ?new] in \<open>simp add: Let_def step shown_def patch_frame\<close>)
qed

text \<open>The report ignores: kept, but for a status adopted that excludes them.\<close>

lemma merge_text_ignored:
  assumes "tmap_ok (fst s)" and "f \<in> {Color, Comment, Fix}"
  shows "ignored_of (map_of (fst (merge_text i v f s)) i) = ignored_of (map_of (fst s) i)"
proof -
  have "f \<in> set main_fields" using assms(2) by auto
  note p = patch_main_reports [OF assms(1) this]
  have "fst (merge_text i v f s) = fst s \<or> (\<exists>w. fst (merge_text i v f s) = fst (patchEntry (fst s) i [(f, w)]))"
    unfolding merge_text_def Let_def by auto
  with p show ?thesis by auto
qed

lemma merge_flagged_ignored:
  assumes "tmap_ok (fst s)"
  shows "ignored_of (map_of (fst (merge_flagged i v s)) i) = ignored_of (map_of (fst s) i)"
  using patch_main_reports [OF assms main_fields_mem(5)] by (simp add: merge_flagged_def Let_def)

definition bucket_adopted :: "entry option \<Rightarrow> entry option \<Rightarrow> bool" where
  "bucket_adopted new cur = (bucketOf new \<noteq> JUndef \<and> bucketOf new \<noteq> JStr ''ignored'' \<and> bucketOf cur = JUndef)"

lemma merge_bucket_ignored:
  assumes "tmap_ok (fst s)"
  shows "ignored_of (map_of (fst (merge_bucket i v s)) i) =
    (if bucket_adopted (Some v) (map_of (fst s) i) then {} else ignored_of (map_of (fst s) i))"
  using bucket_tests [of "Some v"] bucket_tests [of "map_of (fst s) i"] patch_bucket_ignored [OF assms, of i "bucketOf (Some v)"]
  unfolding merge_bucket_def Let_def readImportedTriageBucket_def bucket_adopted_def by auto

definition merged_import :: "entry \<Rightarrow> entry option \<Rightarrow> entry option \<Rightarrow> bool" where
  "merged_import v cur cur' =
     ((\<forall>g \<in> set main_fields. get_field g (view cur') = merged_field True (get_field g (clean v)) (get_field g (view cur)))
      \<and> ignored_of cur' = (if bucket_adopted (Some v) cur then {} else ignored_of cur)
          \<union> (if allowsReportIgnores cur' then {r \<in> ignored_of (Some v). is_str r \<and> r \<noteq> JStr []} else {}))"

lemma merge_entry_spec:
  assumes ok: "tmap_ok (fst s)" and obj: "is_object val" and v: "entry_of val = Some v"
  shows "tmap_ok (fst (merge_entry (i, val) s))
    \<and> (\<forall>j. j \<noteq> i \<longrightarrow> map_of (fst (merge_entry (i, val) s)) j = map_of (fst s) j)
    \<and> merged_import v (map_of (fst s) i) (map_of (fst (merge_entry (i, val) s)) i)
    \<and> set (snd (merge_entry (i, val) s)) = set (snd s) \<union> clashes i (Some v) (map_of (fst s) i) (set main_fields)"
proof -
  define s1 where "s1 = merge_text i v Color s"
  define s2 where "s2 = merge_text i v Comment s1"
  define s3 where "s3 = merge_text i v Fix s2"
  define s4 where "s4 = merge_bucket i v s3"
  define s5 where "s5 = merge_flagged i v s4"
  define s6 where "s6 = merge_ignores i v s5"
  have "merging i v {} s s" using ok by (simp add: merging_def)
  then have m1: "merging i v {Color} s s1" unfolding s1_def by (rule merge_text_step) simp_all
  then have m2: "merging i v {Comment, Color} s s2" unfolding s2_def by (rule merge_text_step) simp_all
  then have m3: "merging i v {Fix, Comment, Color} s s3" unfolding s3_def by (rule merge_text_step) simp_all
  then have m4: "merging i v {Triage, Fix, Comment, Color} s s4" unfolding s4_def by (rule merge_bucket_step) simp
  then have m5: "merging i v {Flagged, Triage, Fix, Comment, Color} s s5" unfolding s5_def by (rule merge_flagged_step) simp
  have all: "{Flagged, Triage, Fix, Comment, Color} = set main_fields" by (auto simp: main_fields_def)
  note m5 = m5 [unfolded all]
  have "bucketOf (map_of (fst s3) i) = bucketOf (map_of (fst s) i)"
  proof -
    have "\<forall>g \<in> set main_fields. g \<notin> {Fix, Comment, Color} \<longrightarrow>
        get_field g (view (map_of (fst s3) i)) = get_field g (view (map_of (fst s) i))"
      using m3 by (simp add: merging_def del: get_field.simps)
    from mp [OF bspec [OF this main_fields_mem(2)]] show ?thesis by (simp add: view_triage)
  qed
  then have "bucket_adopted (Some v) (map_of (fst s3) i) = bucket_adopted (Some v) (map_of (fst s) i)"
    by (simp add: bucket_adopted_def)
  then have ig: "ignored_of (map_of (fst s5) i) = (if bucket_adopted (Some v) (map_of (fst s) i) then {} else ignored_of (map_of (fst s) i))"
    unfolding s5_def merge_flagged_ignored [OF merging_ok [OF m4]]
    unfolding s4_def merge_bucket_ignored [OF merging_ok [OF m3]]
    unfolding s3_def merge_text_ignored [OF merging_ok [OF m2], of Fix, simplified]
    unfolding s2_def merge_text_ignored [OF merging_ok [OF m1], of Comment, simplified]
    unfolding s1_def merge_text_ignored [OF ok, of Color, simplified] by simp
  define rs where "rs = (if is_arr (e_ignored v) \<and> allowsReportIgnores (map_of (fst s5) i) then elems (e_ignored v) else [])"
  have s6: "s6 = (fold (load_report i (Some v)) rs (fst s5), snd s5)"
    by (simp add: s6_def merge_ignores_def Let_def rs_def)
  note f = load_fold [OF merging_ok [OF m5], of i "Some v" rs]
  have e: "merge_entry (i, val) s = s6"
    using obj v by (simp add: merge_entry_def Let_def s1_def s2_def s3_def s4_def s5_def s6_def)
  have "get_field Triage (view (map_of (fst s6) i)) = get_field Triage (view (map_of (fst s5) i))"
    using f main_fields_mem(2) by (simp add: s6 same_main_def del: get_field.simps)
  note al = allows_main [OF this]
  have rs: "set rs = (if allowsReportIgnores (map_of (fst s5) i) then ignored_of (Some v) else {})"
    by (cases "e_ignored v") (auto simp: rs_def)
  have mi: "merged_import v (map_of (fst s) i) (map_of (fst s6) i)"
    unfolding merged_import_def al
  proof
    show "\<forall>g\<in>set main_fields. get_field g (view (map_of (fst s6) i)) =
        merged_field True (get_field g (clean v)) (get_field g (view (map_of (fst s) i)))"
      using f m5 by (simp add: s6 same_main_def merging_def del: get_field.simps)
    show "ignored_of (map_of (fst s6) i) = (if bucket_adopted (Some v) (map_of (fst s) i) then {} else ignored_of (map_of (fst s) i))
        \<union> (if allowsReportIgnores (map_of (fst s5) i) then {r \<in> ignored_of (Some v). is_str r \<and> r \<noteq> JStr []} else {})"
      using f unfolding s6 fst_conv ig rs by simp
  qed
  show ?thesis unfolding e using f m5 mi by (simp add: s6 merging_def)
qed

text \<open>What the file offers for a finding.\<close>

definition offered_entry :: "(string, jsval) jsmap \<Rightarrow> string \<Rightarrow> entry option" where
  "offered_entry fs i = (case map_of fs i of Some val \<Rightarrow> if is_object val then entry_of val else None | None \<Rightarrow> None)"

lemma merge_fold:
  assumes "tmap_ok (fst s)" and "distinct (map fst fs)"
  shows "tmap_ok (fst (fold merge_entry fs s))
    \<and> (\<forall>i. case offered_entry fs i of
          None \<Rightarrow> map_of (fst (fold merge_entry fs s)) i = map_of (fst s) i
        | Some v \<Rightarrow> merged_import v (map_of (fst s) i) (map_of (fst (fold merge_entry fs s)) i))
    \<and> set (snd (fold merge_entry fs s)) = set (snd s) \<union>
        {c. \<exists>i v. offered_entry fs i = Some v \<and> c \<in> clashes i (Some v) (map_of (fst s) i) (set main_fields)}"
  using assms
proof (induction fs arbitrary: s)
  case Nil
  then show ?case by (simp add: offered_entry_def)
next
  case (Cons x fs)
  obtain k val where x: "x = (k, val)" by (cases x)
  let ?s1 = "merge_entry x s"
  have "map_of fs k = None" using Cons.prems(2) x by (simp add: map_of_eq_None_iff)
  then have kout: "offered_entry fs k = None" by (simp add: offered_entry_def)
  have one: "tmap_ok (fst ?s1) \<and> (\<forall>j. j \<noteq> k \<longrightarrow> map_of (fst ?s1) j = map_of (fst s) j)
    \<and> (case offered_entry (x # fs) k of None \<Rightarrow> ?s1 = s
       | Some v \<Rightarrow> merged_import v (map_of (fst s) k) (map_of (fst ?s1) k)
          \<and> set (snd ?s1) = set (snd s) \<union> clashes k (Some v) (map_of (fst s) k) (set main_fields))"
  proof (cases "is_object val")
    case True
    then obtain v where v: "entry_of val = Some v" using object_entry by blast
    with True have o1: "offered_entry (x # fs) k = Some v" by (simp add: offered_entry_def x)
    from merge_entry_spec [OF Cons.prems(1) True v, of k, folded x] show ?thesis unfolding o1 by simp
  next
    case False
    then show ?thesis using Cons.prems(1) by (simp add: x merge_entry_def offered_entry_def)
  qed
  have off: "offered_entry (x # fs) i = (if i = k then offered_entry (x # fs) k else offered_entry fs i)" for i
    by (simp add: offered_entry_def x)
  from one have ok1: "tmap_ok (fst ?s1)" by blast
  have fx: "fold merge_entry (x # fs) s = fold merge_entry fs ?s1" by simp
  have d: "distinct (map fst fs)" using Cons.prems(2) by simp
  note ih = Cons.IH [OF ok1 d]
  have frame: "map_of (fst ?s1) j = map_of (fst s) j" if "j \<noteq> k" for j using one that by blast
  have "case offered_entry fs k of
          None \<Rightarrow> map_of (fst (fold merge_entry fs ?s1)) k = map_of (fst ?s1) k
        | Some v \<Rightarrow> merged_import v (map_of (fst ?s1) k) (map_of (fst (fold merge_entry fs ?s1)) k)" using ih by blast
  then have kk: "map_of (fst (fold merge_entry fs ?s1)) k = map_of (fst ?s1) k" by (simp only: kout option.case)
  show ?case
  proof (intro conjI allI)
    show "tmap_ok (fst (fold merge_entry (x # fs) s))" using ih by simp
    fix i
    show "case offered_entry (x # fs) i of
          None \<Rightarrow> map_of (fst (fold merge_entry (x # fs) s)) i = map_of (fst s) i
        | Some v \<Rightarrow> merged_import v (map_of (fst s) i) (map_of (fst (fold merge_entry (x # fs) s)) i)"
    proof (cases "i = k")
      case True
      have kk': "map_of (fst (fold merge_entry (x # fs) s)) k = map_of (fst ?s1) k" using kk by simp
      from one have "case offered_entry (x # fs) k of None \<Rightarrow> ?s1 = s
        | Some v \<Rightarrow> merged_import v (map_of (fst s) k) (map_of (fst ?s1) k)
            \<and> set (snd ?s1) = set (snd s) \<union> clashes k (Some v) (map_of (fst s) k) (set main_fields)" by blast
      then show ?thesis unfolding True kk' by (cases "offered_entry (x # fs) k") simp_all
    next
      case False
      have "case offered_entry fs i of
          None \<Rightarrow> map_of (fst (fold merge_entry fs ?s1)) i = map_of (fst ?s1) i
        | Some v \<Rightarrow> merged_import v (map_of (fst ?s1) i) (map_of (fst (fold merge_entry fs ?s1)) i)" using ih by blast
      then show ?thesis unfolding off [of i] frame [OF False] fx using False by simp
    qed
  next
    let ?C = "\<lambda>gs m. {c. \<exists>i v. offered_entry gs i = Some v \<and> c \<in> clashes i (Some v) (map_of (fst m) i) (set main_fields)}"
    have "set (snd (fold merge_entry fs ?s1)) = set (snd ?s1) \<union> ?C fs ?s1" using ih by blast
    moreover have "?C fs ?s1 = ?C fs s"
    proof -
      have "offered_entry fs i = Some v \<Longrightarrow> map_of (fst ?s1) i = map_of (fst s) i" for i v
        using kout frame by (cases "i = k") auto
      then show ?thesis by (intro Collect_cong) fastforce
    qed
    moreover have "set (snd ?s1) = set (snd s) \<union> {c. \<exists>v. offered_entry (x # fs) k = Some v
        \<and> c \<in> clashes k (Some v) (map_of (fst s) k) (set main_fields)}"
      using one by (cases "offered_entry (x # fs) k") auto
    moreover have "?C (x # fs) s = {c. \<exists>v. offered_entry (x # fs) k = Some v
        \<and> c \<in> clashes k (Some v) (map_of (fst s) k) (set main_fields)} \<union> ?C fs s"
    proof -
      have "(\<exists>i v. offered_entry (x # fs) i = Some v \<and> Q i v) \<longleftrightarrow>
          (\<exists>v. offered_entry (x # fs) k = Some v \<and> Q k v) \<or> (\<exists>i v. offered_entry fs i = Some v \<and> Q i v)" for Q
      proof (rule iffI)
        assume "\<exists>i v. offered_entry (x # fs) i = Some v \<and> Q i v"
        then obtain i v where "offered_entry (x # fs) i = Some v" "Q i v" by blast
        then show "(\<exists>v. offered_entry (x # fs) k = Some v \<and> Q k v) \<or> (\<exists>i v. offered_entry fs i = Some v \<and> Q i v)"
          using off [of i] by (cases "i = k") auto
      next
        assume "(\<exists>v. offered_entry (x # fs) k = Some v \<and> Q k v) \<or> (\<exists>i v. offered_entry fs i = Some v \<and> Q i v)"
        then show "\<exists>i v. offered_entry (x # fs) i = Some v \<and> Q i v"
        proof (elim disjE exE conjE)
          fix i v
          assume a: "offered_entry fs i = Some v" "Q i v"
          with kout have "i \<noteq> k" by auto
          with off [of i] a show ?thesis by auto
        qed blast
      qed
      then show ?thesis by (intro set_eqI) (simp only: mem_Collect_eq Un_iff)
    qed
    ultimately show "set (snd (fold merge_entry (x # fs) s)) = set (snd s) \<union> ?C (x # fs) s" by auto
  qed
qed

section \<open>The shape check\<close>

text \<open>The reasons a file is refused, in the order they are looked for.\<close>

datatype shape_error =
    NotAnObjectPayload
  | UnsupportedExport jsval
  | WorkspaceMissing
  | BadText string
  | BadCreatedAt
  | ReportsNotArray
  | CountOverCap string nat
  | NotArray string
  | BundleNotString
  | TooLong string
  | BlobNotObject
  | BlobEmpty string
  | BlobNameHasNul
  | BlobDataNotString

definition MAX_PER_EXPORT :: nat where "MAX_PER_EXPORT = 1024"
definition MAX_BUNDLE_INTEGRITY_LEN :: nat where "MAX_BUNDLE_INTEGRITY_LEN = 200"
definition MAX_BUNDLE_BLOB_DATA_LEN :: nat where "MAX_BUNDLE_BLOB_DATA_LEN = 139810150"
definition MAX_BUNDLE_BLOB_NAME_LEN :: nat where "MAX_BUNDLE_BLOB_NAME_LEN = 512"
definition MAX_BUNDLE_BLOBS_PER_EXPORT :: nat where "MAX_BUNDLE_BLOBS_PER_EXPORT = 64"

definition str_len :: "jsval \<Rightarrow> nat" where
  "str_len v = (case v of JStr s \<Rightarrow> length s | _ \<Rightarrow> 0)"

definition bundle_error :: "jsval \<Rightarrow> shape_error option" where
  "bundle_error b = (if \<not> is_str b then Some BundleNotString
     else if str_len b > MAX_BUNDLE_INTEGRITY_LEN then Some (TooLong ''bundles'') else None)"

definition blob_error :: "jsval \<Rightarrow> shape_error option" where
  "blob_error b =
     (if \<not> is_object b \<or> is_arr b then Some BlobNotObject
      else if \<not> is_str (js_field b ''integrity'') \<or> str_len (js_field b ''integrity'') = 0 then Some (BlobEmpty ''integrity'')
      else if str_len (js_field b ''integrity'') > MAX_BUNDLE_INTEGRITY_LEN then Some (TooLong ''bundleBlobs.integrity'')
      else if \<not> is_str (js_field b ''name'') \<or> str_len (js_field b ''name'') = 0 then Some (BlobEmpty ''name'')
      else if str_len (js_field b ''name'') > MAX_BUNDLE_BLOB_NAME_LEN then Some (TooLong ''bundleBlobs.name'')
      else if (case js_field b ''name'' of JStr s \<Rightarrow> CHR 0x00 \<in> set s | _ \<Rightarrow> False) then Some BlobNameHasNul
      else if \<not> is_str (js_field b ''data'') then Some BlobDataNotString
      else if str_len (js_field b ''data'') > MAX_BUNDLE_BLOB_DATA_LEN then Some (TooLong ''bundleBlobs.data'')
      else None)"

fun first_error :: "('a \<Rightarrow> 'e option) \<Rightarrow> 'a list \<Rightarrow> 'e option" where
  "first_error f [] = None"
| "first_error f (x # xs) = (case f x of Some e \<Rightarrow> Some e | None \<Rightarrow> first_error f xs)"

definition list_error :: "jsval \<Rightarrow> string \<Rightarrow> nat \<Rightarrow> (jsval \<Rightarrow> shape_error option) \<Rightarrow> shape_error option" where
  "list_error v name cap each =
     (if v = JUndef then None
      else if \<not> is_arr v then Some (NotArray name)
      else if length (elems v) > cap then Some (CountOverCap name (length (elems v)))
      else first_error each (elems v))"

definition validateExportShape :: "jsval \<Rightarrow> shape_error option" where
  "validateExportShape d =
     (let w = js_field d ''workspace'' in
      if \<not> is_object d then Some NotAnObjectPayload
      else if js_field d ''version'' \<noteq> JNum EXPORT_VERSION then Some (UnsupportedExport (js_field d ''version''))
      else if \<not> is_object w then Some WorkspaceMissing
      else if \<not> is_str (js_field w ''id'') then Some (BadText ''id'')
      else if \<not> is_str (js_field w ''name'') then Some (BadText ''name'')
      else if \<not> is_str (js_field w ''privateKey'') then Some (BadText ''privateKey'')
      else if (case js_field w ''createdAt'' of JUndef \<Rightarrow> False | JNum _ \<Rightarrow> False | _ \<Rightarrow> True) then Some BadCreatedAt
      else if \<not> is_arr (js_field d ''reports'') then Some ReportsNotArray
      else if length (elems (js_field d ''reports'')) > MAX_PER_EXPORT
        then Some (CountOverCap ''reports'' (length (elems (js_field d ''reports''))))
      else case list_error (js_field d ''bundles'') ''bundles'' MAX_PER_EXPORT bundle_error of
        Some e \<Rightarrow> Some e
      | None \<Rightarrow> list_error (js_field d ''bundleBlobs'') ''bundleBlobs'' MAX_BUNDLE_BLOBS_PER_EXPORT blob_error)"

definition isWorkspaceExport :: "jsval \<Rightarrow> bool" where
  "isWorkspaceExport d = (validateExportShape d = None)"

datatype parse_failure = NotJsonText | OverCap shape_error | NotAnExport shape_error

text \<open>Only a count over its cap speaks of a cap; the rest reads as no export at all.\<close>

definition parseWorkspaceJson :: "jsval option \<Rightarrow> parse_failure + jsval" where
  "parseWorkspaceJson parsed = (case parsed of
     None \<Rightarrow> Inl NotJsonText
   | Some d \<Rightarrow> (case validateExportShape d of
       None \<Rightarrow> Inr d
     | Some e \<Rightarrow> Inl (if (case e of CountOverCap _ _ \<Rightarrow> True | _ \<Rightarrow> False) then OverCap e else NotAnExport e)))"

section \<open>The import\<close>

text \<open>
  Saving a file and storing a bundle may be refused (\<open>saves\<close>, \<open>keeps\<close>), a report may
  not parse (\<open>analyzeReport\<close>); bundle bytes are stored under the hash computed from
  them. \<open>decode\<close> is base64, \<open>None\<close> where it throws.
\<close>

record import_env =
  env_parseJson :: "string \<Rightarrow> jsval option"
  env_analyze :: "string \<Rightarrow> (jsval \<times> jsval) option"
  env_saves :: "string \<Rightarrow> bool"
  env_decode :: "string \<Rightarrow> string option"
  env_hash :: "string \<Rightarrow> string"
  env_keeps :: "string \<Rightarrow> bool"
  env_urls_ok :: bool

record import_state =
  i_files :: "(string, string) jsmap"
  i_counts :: counts
  i_bundles :: "(string, string \<times> string) jsmap"
  i_urls :: "(string, jsval) jsmap"
  i_triage :: tmap
  i_store :: wstore

definition save_report :: "import_env \<Rightarrow> jsval \<Rightarrow> import_state \<times> string list \<Rightarrow> import_state \<times> string list" where
  "save_report env r s =
     (case (js_field r ''name'', js_field r ''content'') of
        (JStr name, JStr content) \<Rightarrow>
          if \<not> env_saves env name then s
          else
            let s1 = (fst s)\<lparr>i_files := map_set name content (i_files (fst s))\<rparr> in
            (case analyzeContent (env_parseJson env) (env_analyze env) content of
               None \<Rightarrow> (s1, snd s)
             | Some (count, source) \<Rightarrow>
                 (s1\<lparr>i_counts := setCount name count (coalesce source (getKind (i_counts s1) name)) (i_counts s1)\<rparr>,
                  snd s @ [name]))
      | _ \<Rightarrow> s)"

definition persist_blob :: "import_env \<Rightarrow> jsval \<Rightarrow> import_state \<Rightarrow> import_state" where
  "persist_blob env b s =
     (case (js_field b ''name'', js_field b ''data'') of
        (JStr name, JStr d) \<Rightarrow> (case env_decode env d of
            None \<Rightarrow> s
          | Some bytes \<Rightarrow> if env_keeps env name
              then s\<lparr>i_bundles := map_set (env_hash env bytes) (name, bytes) (i_bundles s)\<rparr> else s)
      | _ \<Rightarrow> s)"

definition persistImportedBundleBlobs :: "import_env \<Rightarrow> jsval \<Rightarrow> import_state \<Rightarrow> import_state" where
  "persistImportedBundleBlobs env blobs s = (if is_arr blobs then fold (persist_blob env) (elems blobs) s else s)"

definition str_of :: "jsval \<Rightarrow> string" where
  "str_of v = (case v of JStr s \<Rightarrow> s | _ \<Rightarrow> [])"

definition import_upsert_arg :: "jsval \<Rightarrow> string list \<Rightarrow> upsert_arg" where
  "import_upsert_arg d savedNames =
     (let w = js_field d ''workspace'';
          bundlesProvided = is_arr (js_field d ''bundles'');
          importedBundles = (if bundlesProvided
            then map str_of (filter (\<lambda>b. is_str b \<and> b \<noteq> JStr []) (elems (js_field d ''bundles''))) else [])
      in \<lparr>u_id = str_of (js_field w ''id''), u_name = Some (str_of (js_field w ''name'')),
          u_key = str_of (js_field w ''privateKey''), u_reports = Some savedNames,
          u_bundles = (if bundlesProvided then Some importedBundles else None),
          u_preserveBundles = (\<not> bundlesProvided),
          u_created = (case js_field w ''createdAt'' of JNum n \<Rightarrow> Some n | _ \<Rightarrow> None)\<rparr>)"

definition offered_urls :: "jsval \<Rightarrow> string list \<Rightarrow> (string, jsval) jsmap" where
  "offered_urls d savedNames =
     filter (\<lambda>(name, url). name \<in> set savedNames \<and> nonempty_str url) (own_fields (js_field d ''repoUrls''))"

text \<open>
  \<open>migrated\<close> is the file's triage after the migration of its report ignores. An upsert
  that throws ends the import with what was stored by then.
\<close>

definition applyWorkspaceImport ::
    "import_env \<Rightarrow> jsval \<Rightarrow> jsval \<Rightarrow> (conflict list \<Rightarrow> (string, string) jsmap option) option \<Rightarrow> (tmap \<Rightarrow> tmap) \<Rightarrow>
     int \<Rightarrow> import_state \<Rightarrow> import_state \<times> followup outcome" where
  "applyWorkspaceImport env d migrated resolver meanwhile now s =
     (let (s1, savedNames) = fold (save_report env) (elems (js_field d ''reports'')) (s, []);
          s2 = persistImportedBundleBlobs env (js_field d ''bundleBlobs'') s1;
          s3 = s2\<lparr>i_triage := mergeTriage migrated resolver meanwhile (i_triage s2)\<rparr>;
          (st, r) = upsertWorkspace (import_upsert_arg d savedNames) now (i_store s3);
          s4 = s3\<lparr>i_store := st\<rparr>
      in case r of
        Wrote _ \<Rightarrow>
          let offered = offered_urls d savedNames in
          (if offered \<noteq> [] \<and> env_urls_ok env then s4\<lparr>i_urls := fst (adoptRepoUrls offered (i_urls s4))\<rparr> else s4, r)
      | _ \<Rightarrow> (s4, r))"

section \<open>Facts about the import\<close>

text \<open>A report that landed is stored as the file has it; nothing else of the state moves.\<close>

definition landed :: "jsval list \<Rightarrow> import_state \<Rightarrow> string list \<Rightarrow> bool" where
  "landed rs s saved = (\<forall>n\<in>set saved. \<exists>c. map_of (i_files s) n = Some c
     \<and> (\<exists>r\<in>set rs. js_field r ''name'' = JStr n \<and> js_field r ''content'' = JStr c))"

definition only_files :: "import_state \<Rightarrow> import_state \<Rightarrow> bool" where
  "only_files s s' = (i_bundles s' = i_bundles s \<and> i_urls s' = i_urls s \<and> i_triage s' = i_triage s \<and> i_store s' = i_store s)"

lemma save_report_step:
  assumes "r \<in> set rs" and "landed rs (fst p) (snd p) \<and> only_files s (fst p)"
  shows "landed rs (fst (save_report env r p)) (snd (save_report env r p)) \<and> only_files s (fst (save_report env r p))"
proof (cases "\<exists>n c. js_field r ''name'' = JStr n \<and> js_field r ''content'' = JStr c \<and> env_saves env n")
  case True
  then obtain n c where r: "js_field r ''name'' = JStr n" "js_field r ''content'' = JStr c" "env_saves env n" by blast
  with assms show ?thesis
    by (auto simp: save_report_def landed_def only_files_def Let_def split: option.splits)
next
  case False
  then have "save_report env r p = p" by (auto simp: save_report_def split: jsval.splits)
  with assms show ?thesis by simp
qed

lemma save_reports:
  "landed rs (fst (fold (save_report env) rs (s, []))) (snd (fold (save_report env) rs (s, [])))
     \<and> only_files s (fst (fold (save_report env) rs (s, [])))"
proof (rule fold_invariant [where P = "\<lambda>p. landed rs (fst p) (snd p) \<and> only_files s (fst p)"])
  show "landed rs (fst (s, [])) (snd (s, [])) \<and> only_files s (fst (s, []))" by (simp add: landed_def only_files_def)
qed (rule save_report_step)

text \<open>Bundle bytes lie under their own hash, whatever integrity the file claims for them.\<close>

definition bundles_hashed :: "(string \<Rightarrow> string) \<Rightarrow> import_state \<Rightarrow> bool" where
  "bundles_hashed h s = (\<forall>k n b. map_of (i_bundles s) k = Some (n, b) \<longrightarrow> h b = k)"

lemma persist_blobs:
  assumes "bundles_hashed (env_hash env) s"
  shows "bundles_hashed (env_hash env) (persistImportedBundleBlobs env blobs s)
    \<and> i_files (persistImportedBundleBlobs env blobs s) = i_files s \<and> i_urls (persistImportedBundleBlobs env blobs s) = i_urls s
    \<and> i_triage (persistImportedBundleBlobs env blobs s) = i_triage s \<and> i_store (persistImportedBundleBlobs env blobs s) = i_store s"
proof -
  have "bundles_hashed (env_hash env) t \<and> i_files t = i_files s \<and> i_urls t = i_urls s \<and> i_triage t = i_triage s \<and> i_store t = i_store s
      \<Longrightarrow> bundles_hashed (env_hash env) (persist_blob env b t) \<and> i_files (persist_blob env b t) = i_files s
        \<and> i_urls (persist_blob env b t) = i_urls s \<and> i_triage (persist_blob env b t) = i_triage s
        \<and> i_store (persist_blob env b t) = i_store s" for b t
    by (auto simp: persist_blob_def bundles_hashed_def split: jsval.splits option.splits if_splits)
  then show ?thesis
    unfolding persistImportedBundleBlobs_def using assms
    by (cases "is_arr blobs") (simp_all add: fold_invariant [where P = "\<lambda>t. bundles_hashed (env_hash env) t \<and> i_files t = i_files s
      \<and> i_urls t = i_urls s \<and> i_triage t = i_triage s \<and> i_store t = i_store s"])
qed

lemma adopt_step:
  "fst (adoptRepoUrls (offer @ [(name, url)]) cur) =
     (let m = fst (adoptRepoUrls offer cur) in
      if name = [] \<or> \<not> nonempty_str url \<or> (case map_of m name of Some u \<Rightarrow> truthy u | None \<Rightarrow> False)
      then m else map_set name url m)"
  by (auto simp: adoptRepoUrls_def Let_def split: prod.splits)

lemma adopt_keeps:
  "(map_of cur n = Some u \<and> truthy u \<longrightarrow> map_of (fst (adoptRepoUrls offer cur)) n = Some u)
    \<and> (map_of (fst (adoptRepoUrls offer cur)) n \<noteq> map_of cur n \<longrightarrow> n \<in> fst ` set offer)"
proof (induction offer rule: rev_induct)
  case Nil
  then show ?case by (simp add: adoptRepoUrls_def)
next
  case (snoc x offer)
  obtain name url where x: "x = (name, url)" by (cases x)
  show ?case using snoc unfolding x adopt_step Let_def by (cases "n = name") auto
qed

lemma upsert_listed:
  "listed Reports (upserted u now p) = (case u_reports u of None \<Rightarrow> [] | Some rs \<Rightarrow> js_set rs)"
  "listed Bundles (upserted u now p) = js_set (if u_preserveBundles u then (case p of None \<Rightarrow> [] | Some p \<Rightarrow> listed Bundles p)
      else (case u_bundles u of None \<Rightarrow> [] | Some bs \<Rightarrow> bs))"
  by (simp_all add: listed_def upserted_def Let_def)

lemma upsert_run:
  assumes "upsertWorkspace u now st = (st', Wrote fu)" and d: "distinct (map w_id (rows_read st))"
  shows "\<exists>w. fu = Upserted w \<and> w = upserted u now (find (\<lambda>w. w_id w = u_id u) (rows_read st))
     \<and> w \<in> set (rows_in (fst st'))
     \<and> filter (\<lambda>r. w_id r \<noteq> u_id u) (rows_in (fst st')) = filter (\<lambda>r. w_id r \<noteq> u_id u) (rows_read st)"
proof -
  let ?ws = "rows_read st"
  let ?p = "find (\<lambda>w. w_id w = u_id u) ?ws"
  let ?w = "upserted u now ?p"
  let ?ws' = "case ?p of None \<Rightarrow> ?ws @ [?w] | Some _ \<Rightarrow> update_first (\<lambda>w. w_id w = u_id u) (\<lambda>_. ?w) ?ws"
  have m: "upsert_mutator u now ?ws = Some (?ws', Upserted ?w)" by (simp add: upsert_mutator_def Let_def)
  from assms(1) have r: "fu = Upserted ?w" "rows_in (fst st') = ?ws'"
    by (auto simp: upsertWorkspace_def perform_def mutate_cases m split: if_splits outcome.splits)
  have ids: "w_id ?w = u_id u" by simp
  have "?w \<in> set ?ws' \<and> filter (\<lambda>r. w_id r \<noteq> u_id u) ?ws' = filter (\<lambda>r. w_id r \<noteq> u_id u) ?ws"
  proof (cases ?p)
    case None
    then show ?thesis by simp
  next
    case (Some a)
    then have "a \<in> set ?ws" "w_id a = u_id u" by (auto dest: find_SomeD)
    moreover have f: "filter (\<lambda>r. w_id r \<noteq> u_id u) (map (\<lambda>x. if w_id x = u_id u then v else x) ws)
        = filter (\<lambda>r. w_id r \<noteq> u_id u) ws" if "w_id v = u_id u" for ws v by (induction ws) (simp_all add: that)
    moreover have "?ws' = map (\<lambda>x. if w_id x = u_id u then ?w else x) ?ws"
      using Some by (simp add: update_first_unique [OF d refl])
    ultimately show ?thesis unfolding f [OF ids] by (simp only: f [OF ids] set_map) (auto simp: image_iff)
  qed
  with r show ?thesis by auto
qed

section \<open>Properties of the import\<close>

text \<open>The triage of an imported workspace only fills gaps: on every finding the file
  names, each main field keeps its local value where it has one and takes the file's valid
  value where it has none; report ignores are added where the resulting status leaves room,
  and dropped where a status that excludes them is adopted; other findings are untouched.
  The conflicts queued are exactly the fields both sides set to different values, each with
  the two values, and with no answer the local side wins.\<close>

theorem mergeTriage_fills_gaps:
  assumes "tmap_ok m" and "map_ok fs" and "fold merge_entry fs (m, []) = (m', conflicts)"
  shows "mergeTriage (JObj fs) None meanwhile m = m' \<and> tmap_ok m'
    \<and> (case offered_entry fs i of
          None \<Rightarrow> map_of m' i = map_of m i
        | Some v \<Rightarrow> merged_import v (map_of m i) (map_of m' i))
    \<and> set conflicts = {c. \<exists>i v. offered_entry fs i = Some v \<and> c \<in> clashes i (Some v) (map_of m i) (set main_fields)}"
proof -
  have "distinct (map fst fs)" using assms(2) by (simp add: map_ok_def)
  note f = merge_fold [of "(m, [])" fs, unfolded fst_conv snd_conv assms(3) list.set(1) Un_empty_left, OF assms(1) this]
  have "mergeTriage (JObj fs) None meanwhile m = m'" by (simp add: mergeTriage_def assms(3))
  with conjunct1 [OF f] spec [OF conjunct1 [OF conjunct2 [OF f]], of i] conjunct2 [OF conjunct2 [OF f]] show ?thesis
    by (intro conjI)
qed

definition import_sample :: "(string, jsval) jsmap" where
  "import_sample = [(''f1'', JObj [(''color'', JStr ''blue''), (''triage'', JStr ''fixed'')])]"

theorem mergeTriage_fills_gaps_witness:
  "\<exists>m' conflicts. fold merge_entry import_sample ([(''f1'', no_fields\<lparr>e_color := JStr ''red''\<rparr>)], []) = (m', conflicts)
     \<and> conflict_at ''f1'' Color (JStr ''red'') (JStr ''blue'') \<in> set conflicts"
proof -
  let ?m = "[(''f1'', no_fields\<lparr>e_color := JStr ''red''\<rparr>)]"
  obtain m' conflicts where r: "fold merge_entry import_sample (?m, []) = (m', conflicts)" by fastforce
  have a: "tmap_ok ?m" "map_ok import_sample" by code_simp+
  define v where "v = no_fields\<lparr>e_color := JStr ''blue'', e_triage := JStr ''fixed''\<rparr>"
  have o: "offered_entry import_sample ''f1'' = Some v" unfolding v_def by code_simp
  have "conflict_at ''f1'' Color (JStr ''red'') (JStr ''blue'') \<in> clashes ''f1'' (Some v) (map_of ?m ''f1'') (set main_fields)"
    unfolding clashes_def by (rule CollectI, rule exI [of _ Color]) (simp add: v_def shown_def keep_str_def)
  with mergeTriage_fills_gaps [OF a r] o have "conflict_at ''f1'' Color (JStr ''red'') (JStr ''blue'') \<in> set conflicts" by blast
  with r show ?thesis by blast
qed

text \<open>C27: a workspace import that is stored lists only reports that landed, each stored as
  the file has it; keeps the workspace's bundles where the file says nothing of bundles;
  leaves every other workspace as it was; stores bundle bytes only under the hash computed
  from them, whatever the file claims; merges the triage, and adopts repository URLs only
  for reports that landed and had none.\<close>

theorem workspace_import_spec:
  assumes run: "applyWorkspaceImport env d migrated resolver meanwhile now s = (s', Wrote fu)"
    and hashed: "bundles_hashed (env_hash env) s"
    and ids: "distinct (map w_id (rows_read (i_store s)))"
  shows "\<exists>w. fu = Upserted w \<and> w_id w = str_of (js_field (js_field d ''workspace'') ''id'')
     \<and> w \<in> set (rows_in (fst (i_store s')))
     \<and> filter (\<lambda>r. w_id r \<noteq> w_id w) (rows_in (fst (i_store s'))) = filter (\<lambda>r. w_id r \<noteq> w_id w) (rows_read (i_store s))
     \<and> landed (elems (js_field d ''reports'')) s' (listed Reports w)
     \<and> (\<not> is_arr (js_field d ''bundles'') \<longrightarrow> set (listed Bundles w) =
          (case find (\<lambda>r. w_id r = w_id w) (rows_read (i_store s)) of None \<Rightarrow> {} | Some p \<Rightarrow> set (listed Bundles p)))
     \<and> bundles_hashed (env_hash env) s'
     \<and> i_triage s' = mergeTriage migrated resolver meanwhile (i_triage s)
     \<and> (\<forall>n u. map_of (i_urls s) n = Some u \<and> truthy u \<longrightarrow> map_of (i_urls s') n = Some u)
     \<and> (\<forall>n. map_of (i_urls s') n \<noteq> map_of (i_urls s) n \<longrightarrow> n \<in> set (listed Reports w))"
proof -
  let ?rs = "elems (js_field d ''reports'')"
  obtain s1 saved where s1: "fold (save_report env) ?rs (s, []) = (s1, saved)" by fastforce
  define s2 where "s2 = persistImportedBundleBlobs env (js_field d ''bundleBlobs'') s1"
  define s3 where "s3 = s2\<lparr>i_triage := mergeTriage migrated resolver meanwhile (i_triage s2)\<rparr>"
  let ?u = "import_upsert_arg d saved"
  obtain st r where up: "upsertWorkspace ?u now (i_store s3) = (st, r)" by fastforce
  define s4 where "s4 = s3\<lparr>i_store := st\<rparr>"
  define offer where "offer = offered_urls d saved"
  have res: "r = Wrote fu" "s' = (if offer \<noteq> [] \<and> env_urls_ok env
      then s4\<lparr>i_urls := fst (adoptRepoUrls offer (i_urls s4))\<rparr> else s4)"
    using run unfolding applyWorkspaceImport_def Let_def s1 prod.case s2_def [symmetric] s3_def [symmetric] up
      s4_def [symmetric] offer_def [symmetric] by (auto split: outcome.splits)
  from save_reports [of ?rs env s] s1 have l: "landed ?rs s1 saved" "only_files s s1" by simp_all
  then have same: "i_bundles s1 = i_bundles s" "i_urls s1 = i_urls s" "i_triage s1 = i_triage s" "i_store s1 = i_store s"
    by (simp_all add: only_files_def)
  have "bundles_hashed (env_hash env) s1" using hashed same(1) by (simp add: bundles_hashed_def)
  note b = persist_blobs [OF this, of "js_field d ''bundleBlobs''", folded s2_def]
  have st3: "i_store s3 = i_store s" using b same by (simp add: s3_def)
  from upsert_run [OF up [unfolded res(1)]] ids st3 obtain w where w: "fu = Upserted w"
    "w = upserted ?u now (find (\<lambda>w. w_id w = u_id ?u) (rows_read (i_store s)))"
    "w \<in> set (rows_in (fst st))"
    "filter (\<lambda>r. w_id r \<noteq> u_id ?u) (rows_in (fst st)) = filter (\<lambda>r. w_id r \<noteq> u_id ?u) (rows_read (i_store s))" by auto
  have uid: "u_id ?u = str_of (js_field (js_field d ''workspace'') ''id'')" "w_id w = u_id ?u"
    by (simp_all add: import_upsert_arg_def Let_def w(2))
  have lr: "listed Reports w = js_set saved" unfolding w(2) upsert_listed by (simp add: import_upsert_arg_def Let_def)
  have lb: "\<not> is_arr (js_field d ''bundles'') \<Longrightarrow> set (listed Bundles w) =
      (case find (\<lambda>r. w_id r = w_id w) (rows_read (i_store s)) of None \<Rightarrow> {} | Some p \<Rightarrow> set (listed Bundles p))"
    unfolding uid(2) unfolding w(2) upsert_listed by (simp add: import_upsert_arg_def Let_def split: option.splits)
  have files: "i_files s' = i_files s1" using b by (auto simp: res(2) s4_def s3_def)
  have land: "landed ?rs s' (listed Reports w)" using l(1) files by (simp add: landed_def lr)
  have fin: "i_bundles s' = i_bundles s2" "i_store s' = st" "i_triage s' = mergeTriage migrated resolver meanwhile (i_triage s)"
    using b same by (auto simp: res(2) s4_def s3_def)
  have urls: "i_urls s' = (if offer \<noteq> [] \<and> env_urls_ok env then fst (adoptRepoUrls offer (i_urls s)) else i_urls s)"
    using b same by (auto simp: res(2) s4_def s3_def)
  have "fst ` set offer \<subseteq> set saved" by (auto simp: offer_def offered_urls_def)
  then have adopted: "map_of (i_urls s') n \<noteq> map_of (i_urls s) n \<Longrightarrow> n \<in> set (listed Reports w)"
    "map_of (i_urls s) n = Some u \<and> truthy u \<Longrightarrow> map_of (i_urls s') n = Some u" for n u
    using adopt_keeps [of "i_urls s" n u offer] unfolding urls lr by (auto split: if_splits)
  have bh: "bundles_hashed (env_hash env) s'" using b fin(1) by (simp add: bundles_hashed_def)
  show ?thesis
    using w(1,3,4) uid land lb bh fin adopted by (intro exI [of _ w]) simp
qed

text \<open>An import ends as its upsert does.\<close>

lemma import_result:
  assumes "bundles_hashed (env_hash env) s"
  shows "snd (applyWorkspaceImport env d migrated resolver meanwhile now s) = snd (upsertWorkspace
    (import_upsert_arg d (snd (fold (save_report env) (elems (js_field d ''reports'')) (s, [])))) now (i_store s))"
proof -
  let ?rs = "elems (js_field d ''reports'')"
  obtain s1 saved where s1: "fold (save_report env) ?rs (s, []) = (s1, saved)" by fastforce
  define s2 where "s2 = persistImportedBundleBlobs env (js_field d ''bundleBlobs'') s1"
  define s3 where "s3 = s2\<lparr>i_triage := mergeTriage migrated resolver meanwhile (i_triage s2)\<rparr>"
  obtain st r where up: "upsertWorkspace (import_upsert_arg d saved) now (i_store s3) = (st, r)" by fastforce
  from save_reports [of ?rs env s] s1 have "only_files s s1" by simp
  then have "i_store s1 = i_store s" "bundles_hashed (env_hash env) s1"
    using assms by (simp_all add: only_files_def bundles_hashed_def)
  with persist_blobs have "i_store s3 = i_store s" by (simp add: s3_def s2_def)
  moreover have "snd (applyWorkspaceImport env d migrated resolver meanwhile now s) = r"
    unfolding applyWorkspaceImport_def Let_def s1 prod.case s2_def [symmetric] s3_def [symmetric] up by (cases r) simp_all
  ultimately show ?thesis using up by (simp add: s1)
qed

definition import_file :: jsval where
  "import_file = JObj [(''workspace'', JObj [(''id'', JStr ''w''), (''name'', JStr ''N''), (''privateKey'', JStr ''k'')]),
     (''reports'', JArr [JObj [(''name'', JStr ''r''), (''content'', JStr ''{}'')], JNull])]"

definition import_sample_env :: import_env where
  "import_sample_env = \<lparr>env_parseJson = (\<lambda>_. None), env_analyze = (\<lambda>_. Some (JNum 0, JUndef)), env_saves = (\<lambda>_. True),
     env_decode = (\<lambda>_. None), env_hash = id, env_keeps = (\<lambda>_. True), env_urls_ok = True\<rparr>"

definition import_sample_state :: import_state where
  "import_sample_state = \<lparr>i_files = [], i_counts = [], i_bundles = [], i_urls = [], i_triage = [],
     i_store = (Some (Versioned 1 sample_rows), sample_tab)\<rparr>"

theorem workspace_import_spec_witness:
  "\<exists>s' w. applyWorkspaceImport import_sample_env import_file JUndef None id 3 import_sample_state = (s', Wrote (Upserted w))
     \<and> w_id w = ''w'' \<and> landed (elems (js_field import_file ''reports'')) s' (listed Reports w)"
proof -
  obtain s' r where run: "applyWorkspaceImport import_sample_env import_file JUndef None id 3 import_sample_state = (s', r)" by fastforce
  have rows: "rows_read (i_store import_sample_state) = sample_rows"
    by (simp add: import_sample_state_def rows_read_def sample_tab_def)
  have up: "\<exists>fu. snd (upsertWorkspace u now (Some (Versioned 1 sample_rows), sample_tab)) = Wrote fu" for u now
    by (simp add: upsertWorkspace_def perform_def mutate_cases upsert_mutator_def Let_def sample_tab_def split: prod.splits)
  have h: "bundles_hashed (env_hash import_sample_env) import_sample_state" by (simp add: bundles_hashed_def import_sample_state_def)
  have st: "i_store import_sample_state = (Some (Versioned 1 sample_rows), sample_tab)" by (simp add: import_sample_state_def)
  from import_result [OF h, of import_file JUndef None id 3] run up have "\<exists>fu. r = Wrote fu" unfolding st by simp
  then obtain fu where r: "r = Wrote fu" by blast
  have "bundles_hashed (env_hash import_sample_env) import_sample_state" by (simp add: bundles_hashed_def import_sample_state_def)
  moreover have "distinct (map w_id (rows_read (i_store import_sample_state)))" unfolding rows by code_simp
  moreover have "str_of (js_field (js_field import_file ''workspace'') ''id'') = ''w''" by code_simp
  ultimately show ?thesis using workspace_import_spec [OF run [unfolded r]] run r by fastforce
qed

text \<open>A file that passes the shape check is within every bound the import relies on: the
  three counts, the length of each integrity, name and encoded blob, and the types of the
  fields it reads; and a file is refused exactly where one of them fails.\<close>

theorem export_bounds:
  "validateExportShape d = None \<longleftrightarrow>
     is_object d \<and> js_field d ''version'' = JNum EXPORT_VERSION \<and> is_object (js_field d ''workspace'')
     \<and> list_all (\<lambda>k. is_str (js_field (js_field d ''workspace'') k)) [''id'', ''name'', ''privateKey'']
     \<and> (js_field (js_field d ''workspace'') ''createdAt'' = JUndef \<or> (\<exists>n. js_field (js_field d ''workspace'') ''createdAt'' = JNum n))
     \<and> is_arr (js_field d ''reports'') \<and> length (elems (js_field d ''reports'')) \<le> 1024
     \<and> (js_field d ''bundles'' = JUndef \<or> is_arr (js_field d ''bundles'') \<and> length (elems (js_field d ''bundles'')) \<le> 1024
          \<and> list_all (\<lambda>b. is_str b \<and> str_len b \<le> 200) (elems (js_field d ''bundles'')))
     \<and> (js_field d ''bundleBlobs'' = JUndef \<or> is_arr (js_field d ''bundleBlobs'') \<and> length (elems (js_field d ''bundleBlobs'')) \<le> 64
          \<and> list_all (\<lambda>b. blob_error b = None) (elems (js_field d ''bundleBlobs'')))"
proof -
  have fe: "first_error f xs = None \<longleftrightarrow> list_all (\<lambda>x. f x = None) xs" for f :: "jsval \<Rightarrow> shape_error option" and xs
    by (induction xs) (auto split: option.splits)
  have be: "bundle_error b = None \<longleftrightarrow> is_str b \<and> str_len b \<le> 200" for b
    by (auto simp: bundle_error_def MAX_BUNDLE_INTEGRITY_LEN_def)
  have le: "list_error v name cap each = None \<longleftrightarrow> v = JUndef \<or> is_arr v \<and> length (elems v) \<le> cap
      \<and> list_all (\<lambda>x. each x = None) (elems v)" for v name cap each
    by (auto simp: list_error_def fe)
  have cr: "(case v of JUndef \<Rightarrow> False | JNum _ \<Rightarrow> False | _ \<Rightarrow> True) \<longleftrightarrow> \<not> (v = JUndef \<or> (\<exists>n. v = JNum n))" for v
    by (cases v) simp_all
  have opt: "(case a of Some e \<Rightarrow> Some e | None \<Rightarrow> b) = None \<longleftrightarrow> a = None \<and> b = None" for a b :: "shape_error option"
    by (cases a) simp_all
  have ite: "(if P then Some e else x) = None \<longleftrightarrow> \<not> P \<and> x = None" for P and e :: shape_error and x by simp
  show ?thesis
    unfolding validateExportShape_def Let_def ite opt le be cr MAX_PER_EXPORT_def MAX_BUNDLE_BLOBS_PER_EXPORT_def
    by (simp add: not_less)
qed

end
