(* ===== verification/VersionCompare.thy ===== *)
theory VersionCompare
  imports JsText "HOL-Library.Char_ord" "HOL-Library.List_Lexorder" "HOL-Library.Product_Lexorder" "HOL-Library.Multiset"
begin

text \<open>
  Dependency versions two bundles record, compared
  (\<^verbatim>\<open>src/common/bundle-compare-versions.js\<close>): the order of two versions, the
  direction of a move, the version changes between two inventories and the package rows.
  \<open>num\<close> is the language's \<open>Number\<close> of a text, \<open>None\<close> for NaN, and \<open>collate\<close> the locale's
  comparison of two names. Strings compare by code units, which is the library's
  lexicographic order.
\<close>

section \<open>Two versions\<close>

definition splitVersion :: "string \<Rightarrow> string \<times> string" where
  "splitVersion v =
     (let noBuild = takeWhile (\<lambda>c. c \<noteq> CHR ''+'') (trim v) in
      (takeWhile (\<lambda>c. c \<noteq> CHR ''-'') noBuild, tl (dropWhile (\<lambda>c. c \<noteq> CHR ''-'') noBuild)))"

abbreviation v_core :: "string \<Rightarrow> string list" where
  "v_core v \<equiv> split_on (CHR ''.'') (fst (splitVersion v))"

abbreviation v_pre :: "string \<Rightarrow> string" where
  "v_pre v \<equiv> snd (splitVersion v)"

definition sign :: "'a::linorder \<Rightarrow> 'a \<Rightarrow> int" where
  "sign x y = (if x < y then -1 else if x = y then 0 else 1)"

text \<open>The numeric core, part by part, a missing part as 0; \<open>None\<close> where a part is no number.\<close>

fun core_cmp :: "(string \<Rightarrow> ('n::{linorder, zero}) option) \<Rightarrow> string list \<Rightarrow> string list \<Rightarrow> int option" where
  "core_cmp num [] [] = Some 0"
| "core_cmp num (x # xs) [] = (case num x of None \<Rightarrow> None
     | Some n \<Rightarrow> if n \<noteq> 0 then Some (if n < 0 then -1 else 1) else core_cmp num xs [])"
| "core_cmp num [] (y # ys) = (case num y of None \<Rightarrow> None
     | Some m \<Rightarrow> if 0 \<noteq> m then Some (if 0 < m then -1 else 1) else core_cmp num [] ys)"
| "core_cmp num (x # xs) (y # ys) = (case (num x, num y) of
       (Some n, Some m) \<Rightarrow> if n \<noteq> m then Some (if n < m then -1 else 1) else core_cmp num xs ys
     | _ \<Rightarrow> None)"

text \<open>The prerelease identifiers; numeric ones are always numbers.\<close>

definition num_less :: "(string \<Rightarrow> ('n::{linorder, zero}) option) \<Rightarrow> string \<Rightarrow> string \<Rightarrow> bool" where
  "num_less num x y = (case (num x, num y) of (Some n, Some m) \<Rightarrow> n < m | _ \<Rightarrow> False)"

fun pre_cmp :: "(string \<Rightarrow> ('n::{linorder, zero}) option) \<Rightarrow> string list \<Rightarrow> string list \<Rightarrow> int" where
  "pre_cmp num [] [] = 0"
| "pre_cmp num [] (y # ys) = -1"
| "pre_cmp num (x # xs) [] = 1"
| "pre_cmp num (x # xs) (y # ys) =
     (if x = y then pre_cmp num xs ys
      else if all_digits x \<and> all_digits y then (if num_less num x y then -1 else 1)
      else if all_digits x \<noteq> all_digits y then (if all_digits x then -1 else 1)
      else if x < y then -1 else 1)"

definition compareSemver :: "(string \<Rightarrow> ('n::{linorder, zero}) option) \<Rightarrow> string \<Rightarrow> string \<Rightarrow> int" where
  "compareSemver num a b =
     (if a = b then 0
      else case core_cmp num (v_core a) (v_core b) of
        None \<Rightarrow> if a < b then -1 else 1
      | Some c \<Rightarrow>
          if c \<noteq> 0 then c
          else if v_pre a = v_pre b then 0
          else if v_pre a = [] then 1
          else if v_pre b = [] then -1
          else pre_cmp num (split_on (CHR ''.'') (v_pre a)) (split_on (CHR ''.'') (v_pre b)))"

section \<open>Lists of versions\<close>

text \<open>\<open>toSorted\<close>: stable.\<close>

fun insert_by :: "('a \<Rightarrow> 'a \<Rightarrow> int) \<Rightarrow> 'a \<Rightarrow> 'a list \<Rightarrow> 'a list" where
  "insert_by cmp x [] = [x]"
| "insert_by cmp x (y # ys) = (if cmp x y \<le> 0 then x # y # ys else y # insert_by cmp x ys)"

definition sorted_by :: "('a \<Rightarrow> 'a \<Rightarrow> int) \<Rightarrow> 'a list \<Rightarrow> 'a list" where
  "sorted_by cmp xs = foldr (insert_by cmp) xs []"

fun sameVersions :: "string list \<Rightarrow> string list \<Rightarrow> bool" where
  "sameVersions [] [] = True"
| "sameVersions (x # xs) (y # ys) = (x = y \<and> sameVersions xs ys)"
| "sameVersions _ _ = False"

datatype direction = Up | Down | Changed

definition all_before :: "('a \<Rightarrow> 'a \<Rightarrow> int) \<Rightarrow> 'a list \<Rightarrow> 'a list \<Rightarrow> bool" where
  "all_before cmp a b = (cmp (last a) (hd b) < 0)"

definition versionDirection :: "(string \<Rightarrow> string \<Rightarrow> int) \<Rightarrow> string list \<Rightarrow> string list \<Rightarrow> direction" where
  "versionDirection cmp base other =
     (let dropped = sorted_by cmp (filter (\<lambda>v. v \<notin> set other) base);
          taken = sorted_by cmp (filter (\<lambda>v. v \<notin> set base) other);
          kept = sorted_by cmp (filter (\<lambda>v. v \<in> set other) base);
          (from, to) = (if dropped \<noteq> [] \<and> taken \<noteq> [] then (dropped, taken)
            else if dropped \<noteq> [] then (dropped, kept) else (kept, taken))
      in if from = [] \<or> to = [] then Changed
         else if all_before cmp from to then Up
         else if all_before cmp to from then Down else Changed)"

section \<open>The changes between two inventories\<close>

record version_update =
  vu_pkg :: string
  vu_base :: "string list"
  vu_other :: "string list"
  vu_direction :: direction

record version_changes =
  vc_updated :: "version_update list"
  vc_added :: "(string \<times> string list) list"
  vc_removed :: "(string \<times> string list) list"
  vc_baseDeps :: nat
  vc_otherDeps :: nat

definition update_of :: "(string \<Rightarrow> string \<Rightarrow> int) \<Rightarrow> string \<Rightarrow> string list \<Rightarrow> string list \<Rightarrow> version_update" where
  "update_of cmp pkg b other = \<lparr>vu_pkg = pkg, vu_base = b, vu_other = other, vu_direction = versionDirection cmp b other\<rparr>"

definition version_step ::
    "(string \<Rightarrow> string \<Rightarrow> int) \<Rightarrow> (string, string list) jsmap \<Rightarrow> (string, string list) jsmap \<Rightarrow> string \<Rightarrow>
     version_changes \<Rightarrow> version_changes" where
  "version_step cmp baseVersions otherVersions pkg acc =
     (case (map_of baseVersions pkg, map_of otherVersions pkg) of
        (Some bs, Some vs) \<Rightarrow>
          (let b = sorted_by cmp bs; other = sorted_by cmp vs in
           if sameVersions b other then acc
           else acc\<lparr>vc_updated := vc_updated acc @ [update_of cmp pkg b other]\<rparr>)
      | (Some bs, None) \<Rightarrow> acc\<lparr>vc_removed := vc_removed acc @ [(pkg, sorted_by cmp bs)]\<rparr>
      | (None, Some vs) \<Rightarrow> acc\<lparr>vc_added := vc_added acc @ [(pkg, sorted_by cmp vs)]\<rparr>
      | (None, None) \<Rightarrow> acc)"

definition computeVersionUpdates ::
    "(string \<Rightarrow> string \<Rightarrow> int) \<Rightarrow> (string \<Rightarrow> string \<Rightarrow> int) \<Rightarrow> (string, string list) jsmap \<Rightarrow> (string, string list) jsmap \<Rightarrow>
     version_changes" where
  "computeVersionUpdates collate cmp baseVersions otherVersions =
     (let names = js_set (map_keys baseVersions @ map_keys otherVersions);
          acc = fold (version_step cmp baseVersions otherVersions) names
            \<lparr>vc_updated = [], vc_added = [], vc_removed = [],
             vc_baseDeps = length baseVersions, vc_otherDeps = length otherVersions\<rparr>
      in acc\<lparr>vc_updated := sorted_by (\<lambda>a b. collate (vu_pkg a) (vu_pkg b)) (vc_updated acc),
             vc_added := sorted_by (\<lambda>a b. collate (fst a) (fst b)) (vc_added acc),
             vc_removed := sorted_by (\<lambda>a b. collate (fst a) (fst b)) (vc_removed acc)\<rparr>)"

section \<open>The package rows\<close>

record package_sizes =
  ps_onlyBase :: "(string \<times> int) list"
  ps_onlyOther :: "(string \<times> int) list"
  ps_changed :: "(string \<times> int \<times> int) list"
  ps_unchanged :: "(string \<times> int) list"

record package_row =
  pr_pkg :: string
  pr_baseBytes :: "int option"
  pr_otherBytes :: "int option"
  pr_delta :: "int option"
  pr_base :: "string list"
  pr_other :: "string list"
  pr_direction :: "direction option"

record package_rows =
  rows_removed :: "(string \<times> int option \<times> string list) list"
  rows_added :: "(string \<times> int option \<times> string list) list"
  rows_changed :: "package_row list"

definition sizes_of :: "package_sizes \<Rightarrow> (string, int option \<times> int option) jsmap" where
  "sizes_of p =
     fold (\<lambda>(k, b). map_set k (Some b, Some b)) (ps_unchanged p)
       (fold (\<lambda>(k, b, c). map_set k (Some b, Some c)) (ps_changed p)
         (fold (\<lambda>(k, b). map_set k (None, Some b)) (ps_onlyOther p)
           (fold (\<lambda>(k, b). map_set k (Some b, None)) (ps_onlyBase p) [])))"

definition versionsOf :: "(string \<Rightarrow> string \<Rightarrow> int) \<Rightarrow> (string, string list) jsmap \<Rightarrow> string \<Rightarrow> string list" where
  "versionsOf cmp m pkg = sorted_by cmp (case map_of m pkg of None \<Rightarrow> [] | Some vs \<Rightarrow> vs)"

definition moved_packages ::
    "(string \<Rightarrow> string \<Rightarrow> int) \<Rightarrow> package_sizes \<Rightarrow> (string, string list) jsmap \<Rightarrow> (string, string list) jsmap \<Rightarrow> string list" where
  "moved_packages cmp p baseVersions otherVersions =
     foldl (\<lambda>acc pkg. if sameVersions (versionsOf cmp baseVersions pkg) (versionsOf cmp otherVersions pkg) then acc else set_add acc pkg)
       (js_set (map fst (ps_onlyBase p) @ map fst (ps_onlyOther p) @ map fst (ps_changed p)))
       (js_set (map_keys baseVersions @ map_keys otherVersions))"

definition package_step ::
    "(string \<Rightarrow> string \<Rightarrow> int) \<Rightarrow> package_sizes \<Rightarrow> (string, string list) jsmap \<Rightarrow> (string, string list) jsmap \<Rightarrow> string \<Rightarrow>
     package_rows \<Rightarrow> package_rows" where
  "package_step cmp p baseVersions otherVersions pkg acc =
     (let (sb, so) = (case map_of (sizes_of p) pkg of None \<Rightarrow> (None, None) | Some s \<Rightarrow> s);
          after = versionsOf cmp otherVersions pkg; before = versionsOf cmp baseVersions pkg;
          onBase = (sb \<noteq> None \<or> before \<noteq> []); onOther = (so \<noteq> None \<or> after \<noteq> [])
      in if onBase \<and> \<not> onOther then acc\<lparr>rows_removed := rows_removed acc @ [(pkg, sb, before)]\<rparr>
         else if onOther \<and> \<not> onBase then acc\<lparr>rows_added := rows_added acc @ [(pkg, so, after)]\<rparr>
         else acc\<lparr>rows_changed := rows_changed acc @ [\<lparr>pr_pkg = pkg, pr_baseBytes = sb, pr_otherBytes = so,
             pr_delta = (case (sb, so) of (Some x, Some y) \<Rightarrow> Some (y - x) | _ \<Rightarrow> None),
             pr_base = before, pr_other = after,
             pr_direction = (if before \<noteq> [] \<and> after \<noteq> [] \<and> \<not> sameVersions before after
               then Some (versionDirection cmp before after) else None)\<rparr>]\<rparr>)"

definition comparePackages ::
    "(string \<Rightarrow> string \<Rightarrow> int) \<Rightarrow> (string \<Rightarrow> string \<Rightarrow> int) \<Rightarrow> package_sizes \<Rightarrow> (string, string list) jsmap \<Rightarrow>
     (string, string list) jsmap \<Rightarrow> package_rows" where
  "comparePackages collate cmp p baseVersions otherVersions =
     (let acc = fold (package_step cmp p baseVersions otherVersions) (moved_packages cmp p baseVersions otherVersions)
            \<lparr>rows_removed = [], rows_added = [], rows_changed = []\<rparr>
      in acc\<lparr>rows_removed := sorted_by (\<lambda>a b. collate (fst a) (fst b)) (rows_removed acc),
             rows_added := sorted_by (\<lambda>a b. collate (fst a) (fst b)) (rows_added acc),
             rows_changed := sorted_by (\<lambda>a b. collate (pr_pkg a) (pr_pkg b)) (rows_changed acc)\<rparr>)"

section \<open>The contract of a comparison\<close>

text \<open>What sorting and the direction of a move rely on: on the versions at hand, swapping
  the arguments negates the answer, and no cycle.\<close>

locale comparison =
  fixes cmp :: "'a \<Rightarrow> 'a \<Rightarrow> int" and dom :: "'a set"
  assumes swap: "a \<in> dom \<Longrightarrow> b \<in> dom \<Longrightarrow> cmp b a = - cmp a b"
    and trans: "a \<in> dom \<Longrightarrow> b \<in> dom \<Longrightarrow> c \<in> dom \<Longrightarrow> cmp a b \<le> 0 \<Longrightarrow> cmp b c \<le> 0 \<Longrightarrow> cmp a c \<le> 0"
begin

lemma insert_sorted:
  assumes "x \<in> dom" and "set ys \<subseteq> dom" and "sorted_wrt (\<lambda>a b. cmp a b \<le> 0) ys"
  shows "sorted_wrt (\<lambda>a b. cmp a b \<le> 0) (insert_by cmp x ys) \<and> set (insert_by cmp x ys) = insert x (set ys)"
  using assms(2,3)
proof (induction ys)
  case (Cons y ys)
  then have y: "y \<in> dom" by simp
  show ?case
  proof (cases "cmp x y \<le> 0")
    case True
    have "cmp x z \<le> 0" if "z \<in> set ys" for z
      using trans [OF assms(1) y _ True] Cons.prems that by auto
    with True Cons.prems show ?thesis by auto
  next
    case False
    then have "cmp y x \<le> 0" using swap [OF assms(1) y] by simp
    with Cons False show ?thesis by auto
  qed
qed simp

lemma sorted_by_sorted:
  "set xs \<subseteq> dom \<Longrightarrow> sorted_wrt (\<lambda>a b. cmp a b \<le> 0) (sorted_by cmp xs) \<and> set (sorted_by cmp xs) = set xs"
proof (induction xs)
  case (Cons x xs)
  then show ?case using insert_sorted [of x "sorted_by cmp xs"] by (simp add: sorted_by_def)
qed (simp add: sorted_by_def)

lemma last_greatest:
  "xs \<noteq> [] \<Longrightarrow> set xs \<subseteq> dom \<Longrightarrow> x \<in> set xs \<Longrightarrow> cmp x (last (sorted_by cmp xs)) \<le> 0"
proof -
  assume xs: "xs \<noteq> []" "set xs \<subseteq> dom" "x \<in> set xs"
  have refl: "a \<in> dom \<Longrightarrow> cmp a a \<le> 0" for a using swap [of a a] by simp
  have "sorted_wrt (\<lambda>a b. cmp a b \<le> 0) ys \<Longrightarrow> x \<in> set ys \<Longrightarrow> set ys \<subseteq> dom \<Longrightarrow> cmp x (last ys) \<le> 0" for ys
  proof (induction ys)
    case (Cons a ys)
    then show ?case by (cases "ys = []") (auto simp: refl)
  qed simp
  with sorted_by_sorted [OF xs(2)] xs show ?thesis by auto
qed

lemma first_least:
  "xs \<noteq> [] \<Longrightarrow> set xs \<subseteq> dom \<Longrightarrow> x \<in> set xs \<Longrightarrow> cmp (hd (sorted_by cmp xs)) x \<le> 0"
proof -
  assume xs: "xs \<noteq> []" "set xs \<subseteq> dom" "x \<in> set xs"
  have refl: "a \<in> dom \<Longrightarrow> cmp a a \<le> 0" for a using swap [of a a] by simp
  have "sorted_wrt (\<lambda>a b. cmp a b \<le> 0) ys \<Longrightarrow> x \<in> set ys \<Longrightarrow> set ys \<subseteq> dom \<Longrightarrow> cmp (hd ys) x \<le> 0" for ys
    by (cases ys) (auto simp: refl)
  with sorted_by_sorted [OF xs(2)] xs show ?thesis by auto
qed

lemma lt_trans1: "a \<in> dom \<Longrightarrow> b \<in> dom \<Longrightarrow> c \<in> dom \<Longrightarrow> cmp a b \<le> 0 \<Longrightarrow> cmp b c < 0 \<Longrightarrow> cmp a c < 0"
proof (rule ccontr)
  assume d: "a \<in> dom" "b \<in> dom" "c \<in> dom" and le: "cmp a b \<le> 0" "cmp b c < 0" and "\<not> cmp a c < 0"
  then have "cmp c a \<le> 0" using swap [OF d(1,3)] by simp
  from trans [OF d(3,1,2) this le(1)] have "cmp c b \<le> 0" .
  with swap [OF d(3,2)] le(2) show False by simp
qed

lemma lt_trans2: "a \<in> dom \<Longrightarrow> b \<in> dom \<Longrightarrow> c \<in> dom \<Longrightarrow> cmp a b < 0 \<Longrightarrow> cmp b c \<le> 0 \<Longrightarrow> cmp a c < 0"
proof (rule ccontr)
  assume d: "a \<in> dom" "b \<in> dom" "c \<in> dom" and le: "cmp a b < 0" "cmp b c \<le> 0" and "\<not> cmp a c < 0"
  then have "cmp c a \<le> 0" using swap [OF d(1,3)] by simp
  from trans [OF d(2,3,1) le(2) this] have "cmp b a \<le> 0" .
  with swap [OF d(2,1)] le(1) show False by simp
qed

lemma sorted_by_Nil [simp]: "set xs \<subseteq> dom \<Longrightarrow> sorted_by cmp xs = [] \<longleftrightarrow> xs = []"
  using sorted_by_sorted [of xs] by (metis set_empty)

text \<open>The test of the last against the first is the test of all against all.\<close>

lemma all_before_iff:
  assumes "xs \<noteq> []" and "ys \<noteq> []" and "set xs \<subseteq> dom" and "set ys \<subseteq> dom"
  shows "all_before cmp (sorted_by cmp xs) (sorted_by cmp ys) \<longleftrightarrow> (\<forall>x\<in>set xs. \<forall>y\<in>set ys. cmp x y < 0)"
proof
  let ?l = "last (sorted_by cmp xs)" and ?h = "hd (sorted_by cmp ys)"
  have ne: "sorted_by cmp xs \<noteq> []" "sorted_by cmp ys \<noteq> []" using assms by simp_all
  then have l: "?l \<in> set xs" "?h \<in> set ys"
    using sorted_by_sorted [OF assms(3)] sorted_by_sorted [OF assms(4)] last_in_set hd_in_set by blast+
  show "\<forall>x\<in>set xs. \<forall>y\<in>set ys. cmp x y < 0" if b: "all_before cmp (sorted_by cmp xs) (sorted_by cmp ys)"
  proof (intro ballI)
    fix x y
    assume x: "x \<in> set xs" and y: "y \<in> set ys"
    have "cmp x ?h < 0"
      by (rule lt_trans1 [of x ?l]) (use x l assms last_greatest b in \<open>auto simp: all_before_def\<close>)
    then show "cmp x y < 0"
      by (rule lt_trans2 [of x ?h y, rotated 3]) (use x y l assms first_least in auto)
  qed
  show "all_before cmp (sorted_by cmp xs) (sorted_by cmp ys)" if "\<forall>x\<in>set xs. \<forall>y\<in>set ys. cmp x y < 0"
    using that l by (simp add: all_before_def)
qed

end

section \<open>The order of versions\<close>

text \<open>
  A version inside the order: every part of the core a number, every numeric prerelease
  identifier one of \<open>ids\<close>, on which \<open>num\<close> is exact, as it is on numerals without leading
  zeros up to its precision. Outside, the comparison falls back to the texts.
\<close>

definition exact_on :: "(string \<Rightarrow> 'n option) \<Rightarrow> string set \<Rightarrow> bool" where
  "exact_on num ids = (inj_on num ids \<and> (\<forall>d\<in>ids. num d \<noteq> None))"

definition version_ok :: "(string \<Rightarrow> 'n option) \<Rightarrow> string set \<Rightarrow> string \<Rightarrow> bool" where
  "version_ok num ids v = (list_all (\<lambda>p. num p \<noteq> None) (v_core v)
     \<and> list_all (\<lambda>p. all_digits p \<longrightarrow> p \<in> ids) (split_on (CHR ''.'') (v_pre v)))"

definition versions_of :: "(string \<Rightarrow> 'n option) \<Rightarrow> string set \<Rightarrow> string set" where
  "versions_of num ids = (if exact_on num ids then {v. version_ok num ids v} else {})"

text \<open>A core with zeros added up to a length, and a prerelease identifier, as sort keys.\<close>

definition padded :: "(string \<Rightarrow> ('n::{linorder, zero}) option) \<Rightarrow> nat \<Rightarrow> string list \<Rightarrow> 'n list" where
  "padded num n ps = map (the \<circ> num) ps @ replicate (n - length ps) 0"

definition pre_key :: "(string \<Rightarrow> ('n::{linorder, zero}) option) \<Rightarrow> string \<Rightarrow> bool \<times> 'n \<times> string" where
  "pre_key num x = (if all_digits x then (False, the (num x), []) else (True, 0, x))"

definition version_key :: "(string \<Rightarrow> ('n::{linorder, zero}) option) \<Rightarrow> nat \<Rightarrow> string \<Rightarrow> 'n list \<times> bool \<times> (bool \<times> 'n \<times> string) list" where
  "version_key num n v = (padded num n (v_core v), v_pre v = [], map (pre_key num) (split_on (CHR ''.'') (v_pre v)))"

lemma sign_simps [simp]: "sign x x = 0"
  by (simp add: sign_def)

lemma sign_swap: "sign y x = - sign x y"
  by (cases x y rule: linorder_cases) (auto simp: sign_def)

lemma sign_le: "sign x y \<le> 0 \<longleftrightarrow> x \<le> y"
  by (auto simp: sign_def)

lemma sign_Cons: "sign (x # xs) (y # ys) = (if x = y then sign xs ys else sign x y)"
  by (auto simp: sign_def)

lemma sign_Pair: "sign (a, b) (c, d) = (if a = c then sign b d else sign a c)"
  by (auto simp: sign_def less_prod_def')

lemma sign_Nil: "sign [] (y # ys) = -1" "sign (x # xs) [] = 1"
  by (simp_all add: sign_def)

lemma padded_Nil: "padded num (Suc n) [] = 0 # padded num n []"
  by (simp add: padded_def)

lemma padded_Cons: "padded num (Suc n) (p # ps) = the (num p) # padded num n ps"
  by (simp add: padded_def)

lemma core_cmp_sign:
  "list_all (\<lambda>p. num p \<noteq> None) xs \<Longrightarrow> list_all (\<lambda>p. num p \<noteq> None) ys \<Longrightarrow>
    length xs \<le> n \<Longrightarrow> length ys \<le> n \<Longrightarrow> core_cmp num xs ys = Some (sign (padded num n xs) (padded num n ys))"
proof (induction num xs ys arbitrary: n rule: core_cmp.induct)
  case (2 num x xs)
  then obtain m k where "n = Suc m" "num x = Some k" by (cases n) auto
  with 2 show ?case by (auto simp: padded_Nil padded_Cons sign_Cons) (simp_all add: sign_def)
next
  case (3 num y ys)
  then obtain m k where "n = Suc m" "num y = Some k" by (cases n) auto
  with 3 show ?case by (auto simp: padded_Nil padded_Cons sign_Cons) (simp_all add: sign_def)
next
  case (4 num x xs y ys)
  then obtain m k l where "n = Suc m" "num x = Some k" "num y = Some l" by (cases n) auto
  with 4 show ?case by (auto simp: padded_Cons sign_Cons) (simp_all add: sign_def)
qed simp

lemma pre_key_inj:
  assumes "exact_on num ids" and "all_digits x \<longrightarrow> x \<in> ids" and "all_digits y \<longrightarrow> y \<in> ids"
  shows "pre_key num x = pre_key num y \<longleftrightarrow> x = y"
proof
  assume k: "pre_key num x = pre_key num y"
  show "x = y"
  proof (cases "all_digits x")
    case True
    with k have y: "all_digits y" "the (num x) = the (num y)" by (auto simp: pre_key_def split: if_splits)
    with True assms have "num x = num y" unfolding exact_on_def by (metis option.expand)
    with True y(1) assms show ?thesis unfolding exact_on_def by (metis inj_onD)
  next
    case False
    with k show ?thesis by (auto simp: pre_key_def split: if_splits)
  qed
qed simp

lemma pre_cmp_sign:
  "exact_on num ids \<Longrightarrow> list_all (\<lambda>p. all_digits p \<longrightarrow> p \<in> ids) xs \<Longrightarrow> list_all (\<lambda>p. all_digits p \<longrightarrow> p \<in> ids) ys \<Longrightarrow>
    pre_cmp num xs ys = sign (map (pre_key num) xs) (map (pre_key num) ys)"
proof (induction num xs ys rule: pre_cmp.induct)
  case (4 num x xs y ys)
  show ?case
  proof (cases "x = y")
    case True
    with 4 show ?thesis by (simp add: sign_Cons)
  next
    case False
    then have ne: "pre_key num x \<noteq> pre_key num y" using pre_key_inj [OF "4.prems"(1)] "4.prems"(2,3) by simp
    have some: "all_digits x \<and> all_digits y \<longrightarrow> (\<exists>k l. num x = Some k \<and> num y = Some l)"
      using "4.prems" by (auto simp: exact_on_def)
    have "sign (pre_key num x) (pre_key num y) =
        (if all_digits x \<and> all_digits y then (if num_less num x y then -1 else 1)
         else if all_digits x \<noteq> all_digits y then (if all_digits x then -1 else 1)
         else if x < y then -1 else 1)"
      using ne some False by (auto simp: pre_key_def num_less_def sign_def less_prod_def' split: if_splits)
    with False ne show ?thesis by (simp add: sign_Cons)
  qed
qed (simp_all add: sign_Nil)

lemma compare_sign:
  assumes "exact_on num ids" and "version_ok num ids a" and "version_ok num ids b"
    and "length (v_core a) \<le> n" and "length (v_core b) \<le> n"
  shows "compareSemver num a b = sign (version_key num n a) (version_key num n b)"
proof (cases "a = b")
  case True
  then show ?thesis by (simp add: compareSemver_def)
next
  case False
  have c: "core_cmp num (v_core a) (v_core b) = Some (sign (padded num n (v_core a)) (padded num n (v_core b)))"
    using assms by (intro core_cmp_sign) (simp_all add: version_ok_def)
  have p: "pre_cmp num (split_on (CHR ''.'') (v_pre a)) (split_on (CHR ''.'') (v_pre b)) =
      sign (map (pre_key num) (split_on (CHR ''.'') (v_pre a))) (map (pre_key num) (split_on (CHR ''.'') (v_pre b)))"
    by (rule pre_cmp_sign [OF assms(1)]) (use assms in \<open>simp_all add: version_ok_def\<close>)
  have z: "sign x y \<noteq> 0 \<longleftrightarrow> x \<noteq> y" for x y :: "'b::linorder" by (simp add: sign_def)
  show ?thesis
    unfolding compareSemver_def version_key_def c p sign_Pair
    using False by (auto simp: z) (simp_all add: sign_def)
qed

interpretation semver: comparison "compareSemver num" "versions_of num ids"
  for num :: "string \<Rightarrow> ('n::{linorder, zero}) option" and ids
proof
  fix a b
  assume "a \<in> versions_of num ids" "b \<in> versions_of num ids"
  then have ab: "exact_on num ids" "version_ok num ids a" "version_ok num ids b" by (auto simp: versions_of_def split: if_splits)
  let ?n = "max (length (v_core a)) (length (v_core b))"
  from compare_sign [OF ab(1,2,3), of ?n] compare_sign [OF ab(1,3,2), of ?n]
  show "compareSemver num b a = - compareSemver num a b"
    using sign_swap [of "version_key num ?n b" "version_key num ?n a"] by simp
  fix c
  assume "c \<in> versions_of num ids"
  then have c: "version_ok num ids c" by (auto simp: versions_of_def split: if_splits)
  let ?m = "max ?n (length (v_core c))"
  assume "compareSemver num a b \<le> 0" "compareSemver num b c \<le> 0"
  with compare_sign [OF ab(1,2,3), of ?m] compare_sign [OF ab(1) ab(3) c, of ?m] compare_sign [OF ab(1) ab(2) c, of ?m]
  show "compareSemver num a c \<le> 0" by (simp add: sign_le)
qed

section \<open>Properties\<close>

text \<open>\<open>num\<close> on plain decimal numerals, for the examples.\<close>

definition decimal :: "string \<Rightarrow> nat option" where
  "decimal s = (if s = [] then Some 0 else if all_digits s
     then Some (foldl (\<lambda>n c. 10 * n + (of_char c - 48)) 0 s) else None)"

text \<open>On versions whose core parts are numbers and whose numeric identifiers are read
  exactly, the comparison is that of a sort key: the core numbers with missing parts as zero,
  then release over prerelease, then the identifiers, numeric below the others, a shorter list
  below a longer one it begins; it is antisymmetric and transitive, so a sort by it is the
  sorted list of the same versions.\<close>

theorem semver_order:
  assumes "exact_on num ids" and "list_all (version_ok num ids) vs" and "a \<in> set vs" and "b \<in> set vs"
    and "\<And>v. v \<in> set vs \<Longrightarrow> length (v_core v) \<le> n"
  shows "compareSemver num a b = sign (version_key num n a) (version_key num n b)
    \<and> compareSemver num b a = - compareSemver num a b
    \<and> sorted_wrt (\<lambda>a b. compareSemver num a b \<le> 0) (sorted_by (compareSemver num) vs)
    \<and> set (sorted_by (compareSemver num) vs) = set vs"
proof -
  have d: "set vs \<subseteq> versions_of num ids" using assms(1,2) by (auto simp: versions_of_def list_all_iff)
  with assms(3,4) have ab: "a \<in> versions_of num ids" "b \<in> versions_of num ids" by auto
  then have "version_ok num ids a" "version_ok num ids b" using assms(1) by (simp_all add: versions_of_def)
  from compare_sign [OF assms(1) this assms(5) [OF assms(3)] assms(5) [OF assms(4)]]
    semver.swap [OF ab] semver.sorted_by_sorted [OF d] show ?thesis by simp
qed

theorem semver_order_witness:
  "compareSemver decimal ''1.10.0'' ''1.9.0-rc.1+b'' = sign (version_key decimal 3 ''1.10.0'') (version_key decimal 3 ''1.9.0-rc.1+b'')
     \<and> compareSemver decimal ''1.10.0'' ''1.9.0-rc.1+b'' = 1"
proof -
  have "decimal ''1'' \<noteq> None" by code_simp
  then have e: "exact_on decimal {''1''}" by (simp add: exact_on_def)
  have ok: "list_all (version_ok decimal {''1''}) [''1.10.0'', ''1.9.0-rc.1+b'']" by code_simp
  have len: "v \<in> set [''1.10.0'', ''1.9.0-rc.1+b''] \<Longrightarrow> length (v_core v) \<le> 3" for v
  proof -
    have "list_all (\<lambda>v. length (v_core v) \<le> 3) [''1.10.0'', ''1.9.0-rc.1+b'']" by code_simp
    then show "v \<in> set [''1.10.0'', ''1.9.0-rc.1+b''] \<Longrightarrow> length (v_core v) \<le> 3" by (simp add: list_all_iff) blast
  qed
  have one: "compareSemver decimal ''1.10.0'' ''1.9.0-rc.1+b'' = 1" by code_simp
  from semver_order [OF e ok, of "''1.10.0''" "''1.9.0-rc.1+b''" 3] len one show ?thesis by simp
qed

text \<open>Outside that, where a core part is no number, the texts are compared instead, and
  the order is no order: three versions follow each other in a circle.\<close>

theorem semver_cycle:
  "compareSemver decimal ''1.2'' ''1.10'' = -1 \<and> compareSemver decimal ''1.10'' ''1.1a'' = -1
     \<and> compareSemver decimal ''1.1a'' ''1.2'' = -1"
  by code_simp

definition turned :: "direction \<Rightarrow> direction" where
  "turned d = (case d of Up \<Rightarrow> Down | Down \<Rightarrow> Up | Changed \<Rightarrow> Changed)"

definition move_sides :: "string list \<Rightarrow> string list \<Rightarrow> string set \<times> string set" where
  "move_sides base other =
     (let dropped = set base - set other; taken = set other - set base; kept = set base \<inter> set other in
      if dropped \<noteq> {} \<and> taken \<noteq> {} then (dropped, taken) else if dropped \<noteq> {} then (dropped, kept) else (kept, taken))"

text \<open>The direction of a move is up exactly where every version given up is below every
  version taken on (or kept, where one side has none), down the other way round, and turning
  the move round turns the direction round.\<close>

theorem versionDirection_spec:
  assumes "exact_on num ids" and "list_all (version_ok num ids) (base @ other)"
    and "move_sides base other = (from, to)"
  shows "versionDirection (compareSemver num) base other =
      (if from = {} \<or> to = {} then Changed
       else if \<forall>x\<in>from. \<forall>y\<in>to. compareSemver num x y < 0 then Up
       else if \<forall>x\<in>from. \<forall>y\<in>to. compareSemver num y x < 0 then Down else Changed)
    \<and> versionDirection (compareSemver num) other base = turned (versionDirection (compareSemver num) base other)"
proof -
  let ?cmp = "compareSemver num"
  have gen: "versionDirection ?cmp bs os =
      (if fst (move_sides bs os) = {} \<or> snd (move_sides bs os) = {} then Changed
       else if \<forall>x\<in>fst (move_sides bs os). \<forall>y\<in>snd (move_sides bs os). ?cmp x y < 0 then Up
       else if \<forall>x\<in>fst (move_sides bs os). \<forall>y\<in>snd (move_sides bs os). ?cmp y x < 0 then Down else Changed)"
    if d: "set (bs @ os) \<subseteq> versions_of num ids" for bs os
  proof -
    let ?d = "filter (\<lambda>v. v \<notin> set os) bs" and ?t = "filter (\<lambda>v. v \<notin> set bs) os" and ?k = "filter (\<lambda>v. v \<in> set os) bs"
    have sub: "set ?d \<subseteq> versions_of num ids" "set ?t \<subseteq> versions_of num ids" "set ?k \<subseteq> versions_of num ids" using d by auto
    have core: "(if sorted_by ?cmp xs = [] \<or> sorted_by ?cmp ys = [] then Changed
        else if all_before ?cmp (sorted_by ?cmp xs) (sorted_by ?cmp ys) then Up
        else if all_before ?cmp (sorted_by ?cmp ys) (sorted_by ?cmp xs) then Down else Changed) =
      (if set xs = {} \<or> set ys = {} then Changed
       else if \<forall>x\<in>set xs. \<forall>y\<in>set ys. ?cmp x y < 0 then Up
       else if \<forall>x\<in>set xs. \<forall>y\<in>set ys. ?cmp y x < 0 then Down else Changed)"
      if "set xs \<subseteq> versions_of num ids" "set ys \<subseteq> versions_of num ids" for xs ys
    proof (cases "xs = [] \<or> ys = []")
      case True
      then show ?thesis by (auto simp: sorted_by_def)
    next
      case False
      then have ne: "xs \<noteq> []" "ys \<noteq> []" by simp_all
      have "sorted_by ?cmp xs \<noteq> []" "sorted_by ?cmp ys \<noteq> []"
        using semver.sorted_by_Nil [OF that(1)] semver.sorted_by_Nil [OF that(2)] ne by simp_all
      with ne semver.all_before_iff [OF ne that] semver.all_before_iff [OF ne(2,1) that(2,1)] show ?thesis by auto
    qed
    have sets: "set ?d = set bs - set os" "set ?t = set os - set bs" "set ?k = set bs \<inter> set os" by auto
    have nil: "sorted_by ?cmp ?d = [] \<longleftrightarrow> set bs - set os = {}" "sorted_by ?cmp ?t = [] \<longleftrightarrow> set os - set bs = {}"
      using semver.sorted_by_Nil [OF sub(1)] semver.sorted_by_Nil [OF sub(2)] sets by (metis set_empty)+
    show ?thesis
      unfolding versionDirection_def Let_def move_sides_def nil
      using core [OF sub(1,2), unfolded sets] core [OF sub(1,3), unfolded sets] core [OF sub(3,2), unfolded sets]
      by (simp split: if_split)
  qed
  have d: "set (base @ other) \<subseteq> versions_of num ids" "set (other @ base) \<subseteq> versions_of num ids"
    using assms(1,2) by (auto simp: versions_of_def list_all_iff)
  have m: "move_sides other base = (to, from) \<or> (to = {} \<and> snd (move_sides other base) = {})"
    using assms(3) by (auto simp: move_sides_def Let_def split: if_splits)
  show ?thesis
  proof (cases "move_sides other base = (to, from)")
    case True
    have "from \<subseteq> set (base @ other)" "to \<subseteq> set (base @ other)"
      using assms(3) by (auto simp: move_sides_def Let_def split: if_splits)
    with d(1) have "?cmp y x = - ?cmp x y" if "x \<in> from" "y \<in> to" for x y
      using semver.swap [of x num ids y] that by blast
    then have "\<not> ((\<forall>x\<in>from. \<forall>y\<in>to. ?cmp x y < 0) \<and> (\<forall>x\<in>from. \<forall>y\<in>to. ?cmp y x < 0))"
      if "from \<noteq> {}" "to \<noteq> {}" using that by fastforce
    then show ?thesis using gen [OF d(1)] gen [OF d(2)] unfolding assms(3) True fst_conv snd_conv
      by (auto simp: turned_def)
  next
    case False
    with m have "to = {}" "snd (move_sides other base) = {}" by simp_all
    with gen [OF d(1)] gen [OF d(2)] assms(3) show ?thesis by (simp add: turned_def)
  qed
qed

theorem versionDirection_spec_witness:
  "versionDirection (compareSemver decimal) [''1.0.0'', ''2.0.0''] [''2.0.0''] = Up
     \<and> versionDirection (compareSemver decimal) [''2.0.0''] [''1.0.0'', ''2.0.0''] = Down"
proof -
  have e: "exact_on decimal {}" by (simp add: exact_on_def)
  have ok: "list_all (version_ok decimal {}) ([''1.0.0'', ''2.0.0''] @ [''2.0.0''])" by code_simp
  have s: "move_sides [''1.0.0'', ''2.0.0''] [''2.0.0''] = ({''1.0.0''}, {''2.0.0''})" by (auto simp: move_sides_def)
  have "compareSemver decimal ''1.0.0'' ''2.0.0'' = -1" by code_simp
  with versionDirection_spec [OF e ok s] show ?thesis by (simp add: turned_def)
qed

section \<open>The changes between two inventories, listed\<close>

lemma sameVersions_iff: "sameVersions a b \<longleftrightarrow> a = b"
  by (induction a b rule: sameVersions.induct) auto

lemma mset_insert_by: "mset (insert_by cmp x ys) = add_mset x (mset ys)"
  by (induction ys) auto

lemma mset_sorted_by [simp]: "mset (sorted_by cmp xs) = mset xs"
  unfolding sorted_by_def by (induction xs) (simp_all add: mset_insert_by)

lemma set_sorted_by [simp]: "set (sorted_by cmp xs) = set xs"
  by (metis mset_sorted_by set_mset_mset)

lemma distinct_sorted: "distinct (sorted_by cmp xs) \<longleftrightarrow> distinct xs"
  by (rule mset_eq_imp_distinct_iff [OF mset_sorted_by])

lemma distinct_sorted_by [simp]: "distinct (map f (sorted_by cmp xs)) \<longleftrightarrow> distinct (map f xs)"
proof -
  have "mset (map f (sorted_by cmp xs)) = mset (map f xs)" by simp
  then show ?thesis by (metis mset_eq_imp_distinct_iff)
qed

lemma filter_concat_map: "filter P xs = concat (map (\<lambda>x. if P x then [x] else []) xs)"
  by (induction xs) simp_all

lemma set_concat_map: "x \<in> set (concat (map f ys)) \<longleftrightarrow> (\<exists>y. y \<in> set ys \<and> x \<in> set (f y))"
  by auto

lemma version_fold:
  shows "vc_updated (fold (version_step cmp bv ov) ns acc) = vc_updated acc @ concat (map (\<lambda>k. case (map_of bv k, map_of ov k) of
        (Some bs, Some os) \<Rightarrow> if sameVersions (sorted_by cmp bs) (sorted_by cmp os) then []
          else [update_of cmp k (sorted_by cmp bs) (sorted_by cmp os)] | _ \<Rightarrow> []) ns)"
    and "vc_removed (fold (version_step cmp bv ov) ns acc) = vc_removed acc @ concat (map (\<lambda>k. case (map_of bv k, map_of ov k) of
        (Some bs, None) \<Rightarrow> [(k, sorted_by cmp bs)] | _ \<Rightarrow> []) ns)"
    and "vc_added (fold (version_step cmp bv ov) ns acc) = vc_added acc @ concat (map (\<lambda>k. case (map_of bv k, map_of ov k) of
        (None, Some os) \<Rightarrow> [(k, sorted_by cmp os)] | _ \<Rightarrow> []) ns)"
  by (induction ns arbitrary: acc) (auto simp: version_step_def Let_def split: option.splits)




text \<open>Two sorted lists of versions the comparison tells apart are the same list exactly
  where they hold the same versions.\<close>

context comparison
begin

lemma sorted_unique:
  assumes "distinct xs" and "distinct ys" and "set xs = set ys" and "set xs \<subseteq> dom"
    and strict: "\<And>a b. a \<in> set xs \<Longrightarrow> b \<in> set xs \<Longrightarrow> cmp a b = 0 \<Longrightarrow> a = b"
    and "sorted_wrt (\<lambda>a b. cmp a b \<le> 0) xs" and "sorted_wrt (\<lambda>a b. cmp a b \<le> 0) ys"
  shows "xs = ys"
  using assms
proof (induction xs arbitrary: ys)
  case (Cons x xs)
  then obtain y zs where y: "ys = y # zs" by (cases ys) auto
  have mem: "x \<in> set ys" "y \<in> set (x # xs)" using Cons.prems(3) y by auto
  have d: "x \<in> dom" "y \<in> dom" using Cons.prems(4) mem by auto
  have refl: "a \<in> dom \<Longrightarrow> cmp a a \<le> 0" for a using swap [of a a] by simp
  have "cmp x y \<le> 0" using Cons.prems(6) mem(2) refl [OF d(1)] by auto
  moreover have "cmp y x \<le> 0" using Cons.prems(7) mem(1) y refl [OF d(2)] by auto
  ultimately have "cmp x y = 0" using swap [OF d] by simp
  with Cons.prems(5) mem(2) have xy: "x = y" by simp
  have "xs = zs"
  proof (rule Cons.IH)
    show "set xs = set zs" using Cons.prems(1,2,3) xy y by auto
    show "set xs \<subseteq> dom" using Cons.prems(4) by auto
    show "a \<in> set xs \<Longrightarrow> b \<in> set xs \<Longrightarrow> cmp a b = 0 \<Longrightarrow> a = b" for a b using Cons.prems(5) by simp
  qed (use Cons.prems y in auto)
  with xy y show ?case by simp
qed simp

end

text \<open>Two inventories the comparison reads: the versions of a package are distinct and well
  formed, and no two versions compare equal.\<close>

definition comparable ::
    "(string \<Rightarrow> ('n::{linorder, zero}) option) \<Rightarrow> string set \<Rightarrow> (string, string list) jsmap \<Rightarrow> (string, string list) jsmap \<Rightarrow> bool" where
  "comparable num ids bv ov =
     (let vs = concat (map snd (bv @ ov)) in
      map_ok bv \<and> map_ok ov \<and> exact_on num ids
      \<and> list_all (\<lambda>kv. distinct (snd kv) \<and> list_all (version_ok num ids) (snd kv)) (bv @ ov)
      \<and> list_all (\<lambda>a. list_all (\<lambda>b. compareSemver num a b = 0 \<longrightarrow> a = b) vs) vs)"

lemma comparableD:
  assumes "comparable num ids bv ov" and "map_of bv k = Some xs \<or> map_of ov k = Some xs"
  shows "distinct xs" and "set xs \<subseteq> versions_of num ids" and "set xs \<subseteq> set (concat (map snd (bv @ ov)))"
proof -
  from assms(2) have m: "(k, xs) \<in> set (bv @ ov)" using map_of_SomeD by fastforce
  then show "set xs \<subseteq> set (concat (map snd (bv @ ov)))" by force
  from assms(1) have "\<forall>kv \<in> set (bv @ ov). distinct (snd kv) \<and> list_all (version_ok num ids) (snd kv)" "exact_on num ids"
    unfolding comparable_def Let_def list_all_iff by blast+
  from bspec [OF this(1) m] this(2) have "distinct xs \<and> list_all (version_ok num ids) xs" "exact_on num ids"
    by (simp_all only: snd_conv)
  then show "distinct xs" "set xs \<subseteq> versions_of num ids" by (auto simp: versions_of_def list_all_iff)
qed

lemma comparable_strict:
  "comparable num ids bv ov \<Longrightarrow> a \<in> set (concat (map snd (bv @ ov))) \<Longrightarrow> b \<in> set (concat (map snd (bv @ ov))) \<Longrightarrow>
    compareSemver num a b = 0 \<Longrightarrow> a = b"
  unfolding comparable_def Let_def list_all_iff by blast

lemma same_versions:
  assumes c: "comparable num ids bv ov" and b: "map_of bv k = Some bs" and o: "map_of ov k = Some os"
  shows "sameVersions (sorted_by (compareSemver num) bs) (sorted_by (compareSemver num) os) \<longleftrightarrow> set bs = set os"
proof
  note bs = comparableD [OF c disjI1 [OF b]] and os = comparableD [OF c disjI2 [OF o]]
  let ?cmp = "compareSemver num"
  have ds: "distinct (sorted_by ?cmp bs)" "distinct (sorted_by ?cmp os)" using bs(1) os(1) by (simp_all add: distinct_sorted)
  show "sameVersions (sorted_by ?cmp bs) (sorted_by ?cmp os)" if e: "set bs = set os"
    unfolding sameVersions_iff
  proof (rule semver.sorted_unique [OF ds])
    show "x = y" if "x \<in> set (sorted_by ?cmp bs)" "y \<in> set (sorted_by ?cmp bs)" "?cmp x y = 0" for x y
      by (rule comparable_strict [OF c subsetD [OF bs(3)] subsetD [OF bs(3)] that(3)]) (use that(1,2) in simp_all)
  qed (use e bs(2) semver.sorted_by_sorted [OF bs(2)] semver.sorted_by_sorted [OF os(2)] in auto)
  show "set bs = set os" if "sameVersions (sorted_by ?cmp bs) (sorted_by ?cmp os)"
    using that unfolding sameVersions_iff by (metis set_sorted_by)
qed

lemma update_of_simps [simp]:
  "vu_pkg (update_of c k bs os) = k" "vu_base (update_of c k bs os) = bs" "vu_other (update_of c k bs os) = os"
  by (simp_all add: update_of_def)

text \<open>What the walk lists as updated, package by package.\<close>

definition updates_at ::
    "(string \<Rightarrow> string \<Rightarrow> int) \<Rightarrow> (string, string list) jsmap \<Rightarrow> (string, string list) jsmap \<Rightarrow> string \<Rightarrow> version_update list" where
  "updates_at cmp bv ov k = (case (map_of bv k, map_of ov k) of
     (Some bs, Some os) \<Rightarrow> if sameVersions (sorted_by cmp bs) (sorted_by cmp os) then []
       else [update_of cmp k (sorted_by cmp bs) (sorted_by cmp os)]
   | _ \<Rightarrow> [])"

lemma updated_walk:
  "mset (vc_updated (computeVersionUpdates collate cmp bv ov))
     = mset (concat (map (updates_at cmp bv ov) (js_set (map_keys bv @ map_keys ov))))"
  unfolding computeVersionUpdates_def Let_def by (simp add: version_fold updates_at_def [abs_def])

lemma updated_mem:
  assumes "comparable num ids bv ov"
  shows "u \<in> set (vc_updated (computeVersionUpdates collate (compareSemver num) bv ov)) \<longleftrightarrow>
    (\<exists>k bs os. map_of bv k = Some bs \<and> map_of ov k = Some os \<and> set bs \<noteq> set os
      \<and> u = update_of (compareSemver num) k (sorted_by (compareSemver num) bs) (sorted_by (compareSemver num) os))"
proof -
  let ?cmp = "compareSemver num" and ?names = "js_set (map_keys bv @ map_keys ov)"
  have piece: "u \<in> set (updates_at ?cmp bv ov k) \<longleftrightarrow>
      (\<exists>bs os. map_of bv k = Some bs \<and> map_of ov k = Some os \<and> set bs \<noteq> set os
        \<and> u = update_of ?cmp k (sorted_by ?cmp bs) (sorted_by ?cmp os))" for k
    using same_versions [OF assms, of k] unfolding updates_at_def by (cases "map_of bv k"; cases "map_of ov k") auto
  have names: "k \<in> set ?names \<longleftrightarrow> map_of bv k \<noteq> None \<or> map_of ov k \<noteq> None" for k
    by (auto simp: map_of_eq_None_iff)
  have "set (vc_updated (computeVersionUpdates collate ?cmp bv ov)) = set (concat (map (updates_at ?cmp bv ov) ?names))"
    by (rule mset_eq_setD [OF updated_walk])
  then have "u \<in> set (vc_updated (computeVersionUpdates collate ?cmp bv ov)) \<longleftrightarrow> (\<exists>k. k \<in> set ?names \<and> u \<in> set (updates_at ?cmp bv ov k))"
    by (simp only: set_concat_map)
  then show ?thesis unfolding piece names by (metis option.distinct(1))
qed

lemma updated_distinct: "distinct (map vu_pkg (vc_updated (computeVersionUpdates collate cmp bv ov)))"
proof -
  let ?names = "js_set (map_keys bv @ map_keys ov)"
  have "map vu_pkg (concat (map (updates_at cmp bv ov) ?names)) = filter (\<lambda>k. updates_at cmp bv ov k \<noteq> []) ?names"
    unfolding map_concat map_map filter_concat_map
    by (rule arg_cong [where f = concat], rule map_cong [OF refl]) (simp add: updates_at_def split: option.splits)
  moreover have "mset (map vu_pkg (vc_updated (computeVersionUpdates collate cmp bv ov)))
      = mset (map vu_pkg (concat (map (updates_at cmp bv ov) ?names)))"
    unfolding mset_map updated_walk ..
  ultimately show ?thesis by (metis distinct_filter distinct_js_set mset_eq_imp_distinct_iff)
qed

lemma one_sided:
  "k \<in> fst ` set (vc_removed (computeVersionUpdates collate cmp bv ov)) \<longleftrightarrow> map_of bv k \<noteq> None \<and> map_of ov k = None"
  "k \<in> fst ` set (vc_added (computeVersionUpdates collate cmp bv ov)) \<longleftrightarrow> map_of bv k = None \<and> map_of ov k \<noteq> None"
proof -
  have names: "k \<in> set (js_set (map_keys bv @ map_keys ov)) \<longleftrightarrow> map_of bv k \<noteq> None \<or> map_of ov k \<noteq> None"
    by (auto simp: map_of_eq_None_iff)
  show "k \<in> fst ` set (vc_removed (computeVersionUpdates collate cmp bv ov)) \<longleftrightarrow> map_of bv k \<noteq> None \<and> map_of ov k = None"
    unfolding computeVersionUpdates_def Let_def using names by (force simp: version_fold split: option.splits)
  show "k \<in> fst ` set (vc_added (computeVersionUpdates collate cmp bv ov)) \<longleftrightarrow> map_of bv k = None \<and> map_of ov k \<noteq> None"
    unfolding computeVersionUpdates_def Let_def using names by (force simp: version_fold split: option.splits)
qed

lemma base_packages: "vc_baseDeps (computeVersionUpdates collate cmp bv ov) = length bv"
proof -
  have "vc_baseDeps (fold (version_step cmp bv ov) ns acc) = vc_baseDeps acc" for ns acc
    by (induction ns arbitrary: acc) (auto simp: version_step_def Let_def split: option.splits)
  then show ?thesis by (simp add: computeVersionUpdates_def Let_def)
qed

text \<open>Between two inventories a package is listed once: as updated where both hold it with
  different versions, each side's versions given whole and in order; as removed or added where
  only one holds it; and not at all where both hold the same versions.\<close>

theorem version_updates_spec:
  assumes c: "comparable num ids bv ov" and vc: "vc = computeVersionUpdates collate (compareSemver num) bv ov"
  shows "(k \<in> vu_pkg ` set (vc_updated vc) \<longleftrightarrow> (\<exists>bs os. map_of bv k = Some bs \<and> map_of ov k = Some os \<and> set bs \<noteq> set os))
    \<and> (k \<in> fst ` set (vc_removed vc) \<longleftrightarrow> map_of bv k \<noteq> None \<and> map_of ov k = None)
    \<and> (k \<in> fst ` set (vc_added vc) \<longleftrightarrow> map_of bv k = None \<and> map_of ov k \<noteq> None)
    \<and> (u \<in> set (vc_updated vc) \<longrightarrow> sorted_wrt (\<lambda>a b. compareSemver num a b \<le> 0) (vu_base u)
        \<and> map_option set (map_of bv (vu_pkg u)) = Some (set (vu_base u))
        \<and> map_option set (map_of ov (vu_pkg u)) = Some (set (vu_other u)))
    \<and> distinct (map vu_pkg (vc_updated vc)) \<and> vc_baseDeps vc = length bv"
proof -
  note mem = updated_mem [OF c, where collate = collate, folded vc]
  have upd: "k \<in> vu_pkg ` set (vc_updated vc) \<longleftrightarrow> (\<exists>bs os. map_of bv k = Some bs \<and> map_of ov k = Some os \<and> set bs \<noteq> set os)"
  proof
    assume "\<exists>bs os. map_of bv k = Some bs \<and> map_of ov k = Some os \<and> set bs \<noteq> set os"
    with mem obtain u where "u \<in> set (vc_updated vc)" "vu_pkg u = k" by (metis update_of_simps(1))
    then show "k \<in> vu_pkg ` set (vc_updated vc)" by blast
  qed (auto simp: mem)
  have sorted: "u \<in> set (vc_updated vc) \<Longrightarrow> sorted_wrt (\<lambda>a b. compareSemver num a b \<le> 0) (vu_base u)
        \<and> map_option set (map_of bv (vu_pkg u)) = Some (set (vu_base u))
        \<and> map_option set (map_of ov (vu_pkg u)) = Some (set (vu_other u))"
  proof -
    assume "u \<in> set (vc_updated vc)"
    then obtain k bs os where u: "map_of bv k = Some bs" "map_of ov k = Some os"
        "u = update_of (compareSemver num) k (sorted_by (compareSemver num) bs) (sorted_by (compareSemver num) os)"
      unfolding mem by blast
    with semver.sorted_by_sorted [OF comparableD(2) [OF c disjI1 [OF u(1)]]] show ?thesis by simp
  qed
  show ?thesis unfolding vc base_packages
    by (intro conjI impI one_sided updated_distinct refl upd [unfolded vc] sorted [unfolded vc])
qed

theorem version_updates_spec_witness:
  "vc_baseDeps (computeVersionUpdates (\<lambda>a b. sign a b) (compareSemver decimal) [(''a'', [''1.0.0'']), (''b'', [''1.0.0''])] [(''a'', [''1.1.0''])]) = 2
    \<and> ''a'' \<in> vu_pkg ` set (vc_updated (computeVersionUpdates (\<lambda>a b. sign a b) (compareSemver decimal)
        [(''a'', [''1.0.0'']), (''b'', [''1.0.0''])] [(''a'', [''1.1.0''])]))"
proof -
  let ?b = "[(''a'', [''1.0.0'']), (''b'', [''1.0.0''])]" and ?o = "[(''a'', [''1.1.0''])]"
  let ?c = "computeVersionUpdates (\<lambda>a b. sign a b) (compareSemver decimal) ?b ?o"
  have v: "version_ok decimal {} ''1.0.0''" "version_ok decimal {} ''1.1.0''" by code_simp+
  have d: "compareSemver decimal ''1.0.0'' ''1.1.0'' = -1" "compareSemver decimal ''1.1.0'' ''1.0.0'' = 1" by code_simp+
  have "comparable decimal {} ?b ?o"
    unfolding comparable_def Let_def using v d by (simp add: map_ok_def exact_on_def)
  note spec = version_updates_spec [OF this refl, where k = "''a''" and collate = "\<lambda>a b. sign a b"]
  have "\<exists>bs os. map_of ?b ''a'' = Some bs \<and> map_of ?o ''a'' = Some os \<and> set bs \<noteq> set os" by simp
  with spec [THEN conjunct1] have "''a'' \<in> vu_pkg ` set (vc_updated ?c)" by (rule iffD2)
  moreover have "vc_baseDeps ?c = length ?b"
    by (rule spec [THEN conjunct2, THEN conjunct2, THEN conjunct2, THEN conjunct2, THEN conjunct2])
  ultimately show ?thesis by simp
qed

end
