(* ===== verification/UnionFind.thy ===== *)
theory UnionFind
  imports Prelude
begin

text \<open>
  Disjoint sets as the program keeps them: a parent per node, a \<open>find\<close> that
  walks to the root and shortens the path on the way, and a union that hangs one
  root under the other. The program writes this three times
  (\<^verbatim>\<open>src/common/workspace-groups.js\<close>, \<^verbatim>\<open>src/common/linked-workspace-groups.js\<close>,
  \<^verbatim>\<open>src/common/revalidation-input-groups.js\<close>), with two ways of shortening:
  \<open>uf_find\<close> points every node of the path at the root, \<open>uf_halve\<close> every other
  node at its grandparent. The parents are a function, updated point by point;
  a \<open>find\<close> on a cyclic one would not return, so it yields an option.
  \<^theory_text>\<open>locale finder\<close> states what a find must do, and what unions through any such
  find then compute.
\<close>

section \<open>Walking to the root\<close>

partial_function (option) uf_root :: "('n \<Rightarrow> 'n) \<Rightarrow> 'n \<Rightarrow> 'n option" where
  "uf_root p i = (if p i = i then Some i else uf_root p (p i))"

partial_function (option) uf_compress :: "('n \<Rightarrow> 'n) \<Rightarrow> 'n \<Rightarrow> 'n \<Rightarrow> ('n \<Rightarrow> 'n) option" where
  "uf_compress p root i = (if p i = root then Some p else uf_compress (p(i := root)) root (p i))"

definition uf_find :: "('n \<Rightarrow> 'n) \<Rightarrow> 'n \<Rightarrow> (('n \<Rightarrow> 'n) \<times> 'n) option" where
  "uf_find p i = Option.bind (uf_root p i) (\<lambda>root. map_option (\<lambda>p'. (p', root)) (uf_compress p root i))"

partial_function (option) uf_halve :: "('n \<Rightarrow> 'n) \<Rightarrow> 'n \<Rightarrow> (('n \<Rightarrow> 'n) \<times> 'n) option" where
  "uf_halve p i = (if p i = i then Some (p, i)
     else (let p1 = p(i := p (p i)) in uf_halve p1 (p1 i)))"

declare uf_root.simps [code] uf_compress.simps [code] uf_halve.simps [code]

text \<open>\<open>a = find(a); b = find(b); if (a !== b) parent[b] = a\<close>, for any find.\<close>

definition unite ::
    "(('n \<Rightarrow> 'n) \<Rightarrow> 'n \<Rightarrow> (('n \<Rightarrow> 'n) \<times> 'n) option) \<Rightarrow> 'n \<Rightarrow> 'n \<Rightarrow> ('n \<Rightarrow> 'n) \<Rightarrow> ('n \<Rightarrow> 'n) option" where
  "unite findr a b p = (case findr p a of None \<Rightarrow> None | Some (p1, ra) \<Rightarrow>
     (case findr p1 b of None \<Rightarrow> None | Some (p2, rb) \<Rightarrow>
        Some (if ra = rb then p2 else p2(rb := ra))))"

section \<open>Forests\<close>

text \<open>\<open>root_in p n i r\<close>: the walk from \<open>i\<close> reaches the root \<open>r\<close> in \<open>n\<close> steps.\<close>

inductive root_in :: "('n \<Rightarrow> 'n) \<Rightarrow> nat \<Rightarrow> 'n \<Rightarrow> 'n \<Rightarrow> bool" for p where
  here: "p r = r \<Longrightarrow> root_in p 0 r r"
| up: "p i \<noteq> i \<Longrightarrow> root_in p n (p i) r \<Longrightarrow> root_in p (Suc n) i r"

inductive_cases root_in_0E: "root_in p 0 i r"
inductive_cases root_in_SucE: "root_in p (Suc n) i r"
inductive_simps root_in_simps: "root_in p n i r"

definition forest :: "('n \<Rightarrow> 'n) \<Rightarrow> bool" where
  "forest p = (\<forall>i. \<exists>n r. root_in p n i r)"

definition rep :: "('n \<Rightarrow> 'n) \<Rightarrow> 'n \<Rightarrow> 'n" where
  "rep p i = (THE r. \<exists>n. root_in p n i r)"

lemma root_in_unique: "root_in p n i r \<Longrightarrow> root_in p m i s \<Longrightarrow> n = m \<and> r = s"
proof (induction arbitrary: m s rule: root_in.induct)
  case (here r)
  then show ?case by (auto elim: root_in.cases)
next
  case (up i n r)
  from up.prems up.hyps(1) obtain k where "m = Suc k" "root_in p k (p i) s" by (auto elim: root_in.cases)
  with up.IH show ?case by simp
qed

lemma root_in_fix: "root_in p n i r \<Longrightarrow> p r = r"
  by (induction rule: root_in.induct) simp_all

lemma rep_eq: "root_in p n i r \<Longrightarrow> rep p i = r"
  unfolding rep_def by (rule the_equality) (auto dest: root_in_unique)

lemma forest_root: "forest p \<Longrightarrow> \<exists>n. root_in p n i (rep p i)"
  unfolding forest_def by (metis rep_eq)

lemma forest_id: "forest (\<lambda>i. i)"
  unfolding forest_def by (auto intro: root_in.here)

lemma rep_id [simp]: "rep (\<lambda>i. i) i = i"
  by (rule rep_eq [OF root_in.here]) simp

lemma rep_fix: "forest p \<Longrightarrow> p (rep p i) = rep p i"
  using forest_root root_in_fix by metis

lemma rep_root: "p r = r \<Longrightarrow> rep p r = r"
  by (rule rep_eq [OF root_in.here])

lemma rep_rep: "forest p \<Longrightarrow> rep p (rep p i) = rep p i"
  by (simp add: rep_root rep_fix)

lemma rep_up: "forest p \<Longrightarrow> rep p (p i) = rep p i"
  by (metis forest_root rep_eq root_in.up)

text \<open>Pointing a node further up its own path keeps every root.\<close>

lemma shortcut_root:
  assumes i: "root_in p n i r" and i': "root_in p n' i' r" and less: "n' < n"
    and j: "root_in p m j s"
  shows "\<exists>k \<le> m. root_in (p(i := i')) k j s"
  using j
proof (induction m arbitrary: j rule: less_induct)
  case (less m)
  show ?case
  proof (cases "j = i")
    case True
    then have m: "m = n" "s = r" using root_in_unique [OF less.prems] i by blast+
    from less.IH [of n'] i' \<open>n' < n\<close> m obtain k where k: "k \<le> n'" "root_in (p(i := i')) k i' r" by blast
    have "i' \<noteq> i" using root_in_unique [OF i] i' \<open>n' < n\<close> by fastforce
    with k(2) have "root_in (p(i := i')) (Suc k) i r" by (intro root_in.up) simp_all
    then have "root_in (p(i := i')) (Suc k) j s" unfolding True m(2) .
    moreover have "Suc k \<le> m" using m(1) k(1) \<open>n' < n\<close> by simp
    ultimately show ?thesis by blast
  next
    case False
    show ?thesis
    proof (cases m)
      case 0
      with less.prems have "j = s" "p s = s" by (auto elim: root_in_0E)
      with False have "root_in (p(i := i')) 0 j s" by (auto intro: root_in.here)
      with 0 show ?thesis by blast
    next
      case (Suc l)
      with less.prems have "p j \<noteq> j" "root_in p l (p j) s" by (auto elim: root_in_SucE)
      have "\<exists>k \<le> l. root_in (p(i := i')) k (p j) s"
        by (rule less.IH) (use Suc \<open>root_in p l (p j) s\<close> in simp_all)
      then obtain k where "k \<le> l" "root_in (p(i := i')) k (p j) s" by blast
      with False \<open>p j \<noteq> j\<close> have "root_in (p(i := i')) (Suc k) j s" by (intro root_in.up) simp_all
      moreover have "Suc k \<le> m" using \<open>k \<le> l\<close> Suc by simp
      ultimately show ?thesis by blast
    qed
  qed
qed

lemma shortcut:
  assumes "forest p" and "root_in p n i r" and "root_in p n' i' r" and "n' < n"
  shows "forest (p(i := i')) \<and> rep (p(i := i')) = rep p"
proof -
  have "\<exists>k. root_in (p(i := i')) k j (rep p j)" for j
    using shortcut_root [OF assms(2-4)] forest_root [OF assms(1), of j] by blast
  then show ?thesis unfolding forest_def by (metis rep_eq ext)
qed

lemma link:
  assumes f: "forest p" and r: "p r = r" "p s = s" "r \<noteq> s"
  shows "forest (p(s := r)) \<and> rep (p(s := r)) x = (if rep p x = s then r else rep p x)"
proof -
  have "\<exists>k. root_in (p(s := r)) k j (if t = s then r else t)" if "root_in p n j t" for n j t
    using that
  proof (induction rule: root_in.induct)
    case (here t)
    show ?case
    proof (cases "t = s")
      case True
      have "root_in (p(s := r)) 0 r r" using r by (intro root_in.here) simp
      then have "root_in (p(s := r)) (Suc 0) s r" using r by (intro root_in.up) simp_all
      then show ?thesis unfolding True if_P [OF refl] by (rule exI)
    next
      case False
      with here have "root_in (p(s := r)) 0 t t" by (intro root_in.here) simp
      with False show ?thesis by (metis (full_types))
    qed
  next
    case (up i n t)
    then have "i \<noteq> s" using r by auto
    with up show ?case by (metis fun_upd_other root_in.up)
  qed
  then have all: "\<exists>k. root_in (p(s := r)) k j (if rep p j = s then r else rep p j)" for j
    using forest_root [OF f, of j] by blast
  from all [of x] obtain k where "root_in (p(s := r)) k x (if rep p x = s then r else rep p x)" by blast
  then have "rep (p(s := r)) x = (if rep p x = s then r else rep p x)" by (rule rep_eq)
  moreover have "forest (p(s := r))" unfolding forest_def using all by blast
  ultimately show ?thesis by (rule conjI [rotated])
qed

section \<open>The two finds\<close>

lemma uf_root_ok: "root_in p n i r \<Longrightarrow> uf_root p i = Some r"
proof (induction rule: root_in.induct)
  case (here r)
  then show ?case by (subst uf_root.simps) simp
next
  case (up i n r)
  then show ?case by (subst uf_root.simps) simp
qed

lemma uf_compress_ok:
  assumes "forest p" and "root_in p n i r"
  shows "\<exists>p'. uf_compress p r i = Some p' \<and> forest p' \<and> rep p' = rep p"
  using assms
proof (induction n arbitrary: p i rule: less_induct)
  case (less n)
  show ?case
  proof (cases "p i = r")
    case True
    with less.prems show ?thesis by (subst uf_compress.simps) simp
  next
    case False
    have fr: "p r = r" by (rule root_in_fix [OF less.prems(2)])
    then have "p i \<noteq> i" using less.prems(2) False by (auto elim: root_in.cases)
    with less.prems(2) obtain k where k: "n = Suc k" "root_in p k (p i) r" by (auto elim: root_in.cases)
    have "k \<noteq> 0"
    proof
      assume "k = 0"
      with k(2) have "root_in p 0 (p i) r" by simp
      then have "p i = r" by (rule root_in_0E) simp
      with False show False by contradiction
    qed
    have r0: "root_in p 0 r r" by (rule root_in.here [of p, OF fr])
    have sc: "forest (p(i := r)) \<and> rep (p(i := r)) = rep p"
      by (rule shortcut [OF less.prems r0]) (simp add: k)
    from shortcut_root [OF less.prems(2) r0 _ k(2)] k(1)
    obtain l where "l \<le> k" "root_in (p(i := r)) l (p i) r" by auto
    then have l: "l < n" "root_in (p(i := r)) l (p i) r" using k(1) by simp_all
    have "\<exists>p'. uf_compress (p(i := r)) r (p i) = Some p' \<and> forest p' \<and> rep p' = rep (p(i := r))"
      by (rule less.IH [OF l(1) conjunct1 [OF sc] l(2)])
    then obtain p' where "uf_compress (p(i := r)) r (p i) = Some p'" "forest p'" "rep p' = rep p"
      unfolding conjunct2 [OF sc] by blast
    moreover have "uf_compress p r i = uf_compress (p(i := r)) r (p i)"
      by (subst uf_compress.simps) (simp only: False if_False)
    ultimately show ?thesis by metis
  qed
qed

lemma uf_halve_ok:
  assumes "forest p" and "root_in p n i r"
  shows "\<exists>p'. uf_halve p i = Some (p', r) \<and> forest p' \<and> rep p' = rep p"
  using assms
proof (induction n arbitrary: p i rule: less_induct)
  case (less n)
  show ?case
  proof (cases "p i = i")
    case True
    with less.prems have "r = i" by (auto elim: root_in.cases)
    with True less.prems show ?thesis by (subst uf_halve.simps) simp
  next
    case False
    with less.prems(2) obtain k where k: "n = Suc k" "root_in p k (p i) r" by (auto elim: root_in.cases)
    obtain l where l: "l \<le> k" "root_in p l (p (p i)) r"
    proof (cases "p (p i) = p i")
      case True
      with k that [of k] show thesis by simp
    next
      case False
      with k(2) obtain l where "k = Suc l" "root_in p l (p (p i)) r" by (auto elim: root_in.cases)
      with that [of l] show thesis by simp
    qed
    have sc: "forest (p(i := p (p i))) \<and> rep (p(i := p (p i))) = rep p"
      by (rule shortcut [OF less.prems l(2)]) (use l k in simp)
    from shortcut_root [OF less.prems(2) l(2) _ l(2)] l k
    obtain m where "m \<le> l" "root_in (p(i := p (p i))) m (p (p i)) r" by auto
    then have m: "m < n" "root_in (p(i := p (p i))) m (p (p i)) r" using l(1) k(1) by simp_all
    have "\<exists>p'. uf_halve (p(i := p (p i))) (p (p i)) = Some (p', r) \<and> forest p' \<and> rep p' = rep (p(i := p (p i)))"
      by (rule less.IH [OF m(1) conjunct1 [OF sc] m(2)])
    then obtain p' where "uf_halve (p(i := p (p i))) (p (p i)) = Some (p', r)" "forest p'" "rep p' = rep p"
      unfolding conjunct2 [OF sc] by blast
    moreover have "uf_halve p i = uf_halve (p(i := p (p i))) (p (p i))"
      by (subst uf_halve.simps) (simp only: False if_False Let_def fun_upd_same)
    ultimately show ?thesis by metis
  qed
qed

section \<open>Unions through a findr\<close>

text \<open>What the parents say: which nodes are together.\<close>

definition same_set :: "('n \<Rightarrow> 'n) \<Rightarrow> ('n \<times> 'n) set" where
  "same_set p = {(x, y). rep p x = rep p y}"

text \<open>The least equivalence that contains the given pairs.\<close>

definition connected :: "('n \<times> 'n) set \<Rightarrow> ('n \<times> 'n) set" where
  "connected E = (E \<union> E\<inverse>)\<^sup>*"

lemma connected_refl: "(x, x) \<in> connected E"
  by (simp add: connected_def)

lemma connected_sym: "(x, y) \<in> connected E \<Longrightarrow> (y, x) \<in> connected E"
proof -
  have "sym (E \<union> E\<inverse>)" by (auto simp: sym_def)
  then show "(x, y) \<in> connected E \<Longrightarrow> (y, x) \<in> connected E"
    unfolding connected_def by (metis sym_rtrancl symD)
qed

lemma connected_trans: "(x, y) \<in> connected E \<Longrightarrow> (y, z) \<in> connected E \<Longrightarrow> (x, z) \<in> connected E"
  unfolding connected_def by (rule rtrancl_trans)

lemma connected_mono: "E \<subseteq> F \<Longrightarrow> connected E \<subseteq> connected F"
  unfolding connected_def by (rule rtrancl_mono) auto

lemma connected_base: "(x, y) \<in> E \<Longrightarrow> (x, y) \<in> connected E"
  unfolding connected_def by auto

lemma connected_least:
  assumes "E \<subseteq> R" and "refl R" and "sym R" and "trans R"
  shows "connected E \<subseteq> R"
proof -
  have s: "E \<union> E\<inverse> \<subseteq> R" using assms(1,3) by (auto simp: sym_def)
  show ?thesis
  proof
    fix z assume "z \<in> connected E"
    then obtain x y where z: "z = (x, y)" "(x, y) \<in> (E \<union> E\<inverse>)\<^sup>*" by (cases z) (simp add: connected_def)
    from z(2) have "(x, y) \<in> R"
      by (induction rule: rtrancl_induct) (use assms(2,4) s in \<open>auto simp: refl_on_def dest: transD\<close>)
    with z show "z \<in> R" by simp
  qed
qed

lemma same_set_equiv: "refl (same_set p)" "sym (same_set p)" "trans (same_set p)"
  by (auto simp: same_set_def refl_on_def sym_def trans_def)

locale finder =
  fixes findr :: "('n \<Rightarrow> 'n) \<Rightarrow> 'n \<Rightarrow> (('n \<Rightarrow> 'n) \<times> 'n) option"
  assumes find_ok: "forest p \<Longrightarrow> \<exists>p'. findr p i = Some (p', rep p i) \<and> forest p' \<and> rep p' = rep p"
begin

lemma unite_ok:
  assumes "forest p"
  shows "\<exists>p'. unite findr a b p = Some p' \<and> forest p'
    \<and> rep p' = (\<lambda>x. if rep p x = rep p b then rep p a else rep p x)"
proof -
  obtain p1 where p1: "findr p a = Some (p1, rep p a)" "forest p1" "rep p1 = rep p" using find_ok [OF assms] by blast
  obtain p2 where p2: "findr p1 b = Some (p2, rep p b)" "forest p2" "rep p2 = rep p"
    using find_ok [OF p1(2), of b] p1(3) by auto
  show ?thesis
  proof (cases "rep p a = rep p b")
    case True
    then have "unite findr a b p = Some p2" by (simp add: unite_def p1 p2)
    with p2 True show ?thesis by auto
  next
    case False
    then have u: "unite findr a b p = Some (p2(rep p b := rep p a))" by (simp add: unite_def p1 p2)
    have fx: "p2 (rep p a) = rep p a" "p2 (rep p b) = rep p b"
      using rep_fix [OF p2(2), of a] rep_fix [OF p2(2), of b] p2(3) by simp_all
    have "forest (p2(rep p b := rep p a))
        \<and> rep (p2(rep p b := rep p a)) = (\<lambda>x. if rep p x = rep p b then rep p a else rep p x)"
      using link [OF p2(2) fx False] p2(3) by auto
    with u show ?thesis by blast
  qed
qed

lemma unite_connected:
  assumes "forest p" and "same_set p = connected E"
  shows "\<exists>p'. unite findr a b p = Some p' \<and> forest p' \<and> same_set p' = connected (insert (a, b) E)"
proof -
  obtain p' where p': "unite findr a b p = Some p'" "forest p'"
    and r: "rep p' = (\<lambda>x. if rep p x = rep p b then rep p a else rep p x)" using unite_ok [OF assms(1)] by blast
  have old: "rep p x = rep p y \<longleftrightarrow> (x, y) \<in> connected E" for x y
    using assms(2) by (auto simp: same_set_def)
  have sub: "connected E \<subseteq> connected (insert (a, b) E)" by (rule connected_mono) auto
  have ab: "(a, b) \<in> connected (insert (a, b) E)" by (rule connected_base) simp
  have "same_set p' \<subseteq> connected (insert (a, b) E)"
  proof
    fix z assume "z \<in> same_set p'"
    then obtain x y where z: "z = (x, y)" "rep p' x = rep p' y" by (auto simp: same_set_def)
    have near: "(x, if rep p x = rep p b then a else x) \<in> connected (insert (a, b) E)" for x
    proof (cases "rep p x = rep p b")
      case True
      then have "(x, b) \<in> connected E" using old by simp
      then have "(x, a) \<in> connected (insert (a, b) E)" by (rule connected_trans [OF subsetD [OF sub] connected_sym [OF ab]])
      with True show ?thesis by simp
    qed (simp add: connected_refl)
    let ?f = "\<lambda>x. if rep p x = rep p b then a else x"
    have "rep p (?f x) = rep p (?f y)" using z(2) unfolding r by (auto split: if_splits)
    then have "(?f x, ?f y) \<in> connected (insert (a, b) E)" using old sub by blast
    then have "(?f x, y) \<in> connected (insert (a, b) E)" by (rule connected_trans [OF _ connected_sym [OF near]])
    then show "z \<in> connected (insert (a, b) E)" unfolding z(1) by (rule connected_trans [OF near])
  qed
  moreover have "connected (insert (a, b) E) \<subseteq> same_set p'"
  proof (rule connected_least [OF _ same_set_equiv])
    have "E \<subseteq> same_set p'"
    proof
      fix e assume e: "e \<in> E"
      obtain x y where "e = (x, y)" by (cases e)
      with e have "(x, y) \<in> connected E" by (intro connected_base) simp
      then have "rep p x = rep p y" using old by simp
      with \<open>e = (x, y)\<close> show "e \<in> same_set p'" by (simp add: same_set_def r)
    qed
    moreover have "(a, b) \<in> same_set p'" by (simp add: same_set_def r)
    ultimately show "insert (a, b) E \<subseteq> same_set p'" by simp
  qed
  ultimately show ?thesis using p' by blast
qed

end

interpretation compressing: finder uf_find
proof
  fix p :: "'a \<Rightarrow> 'a" and i
  assume f: "forest p"
  obtain n where n: "root_in p n i (rep p i)" using forest_root [OF f, of i] by blast
  from uf_compress_ok [OF f n] obtain p' where
    "uf_compress p (rep p i) i = Some p'" "forest p'" "rep p' = rep p" by blast
  with uf_root_ok [OF n] show "\<exists>p'. uf_find p i = Some (p', rep p i) \<and> forest p' \<and> rep p' = rep p"
    by (simp add: uf_find_def)
qed

interpretation halving: finder uf_halve
proof
  fix p :: "'a \<Rightarrow> 'a" and i
  assume f: "forest p"
  obtain n where "root_in p n i (rep p i)" using forest_root [OF f, of i] by blast
  from uf_halve_ok [OF f this] show "\<exists>p'. uf_halve p i = Some (p', rep p i) \<and> forest p' \<and> rep p' = rep p" .
qed

end
