(* ===== verification/Grouping.thy ===== *)
theory Grouping
  imports UnionFind JsText "HOL-Library.Multiset"
begin

text \<open>
  What the three row mergers share: a \<open>Map\<close> from a key to the list of items
  filed under it, in order of first appearance, the same keyed by the root a
  find answers, runs of unions, and findings as the plain objects the report
  files hold, read field by field.
\<close>

section \<open>Filing items under keys\<close>

text \<open>\<open>if (!m.has(k)) m.set(k, []); m.get(k).push(x)\<close>.\<close>

definition add_to :: "'k \<Rightarrow> 'a \<Rightarrow> ('k, 'a list) jsmap \<Rightarrow> ('k, 'a list) jsmap" where
  "add_to k x m = map_set k ((case map_of m k of None \<Rightarrow> [] | Some xs \<Rightarrow> xs) @ [x]) m"

definition filed_by :: "('a \<Rightarrow> 'k) \<Rightarrow> 'a list \<Rightarrow> ('k, 'a list) jsmap" where
  "filed_by key xs = fold (\<lambda>x m. add_to (key x) x m) xs []"

definition parts :: "('k, 'a list) jsmap \<Rightarrow> 'a list list" where
  "parts m = map snd m"

lemma filed_by_snoc: "filed_by key (xs @ [x]) = add_to (key x) x (filed_by key xs)"
  by (simp add: filed_by_def)

lemma map_of_filed_by:
  "map_of (filed_by key xs) k = (if k \<in> key ` set xs then Some (filter (\<lambda>x. key x = k) xs) else None)"
proof (induction xs rule: rev_induct)
  case Nil
  then show ?case by (simp add: filed_by_def)
next
  case (snoc x xs)
  have none: "k \<notin> key ` set xs \<Longrightarrow> filter (\<lambda>x. key x = k) xs = []" by (auto simp: filter_empty_conv)
  show ?case using snoc none by (auto simp: filed_by_snoc add_to_def)
qed

lemma map_keys_set_add: "map_keys (map_set k v m) = set_add (map_keys m) k"
  by (induction m) (auto simp: set_add_def)

lemma js_set_snoc: "js_set (xs @ [x]) = set_add (js_set xs) x"
  by (simp add: js_set_def)

lemma map_keys_filed_by: "map_keys (filed_by key xs) = js_set (map key xs)"
proof (induction xs rule: rev_induct)
  case Nil
  then show ?case by (simp add: filed_by_def)
next
  case (snoc x xs)
  then show ?case by (simp add: filed_by_snoc add_to_def map_keys_set_add js_set_snoc)
qed

lemma map_ok_filed_by [simp]: "map_ok (filed_by key xs)"
  by (simp add: map_ok_def map_keys_filed_by)

lemma parts_filed_by: "parts (filed_by key xs) = map (\<lambda>k. filter (\<lambda>x. key x = k) xs) (js_set (map key xs))"
proof -
  have "map snd m = map (\<lambda>k. the (map_of m k)) (map_keys m)" if "map_ok m" for m :: "('b, 'a list) jsmap"
  proof -
    have "snd x = the (map_of m (fst x))" if "x \<in> set m" for x
      using \<open>map_ok m\<close> that by (cases x) (simp add: in_map_of_iff)
    then show ?thesis by (simp add: comp_def cong: map_cong)
  qed
  then have "parts (filed_by key xs) = map (\<lambda>k. the (map_of (filed_by key xs) k)) (js_set (map key xs))"
    unfolding parts_def map_keys_filed_by [symmetric] using map_ok_filed_by by blast
  then show ?thesis by (simp add: map_of_filed_by cong: map_cong)
qed

lemma mset_filters:
  assumes "distinct ks" and "key ` set xs \<subseteq> set ks"
  shows "mset (concat (map (\<lambda>k. filter (\<lambda>x. key x = k) xs) ks)) = mset xs"
  using assms(2)
proof (induction xs)
  case Nil
  have "concat (map (\<lambda>k. []) ks) = []" by (induction ks) simp_all
  then show ?case by simp
next
  case (Cons x xs)
  have step: "mset (concat (map (\<lambda>k. filter (\<lambda>y. key y = k) (x # xs)) ls)) =
      (if key x \<in> set ls then {#x#} else {#}) + mset (concat (map (\<lambda>k. filter (\<lambda>y. key y = k) xs) ls))"
    if "distinct ls" for ls using that by (induction ls) auto
  show ?case using step [OF assms(1)] Cons by simp
qed

text \<open>Filing loses nothing and repeats nothing; no part is empty.\<close>

lemma parts_mset: "mset (concat (parts (filed_by key xs))) = mset xs"
  unfolding parts_filed_by by (rule mset_filters) simp_all

lemma parts_not_empty: "[] \<notin> set (parts (filed_by key xs))"
proof
  assume "[] \<in> set (parts (filed_by key xs))"
  then obtain x where "x \<in> set xs" "filter (\<lambda>y. key y = key x) xs = []" unfolding parts_filed_by by auto
  then show False unfolding filter_empty_conv by blast
qed

lemma parts_together:
  assumes "x \<in> set xs" and "y \<in> set xs"
  shows "(\<exists>part \<in> set (parts (filed_by key xs)). x \<in> set part \<and> y \<in> set part) \<longleftrightarrow> key x = key y"
  using assms unfolding parts_filed_by by auto

lemma parts_all_same:
  assumes "xs \<noteq> []"
  shows "length (parts (filed_by key xs)) = 1 \<longleftrightarrow> (\<forall>x \<in> set xs. \<forall>y \<in> set xs. key x = key y)"
proof -
  have "length (parts (filed_by key xs)) = card (key ` set xs)"
    unfolding parts_filed_by by (simp add: distinct_card [symmetric])
  moreover have "card (key ` set xs) = 1 \<longleftrightarrow> (\<forall>x \<in> set xs. \<forall>y \<in> set xs. key x = key y)"
  proof
    assume "card (key ` set xs) = 1"
    then obtain k where "key ` set xs = {k}" by (auto simp: card_1_singleton_iff)
    then show "\<forall>x \<in> set xs. \<forall>y \<in> set xs. key x = key y" by (metis image_eqI singletonD)
  next
    assume a: "\<forall>x \<in> set xs. \<forall>y \<in> set xs. key x = key y"
    from assms obtain x where x: "x \<in> set xs" by (cases xs) auto
    with a have "key ` set xs = {key x}" by blast
    then show "card (key ` set xs) = 1" by simp
  qed
  ultimately show ?thesis by simp
qed

section \<open>Filing under the root of a node\<close>

text \<open>
  An item with a node is filed under the node's root, one without under itself.
  Each find may shorten paths, so the parents are threaded through.
\<close>

definition file_root ::
    "(('n \<Rightarrow> 'n) \<Rightarrow> 'n \<Rightarrow> (('n \<Rightarrow> 'n) \<times> 'n) option) \<Rightarrow> ('a \<Rightarrow> 'n option) \<Rightarrow> 'a \<Rightarrow>
     ('n \<Rightarrow> 'n) \<times> ('a + 'n, 'a list) jsmap \<Rightarrow> (('n \<Rightarrow> 'n) \<times> ('a + 'n, 'a list) jsmap) option" where
  "file_root findr node x st = (case node x of
     None \<Rightarrow> Some (fst st, add_to (Inl x) x (snd st))
   | Some n \<Rightarrow> map_option (\<lambda>(p, r). (p, add_to (Inr r) x (snd st))) (findr (fst st) n))"

fun option_fold :: "('a \<Rightarrow> 's \<Rightarrow> 's option) \<Rightarrow> 'a list \<Rightarrow> 's \<Rightarrow> 's option" where
  "option_fold f [] s = Some s"
| "option_fold f (x # xs) s = Option.bind (f x s) (option_fold f xs)"

lemma option_fold_append:
  "option_fold f (xs @ ys) s = Option.bind (option_fold f xs s) (option_fold f ys)"
  by (induction xs arbitrary: s) (simp_all split: bind_split)

definition root_key :: "('n \<Rightarrow> 'n) \<Rightarrow> ('a \<Rightarrow> 'n option) \<Rightarrow> 'a \<Rightarrow> 'a + 'n" where
  "root_key p node x = (case node x of None \<Rightarrow> Inl x | Some n \<Rightarrow> Inr (rep p n))"

text \<open>Unions of a list of pairs, one after the other.\<close>

definition unite_all ::
    "(('n \<Rightarrow> 'n) \<Rightarrow> 'n \<Rightarrow> (('n \<Rightarrow> 'n) \<times> 'n) option) \<Rightarrow> ('n \<times> 'n) list \<Rightarrow> ('n \<Rightarrow> 'n) \<Rightarrow> ('n \<Rightarrow> 'n) option" where
  "unite_all findr = option_fold (\<lambda>(a, b). unite findr a b)"

context finder
begin

lemma file_roots:
  assumes "forest p"
  shows "\<exists>p'. option_fold (file_root findr node) xs (p, []) = Some (p', filed_by (root_key p node) xs)
    \<and> forest p' \<and> rep p' = rep p"
proof (induction xs rule: rev_induct)
  case Nil
  with assms show ?case by (simp add: filed_by_def)
next
  case (snoc x xs)
  then obtain p1 where p1: "option_fold (file_root findr node) xs (p, []) = Some (p1, filed_by (root_key p node) xs)"
    "forest p1" "rep p1 = rep p" by blast
  have step: "file_root findr node x st = (case node x of
      None \<Rightarrow> Some (fst st, add_to (root_key p node x) x (snd st))
    | Some n \<Rightarrow> map_option (\<lambda>(q, r). (q, add_to (Inr r) x (snd st))) (findr (fst st) n))"
    "node x = Some n \<Longrightarrow> root_key p node x = Inr (rep p n)" for st n
    by (simp_all add: file_root_def root_key_def split: option.split)
  show ?case
  proof (cases "node x")
    case None
    with p1 show ?thesis
      by (simp add: option_fold_append step filed_by_snoc)
  next
    case (Some n)
    obtain p2 where "findr p1 n = Some (p2, rep p1 n)" "forest p2" "rep p2 = rep p1"
      using find_ok [OF p1(2), of n] by blast
    with Some p1 show ?thesis
      by (simp add: option_fold_append step filed_by_snoc)
  qed
qed

lemma unite_all_connected:
  assumes "forest p" and "same_set p = connected E"
  shows "\<exists>p'. unite_all findr es p = Some p' \<and> forest p' \<and> same_set p' = connected (E \<union> set es)"
  using assms
proof (induction es arbitrary: p E)
  case Nil
  then show ?case by (simp add: unite_all_def)
next
  case (Cons e es)
  obtain a b where e: "e = (a, b)" by (cases e)
  obtain p1 where p1: "unite findr a b p = Some p1" "forest p1" "same_set p1 = connected (insert (a, b) E)"
    using unite_connected [OF Cons.prems] by blast
  from Cons.IH [OF p1(2,3)] obtain p' where
    "unite_all findr es p1 = Some p'" "forest p'" "same_set p' = connected (insert (a, b) E \<union> set es)" by blast
  moreover have "unite_all findr (e # es) p = unite_all findr es p1" by (simp add: unite_all_def e p1)
  ultimately show ?case by (simp add: e)
qed

end

lemma same_set_start: "same_set (\<lambda>i. i) = connected {}"
  by (auto simp: same_set_def connected_def Id_def)

section \<open>Findings as objects\<close>

type_synonym fobj = "(string, jsval) jsmap"

definition get :: "fobj \<Rightarrow> string \<Rightarrow> jsval" where
  "get f k = (case map_of f k of None \<Rightarrow> JUndef | Some v \<Rightarrow> v)"

lemma get_map_set [simp]: "get (map_set k v f) j = (if j = k then v else get f j)"
  by (simp add: get_def)

text \<open>\<open>String(v)\<close>.\<close>

fun digits :: "nat \<Rightarrow> string" where
  "digits n = (if n < 10 then [char_of (48 + n)] else digits (n div 10) @ [char_of (48 + n mod 10)])"

fun js_string :: "jsval \<Rightarrow> string" where
  "js_string JUndef = ''undefined''"
| "js_string JNull = ''null''"
| "js_string (JBool b) = (if b then ''true'' else ''false'')"
| "js_string (JNum n) = (if n < 0 then CHR ''-'' # digits (nat (- n)) else digits (nat n))"
| "js_string (JStr s) = s"
| "js_string (JArr vs) = join '','' (map (\<lambda>v. if nullish v then [] else js_string v) vs)"
| "js_string (JObj _) = ''[object Object]''"

text \<open>\<open>f.id ?? String(f._id)\<close>.\<close>

definition row_key :: "fobj \<Rightarrow> jsval" where
  "row_key f = coalesce (get f ''id'') (JStr (js_string (get f ''_id'')))"

definition isApp :: "fobj \<Rightarrow> bool" where
  "isApp f = truthy (get f ''isApp'')"


end
