(* ===== verification/RevalidationSplit.thy ===== *)
theory RevalidationSplit
  imports Grouping
begin

text \<open>
  \<^verbatim>\<open>src/common/revalidation-input-groups.js\<close>: the row a report drew around an
  App finding and its inputs is split back into rows of source findings that
  share inputs, but only when every source id is accounted for. The entries of a
  group are different objects, so an App finding without inputs, which the
  program files under the object itself, is filed under its position. The App
  findings handed in are App findings.
\<close>

section \<open>The split\<close>

definition source_id :: "fobj \<Rightarrow> string option" where
  "source_id f = (case get f ''id'' of JStr s \<Rightarrow> if s = [] then None else Some s | _ \<Rightarrow> None)"

definition inputs_of :: "string list \<Rightarrow> fobj \<Rightarrow> string list option" where
  "inputs_of sourceIds f = (case get f ''revalidateInputs'' of
     JUndef \<Rightarrow> Some []
   | JArr vs \<Rightarrow> if list_all (\<lambda>v. v \<in> JStr ` set sourceIds) vs then Some (map js_string vs) else None
   | _ \<Rightarrow> None)"

text \<open>The inputs of every App finding; \<open>None\<close> where the program returns the group as it is.\<close>

fun all_inputs :: "string list \<Rightarrow> fobj list \<Rightarrow> string list list option" where
  "all_inputs sourceIds [] = Some []"
| "all_inputs sourceIds (f # fs) = (case inputs_of sourceIds f of
     None \<Rightarrow> None
   | Some is \<Rightarrow> map_option (Cons is) (all_inputs sourceIds fs))"

definition split_evidence :: "fobj list \<Rightarrow> fobj list option \<Rightarrow> string list list option" where
  "split_evidence members appFindings =
     (let app = (case appFindings of None \<Rightarrow> filter isApp members | Some a \<Rightarrow> a);
          source = filter (\<lambda>f. \<not> isApp f) members
      in if app = [] \<or> source = [] then None
         else if appFindings \<noteq> None \<and> list_ex isApp members then None
         else if list_ex (\<lambda>f. source_id f = None) source then None
         else let sourceIds = js_set (map (\<lambda>f. the (source_id f)) source) in
           case all_inputs sourceIds app of
             None \<Rightarrow> None
           | Some inputs \<Rightarrow>
               if length (js_set (concat inputs)) \<noteq> length sourceIds then None else Some inputs)"

text \<open>\<open>root = find(inputs[0]); for (id of inputs) parent.set(find(id), root)\<close>.\<close>

definition link_input :: "string \<Rightarrow> string \<Rightarrow> (string \<Rightarrow> string) \<Rightarrow> (string \<Rightarrow> string) option" where
  "link_input root i p = map_option (\<lambda>(p', r). p'(r := root)) (uf_find p i)"

definition link_inputs :: "string list \<Rightarrow> (string \<Rightarrow> string) \<Rightarrow> (string \<Rightarrow> string) option" where
  "link_inputs inputs p = (case inputs of
     [] \<Rightarrow> Some p
   | i # _ \<Rightarrow> Option.bind (uf_find p i) (\<lambda>(p1, root). option_fold (link_input root) inputs p1))"

text \<open>What a finding is filed under: its first input, itself, or its id.\<close>

definition split_node :: "string list \<Rightarrow> nat \<times> fobj \<Rightarrow> string option" where
  "split_node sourceIds x =
     (if isApp (snd x)
      then case inputs_of sourceIds (snd x) of Some (i # _) \<Rightarrow> Some i | _ \<Rightarrow> None
      else source_id (snd x))"

definition source_ids :: "fobj list \<Rightarrow> string list" where
  "source_ids members = js_set (map (\<lambda>f. the (source_id f)) (filter (\<lambda>f. \<not> isApp f) members))"

definition splitRevalidationInputs :: "fobj list \<Rightarrow> fobj list option \<Rightarrow> fobj list list option" where
  "splitRevalidationInputs members appFindings = (case split_evidence members appFindings of
     None \<Rightarrow> Some [members]
   | Some inputs \<Rightarrow>
       Option.bind (option_fold link_inputs inputs (\<lambda>i. i)) (\<lambda>p.
         map_option (\<lambda>(p', m). if length m = 1 then [members] else map (map snd) (parts m))
           (option_fold (file_root uf_find (split_node (source_ids members))) (enumerate 0 members) (p, []))))"

section \<open>What the links say\<close>

text \<open>Two ids some App finding names together.\<close>

definition share_input :: "string list list \<Rightarrow> (string \<times> string) set" where
  "share_input inputs = {(a, b). \<exists>is \<in> set inputs. a \<in> set is \<and> b \<in> set is}"

definition first_pairs :: "string list \<Rightarrow> (string \<times> string) set" where
  "first_pairs is = (\<lambda>i. (hd is, i)) ` set is"

lemma link_input_ok:
  assumes "forest p" and "rep p h = root"
  shows "\<exists>p'. link_input root i p = Some p' \<and> forest p'
    \<and> rep p' = (\<lambda>x. if rep p x = rep p i then root else rep p x)"
proof -
  obtain p2 where p2: "uf_find p i = Some (p2, rep p i)" "forest p2" "rep p2 = rep p"
    using compressing.find_ok [OF assms(1), of i] by blast
  have fx: "p2 root = root" "p2 (rep p i) = rep p i"
    using rep_fix [OF p2(2), of h] rep_fix [OF p2(2), of i] p2(3) assms(2) by simp_all
  have l: "link_input root i p = Some (p2(rep p i := root))" by (simp add: link_input_def p2)
  show ?thesis
  proof (cases "root = rep p i")
    case True
    then have "p2(rep p i := root) = p2" using fx by (simp add: fun_upd_idem)
    with l p2 True show ?thesis by auto
  next
    case False
    from link [OF p2(2) fx False] p2(3)
    have "forest (p2(rep p i := root))
        \<and> rep (p2(rep p i := root)) = (\<lambda>x. if rep p x = rep p i then root else rep p x)" by auto
    with l show ?thesis by blast
  qed
qed

lemma same_set_rep: "rep p = rep q \<Longrightarrow> same_set p = same_set q"
  by (simp add: same_set_def)

lemma link_input_connected:
  assumes "forest p" and "same_set p = connected E" and "rep p h = root"
  shows "\<exists>p'. link_input root i p = Some p' \<and> forest p' \<and> same_set p' = connected (insert (h, i) E) \<and> rep p' h = root"
proof -
  obtain p' where p': "link_input root i p = Some p'" "forest p'"
    "rep p' = (\<lambda>x. if rep p x = rep p i then root else rep p x)" using link_input_ok [OF assms(1,3)] by blast
  obtain q where q: "unite uf_find h i p = Some q" "rep q = (\<lambda>x. if rep p x = rep p i then root else rep p x)"
    using compressing.unite_ok [OF assms(1), of h i] assms(3) by blast
  with compressing.unite_connected [OF assms(1,2), of h i] have "same_set q = connected (insert (h, i) E)" by simp
  with p' q same_set_rep [of p' q] show ?thesis by (simp add: assms(3))
qed

lemma link_input_fold:
  assumes "forest p" and "same_set p = connected E" and "rep p h = root"
  shows "\<exists>p'. option_fold (link_input root) is p = Some p' \<and> forest p'
    \<and> same_set p' = connected (E \<union> (\<lambda>i. (h, i)) ` set is)"
  using assms
proof (induction "is" arbitrary: p E)
  case (Cons i "is")
  obtain p1 where p1: "link_input root i p = Some p1" "forest p1" "same_set p1 = connected (insert (h, i) E)"
    "rep p1 h = root" using link_input_connected [OF Cons.prems] by blast
  from Cons.IH [OF p1(2-4)] p1(1) show ?case by simp
qed simp

lemma link_inputs_ok:
  assumes "forest p" and "same_set p = connected E"
  shows "\<exists>p'. link_inputs is p = Some p' \<and> forest p' \<and> same_set p' = connected (E \<union> first_pairs is)"
proof (cases "is")
  case Nil
  with assms show ?thesis by (simp add: link_inputs_def first_pairs_def)
next
  case (Cons i js)
  obtain p1 where p1: "uf_find p i = Some (p1, rep p i)" "forest p1" "rep p1 = rep p"
    using compressing.find_ok [OF assms(1), of i] by blast
  have "same_set p1 = connected E" using same_set_rep [OF p1(3)] assms(2) by simp
  from link_input_fold [OF p1(2) this, of i "rep p i" "is"] p1 Cons
  show ?thesis by (simp add: link_inputs_def first_pairs_def)
qed

lemma links_ok:
  assumes "forest p" and "same_set p = connected E"
  shows "\<exists>p'. option_fold link_inputs inputs p = Some p' \<and> forest p'
    \<and> same_set p' = connected (E \<union> \<Union> (first_pairs ` set inputs))"
  using assms
proof (induction inputs arbitrary: p E)
  case (Cons "is" inputs)
  obtain p1 where p1: "link_inputs is p = Some p1" "forest p1" "same_set p1 = connected (E \<union> first_pairs is)"
    using link_inputs_ok [OF Cons.prems] by blast
  from Cons.IH [OF p1(2,3)] p1(1) show ?case by (simp add: Un_assoc)
qed simp

lemma connected_first_pairs: "connected (\<Union> (first_pairs ` set inputs)) = connected (share_input inputs)"
proof
  have "first_pairs is \<subseteq> share_input inputs" if "is \<in> set inputs" for "is"
  proof
    fix e assume "e \<in> first_pairs is"
    then obtain i where "i \<in> set is" "e = (hd is, i)" by (auto simp: first_pairs_def)
    moreover from this have "hd is \<in> set is" by (cases "is") auto
    ultimately show "e \<in> share_input inputs" using that by (auto simp: share_input_def)
  qed
  then show "connected (\<Union> (first_pairs ` set inputs)) \<subseteq> connected (share_input inputs)"
    by (intro connected_mono) blast
  have "(a, b) \<in> connected (\<Union> (first_pairs ` set inputs))" if "is \<in> set inputs" "a \<in> set is" "b \<in> set is" for "is" a b
  proof -
    have "(hd is, a) \<in> connected (\<Union> (first_pairs ` set inputs))" "(hd is, b) \<in> connected (\<Union> (first_pairs ` set inputs))"
      using that by (auto intro!: connected_base simp: first_pairs_def)
    then show ?thesis using connected_trans connected_sym by meson
  qed
  then have "share_input inputs \<subseteq> connected (\<Union> (first_pairs ` set inputs))" by (auto simp: share_input_def)
  then show "connected (share_input inputs) \<subseteq> connected (\<Union> (first_pairs ` set inputs))"
    by (rule connected_least) (auto simp: refl_on_def sym_def trans_def connected_refl intro: connected_sym connected_trans)
qed

lemma evidence_sources:
  assumes "split_evidence members app = Some inputs" and "f \<in> set members" and "\<not> isApp f"
  shows "\<exists>i. source_id f = Some i \<and> i \<in> set (source_ids members)"
proof -
  have "\<not> list_ex (\<lambda>f. source_id f = None) (filter (\<lambda>f. \<not> isApp f) members)"
    using assms(1) by (auto simp: split_evidence_def Let_def split: if_splits)
  with assms(2,3) obtain i where "source_id f = Some i" by (auto simp: list_ex_iff)
  with assms(2,3) show ?thesis by (force simp: source_ids_def)
qed

lemma all_inputs_mem:
  "all_inputs ids fs = Some inputs \<Longrightarrow> f \<in> set fs \<Longrightarrow> inputs_of ids f = Some is \<Longrightarrow> is \<in> set inputs"
  by (induction fs arbitrary: inputs) (auto split: option.splits)

text \<open>With complete evidence the rows are exactly what the filing gives.\<close>

lemma one_part:
  assumes "length (filed_by key xs) = 1"
  shows "parts (filed_by key xs) = [xs]"
proof -
  have "length (js_set (map key xs)) = 1" using assms map_keys_filed_by [of key xs] by (metis length_map)
  then obtain k where k: "js_set (map key xs) = [k]" by (cases "js_set (map key xs)") auto
  then have "key ` set xs = {k}" using set_js_set [of "map key xs"] by simp
  then have "filter (\<lambda>x. key x = k) xs = xs" by (auto simp: filter_id_conv)
  with k show ?thesis unfolding parts_filed_by by simp
qed

lemma split_result:
  assumes "split_evidence members app = Some inputs"
  shows "\<exists>p. forest p \<and> same_set p = connected (share_input inputs)
    \<and> splitRevalidationInputs members app =
        Some (map (map snd) (parts (filed_by (root_key p (split_node (source_ids members))) (enumerate 0 members))))"
proof -
  obtain p where p: "option_fold link_inputs inputs (\<lambda>i. i) = Some p" "forest p"
    "same_set p = connected ({} \<union> \<Union> (first_pairs ` set inputs))"
    using links_ok [OF forest_id same_set_start] by blast
  obtain p' where p': "option_fold (file_root uf_find (split_node (source_ids members))) (enumerate 0 members) (p, [])
      = Some (p', filed_by (root_key p (split_node (source_ids members))) (enumerate 0 members))"
    using compressing.file_roots [OF p(2)] by blast
  have "same_set p = connected (share_input inputs)" using p(3) connected_first_pairs by simp
  moreover have "splitRevalidationInputs members app =
      Some (map (map snd) (parts (filed_by (root_key p (split_node (source_ids members))) (enumerate 0 members))))"
    using assms p(1) p' one_part [of "root_key p (split_node (source_ids members))" "enumerate 0 members"]
    by (simp add: splitRevalidationInputs_def)
  ultimately show ?thesis using p(2) by blast
qed

lemma split_conserves: "\<exists>ps. splitRevalidationInputs members app = Some ps \<and> mset (concat ps) = mset members"
proof (cases "split_evidence members app")
  case None
  then show ?thesis by (simp add: splitRevalidationInputs_def)
next
  case (Some inputs)
  from split_result [OF this] obtain p where p: "splitRevalidationInputs members app =
      Some (map (map snd) (parts (filed_by (root_key p (split_node (source_ids members))) (enumerate 0 members))))" by blast
  let ?xss = "parts (filed_by (root_key p (split_node (source_ids members))) (enumerate 0 members))"
  have "mset (concat (map (map snd) ?xss)) = image_mset snd (mset (concat ?xss))"
    by (simp only: map_concat [symmetric] mset_map)
  also have "\<dots> = mset (map snd (enumerate 0 members))" by (simp only: parts_mset mset_map)
  finally have "mset (concat (map (map snd) ?xss)) = mset members" by simp
  with p show ?thesis by blast
qed

text \<open>Two findings are in one row exactly when some places of theirs are filed under one key.\<close>

lemma together_snd:
  "(\<exists>part \<in> set (map (map snd) (parts (filed_by key xs))). f \<in> set part \<and> g \<in> set part) \<longleftrightarrow>
    (\<exists>x \<in> set xs. \<exists>y \<in> set xs. snd x = f \<and> snd y = g \<and> key x = key y)"
proof
  assume "\<exists>part \<in> set (map (map snd) (parts (filed_by key xs))). f \<in> set part \<and> g \<in> set part"
  then show "\<exists>x \<in> set xs. \<exists>y \<in> set xs. snd x = f \<and> snd y = g \<and> key x = key y"
    unfolding parts_filed_by by fastforce
next
  assume "\<exists>x \<in> set xs. \<exists>y \<in> set xs. snd x = f \<and> snd y = g \<and> key x = key y"
  then obtain x y where x: "x \<in> set xs" "y \<in> set xs" "snd x = f" "snd y = g" "key x = key y" by blast
  then obtain part where "part \<in> set (parts (filed_by key xs))" "x \<in> set part" "y \<in> set part"
    using parts_together [of x xs y key] by blast
  then show "\<exists>part \<in> set (map (map snd) (parts (filed_by key xs))). f \<in> set part \<and> g \<in> set part"
    using x(3,4) by (intro bexI [of _ "map snd part"]) auto
qed

lemma set_enumerate_snd: "snd ` set (enumerate n xs) = set xs"
  by (metis list.set_map map_snd_enumerate)

section \<open>Properties\<close>

text \<open>C25: hiding the App layer redraws a row without losing or repeating a finding: the new
  rows hold exactly the findings of the old one. Without complete evidence the row stays
  as it is; with it, two source findings share a row exactly when App findings that name
  inputs in common, directly or in a chain, connect them, and an App finding is in the row
  of each of its inputs.\<close>

theorem splitRevalidationInputs_spec:
  "\<exists>ps. splitRevalidationInputs members app = Some ps \<and> mset (concat ps) = mset members
    \<and> (case split_evidence members app of
        None \<Rightarrow> ps = [members]
      | Some inputs \<Rightarrow>
          (\<forall>f \<in> set members. \<forall>g \<in> set members. \<not> isApp f \<and> \<not> isApp g \<longrightarrow>
             ((\<exists>part \<in> set ps. f \<in> set part \<and> g \<in> set part) \<longleftrightarrow>
               (the (source_id f), the (source_id g)) \<in> connected (share_input inputs)))
        \<and> (\<forall>f \<in> set members. \<forall>is. isApp f \<and> inputs_of (source_ids members) f = Some is \<and> app = None \<longrightarrow>
             (\<forall>i \<in> set is. \<exists>part \<in> set ps. f \<in> set part \<and> (\<exists>g \<in> set part. \<not> isApp g \<and> source_id g = Some i))))"
proof (cases "split_evidence members app")
  case None
  then show ?thesis by (simp add: splitRevalidationInputs_def)
next
  case (Some inputs)
  let ?node = "split_node (source_ids members)"
  from split_result [OF Some] obtain p where p: "same_set p = connected (share_input inputs)"
    and ps: "splitRevalidationInputs members app =
      Some (map (map snd) (parts (filed_by (root_key p ?node) (enumerate 0 members))))" by blast
  let ?ps = "map (map snd) (parts (filed_by (root_key p ?node) (enumerate 0 members)))"
  have same: "rep p a = rep p b \<longleftrightarrow> (a, b) \<in> connected (share_input inputs)" for a b
    using p by (auto simp: same_set_def)
  have place: "\<exists>x \<in> set (enumerate 0 members). snd x = f" if "f \<in> set members" for f
    using that unfolding set_enumerate_snd [of 0 members, symmetric] by blast
  have key: "root_key p ?node x = Inr (rep p (the (source_id (snd x))))"
    if "x \<in> set (enumerate 0 members)" "\<not> isApp (snd x)" for x
  proof -
    have "snd x \<in> set members" using that(1) set_enumerate_snd [of 0 members] by blast
    from evidence_sources [OF Some this that(2)] that(2) show ?thesis by (auto simp: root_key_def split_node_def)
  qed
  have "(\<exists>part \<in> set ?ps. f \<in> set part \<and> g \<in> set part) \<longleftrightarrow>
      (the (source_id f), the (source_id g)) \<in> connected (share_input inputs)"
    if fg: "f \<in> set members" "g \<in> set members" "\<not> isApp f" "\<not> isApp g" for f g
    unfolding together_snd using place [OF fg(1)] place [OF fg(2)] key fg(3,4) same
    by (metis Inr_inject)
  moreover have "\<exists>part \<in> set ?ps. f \<in> set part \<and> (\<exists>g \<in> set part. \<not> isApp g \<and> source_id g = Some i)"
    if f: "f \<in> set members" "isApp f" "inputs_of (source_ids members) f = Some is" "i \<in> set is" "app = None" for f "is" i
  proof -
    obtain j js where j: "is = j # js" using f(4) by (cases "is") auto
    have ev: "all_inputs (source_ids members) (filter isApp members) = Some inputs"
      using Some f(5) by (auto simp: split_evidence_def Let_def source_ids_def split: if_splits option.splits)
    have "is \<in> set inputs" by (rule all_inputs_mem [OF ev _ f(3)]) (use f(1,2) in simp)
    moreover have "j \<in> set is" unfolding j by simp
    ultimately have "(j, i) \<in> share_input inputs" using f(4) unfolding share_input_def by blast
    then have ji: "rep p j = rep p i" unfolding same by (rule connected_base)
    have "i \<in> set (source_ids members)"
      using f(3,4) by (fastforce simp: inputs_of_def list_all_iff split: jsval.splits if_splits)
    then obtain g where g: "g \<in> set members" "\<not> isApp g" "the (source_id g) = i" by (auto simp: source_ids_def)
    from evidence_sources [OF Some g(1,2)] g(3) have gi: "source_id g = Some i" by auto
    obtain x where x: "x \<in> set (enumerate 0 members)" "snd x = f" using place [OF f(1)] by blast
    obtain y where y: "y \<in> set (enumerate 0 members)" "snd y = g" using place [OF g(1)] by blast
    have "root_key p ?node x = Inr (rep p j)" using x(2) f(2,3) j by (simp add: root_key_def split_node_def)
    moreover have "root_key p ?node y = Inr (rep p i)" using key [OF y(1)] y(2) g by simp
    ultimately have "\<exists>part \<in> set ?ps. f \<in> set part \<and> g \<in> set part"
      unfolding together_snd using x y ji by metis
    then show ?thesis using gi g(2) by blast
  qed
  moreover have "mset (concat ?ps) = mset members" using split_conserves [of members app] ps by simp
  ultimately show ?thesis using ps Some by simp
qed

text \<open>Two pass findings over three sources: the first joins two of them.\<close>

definition sample_source :: "string \<Rightarrow> fobj" where
  "sample_source i = [(''id'', JStr i)]"

definition sample_app :: "string list \<Rightarrow> fobj" where
  "sample_app is = [(''isApp'', JBool True), (''revalidateInputs'', JArr (map JStr is))]"

definition sample_row :: "fobj list" where
  "sample_row = [sample_app [''a'', ''b''], sample_source ''a'', sample_source ''b'', sample_source ''c'', sample_app [''c'']]"

theorem splitRevalidationInputs_spec_witness:
  "\<exists>ps. splitRevalidationInputs sample_row None = Some ps \<and> mset (concat ps) = mset sample_row
    \<and> (\<exists>part \<in> set ps. sample_source ''a'' \<in> set part \<and> sample_source ''b'' \<in> set part)"
proof -
  have e: "split_evidence sample_row None = Some [[''a'', ''b''], [''c'']]" by code_simp
  have m: "sample_source ''a'' \<in> set sample_row" "sample_source ''b'' \<in> set sample_row"
    "\<not> isApp (sample_source ''a'')" "\<not> isApp (sample_source ''b'')" by code_simp+
  have i: "the (source_id (sample_source ''a'')) = ''a''" "the (source_id (sample_source ''b'')) = ''b''" by code_simp+
  have "(''a'', ''b'') \<in> connected (share_input [[''a'', ''b''], [''c'']])"
    by (rule connected_base) (auto simp: share_input_def)
  with splitRevalidationInputs_spec [of sample_row None] e m i show ?thesis by auto
qed

end
