(* ===== verification/FindingDuplicates.thy ===== *)
theory FindingDuplicates
  imports Grouping
begin

text \<open>
  Two copies of one finding in one row (\<^verbatim>\<open>src/common/finding-duplicates.js\<close>) and
  the record of who answered what (\<^verbatim>\<open>src/common/revalidation-conflicts.js\<close>).
  \<open>revalidateKindOf\<close>, \<open>effectiveSeverity\<close> and \<open>REVALIDATE_KINDS\<close> of
  \<open>@preventive/report\<close> are parameters. A finding is an object, the survivor and
  the duplicate are different ones.
\<close>

section \<open>Texts\<close>

definition to_lower :: "string \<Rightarrow> string" where
  "to_lower = map (\<lambda>c. let n = of_char c :: nat in
     if 65 \<le> n \<and> n \<le> 90 \<or> 192 \<le> n \<and> n \<le> 222 \<and> n \<noteq> 215 then char_of (n + 32) else c)"

section \<open>Filling gaps\<close>

definition KEEPS_ITS_OWN :: "string list" where
  "KEEPS_ITS_OWN = [''correctedSeverity'', ''correctedSeverityReason'', ''isApp'', ''isUpstream'', ''isSecurity'', ''source'']"

definition merge_field ::
    "(fobj \<Rightarrow> jsval) \<Rightarrow> fobj \<Rightarrow> string \<times> jsval \<Rightarrow> fobj \<times> bool \<Rightarrow> fobj \<times> bool" where
  "merge_field revalidateKindOf dup kv st =
     (let key = fst kv; v = snd kv; survivor = fst st in
      if starts_with ''_'' key \<or> key \<in> set KEEPS_ITS_OWN then st
      else if nullish v then st
      else if key = ''revalidate'' then
        (let theirs = revalidateKindOf dup; mine = revalidateKindOf survivor in
         if \<not> truthy theirs then st
         else if \<not> truthy mine then (map_set key v survivor, snd st)
         else if mine \<noteq> theirs then (survivor, True) else st)
      else if nullish (get survivor key) then (map_set key v survivor, snd st)
      else if starts_with ''revalidate'' key \<and> trim (js_string (get survivor key)) \<noteq> trim (js_string v)
      then (survivor, True)
      else st)"

definition mergeDuplicateFields :: "(fobj \<Rightarrow> jsval) \<Rightarrow> fobj \<Rightarrow> fobj \<Rightarrow> fobj \<times> bool" where
  "mergeDuplicateFields revalidateKindOf survivor dup =
     fold (merge_field revalidateKindOf dup) dup (survivor, False)"

section \<open>Who answered what\<close>

text \<open>\<open>fieldsOf\<close>: the pass's fields that are set.\<close>

definition fieldsOf :: "fobj \<Rightarrow> fobj" where
  "fieldsOf f = filter (\<lambda>(k, v). starts_with ''revalidate'' k \<and> \<not> nullish v) f"

definition copy_of :: "jsval \<Rightarrow> fobj \<Rightarrow> jsval" where
  "copy_of reportName fields = JObj [(''reportName'', reportName), (''fields'', JObj fields)]"

text \<open>The survivor with its copies, and the copies.\<close>

definition recordRevalidationCopies :: "fobj \<Rightarrow> fobj \<Rightarrow> jsval \<Rightarrow> fobj \<times> jsval list" where
  "recordRevalidationCopies survivor duplicate reportName =
     (let fields = fieldsOf duplicate; own = fieldsOf survivor;
          had = truthy (get survivor ''_revalidationCopies'')
      in if \<not> had \<and> own = [] \<and> fields = [] then (survivor, [])
         else let before = (if had then elems (get survivor ''_revalidationCopies'')
                else if own \<noteq> [] then [copy_of (coalesce (get survivor ''_reportName'') (JStr [])) own] else []);
              copies = before @ (if fields \<noteq> [] then [copy_of reportName fields] else [])
            in (map_set ''_revalidationCopies'' (JArr copies) survivor, copies))"

text \<open>\<open>conflicts\<close>: the survivor and the copies, under the survivor's id.\<close>

type_synonym conflicts = "(jsval, fobj \<times> jsval list) jsmap"

definition severity_entry :: "(fobj \<Rightarrow> jsval) \<Rightarrow> fobj \<Rightarrow> jsval" where
  "severity_entry effectiveSeverity f =
     JObj [(''severity'', effectiveSeverity f), (''reason'', get f ''correctedSeverityReason'')]"

definition note_severity :: "(fobj \<Rightarrow> jsval) \<Rightarrow> fobj \<Rightarrow> string \<Rightarrow> fobj \<Rightarrow> fobj" where
  "note_severity effectiveSeverity dup reportName survivor =
     (if truthy (get survivor ''correctedSeverity'') \<or> truthy (get dup ''correctedSeverity'')
      then let old = coalesce (get survivor ''_correctedByReport'')
             (JObj [(js_string (coalesce (get survivor ''_reportName'') (JStr [])), severity_entry effectiveSeverity survivor)])
           in map_set ''_correctedByReport'' (case old of
                JObj fs \<Rightarrow> JObj (map_set reportName (severity_entry effectiveSeverity dup) fs) | v \<Rightarrow> v) survivor
      else survivor)"

definition mergeReportDuplicateFields ::
    "(fobj \<Rightarrow> jsval) \<Rightarrow> (fobj \<Rightarrow> jsval) \<Rightarrow> fobj \<Rightarrow> fobj \<Rightarrow> string \<Rightarrow> conflicts \<Rightarrow> fobj \<times> conflicts" where
  "mergeReportDuplicateFields revalidateKindOf effectiveSeverity survivor dup reportName conflicts =
     (let s1 = note_severity effectiveSeverity dup reportName survivor;
          (s2, copies) = recordRevalidationCopies s1 dup (JStr reportName);
          (s3, conflicted) = mergeDuplicateFields revalidateKindOf s2 dup
      in (s3, if conflicted \<or> map_has conflicts (get s3 ''id'')
              then map_set (get s3 ''id'') (s3, copies) conflicts else conflicts))"

section \<open>The differences between the answers\<close>

text \<open>The answers so far: field, normalized value, the reports that gave it.\<close>

type_synonym answers = "(string, (string, string list) jsmap) jsmap"

definition normalized_answer :: "(fobj \<Rightarrow> jsval) \<Rightarrow> fobj \<Rightarrow> string \<Rightarrow> jsval \<Rightarrow> string" where
  "normalized_answer revalidateKindOf fields key v =
     (if key = ''revalidate''
      then let k = revalidateKindOf fields in if truthy k then js_string k else to_lower (trim (js_string v))
      else trim (js_string v))"

definition note_answer ::
    "(fobj \<Rightarrow> jsval) \<Rightarrow> string list \<Rightarrow> string \<Rightarrow> fobj \<Rightarrow> string \<times> jsval \<Rightarrow> answers \<Rightarrow> answers" where
  "note_answer revalidateKindOf kinds reportName fields kv byField =
     (let key = fst kv; v = snd kv; n = normalized_answer revalidateKindOf fields key v in
      if nullish v then byField
      else if key = ''revalidate'' \<and> n = [] then byField
      else if key = ''revalidate'' \<and> n \<notin> set kinds then byField
      else let variants = (case map_of byField key of None \<Rightarrow> [] | Some vs \<Rightarrow> vs);
             reports = (case map_of variants n of None \<Rightarrow> [] | Some rs \<Rightarrow> rs)
           in map_set key (map_set n (set_add reports reportName) variants) byField)"

definition note_copy :: "(fobj \<Rightarrow> jsval) \<Rightarrow> string list \<Rightarrow> string \<times> fobj \<Rightarrow> answers \<Rightarrow> answers" where
  "note_copy revalidateKindOf kinds c = fold (note_answer revalidateKindOf kinds (fst c) (snd c)) (snd c)"

definition revalidationDifferences ::
    "(fobj \<Rightarrow> jsval) \<Rightarrow> string list \<Rightarrow> (string \<times> fobj) list \<Rightarrow> answers" where
  "revalidationDifferences revalidateKindOf kinds copies =
     filter (\<lambda>(field, variants). length variants > 1) (fold (note_copy revalidateKindOf kinds) copies [])"

section \<open>What a merge does to each field\<close>

text \<open>The fields a merge may write.\<close>

definition merges_key :: "string \<Rightarrow> bool" where
  "merges_key k = (\<not> starts_with ''_'' k \<and> k \<notin> set KEEPS_ITS_OWN)"

text \<open>The reader of stamps looks at the stamp alone.\<close>

definition reads_stamp :: "(fobj \<Rightarrow> jsval) \<Rightarrow> bool" where
  "reads_stamp rk = (\<forall>f g. get f ''revalidate'' = get g ''revalidate'' \<longrightarrow> rk f = rk g)"

definition merged :: "(fobj \<Rightarrow> jsval) \<Rightarrow> fobj \<Rightarrow> fobj \<Rightarrow> string \<Rightarrow> jsval" where
  "merged rk survivor dup k =
     (if \<not> merges_key k \<or> nullish (get dup k) then get survivor k
      else if k = ''revalidate'' then (if truthy (rk dup) \<and> \<not> truthy (rk survivor) then get dup k else get survivor k)
      else if nullish (get survivor k) then get dup k else get survivor k)"

text \<open>What two copies disagree on: read stamps, or the pass's prose.\<close>

definition disagree :: "(fobj \<Rightarrow> jsval) \<Rightarrow> fobj \<Rightarrow> fobj \<Rightarrow> string \<Rightarrow> bool" where
  "disagree rk survivor dup k =
     (starts_with ''revalidate'' k \<and> \<not> nullish (get dup k)
      \<and> (if k = ''revalidate'' then truthy (rk dup) \<and> truthy (rk survivor) \<and> rk survivor \<noteq> rk dup
         else \<not> nullish (get survivor k) \<and> trim (js_string (get survivor k)) \<noteq> trim (js_string (get dup k))))"

lemma revalidate_merges: "starts_with ''revalidate'' k \<Longrightarrow> merges_key k"
  by (auto simp: merges_key_def KEEPS_ITS_OWN_def starts_with_iff)

lemma merge_field_other: "j \<noteq> fst kv \<Longrightarrow> get (fst (merge_field rk dup kv st)) j = get (fst st) j"
  by (auto simp: merge_field_def Let_def)

lemma merge_field_at:
  assumes "reads_stamp rk" and "get (fst st) k = get survivor k" and "get dup k = v"
  shows "get (fst (merge_field rk dup (k, v) st)) k = merged rk survivor dup k
    \<and> snd (merge_field rk dup (k, v) st) = (snd st \<or> disagree rk survivor dup k)"
proof -
  have rk: "k = ''revalidate'' \<Longrightarrow> rk (fst st) = rk survivor" using assms(1,2) unfolding reads_stamp_def by blast
  show ?thesis
  proof (cases "merges_key k")
    case False
    then have "\<not> starts_with ''revalidate'' k" using revalidate_merges by blast
    with False show ?thesis
      using assms(2) by (auto simp: merge_field_def merged_def disagree_def merges_key_def)
  next
    case True
    then show ?thesis
      using assms(2,3) rk by (cases "k = ''revalidate''")
        (auto simp: merge_field_def merged_def disagree_def merges_key_def Let_def)
  qed
qed

lemma merge_fields:
  assumes "reads_stamp rk" and "distinct (map_keys kvs)" and "\<forall>(k, v) \<in> set kvs. get dup k = v"
    and "\<forall>k \<in> set (map_keys kvs). get (fst st) k = get survivor k"
  shows "(\<forall>k. get (fst (fold (merge_field rk dup) kvs st)) k =
        (if k \<in> set (map_keys kvs) then merged rk survivor dup k else get (fst st) k))
    \<and> snd (fold (merge_field rk dup) kvs st) = (snd st \<or> (\<exists>k \<in> set (map_keys kvs). disagree rk survivor dup k))"
  using assms(2-4)
proof (induction kvs arbitrary: st)
  case Nil
  then show ?case by simp
next
  case (Cons kv kvs)
  obtain k v where kv: "kv = (k, v)" by (cases kv)
  let ?st = "merge_field rk dup (k, v) st"
  have at: "get (fst ?st) k = merged rk survivor dup k" "snd ?st = (snd st \<or> disagree rk survivor dup k)"
    using merge_field_at [OF assms(1), of st k survivor dup v] Cons.prems kv by auto
  have other: "get (fst ?st) j = get (fst st) j" if "j \<noteq> k" for j using merge_field_other [of j "(k, v)"] that by simp
  have k: "k \<notin> set (map_keys kvs)" using Cons.prems(1) kv by simp
  have pre: "\<forall>j \<in> set (map_keys kvs). get (fst ?st) j = get survivor j"
  proof
    fix j assume "j \<in> set (map_keys kvs)"
    with k Cons.prems(3) kv show "get (fst ?st) j = get survivor j" by (metis list.set_intros(2) list.simps(9) other)
  qed
  have "distinct (map_keys kvs)" "\<forall>(k, v) \<in> set kvs. get dup k = v" using Cons.prems by simp_all
  from Cons.IH [OF this pre] at other k show ?case by (simp add: kv)
qed

lemma get_absent: "k \<notin> set (map_keys f) \<Longrightarrow> get f k = JUndef"
  by (simp add: get_def map_of_eq_None_iff [symmetric])

section \<open>What the record of answers holds\<close>

lemma fieldsOf_map_set:
  "\<not> starts_with ''revalidate'' k \<Longrightarrow> fieldsOf (map_set k v f) = fieldsOf f"
  by (induction f) (auto simp: fieldsOf_def)

lemma merge_field_fields:
  assumes "\<not> (starts_with ''revalidate'' (fst kv) \<and> \<not> nullish (snd kv))"
  shows "fieldsOf (fst (merge_field rk dup kv st)) = fieldsOf (fst st)"
proof -
  have "merge_field rk dup kv st = st \<or> merge_field rk dup kv st = (fst st, True)
    \<or> \<not> nullish (snd kv) \<and> merge_field rk dup kv st = (map_set (fst kv) (snd kv) (fst st), snd st)"
    by (auto simp: merge_field_def Let_def)
  then show ?thesis
    by (elim disjE conjE) (use assms in \<open>simp_all add: fieldsOf_map_set\<close>)
qed

lemma merge_no_answers:
  assumes "fieldsOf dup = []"
  shows "fieldsOf (fst (mergeDuplicateFields rk survivor dup)) = fieldsOf survivor"
proof -
  have "\<not> (starts_with ''revalidate'' (fst kv) \<and> \<not> nullish (snd kv))" if "kv \<in> set dup" for kv
    using assms that by (cases kv) (force simp: fieldsOf_def filter_empty_conv)
  then have "fieldsOf (fst (fold (merge_field rk dup) dup st)) = fieldsOf (fst st)" for st
    by (intro fold_invariant [where P = "\<lambda>x. fieldsOf (fst x) = fieldsOf (fst st)"]) (simp_all add: merge_field_fields)
  then show ?thesis by (simp add: mergeDuplicateFields_def)
qed

lemma merge_field_internal:
  assumes "starts_with ''_'' k"
  shows "get (fst (merge_field rk dup kv st)) k = get (fst st) k"
  using assms merge_field_other [of k kv rk dup st] by (cases "k = fst kv") (auto simp: merge_field_def)

lemma merge_internal:
  assumes "starts_with ''_'' k"
  shows "get (fst (mergeDuplicateFields rk survivor dup)) k = get survivor k"
proof -
  have "get (fst (fold (merge_field rk dup) kvs st)) k = get (fst st) k" for kvs st
    by (intro fold_invariant [where P = "\<lambda>x. get (fst x) k = get (fst st) k"]) (simp_all add: merge_field_internal assms)
  then show ?thesis by (simp add: mergeDuplicateFields_def)
qed

lemma note_severity_rest:
  "k \<noteq> ''_correctedByReport'' \<Longrightarrow> get (note_severity es dup n f) k = get f k"
  "fieldsOf (note_severity es dup n f) = fieldsOf f"
  by (simp_all add: note_severity_def Let_def fieldsOf_map_set)

definition fold_copy ::
    "(fobj \<Rightarrow> jsval) \<Rightarrow> (fobj \<Rightarrow> jsval) \<Rightarrow> fobj \<times> string \<Rightarrow> fobj \<times> conflicts \<Rightarrow> fobj \<times> conflicts" where
  "fold_copy rk es dn st = mergeReportDuplicateFields rk es (fst st) (fst dn) (snd dn) (snd st)"

text \<open>What the record should hold: each copy's own answers, under its report.\<close>

definition recorded :: "fobj \<Rightarrow> (fobj \<times> string) list \<Rightarrow> jsval list" where
  "recorded f ds =
     (if fieldsOf f \<noteq> [] then [copy_of (coalesce (get f ''_reportName'') (JStr [])) (fieldsOf f)] else [])
     @ map (\<lambda>(d, n). copy_of (JStr n) (fieldsOf d)) (filter (\<lambda>(d, n). fieldsOf d \<noteq> []) ds)"

definition record_inv :: "fobj \<Rightarrow> (fobj \<times> string) list \<Rightarrow> fobj \<Rightarrow> bool" where
  "record_inv f ds s = (get s ''_reportName'' = get f ''_reportName''
     \<and> (if ds = [] \<or> recorded f ds = [] then \<not> truthy (get s ''_revalidationCopies'') \<and> fieldsOf s = fieldsOf f
        else get s ''_revalidationCopies'' = JArr (recorded f ds)))"

lemma record_step:
  assumes "record_inv f ds s"
  shows "record_inv f (ds @ [dn]) (fst (fold_copy rk es dn (s, cs)))"
proof -
  obtain d n where dn: "dn = (d, n)" by (cases dn)
  define s1 where "s1 = note_severity es d n s"
  have s1: "get s1 ''_revalidationCopies'' = get s ''_revalidationCopies''"
    "get s1 ''_reportName'' = get s ''_reportName''" "fieldsOf s1 = fieldsOf s"
    by (simp_all add: s1_def note_severity_rest)
  obtain s2 copies where s2: "recordRevalidationCopies s1 d (JStr n) = (s2, copies)" by (cases "recordRevalidationCopies s1 d (JStr n)")
  have res: "fst (fold_copy rk es dn (s, cs)) = fst (mergeDuplicateFields rk s2 d)"
    using s2 by (simp add: fold_copy_def mergeReportDuplicateFields_def dn flip: s1_def) (simp add: split_beta)
  have name: "get s2 ''_reportName'' = get f ''_reportName''"
    using assms s2 s1 by (auto simp: record_inv_def recordRevalidationCopies_def Let_def split: if_splits)
  have end_fields: "get (fst (mergeDuplicateFields rk s2 d)) ''_reportName'' = get s2 ''_reportName''"
    "get (fst (mergeDuplicateFields rk s2 d)) ''_revalidationCopies'' = get s2 ''_revalidationCopies''"
    by (simp_all add: merge_internal)
  show ?thesis
  proof (cases "recorded f (ds @ [dn]) = []")
    case True
    then have none: "recorded f ds = []" "fieldsOf d = []" "fieldsOf f = []"
      by (auto simp: recorded_def dn split: if_splits)
    with assms s2 s1 have "s2 = s1" by (auto simp: record_inv_def recordRevalidationCopies_def Let_def)
    with assms none s1 show ?thesis
      by (simp add: record_inv_def res True merge_no_answers merge_internal)
  next
    case False
    have "get s2 ''_revalidationCopies'' = JArr (recorded f (ds @ [dn]))"
    proof (cases "ds = [] \<or> recorded f ds = []")
      case True
      with assms have "\<not> truthy (get s ''_revalidationCopies'')" "fieldsOf s = fieldsOf f"
        "get s ''_reportName'' = get f ''_reportName''" by (simp_all add: record_inv_def)
      moreover from True have "recorded f (ds @ [dn]) = recorded f [dn]" by (auto simp: recorded_def split: if_splits)
      ultimately show ?thesis using False s2 s1
        by (auto simp: recordRevalidationCopies_def Let_def recorded_def dn split: if_splits)
    next
      case False
      with assms have "get s ''_revalidationCopies'' = JArr (recorded f ds)" by (simp add: record_inv_def)
      then show ?thesis using s2 s1
        by (auto simp: recordRevalidationCopies_def Let_def recorded_def dn split: if_splits)
    qed
    with False name show ?thesis by (simp add: record_inv_def res end_fields)
  qed
qed

lemma record_run: "record_inv f ds s \<Longrightarrow> record_inv f (ds @ es') (fst (fold (fold_copy rk es) es' (s, cs)))"
proof (induction es' arbitrary: ds s cs)
  case (Cons dn es')
  obtain s' cs' where st: "fold_copy rk es dn (s, cs) = (s', cs')" by (cases "fold_copy rk es dn (s, cs)")
  with record_step [OF Cons.prems, of dn rk es cs] have "record_inv f (ds @ [dn]) s'" by simp
  from Cons.IH [OF this, of cs'] st show ?case by simp
qed simp

section \<open>The table of answers\<close>

text \<open>A copy gives an answer to a field: a readable stamp, or any prose.\<close>

definition gives :: "(fobj \<Rightarrow> jsval) \<Rightarrow> string list \<Rightarrow> fobj \<Rightarrow> string \<times> jsval \<Rightarrow> string \<Rightarrow> string \<Rightarrow> bool" where
  "gives rk kinds fields kv k n =
     (fst kv = k \<and> \<not> nullish (snd kv) \<and> normalized_answer rk fields k (snd kv) = n
      \<and> (k = ''revalidate'' \<longrightarrow> n \<noteq> [] \<and> n \<in> set kinds))"

definition variants_of :: "answers \<Rightarrow> string \<Rightarrow> (string, string list) jsmap" where
  "variants_of b k = (case map_of b k of None \<Rightarrow> [] | Some vs \<Rightarrow> vs)"

definition reporters :: "answers \<Rightarrow> string \<Rightarrow> string \<Rightarrow> string list" where
  "reporters b k n = (case map_of (variants_of b k) n of None \<Rightarrow> [] | Some rs \<Rightarrow> rs)"

definition table_ok :: "answers \<Rightarrow> bool" where
  "table_ok b = (map_ok b \<and> (\<forall>k. map_ok (variants_of b k))
     \<and> (\<forall>k n. map_of (variants_of b k) n \<noteq> Some []) \<and> (\<forall>k. map_of b k \<noteq> Some []))"

lemma note_answer_eq:
  "note_answer rk kinds r fields kv b =
    (if \<exists>n. gives rk kinds fields kv (fst kv) n
     then map_set (fst kv) (map_set (normalized_answer rk fields (fst kv) (snd kv))
       (set_add (reporters b (fst kv) (normalized_answer rk fields (fst kv) (snd kv))) r) (variants_of b (fst kv))) b
     else b)"
  by (auto simp: note_answer_def gives_def Let_def variants_of_def reporters_def)

lemma map_set_not_Nil [simp]: "map_set k v m \<noteq> []"
  by (cases m) auto

lemma note_answer_ok:
  assumes "table_ok b"
  shows "table_ok (note_answer rk kinds r fields kv b)
    \<and> (\<forall>k n. set (reporters (note_answer rk kinds r fields kv b) k n) =
        set (reporters b k n) \<union> (if gives rk kinds fields kv k n then {r} else {}))"
proof (cases "\<exists>n. gives rk kinds fields kv (fst kv) n")
  case False
  then have "\<not> gives rk kinds fields kv k n" for k n by (auto simp: gives_def)
  with False assms show ?thesis by (simp add: note_answer_eq)
next
  case True
  let ?k = "fst kv" and ?n = "normalized_answer rk fields (fst kv) (snd kv)"
  let ?vs = "map_set ?n (set_add (reporters b ?k ?n) r) (variants_of b ?k)"
  have e: "note_answer rk kinds r fields kv b = map_set ?k ?vs b" using True by (simp add: note_answer_eq)
  have v: "variants_of (map_set ?k ?vs b) k = (if k = ?k then ?vs else variants_of b k)" for k
    by (simp add: variants_of_def)
  have g: "gives rk kinds fields kv k n \<longleftrightarrow> k = ?k \<and> n = ?n" for k n using True by (auto simp: gives_def)
  have "reporters (map_set ?k ?vs b) k n = (if k = ?k \<and> n = ?n then set_add (reporters b ?k ?n) r else reporters b k n)" for k n
    unfolding reporters_def [of "map_set ?k ?vs b"] v by (simp add: reporters_def)
  moreover have "table_ok (map_set ?k ?vs b)"
    using assms unfolding table_ok_def v by (auto simp: set_add_def)
  ultimately show ?thesis unfolding e g by auto
qed

lemma note_answers_ok:
  assumes "table_ok b"
  shows "table_ok (fold (note_answer rk kinds r fields) kvs b)
    \<and> (\<forall>k n. set (reporters (fold (note_answer rk kinds r fields) kvs b) k n) =
        set (reporters b k n) \<union> (if \<exists>kv \<in> set kvs. gives rk kinds fields kv k n then {r} else {}))"
  using assms
proof (induction kvs arbitrary: b)
  case (Cons kv kvs)
  note a = note_answer_ok [OF Cons.prems, of rk kinds r fields kv]
  from Cons.IH [OF conjunct1 [OF a]] conjunct2 [OF a] show ?case by auto
qed simp

lemma note_copies_ok:
  assumes "table_ok b"
  shows "table_ok (fold (note_copy rk kinds) copies b)
    \<and> (\<forall>k n. set (reporters (fold (note_copy rk kinds) copies b) k n) =
        set (reporters b k n) \<union> {r. \<exists>fs. (r, fs) \<in> set copies \<and> (\<exists>kv \<in> set fs. gives rk kinds fs kv k n)})"
  using assms
proof (induction copies arbitrary: b)
  case (Cons c copies)
  obtain r fs where c: "c = (r, fs)" by (cases c)
  have n: "note_copy rk kinds c b = fold (note_answer rk kinds r fs) fs b" by (simp add: note_copy_def c)
  note a = note_answers_ok [OF Cons.prems, of rk kinds r fs fs]
  have ok: "table_ok (note_copy rk kinds c b)" unfolding n by (rule conjunct1 [OF a])
  have one: "set (reporters (note_copy rk kinds c b) k n) =
      set (reporters b k n) \<union> (if \<exists>kv \<in> set fs. gives rk kinds fs kv k n then {r} else {})" for k n
    unfolding n using a by blast
  have split: "{q. \<exists>gs. (q, gs) \<in> set (c # copies) \<and> (\<exists>kv \<in> set gs. gives rk kinds gs kv k n)} =
      (if \<exists>kv \<in> set fs. gives rk kinds fs kv k n then {r} else {})
      \<union> {q. \<exists>gs. (q, gs) \<in> set copies \<and> (\<exists>kv \<in> set gs. gives rk kinds gs kv k n)}" for k n
    by (auto simp: c)
  from Cons.IH [OF ok] show ?case unfolding split fold_simps one Un_assoc by blast
qed simp

lemma two_keys:
  assumes "map_ok m"
  shows "length m > 1 \<longleftrightarrow> (\<exists>a b. a \<noteq> b \<and> map_of m a \<noteq> None \<and> map_of m b \<noteq> None)"
proof -
  have "card (set (map_keys m)) = length m" using distinct_card [of "map_keys m"] assms by (simp add: map_ok_def)
  moreover have "card (set (map_keys m)) > 1 \<longleftrightarrow> (\<exists>a b. a \<noteq> b \<and> a \<in> set (map_keys m) \<and> b \<in> set (map_keys m))"
    by (metis One_nat_def List.finite_set card_le_Suc0_iff_eq not_less)
  ultimately show ?thesis by (simp add: map_of_eq_None_iff)
qed

section \<open>Properties\<close>

text \<open>Folding a duplicate into a finding only fills gaps: what the survivor says of a field
  stays, except that a stamp nobody can read gives way to one that can be read; provenance,
  corrected severity and internal fields are never taken over; and the fold reports a
  conflict exactly when the two copies give different readable stamps or different prose
  of the revalidation pass.\<close>

theorem mergeDuplicateFields_fills_gaps:
  assumes "reads_stamp rk" and "map_ok dup"
  shows "(\<forall>k. get (fst (mergeDuplicateFields rk survivor dup)) k = merged rk survivor dup k)
    \<and> snd (mergeDuplicateFields rk survivor dup) = (\<exists>k. disagree rk survivor dup k)"
proof -
  have "\<forall>(k, v) \<in> set dup. get dup k = v"
    using assms(2) by (auto simp: get_def in_map_of_iff)
  from merge_fields [OF assms(1) _ this, of "(survivor, False)" survivor] assms(2)
  have m: "get (fst (mergeDuplicateFields rk survivor dup)) k =
      (if k \<in> set (map_keys dup) then merged rk survivor dup k else get survivor k)"
    and c: "snd (mergeDuplicateFields rk survivor dup) = (\<exists>k \<in> set (map_keys dup). disagree rk survivor dup k)" for k
    by (simp_all add: mergeDuplicateFields_def map_ok_def)
  have "k \<notin> set (map_keys dup) \<Longrightarrow> merged rk survivor dup k = get survivor k" for k
    by (simp add: merged_def get_absent)
  moreover have "k \<notin> set (map_keys dup) \<Longrightarrow> \<not> disagree rk survivor dup k" for k
    by (simp add: disagree_def get_absent)
  ultimately show ?thesis using m c by metis
qed

text \<open>A pass's answer is never attributed to a report that did not give it: after any number
  of copies has been folded into a finding, the record holds the finding's own answers as
  they were at the start and each copy's own answers, under the report each came from, in
  order, and no entry for a report that answered nothing.\<close>

theorem copies_attributed:
  assumes "\<not> truthy (get survivor ''_revalidationCopies'')" and "ds \<noteq> []"
  shows "elems (get (fst (fold (fold_copy rk es) ds (survivor, cs))) ''_revalidationCopies'') = recorded survivor ds"
proof -
  have "record_inv survivor [] survivor" using assms(1) by (simp add: record_inv_def)
  from record_run [OF this, of ds rk es cs] assms(2) show ?thesis
    by (cases "get (fst (fold (fold_copy rk es) ds (survivor, cs))) ''_revalidationCopies''")
      (auto simp: record_inv_def split: if_splits)
qed

text \<open>The conflict dialog shows exactly the disagreements: a field is listed when two reports'
  copies give it different answers (stamps as they are read, prose without surrounding
  space), and each listed answer names exactly the reports that gave it.\<close>

theorem revalidationDifferences_spec:
  "let out = revalidationDifferences rk kinds copies;
       said = (\<lambda>k n. {r. \<exists>fs. (r, fs) \<in> set copies \<and> (\<exists>kv \<in> set fs. gives rk kinds fs kv k n)})
   in (k \<in> set (map_keys out) \<longleftrightarrow> (\<exists>n n'. n \<noteq> n' \<and> said k n \<noteq> {} \<and> said k n' \<noteq> {}))
    \<and> (k \<in> set (map_keys out) \<longrightarrow> set (reporters out k n) = said k n)"
proof -
  define b where "b = fold (note_copy rk kinds) copies []"
  define said where "said = (\<lambda>k n. {r. \<exists>fs. (r, fs) \<in> set copies \<and> (\<exists>kv \<in> set fs. gives rk kinds fs kv k n)})"
  have "table_ok []" by (simp add: table_ok_def variants_of_def)
  from note_copies_ok [OF this, of rk kinds copies] have ok: "table_ok b" and s: "set (reporters b k n) = said k n" for k n
    by (simp_all add: b_def said_def reporters_def [of "[]"] variants_of_def)
  have has: "map_of (variants_of b k) n \<noteq> None \<longleftrightarrow> said k n \<noteq> {}" for k n
  proof -
    have "map_of (variants_of b k) n \<noteq> Some []" using ok by (simp add: table_ok_def)
    then show ?thesis
      unfolding s [symmetric] reporters_def by (cases "map_of (variants_of b k) n") (simp_all add: neq_Nil_conv)
  qed
  have mb: "map_ok b" and mv: "map_ok (variants_of b k)" for k using ok by (simp_all add: table_ok_def)
  have out: "revalidationDifferences rk kinds copies = filter (\<lambda>(field, variants). length variants > 1) b"
    by (simp add: revalidationDifferences_def b_def)
  have key: "k \<in> set (map_keys (revalidationDifferences rk kinds copies)) \<longleftrightarrow> length (variants_of b k) > 1" for k
  proof -
    have "k \<in> set (map_keys (revalidationDifferences rk kinds copies)) \<longleftrightarrow> (\<exists>vs. map_of b k = Some vs \<and> length vs > 1)"
      unfolding out in_map_of_iff [OF mb, symmetric] by force
    then show ?thesis by (auto simp: variants_of_def split: option.split)
  qed
  have "k \<in> set (map_keys (revalidationDifferences rk kinds copies)) \<Longrightarrow>
      reporters (revalidationDifferences rk kinds copies) k n = reporters b k n" for k n
  proof -
    assume k: "k \<in> set (map_keys (revalidationDifferences rk kinds copies))"
    have mo: "map_ok (revalidationDifferences rk kinds copies)"
      using mb unfolding out map_ok_def by (rule distinct_map_filter)
    from k obtain vs where "(k, vs) \<in> set (revalidationDifferences rk kinds copies)" by auto
    moreover from this have "(k, vs) \<in> set b" by (simp add: out)
    ultimately have "map_of (revalidationDifferences rk kinds copies) k = map_of b k"
      using in_map_of_iff [OF mo] in_map_of_iff [OF mb] by simp
    then show ?thesis by (simp add: reporters_def variants_of_def)
  qed
  then have "k \<in> set (map_keys (revalidationDifferences rk kinds copies)) \<longrightarrow>
      set (reporters (revalidationDifferences rk kinds copies) k n) = said k n"
    using s by metis
  moreover have "k \<in> set (map_keys (revalidationDifferences rk kinds copies)) \<longleftrightarrow>
      (\<exists>n n'. n \<noteq> n' \<and> said k n \<noteq> {} \<and> said k n' \<noteq> {})"
    unfolding key two_keys [OF mv] has ..
  ultimately show ?thesis unfolding Let_def said_def by (intro conjI)
qed

text \<open>Two reports that disagree on a finding's stamp.\<close>

definition sample_kind :: "fobj \<Rightarrow> jsval" where
  "sample_kind f = (case get f ''revalidate'' of JStr s \<Rightarrow>
     if trim s \<in> {''confirmed'', ''refuted''} then JStr (trim s) else JNull | _ \<Rightarrow> JNull)"

definition sample_finding :: fobj where
  "sample_finding = [(''id'', JStr ''f''), (''_reportName'', JStr ''a''), (''revalidate'', JStr ''confirmed'')]"

definition sample_copy :: fobj where
  "sample_copy = [(''id'', JStr ''f''), (''severity'', JStr ''high''), (''revalidate'', JStr '' refuted'')]"

lemma sample_kind_reads: "reads_stamp sample_kind"
  by (simp add: reads_stamp_def sample_kind_def)

theorem mergeDuplicateFields_fills_gaps_witness:
  "snd (mergeDuplicateFields sample_kind sample_finding sample_copy)
    \<and> get (fst (mergeDuplicateFields sample_kind sample_finding sample_copy)) ''severity'' = JStr ''high''"
proof -
  have m: "map_ok sample_copy" by code_simp
  have d: "disagree sample_kind sample_finding sample_copy ''revalidate''"
    "merged sample_kind sample_finding sample_copy ''severity'' = JStr ''high''" by code_simp+
  from mergeDuplicateFields_fills_gaps [OF sample_kind_reads m, of sample_finding] d show ?thesis by auto
qed

theorem copies_attributed_witness:
  "elems (get (fst (fold (fold_copy sample_kind (\<lambda>_. JNull)) [(sample_copy, ''b'')] (sample_finding, []))) ''_revalidationCopies'')
    = [copy_of (JStr ''a'') [(''revalidate'', JStr ''confirmed'')], copy_of (JStr ''b'') [(''revalidate'', JStr '' refuted'')]]"
proof -
  have n: "\<not> truthy (get sample_finding ''_revalidationCopies'')" by code_simp
  have "recorded sample_finding [(sample_copy, ''b'')] =
    [copy_of (JStr ''a'') [(''revalidate'', JStr ''confirmed'')], copy_of (JStr ''b'') [(''revalidate'', JStr '' refuted'')]]"
    by code_simp
  with copies_attributed [OF n, of "[(sample_copy, ''b'')]" sample_kind "\<lambda>_. JNull" "[]"] show ?thesis by simp
qed

theorem revalidationDifferences_spec_witness:
  "set (reporters (revalidationDifferences sample_kind [''confirmed'', ''refuted'']
      [(''a'', [(''revalidate'', JStr ''confirmed'')]), (''b'', [(''revalidate'', JStr ''refuted'')])]) ''revalidate'' ''refuted'') = {''b''}"
proof -
  let ?c = "[(''a'', [(''revalidate'', JStr ''confirmed'')]), (''b'', [(''revalidate'', JStr ''refuted'')])] :: (string \<times> fobj) list"
  let ?k = "[''confirmed'', ''refuted'']"
  have k: "''revalidate'' \<in> set (map_keys (revalidationDifferences sample_kind ?k ?c))" by code_simp
  have g: "\<not> gives sample_kind ?k [(''revalidate'', JStr ''confirmed'')] (''revalidate'', JStr ''confirmed'') ''revalidate'' ''refuted''"
    "gives sample_kind ?k [(''revalidate'', JStr ''refuted'')] (''revalidate'', JStr ''refuted'') ''revalidate'' ''refuted''"
    by code_simp+
  have said: "{r. \<exists>fs. (r, fs) \<in> set ?c \<and> (\<exists>kv \<in> set fs. gives sample_kind ?k fs kv ''revalidate'' ''refuted'')} = {''b''}"
    using g by auto
  have "set (reporters (revalidationDifferences sample_kind ?k ?c) ''revalidate'' ''refuted'') =
      {r. \<exists>fs. (r, fs) \<in> set ?c \<and> (\<exists>kv \<in> set fs. gives sample_kind ?k fs kv ''revalidate'' ''refuted'')}"
    by (rule mp [OF conjunct2 [OF revalidationDifferences_spec [unfolded Let_def]] k])
  then show ?thesis unfolding said .
qed

end
