(* ===== verification/WorkspaceGroups.thy ===== *)
theory WorkspaceGroups
  imports RevalidationSplit FindingDuplicates
begin

text \<open>
  \<^verbatim>\<open>src/common/workspace-groups.js\<close>: the rows of several reports merged into
  one derived view. First the rows that are visible at all, then the unions (App
  identities and overlaps inside one report, then source-only rows across
  reports, then explicit hints), then one merged row per component, with gap
  fills and conflicts. The result carries, beside each row's findings, the key it
  is shown under.
\<close>

section \<open>Rows\<close>

record wreport =
  wr_groups :: "fobj list list"
  wr_fileName :: jsval

record wopts =
  showRevalidation :: bool
  upstreamOnly :: bool
  hideRuledOut :: bool
  wo_merges :: "jsval list list"

record wrow =
  rw_group :: "fobj list"
  rw_source :: "fobj list"
  rw_report :: nat
  rw_name :: string

record wgroup =
  wg_members :: "fobj list"
  wg_key :: jsval

definition rw_hasApp :: "wrow \<Rightarrow> bool" where
  "rw_hasApp r = list_ex isApp (rw_group r)"

definition ruled_out :: "(fobj \<Rightarrow> jsval) \<Rightarrow> fobj \<Rightarrow> bool" where
  "ruled_out revalidateKindOf f = (revalidateKindOf f \<in> {JStr ''refuted'', JStr ''unreachable''})"

definition withoutRevalidation :: "fobj \<Rightarrow> fobj" where
  "withoutRevalidation f = filter (\<lambda>(k, _). \<not> (starts_with ''revalidate'' k \<or> k = ''_revalidationCopies'')) f"

definition visible_members :: "(fobj \<Rightarrow> jsval) \<Rightarrow> wopts \<Rightarrow> fobj list \<Rightarrow> fobj list" where
  "visible_members revalidateKindOf opts original =
     (if upstreamOnly opts
      then map withoutRevalidation (filter (\<lambda>f. truthy (get f ''isUpstream'') \<and> revalidateKindOf f \<noteq> JStr ''revalidation'') original)
      else if showRevalidation opts
      then (if hideRuledOut opts then filter (\<lambda>f. \<not> ruled_out revalidateKindOf f) original else original)
      else map withoutRevalidation (filter (\<lambda>f. revalidateKindOf f \<noteq> JStr ''revalidation'') original))"

definition report_rows :: "(fobj \<Rightarrow> jsval) \<Rightarrow> wopts \<Rightarrow> nat \<times> wreport \<Rightarrow> wrow list" where
  "report_rows revalidateKindOf opts ir =
     concat (map (\<lambda>original. let members = visible_members revalidateKindOf opts original in
       if members = [] then []
       else [\<lparr>rw_group = members, rw_source = original, rw_report = fst ir,
              rw_name = js_string (coalesce (wr_fileName (snd ir)) (JStr []))\<rparr>]) (wr_groups (snd ir)))"

definition workspace_rows :: "(fobj \<Rightarrow> jsval) \<Rightarrow> wopts \<Rightarrow> wreport list \<Rightarrow> wrow list" where
  "workspace_rows revalidateKindOf opts reports =
     concat (map (report_rows revalidateKindOf opts) (enumerate 0 reports))"

definition ruledOutIds :: "(fobj \<Rightarrow> jsval) \<Rightarrow> wreport list \<Rightarrow> jsval list" where
  "ruledOutIds revalidateKindOf reports =
     js_set (map (\<lambda>f. get f ''id'') (filter (\<lambda>f. truthy (get f ''id'') \<and> ruled_out revalidateKindOf f)
       (concat (concat (map wr_groups reports)))))"

section \<open>Unions\<close>

text \<open>The parents, and for each root whether its component holds an App row.\<close>

type_synonym wunion = "(nat \<Rightarrow> nat) \<times> (nat \<Rightarrow> bool)"

definition wunite :: "nat \<times> nat \<Rightarrow> wunion \<Rightarrow> wunion option" where
  "wunite ab st = (case uf_find (fst st) (fst ab) of None \<Rightarrow> None | Some (p1, a) \<Rightarrow>
     (case uf_find p1 (snd ab) of None \<Rightarrow> None | Some (p2, b) \<Rightarrow>
        Some (if a = b then (p2, snd st) else (p2(b := a), (snd st)(a := snd st a \<or> snd st b)))))"

text \<open>Under each id, the rows it occurs in and whether it is an App finding there.\<close>

definition row_occurrences :: "nat \<times> wrow \<Rightarrow> (jsval \<times> nat \<times> bool) list" where
  "row_occurrences ir = map (\<lambda>f. (get f ''id'', fst ir, isApp f))
     (filter (\<lambda>f. truthy (get f ''id'')) (rw_group (snd ir)))"

definition occurrences_by_id :: "wrow list \<Rightarrow> (jsval, (jsval \<times> nat \<times> bool) list) jsmap" where
  "occurrences_by_id rows = filed_by fst (concat (map row_occurrences (enumerate 0 rows)))"

text \<open>First pass, over one id's occurrences: the pairs it unites, in order.\<close>

fun own_pairs :: "wrow list \<Rightarrow> nat option \<Rightarrow> nat list \<Rightarrow> (nat, nat) jsmap \<Rightarrow> (nat \<times> nat) list" where
  "own_pairs rows app [] own = []"
| "own_pairs rows app (i # is) own =
     (case app of None \<Rightarrow> [] | Some a \<Rightarrow> [(a, i)])
     @ (case map_of own (rw_report (rows ! i)) of
          Some j \<Rightarrow> (j, i) # own_pairs rows app is own
        | None \<Rightarrow> own_pairs rows app is (map_set (rw_report (rows ! i)) i own))"

definition first_app :: "(jsval \<times> nat \<times> bool) list \<Rightarrow> nat option" where
  "first_app occ = (case filter (\<lambda>(_, _, app). app) occ of [] \<Rightarrow> None | (_, i, _) # _ \<Rightarrow> Some i)"

definition own_links :: "wrow list \<Rightarrow> (nat \<times> nat) list" where
  "own_links rows = concat (map (\<lambda>occ. own_pairs rows (first_app occ) (map (\<lambda>(_, i, _). i) occ) [])
     (parts (occurrences_by_id rows)))"

text \<open>Second pass: rows of one id whose component has no App row, to the first such row.\<close>

fun source_links :: "nat list \<Rightarrow> nat option \<Rightarrow> wunion \<Rightarrow> wunion option" where
  "source_links [] first st = Some st"
| "source_links (i # is) first st = (case uf_find (fst st) i of None \<Rightarrow> None | Some (p, r) \<Rightarrow>
     let st1 = (p, snd st) in
     if snd st r then source_links is first st1
     else case first of
       None \<Rightarrow> source_links is (Some i) st1
     | Some j \<Rightarrow> Option.bind (wunite (j, i) st1) (source_links is first))"

text \<open>Third pass: the pairs of the explicit hints.\<close>

definition hint_links :: "wrow list \<Rightarrow> jsval list list \<Rightarrow> (nat \<times> nat) list" where
  "hint_links rows merges = concat (map (\<lambda>ids.
     let is = concat (map (\<lambda>i. case map_of (occurrences_by_id rows) i of
           None \<Rightarrow> [] | Some occ \<Rightarrow> map (\<lambda>(_, i, _). i) occ) ids)
     in case is of [] \<Rightarrow> [] | i # js \<Rightarrow> map (Pair i) js) merges)"

definition workspace_unions :: "wrow list \<Rightarrow> jsval list list \<Rightarrow> wunion option" where
  "workspace_unions rows merges =
     Option.bind (option_fold wunite (own_links rows) (\<lambda>i. i, \<lambda>i. i < length rows \<and> rw_hasApp (rows ! i)))
       (\<lambda>st. Option.bind (option_fold (\<lambda>occ. source_links (map (\<lambda>(_, i, _). i) occ) None) (parts (occurrences_by_id rows)) st)
         (option_fold wunite (hint_links rows merges)))"

definition workspace_components :: "wrow list \<Rightarrow> jsval list list \<Rightarrow> nat list list option" where
  "workspace_components rows merges = Option.bind (workspace_unions rows merges) (\<lambda>st.
     map_option (\<lambda>(_, m). parts m) (option_fold (file_root uf_find Some) [0..<length rows] (fst st, [])))"

section \<open>One merged row per component\<close>

text \<open>
  The merged copies by id, and the findings in order of first sight: one with an
  id by its id, one without as it is.
\<close>

record wmerge =
  wm_copies :: "(jsval, fobj) jsmap"
  wm_findings :: "(jsval + fobj) list"
  wm_conflicts :: conflicts

definition fold_member ::
    "(fobj \<Rightarrow> jsval) \<Rightarrow> (fobj \<Rightarrow> jsval) \<Rightarrow> string \<Rightarrow> fobj \<Rightarrow> wmerge \<Rightarrow> wmerge" where
  "fold_member rk es reportName f st =
     (let i = get f ''id'' in
      case (if truthy i then map_of (wm_copies st) i else None) of
        Some copy \<Rightarrow>
          let (copy', cs) = mergeReportDuplicateFields rk es copy f reportName (wm_conflicts st)
          in st\<lparr>wm_copies := map_set i copy' (wm_copies st), wm_conflicts := cs\<rparr>
      | None \<Rightarrow>
          let copy = map_set ''_reportName'' (coalesce (get f ''_reportName'') (JStr reportName)) f
          in if truthy i
             then st\<lparr>wm_copies := map_set i copy (wm_copies st), wm_findings := wm_findings st @ [Inl i]\<rparr>
             else st\<lparr>wm_findings := wm_findings st @ [Inr copy]\<rparr>)"

definition fold_row :: "(fobj \<Rightarrow> jsval) \<Rightarrow> (fobj \<Rightarrow> jsval) \<Rightarrow> wrow \<Rightarrow> wmerge \<Rightarrow> wmerge" where
  "fold_row rk es row = fold (fold_member rk es (rw_name row)) (rw_group row)"

definition merge_rows :: "(fobj \<Rightarrow> jsval) \<Rightarrow> (fobj \<Rightarrow> jsval) \<Rightarrow> wrow list \<Rightarrow> wmerge" where
  "merge_rows rk es component = fold (fold_row rk es) component
     \<lparr>wm_copies = [], wm_findings = [], wm_conflicts = []\<rparr>"

definition canonical_ids :: "jsval list list \<Rightarrow> wrow list \<Rightarrow> (jsval, fobj) jsmap \<Rightarrow> jsval list" where
  "canonical_ids merges component copies =
     js_set (filter (map_has copies) (concat merges)
       @ concat (map (\<lambda>row. if length (rw_group row) > 1
           then filter truthy (map (\<lambda>f. get f ''id'') (rw_group row)) else []) component))"

definition merged_members :: "jsval list list \<Rightarrow> wrow list \<Rightarrow> wmerge \<Rightarrow> fobj list" where
  "merged_members merges component st =
     (let canonical = canonical_ids merges component (wm_copies st);
          the_copy = (\<lambda>i. case map_of (wm_copies st) i of Some c \<Rightarrow> c | None \<Rightarrow> [])
      in map the_copy canonical
         @ concat (map (\<lambda>x. case x of Inl i \<Rightarrow> if i \<in> set canonical then [] else [the_copy i] | Inr f \<Rightarrow> [f]) (wm_findings st)))"

text \<open>\<open>splitOutput\<close>: the rows shown for one merged row.\<close>

definition upstream_parts :: "fobj list list \<Rightarrow> fobj list \<Rightarrow> fobj list list" where
  "upstream_parts partitions members =
     filter (\<lambda>v. v \<noteq> []) (map (\<lambda>partition.
       filter (\<lambda>f. get f ''id'' \<in> (\<lambda>g. get g ''id'') ` set (filter (\<lambda>g. \<not> isApp g \<and> truthy (get g ''id'')) partition)) members)
       partitions)"

definition splitOutput :: "wrow list \<Rightarrow> wgroup \<Rightarrow> bool \<Rightarrow> bool \<Rightarrow> wgroup list option" where
  "splitOutput component shown keepAppLayer upstream =
     (let members = wg_members shown; plain = map (\<lambda>ms. \<lparr>wg_members = ms, wg_key = JUndef\<rparr>) in
      if keepAppLayer then Some [shown]
      else if upstream then
        map_option (\<lambda>partitions.
          if length partitions = 1 then [shown]
          else let projected = upstream_parts partitions members;
                   covered = js_set (map (\<lambda>f. get f ''id'') (concat projected));
                   groupIds = js_set (filter truthy (map (\<lambda>f. get f ''id'') members))
               in if length covered = length groupIds then plain projected else [shown])
          (splitRevalidationInputs (concat (map rw_source component)) None)
      else map_option (\<lambda>ps. if ps = [members] then [shown] else plain ps)
        (splitRevalidationInputs members (Some (filter isApp (concat (map rw_source component))))))"

definition keyed_group :: "bool \<Rightarrow> fobj list \<Rightarrow> wgroup" where
  "keyed_group many members = \<lparr>wg_members = members, wg_key =
     (if many then (case filter isApp members of [] \<Rightarrow> JUndef | f # _ \<Rightarrow> row_key f) else JUndef)\<rparr>"

text \<open>The outer conflicts: a conflict of one id met in several components.\<close>

definition add_conflict :: "jsval \<times> fobj \<times> jsval list \<Rightarrow> conflicts \<Rightarrow> conflicts" where
  "add_conflict c cs = map_set (fst c) (case map_of cs (fst c) of
       Some prev \<Rightarrow> (fst prev, snd prev @ snd (snd c)) | None \<Rightarrow> snd c) cs"

definition component_group ::
    "(fobj \<Rightarrow> jsval) \<Rightarrow> (fobj \<Rightarrow> jsval) \<Rightarrow> wopts \<Rightarrow> bool \<Rightarrow> wrow list \<Rightarrow> wgroup \<times> conflicts" where
  "component_group rk es opts many component =
     (let original = rw_group (hd component); ids = filter truthy (map (\<lambda>f. get f ''id'') original) in
      if length component = 1 \<and> length (js_set ids) = length ids \<and> wo_merges opts = []
      then (keyed_group many original, [])
      else let st = merge_rows rk es component
           in (keyed_group many (merged_members (wo_merges opts) component st), wm_conflicts st))"

definition component_output ::
    "(fobj \<Rightarrow> jsval) \<Rightarrow> (fobj \<Rightarrow> jsval) \<Rightarrow> wopts \<Rightarrow> bool \<Rightarrow> wrow list \<Rightarrow> wgroup list \<times> conflicts \<Rightarrow> (wgroup list \<times> conflicts) option" where
  "component_output rk es opts many component out =
     (let (shown, cs) = component_group rk es opts many component in
      map_option (\<lambda>gs. (fst out @ gs, fold add_conflict cs (snd out)))
        (splitOutput component shown (showRevalidation opts) (upstreamOnly opts)))"

definition mergeReportGroups ::
    "(fobj \<Rightarrow> jsval) \<Rightarrow> (fobj \<Rightarrow> jsval) \<Rightarrow> wopts \<Rightarrow> wreport list \<Rightarrow> (wgroup list \<times> conflicts) option" where
  "mergeReportGroups rk es opts reports =
     (let rows = workspace_rows rk opts reports in
      Option.bind (workspace_components rows (wo_merges opts)) (\<lambda>components.
        option_fold (component_output rk es opts (length reports > 1)) (map (map ((!) rows)) components) ([], [])))"

section \<open>What the unions compute\<close>

text \<open>A row's component holds an App row.\<close>

definition app_in :: "wrow list \<Rightarrow> (nat \<Rightarrow> nat) \<Rightarrow> nat \<Rightarrow> bool" where
  "app_in rows p x = (\<exists>j < length rows. rw_hasApp (rows ! j) \<and> rep p j = rep p x)"

definition union_ok :: "wrow list \<Rightarrow> wunion \<Rightarrow> bool" where
  "union_ok rows st = (forest (fst st) \<and> (\<forall>x. snd st (rep (fst st) x) = app_in rows (fst st) x))"

lemma app_in_cong: "rep p = rep q \<Longrightarrow> app_in rows p = app_in rows q"
  by (simp add: app_in_def fun_eq_iff)

lemma union_ok_start: "union_ok rows (\<lambda>i. i, \<lambda>i. i < length rows \<and> rw_hasApp (rows ! i))"
  by (auto simp: union_ok_def forest_id app_in_def)

lemma union_ok_find:
  assumes "union_ok rows st"
  shows "\<exists>p. uf_find (fst st) i = Some (p, rep (fst st) i) \<and> rep p = rep (fst st) \<and> union_ok rows (p, snd st)"
proof -
  obtain p where p: "uf_find (fst st) i = Some (p, rep (fst st) i)" "forest p" "rep p = rep (fst st)"
    using compressing.find_ok [of "fst st" i] assms unfolding union_ok_def by blast
  then have "union_ok rows (p, snd st)"
    using assms app_in_cong [OF p(3)] by (simp add: union_ok_def)
  with p show ?thesis by blast
qed

lemma wunite_ok:
  assumes "union_ok rows st"
  shows "\<exists>st'. wunite (a, b) st = Some st' \<and> union_ok rows st'
    \<and> rep (fst st') = (\<lambda>x. if rep (fst st) x = rep (fst st) b then rep (fst st) a else rep (fst st) x)"
proof -
  obtain p1 where p1: "uf_find (fst st) a = Some (p1, rep (fst st) a)" "rep p1 = rep (fst st)" "union_ok rows (p1, snd st)"
    using union_ok_find [OF assms] by blast
  obtain p2 where p2: "uf_find p1 b = Some (p2, rep (fst st) b)" "rep p2 = rep (fst st)" "union_ok rows (p2, snd st)"
    using union_ok_find [OF p1(3), of b] p1(2) by auto
  let ?a = "rep (fst st) a" and ?b = "rep (fst st) b"
  show ?thesis
  proof (cases "?a = ?b")
    case True
    then have "wunite (a, b) st = Some (p2, snd st)" by (simp add: wunite_def p1(1) p2(1))
    moreover have "rep p2 = (\<lambda>x. if rep (fst st) x = ?b then ?a else rep (fst st) x)" unfolding p2(2) using True by auto
    ultimately show ?thesis using p2(3) by auto
  next
    case False
    let ?p = "p2(?b := ?a)" and ?h = "(snd st)(?a := snd st ?a \<or> snd st ?b)"
    have u: "wunite (a, b) st = Some (?p, ?h)" using False by (simp add: wunite_def p1(1) p2(1))
    have f: "forest p2" using p2(3) by (simp add: union_ok_def)
    have fx: "p2 ?a = ?a" "p2 ?b = ?b"
      using rep_fix [OF f, of a] rep_fix [OF f, of b] by (simp_all add: p2(2))
    from link [OF f fx False] have fp: "forest ?p"
      and r: "rep ?p = (\<lambda>x. if rep (fst st) x = ?b then ?a else rep (fst st) x)" by (auto simp: p2(2))
    define A where "A y = (\<exists>j < length rows. rw_hasApp (rows ! j) \<and> rep (fst st) j = y)" for y
    have h: "snd st (rep (fst st) x) = A (rep (fst st) x)" for x
      using assms by (simp add: union_ok_def app_in_def A_def)
    have "app_in rows ?p x = ?h (rep ?p x)" for x
    proof (cases "rep (fst st) x \<in> {?a, ?b}")
      case True
      then have "rep ?p x = ?a" unfolding r by auto
      moreover have "app_in rows ?p x = (A ?a \<or> A ?b)" unfolding app_in_def \<open>rep ?p x = ?a\<close> unfolding r A_def by auto
      ultimately show ?thesis using h by simp
    next
      case False
      then have same: "rep ?p x = rep (fst st) x" unfolding r by auto
      have "(rep ?p j = rep (fst st) x) = (rep (fst st) j = rep (fst st) x)" for j
        using False unfolding r by (cases "rep (fst st) j = ?b") auto
      then have "app_in rows ?p x = A (rep (fst st) x)" unfolding app_in_def A_def same by (simp only:)
      with same show ?thesis using h False by simp
    qed
    with fp have "union_ok rows (?p, ?h)" by (simp add: union_ok_def)
    with u r show ?thesis by auto
  qed
qed

lemma wunite_connected:
  assumes "union_ok rows st" and "same_set (fst st) = connected E"
  shows "\<exists>st'. wunite (a, b) st = Some st' \<and> union_ok rows st' \<and> same_set (fst st') = connected (insert (a, b) E)
    \<and> rep (fst st') = (\<lambda>x. if rep (fst st) x = rep (fst st) b then rep (fst st) a else rep (fst st) x)"
proof -
  obtain st' where st': "wunite (a, b) st = Some st'" "union_ok rows st'"
    "rep (fst st') = (\<lambda>x. if rep (fst st) x = rep (fst st) b then rep (fst st) a else rep (fst st) x)"
    using wunite_ok [OF assms(1)] by blast
  have f: "forest (fst st)" using assms(1) by (simp add: union_ok_def)
  obtain q where q: "unite uf_find a b (fst st) = Some q"
    "rep q = (\<lambda>x. if rep (fst st) x = rep (fst st) b then rep (fst st) a else rep (fst st) x)"
    using compressing.unite_ok [OF f, of a b] by blast
  with compressing.unite_connected [OF f assms(2), of a b] have "same_set q = connected (insert (a, b) E)" by simp
  with st' q same_set_rep [of "fst st'" q] show ?thesis by simp
qed

lemma wunite_all:
  assumes "union_ok rows st" and "same_set (fst st) = connected E"
  shows "\<exists>st'. option_fold wunite es st = Some st' \<and> union_ok rows st' \<and> same_set (fst st') = connected (E \<union> set es)"
  using assms
proof (induction es arbitrary: st E)
  case (Cons e es)
  obtain a b where e: "e = (a, b)" by (cases e)
  obtain st1 where st1: "wunite e st = Some st1" "union_ok rows st1" "same_set (fst st1) = connected (insert e E)"
    using wunite_connected [OF Cons.prems, of a b] e by blast
  from Cons.IH [OF st1(2,3)] st1(1) show ?case by simp
qed simp

text \<open>The second pass, seen from the partition \<open>q\<close> the first one left.\<close>

definition keeps_apps :: "wrow list \<Rightarrow> (nat \<Rightarrow> nat) \<Rightarrow> (nat \<Rightarrow> nat) \<Rightarrow> bool" where
  "keeps_apps rows q p = ((\<forall>x y. rep q x = rep q y \<longrightarrow> rep p x = rep p y)
     \<and> (\<forall>x y. app_in rows q x \<longrightarrow> rep p x = rep p y \<longrightarrow> rep q x = rep q y))"

lemma keeps_apps_refl: "keeps_apps rows q q"
  by (simp add: keeps_apps_def)

lemma keeps_apps_app:
  assumes "keeps_apps rows q p"
  shows "app_in rows p x = app_in rows q x"
proof
  assume "app_in rows p x"
  then obtain j where j: "j < length rows" "rw_hasApp (rows ! j)" "rep p j = rep p x" by (auto simp: app_in_def)
  then have "app_in rows q j" by (auto simp: app_in_def)
  with assms j(3) have "rep q j = rep q x" unfolding keeps_apps_def by blast
  with j show "app_in rows q x" by (auto simp: app_in_def)
next
  assume "app_in rows q x"
  then obtain j where "j < length rows" "rw_hasApp (rows ! j)" "rep q j = rep q x" by (auto simp: app_in_def)
  moreover from this assms have "rep p j = rep p x" unfolding keeps_apps_def by blast
  ultimately show "app_in rows p x" by (auto simp: app_in_def)
qed

lemma keeps_apps_unite:
  assumes k: "keeps_apps rows q p" and a: "\<not> app_in rows q a" and b: "\<not> app_in rows q b"
    and r: "rep p' = (\<lambda>x. if rep p x = rep p b then rep p a else rep p x)"
  shows "keeps_apps rows q p'"
proof -
  have na: "rep p x \<noteq> rep p a" "rep p x \<noteq> rep p b" if "app_in rows q x" for x
    using that a b k unfolding keeps_apps_app [OF k, symmetric] by (auto simp: app_in_def)
  have "rep q x = rep q y" if "app_in rows q x" "rep p' x = rep p' y" for x y
  proof -
    have "rep p x = rep p y" using that(2) na [OF that(1)] unfolding r by (auto split: if_splits)
    with that(1) k show ?thesis unfolding keeps_apps_def by blast
  qed
  moreover have "rep p' x = rep p' y" if "rep q x = rep q y" for x y
  proof -
    have "rep p x = rep p y" using k that unfolding keeps_apps_def by blast
    then show ?thesis unfolding r by simp
  qed
  ultimately show ?thesis unfolding keeps_apps_def by blast
qed

fun first_links :: "nat option \<Rightarrow> nat list \<Rightarrow> (nat \<times> nat) set" where
  "first_links (Some j) xs = Pair j ` set xs"
| "first_links None [] = {}"
| "first_links None (x # xs) = Pair x ` set xs"

lemma source_links_ok:
  assumes "union_ok rows st" and "keeps_apps rows q (fst st)" and "same_set (fst st) = connected E"
    and "\<forall>j. first = Some j \<longrightarrow> \<not> app_in rows q j"
  shows "\<exists>st'. source_links is first st = Some st' \<and> union_ok rows st' \<and> keeps_apps rows q (fst st')
    \<and> same_set (fst st') = connected (E \<union> first_links first (filter (\<lambda>i. \<not> app_in rows q i) is))"
  using assms
proof (induction "is" arbitrary: st E first)
  case Nil
  then show ?case by (cases first) simp_all
next
  case (Cons i "is")
  obtain p where p: "uf_find (fst st) i = Some (p, rep (fst st) i)" "rep p = rep (fst st)" "union_ok rows (p, snd st)"
    using union_ok_find [OF Cons.prems(1)] by blast
  have kp: "keeps_apps rows q p" using Cons.prems(2) unfolding keeps_apps_def p(2) .
  have sp: "same_set p = connected E" using Cons.prems(3) same_set_rep [OF p(2)] by simp
  have h: "snd st (rep (fst st) i) = app_in rows q i"
    using Cons.prems(1) keeps_apps_app [OF Cons.prems(2)] by (simp add: union_ok_def)
  show ?case
  proof (cases "app_in rows q i")
    case True
    then have "source_links (i # is) first st = source_links is first (p, snd st)" by (simp add: p(1) h)
    with Cons.IH [OF p(3) _ _ Cons.prems(4), of E] kp sp True show ?thesis by simp
  next
    case False
    show ?thesis
    proof (cases first)
      case None
      then have "source_links (i # is) first st = source_links is (Some i) (p, snd st)" using False by (simp add: p(1) h)
      with Cons.IH [OF p(3), of E "Some i"] kp sp False None show ?thesis by simp
    next
      case (Some j)
      then have j: "\<not> app_in rows q j" using Cons.prems(4) by simp
      obtain st' where st': "wunite (j, i) (p, snd st) = Some st'" "union_ok rows st'"
        "same_set (fst st') = connected (insert (j, i) E)"
        "rep (fst st') = (\<lambda>x. if rep p x = rep p i then rep p j else rep p x)"
        using wunite_connected [OF p(3), of E j i, unfolded fst_conv, OF sp] by blast
      have "source_links (i # is) first st = source_links is first st'" using False Some by (simp add: p(1) h st'(1))
      with Cons.IH [OF st'(2) keeps_apps_unite [OF kp j False st'(4)] st'(3) Cons.prems(4)] Some False
      show ?thesis by simp
    qed
  qed
qed

lemma source_pass:
  assumes "union_ok rows st" and "keeps_apps rows q (fst st)" and "same_set (fst st) = connected E"
  shows "\<exists>st'. option_fold (\<lambda>occ. source_links (g occ) None) os st = Some st' \<and> union_ok rows st'
    \<and> keeps_apps rows q (fst st')
    \<and> same_set (fst st') = connected (E \<union> (\<Union>occ \<in> set os. first_links None (filter (\<lambda>i. \<not> app_in rows q i) (g occ))))"
  using assms
proof (induction os arbitrary: st E)
  case (Cons occ os)
  obtain st1 where st1: "source_links (g occ) None st = Some st1" "union_ok rows st1" "keeps_apps rows q (fst st1)"
    "same_set (fst st1) = connected (E \<union> first_links None (filter (\<lambda>i. \<not> app_in rows q i) (g occ)))"
    using source_links_ok [OF Cons.prems, of None "g occ"] by blast
  from Cons.IH [OF st1(2-4)] st1(1) show ?case by (simp add: Un_assoc)
qed simp

section \<open>The links, without the walk that finds them\<close>

definition occurs :: "wrow list \<Rightarrow> jsval \<Rightarrow> nat \<Rightarrow> bool" where
  "occurs rows v i = (i < length rows \<and> truthy v \<and> (\<exists>f \<in> set (rw_group (rows ! i)). get f ''id'' = v))"

definition app_id :: "wrow list \<Rightarrow> jsval \<Rightarrow> bool" where
  "app_id rows v = (\<exists>k < length rows. \<exists>f \<in> set (rw_group (rows ! k)). get f ''id'' = v \<and> isApp f)"

text \<open>Rows with a finding in common, when it is an App finding somewhere or both are of one report.\<close>

definition own_related :: "wrow list \<Rightarrow> (nat \<times> nat) set" where
  "own_related rows = {(i, j). \<exists>v. occurs rows v i \<and> occurs rows v j
     \<and> (app_id rows v \<or> rw_report (rows ! i) = rw_report (rows ! j))}"

definition own_app :: "wrow list \<Rightarrow> nat \<Rightarrow> bool" where
  "own_app rows i = (\<exists>j < length rows. rw_hasApp (rows ! j) \<and> (j, i) \<in> connected (own_related rows))"

text \<open>Rows with a finding in common, neither of them tied to an App row.\<close>

definition source_related :: "wrow list \<Rightarrow> (nat \<times> nat) set" where
  "source_related rows = {(i, j). \<exists>v. occurs rows v i \<and> occurs rows v j \<and> \<not> own_app rows i \<and> \<not> own_app rows j}"

definition occ_rows :: "(jsval \<times> nat \<times> bool) list \<Rightarrow> nat list" where
  "occ_rows occ = map (\<lambda>(_, i, _). i) occ"

lemma connected_same: "E \<subseteq> connected F \<Longrightarrow> F \<subseteq> connected E \<Longrightarrow> connected E = connected F"
proof -
  have "E \<subseteq> connected F \<Longrightarrow> connected E \<subseteq> connected F" for E F :: "('a \<times> 'a) set"
    by (erule connected_least) (auto simp: refl_on_def sym_def trans_def connected_refl intro: connected_sym connected_trans)
  then show "E \<subseteq> connected F \<Longrightarrow> F \<subseteq> connected E \<Longrightarrow> connected E = connected F" by blast
qed

lemma connected_base_sub: "E \<subseteq> connected E"
  by (auto intro: connected_base)

lemma connected_Un_cong: "connected E = connected F \<Longrightarrow> connected (E \<union> G) = connected (F \<union> G)"
  by (rule connected_same) (metis Un_least connected_base_sub connected_mono dual_order.trans sup_ge1 sup_ge2)+

lemma all_occurrences:
  "(v, i, app) \<in> set (concat (map row_occurrences (enumerate 0 rows))) \<longleftrightarrow>
    i < length rows \<and> truthy v \<and> (\<exists>f \<in> set (rw_group (rows ! i)). get f ''id'' = v \<and> isApp f = app)"
proof -
  have one: "(v, i, app) \<in> set (row_occurrences ir) \<longleftrightarrow>
      i = fst ir \<and> truthy v \<and> (\<exists>f \<in> set (rw_group (snd ir)). get f ''id'' = v \<and> isApp f = app)" for ir
    by (auto simp: row_occurrences_def)
  have enum: "(\<exists>ir \<in> set (enumerate 0 rows). i = fst ir \<and> P (snd ir)) \<longleftrightarrow> i < length rows \<and> P (rows ! i)" for P
    by (auto simp: in_set_enumerate_eq intro!: bexI [of _ "(i, rows ! i)"])
  have "(v, i, app) \<in> set (concat (map row_occurrences (enumerate 0 rows))) \<longleftrightarrow>
      (\<exists>ir \<in> set (enumerate 0 rows). i = fst ir \<and> (truthy v \<and> (\<exists>f \<in> set (rw_group (snd ir)). get f ''id'' = v \<and> isApp f = app)))"
    unfolding set_concat set_map UN_iff image_image bex_simps one by blast
  also note enum [of "\<lambda>r. truthy v \<and> (\<exists>f \<in> set (rw_group r). get f ''id'' = v \<and> isApp f = app)"]
  finally show ?thesis .
qed

lemma occ_rows_mem: "i \<in> set (occ_rows occ) \<longleftrightarrow> (\<exists>w app. (w, i, app) \<in> set occ)"
  by (force simp: occ_rows_def)

lemma occ_parts:
  assumes "occ \<in> set (parts (occurrences_by_id rows))"
  shows "\<exists>v. (\<forall>i. i \<in> set (occ_rows occ) \<longleftrightarrow> occurs rows v i)
    \<and> (case first_app occ of None \<Rightarrow> \<not> app_id rows v | Some a \<Rightarrow> occurs rows v a \<and> app_id rows v)"
proof -
  obtain v where v: "v \<in> fst ` set (concat (map row_occurrences (enumerate 0 rows)))"
    and occ: "occ = filter (\<lambda>x. fst x = v) (concat (map row_occurrences (enumerate 0 rows)))"
    using assms unfolding occurrences_by_id_def parts_filed_by by auto
  have mem: "(w, i, app) \<in> set occ \<longleftrightarrow> w = v \<and> i < length rows \<and> truthy v
      \<and> (\<exists>f \<in> set (rw_group (rows ! i)). get f ''id'' = v \<and> isApp f = app)" for w i app
    unfolding occ using all_occurrences [of w i app rows] by auto
  have tv: "truthy v" using v all_occurrences by (metis imageE prod.collapse)
  have "i \<in> set (occ_rows occ) \<longleftrightarrow> occurs rows v i" for i
    unfolding occ_rows_mem mem occurs_def using tv by blast
  moreover have "case first_app occ of None \<Rightarrow> \<not> app_id rows v | Some a \<Rightarrow> occurs rows v a \<and> app_id rows v"
  proof (cases "filter (\<lambda>(_, _, app). app) occ")
    case Nil
    then have "\<not> app_id rows v" using mem tv unfolding app_id_def filter_empty_conv by fastforce
    with Nil show ?thesis by (simp add: first_app_def)
  next
    case (Cons x xs)
    obtain w a app where x: "x = (w, a, app)" by (cases x)
    from Cons have "x \<in> set (filter (\<lambda>(_, _, app). app) occ)" by simp
    with x mem have "occurs rows v a" "app_id rows v" by (auto simp: occurs_def app_id_def)
    with Cons x show ?thesis by (simp add: first_app_def)
  qed
  ultimately show ?thesis by blast
qed

lemma occ_exists:
  assumes "occurs rows v i"
  shows "\<exists>occ \<in> set (parts (occurrences_by_id rows)). (\<forall>j. occurs rows v j \<longleftrightarrow> j \<in> set (occ_rows occ))
    \<and> (app_id rows v \<longleftrightarrow> first_app occ \<noteq> None)"
proof -
  let ?xs = "concat (map row_occurrences (enumerate 0 rows))"
  obtain app where m: "(v, i, app) \<in> set ?xs" using assms all_occurrences unfolding occurs_def by blast
  let ?occ = "filter (\<lambda>x. fst x = v) ?xs"
  have "v \<in> fst ` set ?xs" using m by force
  then have in_parts: "?occ \<in> set (parts (occurrences_by_id rows))"
    unfolding occurrences_by_id_def parts_filed_by by (simp only: set_map set_js_set) blast
  from occ_parts [OF this] obtain w where w: "\<forall>j. j \<in> set (occ_rows ?occ) \<longleftrightarrow> occurs rows w j"
    "case first_app ?occ of None \<Rightarrow> \<not> app_id rows w | Some a \<Rightarrow> occurs rows w a \<and> app_id rows w" by blast
  have tv: "truthy v" using assms by (simp add: occurs_def)
  have "j \<in> set (occ_rows ?occ) \<longleftrightarrow> occurs rows v j" for j
  proof -
    have "(w, j, app) \<in> set ?occ \<longleftrightarrow> w = v \<and> j < length rows \<and> truthy v
        \<and> (\<exists>f \<in> set (rw_group (rows ! j)). get f ''id'' = v \<and> isApp f = app)" for w app
      unfolding set_filter mem_Collect_eq fst_conv using all_occurrences [of w j app rows] by blast
    then show ?thesis unfolding occ_rows_mem occurs_def using tv by blast
  qed
  moreover have "app_id rows v \<longleftrightarrow> first_app ?occ \<noteq> None"
  proof -
    have "first_app ?occ \<noteq> None \<longleftrightarrow> (\<exists>j. (v, j, True) \<in> set ?xs)"
    proof -
      have "filter (\<lambda>(_, _, app). app) ?occ \<noteq> [] \<longleftrightarrow> (\<exists>j. (v, j, True) \<in> set ?xs)"
        unfolding filter_empty_conv set_filter by (auto simp del: set_concat)
      then show ?thesis by (auto simp: first_app_def split: list.splits prod.splits)
    qed
    also have "\<dots> \<longleftrightarrow> app_id rows v" unfolding all_occurrences app_id_def using tv by blast
    finally show ?thesis by simp
  qed
  ultimately show ?thesis using in_parts by blast
qed

text \<open>Over one id, the first pass unites exactly what is related through that id.\<close>

lemma own_pairs_sub:
  assumes "(x, y) \<in> set (own_pairs rows app is own)" and "\<forall>r j. map_of own r = Some j \<longrightarrow> rw_report (rows ! j) = r"
  shows "(app = Some x \<and> y \<in> set is)
    \<or> (rw_report (rows ! x) = rw_report (rows ! y) \<and> x \<in> set is \<union> ran (map_of own) \<and> y \<in> set is)"
  using assms
proof (induction "is" arbitrary: own)
  case (Cons i "is")
  consider "app = Some x" "y = i"
    | "map_of own (rw_report (rows ! i)) = Some x" "y = i"
    | "(x, y) \<in> set (own_pairs rows app is own)"
    | "map_of own (rw_report (rows ! i)) = None" "(x, y) \<in> set (own_pairs rows app is (map_set (rw_report (rows ! i)) i own))"
    using Cons.prems(1) by (auto split: option.splits)
  then show ?case
  proof cases
    case 2
    then have "x \<in> ran (map_of own)" by (auto simp: ran_def)
    with 2 Cons.prems(2) show ?thesis by auto
  next
    case 3
    from Cons.IH [OF this Cons.prems(2)] show ?thesis by auto
  next
    case 4
    let ?own = "map_set (rw_report (rows ! i)) i own"
    have "\<forall>r j. map_of ?own r = Some j \<longrightarrow> rw_report (rows ! j) = r" using Cons.prems(2) by simp
    moreover have "ran (map_of ?own) = insert i (ran (map_of own))"
      unfolding map_of_map_set by (rule ran_map_upd) (rule 4(1))
    ultimately show ?thesis using Cons.IH [OF 4(2)] by (simp only: list.set insert_iff Un_iff) blast
  qed simp
qed simp

lemma own_pairs_app: "app = Some a \<Longrightarrow> i \<in> set is \<Longrightarrow> (a, i) \<in> set (own_pairs rows app is own)"
  by (induction "is" arbitrary: own) (auto split: option.split)

lemma own_pairs_leader:
  "\<exists>leader. (\<forall>i \<in> set is. (leader (rw_report (rows ! i)), i) \<in> connected (set (own_pairs rows app is own)))
    \<and> (\<forall>r j. map_of own r = Some j \<longrightarrow> leader r = j)"
proof (induction "is" arbitrary: own)
  case Nil
  show ?case by (rule exI [of _ "\<lambda>r. the (map_of own r)"]) simp
next
  case (Cons i "is")
  let ?r = "rw_report (rows ! i)"
  show ?case
  proof (cases "map_of own ?r")
    case None
    from Cons.IH [of "map_set ?r i own"] obtain leader where
      l: "\<forall>j \<in> set is. (leader (rw_report (rows ! j)), j) \<in> connected (set (own_pairs rows app is (map_set ?r i own)))"
      "\<forall>r j. map_of (map_set ?r i own) r = Some j \<longrightarrow> leader r = j" by blast
    have "leader ?r = i" using l(2) by simp
    moreover have "connected (set (own_pairs rows app is (map_set ?r i own))) \<subseteq> connected (set (own_pairs rows app (i # is) own))"
      using None by (intro connected_mono) auto
    moreover have "\<forall>r j. map_of own r = Some j \<longrightarrow> leader r = j" using l(2) None by (metis fun_upd_other map_of_map_set option.distinct(1))
    ultimately show ?thesis using l(1) connected_refl by (intro exI [of _ leader]) auto
  next
    case (Some j)
    from Cons.IH [of own] obtain leader where
      l: "\<forall>j \<in> set is. (leader (rw_report (rows ! j)), j) \<in> connected (set (own_pairs rows app is own))"
      "\<forall>r j. map_of own r = Some j \<longrightarrow> leader r = j" by blast
    have sub: "connected (set (own_pairs rows app is own)) \<subseteq> connected (set (own_pairs rows app (i # is) own))"
      using Some by (intro connected_mono) auto
    have "(j, i) \<in> connected (set (own_pairs rows app (i # is) own))" using Some by (intro connected_base) simp
    then show ?thesis using l sub Some by (intro exI [of _ leader]) auto
  qed
qed

lemma connected_own_links: "connected (set (own_links rows)) = connected (own_related rows)"
proof (rule connected_same)
  have "(x, y) \<in> own_related rows"
    if occ: "occ \<in> set (parts (occurrences_by_id rows))" and xy: "(x, y) \<in> set (own_pairs rows (first_app occ) (occ_rows occ) [])"
    for occ x y
  proof -
    from occ_parts [OF occ] obtain v where v: "\<forall>i. i \<in> set (occ_rows occ) \<longleftrightarrow> occurs rows v i"
      "case first_app occ of None \<Rightarrow> \<not> app_id rows v | Some a \<Rightarrow> occurs rows v a \<and> app_id rows v" by blast
    have "(first_app occ = Some x \<and> y \<in> set (occ_rows occ))
        \<or> (rw_report (rows ! x) = rw_report (rows ! y) \<and> x \<in> set (occ_rows occ) \<and> y \<in> set (occ_rows occ))"
      using own_pairs_sub [OF xy] by simp
    with v show ?thesis by (auto simp: own_related_def)
  qed
  then have "set (own_links rows) \<subseteq> own_related rows" by (auto simp: own_links_def occ_rows_def)
  then show "set (own_links rows) \<subseteq> connected (own_related rows)" using connected_base_sub by blast
  show "own_related rows \<subseteq> connected (set (own_links rows))"
  proof
    fix e assume "e \<in> own_related rows"
    then obtain i j v where e: "e = (i, j)" and ij: "occurs rows v i" "occurs rows v j"
      and c: "app_id rows v \<or> rw_report (rows ! i) = rw_report (rows ! j)" by (auto simp: own_related_def)
    from occ_exists [OF ij(1)] obtain occ where occ: "occ \<in> set (parts (occurrences_by_id rows))"
      "\<forall>j. occurs rows v j \<longleftrightarrow> j \<in> set (occ_rows occ)" "app_id rows v \<longleftrightarrow> first_app occ \<noteq> None" by blast
    let ?E = "set (own_pairs rows (first_app occ) (occ_rows occ) [])"
    have sub: "connected ?E \<subseteq> connected (set (own_links rows))"
      using occ(1) by (intro connected_mono) (auto simp: own_links_def occ_rows_def)
    have "(i, j) \<in> connected ?E"
    proof (cases "app_id rows v")
      case True
      with occ(3) obtain a where a: "first_app occ = Some a" by auto
      with ij occ(2) have "(a, i) \<in> connected ?E" "(a, j) \<in> connected ?E" by (simp_all add: own_pairs_app connected_base)
      then show ?thesis by (rule connected_trans [OF connected_sym])
    next
      case False
      with c have same: "rw_report (rows ! i) = rw_report (rows ! j)" by simp
      obtain leader where l: "\<forall>i \<in> set (occ_rows occ). (leader (rw_report (rows ! i)), i) \<in> connected ?E"
        using own_pairs_leader by blast
      have "i \<in> set (occ_rows occ)" "j \<in> set (occ_rows occ)" using ij occ(2) by simp_all
      then have "(leader (rw_report (rows ! j)), i) \<in> connected ?E" "(leader (rw_report (rows ! j)), j) \<in> connected ?E"
        using l same by (metis, blast)
      then show ?thesis by (rule connected_trans [OF connected_sym])
    qed
    with sub e show "e \<in> connected (set (own_links rows))" by blast
  qed
qed

lemma first_links_connected:
  "connected (first_links None xs) = connected {(x, y). x \<in> set xs \<and> y \<in> set xs}"
proof (rule connected_same)
  show "first_links None xs \<subseteq> connected {(x, y). x \<in> set xs \<and> y \<in> set xs}"
    by (cases xs) (auto intro!: connected_base)
  have "(hd xs, x) \<in> connected (first_links None xs)" if "x \<in> set xs" for x
    using that by (cases xs) (auto intro: connected_base connected_refl)
  note hd = this
  show "{(x, y). x \<in> set xs \<and> y \<in> set xs} \<subseteq> connected (first_links None xs)"
  proof clarify
    fix x y assume "x \<in> set xs" "y \<in> set xs"
    then show "(x, y) \<in> connected (first_links None xs)"
      by (intro connected_trans [OF connected_sym [OF hd] hd])
  qed
qed

lemma connected_UN_cong:
  assumes "\<And>x. x \<in> A \<Longrightarrow> connected (f x) = connected (g x)"
  shows "connected (E \<union> (\<Union>x \<in> A. f x)) = connected (E \<union> (\<Union>x \<in> A. g x))"
proof -
  have sub: "E \<union> (\<Union>x \<in> A. f x) \<subseteq> connected (E \<union> (\<Union>x \<in> A. g x))"
    if fg: "\<And>x. x \<in> A \<Longrightarrow> connected (f x) = connected (g x)" for f g :: "'a \<Rightarrow> ('b \<times> 'b) set"
  proof -
    have "f x \<subseteq> connected (E \<union> (\<Union>x \<in> A. g x))" if "x \<in> A" for x
    proof -
      have "f x \<subseteq> connected (g x)" using fg [OF that] connected_base_sub by blast
      moreover have "connected (g x) \<subseteq> connected (E \<union> (\<Union>x \<in> A. g x))" using that by (intro connected_mono) blast
      ultimately show ?thesis by blast
    qed
    moreover have "E \<subseteq> connected (E \<union> (\<Union>x \<in> A. g x))" using connected_base_sub by blast
    ultimately show ?thesis by blast
  qed
  show ?thesis using sub [of f g] sub [of g f] assms by (intro connected_same) simp_all
qed

lemma workspace_unions_ok:
  "\<exists>st. workspace_unions rows merges = Some st \<and> union_ok rows st
    \<and> same_set (fst st) = connected (own_related rows \<union> source_related rows \<union> set (hint_links rows merges))
    \<and> (merges = [] \<longrightarrow> (\<forall>i j. own_app rows i \<longrightarrow> (i, j) \<in> same_set (fst st) \<longrightarrow> (i, j) \<in> connected (own_related rows)))"
proof -
  obtain s1 where s1: "option_fold wunite (own_links rows) (\<lambda>i. i, \<lambda>i. i < length rows \<and> rw_hasApp (rows ! i)) = Some s1"
    "union_ok rows s1" "same_set (fst s1) = connected ({} \<union> set (own_links rows))"
    using wunite_all [OF union_ok_start, of rows "{}" "own_links rows", unfolded fst_conv, OF same_set_start] by blast
  have own: "same_set (fst s1) = connected (own_related rows)" using s1(3) connected_own_links by simp
  have app: "app_in rows (fst s1) i = own_app rows i" for i
    unfolding app_in_def own_app_def own [symmetric] same_set_def by simp
  let ?ns = "\<lambda>occ. filter (\<lambda>i. \<not> app_in rows (fst s1) i) (occ_rows occ)"
  obtain s2 where s2: "option_fold (\<lambda>occ. source_links (occ_rows occ) None) (parts (occurrences_by_id rows)) s1 = Some s2"
    "union_ok rows s2" "keeps_apps rows (fst s1) (fst s2)"
    "same_set (fst s2) = connected (own_related rows \<union> (\<Union>occ \<in> set (parts (occurrences_by_id rows)). first_links None (?ns occ)))"
    using source_pass [OF s1(2) keeps_apps_refl own, of occ_rows] by blast
  have "(\<Union>occ \<in> set (parts (occurrences_by_id rows)). {(x, y). x \<in> set (?ns occ) \<and> y \<in> set (?ns occ)}) = source_related rows"
  proof (intro equalityI subsetI)
    fix e assume "e \<in> (\<Union>occ \<in> set (parts (occurrences_by_id rows)). {(x, y). x \<in> set (?ns occ) \<and> y \<in> set (?ns occ)})"
    then obtain occ x y where o: "occ \<in> set (parts (occurrences_by_id rows))" "e = (x, y)" "x \<in> set (?ns occ)" "y \<in> set (?ns occ)" by blast
    with occ_parts [OF o(1)] show "e \<in> source_related rows" unfolding source_related_def app by auto
  next
    fix e assume "e \<in> source_related rows"
    then obtain x y v where e: "e = (x, y)" "occurs rows v x" "occurs rows v y" "\<not> own_app rows x" "\<not> own_app rows y"
      by (auto simp: source_related_def)
    with occ_exists [OF e(2)] show "e \<in> (\<Union>occ \<in> set (parts (occurrences_by_id rows)). {(x, y). x \<in> set (?ns occ) \<and> y \<in> set (?ns occ)})"
      unfolding app by fastforce
  qed
  moreover have "connected (own_related rows \<union> (\<Union>occ \<in> set (parts (occurrences_by_id rows)). first_links None (?ns occ)))
      = connected (own_related rows \<union> (\<Union>occ \<in> set (parts (occurrences_by_id rows)). {(x, y). x \<in> set (?ns occ) \<and> y \<in> set (?ns occ)}))"
    by (rule connected_UN_cong) (rule first_links_connected)
  ultimately have e2: "same_set (fst s2) = connected (own_related rows \<union> source_related rows)" using s2(4) by simp
  obtain s3 where s3: "option_fold wunite (hint_links rows merges) s2 = Some s3" "union_ok rows s3"
    "same_set (fst s3) = connected (own_related rows \<union> source_related rows \<union> set (hint_links rows merges))"
    using wunite_all [OF s2(2) e2] by blast
  have u: "workspace_unions rows merges = Some s3"
    using s1(1) s2(1) s3(1) unfolding workspace_unions_def occ_rows_def by simp
  have "(i, j) \<in> connected (own_related rows)" if "merges = []" "own_app rows i" "(i, j) \<in> same_set (fst s3)" for i j
  proof -
    have "s3 = s2" using s3(1) that(1) by (simp add: hint_links_def)
    with that(3) have "rep (fst s2) i = rep (fst s2) j" by (simp add: same_set_def)
    with s2(3) that(2) have "rep (fst s1) i = rep (fst s1) j" unfolding keeps_apps_def app by blast
    then show ?thesis unfolding own [symmetric] same_set_def by simp
  qed
  with u s3 show ?thesis by blast
qed

text \<open>The components of the rows, as a partition.\<close>

lemma workspace_components_ok:
  "\<exists>cs st. workspace_components rows merges = Some cs \<and> workspace_unions rows merges = Some st
    \<and> cs = parts (filed_by (root_key (fst st) Some) [0..<length rows])"
proof -
  obtain st where st: "workspace_unions rows merges = Some st" "union_ok rows st"
    using workspace_unions_ok [of rows merges] by blast
  have f: "forest (fst st)" using st(2) by (simp add: union_ok_def)
  obtain p' where "option_fold (file_root uf_find Some) [0..<length rows] (fst st, []) =
      Some (p', filed_by (root_key (fst st) Some) [0..<length rows])"
    using compressing.file_roots [OF f, of Some "[0..<length rows]"] by blast
  with st(1) show ?thesis by (simp add: workspace_components_def)
qed

section \<open>What a merged row holds\<close>

definition ids_of :: "fobj list \<Rightarrow> jsval list" where
  "ids_of fs = filter truthy (map (\<lambda>f. get f ''id'') fs)"

lemma ids_of_simps [simp]:
  "ids_of [] = []" "ids_of (f # fs) = (if truthy (get f ''id'') then get f ''id'' # ids_of fs else ids_of fs)"
  "ids_of (fs @ gs) = ids_of fs @ ids_of gs"
  by (simp_all add: ids_of_def)

lemma ids_of_concat: "set (ids_of (concat fss)) = (\<Union>fs \<in> set fss. set (ids_of fs))"
  by (induction fss) auto

lemma merge_field_keeps:
  "k \<noteq> ''revalidate'' \<Longrightarrow> \<not> nullish (get (fst st) k) \<Longrightarrow> get (fst (merge_field rk dup kv st)) k = get (fst st) k"
  using merge_field_other [of k kv rk dup st] by (cases "k = fst kv") (auto simp: merge_field_def Let_def)

lemma merge_keeps:
  assumes "k \<noteq> ''revalidate''" and "\<not> nullish (get survivor k)"
  shows "get (fst (mergeDuplicateFields rk survivor dup)) k = get survivor k"
proof -
  have "get (fst (fold (merge_field rk dup) kvs (survivor, False))) k = get survivor k" for kvs
    by (rule fold_invariant [where P = "\<lambda>x. get (fst x) k = get survivor k"]) (use assms in \<open>simp_all add: merge_field_keeps\<close>)
  then show ?thesis by (simp add: mergeDuplicateFields_def)
qed

lemma merge_report_keeps_id:
  assumes "truthy (get survivor ''id'')"
  shows "get (fst (mergeReportDuplicateFields rk es survivor dup name cs)) ''id'' = get survivor ''id''"
proof -
  let ?s1 = "note_severity es dup name survivor"
  obtain s2 copies where s2: "recordRevalidationCopies ?s1 dup (JStr name) = (s2, copies)"
    by (cases "recordRevalidationCopies ?s1 dup (JStr name)")
  then have "get s2 ''id'' = get survivor ''id''"
    by (auto simp: recordRevalidationCopies_def Let_def note_severity_rest split: if_splits)
  moreover from this assms have "\<not> nullish (get s2 ''id'')" by (cases "get survivor ''id''") auto
  ultimately show ?thesis
    using s2 by (simp add: mergeReportDuplicateFields_def merge_keeps split_beta Let_def)
qed

definition inl_ids :: "(jsval + fobj) list \<Rightarrow> jsval list" where
  "inl_ids xs = concat (map (\<lambda>x. case x of Inl i \<Rightarrow> [i] | Inr _ \<Rightarrow> []) xs)"

definition merge_ok :: "fobj list \<Rightarrow> wmerge \<Rightarrow> bool" where
  "merge_ok seen st = (map_ok (wm_copies st) \<and> set (map_keys (wm_copies st)) = set (ids_of seen)
     \<and> (\<forall>i c. map_of (wm_copies st) i = Some c \<longrightarrow> truthy i \<and> get c ''id'' = i)
     \<and> inl_ids (wm_findings st) = map_keys (wm_copies st)
     \<and> (\<forall>f. Inr f \<in> set (wm_findings st) \<longrightarrow> \<not> truthy (get f ''id'')))"

lemma map_keys_set_new: "map_keys (map_set k v m) = (if k \<in> set (map_keys m) then map_keys m else map_keys m @ [k])"
  by (simp add: map_keys_set_add set_add_def)

lemma fold_member_ok:
  assumes ok: "merge_ok seen st"
  shows "merge_ok (seen @ [f]) (fold_member rk es name f st)"
proof (cases "truthy (get f ''id'')")
  case False
  then have "fold_member rk es name f st =
      st\<lparr>wm_findings := wm_findings st @ [Inr (map_set ''_reportName'' (coalesce (get f ''_reportName'') (JStr name)) f)]\<rparr>"
    by (simp add: fold_member_def Let_def)
  with ok False show ?thesis by (auto simp: merge_ok_def inl_ids_def)
next
  case True
  show ?thesis
  proof (cases "map_of (wm_copies st) (get f ''id'')")
    case None
    then have new: "get f ''id'' \<notin> set (map_keys (wm_copies st))" by (simp add: map_of_eq_None_iff)
    let ?c = "map_set ''_reportName'' (coalesce (get f ''_reportName'') (JStr name)) f"
    have e: "fold_member rk es name f st = st\<lparr>wm_copies := map_set (get f ''id'') ?c (wm_copies st),
        wm_findings := wm_findings st @ [Inl (get f ''id'')]\<rparr>"
      using None True by (simp add: fold_member_def Let_def)
    have keys: "map_keys (map_set (get f ''id'') ?c (wm_copies st)) = map_keys (wm_copies st) @ [get f ''id'']"
      unfolding map_keys_set_new using new by (rule if_not_P)
    have inl: "inl_ids (xs @ [Inl i]) = inl_ids xs @ [i]" for xs i by (simp add: inl_ids_def)
    have "get ?c ''id'' = get f ''id''" by simp
    then show ?thesis
      using ok True unfolding e merge_ok_def by (simp add: inl keys del: set_map)
  next
    case (Some copy)
    then have old: "get f ''id'' \<in> set (map_keys (wm_copies st))" by (metis domI dom_map_of_conv_image_fst set_map)
    obtain c' cs' where m: "mergeReportDuplicateFields rk es copy f name (wm_conflicts st) = (c', cs')"
      by (cases "mergeReportDuplicateFields rk es copy f name (wm_conflicts st)")
    have e: "fold_member rk es name f st = st\<lparr>wm_copies := map_set (get f ''id'') c' (wm_copies st), wm_conflicts := cs'\<rparr>"
      using Some True m by (simp add: fold_member_def Let_def)
    have id: "get copy ''id'' = get f ''id''" using ok Some by (simp add: merge_ok_def)
    with True merge_report_keeps_id [of copy rk es f name "wm_conflicts st"] m have "get c' ''id'' = get f ''id''" by simp
    moreover have keys: "map_keys (map_set (get f ''id'') c' (wm_copies st)) = map_keys (wm_copies st)"
      unfolding map_keys_set_new using old by (rule if_P)
    ultimately show ?thesis using ok True old unfolding e merge_ok_def by (simp add: keys del: set_map) auto
  qed
qed

lemma fold_members_ok: "merge_ok seen st \<Longrightarrow> merge_ok (seen @ fs) (fold (fold_member rk es name) fs st)"
proof (induction fs arbitrary: seen st)
  case (Cons f fs)
  from Cons.IH [OF fold_member_ok [OF Cons.prems, of f]] show ?case by simp
qed simp

lemma fold_rows_ok: "merge_ok seen st \<Longrightarrow> merge_ok (seen @ concat (map rw_group rows)) (fold (fold_row rk es) rows st)"
proof (induction rows arbitrary: seen st)
  case (Cons r rows)
  have "merge_ok (seen @ rw_group r) (fold_row rk es r st)" unfolding fold_row_def by (rule fold_members_ok [OF Cons.prems])
  from Cons.IH [OF this] show ?case by simp
qed simp

lemma merge_rows_ok: "merge_ok (concat (map rw_group component)) (merge_rows rk es component)"
proof -
  have "merge_ok [] \<lparr>wm_copies = [], wm_findings = [], wm_conflicts = []\<rparr>" by (simp add: merge_ok_def inl_ids_def)
  from fold_rows_ok [OF this] show ?thesis by (simp add: merge_rows_def)
qed

lemma merged_members_ids:
  assumes ok: "merge_ok seen st" and sub: "set (canonical_ids merges component (wm_copies st)) \<subseteq> set (map_keys (wm_copies st))"
  shows "distinct (ids_of (merged_members merges component st))
    \<and> set (ids_of (merged_members merges component st)) = set (ids_of seen)"
proof -
  let ?can = "canonical_ids merges component (wm_copies st)"
  let ?copy = "\<lambda>i. case map_of (wm_copies st) i of Some c \<Rightarrow> c | None \<Rightarrow> []"
  have copy: "truthy i \<and> get (?copy i) ''id'' = i" if "i \<in> set (map_keys (wm_copies st))" for i
  proof -
    from that obtain c where "map_of (wm_copies st) i = Some c" by (metis map_of_eq_None_iff not_None_eq set_map)
    with ok show ?thesis by (simp add: merge_ok_def)
  qed
  have copies: "ids_of (map ?copy xs) = xs" if "set xs \<subseteq> set (map_keys (wm_copies st))" for xs
    using that copy by (induction xs) auto
  have rest: "ids_of (concat (map (\<lambda>x. case x of Inl i \<Rightarrow> if i \<in> set ?can then [] else [?copy i] | Inr f \<Rightarrow> [f]) xs))
      = filter (\<lambda>i. i \<notin> set ?can) (inl_ids xs)"
    if "set (inl_ids xs) \<subseteq> set (map_keys (wm_copies st))" "\<forall>f. Inr f \<in> set xs \<longrightarrow> \<not> truthy (get f ''id'')" for xs
    using that copy by (induction xs) (auto simp: inl_ids_def split: sum.splits)
  have "ids_of (merged_members merges component st) = ?can @ filter (\<lambda>i. i \<notin> set ?can) (map_keys (wm_copies st))"
    using ok copies [OF sub] rest [of "wm_findings st"] by (simp add: merged_members_def Let_def merge_ok_def)
  moreover have "distinct ?can" by (simp add: canonical_ids_def)
  moreover have "distinct (map_keys (wm_copies st))" using ok by (simp add: merge_ok_def map_ok_def)
  ultimately show ?thesis using sub ok unfolding merge_ok_def by auto
qed

lemma canonical_sub:
  assumes "merge_ok (concat (map rw_group component)) st"
  shows "set (canonical_ids merges component (wm_copies st)) \<subseteq> set (map_keys (wm_copies st))"
proof
  fix i assume "i \<in> set (canonical_ids merges component (wm_copies st))"
  then consider "i \<in> set (map_keys (wm_copies st))"
    | row where "row \<in> set component" "i \<in> set (ids_of (rw_group row))"
    unfolding canonical_ids_def ids_of_def by (auto split: if_splits)
  then show "i \<in> set (map_keys (wm_copies st))"
  proof cases
    case 2
    then have "i \<in> set (ids_of (concat (map rw_group component)))" by (auto simp: ids_of_concat)
    with assms show ?thesis by (simp add: merge_ok_def)
  qed
qed

lemma component_group_ids:
  assumes "component \<noteq> []"
  shows "distinct (ids_of (wg_members (fst (component_group rk es opts many component))))
    \<and> set (ids_of (wg_members (fst (component_group rk es opts many component)))) = (\<Union>row \<in> set component. set (ids_of (rw_group row)))"
proof (cases "length component = 1 \<and> length (js_set (ids_of (rw_group (hd component)))) = length (ids_of (rw_group (hd component)))
    \<and> wo_merges opts = []")
  case True
  then have "component_group rk es opts many component = (keyed_group many (rw_group (hd component)), [])"
    by (simp add: component_group_def Let_def ids_of_def)
  moreover have "distinct (ids_of (rw_group (hd component)))"
    using True card_distinct [of "ids_of (rw_group (hd component))"] distinct_card [OF distinct_js_set] set_js_set by metis
  moreover obtain row where "component = [row]" using True by (cases component) auto
  ultimately show ?thesis by (simp add: keyed_group_def)
next
  case False
  then have "fst (component_group rk es opts many component) =
      keyed_group many (merged_members (wo_merges opts) component (merge_rows rk es component))"
    by (auto simp: component_group_def Let_def ids_of_def)
  with merged_members_ids [OF merge_rows_ok canonical_sub [OF merge_rows_ok], of "wo_merges opts" component rk es]
  show ?thesis by (simp add: keyed_group_def ids_of_concat)
qed

lemma ids_of_mset: "mset fs = mset gs \<Longrightarrow> set (ids_of fs) = set (ids_of gs)"
  using mset_eq_setD [of fs gs] by (simp add: ids_of_def)

definition output_ids :: "wgroup list \<Rightarrow> jsval set" where
  "output_ids gs = (\<Union>g \<in> set gs. set (ids_of (wg_members g)))"

lemma output_ids_simps [simp]:
  "output_ids [] = {}" "output_ids [g] = set (ids_of (wg_members g))" "output_ids (gs @ hs) = output_ids gs \<union> output_ids hs"
  "output_ids (map (\<lambda>ms. \<lparr>wg_members = ms, wg_key = k\<rparr>) mss) = set (ids_of (concat mss))"
  by (simp_all add: output_ids_def ids_of_concat)

lemma splitOutput_ids:
  "\<exists>gs. splitOutput component shown keep upstream = Some gs \<and> output_ids gs = set (ids_of (wg_members shown))
    \<and> (keep \<longrightarrow> gs = [shown])"
proof -
  consider "keep" | "\<not> keep" "upstream" | "\<not> keep" "\<not> upstream" by blast
  then show ?thesis
  proof cases
    case 1
    then show ?thesis by (simp add: splitOutput_def Let_def)
  next
    case 2
    obtain ps where ps: "splitRevalidationInputs (concat (map rw_source component)) None = Some ps"
      using split_conserves by blast
    let ?proj = "upstream_parts ps (wg_members shown)"
    let ?covered = "js_set (map (\<lambda>f. get f ''id'') (concat ?proj))" and ?ids = "js_set (ids_of (wg_members shown))"
    show ?thesis
    proof (cases "length ps \<noteq> 1 \<and> length ?covered = length ?ids")
      case True
      have truthy: "f \<in> set (concat ?proj) \<Longrightarrow> f \<in> set (wg_members shown) \<and> truthy (get f ''id'')" for f
        by (auto simp: upstream_parts_def)
      then have all: "map (\<lambda>f. get f ''id'') (concat ?proj) = ids_of (concat ?proj)"
        unfolding ids_of_def by (auto simp: filter_id_conv)
      have "set ?covered \<subseteq> set ?ids" using truthy by (fastforce simp: ids_of_def)
      then have "set ?covered = set ?ids"
        using True by (intro subset_length_set_eq) simp_all
      then have "set (ids_of (concat ?proj)) = set (ids_of (wg_members shown))" by (simp add: all)
      with True 2 ps show ?thesis by (simp add: splitOutput_def Let_def ids_of_def [of "wg_members shown"])
    next
      case False
      with 2 ps show ?thesis by (auto simp: splitOutput_def Let_def ids_of_def)
    qed
  next
    case 3
    let ?app = "Some (filter isApp (concat (map rw_source component)))"
    obtain ps where ps: "splitRevalidationInputs (wg_members shown) ?app = Some ps" "mset (concat ps) = mset (wg_members shown)"
      using split_conserves by blast
    with 3 ids_of_mset [OF ps(2)] show ?thesis by (auto simp: splitOutput_def Let_def)
  qed
qed

definition outputs_ok :: "bool \<Rightarrow> wgroup list \<Rightarrow> bool" where
  "outputs_ok keep gs = (keep \<longrightarrow> (\<forall>g \<in> set gs. distinct (ids_of (wg_members g))))"

lemma component_outputs:
  assumes "[] \<notin> set components" and "outputs_ok (showRevalidation opts) (fst out)"
  shows "\<exists>out'. option_fold (component_output rk es opts many) components out = Some out'
    \<and> output_ids (fst out') = output_ids (fst out) \<union> (\<Union>c \<in> set components. \<Union>row \<in> set c. set (ids_of (rw_group row)))
    \<and> outputs_ok (showRevalidation opts) (fst out')"
  using assms
proof (induction components arbitrary: out)
  case (Cons c components)
  obtain shown cs where g: "component_group rk es opts many c = (shown, cs)" by (cases "component_group rk es opts many c")
  have ids: "distinct (ids_of (wg_members shown))" "set (ids_of (wg_members shown)) = (\<Union>row \<in> set c. set (ids_of (rw_group row)))"
    using component_group_ids [of c rk es opts many] Cons.prems(1) g by auto
  obtain gs where gs: "splitOutput c shown (showRevalidation opts) (upstreamOnly opts) = Some gs"
    "output_ids gs = set (ids_of (wg_members shown))" "showRevalidation opts \<longrightarrow> gs = [shown]"
    using splitOutput_ids by blast
  let ?out = "(fst out @ gs, fold add_conflict cs (snd out))"
  have "outputs_ok (showRevalidation opts) (fst ?out)" using Cons.prems(2) gs(3) ids(1) by (auto simp: outputs_ok_def)
  with Cons.IH [of ?out] Cons.prems(1) obtain out' where
    out': "option_fold (component_output rk es opts many) components ?out = Some out'"
    "output_ids (fst out') = output_ids (fst ?out) \<union> (\<Union>c \<in> set components. \<Union>row \<in> set c. set (ids_of (rw_group row)))"
    "outputs_ok (showRevalidation opts) (fst out')" by auto
  have "component_output rk es opts many c out = Some ?out" by (simp add: component_output_def g gs(1))
  then have "option_fold (component_output rk es opts many) (c # components) out = Some out'" using out'(1) by simp
  moreover have "output_ids (fst out') =
      output_ids (fst out) \<union> (\<Union>c \<in> set (c # components). \<Union>row \<in> set c. set (ids_of (rw_group row)))"
    using out'(2) gs(2) ids(2) by (simp add: Un_assoc)
  ultimately show ?case using out'(3) by blast
qed simp

lemma mergeReportGroups_total:
  "\<exists>groups conflicts. mergeReportGroups rk es opts reports = Some (groups, conflicts)
    \<and> output_ids groups = (\<Union>row \<in> set (workspace_rows rk opts reports). set (ids_of (rw_group row)))
    \<and> outputs_ok (showRevalidation opts) groups"
proof -
  let ?rows = "workspace_rows rk opts reports"
  obtain cs and st :: wunion where cs: "workspace_components ?rows (wo_merges opts) = Some cs"
    "cs = parts (filed_by (root_key (fst st) Some) [0..<length ?rows])" using workspace_components_ok [of ?rows "wo_merges opts"] by blast
  let ?comps = "map (map ((!) ?rows)) cs"
  have "[] \<notin> set cs" unfolding cs(2) by (rule parts_not_empty)
  then have ne: "[] \<notin> set ?comps" by auto
  obtain out where out: "option_fold (component_output rk es opts (length reports > 1)) ?comps ([], []) = Some out"
    "output_ids (fst out) = (\<Union>c \<in> set ?comps. \<Union>row \<in> set c. set (ids_of (rw_group row)))"
    "outputs_ok (showRevalidation opts) (fst out)"
    using component_outputs [OF ne, of opts "([], [])" rk es "length reports > 1", unfolded fst_conv output_ids_simps(1) Un_empty_left]
    unfolding outputs_ok_def by auto
  have "set (concat cs) = {0..<length ?rows}"
    using mset_eq_setD [OF parts_mset, of "root_key (fst st) Some" "[0..<length ?rows]"] unfolding cs(2) by simp
  then have "set (concat ?comps) = (!) ?rows ` {0..<length ?rows}" by (simp only: map_concat [symmetric] set_map)
  also have "\<dots> = set ?rows" by (metis list.set_map map_nth set_upt)
  finally have "(\<Union>c \<in> set ?comps. \<Union>row \<in> set c. set (ids_of (rw_group row))) = (\<Union>row \<in> set ?rows. set (ids_of (rw_group row)))"
    by (metis UN_simps(10) set_concat UN_UN_flatten)
  with out cs(1) show ?thesis by (cases out) (simp add: mergeReportGroups_def Let_def)
qed

section \<open>Properties\<close>

text \<open>C22: the rows of the reports are merged into exactly these components: rows are together when
  a chain of shared findings connects them, where sharing counts if the finding is an App
  finding in some report, or both rows are of one report, or neither row is tied to an App
  row, or an explicit hint names both. Without hints a source-only row never bridges two
  App rows: what is merged with a row tied to an App row is so by App identity or inside
  reports alone. Every row is in one component.\<close>

theorem workspace_components_spec:
  "\<exists>cs. workspace_components rows merges = Some cs \<and> mset (concat cs) = mset [0..<length rows]
    \<and> (\<forall>i < length rows. \<forall>j < length rows. (\<exists>c \<in> set cs. i \<in> set c \<and> j \<in> set c) \<longleftrightarrow>
        (i, j) \<in> connected (own_related rows \<union> source_related rows \<union> set (hint_links rows merges)))
    \<and> (merges = [] \<longrightarrow> (\<forall>i < length rows. \<forall>j < length rows. own_app rows i \<longrightarrow>
        (\<exists>c \<in> set cs. i \<in> set c \<and> j \<in> set c) \<longrightarrow> (i, j) \<in> connected (own_related rows)))"
proof -
  obtain cs st where cs: "workspace_components rows merges = Some cs" "workspace_unions rows merges = Some st"
    "cs = parts (filed_by (root_key (fst st) Some) [0..<length rows])" using workspace_components_ok by blast
  from workspace_unions_ok [of rows merges] cs(2) have
    st: "same_set (fst st) = connected (own_related rows \<union> source_related rows \<union> set (hint_links rows merges))"
    and app: "merges = [] \<Longrightarrow> own_app rows i \<Longrightarrow> (i, j) \<in> same_set (fst st) \<Longrightarrow> (i, j) \<in> connected (own_related rows)" for i j
    by auto
  have tog: "(\<exists>c \<in> set cs. i \<in> set c \<and> j \<in> set c) \<longleftrightarrow> (i, j) \<in> same_set (fst st)"
    if "i < length rows" "j < length rows" for i j
    using that unfolding cs(3) by (subst parts_together) (simp_all add: root_key_def same_set_def)
  have "mset (concat cs) = mset [0..<length rows]" unfolding cs(3) by (rule parts_mset)
  moreover have "\<forall>i < length rows. \<forall>j < length rows. (\<exists>c \<in> set cs. i \<in> set c \<and> j \<in> set c) \<longleftrightarrow>
      (i, j) \<in> connected (own_related rows \<union> source_related rows \<union> set (hint_links rows merges))"
    using tog unfolding st by blast
  moreover have "merges = [] \<longrightarrow> (\<forall>i < length rows. \<forall>j < length rows. own_app rows i \<longrightarrow>
      (\<exists>c \<in> set cs. i \<in> set c \<and> j \<in> set c) \<longrightarrow> (i, j) \<in> connected (own_related rows))"
    using tog app by blast
  ultimately show ?thesis using cs(1) by blast
qed

text \<open>C23: merging loses no finding and invents none: the view is always produced, the ids in its
  rows are exactly the ids of the visible findings of the reports, and in App mode no row
  repeats one.\<close>

theorem mergeReportGroups_conserves:
  "\<exists>groups conflicts. mergeReportGroups rk es opts reports = Some (groups, conflicts)
    \<and> output_ids groups = (\<Union>row \<in> set (workspace_rows rk opts reports). set (ids_of (rw_group row)))
    \<and> outputs_ok (showRevalidation opts) groups"
  by (rule mergeReportGroups_total)

text \<open>Two reports: an App row citing \<open>d\<close> in each, and a source row of \<open>d\<close> in the second.\<close>

definition app_finding :: "string \<Rightarrow> fobj" where
  "app_finding i = [(''id'', JStr i), (''isApp'', JBool True)]"

definition sample_reports :: "wreport list" where
  "sample_reports =
     [\<lparr>wr_groups = [[app_finding ''A'', sample_source ''d'']], wr_fileName = JStr ''one''\<rparr>,
      \<lparr>wr_groups = [[app_finding ''B''], [sample_source ''d'']], wr_fileName = JStr ''two''\<rparr>]"

definition sample_opts :: wopts where
  "sample_opts = \<lparr>showRevalidation = True, upstreamOnly = False, hideRuledOut = False, wo_merges = []\<rparr>"

theorem workspace_components_spec_witness:
  "\<exists>cs. workspace_components (workspace_rows (\<lambda>_. JUndef) sample_opts sample_reports) [] = Some cs
    \<and> mset (concat cs) = mset [0, 1, 2]"
proof -
  have "length (workspace_rows (\<lambda>_. JUndef) sample_opts sample_reports) = 3" by code_simp
  moreover have "[0..<3] = [0, 1, 2::nat]" by (simp add: upt_rec)
  ultimately show ?thesis
    using workspace_components_spec [of "workspace_rows (\<lambda>_. JUndef) sample_opts sample_reports" "[]"] by metis
qed

end
