(* ===== verification/LinkedGroups.thy ===== *)
theory LinkedGroups
  imports Grouping
begin

text \<open>
  \<^verbatim>\<open>src/common/linked-workspace-groups.js\<close>: rows of the workspace whose visible
  tabs are linked are shown as one row. The duplicates index, and what a row
  shows, are parameters. A row holds at least one finding.
\<close>

section \<open>Rows and their links\<close>

record lgroup =
  lg_members :: "fobj list"
  lg_key :: jsval
  lg_linked :: "fobj list option"

definition tab_ids :: "fobj list list \<Rightarrow> (jsval, (jsval \<times> nat) list) jsmap" where
  "tab_ids tabs = filed_by fst (concat (map (\<lambda>(i, fs).
     map (\<lambda>f. (get f ''id'', i)) (filter (\<lambda>f. truthy (get f ''id'')) fs)) (enumerate 0 tabs)))"

definition rows_of :: "(jsval, (jsval \<times> nat) list) jsmap \<Rightarrow> jsval \<Rightarrow> nat list" where
  "rows_of byId i = (case map_of byId i of None \<Rightarrow> [] | Some xs \<Rightarrow> map snd xs)"

text \<open>The pairs the nested loops unite, in order.\<close>

definition link_pairs :: "(jsval \<Rightarrow> jsval list) \<Rightarrow> fobj list list \<Rightarrow> (nat \<times> nat) list" where
  "link_pairs duplicatesOf tabs = (let byId = tab_ids tabs in
     concat (map (\<lambda>i. concat (map (\<lambda>other.
       if other = i then []
       else concat (map (\<lambda>a. map (Pair a) (rows_of byId other)) (rows_of byId i))) (duplicatesOf i))) (map_keys byId)))"

definition link_components :: "(jsval \<Rightarrow> jsval list) \<Rightarrow> fobj list list \<Rightarrow> nat \<Rightarrow> nat list list option" where
  "link_components duplicatesOf tabs n =
     Option.bind (unite_all uf_halve (link_pairs duplicatesOf tabs) (\<lambda>i. i)) (\<lambda>p.
       map_option (\<lambda>(_, m). parts m) (option_fold (file_root uf_halve Some) [0..<n] (p, [])))"

text \<open>\<open>if (!m.has(k)) m.set(k, v)\<close>.\<close>

definition put_new :: "'k \<Rightarrow> 'v \<Rightarrow> ('k, 'v) jsmap \<Rightarrow> ('k, 'v) jsmap" where
  "put_new k v m = (if map_has m k then m else map_set k v m)"

definition retained_tabs :: "(lgroup \<Rightarrow> fobj list) \<Rightarrow> lgroup list \<Rightarrow> (jsval, fobj) jsmap" where
  "retained_tabs retainedTabs rows = fold (\<lambda>f m. put_new (row_key f) f m) (concat (map retainedTabs rows)) []"

definition linked_members :: "(jsval, fobj) jsmap \<Rightarrow> lgroup list \<Rightarrow> (jsval, fobj) jsmap" where
  "linked_members visible rows = fold (\<lambda>f m. put_new (row_key f)
     (case map_of visible (row_key f) of Some v \<Rightarrow> v | None \<Rightarrow> f) m) (concat (map lg_members rows)) []"

definition merge_linked :: "(lgroup \<Rightarrow> fobj list) \<Rightarrow> lgroup list \<Rightarrow> lgroup" where
  "merge_linked retainedTabs rows = (case rows of [row] \<Rightarrow> row | _ \<Rightarrow>
     (let visible = retained_tabs retainedTabs rows in
      \<lparr>lg_members = map snd (linked_members visible rows),
       lg_key = coalesce (lg_key (hd rows)) (row_key (hd (lg_members (hd rows)))),
       lg_linked = Some (map snd visible)\<rparr>))"

definition mergeLinkedWorkspaceGroups ::
    "lgroup list \<Rightarrow> (jsval \<Rightarrow> jsval list) \<Rightarrow> (lgroup \<Rightarrow> fobj list) \<Rightarrow> (lgroup \<Rightarrow> fobj list) \<Rightarrow> lgroup list option" where
  "mergeLinkedWorkspaceGroups rows duplicatesOf visibleTabs retainedTabs =
     map_option (\<lambda>components.
       if length components = length rows then rows
       else map (\<lambda>is. merge_linked retainedTabs (map ((!) rows) is)) components)
       (link_components duplicatesOf (map visibleTabs rows) (length rows))"

section \<open>First of each key\<close>

lemma put_new_fold:
  assumes "map_ok m"
  shows "map_ok (fold (\<lambda>f m. put_new (key f) (val f) m) fs m)
    \<and> set (map_keys (fold (\<lambda>f m. put_new (key f) (val f) m) fs m)) = set (map_keys m) \<union> key ` set fs
    \<and> (\<forall>k v. map_of (fold (\<lambda>f m. put_new (key f) (val f) m) fs m) k = Some v \<longrightarrow>
        map_of m k = Some v \<or> (\<exists>f \<in> set fs. key f = k \<and> val f = v))"
  using assms
proof (induction fs arbitrary: m)
  case (Cons f fs)
  let ?m = "put_new (key f) (val f) m"
  have ok: "map_ok ?m" using Cons.prems by (simp add: put_new_def)
  have keys: "set (map_keys ?m) = insert (key f) (set (map_keys m))" by (auto simp: put_new_def dom_update)
  have v: "map_of ?m k = Some v \<Longrightarrow> map_of m k = Some v \<or> (k = key f \<and> v = val f)" for k v
    by (auto simp: put_new_def split: if_splits)
  note ih = Cons.IH [OF ok]
  have "set (map_keys (fold (\<lambda>f m. put_new (key f) (val f) m) (f # fs) m)) = set (map_keys m) \<union> key ` set (f # fs)"
    using ih keys by (simp only: fold_simps list.set image_insert) blast
  moreover have "\<forall>k v. map_of (fold (\<lambda>f m. put_new (key f) (val f) m) (f # fs) m) k = Some v \<longrightarrow>
      map_of m k = Some v \<or> (\<exists>g \<in> set (f # fs). key g = k \<and> val g = v)"
    using ih v by (simp only: fold_simps list.set) blast
  ultimately show ?case using ih by simp
qed simp

lemma first_of_each:
  shows "map_ok (fold (\<lambda>f m. put_new (key f) (val f) m) fs [])"
    and "set (map_keys (fold (\<lambda>f m. put_new (key f) (val f) m) fs [])) = key ` set fs"
    and "map_of (fold (\<lambda>f m. put_new (key f) (val f) m) fs []) k = Some v \<Longrightarrow> \<exists>f \<in> set fs. key f = k \<and> val f = v"
  using put_new_fold [of "[]" key val fs] by simp_all

text \<open>Each retained tab and each member is filed under its own key.\<close>

lemma retained_tabs_keys:
  shows "map_ok (retained_tabs retainedTabs rows)"
    and "set (map_keys (retained_tabs retainedTabs rows)) = row_key ` set (concat (map retainedTabs rows))"
    and "map_of (retained_tabs retainedTabs rows) k = Some v \<Longrightarrow> v \<in> set (concat (map retainedTabs rows)) \<and> row_key v = k"
  using first_of_each [of row_key "\<lambda>f. f" "concat (map retainedTabs rows)"] unfolding retained_tabs_def by blast+

definition shown_copy :: "(jsval, fobj) jsmap \<Rightarrow> fobj \<Rightarrow> fobj" where
  "shown_copy visible f = (case map_of visible (row_key f) of Some v \<Rightarrow> v | None \<Rightarrow> f)"

lemma linked_members_keys:
  assumes vis: "\<And>k v. map_of visible k = Some v \<Longrightarrow> row_key v = k"
  shows "map_ok (linked_members visible rows)"
    and "set (map_keys (linked_members visible rows)) = row_key ` set (concat (map lg_members rows))"
    and "map_of (linked_members visible rows) k = Some v \<Longrightarrow> row_key v = k \<and> (\<forall>w. map_of visible k = Some w \<longrightarrow> v = w)"
proof -
  have val: "row_key (shown_copy visible f) = row_key f" for f
    unfolding shown_copy_def using vis by (cases "map_of visible (row_key f)") auto
  have e: "linked_members visible rows =
      fold (\<lambda>f m. put_new (row_key f) (shown_copy visible f) m) (concat (map lg_members rows)) []"
    by (simp add: linked_members_def shown_copy_def)
  note fe = first_of_each [of row_key "shown_copy visible" "concat (map lg_members rows)"]
  show "map_ok (linked_members visible rows)" unfolding e by (rule fe(1))
  show "set (map_keys (linked_members visible rows)) = row_key ` set (concat (map lg_members rows))" unfolding e by (rule fe(2))
  assume "map_of (linked_members visible rows) k = Some v"
  then obtain f where f: "row_key f = k" "shown_copy visible f = v" unfolding e using fe(3) by blast
  with val [of f] show "row_key v = k \<and> (\<forall>w. map_of visible k = Some w \<longrightarrow> v = w)" by (auto simp: shown_copy_def)
qed

lemma values_keys:
  assumes "map_ok m" and "\<And>k v. map_of m k = Some v \<Longrightarrow> key v = k"
  shows "map key (map snd m) = map_keys m"
proof -
  have "key (snd x) = fst x" if "x \<in> set m" for x
    using assms that by (metis in_map_of_iff prod.collapse)
  then show ?thesis by simp
qed

section \<open>Rows that are linked\<close>

text \<open>Two rows that show two findings linked to each other.\<close>

definition linked_rows :: "(jsval \<Rightarrow> jsval list) \<Rightarrow> fobj list list \<Rightarrow> (nat \<times> nat) set" where
  "linked_rows duplicatesOf tabs = {(a, b). a < length tabs \<and> b < length tabs
     \<and> (\<exists>f \<in> set (tabs ! a). \<exists>g \<in> set (tabs ! b). truthy (get f ''id'') \<and> truthy (get g ''id'')
        \<and> get f ''id'' \<noteq> get g ''id'' \<and> get g ''id'' \<in> set (duplicatesOf (get f ''id'')))}"

lemma rows_of_iff:
  "a \<in> set (rows_of (tab_ids tabs) i) \<longleftrightarrow> a < length tabs \<and> truthy i \<and> (\<exists>f \<in> set (tabs ! a). get f ''id'' = i)"
proof -
  let ?xs = "concat (map (\<lambda>(i, fs). map (\<lambda>f. (get f ''id'', i)) (filter (\<lambda>f. truthy (get f ''id'')) fs)) (enumerate 0 tabs))"
  have one: "(i, a) \<in> set ?xs \<longleftrightarrow> (\<exists>x \<in> set (enumerate 0 tabs). a = fst x \<and> truthy i \<and> (\<exists>f \<in> set (snd x). get f ''id'' = i))"
  proof -
    have inner: "(i, a) \<in> set (case x of (i, fs) \<Rightarrow> map (\<lambda>f. (get f ''id'', i)) (filter (\<lambda>f. truthy (get f ''id'')) fs)) \<longleftrightarrow>
        a = fst x \<and> truthy i \<and> (\<exists>f \<in> set (snd x). get f ''id'' = i)" for x by (cases x) auto
    show ?thesis unfolding set_concat set_map UN_iff bex_simps image_iff using inner by blast
  qed
  have "(\<exists>x \<in> set (enumerate 0 tabs). a = fst x \<and> P (snd x)) \<longleftrightarrow> a < length tabs \<and> P (tabs ! a)" for P
    by (auto simp: in_set_enumerate_eq intro!: bexI [of _ "(a, tabs ! a)"])
  from this [of "\<lambda>fs. truthy i \<and> (\<exists>f \<in> set fs. get f ''id'' = i)"] one
  have mem: "(i, a) \<in> set ?xs \<longleftrightarrow> a < length tabs \<and> truthy i \<and> (\<exists>f \<in> set (tabs ! a). get f ''id'' = i)" by simp
  have "a \<in> set (rows_of (tab_ids tabs) i) \<longleftrightarrow> (i, a) \<in> set ?xs"
  proof -
    have "map snd (filter (\<lambda>x. fst x = i) ys) = [] " if "i \<notin> fst ` set ys" for ys :: "(jsval \<times> nat) list"
      using that by (induction ys) auto
    then have "rows_of (tab_ids tabs) i = map snd (filter (\<lambda>x. fst x = i) ?xs)"
      unfolding rows_of_def tab_ids_def map_of_filed_by by (cases "i \<in> fst ` set ?xs") simp_all
    moreover have "a \<in> snd ` {x \<in> set ys. fst x = i} \<longleftrightarrow> (i, a) \<in> set ys" for ys :: "(jsval \<times> nat) list" by force
    ultimately show ?thesis by (simp only: set_map set_filter)
  qed
  then show ?thesis unfolding mem .
qed

lemma tab_ids_key: "a \<in> set (rows_of (tab_ids tabs) i) \<Longrightarrow> i \<in> set (map_keys (tab_ids tabs))"
  unfolding rows_of_def by (cases "map_of (tab_ids tabs) i") (simp_all, metis map_of_eq_None_iff option.distinct(1))

lemma set_link_pairs: "set (link_pairs duplicatesOf tabs) = linked_rows duplicatesOf tabs"
proof -
  have "(a, b) \<in> set (link_pairs duplicatesOf tabs) \<longleftrightarrow> (a, b) \<in> linked_rows duplicatesOf tabs" for a b
  proof -
    have "(a, b) \<in> set (link_pairs duplicatesOf tabs) \<longleftrightarrow>
        (\<exists>i \<in> set (map_keys (tab_ids tabs)). \<exists>other \<in> set (duplicatesOf i). other \<noteq> i
          \<and> a \<in> set (rows_of (tab_ids tabs) i) \<and> b \<in> set (rows_of (tab_ids tabs) other))"
      unfolding link_pairs_def Let_def by (simp add: Bex_def) blast
    also have "\<dots> \<longleftrightarrow> (\<exists>i. \<exists>other \<in> set (duplicatesOf i). other \<noteq> i
          \<and> a \<in> set (rows_of (tab_ids tabs) i) \<and> b \<in> set (rows_of (tab_ids tabs) other))"
      using tab_ids_key by blast
    also have "\<dots> \<longleftrightarrow> (a, b) \<in> linked_rows duplicatesOf tabs"
    proof
      assume "\<exists>i. \<exists>other \<in> set (duplicatesOf i). other \<noteq> i
          \<and> a \<in> set (rows_of (tab_ids tabs) i) \<and> b \<in> set (rows_of (tab_ids tabs) other)"
      then obtain f g where "a < length tabs" "b < length tabs" "f \<in> set (tabs ! a)" "g \<in> set (tabs ! b)"
        "truthy (get f ''id'')" "truthy (get g ''id'')" "get g ''id'' \<noteq> get f ''id''"
        "get g ''id'' \<in> set (duplicatesOf (get f ''id''))" unfolding rows_of_iff by fast
      then show "(a, b) \<in> linked_rows duplicatesOf tabs" unfolding linked_rows_def by fastforce
    next
      assume "(a, b) \<in> linked_rows duplicatesOf tabs"
      then obtain f g where ab: "a < length tabs" "b < length tabs" "f \<in> set (tabs ! a)" "g \<in> set (tabs ! b)"
        "truthy (get f ''id'')" "truthy (get g ''id'')" "get f ''id'' \<noteq> get g ''id''"
        "get g ''id'' \<in> set (duplicatesOf (get f ''id''))" unfolding linked_rows_def by fast
      then have "a \<in> set (rows_of (tab_ids tabs) (get f ''id''))" "b \<in> set (rows_of (tab_ids tabs) (get g ''id''))"
        unfolding rows_of_iff by fast+
      with ab(7,8) show "\<exists>i. \<exists>other \<in> set (duplicatesOf i). other \<noteq> i
          \<and> a \<in> set (rows_of (tab_ids tabs) i) \<and> b \<in> set (rows_of (tab_ids tabs) other)"
        by (intro exI [of _ "get f ''id''"] bexI [of _ "get g ''id''"]) simp_all
    qed
    finally show ?thesis .
  qed
  then show ?thesis by auto
qed

lemma link_components_ok:
  "\<exists>cs. link_components duplicatesOf tabs n = Some cs \<and> mset (concat cs) = mset [0..<n] \<and> [] \<notin> set cs
    \<and> (\<forall>i < n. \<forall>j < n. (\<exists>c \<in> set cs. i \<in> set c \<and> j \<in> set c) \<longleftrightarrow> (i, j) \<in> connected (linked_rows duplicatesOf tabs))"
proof -
  obtain p where p: "unite_all uf_halve (link_pairs duplicatesOf tabs) (\<lambda>i. i) = Some p" "forest p"
    "same_set p = connected ({} \<union> set (link_pairs duplicatesOf tabs))"
    using halving.unite_all_connected [OF forest_id same_set_start] by blast
  obtain p' where p': "option_fold (file_root uf_halve Some) [0..<n] (p, []) =
      Some (p', filed_by (root_key p Some) [0..<n])"
    using halving.file_roots [OF p(2), of Some "[0..<n]"] by blast
  let ?cs = "parts (filed_by (root_key p Some) [0..<n])"
  have "link_components duplicatesOf tabs n = Some ?cs" by (simp add: link_components_def p(1) p')
  moreover have "(\<exists>c \<in> set ?cs. i \<in> set c \<and> j \<in> set c) \<longleftrightarrow> (i, j) \<in> connected (linked_rows duplicatesOf tabs)"
    if "i < n" "j < n" for i j
  proof -
    have "(\<exists>c \<in> set ?cs. i \<in> set c \<and> j \<in> set c) \<longleftrightarrow> root_key p Some i = root_key p Some j"
      using that by (intro parts_together) simp_all
    also have "\<dots> \<longleftrightarrow> (i, j) \<in> same_set p" by (simp add: root_key_def same_set_def)
    finally show ?thesis using p(3) by (simp add: set_link_pairs)
  qed
  ultimately show ?thesis using parts_mset parts_not_empty by blast
qed

section \<open>Properties\<close>

text \<open>C24: links between findings the workspace shows redraw its rows: every row is in exactly
  one group, rows are in one group exactly when a chain of links between tabs they show
  connects them, so a finding no row shows bridges nothing, and each group becomes one row;
  without any such link the rows are returned as they are.\<close>

theorem mergeLinkedWorkspaceGroups_spec:
  "\<exists>out cs. mergeLinkedWorkspaceGroups rows duplicatesOf visibleTabs retainedTabs = Some out
    \<and> mset (concat cs) = mset [0..<length rows]
    \<and> (\<forall>i < length rows. \<forall>j < length rows. (\<exists>c \<in> set cs. i \<in> set c \<and> j \<in> set c) \<longleftrightarrow>
        (i, j) \<in> connected (linked_rows duplicatesOf (map visibleTabs rows)))
    \<and> (length cs = length rows \<longrightarrow> out = rows)
    \<and> (length cs \<noteq> length rows \<longrightarrow> out = map (\<lambda>c. merge_linked retainedTabs (map ((!) rows) c)) cs)"
proof -
  obtain cs where cs: "link_components duplicatesOf (map visibleTabs rows) (length rows) = Some cs"
    "mset (concat cs) = mset [0..<length rows]"
    "\<forall>i < length rows. \<forall>j < length rows. (\<exists>c \<in> set cs. i \<in> set c \<and> j \<in> set c) \<longleftrightarrow>
        (i, j) \<in> connected (linked_rows duplicatesOf (map visibleTabs rows))"
    using link_components_ok by blast
  then show ?thesis
    by (intro exI [of _ "if length cs = length rows then rows else map (\<lambda>c. merge_linked retainedTabs (map ((!) rows) c)) cs"]
      exI [of _ cs]) (simp add: mergeLinkedWorkspaceGroups_def)
qed

text \<open>A combined row loses no finding and repeats none: it holds each key of its rows once, in
  the copy a row already showed where one did, and offers each tab its rows offered once.\<close>

theorem merge_linked_members:
  assumes "length rows \<noteq> 1" and m: "merge_linked retainedTabs rows = merged"
  shows "distinct (map row_key (lg_members merged))
    \<and> row_key ` set (lg_members merged) = (\<Union>row \<in> set rows. row_key ` set (lg_members row))
    \<and> (\<exists>tabs. lg_linked merged = Some tabs \<and> distinct (map row_key tabs)
        \<and> row_key ` set tabs = (\<Union>row \<in> set rows. row_key ` set (retainedTabs row))
        \<and> (\<forall>f \<in> set (lg_members merged). \<forall>g \<in> set tabs. row_key f = row_key g \<longrightarrow> f = g))"
proof -
  let ?vis = "retained_tabs retainedTabs rows"
  let ?mem = "linked_members ?vis rows"
  have e: "merged = \<lparr>lg_members = map snd ?mem,
      lg_key = coalesce (lg_key (hd rows)) (row_key (hd (lg_members (hd rows)))), lg_linked = Some (map snd ?vis)\<rparr>"
    using assms by (auto simp: merge_linked_def Let_def split: list.splits)
  note r = retained_tabs_keys [of retainedTabs rows]
  have vis: "map_of ?vis k = Some v \<Longrightarrow> row_key v = k" for k v using r(3) by blast
  have l1: "map_ok ?mem" by (rule linked_members_keys(1)) (rule vis)
  have l2: "set (map_keys ?mem) = row_key ` set (concat (map lg_members rows))"
    by (rule linked_members_keys(2)) (rule vis)
  have l3: "map_of ?mem k = Some v \<Longrightarrow> row_key v = k \<and> (\<forall>w. map_of ?vis k = Some w \<longrightarrow> v = w)" for k v
    by (rule linked_members_keys(3) [OF vis])
  have kv: "map row_key (map snd ?vis) = map_keys ?vis" using values_keys [OF r(1)] vis by blast
  have km: "map row_key (map snd ?mem) = map_keys ?mem" using values_keys [OF l1] l3 by blast
  have "f = g" if "f \<in> set (map snd ?mem)" "g \<in> set (map snd ?vis)" "row_key f = row_key g" for f g
  proof -
    from that(1) obtain k where "(k, f) \<in> set ?mem" by auto
    then have f: "map_of ?mem k = Some f" using l1 by (simp add: in_map_of_iff)
    from that(2) obtain j where "(j, g) \<in> set ?vis" by auto
    then have g: "map_of ?vis j = Some g" using r(1) by (simp add: in_map_of_iff)
    from l3 [OF f] vis [OF g] that(3) g show "f = g" by auto
  qed
  moreover have "row_key ` set (map snd ?mem) = row_key ` set (concat (map lg_members rows))"
    using l2 km by (metis list.set_map)
  moreover have "row_key ` set (map snd ?vis) = row_key ` set (concat (map retainedTabs rows))"
    using r(2) kv by (metis list.set_map)
  moreover have "distinct (map row_key (map snd ?mem))" "distinct (map row_key (map snd ?vis))"
    unfolding km kv using l1 r(1) by (simp_all add: map_ok_def)
  ultimately show ?thesis unfolding e by (simp add: image_UN)
qed

text \<open>Three rows, two of them linked.\<close>

definition sample_lgroup :: "string \<Rightarrow> lgroup" where
  "sample_lgroup i = \<lparr>lg_members = [[(''id'', JStr i)]], lg_key = JUndef, lg_linked = None\<rparr>"

definition sample_links :: "jsval \<Rightarrow> jsval list" where
  "sample_links i = (if i = JStr ''a'' then [JStr ''c''] else if i = JStr ''c'' then [JStr ''a''] else [])"

theorem mergeLinkedWorkspaceGroups_spec_witness:
  "\<exists>out cs. mergeLinkedWorkspaceGroups (map sample_lgroup [''a'', ''b'', ''c'']) sample_links lg_members lg_members = Some out
    \<and> (\<exists>c \<in> set cs. 0 \<in> set c \<and> (2::nat) \<in> set c)"
proof -
  let ?rows = "map sample_lgroup [''a'', ''b'', ''c'']"
  have "(0, 2) \<in> linked_rows sample_links (map lg_members ?rows)"
    by (simp add: linked_rows_def sample_lgroup_def sample_links_def get_def)
  then have l: "(0, 2) \<in> connected (linked_rows sample_links (map lg_members ?rows))" by (rule connected_base)
  from mergeLinkedWorkspaceGroups_spec [of ?rows sample_links lg_members lg_members] obtain out cs where
    o: "mergeLinkedWorkspaceGroups ?rows sample_links lg_members lg_members = Some out"
    "\<forall>i < length ?rows. \<forall>j < length ?rows. (\<exists>c \<in> set cs. i \<in> set c \<and> j \<in> set c) \<longleftrightarrow>
        (i, j) \<in> connected (linked_rows sample_links (map lg_members ?rows))" by blast
  have "\<exists>c \<in> set cs. 0 \<in> set c \<and> 2 \<in> set c" using o(2) l by simp
  with o(1) show ?thesis by blast
qed

theorem merge_linked_members_witness:
  "row_key ` set (lg_members (merge_linked lg_members [sample_lgroup ''a'', sample_lgroup ''c''])) = {JStr ''a'', JStr ''c''}"
proof -
  have n: "length [sample_lgroup ''a'', sample_lgroup ''c''] \<noteq> 1" by simp
  have k: "(\<Union>row \<in> set [sample_lgroup ''a'', sample_lgroup ''c'']. row_key ` set (lg_members row)) = {JStr ''a'', JStr ''c''}"
    by (simp add: sample_lgroup_def row_key_def get_def) blast
  show ?thesis
    using merge_linked_members [OF n refl, of lg_members, THEN conjunct2, THEN conjunct1] unfolding k .
qed

end
