(* ===== verification/ConfidenceFilters.thy ===== *)
theory ConfidenceFilters
  imports WorkspaceGroups LinkedGroups
begin

text \<open>
  What the confidence range and the Confirmed outcome mean for the rows of a workspace
  (\<^verbatim>\<open>src/common/finding-filters.js\<close>). A group is the findings the list shows as one row.
  \<open>kindOf\<close> gives the outcome a revalidation left on a finding, \<open>tabs\<close> the findings of a group
  the view shows and \<open>severity\<close> the displayed severity: the report package and the view give
  these. Confidences are whole numbers.
\<close>

section \<open>Outcomes\<close>

definition tabKey :: "fobj \<Rightarrow> jsval" where
  "tabKey f = coalesce (get f ''id'') (JStr (js_string (get f ''_id'')))"

definition hasRevalidateStamp :: "(fobj \<Rightarrow> jsval) \<Rightarrow> fobj \<Rightarrow> bool" where
  "hasRevalidateStamp revalidateKindOf f =
     (revalidateKindOf f \<noteq> JStr [] \<and> revalidateKindOf f \<noteq> JStr ''revalidation'')"

definition REVALIDATE_FILTERS :: "(string \<times> string list) list" where
  "REVALIDATE_FILTERS =
    [(''confirmed'', [''confirmed'', ''partial'', ''revalidation'']),
     (''unreachable'', [''unreachable'']),
     (''refuted'', [''refuted''])]"

definition revalidateFilterKinds :: "string \<Rightarrow> string list option" where
  "revalidateFilterKinds value = map_of REVALIDATE_FILTERS value"

definition activeRevalidateKinds :: "string \<Rightarrow> string \<Rightarrow> string list option" where
  "activeRevalidateKinds value partialMode =
     (case revalidateFilterKinds value of None \<Rightarrow> None
      | Some kinds \<Rightarrow>
          if ''partial'' \<notin> set kinds then Some kinds
          else if partialMode = ''only'' then Some [''partial'']
          else if partialMode = ''exclude'' then Some [''confirmed'']
          else Some kinds)"

definition confirmed_kinds :: "jsval set" where
  "confirmed_kinds = (case activeRevalidateKinds ''confirmed'' '''' of None \<Rightarrow> {} | Some ks \<Rightarrow> JStr ` set ks)"

text \<open>A finding of another producer counts as a pass's row where its report holds no pass.\<close>

definition confirms :: "(fobj \<Rightarrow> jsval) \<Rightarrow> fobj \<Rightarrow> bool" where
  "confirms kindOf f =
     ((if truthy (kindOf f) then kindOf f
       else JStr (if truthy (get f ''_source'') \<and> \<not> truthy (get f ''_sourcePass'') then ''revalidation'' else ''''))
      \<in> confirmed_kinds)"

section \<open>The confidence range\<close>

definition confidenceOnScale :: "fobj \<Rightarrow> jsval" where
  "confidenceOnScale f =
     (if get f ''confidence'' \<noteq> JUndef then get f ''confidence''
      else if get f ''critical'' = JBool True \<or> truthy (get f ''_source'') then JNum 10 else JUndef)"

definition scoresItself :: "fobj \<Rightarrow> bool" where
  "scoresItself f = (get f ''confidence'' \<noteq> JUndef \<or> get f ''critical'' = JBool True)"

definition rangeApplies :: "fobj list list \<Rightarrow> bool" where
  "rangeApplies groups =
     (list_all (list_all (\<lambda>f. confidenceOnScale f \<noteq> JUndef)) groups \<and> list_ex (list_ex scoresItself) groups)"

text \<open>\<open>conf >= min\<close>.\<close>

fun at_least :: "jsval \<Rightarrow> int \<Rightarrow> bool" where
  "at_least (JNum n) m = (m \<le> n)"
| "at_least JNull m = (m \<le> 0)"
| "at_least (JBool b) m = (m \<le> (if b then 1 else 0))"
| "at_least _ m = False"

definition showsAtConfidence :: "fobj list \<Rightarrow> int \<Rightarrow> (fobj \<Rightarrow> jsval) \<Rightarrow> bool" where
  "showsAtConfidence g low kindOf =
     list_ex (\<lambda>f. let conf = (if ruled_out kindOf f then JNum 0 else confidenceOnScale f) in
       if conf = JUndef then low = 0 else at_least conf low) g"

definition visible_groups :: "('g \<Rightarrow> fobj list) \<Rightarrow> 'g list \<Rightarrow> fobj list list" where
  "visible_groups tabs groups = filter (\<lambda>g. g \<noteq> []) (map tabs groups)"

definition countAtMin :: "fobj list list \<Rightarrow> nat \<Rightarrow> nat" where
  "countAtMin visible low =
     length (filter (list_ex (\<lambda>f. at_least (coalesce (confidenceOnScale f) (JNum (-1))) (int low))) visible)"

text \<open>\<open>while (base > 0 && countAtMin(base - 1) === countAtMin(base)) base--\<close>.\<close>

fun lower_free :: "(nat \<Rightarrow> nat) \<Rightarrow> nat \<Rightarrow> nat" where
  "lower_free cnt 0 = 0"
| "lower_free cnt (Suc b) = (if cnt b = cnt (Suc b) then lower_free cnt b else Suc b)"

definition base_floor :: "(nat \<Rightarrow> nat) \<Rightarrow> nat" where
  "base_floor cnt = (if cnt 6 \<le> 25 then 6 else if cnt 7 \<le> 25 then 7 else 8)"

definition defaultConfidenceFloor :: "'g list \<Rightarrow> ('g \<Rightarrow> fobj list) \<Rightarrow> nat" where
  "defaultConfidenceFloor groups tabs =
     (let visible = visible_groups tabs groups in
      if \<not> list_ex (list_ex (\<lambda>f. confidenceOnScale f \<noteq> JUndef)) visible then 0
      else lower_free (countAtMin visible) (base_floor (countAtMin visible)))"

definition effectiveFloor :: "fobj list list \<Rightarrow> nat \<Rightarrow> int" where
  "effectiveFloor groups confMin = (if rangeApplies groups then int confMin else 0)"

section \<open>The Confirmed outcome\<close>

text \<open>The keys a group with a confirming finding stands for: its members', and the inputs its
  App findings name.\<close>

definition represented :: "fobj list \<Rightarrow> jsval list" where
  "represented raw = concat (map (\<lambda>f. tabKey f #
     (if isApp f then (case get f ''revalidateInputs'' of JArr ids \<Rightarrow> filter truthy ids | _ \<Rightarrow> []) else [])) raw)"

definition confirmedCoverage ::
    "jsval list \<Rightarrow> 'g list \<Rightarrow> ('g \<Rightarrow> fobj list) \<Rightarrow> ('g \<Rightarrow> fobj list) \<Rightarrow> (fobj \<Rightarrow> jsval) \<Rightarrow> jsval set" where
  "confirmedCoverage ruledOut groups members tabs kindOf =
     set ruledOut
     \<union> tabKey ` set (filter (ruled_out kindOf) (concat (map members groups)))
     \<union> set (concat (map (\<lambda>raw. represented (members raw))
         (filter (\<lambda>raw. list_ex (confirms kindOf) (tabs raw)) groups)))"

definition confirmedIsDefault :: "fobj list list \<Rightarrow> nat \<Rightarrow> jsval set \<Rightarrow> (fobj \<Rightarrow> jsval) \<Rightarrow> bool" where
  "confirmedIsDefault visible confMin covered kindOf =
     (let floor = effectiveFloor visible confMin;
          shown = filter (\<lambda>g. showsAtConfidence g floor kindOf) visible
      in if shown = [] then False
         else if \<not> list_ex (list_ex (\<lambda>f. kindOf f \<in> confirmed_kinds)) visible then False
         else list_all (list_all (\<lambda>f. tabKey f \<in> covered)) shown)"

definition canLockConfirmed ::
    "jsval list \<Rightarrow> 'g list \<Rightarrow> ('g \<Rightarrow> fobj list) \<Rightarrow> ('g \<Rightarrow> fobj list) \<Rightarrow> (fobj \<Rightarrow> jsval) \<Rightarrow> (fobj \<Rightarrow> jsval) \<Rightarrow> bool" where
  "canLockConfirmed ruledOut groups members tabs kindOf severity =
     (let visible = visible_groups tabs groups;
          covered = confirmedCoverage ruledOut groups members tabs kindOf
      in if \<not> confirmedIsDefault visible (defaultConfidenceFloor groups tabs) covered kindOf then False
         else list_all (\<lambda>g. \<not> showsAtConfidence g (effectiveFloor visible 6) kindOf
             \<or> \<not> list_ex (\<lambda>f. severity f \<noteq> JStr ''low'') g
             \<or> list_all (\<lambda>f. tabKey f \<in> covered) g) visible)"

section \<open>The opening floor\<close>

lemma lower_free_spec:
  "lower_free cnt b \<le> b \<and> (\<forall>m \<in> {lower_free cnt b..b}. cnt m = cnt b)
    \<and> (lower_free cnt b = 0 \<or> cnt (lower_free cnt b - 1) \<noteq> cnt b)"
proof (induction b)
  case (Suc b)
  show ?case
  proof (cases "cnt b = cnt (Suc b)")
    case True
    then have e: "lower_free cnt (Suc b) = lower_free cnt b" by simp
    have "cnt m = cnt (Suc b)" if "m \<in> {lower_free cnt b..Suc b}" for m
    proof (cases "m = Suc b")
      case False
      with that have "m \<in> {lower_free cnt b..b}" by simp
      with Suc have "cnt m = cnt b" by blast
      with True show ?thesis by (rule trans [rotated])
    qed simp
    moreover have "lower_free cnt b \<le> Suc b" using Suc by simp
    moreover have "lower_free cnt b = 0 \<or> cnt (lower_free cnt b - 1) \<noteq> cnt (Suc b)"
      using Suc [THEN conjunct2, THEN conjunct2] unfolding True .
    ultimately show ?thesis unfolding e by blast
  qed simp
qed simp

lemma at_least_antimono: "m \<le> n \<Longrightarrow> at_least v n \<Longrightarrow> at_least v m"
  by (cases v) auto

lemma shown_antimono:
  "m \<le> n \<Longrightarrow> list_ex (\<lambda>f. at_least (coalesce (confidenceOnScale f) (JNum (-1))) (int n)) g \<Longrightarrow>
    list_ex (\<lambda>f. at_least (coalesce (confidenceOnScale f) (JNum (-1))) (int m)) g"
  using at_least_antimono [of "int m" "int n"] by (auto simp: list_ex_iff)

lemma length_filter_mono: "(\<And>x. P x \<Longrightarrow> Q x) \<Longrightarrow> length (filter P xs) \<le> length (filter Q xs)"
  by (induction xs) (auto simp: le_Suc_eq)

lemma filter_same_length:
  assumes "\<And>x. P x \<Longrightarrow> Q x" and "length (filter P xs) = length (filter Q xs)"
  shows "filter P xs = filter Q xs"
  using assms(2)
proof (induction xs)
  case (Cons x xs)
  from length_filter_mono [of P Q xs, OF assms(1)] Cons assms(1) show ?case by (auto split: if_splits)
qed simp

definition at_floor :: "fobj list list \<Rightarrow> nat \<Rightarrow> fobj list list" where
  "at_floor visible n = filter (list_ex (\<lambda>f. at_least (coalesce (confidenceOnScale f) (JNum (-1))) (int n))) visible"

lemma at_floor_count: "countAtMin visible n = length (at_floor visible n)"
  by (simp add: countAtMin_def at_floor_def)

lemma at_floor_same: "m \<le> n \<Longrightarrow> countAtMin visible m = countAtMin visible n \<Longrightarrow> at_floor visible m = at_floor visible n"
  unfolding countAtMin_def at_floor_def by (rule filter_same_length [symmetric, OF shown_antimono]) auto

section \<open>Properties\<close>

text \<open>The floor a set opens on is at most 8, shows exactly the groups of the first of 6, 7 and
  8 that fits 25 of them (8 where none does), and is the lowest that does; a set with no
  confidence at all opens on 0.\<close>

theorem opening_floor_spec:
  assumes v: "visible = visible_groups tabs groups" and d: "f = defaultConfidenceFloor groups tabs"
    and placed: "list_ex (list_ex (\<lambda>f. confidenceOnScale f \<noteq> JUndef)) visible"
  shows "f \<le> base_floor (countAtMin visible) \<and> base_floor (countAtMin visible) \<in> {6, 7, 8}
    \<and> at_floor visible f = at_floor visible (base_floor (countAtMin visible))
    \<and> (\<forall>m < f. at_floor visible m \<noteq> at_floor visible f)
    \<and> (length (at_floor visible f) \<le> 25 \<or> length (at_floor visible 7) > 25 \<and> base_floor (countAtMin visible) = 8)"
proof -
  let ?b = "base_floor (countAtMin visible)"
  have f: "f = lower_free (countAtMin visible) ?b"
    using placed unfolding d v defaultConfidenceFloor_def Let_def by simp
  note l = lower_free_spec [of "countAtMin visible" ?b, folded f]
  have same: "at_floor visible f = at_floor visible ?b"
    by (rule at_floor_same [OF l [THEN conjunct1]], rule bspec [OF l [THEN conjunct2, THEN conjunct1]])
      (simp add: l [THEN conjunct1])
  have "at_floor visible m \<noteq> at_floor visible f" if m: "m < f" for m
  proof
    assume e: "at_floor visible m = at_floor visible f"
    have "countAtMin visible (f - 1) = countAtMin visible ?b"
    proof -
      have le: "countAtMin visible y \<le> countAtMin visible x" if "x \<le> y" for x y
        unfolding countAtMin_def by (rule length_filter_mono [OF shown_antimono [OF that]])
      have "countAtMin visible m = countAtMin visible ?b" unfolding at_floor_count e same ..
      moreover have "m \<le> f - 1" "f - 1 \<le> ?b" using m l [THEN conjunct1] by linarith+
      ultimately show ?thesis using le [of m "f - 1"] le [of "f - 1" ?b] by linarith
    qed
    with l [THEN conjunct2, THEN conjunct2] m show False by linarith
  qed
  moreover have "length (at_floor visible ?b) \<le> 25 \<or> length (at_floor visible 7) > 25 \<and> ?b = 8" "?b \<in> {6, 7, 8}"
    unfolding base_floor_def at_floor_count by auto
  ultimately show ?thesis using l same by auto
qed


definition scored :: "string \<Rightarrow> int \<Rightarrow> fobj" where
  "scored i n = [(''id'', JStr i), (''confidence'', JNum n)]"

theorem opening_floor_spec_witness:
  "at_floor (visible_groups (\<lambda>g. g) [[scored ''a'' 9], [scored ''b'' 4]]) 5
     = at_floor (visible_groups (\<lambda>g. g) [[scored ''a'' 9], [scored ''b'' 4]]) 6"
proof -
  let ?v = "visible_groups (\<lambda>g. g) [[scored ''a'' 9], [scored ''b'' 4]]"
  have p: "list_ex (list_ex (\<lambda>f. confidenceOnScale f \<noteq> JUndef)) ?v" by code_simp
  have b: "base_floor (countAtMin ?v) = 6" by code_simp
  have f: "defaultConfidenceFloor [[scored ''a'' 9], [scored ''b'' 4]] (\<lambda>g. g) = 5" by code_simp
  from opening_floor_spec [OF refl refl p] show ?thesis unfolding b f by blast
qed

text \<open>Why a key counts as covered.\<close>

definition accounted ::
    "jsval list \<Rightarrow> 'g list \<Rightarrow> ('g \<Rightarrow> fobj list) \<Rightarrow> ('g \<Rightarrow> fobj list) \<Rightarrow> (fobj \<Rightarrow> jsval) \<Rightarrow> jsval \<Rightarrow> bool" where
  "accounted ruledOut groups members tabs kindOf k =
     (k \<in> set ruledOut
      \<or> (\<exists>raw \<in> set groups. \<exists>f \<in> set (members raw). ruled_out kindOf f \<and> tabKey f = k)
      \<or> (\<exists>raw \<in> set groups. (\<exists>f \<in> set (tabs raw). confirms kindOf f)
          \<and> (\<exists>f \<in> set (members raw). tabKey f = k
              \<or> isApp f \<and> (\<exists>ids. get f ''revalidateInputs'' = JArr ids \<and> k \<in> set ids \<and> truthy k))))"

lemma represented_iff:
  "k \<in> set (represented raw) \<longleftrightarrow> (\<exists>f \<in> set raw. tabKey f = k
     \<or> isApp f \<and> (\<exists>ids. get f ''revalidateInputs'' = JArr ids \<and> k \<in> set ids \<and> truthy k))"
proof -
  have one: "k \<in> set (tabKey f # (if isApp f then (case get f ''revalidateInputs'' of JArr ids \<Rightarrow> filter truthy ids | _ \<Rightarrow> []) else []))
    \<longleftrightarrow> tabKey f = k \<or> isApp f \<and> (\<exists>ids. get f ''revalidateInputs'' = JArr ids \<and> k \<in> set ids \<and> truthy k)" for f
    by (cases "isApp f"; cases "get f ''revalidateInputs''"; simp add: eq_commute; blast?)
  have "k \<in> set (concat (map h raw)) \<longleftrightarrow> (\<exists>f \<in> set raw. k \<in> set (h f))" for h :: "fobj \<Rightarrow> jsval list" by simp
  from this [of "\<lambda>f. tabKey f # (if isApp f then (case get f ''revalidateInputs'' of JArr ids \<Rightarrow> filter truthy ids | _ \<Rightarrow> []) else [])"]
  show ?thesis unfolding represented_def one .
qed

lemma covered_iff:
  "k \<in> confirmedCoverage ruledOut groups members tabs kindOf \<longleftrightarrow> accounted ruledOut groups members tabs kindOf k"
proof -
  have "k \<in> set (concat (map (\<lambda>raw. represented (members raw)) (filter (\<lambda>raw. list_ex (confirms kindOf) (tabs raw)) groups)))
    \<longleftrightarrow> (\<exists>raw \<in> set groups. (\<exists>f \<in> set (tabs raw). confirms kindOf f) \<and> k \<in> set (represented (members raw)))"
    by (auto simp: list_ex_iff)
  moreover have "k \<in> tabKey ` set (filter (ruled_out kindOf) (concat (map members groups)))
    \<longleftrightarrow> (\<exists>raw \<in> set groups. \<exists>f \<in> set (members raw). ruled_out kindOf f \<and> tabKey f = k)" by auto
  ultimately show ?thesis unfolding confirmedCoverage_def accounted_def Un_iff represented_iff by blast
qed

lemma lock_covers:
  assumes "canLockConfirmed ruledOut groups members tabs kindOf severity"
    and "g \<in> set (visible_groups tabs groups)"
    and "showsAtConfidence g (effectiveFloor (visible_groups tabs groups) (defaultConfidenceFloor groups tabs)) kindOf"
    and "f \<in> set g"
  shows "accounted ruledOut groups members tabs kindOf (tabKey f)"
  using assms unfolding canLockConfirmed_def confirmedIsDefault_def Let_def
  by (auto simp: list_all_iff covered_iff split: if_splits)

text \<open>C26: the Confirmed lock is offered only where it hides nothing unaccounted for: something is
  on screen at the opening floor and some pass confirmed something; every finding on screen at
  that floor, and every one of a group above low severity that a floor of 6 leaves, is ruled
  out by some report, or is a member or an input of a row Confirmed shows.\<close>

theorem confirmed_lock_safe:
  assumes "canLockConfirmed ruledOut groups members tabs kindOf severity"
    and v: "visible = visible_groups tabs groups"
  shows "(\<exists>g \<in> set visible. showsAtConfidence g (effectiveFloor visible (defaultConfidenceFloor groups tabs)) kindOf)
    \<and> (\<exists>g \<in> set visible. \<exists>f \<in> set g. kindOf f \<in> {JStr ''confirmed'', JStr ''partial'', JStr ''revalidation''})
    \<and> (\<forall>g \<in> set visible. showsAtConfidence g (effectiveFloor visible (defaultConfidenceFloor groups tabs)) kindOf
        \<or> showsAtConfidence g (effectiveFloor visible 6) kindOf \<and> (\<exists>f \<in> set g. severity f \<noteq> JStr ''low'')
        \<longrightarrow> (\<forall>f \<in> set g. accounted ruledOut groups members tabs kindOf (tabKey f)))"
proof -
  have k: "confirmed_kinds = {JStr ''confirmed'', JStr ''partial'', JStr ''revalidation''}"
    by (simp add: confirmed_kinds_def activeRevalidateKinds_def revalidateFilterKinds_def REVALIDATE_FILTERS_def)
  show ?thesis using assms(1)
    unfolding canLockConfirmed_def confirmedIsDefault_def Let_def v [symmetric] k
    by (auto simp: list_ex_iff list_all_iff covered_iff filter_empty_conv split: if_splits)
qed

definition stamp :: "fobj \<Rightarrow> jsval" where
  "stamp f = (case get f ''revalidate'' of JStr s \<Rightarrow> JStr s | _ \<Rightarrow> JStr '''')"

theorem confirmed_lock_safe_witness:
  "accounted [] [[map_set ''revalidate'' (JStr ''confirmed'') (scored ''a'' 9)], [scored ''b'' 2]] (\<lambda>g. g) (\<lambda>g. g) stamp (JStr ''a'')"
proof -
  let ?g = "[[map_set ''revalidate'' (JStr ''confirmed'') (scored ''a'' 9)], [scored ''b'' 2]]"
  let ?v = "visible_groups (\<lambda>g. g) ?g"
  have c: "canLockConfirmed [] ?g (\<lambda>g. g) (\<lambda>g. g) stamp (\<lambda>f. JStr ''high'')" by code_simp
  have m: "hd ?g \<in> set ?v" by code_simp
  have s: "showsAtConfidence (hd ?g) (effectiveFloor ?v (defaultConfidenceFloor ?g (\<lambda>g. g))) stamp" by code_simp
  have f: "hd (hd ?g) \<in> set (hd ?g)" "tabKey (hd (hd ?g)) = JStr ''a''" by code_simp+
  from confirmed_lock_safe [OF c refl, THEN conjunct2, THEN conjunct2, THEN bspec, OF m] s f(1)
  have "accounted [] ?g (\<lambda>g. g) (\<lambda>g. g) stamp (tabKey (hd (hd ?g)))" by blast
  then show ?thesis unfolding f(2) .
qed

end
