(* ===== verification/WorkspaceApp.thy ===== *)
theory WorkspaceApp
  imports ConfidenceFilters
begin

text \<open>
  A workspace's basic App view (\<^verbatim>\<open>src/common/workspace-app.js\<close>): the rows of its reports
  merged (theory WorkspaceGroups), those its links connect combined (LinkedGroups), and
  whether Confirmed may be locked over them (ConfidenceFilters). The client and the server of
  a managed team both ask it.
\<close>

section \<open>The view\<close>

definition appTabs :: "(fobj \<Rightarrow> jsval) \<Rightarrow> lgroup \<Rightarrow> fobj list" where
  "appTabs revalidateKindOf g =
     (case lg_linked g of Some tabs \<Rightarrow> tabs
      | None \<Rightarrow> (let app = filter (\<lambda>f. revalidateKindOf f = JStr ''revalidation'') (lg_members g) in
          if app \<noteq> [] then app else lg_members g))"

definition onlyUnjudgedImports :: "(fobj \<Rightarrow> jsval) \<Rightarrow> lgroup list \<Rightarrow> bool" where
  "onlyUnjudgedImports revalidateKindOf groups =
     (let visible = visible_groups (appTabs revalidateKindOf) groups in
      visible \<noteq> [] \<and> list_all (list_all (\<lambda>f. isApp f \<and> truthy (get f ''_source'') \<and> \<not> truthy (get f ''_sourcePass'')
        \<and> revalidateKindOf f = JStr [])) visible)"

definition as_lgroup :: "wgroup \<Rightarrow> lgroup" where
  "as_lgroup g = \<lparr>lg_members = wg_members g, lg_key = wg_key g, lg_linked = None\<rparr>"

definition app_opts :: wopts where
  "app_opts = \<lparr>showRevalidation = True, upstreamOnly = False, hideRuledOut = True, wo_merges = []\<rparr>"

record app_view =
  av_linked :: "lgroup list"
  av_app :: bool

text \<open>\<open>rk\<close> is \<open>revalidateKindOf\<close>, \<open>es\<close> the effective severity the merge compares, \<open>sev\<close> the
  displayed severity with corrections on.\<close>

definition appView ::
    "(fobj \<Rightarrow> jsval) \<Rightarrow> (fobj \<Rightarrow> jsval) \<Rightarrow> (fobj \<Rightarrow> jsval) \<Rightarrow> wreport list \<Rightarrow> (jsval \<Rightarrow> jsval list) \<Rightarrow> app_view option" where
  "appView rk es sev reports duplicatesOf =
     Option.bind (mergeReportGroups rk es app_opts reports) (\<lambda>(groups, conflicts).
       map_option (\<lambda>linked. \<lparr>av_linked = linked, av_app = (conflicts = []
           \<and> (onlyUnjudgedImports rk linked
              \<or> canLockConfirmed (ruledOutIds rk reports) linked lg_members (appTabs rk) rk sev))\<rparr>)
         (mergeLinkedWorkspaceGroups (map as_lgroup groups) duplicatesOf (appTabs rk) (appTabs rk)))"

record app_metadata =
  appMode :: bool
  am_findings :: "nat option"
  appFindings :: "nat option"

definition metadataOf :: "(fobj \<Rightarrow> jsval) \<Rightarrow> app_view \<Rightarrow> bool \<Rightarrow> app_metadata" where
  "metadataOf rk v countFindings =
     (if \<not> av_app v then \<lparr>appMode = False,
        am_findings = (if countFindings then Some (length (av_linked v)) else None), appFindings = None\<rparr>
      else \<lparr>appMode = True, am_findings = None,
        appFindings = Some (length (filter (\<lambda>g. list_ex isApp (appTabs rk g)) (av_linked v)))\<rparr>)"

definition rowsOf :: "(fobj \<Rightarrow> jsval) \<Rightarrow> app_view \<Rightarrow> jsval list option" where
  "rowsOf rk v =
     (if \<not> av_app v \<or> onlyUnjudgedImports rk (av_linked v) then None
      else Some (js_set (concat (map (\<lambda>g. map (\<lambda>f. get f ''id'') (appTabs rk g))
        (filter (\<lambda>g. list_ex (confirms rk) (lg_members g)) (av_linked v))))))"

definition workspaceAppMetadata ::
    "(fobj \<Rightarrow> jsval) \<Rightarrow> (fobj \<Rightarrow> jsval) \<Rightarrow> (fobj \<Rightarrow> jsval) \<Rightarrow> wreport list \<Rightarrow> (jsval \<Rightarrow> jsval list) \<Rightarrow> bool \<Rightarrow> app_metadata option" where
  "workspaceAppMetadata rk es sev reports duplicatesOf countFindings =
     map_option (\<lambda>v. metadataOf rk v countFindings) (appView rk es sev reports duplicatesOf)"

definition workspaceAppRows ::
    "(fobj \<Rightarrow> jsval) \<Rightarrow> (fobj \<Rightarrow> jsval) \<Rightarrow> (fobj \<Rightarrow> jsval) \<Rightarrow> wreport list \<Rightarrow> (jsval \<Rightarrow> jsval list) \<Rightarrow> jsval list option option" where
  "workspaceAppRows rk es sev reports duplicatesOf = map_option (rowsOf rk) (appView rk es sev reports duplicatesOf)"

definition workspaceApp ::
    "(fobj \<Rightarrow> jsval) \<Rightarrow> (fobj \<Rightarrow> jsval) \<Rightarrow> (fobj \<Rightarrow> jsval) \<Rightarrow> wreport list \<Rightarrow> (jsval \<Rightarrow> jsval list) \<Rightarrow> bool \<Rightarrow> (app_metadata \<times> jsval list option) option" where
  "workspaceApp rk es sev reports duplicatesOf countFindings =
     map_option (\<lambda>v. (metadataOf rk v countFindings, rowsOf rk v)) (appView rk es sev reports duplicatesOf)"

section \<open>Findings of the view\<close>

lemma map_ok_value: "map_ok m \<Longrightarrow> v \<in> set (map snd m) \<Longrightarrow> \<exists>k. map_of m k = Some v"
  unfolding map_ok_def by (metis (no_types, lifting) imageE list.set_map map_of_is_SomeI prod.collapse)

lemma retained_subset: "set (map snd (retained_tabs t rows)) \<subseteq> (\<Union>r \<in> set rows. set (t r))"
proof
  fix v
  assume v: "v \<in> set (map snd (retained_tabs t rows))"
  have ok: "map_ok (retained_tabs t rows)" unfolding retained_tabs_def by (rule first_of_each(1))
  from map_ok_value [OF ok v] obtain k where k: "map_of (retained_tabs t rows) k = Some v" ..
  have "map_ok ([] :: (jsval, fobj) jsmap)" by (simp add: map_ok_def)
  from put_new_fold [OF this, of row_key "\<lambda>f. f" "concat (map t rows)", THEN conjunct2, THEN conjunct2, rule_format,
    OF k [unfolded retained_tabs_def]]
  have "\<exists>f \<in> set (concat (map t rows)). f = v" unfolding map_of.simps option.distinct simp_thms by blast
  then show "v \<in> (\<Union>r \<in> set rows. set (t r))" unfolding set_concat set_map by blast
qed

lemma linked_subset:
  "set (map snd (linked_members vis rows)) \<subseteq> (\<Union>r \<in> set rows. set (lg_members r)) \<union> {v. \<exists>k. map_of vis k = Some v}"
proof
  fix v
  let ?val = "\<lambda>f. case map_of vis (row_key f) of Some v \<Rightarrow> v | None \<Rightarrow> f"
  assume v: "v \<in> set (map snd (linked_members vis rows))"
  have ok: "map_ok (linked_members vis rows)" unfolding linked_members_def by (rule first_of_each(1))
  from map_ok_value [OF ok v] obtain k where k: "map_of (linked_members vis rows) k = Some v" ..
  have "map_ok ([] :: (jsval, fobj) jsmap)" by (simp add: map_ok_def)
  from put_new_fold [OF this, of row_key ?val "concat (map lg_members rows)", THEN conjunct2, THEN conjunct2, rule_format,
    OF k [unfolded linked_members_def]]
  have "\<exists>f \<in> set (concat (map lg_members rows)). ?val f = v" unfolding map_of.simps option.distinct simp_thms by blast
  then obtain f where "f \<in> set (concat (map lg_members rows))" "?val f = v" by blast
  then show "v \<in> (\<Union>r \<in> set rows. set (lg_members r)) \<union> {v. \<exists>k. map_of vis k = Some v}"
    by (auto split: option.splits)
qed

definition findings_of :: "(fobj \<Rightarrow> jsval) \<Rightarrow> lgroup \<Rightarrow> fobj set" where
  "findings_of rk g = set (lg_members g) \<union> set (appTabs rk g)"

lemma merge_linked_findings:
  "rows \<noteq> [] \<Longrightarrow> findings_of rk (merge_linked (appTabs rk) rows) \<subseteq> (\<Union>r \<in> set rows. findings_of rk r)"
proof -
  assume ne: "rows \<noteq> []"
  show ?thesis
  proof (cases "\<exists>r. rows = [r]")
    case True
    then show ?thesis by (auto simp: merge_linked_def)
  next
    case False
    let ?vis = "retained_tabs (appTabs rk) rows"
    have m: "lg_members (merge_linked (appTabs rk) rows) = map snd (linked_members ?vis rows)"
      "appTabs rk (merge_linked (appTabs rk) rows) = map snd ?vis"
      using False ne by (auto simp: merge_linked_def appTabs_def Let_def split: list.splits)
    have "v \<in> set (map snd ?vis)" if "map_of ?vis k = Some v" for k v
      using map_of_SomeD [OF that] by force
    with retained_subset [of "appTabs rk" rows] linked_subset [of ?vis rows]
    show ?thesis unfolding findings_of_def m by blast
  qed
qed

lemma linked_findings:
  assumes "mergeLinkedWorkspaceGroups rows duplicatesOf (appTabs rk) (appTabs rk) = Some out" and "g \<in> set out"
  shows "findings_of rk g \<subseteq> (\<Union>r \<in> set rows. findings_of rk r)"
proof -
  obtain cs where cs: "link_components duplicatesOf (map (appTabs rk) rows) (length rows) = Some cs"
    "mset (concat cs) = mset [0..<length rows]" "[] \<notin> set cs"
    using link_components_ok [of duplicatesOf "map (appTabs rk) rows" "length rows"] by blast
  have out: "out = (if length cs = length rows then rows else map (\<lambda>is. merge_linked (appTabs rk) (map ((!) rows) is)) cs)"
    using assms(1) cs(1) by (simp add: mergeLinkedWorkspaceGroups_def)
  show ?thesis
  proof (cases "length cs = length rows")
    case True
    with out assms(2) show ?thesis by auto
  next
    case False
    with out assms(2) obtain c where c: "c \<in> set cs" "g = merge_linked (appTabs rk) (map ((!) rows) c)" by auto
    have "c \<noteq> []" using c(1) cs(3) by metis
    then have "findings_of rk g \<subseteq> (\<Union>r \<in> set (map ((!) rows) c). findings_of rk r)"
      unfolding c(2) by (intro merge_linked_findings) simp
    moreover have "set (map ((!) rows) c) \<subseteq> set rows"
    proof -
      have "set c \<subseteq> set (concat cs)" using c(1) by auto
      also have "\<dots> = {0..<length rows}" using mset_eq_setD [OF cs(2)] by simp
      finally show ?thesis by auto
    qed
    ultimately show ?thesis by blast
  qed
qed

lemma as_lgroup_findings: "findings_of rk (as_lgroup g) = set (wg_members g)"
  by (auto simp: findings_of_def as_lgroup_def appTabs_def Let_def)

lemma appView_total:
  "\<exists>groups conflicts linked. mergeReportGroups rk es app_opts reports = Some (groups, conflicts)
    \<and> mergeLinkedWorkspaceGroups (map as_lgroup groups) duplicatesOf (appTabs rk) (appTabs rk) = Some linked
    \<and> output_ids groups = (\<Union>row \<in> set (workspace_rows rk app_opts reports). set (ids_of (rw_group row)))
    \<and> appView rk es sev reports duplicatesOf = Some \<lparr>av_linked = linked, av_app = (conflicts = []
           \<and> (onlyUnjudgedImports rk linked
              \<or> canLockConfirmed (ruledOutIds rk reports) linked lg_members (appTabs rk) rk sev))\<rparr>"
proof -
  obtain groups conflicts where m: "mergeReportGroups rk es app_opts reports = Some (groups, conflicts)"
    "output_ids groups = (\<Union>row \<in> set (workspace_rows rk app_opts reports). set (ids_of (rw_group row)))"
    using mergeReportGroups_total [of rk es app_opts reports] by blast
  obtain cs where "link_components duplicatesOf (map (appTabs rk) (map as_lgroup groups)) (length (map as_lgroup groups)) = Some cs"
    using link_components_ok by blast
  then obtain linked where "mergeLinkedWorkspaceGroups (map as_lgroup groups) duplicatesOf (appTabs rk) (appTabs rk) = Some linked"
    by (simp add: mergeLinkedWorkspaceGroups_def)
  with m show ?thesis by (auto simp: appView_def)
qed


lemma view_findings:
  assumes "mergeReportGroups rk es app_opts reports = Some (groups, conflicts)"
    and "output_ids groups = (\<Union>row \<in> set (workspace_rows rk app_opts reports). set (ids_of (rw_group row)))"
    and "mergeLinkedWorkspaceGroups (map as_lgroup groups) duplicatesOf (appTabs rk) (appTabs rk) = Some linked"
    and "g \<in> set linked" and "f \<in> findings_of rk g" and "truthy (get f ''id'')"
  shows "\<exists>report \<in> set reports. \<exists>fs \<in> set (wr_groups report). \<exists>x \<in> set fs. get x ''id'' = get f ''id'' \<and> \<not> ruled_out rk x"
proof -
  from linked_findings [OF assms(3,4)] assms(5) obtain wg where wg: "wg \<in> set groups" "f \<in> set (wg_members wg)"
    by (auto simp: as_lgroup_findings)
  with assms(6) have "get f ''id'' \<in> output_ids groups" unfolding output_ids_def ids_of_def by auto
  then obtain row where row: "row \<in> set (workspace_rows rk app_opts reports)" "get f ''id'' \<in> set (ids_of (rw_group row))"
    unfolding assms(2) by blast
  from row(1) obtain i report fs where r: "(i, report) \<in> set (enumerate 0 reports)" "fs \<in> set (wr_groups report)"
      "rw_group row = visible_members rk app_opts fs"
    unfolding workspace_rows_def report_rows_def by (auto simp: Let_def split: if_splits)
  from row(2) obtain x where x: "x \<in> set (rw_group row)" "get x ''id'' = get f ''id''" unfolding ids_of_def by auto
  then have "x \<in> set fs" "\<not> ruled_out rk x" unfolding r(3) visible_members_def app_opts_def by simp_all
  moreover have "report \<in> set reports" using r(1) by (metis enumerate_eq_zip set_zip_rightD)
  ultimately show ?thesis using r(2) x(2) by blast
qed

section \<open>Properties\<close>

text \<open>C5: the App view of a workspace always exists, whatever its reports and links. Where it is
  offered over judged findings, Confirmed hides nothing of what the view opens on that is not
  ruled out or stood for by a row it shows; and every identity it lets through is one some
  report holds and does not rule out.\<close>

theorem app_view_sound:
  "\<exists>v. appView rk es sev reports duplicatesOf = Some v
    \<and> (av_app v \<and> \<not> onlyUnjudgedImports rk (av_linked v) \<longrightarrow>
        (\<forall>g \<in> set (visible_groups (appTabs rk) (av_linked v)).
          showsAtConfidence g (effectiveFloor (visible_groups (appTabs rk) (av_linked v))
              (defaultConfidenceFloor (av_linked v) (appTabs rk))) rk \<longrightarrow>
          (\<forall>f \<in> set g. accounted (ruledOutIds rk reports) (av_linked v) lg_members (appTabs rk) rk (tabKey f))))
    \<and> (\<forall>ids. rowsOf rk v = Some ids \<longrightarrow> (\<forall>i \<in> set ids. truthy i \<longrightarrow>
        (\<exists>report \<in> set reports. \<exists>fs \<in> set (wr_groups report). \<exists>f \<in> set fs. get f ''id'' = i \<and> \<not> ruled_out rk f)))"
proof -
  obtain groups conflicts linked where m: "mergeReportGroups rk es app_opts reports = Some (groups, conflicts)"
    "output_ids groups = (\<Union>row \<in> set (workspace_rows rk app_opts reports). set (ids_of (rw_group row)))"
    and l: "mergeLinkedWorkspaceGroups (map as_lgroup groups) duplicatesOf (appTabs rk) (appTabs rk) = Some linked"
    and a: "appView rk es sev reports duplicatesOf = Some \<lparr>av_linked = linked, av_app = (conflicts = []
           \<and> (onlyUnjudgedImports rk linked
              \<or> canLockConfirmed (ruledOutIds rk reports) linked lg_members (appTabs rk) rk sev))\<rparr>"
    by (rule exE [OF appView_total [of rk es reports duplicatesOf sev]]) (elim exE conjE, rule that)
  let ?app = "conflicts = [] \<and> (onlyUnjudgedImports rk linked
              \<or> canLockConfirmed (ruledOutIds rk reports) linked lg_members (appTabs rk) rk sev)"
  let ?visible = "visible_groups (appTabs rk) linked"
  have lock: "\<forall>g \<in> set ?visible. showsAtConfidence g (effectiveFloor ?visible (defaultConfidenceFloor linked (appTabs rk))) rk \<longrightarrow>
      (\<forall>f \<in> set g. accounted (ruledOutIds rk reports) linked lg_members (appTabs rk) rk (tabKey f))"
    if "?app \<and> \<not> onlyUnjudgedImports rk linked"
    using lock_covers that by blast
  have rows: "\<exists>report \<in> set reports. \<exists>fs \<in> set (wr_groups report). \<exists>f \<in> set fs. get f ''id'' = i \<and> \<not> ruled_out rk f"
    if h: "rowsOf rk \<lparr>av_linked = linked, av_app = ?app\<rparr> = Some ids" "i \<in> set ids" "truthy i" for ids i
  proof -
    from h(1) have "ids = js_set (concat (map (\<lambda>g. map (\<lambda>f. get f ''id'') (appTabs rk g)) (filter (\<lambda>g. list_ex (confirms rk) (lg_members g)) linked)))"
      unfolding rowsOf_def by (simp split: if_splits)
    with h(2) have "i \<in> set (concat (map (\<lambda>g. map (\<lambda>f. get f ''id'') (appTabs rk g)) (filter (\<lambda>g. list_ex (confirms rk) (lg_members g)) linked)))"
      by (simp only: set_js_set)
    then obtain g f where "g \<in> set linked" "f \<in> set (appTabs rk g)" "i = get f ''id''"
      by (auto simp only: set_concat set_map set_filter UN_iff image_iff mem_Collect_eq)
    with view_findings [OF m l, of g f] h(3) show ?thesis unfolding findings_of_def by blast
  qed
  show ?thesis
    by (rule exI [of _ "\<lparr>av_linked = linked, av_app = ?app\<rparr>"], unfold app_view.simps)
      (rule conjI [OF a conjI [OF impI [OF lock] allI [OF impI [OF ballI [OF impI [OF rows]]]]]])
qed

definition confirmed_report :: wreport where
  "confirmed_report = \<lparr>wr_groups = [[map_set ''revalidate'' (JStr ''confirmed'') (scored ''a'' 9)],
     [map_set ''revalidate'' (JStr ''refuted'') (scored ''b'' 9)]], wr_fileName = JStr ''r''\<rparr>"

theorem app_view_sound_witness:
  "\<exists>v. appView stamp stamp (\<lambda>f. JStr ''high'') [confirmed_report] (\<lambda>i. []) = Some v \<and> av_app v
     \<and> rowsOf stamp v = Some [JStr ''a'']
     \<and> (\<exists>report \<in> set [confirmed_report]. \<exists>fs \<in> set (wr_groups report). \<exists>f \<in> set fs. get f ''id'' = JStr ''a'' \<and> \<not> ruled_out stamp f)"
proof -
  obtain v where v: "appView stamp stamp (\<lambda>f. JStr ''high'') [confirmed_report] (\<lambda>i. []) = Some v"
    and r: "\<And>ids i. rowsOf stamp v = Some ids \<Longrightarrow> i \<in> set ids \<Longrightarrow> truthy i \<Longrightarrow>
      (\<exists>report \<in> set [confirmed_report]. \<exists>fs \<in> set (wr_groups report). \<exists>f \<in> set fs. get f ''id'' = i \<and> \<not> ruled_out stamp f)"
    using app_view_sound [of stamp stamp "\<lambda>f. JStr ''high''" "[confirmed_report]" "\<lambda>i. []"] by blast
  have "map_option (\<lambda>v. (av_app v, rowsOf stamp v)) (appView stamp stamp (\<lambda>f. JStr ''high'') [confirmed_report] (\<lambda>i. []))
      = Some (True, Some [JStr ''a''])" by code_simp
  with v have e: "av_app v" "rowsOf stamp v = Some [JStr ''a'']" by simp_all
  from r [OF e(2), of "JStr ''a''"] v e show ?thesis by simp
qed

end
