(* ===== verification/LineDiff.thy ===== *)
theory LineDiff
  imports JsText
begin

text \<open>
  The check of change blocks between two texts (\<^verbatim>\<open>src/common/line-diff.js\<close>): the lines
  of a text, the way a diff that ignores blanks reads a line, and \<open>blocksHold\<close>, which decides
  whether blocks found elsewhere take one text to the other. The blocks come from outside, so a
  block may be missing and any of its fields may be no whole number.
\<close>

section \<open>The lines of a text\<close>

definition newline :: char where
  "newline = CHR 0x0A"

definition textLines :: "string \<Rightarrow> string list" where
  "textLines s =
     (if s = [] then []
      else let ls = split_on newline s in if last ls = [] then butlast ls else ls)"

definition endsLine :: "string \<Rightarrow> bool" where
  "endsLine s = (s = [] \<or> ends_with [newline] s)"

definition blank :: "char \<Rightarrow> bool" where
  "blank c = (c = CHR '' '' \<or> (9::nat) \<le> of_char c \<and> of_char c \<le> (13::nat))"

text \<open>A run of blanks as one space.\<close>

fun squeeze :: "string \<Rightarrow> string" where
  "squeeze [] = []"
| "squeeze (c # cs) =
     (if blank c then (case cs of d # _ \<Rightarrow> if blank d then squeeze cs else CHR '' '' # squeeze cs | [] \<Rightarrow> [CHR '' ''])
      else c # squeeze cs)"

definition spacing :: "string \<Rightarrow> string" where
  "spacing line = squeeze (rev (dropWhile blank (rev line)))"

definition alike :: "bool \<Rightarrow> string \<Rightarrow> string \<Rightarrow> bool" where
  "alike ignoreWhitespace x y = (if ignoreWhitespace then spacing x = spacing y else x = y)"

section \<open>The blocks\<close>

text \<open>A field is \<open>None\<close> where it is no whole number; \<open>rb_last\<close> is whether the block's own
  \<open>last\<close> is truthy.\<close>

record raw_block =
  rb_a0 :: "int option"
  rb_a1 :: "int option"
  rb_b0 :: "int option"
  rb_b1 :: "int option"
  rb_last :: bool

datatype raw_blocks = NoArray | Blocks "raw_block option list"

definition block_fields :: "raw_block option \<Rightarrow> (int \<times> int \<times> int \<times> int \<times> bool) option" where
  "block_fields block =
     (case block of None \<Rightarrow> None
      | Some b \<Rightarrow> (case (rb_a0 b, rb_a1 b, rb_b0 b, rb_b1 b) of
          (Some a0, Some a1, Some b0, Some b1) \<Rightarrow> Some (a0, a1, b0, b1, rb_last b)
        | _ \<Rightarrow> None))"

text \<open>The inner loop: \<open>n\<close> lines alike from \<open>i\<close> and \<open>j\<close> on.\<close>

fun alike_run :: "(string \<Rightarrow> string \<Rightarrow> bool) \<Rightarrow> string list \<Rightarrow> string list \<Rightarrow> nat \<Rightarrow> nat \<Rightarrow> nat \<Rightarrow> bool" where
  "alike_run same a b i j 0 = True"
| "alike_run same a b i j (Suc n) = (same (a ! i) (b ! j) \<and> alike_run same a b (Suc i) (Suc j) n)"

text \<open>One turn of the outer loop: the place after the block, or \<open>None\<close> where it fails.\<close>

definition block_step ::
    "string \<Rightarrow> string \<Rightarrow> bool \<Rightarrow> raw_block option \<Rightarrow> nat \<times> nat \<Rightarrow> (nat \<times> nat) option" where
  "block_step before after ignoreWhitespace block ij =
     (let a = textLines before; b = textLines after; (i, j) = ij in
      case block_fields block of None \<Rightarrow> None
      | Some (a0, a1, b0, b1, lst) \<Rightarrow>
          if a0 < int i \<or> b0 < int j \<or> a1 < a0 \<or> b1 < b0 \<or> a1 > int (length a) \<or> b1 > int (length b) then None
          else if \<not> lst \<and> a1 = a0 \<and> b1 = b0 \<or> a0 - int i \<noteq> b0 - int j then None
          else if lst \<and> a0 > int i \<and> \<not> ignoreWhitespace \<and> endsLine before \<noteq> endsLine after then None
          else if \<not> alike_run (alike ignoreWhitespace) a b i j (nat a0 - i) then None
          else Some (nat a1, nat b1))"

fun blocks_loop :: "string \<Rightarrow> string \<Rightarrow> bool \<Rightarrow> raw_block option list \<Rightarrow> nat \<times> nat \<Rightarrow> bool" where
  "blocks_loop before after w [] ij = True"
| "blocks_loop before after w (block # bs) ij =
     (case block_step before after w block ij of None \<Rightarrow> False | Some ij' \<Rightarrow> blocks_loop before after w bs ij')"

definition sentinel :: "string \<Rightarrow> string \<Rightarrow> raw_block" where
  "sentinel before after =
     (let m = int (length (textLines before)); n = int (length (textLines after)) in
      \<lparr>rb_a0 = Some m, rb_a1 = Some m, rb_b0 = Some n, rb_b1 = Some n, rb_last = True\<rparr>)"

definition blocksHold :: "string \<Rightarrow> string \<Rightarrow> raw_blocks \<Rightarrow> bool \<Rightarrow> bool" where
  "blocksHold before after blocks ignoreWhitespace =
     (case blocks of NoArray \<Rightarrow> False
      | Blocks bs \<Rightarrow> blocks_loop before after ignoreWhitespace (bs @ [Some (sentinel before after)]) (0, 0))"

section \<open>What a diff means\<close>

text \<open>A change block with whole bounds, and the text it makes of the old one: the lines before
  it kept, its own replaced.\<close>

record block =
  from_a :: nat
  to_a :: nat
  from_b :: nat
  to_b :: nat

definition block_of :: "raw_block option \<Rightarrow> block option" where
  "block_of r = (case block_fields r of None \<Rightarrow> None
     | Some (x0, x1, y0, y1, lst) \<Rightarrow>
         if x0 < 0 \<or> x1 < 0 \<or> y0 < 0 \<or> y1 < 0 then None
         else Some \<lparr>from_a = nat x0, to_a = nat x1, from_b = nat y0, to_b = nat y1\<rparr>)"

fun patched :: "'a list \<Rightarrow> 'a list \<Rightarrow> block list \<Rightarrow> nat \<Rightarrow> 'a list" where
  "patched a b [] i = drop i a"
| "patched a b (k # ks) i =
     take (from_a k - i) (drop i a) @ take (to_b k - from_b k) (drop (from_b k) b) @ patched a b ks (to_a k)"

text \<open>In order, apart from each other by as much on either side, and within \<open>m\<close> and \<open>n\<close>.\<close>

fun in_place :: "block list \<Rightarrow> nat \<Rightarrow> nat \<Rightarrow> nat \<Rightarrow> nat \<Rightarrow> bool" where
  "in_place [] i j m n = (i \<le> m \<and> j \<le> n \<and> m - i = n - j)"
| "in_place (k # ks) i j m n =
     (i \<le> from_a k \<and> j \<le> from_b k \<and> from_a k - i = from_b k - j \<and> from_a k \<le> to_a k \<and> from_b k \<le> to_b k \<and> to_a k \<le> m \<and> to_b k \<le> n
      \<and> (from_a k < to_a k \<or> from_b k < to_b k) \<and> in_place ks (to_a k) (to_b k) m n)"

definition reaches_end :: "block list \<Rightarrow> nat \<Rightarrow> bool" where
  "reaches_end ks m = (if ks = [] then m = 0 else to_a (last ks) = m)"

section \<open>Lines\<close>

lemma alike_refl [simp]: "alike w x x"
  by (simp add: alike_def)

lemma alike_run_iff:
  "i + n \<le> length a \<Longrightarrow> j + n \<le> length b \<Longrightarrow>
    alike_run same a b i j n \<longleftrightarrow> list_all2 same (take n (drop i a)) (take n (drop j b))"
proof (induction n arbitrary: i j)
  case (Suc n)
  then have "drop i a = a ! i # drop (Suc i) a" "drop j b = b ! j # drop (Suc j) b"
    by (simp_all add: Cons_nth_drop_Suc)
  with Suc show ?case by simp
qed simp

lemma split_on_snoc: "split_on c (r @ [c]) = split_on c r @ [[]]"
proof (induction r)
  case (Cons x r)
  then show ?case by (cases "split_on c r") (use split_on_not_Nil [of c r] in \<open>auto simp del: split_on_not_Nil\<close>)
qed simp

lemma join_not_Nil: "ws \<noteq> [] \<Longrightarrow> join [c] (ws @ [[]]) = join [c] ws @ [c]"
  by (induction "[c]" ws rule: join.induct) simp_all

text \<open>The lines and the ending of a text are all of it.\<close>

lemma textLines_text:
  "s = (if s = [] then [] else if endsLine s then join [newline] (textLines s) @ [newline] else join [newline] (textLines s))"
proof (cases "s = []")
  case False
  let ?ls = "split_on newline s"
  have j: "join [newline] ?ls = s" by simp
  show ?thesis
  proof (cases "last ?ls = []")
    case True
    then have ls: "?ls = butlast ?ls @ [[]]" by (metis append_butlast_last_id split_on_not_Nil)
    have ne: "butlast ?ls \<noteq> []"
    proof
      assume "butlast ?ls = []"
      with ls have "?ls = [[]]" by simp
      with j False show False by simp
    qed
    then have "s = join [newline] (butlast ?ls) @ [newline]" using join_not_Nil [OF ne] j ls by metis
    with True False show ?thesis unfolding endsLine_def textLines_def
      by (simp add: Let_def) (metis ends_with_iff)
  next
    case no: False
    have "\<not> ends_with [newline] s"
    proof
      assume "ends_with [newline] s"
      then obtain r where r: "s = r @ [newline]" by (auto simp: ends_with_iff)
      with no show False by (simp add: split_on_snoc)
    qed
    with no False j show ?thesis unfolding endsLine_def textLines_def by (simp add: Let_def)
  qed
qed simp

lemma textLines_Nil [simp]: "textLines s = [] \<longleftrightarrow> s = []"
proof
  assume e: "textLines s = []"
  show "s = []"
  proof (rule ccontr)
    assume ne: "s \<noteq> []"
    have "split_on newline s \<noteq> [[]]"
    proof
      assume "split_on newline s = [[]]"
      then have "join [newline] [[]] = s" by (metis join_split)
      with ne show False by simp
    qed
    moreover have "split_on newline s = butlast (split_on newline s) @ [last (split_on newline s)]" by simp
    ultimately have "last (split_on newline s) = [] \<Longrightarrow> butlast (split_on newline s) \<noteq> []" by (metis append_Nil)
    with e ne show False by (simp add: textLines_def Let_def split: if_splits)
  qed
qed (simp add: textLines_def)

lemma text_determined:
  "textLines s = textLines t \<Longrightarrow> endsLine s = endsLine t \<Longrightarrow> s = t"
  using textLines_text [of s] textLines_text [of t] textLines_Nil [of s] textLines_Nil [of t]
  by (metis (full_types))

section \<open>The check\<close>

lemma take_drop_split:
  "j \<le> k \<Longrightarrow> k \<le> l \<Longrightarrow> drop j b = take (k - j) (drop j b) @ take (l - k) (drop k b) @ drop l b"
  by (metis add_diff_inverse_nat append_take_drop_id drop_drop le_add_diff_inverse2 not_le)

lemma block_step_iff:
  assumes "block = None \<or> \<not> rb_last (the block)" and "i \<le> length (textLines before)" and "j \<le> length (textLines after)"
  shows "block_step before after w block (i, j) = Some ij \<longleftrightarrow>
    (\<exists>k. block_of block = Some k \<and> i \<le> from_a k \<and> j \<le> from_b k \<and> from_a k - i = from_b k - j
       \<and> from_a k \<le> to_a k \<and> from_b k \<le> to_b k \<and> to_a k \<le> length (textLines before) \<and> to_b k \<le> length (textLines after)
       \<and> (from_a k < to_a k \<or> from_b k < to_b k)
       \<and> list_all2 (alike w) (take (from_a k - i) (drop i (textLines before))) (take (from_b k - j) (drop j (textLines after)))
       \<and> ij = (to_a k, to_b k))"
proof (cases "block_fields block")
  case None
  then show ?thesis by (simp add: block_step_def block_of_def Let_def)
next
  case (Some f)
  obtain x0 x1 y0 y1 l where f: "f = (x0, x1, y0, y1, l)" by (cases f)
  have l: "\<not> l" using Some assms(1) unfolding f by (cases block) (auto simp: block_fields_def split: option.splits)
  show ?thesis
  proof (cases "x0 < int i \<or> y0 < int j \<or> x1 < x0 \<or> y1 < y0 \<or> x1 > int (length (textLines before)) \<or> y1 > int (length (textLines after))")
    case True
    then show ?thesis using Some unfolding f by (auto simp: block_step_def block_of_def Let_def)
  next
    case False
    then obtain m0 m1 n0 n1 where n: "x0 = int m0" "x1 = int m1" "y0 = int n0" "y1 = int n1"
      by (metis nonneg_int_cases of_nat_0_le_iff order_trans not_less)
    have b: "block_of block = Some \<lparr>from_a = m0, to_a = m1, from_b = n0, to_b = n1\<rparr>"
      using Some unfolding f n by (simp add: block_of_def)
    show ?thesis
    proof (cases "m0 - i = n0 - j")
      case True
      have r: "alike_run (alike w) (textLines before) (textLines after) i j (m0 - i) \<longleftrightarrow>
          list_all2 (alike w) (take (m0 - i) (drop i (textLines before))) (take (n0 - j) (drop j (textLines after)))"
      proof -
        have "i + (m0 - i) \<le> length (textLines before)" "j + (m0 - i) \<le> length (textLines after)"
          using True False n by linarith+
        from alike_run_iff [OF this] True show ?thesis by simp
      qed
      have d: "int m0 - int i = int n0 - int j" using True False n by linarith
      show ?thesis using Some False l d r True unfolding f n b by (auto simp: block_step_def Let_def)
    next
      case ne: False
      then show ?thesis using Some False l unfolding f n b by (auto simp: block_step_def Let_def)
    qed
  qed
qed

lemma sentinel_step:
  assumes "i \<le> length (textLines before)" and "j \<le> length (textLines after)"
  shows "block_step before after w (Some (sentinel before after)) (i, j) \<noteq> None \<longleftrightarrow>
    length (textLines before) - i = length (textLines after) - j
    \<and> list_all2 (alike w) (drop i (textLines before)) (drop j (textLines after))
    \<and> (w \<or> endsLine before = endsLine after \<or> i = length (textLines before))"
proof (cases "length (textLines before) - i = length (textLines after) - j")
  case True
  have r: "alike_run (alike w) (textLines before) (textLines after) i j (length (textLines before) - i) \<longleftrightarrow>
      list_all2 (alike w) (drop i (textLines before)) (drop j (textLines after))"
    using alike_run_iff [of i "length (textLines before) - i" "textLines before" j "textLines after" "alike w"] assms True
    by simp
  have d: "int (length (textLines before)) - int i = int (length (textLines after)) - int j"
    using True assms by linarith
  show ?thesis using assms d r True
    by (auto simp: block_step_def sentinel_def block_fields_def Let_def)
next
  case False
  then show ?thesis using assms by (auto simp: block_step_def sentinel_def block_fields_def Let_def)
qed

lemma blocks_loop_iff:
  assumes "list_all (\<lambda>r. r = None \<or> \<not> rb_last (the r)) bs"
    and "i \<le> length (textLines before)" and "j \<le> length (textLines after)"
  shows "blocks_loop before after w (bs @ [Some (sentinel before after)]) (i, j) \<longleftrightarrow>
    (\<exists>ks. map block_of bs = map Some ks
       \<and> in_place ks i j (length (textLines before)) (length (textLines after))
       \<and> list_all2 (alike w) (patched (textLines before) (textLines after) ks i) (drop j (textLines after))
       \<and> (w \<or> endsLine before = endsLine after
           \<or> (if ks = [] then i else to_a (last ks)) = length (textLines before)))"
  using assms
proof (induction bs arbitrary: i j)
  case Nil
  then show ?case using sentinel_step [OF Nil(2,3), of w] by (auto split: option.splits)
next
  case (Cons r bs)
  let ?a = "textLines before" and ?b = "textLines after"
  have r: "r = None \<or> \<not> rb_last (the r)" and bs: "list_all (\<lambda>r. r = None \<or> \<not> rb_last (the r)) bs"
    using Cons.prems(1) by simp_all
  have gap: "list_all2 (alike w) (patched ?a ?b (k # ks) i) (drop j ?b) \<longleftrightarrow>
      list_all2 (alike w) (take (from_a k - i) (drop i ?a)) (take (from_b k - j) (drop j ?b))
      \<and> list_all2 (alike w) (patched ?a ?b ks (to_a k)) (drop (to_b k) ?b)"
    if p: "in_place (k # ks) i j (length ?a) (length ?b)" for k ks
  proof -
    have le: "j \<le> from_b k" "from_b k \<le> to_b k" "to_b k \<le> length ?b" "i \<le> from_a k" "from_a k \<le> length ?a" "from_a k - i = from_b k - j" using p by auto
    have mid: "list_all2 (alike w) xs xs" for xs by (rule list_all2_refl) simp
    have len: "length (take (from_a k - i) (drop i ?a)) = length (take (from_b k - j) (drop j ?b))" using le by simp
    show ?thesis
      unfolding patched.simps
      by (subst take_drop_split [OF le(1,2), of ?b])
        (simp only: list_all2_append [OF len] list_all2_append [OF refl] mid simp_thms)
  qed
  have "blocks_loop before after w ((r # bs) @ [Some (sentinel before after)]) (i, j) \<longleftrightarrow>
      (\<exists>ij. block_step before after w r (i, j) = Some ij \<and> blocks_loop before after w (bs @ [Some (sentinel before after)]) ij)"
    by (cases "block_step before after w r (i, j)") auto
  also have "\<dots> \<longleftrightarrow> (\<exists>k ks. block_of r = Some k \<and> map block_of bs = map Some ks
       \<and> in_place (k # ks) i j (length ?a) (length ?b)
       \<and> list_all2 (alike w) (patched ?a ?b (k # ks) i) (drop j ?b)
       \<and> (w \<or> endsLine before = endsLine after \<or> (if ks = [] then to_a k else to_a (last ks)) = length ?a))"
    (is "?L = ?R")
  proof
    assume ?L
    then obtain ij where s: "block_step before after w r (i, j) = Some ij"
      and l: "blocks_loop before after w (bs @ [Some (sentinel before after)]) ij" by blast
    from s obtain k where k: "block_of r = Some k" "i \<le> from_a k" "j \<le> from_b k" "from_a k - i = from_b k - j"
       "from_a k \<le> to_a k" "from_b k \<le> to_b k" "to_a k \<le> length ?a" "to_b k \<le> length ?b"
       "from_a k < to_a k \<or> from_b k < to_b k"
       "list_all2 (alike w) (take (from_a k - i) (drop i ?a)) (take (from_b k - j) (drop j ?b))"
       "ij = (to_a k, to_b k)"
      unfolding block_step_iff [OF r Cons.prems(2,3)] by blast
    from l Cons.IH [OF bs k(7,8)] obtain ks where ks: "map block_of bs = map Some ks" "in_place ks (to_a k) (to_b k) (length ?a) (length ?b)"
       "list_all2 (alike w) (patched ?a ?b ks (to_a k)) (drop (to_b k) ?b)"
       "w \<or> endsLine before = endsLine after \<or> (if ks = [] then to_a k else to_a (last ks)) = length ?a"
      unfolding k(11) by blast
    have p: "in_place (k # ks) i j (length ?a) (length ?b)" using k ks(2) by simp
    from p gap [OF p] k(1,10) ks show ?R by blast
  next
    assume ?R
    then obtain k ks where k: "block_of r = Some k" "map block_of bs = map Some ks"
       and p: "in_place (k # ks) i j (length ?a) (length ?b)"
       and g: "list_all2 (alike w) (patched ?a ?b (k # ks) i) (drop j ?b)"
       and e: "w \<or> endsLine before = endsLine after \<or> (if ks = [] then to_a k else to_a (last ks)) = length ?a" by blast
    from g [unfolded gap [OF p]] p k(1) have "block_step before after w r (i, j) = Some (to_a k, to_b k)"
      unfolding block_step_iff [OF r Cons.prems(2,3)] by auto
    moreover have "blocks_loop before after w (bs @ [Some (sentinel before after)]) (to_a k, to_b k)"
      using Cons.IH [OF bs, of "to_a k" "to_b k"] p k(2) e g [unfolded gap [OF p]] by auto
    ultimately show ?L by blast
  qed
  also have "\<dots> \<longleftrightarrow> (\<exists>ks. map block_of (r # bs) = map Some ks \<and> in_place ks i j (length ?a) (length ?b)
       \<and> list_all2 (alike w) (patched ?a ?b ks i) (drop j ?b)
       \<and> (w \<or> endsLine before = endsLine after \<or> (if ks = [] then i else to_a (last ks)) = length ?a))"
    (is "?R = ?S")
  proof
    show ?S if ?R using that by (metis last_ConsL last_ConsR list.distinct(1) list.simps(9))
    show ?R if ?S
    proof -
      from that obtain ks where ks: "map block_of (r # bs) = map Some ks" "in_place ks i j (length ?a) (length ?b)"
        "list_all2 (alike w) (patched ?a ?b ks i) (drop j ?b)"
        "w \<or> endsLine before = endsLine after \<or> (if ks = [] then i else to_a (last ks)) = length ?a" by blast
      from ks(1) obtain k ks' where c: "ks = k # ks'" "block_of r = Some k" "map block_of bs = map Some ks'" by (cases ks) auto
      from ks(2,3,4) c show ?R unfolding c(1) by (metis last_ConsL last_ConsR list.distinct(1))
    qed
  qed
  finally show ?case .
qed

section \<open>Properties\<close>


definition one_line_change :: "raw_block option list" where
  "one_line_change = [Some \<lparr>rb_a0 = Some 1, rb_a1 = Some 2, rb_b0 = Some 1, rb_b1 = Some 3, rb_last = False\<rparr>]"


text \<open>With blanks counted, no blocks at all hold exactly between a text and itself: a change,
  that of the last newline included, is never hidden.\<close>

theorem no_blocks_same_text:
  "blocksHold before after (Blocks []) False = (before = after)"
proof
  assume "blocksHold before after (Blocks []) False"
  then have h: "list_all2 (alike False) (textLines before) (textLines after)"
      "endsLine before = endsLine after \<or> textLines before = []"
    using blocks_loop_iff [of "[]" 0 before 0 after False] by (auto simp: blocksHold_def)
  have "alike False = (=)" by (auto simp: alike_def fun_eq_iff)
  with h(1) have same: "textLines before = textLines after" by (simp add: list.rel_eq)
  with h(2) textLines_Nil [of before] textLines_Nil [of after] show "before = after"
    by (metis text_determined)
next
  assume "before = after"
  then show "blocksHold before after (Blocks []) False"
    using blocks_loop_iff [of "[]" 0 before 0 after False] by (simp add: blocksHold_def list_all2_refl)
qed

end
