(* ===== verification/Utf8.thy ===== *)
theory Utf8
  imports Prelude "HOL-Library.Word"
begin

text \<open>
  The UTF-8 helpers (\<^verbatim>\<open>src/common/utf8.js\<close>): encoding and decoding that refuse what they
  cannot give back, and the size of a text found without encoding it. A string is its code
  units, 16-bit words, and bytes are 8-bit words. \<open>TextEncoder\<close> and \<open>TextDecoder\<close> with
  \<open>fatal\<close> and \<open>ignoreBOM\<close> are the language's: the first writes U+FFFD for a surrogate that
  has no partner, the second refuses every byte sequence that is not well-formed UTF-8.
\<close>

type_synonym unit16 = "16 word"
type_synonym byte = "8 word"

section \<open>Code units and scalar values\<close>

definition lead :: "nat \<Rightarrow> bool" where
  "lead u = (0xD800 \<le> u \<and> u \<le> 0xDBFF)"

definition trail :: "nat \<Rightarrow> bool" where
  "trail u = (0xDC00 \<le> u \<and> u \<le> 0xDFFF)"

fun scalars :: "nat list \<Rightarrow> nat list" where
  "scalars [] = []"
| "scalars [u] = [if lead u \<or> trail u then 0xFFFD else u]"
| "scalars (u # v # us) =
     (if lead u \<and> trail v then (0x10000 + (u - 0xD800) * 0x400 + (v - 0xDC00)) # scalars us
      else (if lead u \<or> trail u then 0xFFFD else u) # scalars (v # us))"

fun well_formed :: "nat list \<Rightarrow> bool" where
  "well_formed [] = True"
| "well_formed [u] = (\<not> lead u \<and> \<not> trail u)"
| "well_formed (u # v # us) =
     (if lead u \<and> trail v then well_formed us else \<not> lead u \<and> \<not> trail u \<and> well_formed (v # us))"

text \<open>The bytes of a scalar value.\<close>

definition utf8_bytes :: "nat \<Rightarrow> nat list" where
  "utf8_bytes c =
     (if c < 0x80 then [c]
      else if c < 0x800 then [0xC0 + c div 64, 0x80 + c mod 64]
      else if c < 0x10000 then [0xE0 + c div 4096, 0x80 + c div 64 mod 64, 0x80 + c mod 64]
      else [0xF0 + c div 262144, 0x80 + c div 4096 mod 64, 0x80 + c div 64 mod 64, 0x80 + c mod 64])"

definition encode :: "unit16 list \<Rightarrow> byte list" where
  "encode s = map word_of_nat (concat (map utf8_bytes (scalars (map unat s))))"

section \<open>The decoder\<close>

definition cont :: "nat \<Rightarrow> bool" where
  "cont b = (0x80 \<le> b \<and> b \<le> 0xBF)"

text \<open>One scalar value and the bytes after it. The second byte's bounds keep out overlong
  forms, surrogates and values past U+10FFFF.\<close>

definition decode_one :: "nat list \<Rightarrow> (nat \<times> nat list) option" where
  "decode_one bs = (case bs of
       [] \<Rightarrow> None
     | x # xs \<Rightarrow>
         if x < 0x80 then Some (x, xs)
         else if 0xC2 \<le> x \<and> x \<le> 0xDF then
           (case xs of y # r \<Rightarrow> if cont y then Some ((x - 0xC0) * 64 + (y - 0x80), r) else None | _ \<Rightarrow> None)
         else if 0xE0 \<le> x \<and> x \<le> 0xEF then
           (case xs of y # z # r \<Rightarrow>
              if cont y \<and> cont z \<and> (x = 0xE0 \<longrightarrow> 0xA0 \<le> y) \<and> (x = 0xED \<longrightarrow> y \<le> 0x9F)
              then Some ((x - 0xE0) * 4096 + (y - 0x80) * 64 + (z - 0x80), r) else None | _ \<Rightarrow> None)
         else if 0xF0 \<le> x \<and> x \<le> 0xF4 then
           (case xs of y # z # w # r \<Rightarrow>
              if cont y \<and> cont z \<and> cont w \<and> (x = 0xF0 \<longrightarrow> 0x90 \<le> y) \<and> (x = 0xF4 \<longrightarrow> y \<le> 0x8F)
              then Some ((x - 0xF0) * 262144 + (y - 0x80) * 4096 + (z - 0x80) * 64 + (w - 0x80), r) else None | _ \<Rightarrow> None)
         else None)"

lemma decode_one_shorter: "decode_one bs = Some (c, r) \<Longrightarrow> length r < length bs"
  by (auto simp: decode_one_def split: list.splits if_splits)

function decode_all :: "nat list \<Rightarrow> nat list option" where
  "decode_all bs = (if bs = [] then Some [] else case decode_one bs of None \<Rightarrow> None
     | Some (c, r) \<Rightarrow> map_option ((#) c) (decode_all r))"
  by auto
termination by (relation "measure length") (auto simp: decode_one_shorter)

declare decode_all.simps [simp del]

definition units_of :: "nat \<Rightarrow> nat list" where
  "units_of c = (if c < 0x10000 then [c]
     else [0xD800 + (c - 0x10000) div 0x400, 0xDC00 + (c - 0x10000) mod 0x400])"

definition decode :: "byte list \<Rightarrow> unit16 list option" where
  "decode bs = map_option (\<lambda>cs. map word_of_nat (concat (map units_of cs))) (decode_all (map unat bs))"

section \<open>The helpers\<close>

text \<open>What a caller may pass, and the two errors each helper throws.\<close>

datatype text_arg = Text "unit16 list" | NotText
datatype bytes_arg = Buffer "byte list" | NotBuffer
datatype utf8_error = ExpectsString | LoneSurrogates | ExpectsBuffer | InvalidUtf8

definition encodeUtf8 :: "text_arg \<Rightarrow> utf8_error + byte list" where
  "encodeUtf8 str = (case str of NotText \<Rightarrow> Inl ExpectsString
     | Text s \<Rightarrow> if \<not> well_formed (map unat s) then Inl LoneSurrogates else Inr (encode s))"

definition ASCII_RUN :: nat where
  "ASCII_RUN = 2"

text \<open>The inner loop from where the scan stopped: past the code units it counts, with the
  length of the current run of ASCII.\<close>

fun count_run :: "unit16 list \<Rightarrow> nat \<Rightarrow> nat \<Rightarrow> unit16 list \<times> nat" where
  "count_run [] ascii bytes = ([], bytes)"
| "count_run (u # us) ascii bytes =
     (if ascii < ASCII_RUN then
        if u > 0x7F then count_run us 0 (bytes + 1) else count_run us (ascii + 1) bytes
      else (u # us, bytes))"

lemma count_run_shorter: "length (fst (count_run us n b)) \<le> length us"
  by (induction us n b rule: count_run.induct) auto

text \<open>The scan to the next character of \<open>\x80-\xFF\<close>, then the loop on from there.\<close>

definition high :: "unit16 \<Rightarrow> bool" where
  "high u = (0x80 \<le> u \<and> u \<le> 0xFF)"

lemma count_run_high: "high u \<Longrightarrow> count_run (u # us) 0 b = count_run us 0 (b + 1)"
proof -
  assume "high u"
  then have "u > 0x7F" unfolding high_def by (simp add: word_less_nat_alt word_le_nat_alt)
  then show ?thesis by (simp add: ASCII_RUN_def)
qed

function count_high :: "unit16 list \<Rightarrow> nat \<Rightarrow> nat" where
  "count_high str bytes =
     (case dropWhile (\<lambda>u. \<not> high u) str of [] \<Rightarrow> bytes
      | u # us \<Rightarrow> (case count_run (u # us) 0 bytes of (rest, bytes') \<Rightarrow> count_high rest bytes'))"
  by auto

termination
proof (relation "measure (length \<circ> fst)")
  fix str :: "unit16 list" and bytes u us rest bytes'
  assume d: "dropWhile (\<lambda>u. \<not> high u) str = u # us" and c: "(rest, bytes') = count_run (u # us) 0 bytes"
  from d have "high u" by (metis dropWhile_eq_Cons_conv)
  with c have "length rest \<le> length us" by (metis count_run_high count_run_shorter fst_conv)
  moreover have "length (u # us) \<le> length str" by (metis d length_dropWhile_le)
  ultimately show "((rest, bytes'), str, bytes) \<in> measure (length \<circ> fst)" by simp
qed simp

declare count_high.simps [simp del]

definition utf8ByteLength :: "text_arg \<Rightarrow> utf8_error + nat" where
  "utf8ByteLength str = (case str of NotText \<Rightarrow> Inl ExpectsString
     | Text s \<Rightarrow> if list_ex (\<lambda>u. 0x100 \<le> u) s then Inr (length (encode s))
         else Inr (count_high s (length s)))"

definition decodeUtf8 :: "bytes_arg \<Rightarrow> utf8_error + unit16 list" where
  "decodeUtf8 bytes = (case bytes of NotBuffer \<Rightarrow> Inl ExpectsBuffer
     | Buffer bs \<Rightarrow> (case decode bs of None \<Rightarrow> Inl InvalidUtf8 | Some s \<Rightarrow> Inr s))"

section \<open>Sizes\<close>

definition highs :: "unit16 list \<Rightarrow> nat" where
  "highs s = length (filter (\<lambda>u. u > 0x7F) s)"

lemma count_run_sum:
  "count_run us n b = (rest, b') \<Longrightarrow> highs us + b = highs rest + b' \<and> set rest \<subseteq> set us"
  by (induction us n b arbitrary: rest b' rule: count_run.induct) (auto simp: highs_def split: if_splits)

lemma high_latin1: "u < 0x100 \<Longrightarrow> high u \<longleftrightarrow> u > 0x7F"
  unfolding high_def by (simp add: word_less_nat_alt word_le_nat_alt) linarith

lemma count_high_sum:
  "list_all (\<lambda>u. u < 0x100) s \<Longrightarrow> count_high s b = b + highs s"
proof (induction s b rule: count_high.induct)
  case (1 s b)
  have drop: "highs s = highs (dropWhile (\<lambda>u. \<not> high u) s)"
    using "1.prems" by (induction s) (auto simp: highs_def high_latin1)
  show ?case
  proof (cases "dropWhile (\<lambda>u. \<not> high u) s")
    case Nil
    then have "highs s = 0" using drop by (simp only: highs_def) simp
    then show ?thesis by (subst count_high.simps) (simp only: Nil list.case add_0_right)
  next
    case (Cons u us)
    obtain rest b' where c: "count_run (u # us) 0 b = (rest, b')" by fastforce
    have "set (u # us) \<subseteq> set s" by (metis Cons set_dropWhileD subsetI)
    with count_run_sum [OF c] "1.prems" have "list_all (\<lambda>u. u < 0x100) rest" by (auto simp: list_all_iff)
    with "1.IH" [OF Cons c [symmetric]] count_run_sum [OF c] drop Cons c show ?thesis
      by (subst count_high.simps) simp
  qed
qed

lemma scalars_latin1: "list_all (\<lambda>u. u < 0x100) us \<Longrightarrow> scalars us = us"
  by (induction us rule: scalars.induct) (auto simp: lead_def trail_def)

lemma encode_latin1:
  "list_all (\<lambda>u. u < 0x100) s \<Longrightarrow> length (encode s) = length s + highs s"
proof -
  assume s: "list_all (\<lambda>u. u < 0x100) s"
  then have "list_all (\<lambda>u. u < 0x100) (map unat s)" by (simp add: list_all_iff word_less_nat_alt)
  then have "length (encode s) = length (concat (map utf8_bytes (map unat s)))" by (simp add: encode_def scalars_latin1)
  also have "\<dots> = length s + highs s"
    using s by (induction s) (auto simp: utf8_bytes_def highs_def word_less_nat_alt)
  finally show ?thesis .
qed

section \<open>Round trips\<close>

definition scalar :: "nat \<Rightarrow> bool" where
  "scalar c = (c < 0x110000 \<and> \<not> (0xD800 \<le> c \<and> c \<le> 0xDFFF))"

lemma two_digits: "n < 64 \<Longrightarrow> (m * 64 + n) div 64 = m" "n < 64 \<Longrightarrow> (m * 64 + n) mod 64 = n" for m n :: nat
  by simp_all

lemma div_4096: "c div 4096 = c div 64 div 64" and div_262144: "c div 262144 = c div 64 div 64 div 64" for c :: nat
  by (simp_all add: div_mult2_eq [symmetric])

lemma three_digits: "c = c div 4096 * 4096 + c div 64 mod 64 * 64 + c mod 64" for c :: nat
  using div_mult_mod_eq [of c 64] div_mult_mod_eq [of "c div 64" 64] unfolding div_4096 by linarith

lemma four_digits: "c = c div 262144 * 262144 + c div 4096 mod 64 * 4096 + c div 64 mod 64 * 64 + c mod 64" for c :: nat
  using div_mult_mod_eq [of c 64] div_mult_mod_eq [of "c div 64" 64] div_mult_mod_eq [of "c div 64 div 64" 64]
  unfolding div_4096 div_262144 by linarith

lemma utf8_bytes_decode: "scalar c \<Longrightarrow> decode_one (utf8_bytes c @ r) = Some (c, r)"
proof -
  assume c: "scalar c"
  consider "c < 0x80" | "0x80 \<le> c" "c < 0x800" | "0x800 \<le> c" "c < 0x10000" | "0x10000 \<le> c" by linarith
  then show ?thesis
  proof cases
    case 1 then show ?thesis by (simp add: utf8_bytes_def decode_one_def)
  next
    case 2
    then have "2 \<le> c div 64" "c div 64 < 32" by linarith+
    with 2 show ?thesis by (simp add: utf8_bytes_def decode_one_def cont_def)
  next
    case 3
    define x y z where "x = c div 4096" "y = c div 64 mod 64" "z = c mod 64"
    note d = this
    have e: "c = x * 4096 + y * 64 + z" unfolding d by (rule three_digits)
    have b: "x < 16" "y < 64" "z < 64" using 3 unfolding d by (simp_all add: less_mult_imp_div_less)
    have "x = 0 \<longrightarrow> 32 \<le> y" "x = 13 \<longrightarrow> y < 32" using 3(1) c b unfolding e scalar_def by linarith+
    moreover have "utf8_bytes c = [0xE0 + x, 0x80 + y, 0x80 + z]" using 3 unfolding d by (simp add: utf8_bytes_def)
    ultimately show ?thesis using b e by (auto simp: decode_one_def cont_def)
  next
    case 4
    define x y z w where "x = c div 262144" "y = c div 4096 mod 64" "z = c div 64 mod 64" "w = c mod 64"
    note d = this
    have e: "c = x * 262144 + y * 4096 + z * 64 + w" unfolding d by (rule four_digits)
    have b: "x < 5" "y < 64" "z < 64" "w < 64" using c unfolding d scalar_def by (simp_all add: less_mult_imp_div_less)
    have "x = 0 \<longrightarrow> 16 \<le> y" "x = 4 \<longrightarrow> y < 16" using 4 c b unfolding e scalar_def by linarith+
    moreover have "utf8_bytes c = [0xF0 + x, 0x80 + y, 0x80 + z, 0x80 + w]" using 4 unfolding d by (simp add: utf8_bytes_def)
    ultimately show ?thesis using b e by (auto simp: decode_one_def cont_def)
  qed
qed

lemma decode_one_bytes: "decode_one bs = Some (c, r) \<Longrightarrow> scalar c \<and> bs = utf8_bytes c @ r"
proof -
  assume h: "decode_one bs = Some (c, r)"
  then obtain x xs where bs: "bs = x # xs" by (cases bs) (simp_all add: decode_one_def)
  consider "x < 0x80" | "0xC2 \<le> x" "x \<le> 0xDF" | "0xE0 \<le> x" "x \<le> 0xEF" | "0xF0 \<le> x" "x \<le> 0xF4"
    using h unfolding bs by (auto simp: decode_one_def split: if_splits)
  then show ?thesis
  proof cases
    case 1
    with h show ?thesis unfolding bs by (simp add: decode_one_def scalar_def utf8_bytes_def)
  next
    case 2
    with h obtain y where y: "xs = y # r" "cont y" and c: "c = (x - 0xC0) * 64 + (y - 0x80)"
      unfolding bs by (auto simp: decode_one_def split: list.splits if_splits)
    have "0xC0 \<le> x" using 2 by simp
    then obtain m where m: "x = 0xC0 + m" by (metis le_Suc_ex)
    from y(2) obtain n where n: "y = 0x80 + n" unfolding cont_def by (metis le_Suc_ex)
    have b: "n < 64" "2 \<le> m" "m < 32" using 2 y(2) unfolding m n cont_def by simp_all
    have "c = m * 64 + n" using c unfolding m n by simp
    with b show ?thesis unfolding bs y(1) m n
      by (simp add: utf8_bytes_def scalar_def two_digits)
  next
    case 3
    with h obtain y z where y: "xs = y # z # r" "cont y" "cont z" "x = 0xE0 \<longrightarrow> 0xA0 \<le> y" "x = 0xED \<longrightarrow> y \<le> 0x9F"
      and c: "c = (x - 0xE0) * 4096 + (y - 0x80) * 64 + (z - 0x80)"
      unfolding bs by (auto simp: decode_one_def split: list.splits if_splits)
    from 3 obtain m where m: "x = 0xE0 + m" by (metis le_Suc_ex)
    from y(2) obtain n where n: "y = 0x80 + n" unfolding cont_def by (metis le_Suc_ex)
    from y(3) obtain k where k: "z = 0x80 + k" unfolding cont_def by (metis le_Suc_ex)
    have b: "k < 64" "n < 64" "m < 16" using 3 y(2,3) unfolding m n k cont_def by simp_all
    have e: "c = (m * 64 + n) * 64 + k" using c unfolding m n k by simp
    have d: "c mod 64 = k" "c div 64 mod 64 = n" "c div 4096 = m"
      unfolding div_4096 e using b by (simp_all only: two_digits)
    have s: "m = 0 \<longrightarrow> 32 \<le> n" "m = 13 \<longrightarrow> n < 32" using y(4,5) unfolding m n by auto
    have r: "0x800 \<le> c" "c < 0x10000" using s b unfolding e by (cases "m = 0"; simp)+
    have sc: "scalar c" using s b unfolding e scalar_def by (cases "m < 13"; cases "m = 13") simp_all
    have "utf8_bytes c = [0xE0 + m, 0x80 + n, 0x80 + k]" using r by (simp add: utf8_bytes_def d)
    with sc show ?thesis unfolding bs y(1) m n k by simp
  next
    case 4
    with h obtain y z w where y: "xs = y # z # w # r" "cont y" "cont z" "cont w" "x = 0xF0 \<longrightarrow> 0x90 \<le> y" "x = 0xF4 \<longrightarrow> y \<le> 0x8F"
      and c: "c = (x - 0xF0) * 262144 + (y - 0x80) * 4096 + (z - 0x80) * 64 + (w - 0x80)"
      unfolding bs by (auto simp: decode_one_def split: list.splits if_splits)
    from 4 obtain m where m: "x = 0xF0 + m" by (metis le_Suc_ex)
    from y(2) obtain n where n: "y = 0x80 + n" unfolding cont_def by (metis le_Suc_ex)
    from y(3) obtain k where k: "z = 0x80 + k" unfolding cont_def by (metis le_Suc_ex)
    from y(4) obtain l where l: "w = 0x80 + l" unfolding cont_def by (metis le_Suc_ex)
    have b: "l < 64" "k < 64" "n < 64" "m < 5" using 4 y(2,3,4) unfolding m n k l cont_def by simp_all
    have e: "c = ((m * 64 + n) * 64 + k) * 64 + l" using c unfolding m n k l by simp
    have d: "c mod 64 = l" "c div 64 mod 64 = k" "c div 4096 mod 64 = n" "c div 262144 = m"
      unfolding div_4096 div_262144 e using b by (simp_all only: two_digits)
    have s: "m = 0 \<longrightarrow> 16 \<le> n" "m = 4 \<longrightarrow> n < 16" using y(5,6) unfolding m n by auto
    have r: "0x10000 \<le> c" "scalar c" using s b unfolding e scalar_def by (cases "m = 0"; cases "m = 4"; simp)+
    then have "utf8_bytes c = [0xF0 + m, 0x80 + n, 0x80 + k, 0x80 + l]" by (simp add: utf8_bytes_def d)
    with r(2) show ?thesis unfolding bs y(1) m n k l by simp
  qed
qed


lemma utf8_bytes_range: "scalar c \<Longrightarrow> b \<in> set (utf8_bytes c) \<Longrightarrow> b < 256"
  unfolding scalar_def utf8_bytes_def by (auto split: if_splits)

lemma utf8_bytes_not_Nil [simp]: "utf8_bytes c \<noteq> []"
  by (simp add: utf8_bytes_def)

lemma decode_all_bytes:
  "list_all scalar cs \<Longrightarrow> decode_all (concat (map utf8_bytes cs)) = Some cs"
proof (induction cs)
  case (Cons c cs)
  then show ?case by (subst decode_all.simps) (simp add: utf8_bytes_decode)
qed (simp add: decode_all.simps)

lemma decode_all_Some:
  "decode_all bs = Some cs \<Longrightarrow> list_all scalar cs \<and> bs = concat (map utf8_bytes cs)"
proof (induction bs arbitrary: cs rule: decode_all.induct)
  case (1 bs)
  show ?case
  proof (cases "bs = []")
    case True
    with "1.prems" show ?thesis by (simp add: decode_all.simps)
  next
    case False
    then obtain c r where d: "decode_one bs = Some (c, r)"
      using "1.prems" by (subst (asm) decode_all.simps) (auto split: option.splits)
    with False "1.prems" obtain cs' where r: "decode_all r = Some cs'" "cs = c # cs'"
      by (subst (asm) decode_all.simps) auto
    from "1.IH" [OF False d refl r(1)] decode_one_bytes [OF d] r(2) show ?thesis by simp
  qed
qed

text \<open>Code units and scalar values.\<close>

lemma scalars_scalar: "list_all (\<lambda>u. u < 0x10000) us \<Longrightarrow> list_all scalar (scalars us)"
  by (induction us rule: scalars.induct) (auto simp: lead_def trail_def scalar_def)

lemma units_scalars:
  "well_formed us \<Longrightarrow> list_all (\<lambda>u. u < 0x10000) us \<Longrightarrow> concat (map units_of (scalars us)) = us"
proof (induction us rule: scalars.induct)
  case (3 u v us)
  show ?case
  proof (cases "lead u \<and> trail v")
    case True
    then obtain m n where m: "u = 0xD800 + m" "v = 0xDC00 + n" unfolding lead_def trail_def by (meson le_Suc_ex)
    have "n < 0x400" using True unfolding m trail_def by simp
    with 3 True show ?thesis by (simp add: units_of_def m)
  next
    case False
    with 3 show ?thesis by (auto simp: units_of_def)
  qed
qed (simp_all add: units_of_def)


lemma scalars_plain:
  "\<not> lead c \<Longrightarrow> \<not> trail c \<Longrightarrow> scalars (c # r) = c # scalars r"
  "\<not> lead c \<Longrightarrow> \<not> trail c \<Longrightarrow> well_formed (c # r) = well_formed r"
  by (cases r; simp)+

lemma concat_units_decoded:
  "list_all scalar cs \<Longrightarrow> scalars (concat (map units_of cs)) = cs \<and> well_formed (concat (map units_of cs))
     \<and> list_all (\<lambda>u. u < 0x10000) (concat (map units_of cs))"
proof (induction cs)
  case (Cons c cs)
  let ?r = "concat (map units_of cs)"
  show ?case
  proof (cases "c < 0x10000")
    case True
    then have c: "\<not> lead c" "\<not> trail c" using Cons.prems by (auto simp: scalar_def lead_def trail_def)
    with Cons True show ?thesis by (simp add: units_of_def scalars_plain)
  next
    case False
    define m n where "m = (c - 0x10000) div 0x400" and "n = (c - 0x10000) mod 0x400"
    note d = this
    have "c - 0x10000 < 0x400 * 0x400" using Cons.prems False unfolding scalar_def by (simp, linarith)
    then have b: "m < 0x400" "n < 0x400" unfolding d by (simp_all add: less_mult_imp_div_less)
    have u: "units_of c = [0xD800 + m, 0xDC00 + n]" using False unfolding d by (simp add: units_of_def)
    have "c - 0x10000 = m * 0x400 + n" unfolding d by (rule div_mult_mod_eq [symmetric])
    with False have e: "c = 0x10000 + m * 0x400 + n" by linarith
    have l: "lead (0xD800 + m)" "trail (0xDC00 + n)" using b unfolding lead_def trail_def by simp_all
    have IH: "scalars ?r = cs" "well_formed ?r" "list_all (\<lambda>u. u < 0x10000) ?r" using Cons by simp_all
    have "0xDC00 + n < 0x10000" "0xD800 + m < 0x10000" using b by linarith+
    with IH l show ?thesis unfolding list.map concat.simps u append_Cons append_Nil scalars.simps well_formed.simps
      by (simp add: e)
  qed
qed simp

lemma word_nat_list:
  "list_all (\<lambda>n. n < 2 ^ LENGTH('a)) ns \<Longrightarrow> map unat (map (word_of_nat :: nat \<Rightarrow> 'a::len word) ns) = ns"
  by (induction ns) (simp_all add: unat_of_nat)

lemma nat_word_list: "map (word_of_nat :: nat \<Rightarrow> 'a::len word) (map unat ws) = ws"
  by (simp add: map_idI)

lemma bytes_small: "list_all scalar cs \<Longrightarrow> list_all (\<lambda>n. n < 2 ^ LENGTH(8)) (concat (map utf8_bytes cs))"
  using utf8_bytes_range by (fastforce simp: list_all_iff)

lemma units_small: "list_all (\<lambda>u. u < 0x10000) (map unat (s :: unit16 list))"
proof -
  have "unat u < 0x10000" for u :: unit16 using unsigned_less [of u] by simp
  then show ?thesis by (simp add: list_all_iff)
qed

lemma decode_encoded: "well_formed (map unat s) \<Longrightarrow> decode (encode s) = Some s"
proof -
  assume w: "well_formed (map unat s)"
  let ?cs = "scalars (map unat s)"
  have sc: "list_all scalar ?cs" by (rule scalars_scalar [OF units_small])
  have "map unat (encode s) = concat (map utf8_bytes ?cs)"
    unfolding encode_def by (rule word_nat_list) (use bytes_small [OF sc] in simp)
  then have "decode (encode s) = Some (map word_of_nat (concat (map units_of ?cs)))"
    using decode_all_bytes [OF sc] by (simp add: decode_def)
  also have "\<dots> = Some s" unfolding units_scalars [OF w units_small] nat_word_list ..
  finally show ?thesis .
qed

lemma encode_decoded: "decode bs = Some s \<Longrightarrow> well_formed (map unat s) \<and> encode s = bs"
proof -
  assume "decode bs = Some s"
  then obtain cs where cs: "decode_all (map unat bs) = Some cs" "s = map word_of_nat (concat (map units_of cs))"
    by (auto simp: decode_def)
  from decode_all_Some [OF cs(1)] have sc: "list_all scalar cs" and b: "map unat bs = concat (map utf8_bytes cs)" by simp_all
  note u = concat_units_decoded [OF sc]
  have s: "map unat s = concat (map units_of cs)"
    unfolding cs(2) by (rule word_nat_list) (use u in simp)
  have "encode s = map word_of_nat (map unat bs)" unfolding encode_def s b using u by simp
  also have "\<dots> = bs" by (rule nat_word_list)
  finally show ?thesis using u s by simp
qed

section \<open>Properties\<close>

text \<open>C38: encoding and decoding are each other's inverse, and refuse everything else: bytes decode
  to a text exactly where that text encodes to those bytes, byte for byte (a leading byte order
  mark and the shortest form included), and a text encodes exactly where every surrogate has
  its partner.\<close>

theorem utf8_roundtrip:
  "(encodeUtf8 (Text s) = Inr bs) = (decodeUtf8 (Buffer bs) = Inr s)
    \<and> ((\<exists>bs. encodeUtf8 (Text s) = Inr bs) = well_formed (map unat s))
    \<and> (encodeUtf8 (Text s) \<noteq> Inr (encode s) \<longleftrightarrow> encodeUtf8 (Text s) = Inl LoneSurrogates)"
  using decode_encoded [of s] encode_decoded [of bs s]
  by (auto simp: encodeUtf8_def decodeUtf8_def split: option.splits)

text \<open>The size found without encoding is the size of the encoding, whatever the text: the
  alternation of scan and loop ends, and counts every character past ASCII once.\<close>

theorem utf8ByteLength_exact:
  "utf8ByteLength (Text s) = Inr (length (encode s))"
proof (cases "list_ex (\<lambda>u. 0x100 \<le> u) s")
  case True
  then show ?thesis by (simp add: utf8ByteLength_def)
next
  case False
  then have "list_all (\<lambda>u. u < 0x100) s" by (auto simp: list_all_iff list_ex_iff not_le)
  with False show ?thesis
    by (simp add: utf8ByteLength_def count_high_sum encode_latin1)
qed

end
