(* ===== verification/SecureStorage.thy ===== *)
theory SecureStorage
  imports Prelude
begin

text \<open>
  The secure storage of one tab (\<^verbatim>\<open>src/client/secure-storage.js\<close>): a cache read at once, a
  per-key queue of writes to \<open>localStorage\<close>, pins that keep a value not yet written, and
  hydration, which reads the disk back key by key and yields while it opens an envelope.
  Each function below is one stretch of the code between two \<open>await\<close>s, so a run of steps is an
  interleaving the event loop can take. Envelopes are symbolic: one opens under the key it was
  sealed with and its own additional data, and under nothing else; text that decodes to the
  envelope's magic is an envelope. \<open>Sibling\<close> is another tab's write to the disk, \<open>VaultBecomes\<close>
  whatever the passkey vault does.
\<close>

section \<open>State\<close>

type_synonym skey = string

definition SECURE_KEYS :: "skey list" where
  "SECURE_KEYS = [''deepview.workspaces'', ''deepview.sync.sessions'', ''deepview.sync.userEnabled'',
     ''deepview.sync.password'', ''deepview.repoUrls'', ''deepview.fileCounts'',
     ''deepview.workspaceApp'', ''deepview.lastFile'', ''deepview.scan.access'']"

text \<open>What a key of the disk holds: text, or an envelope with the session key it was sealed
  under, the two parts of its additional data (identity tag and key name) and its text.\<close>

datatype raw = Plaintext string | Envelope nat string skey string | Unopenable

record vault =
  enabled :: bool
  session :: "nat option"
  identity :: string

datatype pin = Pinned string | Tombstone nat

text \<open>A queued write. \<open>Sealing\<close> and \<open>Migrating\<close> are the same job past its first \<open>await\<close>.\<close>

datatype write_job =
    SetJob string "string option"
  | Sealing string "string option" raw
  | RemoveJob nat
  | ToEncrypted
  | ToPlaintext nat
  | Migrating raw string

record hydration_run =
  h_keys :: "skey list"
  h_session :: "nat option"
  h_open :: "(skey \<times> raw) option"
  h_values :: "(skey \<times> string option) list"
  h_heal :: "(skey \<times> string) list"
  h_notify :: bool

record secure =
  cached :: "skey \<Rightarrow> string option"
  pending :: "skey \<Rightarrow> pin option"
  chain :: "skey \<Rightarrow> write_job list"
  disk :: "skey \<Rightarrow> raw option"
  hydrations :: "hydration_run list"
  heals :: "(skey \<times> string) list list"
  vault :: vault
  wiping :: bool
  stamp :: nat
  notified :: nat

datatype store_error = NotAString | VaultLocked skey | WipeInProgress skey | UnknownKey skey

section \<open>Reads and writes\<close>

definition getItem :: "skey \<Rightarrow> secure \<Rightarrow> string option" where
  "getItem k s = cached s k"

text \<open>\<open>setItem\<close> up to its first \<open>await\<close>; a value that is no string is \<open>None\<close>.\<close>

definition setItem :: "skey \<Rightarrow> string option \<Rightarrow> secure \<Rightarrow> store_error + secure" where
  "setItem k v s = (case v of
     None \<Rightarrow> Inl NotAString
   | Some x \<Rightarrow>
       if enabled (vault s) \<and> session (vault s) = None then Inl (VaultLocked k)
       else if wiping s then Inl (WipeInProgress k)
       else Inr (s\<lparr>cached := (cached s)(k \<mapsto> x), pending := (pending s)(k \<mapsto> Pinned x),
                   chain := (chain s)(k := chain s k @ [SetJob x (cached s k)])\<rparr>))"

definition attempt :: "(secure \<Rightarrow> store_error + secure) \<Rightarrow> secure \<Rightarrow> secure" where
  "attempt f s = (case f s of Inl _ \<Rightarrow> s | Inr s' \<Rightarrow> s')"

definition removeItem :: "skey \<Rightarrow> secure \<Rightarrow> secure" where
  "removeItem k s = s\<lparr>cached := (cached s)(k := None), pending := (pending s)(k \<mapsto> Tombstone (stamp s)),
     chain := (chain s)(k := chain s k @ [RemoveJob (stamp s)]), stamp := stamp s + 1\<rparr>"

definition clearPendingIfMine :: "skey \<Rightarrow> string \<Rightarrow> secure \<Rightarrow> secure" where
  "clearPendingIfMine k v s =
     (if pending s k = Some (Pinned v) then s\<lparr>pending := (pending s)(k := None)\<rparr> else s)"

text \<open>A write refused by the disk: the cache goes back to what it held before the call, unless
  it no longer holds the call's value.\<close>

definition roll_back :: "skey \<Rightarrow> string \<Rightarrow> string option \<Rightarrow> secure \<Rightarrow> secure" where
  "roll_back k v previous s =
     (let s1 = clearPendingIfMine k v s in
      if cached s1 k = Some v then s1\<lparr>cached := (cached s1)(k := previous)\<rparr> else s1)"

definition finishRemoval :: "skey \<Rightarrow> nat \<Rightarrow> secure \<Rightarrow> secure" where
  "finishRemoval k tombstone s =
     (let s1 = s\<lparr>disk := (disk s)(k := None)\<rparr> in
      if pending s1 k = Some (Tombstone tombstone)
      then s1\<lparr>pending := (pending s1)(k := None), cached := (cached s1)(k := None)\<rparr> else s1)"

text \<open>What opens under a session key, the vault's identity and a key's name.\<close>

definition open_envelope :: "nat \<Rightarrow> string \<Rightarrow> skey \<Rightarrow> raw \<Rightarrow> string option" where
  "open_envelope sk tag k r = (case r of
     Envelope sk' tag' k' x \<Rightarrow> if sk = sk' \<and> tag = tag' \<and> k = k' then Some x else None | _ \<Rightarrow> None)"

fun is_envelope :: "raw \<Rightarrow> bool" where
  "is_envelope (Plaintext _) = False"
| "is_envelope _ = True"

fun transform_raw :: "write_job \<Rightarrow> vault \<Rightarrow> skey \<Rightarrow> raw \<Rightarrow> (raw \<times> string) option" where
  "transform_raw ToEncrypted v k (Plaintext x) =
     (case session v of None \<Rightarrow> None | Some sk \<Rightarrow> Some (Envelope sk (identity v) k x, x))"
| "transform_raw (ToPlaintext sk) v k r =
     (if is_envelope r then map_option (\<lambda>x. (Plaintext x, x)) (open_envelope sk (identity v) k r) else None)"
| "transform_raw _ _ _ _ = None"

definition advance :: "skey \<Rightarrow> write_job list \<Rightarrow> secure \<Rightarrow> secure" where
  "advance k js s = s\<lparr>chain := (chain s)(k := js)\<rparr>"

text \<open>The first stretch of the queue's head; \<open>ok\<close> is whether a write it makes at once lands.\<close>

definition run_job :: "skey \<Rightarrow> bool \<Rightarrow> secure \<Rightarrow> secure" where
  "run_job k ok s = (case chain s k of
     SetJob v previous # js \<Rightarrow>
       (case session (vault s) of
          Some sk \<Rightarrow> advance k (Sealing v previous (Envelope sk (identity (vault s)) k v) # js) s
        | None \<Rightarrow>
            if ok then clearPendingIfMine k v (advance k js (s\<lparr>disk := (disk s)(k \<mapsto> Plaintext v)\<rparr>))
            else roll_back k v previous (advance k js s))
   | RemoveJob t # js \<Rightarrow> finishRemoval k t (advance k js s)
   | Sealing v p r # js \<Rightarrow> s
   | Migrating r x # js \<Rightarrow> s
   | j # js \<Rightarrow>
       if pending s k \<noteq> None then advance k js s
       else (case disk s k of None \<Rightarrow> advance k js s
         | Some r \<Rightarrow> (case transform_raw j (vault s) k r of None \<Rightarrow> advance k js s
             | Some (r', x) \<Rightarrow> advance k (Migrating r' x # js) s))
   | [] \<Rightarrow> s)"

text \<open>Its last stretch, after the seal or the transformation.\<close>

definition settle_job :: "skey \<Rightarrow> bool \<Rightarrow> secure \<Rightarrow> secure" where
  "settle_job k ok s = (case chain s k of
     Sealing v previous r # js \<Rightarrow>
       if ok then clearPendingIfMine k v (advance k js (s\<lparr>disk := (disk s)(k \<mapsto> r)\<rparr>))
       else roll_back k v previous (advance k js s)
   | Migrating r x # js \<Rightarrow>
       if pending s k \<noteq> None \<or> \<not> ok then advance k js s
       else advance k js (s\<lparr>disk := (disk s)(k \<mapsto> r), cached := (cached s)(k \<mapsto> x)\<rparr>)
   | _ \<Rightarrow> s)"

definition migrateKeyAtomic :: "skey \<Rightarrow> write_job \<Rightarrow> secure \<Rightarrow> secure" where
  "migrateKeyAtomic k j s = (case j of
     ToEncrypted \<Rightarrow> advance k (chain s k @ [j]) s
   | ToPlaintext _ \<Rightarrow> advance k (chain s k @ [j]) s | _ \<Rightarrow> s)"

text \<open>One turn of each migration's loop over the keys; the key the vault was opened with is
  passed to the second.\<close>

definition migrateToEncrypted :: "skey \<Rightarrow> secure \<Rightarrow> secure" where
  "migrateToEncrypted k s = (if k \<in> set SECURE_KEYS then migrateKeyAtomic k ToEncrypted s else s)"

definition migrateToPlaintext :: "nat \<Rightarrow> skey \<Rightarrow> secure \<Rightarrow> secure" where
  "migrateToPlaintext sk k s = (if k \<in> set SECURE_KEYS then migrateKeyAtomic k (ToPlaintext sk) s else s)"

text \<open>Once every queue has settled. Queues are empty then, so only the pins go.\<close>

definition drainWriteChain :: "secure \<Rightarrow> secure" where
  "drainWriteChain s =
     (if list_all (\<lambda>k. chain s k = []) SECURE_KEYS
      then s\<lparr>pending := (\<lambda>k. if chain s k = [] then None else pending s k)\<rparr> else s)"

section \<open>Hydration\<close>

definition hydrateKeys :: "skey list \<Rightarrow> bool \<Rightarrow> secure \<Rightarrow> secure" where
  "hydrateKeys ks notify s = s\<lparr>hydrations := hydrations s @
     [\<lparr>h_keys = ks, h_session = session (vault s), h_open = None, h_values = [], h_heal = [], h_notify = notify\<rparr>]\<rparr>"

definition hydrateAll :: "secure \<Rightarrow> secure" where
  "hydrateAll s = hydrateKeys SECURE_KEYS True
     (s\<lparr>cached := (\<lambda>k. if pending s k = None then None else cached s k)\<rparr>)"

definition hydrateKey :: "skey \<Rightarrow> secure \<Rightarrow> store_error + secure" where
  "hydrateKey k s =
     (if k \<notin> set SECURE_KEYS then Inl (UnknownKey k)
      else Inr (hydrateKeys [k] False
        (if pending s k = None then s\<lparr>cached := (cached s)(k := None)\<rparr> else s)))"

definition put_value :: "skey \<Rightarrow> string \<Rightarrow> hydration_run \<times> secure \<Rightarrow> hydration_run \<times> secure" where
  "put_value k v hs = ((fst hs)\<lparr>h_values := h_values (fst hs) @ [(k, Some v)]\<rparr>,
     (snd hs)\<lparr>cached := (cached (snd hs))(k \<mapsto> v)\<rparr>)"

definition keep_pinned :: "skey \<Rightarrow> hydration_run \<times> secure \<Rightarrow> hydration_run \<times> secure" where
  "keep_pinned k hs = ((fst hs)\<lparr>h_values := h_values (fst hs) @ [(k, getItem k (snd hs))]\<rparr>, snd hs)"

text \<open>The read of one key, up to the opening of its envelope.\<close>

definition read_key :: "skey \<Rightarrow> hydration_run \<times> secure \<Rightarrow> hydration_run \<times> secure" where
  "read_key k hs = (let h = fst hs; s = snd hs in
     if pending s k \<noteq> None then keep_pinned k hs
     else (case disk s k of
         None \<Rightarrow> hs
       | Some (Plaintext x) \<Rightarrow>
           let (h1, s1) = put_value k x hs in
           (if h_session h \<noteq> None \<and> enabled (vault s) then h1\<lparr>h_heal := h_heal h1 @ [(k, x)]\<rparr> else h1, s1)
       | Some r \<Rightarrow> if h_session h = None then hs else (h\<lparr>h_open := Some (k, r)\<rparr>, s)))"

text \<open>After the envelope was opened, or was not.\<close>

definition opened_key :: "skey \<Rightarrow> raw \<Rightarrow> hydration_run \<times> secure \<Rightarrow> hydration_run \<times> secure" where
  "opened_key k r hs = (let h = (fst hs)\<lparr>h_open := None\<rparr>; s = snd hs in
     case Option.bind (h_session h) (\<lambda>sk. open_envelope sk (identity (vault s)) k r) of
       None \<Rightarrow> (h, s)
     | Some x \<Rightarrow> if pending s k \<noteq> None then keep_pinned k (h, s) else put_value k x (h, s))"

definition hydrate_step :: "nat \<Rightarrow> secure \<Rightarrow> secure" where
  "hydrate_step i s =
     (if i \<ge> length (hydrations s) then s
      else let h = hydrations s ! i in
        case h_open h of
          Some (k, r) \<Rightarrow> (case opened_key k r (h, s) of (h', s') \<Rightarrow> s'\<lparr>hydrations := (hydrations s')[i := h']\<rparr>)
        | None \<Rightarrow> (case h_keys h of
            k # ks \<Rightarrow> (case read_key k (h\<lparr>h_keys := ks\<rparr>, s) of (h', s') \<Rightarrow> s'\<lparr>hydrations := (hydrations s')[i := h']\<rparr>)
          | [] \<Rightarrow> s\<lparr>hydrations := take i (hydrations s) @ drop (Suc i) (hydrations s),
                    notified := (if h_notify h then notified s + 1 else notified s),
                    heals := (if h_heal h \<noteq> [] then heals s @ [h_heal h] else heals s)\<rparr>))"

text \<open>The queued microtask that seals what was found in plaintext under an open vault.\<close>

definition heal_one :: "skey \<times> string \<Rightarrow> secure \<Rightarrow> secure" where
  "heal_one kv s = (if cached s (fst kv) \<noteq> Some (snd kv) then s
     else attempt (setItem (fst kv) (Some (snd kv))) s)"

definition self_heal :: "secure \<Rightarrow> secure" where
  "self_heal s = (case heals s of [] \<Rightarrow> s | hs # rest \<Rightarrow> fold heal_one hs (s\<lparr>heals := rest\<rparr>))"

text \<open>The locked part of \<open>mutate\<close> once the key's queue was drained and the disk read: the
  updater's answer, written where it is a new value.\<close>

definition mutate_commit :: "skey \<Rightarrow> (string option \<Rightarrow> string option) \<Rightarrow> secure \<Rightarrow> secure" where
  "mutate_commit k updater s =
     (case updater (getItem k s) of
        None \<Rightarrow> s
      | Some x \<Rightarrow> if Some x = getItem k s then s else attempt (setItem k (Some x)) s)"

section \<open>Runs\<close>

datatype sevent =
    Set skey string
  | Remove skey
  | Mutate skey "string option \<Rightarrow> string option"
  | RunJob skey bool
  | SettleJob skey bool
  | Hydrate
  | HydrateOne skey
  | HydrateStep nat
  | SelfHeal
  | EncryptKey skey
  | DecryptKey nat skey
  | Drain
  | Sibling skey "raw option"
  | VaultBecomes vault
  | Wiping bool

fun sstep :: "sevent \<Rightarrow> secure \<Rightarrow> secure" where
  "sstep (Set k v) s = attempt (setItem k (Some v)) s"
| "sstep (Remove k) s = removeItem k s"
| "sstep (Mutate k f) s = mutate_commit k f s"
| "sstep (RunJob k ok) s = run_job k ok s"
| "sstep (SettleJob k ok) s = settle_job k ok s"
| "sstep Hydrate s = hydrateAll s"
| "sstep (HydrateOne k) s = attempt (hydrateKey k) s"
| "sstep (HydrateStep i) s = hydrate_step i s"
| "sstep SelfHeal s = self_heal s"
| "sstep (EncryptKey k) s = migrateToEncrypted k s"
| "sstep (DecryptKey sk k) s = migrateToPlaintext sk k s"
| "sstep Drain s = drainWriteChain s"
| "sstep (Sibling k r) s = s\<lparr>disk := (disk s)(k := r)\<rparr>"
| "sstep (VaultBecomes v) s = s\<lparr>vault := v\<rparr>"
| "sstep (Wiping b) s = s\<lparr>wiping := b\<rparr>"

definition srun :: "sevent list \<Rightarrow> secure \<Rightarrow> secure" where
  "srun es s = fold sstep es s"

definition boot :: "(skey \<Rightarrow> raw option) \<Rightarrow> vault \<Rightarrow> secure" where
  "boot d v = \<lparr>cached = (\<lambda>_. None), pending = (\<lambda>_. None), chain = (\<lambda>_. []), disk = d, hydrations = [],
     heals = [], vault = v, wiping = False, stamp = 0, notified = 0\<rparr>"

section \<open>Pins and the cache\<close>

text \<open>A pinned key reads as the value it is pinned to.\<close>

fun pin_at :: "pin option \<Rightarrow> string option \<Rightarrow> bool" where
  "pin_at None c = True"
| "pin_at (Some (Pinned v)) c = (c = Some v)"
| "pin_at (Some (Tombstone _)) c = (c = None)"

definition pin_ok :: "secure \<Rightarrow> bool" where
  "pin_ok s \<longleftrightarrow> (\<forall>k. pin_at (pending s k) (cached s k))"

named_theorems store_defs

lemmas [store_defs] = setItem_def attempt_def removeItem_def clearPendingIfMine_def roll_back_def finishRemoval_def
  advance_def migrateKeyAtomic_def

lemma fold_keeps: "(\<And>x s. x \<in> set xs \<Longrightarrow> P s \<Longrightarrow> P (f x s)) \<Longrightarrow> P s \<Longrightarrow> P (fold f xs s)"
  by (induction xs arbitrary: s) auto

lemma pin_ok_set: "pin_ok s \<Longrightarrow> pin_ok (attempt (setItem k v) s)"
  by (auto simp: pin_ok_def store_defs split: option.splits)

lemma pin_ok_remove: "pin_ok s \<Longrightarrow> pin_ok (removeItem k s)"
  by (auto simp: pin_ok_def store_defs)

lemma pin_ok_updates [simp]:
  "pin_ok (s\<lparr>chain := c\<rparr>) = pin_ok s" "pin_ok (s\<lparr>disk := d\<rparr>) = pin_ok s"
  "pin_ok (s\<lparr>hydrations := hs\<rparr>) = pin_ok s" "pin_ok (s\<lparr>heals := xs\<rparr>) = pin_ok s"
  "pin_ok (s\<lparr>vault := v\<rparr>) = pin_ok s" "pin_ok (s\<lparr>wiping := b\<rparr>) = pin_ok s"
  "pin_ok (s\<lparr>notified := n\<rparr>) = pin_ok s"
  by (simp_all add: pin_ok_def)

lemma pin_ok_advance [simp]: "pin_ok (advance k js s) = pin_ok s"
  by (simp add: advance_def)

lemma pin_ok_clear [simp]: "pin_ok s \<Longrightarrow> pin_ok (clearPendingIfMine k v s)"
  by (auto simp: pin_ok_def store_defs)

lemma pin_ok_roll [simp]: "pin_ok s \<Longrightarrow> pin_ok (roll_back k v p s)"
proof -
  assume s: "pin_ok s"
  then have k: "pin_at (pending s k) (cached s k)" by (simp add: pin_ok_def)
  have "cached s k = Some v \<Longrightarrow> pending s k = None \<or> pending s k = Some (Pinned v)"
    using k by (cases "pending s k"; cases "the (pending s k)") auto
  with s show ?thesis by (auto simp: pin_ok_def roll_back_def clearPendingIfMine_def Let_def)
qed

lemma pin_ok_finish [simp]: "pin_ok s \<Longrightarrow> pin_ok (finishRemoval k t s)"
  by (auto simp: pin_ok_def store_defs Let_def)

lemma pin_ok_unpinned [simp]: "pin_ok s \<Longrightarrow> pending s k = None \<Longrightarrow> pin_ok (s\<lparr>cached := (cached s)(k := v)\<rparr>)"
  by (auto simp: pin_ok_def)

lemma pin_ok_run: "pin_ok s \<Longrightarrow> pin_ok (run_job k ok s)"
  unfolding run_job_def by (cases "chain s k") (auto split: write_job.split option.split)

lemma pin_ok_settle: "pin_ok s \<Longrightarrow> pin_ok (settle_job k ok s)"
  unfolding settle_job_def
proof (cases "chain s k")
  case (Cons j js)
  assume s: "pin_ok s"
  have "pending s k = None \<Longrightarrow> pin_ok (s\<lparr>disk := d, cached := (cached s)(k \<mapsto> x)\<rparr>)" for d x
    using pin_ok_unpinned [of "s\<lparr>disk := d\<rparr>" k "Some x"] s by simp
  with s show "pin_ok (case chain s k of
     Sealing v previous r # js \<Rightarrow>
       if ok then clearPendingIfMine k v (advance k js (s\<lparr>disk := (disk s)(k \<mapsto> r)\<rparr>))
       else roll_back k v previous (advance k js s)
   | Migrating r x # js \<Rightarrow>
       if pending s k \<noteq> None \<or> \<not> ok then advance k js s
       else advance k js (s\<lparr>disk := (disk s)(k \<mapsto> r), cached := (cached s)(k \<mapsto> x)\<rparr>)
   | _ \<Rightarrow> s)" unfolding Cons by (auto split: write_job.split)
qed simp

lemma pin_ok_read: "pin_ok (snd hs) \<Longrightarrow> pin_ok (snd (read_key k hs))"
  by (auto simp: read_key_def keep_pinned_def put_value_def Let_def split: option.split raw.split)

lemma pin_ok_opened: "pin_ok (snd hs) \<Longrightarrow> pin_ok (snd (opened_key k r hs))"
  by (auto simp: opened_key_def keep_pinned_def put_value_def Let_def split: option.split)

lemma pin_ok_put:
  "pin_ok (snd hp) \<Longrightarrow> pin_ok (case hp of (h', s') \<Rightarrow> s'\<lparr>hydrations := (hydrations s')[i := h']\<rparr>)"
  by (cases hp) simp

lemma pin_ok_hydrate: "pin_ok s \<Longrightarrow> pin_ok (hydrate_step i s)"
proof -
  assume s: "pin_ok s"
  note put = pin_ok_put [OF pin_ok_opened] pin_ok_put [OF pin_ok_read]
  show ?thesis
  proof (cases "h_open (hydrations s ! i)")
    case (Some kr)
    with s show ?thesis by (cases kr) (simp add: hydrate_step_def Let_def put)
  next
    case None
    with s show ?thesis by (cases "h_keys (hydrations s ! i)") (simp_all add: hydrate_step_def Let_def put)
  qed
qed

lemma pin_ok_heal_one: "pin_ok s \<Longrightarrow> pin_ok (heal_one kv s)"
  by (simp add: heal_one_def pin_ok_set)

lemma pin_ok_heal: "pin_ok s \<Longrightarrow> pin_ok (self_heal s)"
  unfolding self_heal_def by (cases "heals s") (simp_all add: fold_keeps [where P = pin_ok] pin_ok_heal_one)

lemma pin_ok_step: "pin_ok s \<Longrightarrow> pin_ok (sstep e s)"
proof (induction e s rule: sstep.induct)
  case (3 k f s)
  then show ?case by (auto simp: mutate_commit_def pin_ok_set split: option.split)
next
  case (6 s)
  then show ?case by (auto simp: hydrateAll_def hydrateKeys_def pin_ok_def)
next
  case (7 k s)
  then show ?case by (auto simp: hydrateKey_def hydrateKeys_def attempt_def pin_ok_def)
next
  case (10 k s)
  then show ?case by (simp add: migrateToEncrypted_def migrateKeyAtomic_def)
next
  case (11 sk k s)
  then show ?case by (simp add: migrateToPlaintext_def migrateKeyAtomic_def)
next
  case (12 s)
  then show ?case by (auto simp: drainWriteChain_def pin_ok_def)
qed (simp_all add: pin_ok_set pin_ok_remove pin_ok_run pin_ok_settle pin_ok_hydrate pin_ok_heal)

lemma srun_simps [simp]: "srun [] s = s" "srun (e # es) s = srun es (sstep e s)"
  by (simp_all add: srun_def)

lemma pin_ok_srun: "pin_ok s \<Longrightarrow> pin_ok (srun es s)"
  by (induction es arbitrary: s) (simp_all add: pin_ok_step)

section \<open>The queue and the disk\<close>

fun content :: "raw option \<Rightarrow> string option" where
  "content (Some (Plaintext x)) = Some x"
| "content (Some (Envelope _ _ _ x)) = Some x"
| "content _ = None"

fun write_of :: "write_job \<Rightarrow> string option option" where
  "write_of (SetJob v _) = Some (Some v)"
| "write_of (Sealing v _ _) = Some (Some v)"
| "write_of (RemoveJob _) = Some None"
| "write_of _ = None"

text \<open>What a key will hold once its queue has run.\<close>

fun target_at :: "string option \<Rightarrow> write_job list \<Rightarrow> string option" where
  "target_at c [] = c"
| "target_at c (j # js) = target_at (case write_of j of Some w \<Rightarrow> w | None \<Rightarrow> c) js"

definition target :: "secure \<Rightarrow> skey \<Rightarrow> string option" where
  "target s = (\<lambda>k. target_at (content (disk s k)) (chain s k))"

fun queued_ok :: "write_job \<Rightarrow> bool" where
  "queued_ok (Sealing _ _ _) = False"
| "queued_ok (Migrating _ _) = False"
| "queued_ok _ = True"

fun head_ok :: "string option \<Rightarrow> write_job \<Rightarrow> bool" where
  "head_ok c (Sealing v _ r) = (content (Some r) = Some v)"
| "head_ok c (Migrating r _) = (content (Some r) = c)"
| "head_ok c j = queued_ok j"

fun chain_ok :: "string option \<Rightarrow> write_job list \<Rightarrow> bool" where
  "chain_ok c [] = True"
| "chain_ok c (j # js) = (head_ok c j \<and> list_all queued_ok js)"

definition flow :: "secure \<Rightarrow> bool" where
  "flow s \<longleftrightarrow> (\<forall>k. chain_ok (content (disk s k)) (chain s k))"

lemma target_at_append [simp]: "target_at c (js @ js') = target_at (target_at c js) js'"
  by (induction c js rule: target_at.induct) simp_all

lemma queued_head: "queued_ok j \<Longrightarrow> head_ok c j"
  by (cases j) simp_all

lemma chain_ok_queued: "list_all queued_ok js \<Longrightarrow> chain_ok c js"
  by (cases js) (simp_all add: queued_head)

lemma chain_ok_snoc: "chain_ok c js \<Longrightarrow> queued_ok j \<Longrightarrow> chain_ok c (js @ [j])"
  by (cases js) (simp_all add: queued_head)

text \<open>Caches and pins move neither the queues nor the disk.\<close>

lemma frames [simp]:
  "chain (clearPendingIfMine k v s) = chain s" "disk (clearPendingIfMine k v s) = disk s"
  "chain (roll_back k v p s) = chain s" "disk (roll_back k v p s) = disk s"
  "chain (finishRemoval k t s) = chain s" "disk (finishRemoval k t s) = (disk s)(k := None)"
  "chain (advance k js s) = (chain s)(k := js)" "disk (advance k js s) = disk s"
  "pending (advance k js s) = pending s" "cached (advance k js s) = cached s"
  by (simp_all add: store_defs Let_def)

lemma flow_at: "flow s \<Longrightarrow> chain_ok (content (disk s k)) (chain s k)"
  by (simp add: flow_def)

lemma flow_change:
  assumes "flow s" and "chain s' = (chain s)(k := js)" and "disk s' = (disk s)(k := d)"
    and "chain_ok (content d) js"
  shows "flow s'"
  using assms by (simp add: flow_def)

lemma target_change:
  assumes "chain s' = (chain s)(k := js)" and "disk s' = (disk s)(k := d)"
  shows "target s' = (target s)(k := target_at (content d) js)"
  by (rule ext) (simp add: target_def assms)

text \<open>A turn of a queue that the disk accepts keeps what the key will hold.\<close>

definition turned :: "skey \<Rightarrow> secure \<Rightarrow> secure \<Rightarrow> bool" where
  "turned k s s' \<longleftrightarrow> (\<exists>js d. chain s' = (chain s)(k := js) \<and> disk s' = (disk s)(k := d)
     \<and> chain_ok (content d) js \<and> target_at (content d) js = target s k)"

lemma turned_flow: "flow s \<Longrightarrow> turned k s s' \<Longrightarrow> flow s' \<and> target s' = target s"
  unfolding turned_def using flow_change target_change by (metis fun_upd_triv)

lemma turnedI:
  "chain s' = (chain s)(k := js) \<Longrightarrow> disk s' = (disk s)(k := d) \<Longrightarrow> chain_ok (content d) js \<Longrightarrow>
    target_at (content d) js = target s k \<Longrightarrow> turned k s s'"
  unfolding turned_def by blast

lemma transform_content:
  "transform_raw j v k r = Some (r', x) \<Longrightarrow> queued_ok j \<Longrightarrow> content (Some r') = content (Some r)"
  by (induction j v k r rule: transform_raw.induct) (auto simp: open_envelope_def split: option.splits if_splits raw.splits)

lemma run_turned:
  assumes f: "flow s"
  shows "turned k s (run_job k True s)"
proof (cases "chain s k")
  case Nil
  then show ?thesis by (intro turnedI [of _ _ _ "[]" "disk s k"]) (simp_all add: run_job_def target_def fun_upd_idem)
next
  case (Cons j js)
  note h = flow_at [OF f, of k, unfolded Cons]
  have t: "target s k = target_at (case write_of j of Some w \<Rightarrow> w | None \<Rightarrow> content (disk s k)) js"
    by (simp add: target_def Cons)
  have js: "list_all queued_ok js" "chain_ok c js" for c using h by (simp_all add: chain_ok_queued)
  have skip: "turned k s (advance k js s)" if "write_of j = None"
    by (rule turnedI [of _ _ _ js "disk s k"]) (simp_all add: js t that)
  have mig: "turned k s (if pending s k \<noteq> None then advance k js s
       else (case disk s k of None \<Rightarrow> advance k js s
         | Some r \<Rightarrow> (case transform_raw j (vault s) k r of None \<Rightarrow> advance k js s
             | Some (r', x) \<Rightarrow> advance k (Migrating r' x # js) s)))"
    if q: "queued_ok j" and w: "write_of j = None"
  proof (cases "pending s k = None")
    case True
    show ?thesis
    proof (cases "disk s k")
      case (Some r)
      show ?thesis
      proof (cases "transform_raw j (vault s) k r")
        case (Some rx)
        obtain r' x where rx: "rx = (r', x)" by fastforce
        have "turned k s (advance k (Migrating r' x # js) s)"
          by (rule turnedI [of _ _ _ "Migrating r' x # js" "disk s k"])
            (simp_all add: js t w fun_upd_idem \<open>disk s k = Some r\<close> transform_content [OF Some [unfolded rx] q])
        then show ?thesis using True Some rx \<open>disk s k = Some r\<close> by simp
      qed (use True Some skip [OF w] in simp)
    qed (use True skip [OF w] in simp)
  qed (use skip [OF w] in auto)
  show ?thesis
  proof (cases j)
    case (SetJob v p)
    show ?thesis
    proof (cases "session (vault s)")
      case None
      then show ?thesis using Cons SetJob t js
        by (intro turnedI [of _ _ _ js "Some (Plaintext v)"]) (simp_all add: run_job_def)
    next
      case (Some sk)
      then show ?thesis using Cons SetJob t js
        by (intro turnedI [of _ _ _ "Sealing v p (Envelope sk (identity (vault s)) k v) # js" "disk s k"])
          (simp_all add: run_job_def)
    qed
  next
    case (Sealing v p r)
    then show ?thesis using Cons h t
      by (intro turnedI [of _ _ _ "j # js" "disk s k"]) (simp_all add: run_job_def fun_upd_idem)
  next
    case (Migrating r x)
    then show ?thesis using Cons h t
      by (intro turnedI [of _ _ _ "j # js" "disk s k"]) (simp_all add: run_job_def fun_upd_idem)
  next
    case (RemoveJob n)
    then show ?thesis using Cons t js
      by (intro turnedI [of _ _ _ js None]) (simp_all add: run_job_def)
  next
    case ToEncrypted
    from mig [unfolded ToEncrypted] show ?thesis by (simp only: run_job_def Cons ToEncrypted list.case write_job.case) simp
  next
    case (ToPlaintext g)
    with h have "queued_ok (ToPlaintext g)" by simp
    from mig [unfolded ToPlaintext, OF this] show ?thesis by (simp only: run_job_def Cons ToPlaintext list.case write_job.case) simp
  qed
qed

lemma settle_turned:
  assumes f: "flow s"
  shows "turned k s (settle_job k True s)"
proof -
  have stay: "turned k s s"
    by (rule turnedI [of _ _ _ "chain s k" "disk s k"]) (simp_all add: flow_at [OF f] target_def)
  show ?thesis
  proof (cases "chain s k")
    case Nil
    with stay show ?thesis by (simp add: settle_job_def)
  next
    case (Cons j js)
    note h = flow_at [OF f, of k, unfolded Cons]
    have js: "list_all queued_ok js" "chain_ok c js" for c using h by (simp_all add: chain_ok_queued)
    show ?thesis
    proof (cases j)
      case (Sealing v p r)
      then show ?thesis using Cons h js
        by (intro turnedI [of _ _ _ js "Some r"]) (simp_all add: settle_job_def target_def)
    next
      case (Migrating r x)
      show ?thesis
      proof (cases "pending s k = None")
        case True
        then show ?thesis using Cons h js Migrating
          by (intro turnedI [of _ _ _ js "Some r"]) (simp_all add: settle_job_def target_def)
      next
        case False
        then show ?thesis using Cons h js Migrating
          by (intro turnedI [of _ _ _ js "disk s k"]) (auto simp: settle_job_def target_def)
      qed
    qed (use stay Cons in \<open>simp_all add: settle_job_def\<close>)
  qed
qed


section \<open>Calls and what the storage comes to hold\<close>

text \<open>The writes an event calls for and the storage accepts.\<close>

definition refuses :: "secure \<Rightarrow> bool" where
  "refuses s \<longleftrightarrow> enabled (vault s) \<and> session (vault s) = None \<or> wiping s"

fun calls :: "sevent \<Rightarrow> secure \<Rightarrow> (skey \<times> string option) list" where
  "calls (Set k v) s = (if refuses s then [] else [(k, Some v)])"
| "calls (Remove k) s = [(k, None)]"
| "calls (Mutate k f) s = (case f (cached s k) of None \<Rightarrow> []
     | Some x \<Rightarrow> if refuses s \<or> Some x = cached s k then [] else [(k, Some x)])"
| "calls SelfHeal s = (if refuses s then []
     else map (\<lambda>kv. (fst kv, Some (snd kv))) (filter (\<lambda>kv. cached s (fst kv) = Some (snd kv))
       (case heals s of [] \<Rightarrow> [] | hs # _ \<Rightarrow> hs)))"
| "calls _ s = []"

fun all_calls :: "sevent list \<Rightarrow> secure \<Rightarrow> (skey \<times> string option) list" where
  "all_calls [] s = []"
| "all_calls (e # es) s = calls e s @ all_calls es (sstep e s)"

definition register :: "(skey \<times> string option) list \<Rightarrow> (skey \<Rightarrow> string option) \<Rightarrow> skey \<Rightarrow> string option" where
  "register cs m = fold (\<lambda>(k, w) m. m(k := w)) cs m"

text \<open>No other tab writes, and the disk takes every write.\<close>

fun undisturbed :: "sevent \<Rightarrow> bool" where
  "undisturbed (Sibling _ _) = False"
| "undisturbed (RunJob _ ok) = ok"
| "undisturbed (SettleJob _ ok) = ok"
| "undisturbed _ = True"

lemma register_simps [simp]: "register [] m = m" "register (c # cs) m = register cs (m(fst c := snd c))"
  "register (cs @ cs') m = register cs' (register cs m)"
  by (simp_all add: register_def case_prod_beta)

lemma set_accepted: "attempt (setItem k (Some v)) s = (if refuses s then s
    else s\<lparr>cached := (cached s)(k \<mapsto> v), pending := (pending s)(k \<mapsto> Pinned v), chain := (chain s)(k := chain s k @ [SetJob v (cached s k)])\<rparr>)"
  by (simp add: attempt_def setItem_def refuses_def)

lemma appended:
  assumes f: "flow s" and q: "queued_ok j" and c: "chain s' = (chain s)(k := chain s k @ [j])" and d: "disk s' = disk s"
  shows "flow s'" and "target s' = (case write_of j of None \<Rightarrow> target s | Some w \<Rightarrow> (target s)(k := w))"
proof -
  show "flow s'"
    by (rule flow_change [OF f c, of "disk s k"]) (simp_all add: d chain_ok_snoc [OF flow_at [OF f] q])
  have "target s' = (target s)(k := target_at (content (disk s k)) (chain s k @ [j]))"
    by (rule target_change [OF c, of "disk s k"]) (simp add: d)
  also have "\<dots> = (case write_of j of None \<Rightarrow> target s | Some w \<Rightarrow> (target s)(k := w))"
    by (rule ext) (simp add: target_def split: option.split)
  finally show "target s' = (case write_of j of None \<Rightarrow> target s | Some w \<Rightarrow> (target s)(k := w))" .
qed

lemma flow_set: "flow s \<Longrightarrow> flow (attempt (setItem k (Some v)) s)
    \<and> target (attempt (setItem k (Some v)) s) = (if refuses s then target s else (target s)(k := Some v))"
proof (cases "refuses s")
  case False
  assume f: "flow s"
  let ?s = "s\<lparr>cached := (cached s)(k \<mapsto> v), pending := (pending s)(k \<mapsto> Pinned v), chain := (chain s)(k := chain s k @ [SetJob v (cached s k)])\<rparr>"
  from appended [OF f, of "SetJob v (cached s k)" ?s k] False show ?thesis by (simp add: set_accepted)
qed (simp add: set_accepted)

lemma flow_same: "chain s' = chain s \<Longrightarrow> disk s' = disk s \<Longrightarrow> flow s' = flow s \<and> target s' = target s"
  by (simp add: flow_def target_def)

lemma read_frames: "chain (snd (read_key k hs)) = chain (snd hs) \<and> disk (snd (read_key k hs)) = disk (snd hs)"
  by (simp add: read_key_def keep_pinned_def put_value_def Let_def split: option.split raw.split)

lemma opened_frames: "chain (snd (opened_key k r hs)) = chain (snd hs) \<and> disk (snd (opened_key k r hs)) = disk (snd hs)"
  by (simp add: opened_key_def keep_pinned_def put_value_def Let_def split: option.split)

lemma hydrate_frames: "chain (hydrate_step i s) = chain s \<and> disk (hydrate_step i s) = disk s"
proof -
  have put: "chain (case hp of (h', s') \<Rightarrow> s'\<lparr>hydrations := (hydrations s')[i := h']\<rparr>) = chain (snd hp)"
    "disk (case hp of (h', s') \<Rightarrow> s'\<lparr>hydrations := (hydrations s')[i := h']\<rparr>) = disk (snd hp)" for hp
    by (cases hp; simp)+
  show ?thesis
  proof (cases "h_open (hydrations s ! i)")
    case (Some kr)
    then show ?thesis by (cases kr) (simp add: hydrate_step_def Let_def put opened_frames)
  next
    case None
    then show ?thesis by (cases "h_keys (hydrations s ! i)") (simp_all add: hydrate_step_def Let_def put read_frames)
  qed
qed


lemma heal_one_eq: "heal_one kv s = (if cached s (fst kv) = Some (snd kv) then attempt (setItem (fst kv) (Some (snd kv))) s else s)"
  by (simp add: heal_one_def)

lemma heal_fold:
  "flow s \<Longrightarrow> flow (fold heal_one hs s)
    \<and> target (fold heal_one hs s) = register (if refuses s then []
        else map (\<lambda>kv. (fst kv, Some (snd kv))) (filter (\<lambda>kv. cached s (fst kv) = Some (snd kv)) hs)) (target s)"
proof (induction hs arbitrary: s)
  case (Cons kv hs)
  have r: "refuses (heal_one kv s) = refuses s" by (simp add: heal_one_eq set_accepted refuses_def)
  have c: "cached (heal_one kv s) = cached s" by (auto simp: heal_one_eq set_accepted fun_upd_idem)
  have f: "flow (heal_one kv s)" "target (heal_one kv s) = (if \<not> refuses s \<and> cached s (fst kv) = Some (snd kv)
      then (target s)(fst kv \<mapsto> snd kv) else target s)"
    using flow_set [OF Cons.prems, of "fst kv" "snd kv"] Cons.prems by (auto simp: heal_one_eq)
  from Cons.IH [OF f(1)] show ?case unfolding r c f(2) by simp
qed simp

lemma undisturbed_step:
  assumes f: "flow s" and u: "undisturbed e"
  shows "flow (sstep e s) \<and> target (sstep e s) = register (calls e s) (target s)"
proof (cases e)
  case (Set k v)
  then show ?thesis using flow_set [OF f, of k v] by simp
next
  case (Mutate k g)
  then show ?thesis using f flow_set [OF f, of k] by (auto simp: mutate_commit_def getItem_def split: option.split)
next
  case (Remove k)
  then show ?thesis using appended [OF f, of "RemoveJob (stamp s)" "removeItem k s" k] by (simp add: removeItem_def)
next
  case SelfHeal
  then show ?thesis
    using f heal_fold [of "s\<lparr>heals := tl (heals s)\<rparr>" "hd (heals s)"] flow_same [of "s\<lparr>heals := tl (heals s)\<rparr>" s]
    by (cases "heals s") (simp_all add: self_heal_def refuses_def)
next
  case (EncryptKey k)
  then show ?thesis using f appended [OF f, of ToEncrypted "migrateKeyAtomic k ToEncrypted s" k]
    by (simp add: migrateToEncrypted_def migrateKeyAtomic_def)
next
  case (DecryptKey sk k)
  then show ?thesis using f appended [OF f, of "ToPlaintext sk" "migrateKeyAtomic k (ToPlaintext sk) s" k]
    by (simp add: migrateToPlaintext_def migrateKeyAtomic_def)
next
  case (RunJob k ok)
  with u turned_flow [OF f run_turned [OF f, of k]] show ?thesis by simp
next
  case (SettleJob k ok)
  with u turned_flow [OF f settle_turned [OF f, of k]] show ?thesis by simp
next
  case Hydrate
  then show ?thesis using f flow_same [of "hydrateAll s" s] by (simp add: hydrateAll_def hydrateKeys_def)
next
  case (HydrateOne k)
  then show ?thesis using f flow_same [of "attempt (hydrateKey k) s" s]
    by (simp add: attempt_def hydrateKey_def hydrateKeys_def)
next
  case (HydrateStep i)
  then show ?thesis using f flow_same [of "hydrate_step i s" s] hydrate_frames [of i s] by simp
next
  case Drain
  then show ?thesis using f flow_same [of "drainWriteChain s" s] by (simp add: drainWriteChain_def)
next
  case (VaultBecomes v)
  then show ?thesis using f flow_same [of "s\<lparr>vault := v\<rparr>" s] by simp
next
  case (Wiping b)
  then show ?thesis using f flow_same [of "s\<lparr>wiping := b\<rparr>" s] by simp
next
  case (Sibling k r)
  with u show ?thesis by simp
qed

lemma undisturbed_run:
  "flow s \<Longrightarrow> list_all undisturbed es \<Longrightarrow>
    flow (srun es s) \<and> target (srun es s) = register (all_calls es s) (target s)"
proof (induction es arbitrary: s)
  case (Cons e es)
  with undisturbed_step [of s e] show ?case by simp
qed simp

lemma flow_boot: "flow (boot d v)"
  by (simp add: flow_def boot_def)

lemma register_map_of: "register cs m k = (case map_of (rev cs) k of Some w \<Rightarrow> w | None \<Rightarrow> m k)"
proof (induction cs arbitrary: m)
  case (Cons c cs)
  then show ?case by (cases c) (simp add: map_add_def split: option.split)
qed simp

section \<open>Properties\<close>

text \<open>C3: the last write called for is the one the disk ends with. In any interleaving of calls,
  seals, hydrations, migrations, self-heals and changes of the vault, while no other tab writes
  and the disk takes the writes: once a key's queue has run, the disk holds the value of the
  last accepted call for that key, sealed or not, and what it held at the start where no call
  was made.\<close>

theorem last_call_wins:
  assumes "list_all undisturbed es" and "chain (srun es (boot d v)) k = []"
  shows "content (disk (srun es (boot d v)) k) =
    (case map_of (rev (all_calls es (boot d v))) k of Some w \<Rightarrow> w | None \<Rightarrow> content (d k))"
proof -
  have "target (srun es (boot d v)) k = register (all_calls es (boot d v)) (target (boot d v)) k"
    using undisturbed_run [OF flow_boot assms(1)] by simp
  moreover have "target (srun es (boot d v)) k = content (disk (srun es (boot d v)) k)"
    using assms(2) by (simp add: target_def)
  moreover have "target (boot d v) k = content (d k)" by (simp add: target_def boot_def)
  ultimately show ?thesis by (simp add: register_map_of cong: option.case_cong)
qed

definition vault_off :: vault where
  "vault_off = \<lparr>enabled = False, session = None, identity = []\<rparr>"

definition vault_open :: vault where
  "vault_open = \<lparr>enabled = True, session = Some 1, identity = ''me''\<rparr>"

theorem last_call_wins_witness:
  "content (disk (srun [Set ''k'' ''A'', Set ''k'' ''B'', RunJob ''k'' True, Hydrate, SettleJob ''k'' True,
      VaultBecomes vault_off, RunJob ''k'' True] (boot (\<lambda>_. None) vault_open)) ''k'') = Some ''B''"
proof -
  let ?es = "[Set ''k'' ''A'', Set ''k'' ''B'', RunJob ''k'' True, Hydrate, SettleJob ''k'' True,
      VaultBecomes vault_off, RunJob ''k'' True]"
  have u: "list_all undisturbed ?es" by code_simp
  have c: "chain (srun ?es (boot (\<lambda>_. None) vault_open)) ''k'' = []" by code_simp
  have "map_of (rev (all_calls ?es (boot (\<lambda>_. None) vault_open))) ''k'' = Some (Some ''B'')" by code_simp
  with last_call_wins [OF u c] show ?thesis by simp
qed

section \<open>What a queued call keeps readable\<close>

fun pin_of :: "write_job \<Rightarrow> pin option" where
  "pin_of (SetJob v _) = Some (Pinned v)"
| "pin_of (Sealing v _ _) = Some (Pinned v)"
| "pin_of (RemoveJob t) = Some (Tombstone t)"
| "pin_of _ = None"

fun pins :: "write_job list \<Rightarrow> pin list" where
  "pins [] = []"
| "pins (j # js) = (case pin_of j of None \<Rightarrow> pins js | Some p \<Rightarrow> p # pins js)"

lemma pins_append [simp]: "pins (js @ js') = pins js @ pins js'"
  by (induction js) (simp_all split: option.split)

text \<open>The latest queued call of a key owns its pin.\<close>

definition owned :: "skey \<Rightarrow> secure \<Rightarrow> bool" where
  "owned k s \<longleftrightarrow> pins (chain s k) = [] \<or> pending s k = Some (last (pins (chain s k)))"

text \<open>A step that takes at most the head off a queue, and clears at most its pin.\<close>

definition popped :: "skey \<Rightarrow> secure \<Rightarrow> secure \<Rightarrow> bool" where
  "popped k s s' \<longleftrightarrow> pins (chain s' k) = pins (chain s k) \<and> pending s' k = pending s k
     \<or> (\<exists>p. pins (chain s k) = p # pins (chain s' k) \<and> (pending s' k = pending s k \<or> pending s k = Some p))"

lemma popped_owned: "owned k s \<Longrightarrow> distinct (pins (chain s k)) \<Longrightarrow> popped k s s' \<Longrightarrow> owned k s'"
  unfolding owned_def popped_def by (auto split: if_splits)

lemma pending_frames:
  "pending (clearPendingIfMine k v s) = (if pending s k = Some (Pinned v) then (pending s)(k := None) else pending s)"
  "pending (roll_back k v p s) = (if pending s k = Some (Pinned v) then (pending s)(k := None) else pending s)"
  "pending (finishRemoval k t s) = (if pending s k = Some (Tombstone t) then (pending s)(k := None) else pending s)"
  by (simp_all add: store_defs Let_def)

lemma run_popped: "popped k s (run_job k' ok s)"
proof (cases "k' = k")
  case False
  then show ?thesis unfolding popped_def run_job_def
    by (auto simp: pending_frames split: list.split write_job.split option.split)
next
  case True
  show ?thesis
  proof (cases "chain s k")
    case Nil
    then show ?thesis by (simp add: popped_def run_job_def True)
  next
    case (Cons j js)
    then show ?thesis unfolding popped_def True
      by (cases j) (simp_all add: run_job_def pending_frames split: option.split prod.split)
  qed
qed

lemma settle_popped: "popped k s (settle_job k' ok s)"
proof (cases "k' = k")
  case False
  then show ?thesis unfolding popped_def settle_job_def
    by (auto simp: pending_frames split: list.split write_job.split)
next
  case True
  show ?thesis
  proof (cases "chain s k")
    case Nil
    then show ?thesis by (simp add: popped_def settle_job_def True)
  next
    case (Cons j js)
    then show ?thesis unfolding popped_def True
      by (cases j) (simp_all add: settle_job_def pending_frames)
  qed
qed

lemma owned_set: "owned k s \<Longrightarrow> owned k (attempt (setItem k' (Some v)) s)"
  by (simp add: owned_def set_accepted)

lemma owned_same: "chain s' k = chain s k \<Longrightarrow> pending s' k = pending s k \<Longrightarrow> owned k s' = owned k s"
  by (simp add: owned_def)

lemma owned_heal: "owned k s \<Longrightarrow> owned k (self_heal s)"
  unfolding self_heal_def
  by (cases "heals s") (simp_all add: fold_keeps [where P = "owned k"] heal_one_def owned_set owned_same [of "s\<lparr>heals := x\<rparr>" k s for x])

lemma hydrate_pending: "pending (hydrate_step i s) = pending s"
proof -
  have put: "pending (case hp of (h', s') \<Rightarrow> s'\<lparr>hydrations := (hydrations s')[i := h']\<rparr>) = pending (snd hp)" for hp
    by (cases hp; simp)
  have r: "pending (snd (read_key k hs)) = pending (snd hs)" "pending (snd (opened_key k r hs)) = pending (snd hs)" for k r hs
    by (simp_all add: read_key_def opened_key_def keep_pinned_def put_value_def Let_def split: option.split raw.split)
  show ?thesis
  proof (cases "h_open (hydrations s ! i)")
    case (Some kr)
    then show ?thesis by (cases kr) (simp add: hydrate_step_def Let_def put r)
  next
    case None
    then show ?thesis by (cases "h_keys (hydrations s ! i)") (simp_all add: hydrate_step_def Let_def put r)
  qed
qed

lemma owned_step:
  assumes o: "owned k s" and d: "distinct (pins (chain s k))" and k: "k \<in> set SECURE_KEYS"
  shows "owned k (sstep e s)"
proof (cases e)
  case (Mutate k' f)
  with o show ?thesis by (auto simp: mutate_commit_def owned_set split: option.split)
next
  case (Remove k')
  with o show ?thesis by (auto simp: removeItem_def owned_def)
next
  case (RunJob k' ok)
  with popped_owned [OF o d run_popped] show ?thesis by simp
next
  case (SettleJob k' ok)
  with popped_owned [OF o d settle_popped] show ?thesis by simp
next
  case Hydrate
  with o show ?thesis by (simp add: hydrateAll_def hydrateKeys_def owned_def)
next
  case (HydrateOne k')
  with o show ?thesis by (simp add: hydrateKey_def hydrateKeys_def attempt_def owned_def)
next
  case (HydrateStep i)
  with o show ?thesis using owned_same [of "hydrate_step i s" k s] by (simp add: hydrate_pending hydrate_frames)
next
  case (EncryptKey k')
  with o show ?thesis by (auto simp: migrateToEncrypted_def migrateKeyAtomic_def owned_def)
next
  case (DecryptKey sk k')
  with o show ?thesis by (auto simp: migrateToPlaintext_def migrateKeyAtomic_def owned_def)
next
  case Drain
  with o k show ?thesis by (auto simp: drainWriteChain_def owned_def list_all_iff)
qed (use o owned_set owned_heal in \<open>simp_all add: owned_def\<close>)

text \<open>No value is called for while an equal one is still queued.\<close>

definition unrepeated :: "secure \<Rightarrow> bool" where
  "unrepeated s = list_all (\<lambda>k. distinct (pins (chain s k))) SECURE_KEYS"

fun never_repeats :: "sevent list \<Rightarrow> secure \<Rightarrow> bool" where
  "never_repeats [] s = True"
| "never_repeats (e # es) s = (unrepeated s \<and> never_repeats es (sstep e s))"

lemma owned_run: "owned k s \<Longrightarrow> k \<in> set SECURE_KEYS \<Longrightarrow> never_repeats es s \<Longrightarrow> owned k (srun es s)"
proof (induction es arbitrary: s)
  case (Cons e es)
  then have "distinct (pins (chain s k))" by (simp add: unrepeated_def list_all_iff)
  with Cons owned_step show ?case by simp
qed simp




section \<open>Hydration and wipes\<close>

text \<open>A hydration reads nothing it should not: it leaves a pinned key as it is, and what it
  puts in the cache of another is the plaintext of that key's own slot, or the text of an
  envelope that was sealed under the session key it started with, for this vault and this key.\<close>

theorem hydration_authentic:
  assumes i: "i < length (hydrations s)" and h: "h = hydrations s ! i"
  shows "cached (hydrate_step i s) k = cached s k
    \<or> pending s k = None \<and> (\<exists>x. cached (hydrate_step i s) k = Some x
        \<and> (disk s k = Some (Plaintext x)
            \<or> (\<exists>sk. h_session h = Some sk \<and> h_open h = Some (k, Envelope sk (identity (vault s)) k x))))"
proof -
  have put: "cached (case hp of (h', s') \<Rightarrow> s'\<lparr>hydrations := (hydrations s')[i := h']\<rparr>) = cached (snd hp)" for hp
    by (cases hp; simp)
  show ?thesis
  proof (cases "h_open h")
    case (Some kr)
    obtain k' r where kr: "kr = (k', r)" by fastforce
    have c: "cached (hydrate_step i s) = cached (snd (opened_key k' r (h, s)))"
      using i Some kr by (simp add: hydrate_step_def Let_def put h [symmetric])
    have "cached (snd (opened_key k' r (h, s))) k = cached s k \<or> k = k' \<and> pending s k = None
        \<and> (\<exists>sk x. h_session h = Some sk \<and> r = Envelope sk (identity (vault s)) k x \<and> cached (snd (opened_key k' r (h, s))) k = Some x)"
      by (cases r) (auto simp: opened_key_def open_envelope_def keep_pinned_def put_value_def Let_def bind_eq_Some_conv split: option.splits)
    then show ?thesis unfolding c Some kr by auto
  next
    case None
    show ?thesis
    proof (cases "h_keys h")
      case Nil
      with None i show ?thesis by (simp add: hydrate_step_def Let_def h [symmetric])
    next
      case (Cons k' ks)
      have c: "cached (hydrate_step i s) = cached (snd (read_key k' (h\<lparr>h_keys := ks\<rparr>, s)))"
        using i None Cons by (simp add: hydrate_step_def Let_def put h [symmetric])
      show ?thesis unfolding c
        by (auto simp: read_key_def keep_pinned_def put_value_def Let_def split: option.splits raw.splits)
    qed
  qed
qed

text \<open>Two slots exchanged on the disk: neither envelope opens in the other's place.\<close>

definition swapped_disk :: "skey \<Rightarrow> raw option" where
  "swapped_disk k = (if k = ''deepview.workspaces'' then Some (Envelope 1 ''me'' ''deepview.repoUrls'' ''x'') else None)"

theorem hydration_authentic_witness:
  "cached (srun [HydrateOne ''deepview.workspaces'', HydrateStep 0, HydrateStep 0] (boot swapped_disk vault_open)) ''deepview.workspaces'' = None"
proof -
  let ?s = "srun [HydrateOne ''deepview.workspaces'', HydrateStep 0] (boot swapped_disk vault_open)"
  have i: "0 < length (hydrations ?s)" by code_simp
  have "cached ?s ''deepview.workspaces'' = None" "disk ?s ''deepview.workspaces'' \<noteq> Some (Plaintext x)"
    "h_open (hydrations ?s ! 0) = Some (''deepview.workspaces'', Envelope 1 ''me'' ''deepview.repoUrls'' ''x'')" for x
    by (code_simp, simp add: boot_def swapped_disk_def vault_open_def hydrateKey_def attempt_def hydrateKeys_def hydrate_step_def read_key_def Let_def SECURE_KEYS_def, code_simp)
  with hydration_authentic [OF i refl, of "''deepview.workspaces''"] show ?thesis by auto
qed

text \<open>While a wipe runs in a tab whose queues were drained, the tab puts nothing on the disk.\<close>

fun during_wipe :: "sevent \<Rightarrow> bool" where
  "during_wipe (Sibling _ _) = False"
| "during_wipe (Wiping _) = False"
| "during_wipe (EncryptKey _) = False"
| "during_wipe (DecryptKey _ _) = False"
| "during_wipe _ = True"

definition only_removals :: "secure \<Rightarrow> bool" where
  "only_removals s \<longleftrightarrow> wiping s \<and> (\<forall>k. \<forall>j \<in> set (chain s k). \<exists>t. j = RemoveJob t)"

definition shrinks :: "secure \<Rightarrow> secure \<Rightarrow> bool" where
  "shrinks s s' \<longleftrightarrow> only_removals s' \<and> (\<forall>k. disk s' k = disk s k \<or> disk s' k = None)"

lemma shrinks_same:
  "only_removals s \<Longrightarrow> wiping s' = wiping s \<Longrightarrow> chain s' = chain s \<Longrightarrow> disk s' = disk s \<Longrightarrow> shrinks s s'"
  by (simp add: shrinks_def only_removals_def)

lemma wipe_refuses: "only_removals s \<Longrightarrow> attempt (setItem k (Some v)) s = s"
  by (simp add: set_accepted refuses_def only_removals_def)

lemma hydrate_wiping: "wiping (hydrate_step i s) = wiping s"
proof -
  have put: "wiping (case hp of (h', s') \<Rightarrow> s'\<lparr>hydrations := (hydrations s')[i := h']\<rparr>) = wiping (snd hp)" for hp
    by (cases hp; simp)
  have r: "wiping (snd (read_key k hs)) = wiping (snd hs)" "wiping (snd (opened_key k r hs)) = wiping (snd hs)" for k r hs
    by (simp_all add: read_key_def opened_key_def keep_pinned_def put_value_def Let_def split: option.split raw.split)
  show ?thesis
  proof (cases "h_open (hydrations s ! i)")
    case (Some kr)
    then show ?thesis by (cases kr) (simp add: hydrate_step_def Let_def put r)
  next
    case None
    then show ?thesis by (cases "h_keys (hydrations s ! i)") (simp_all add: hydrate_step_def Let_def put r)
  qed
qed

lemma wipe_heal: "only_removals s \<Longrightarrow> fold heal_one hs s = s"
  by (induction hs) (simp_all add: heal_one_def wipe_refuses)

lemma wipe_run: "only_removals s \<Longrightarrow> shrinks s (run_job k ok s)"
proof (cases "chain s k")
  case (Cons j js)
  assume o: "only_removals s"
  then obtain t where j: "j = RemoveJob t" unfolding only_removals_def Cons by (metis Cons list.set_intros(1))
  have "wiping (finishRemoval k t (advance k js s)) = wiping s" by (simp add: store_defs Let_def)
  moreover have "\<exists>t. x = RemoveJob t" if "x \<in> set (((chain s)(k := js)) k')" for x k'
  proof (cases "k' = k")
    case True
    with that Cons have "x \<in> set (chain s k)" by simp
    with o show ?thesis unfolding only_removals_def by blast
  next
    case False
    with that have "x \<in> set (chain s k')" by simp
    with o show ?thesis unfolding only_removals_def by blast
  qed
  ultimately have "only_removals (finishRemoval k t (advance k js s))"
    using o unfolding only_removals_def by simp
  then show ?thesis unfolding run_job_def Cons j by (simp add: shrinks_def)
next
  case Nil
  assume "only_removals s"
  with Nil show ?thesis by (simp add: run_job_def shrinks_same)
qed

lemma wipe_settle: "only_removals s \<Longrightarrow> settle_job k ok s = s"
proof (cases "chain s k")
  case (Cons j js)
  assume "only_removals s"
  then obtain t where "j = RemoveJob t" unfolding only_removals_def by (metis Cons list.set_intros(1))
  with Cons show ?thesis by (simp add: settle_job_def)
qed (simp add: settle_job_def)

lemma wipe_step: "only_removals s \<Longrightarrow> during_wipe e \<Longrightarrow> shrinks s (sstep e s)"
proof (cases e)
  case (Mutate k f)
  assume "only_removals s"
  with Mutate show ?thesis by (auto simp: mutate_commit_def wipe_refuses shrinks_same split: option.split)
next
  case (Remove k)
  assume "only_removals s"
  with Remove show ?thesis by (auto simp: removeItem_def shrinks_def only_removals_def)
next
  case (HydrateOne k)
  assume "only_removals s"
  with HydrateOne show ?thesis by (auto simp: attempt_def hydrateKey_def hydrateKeys_def intro!: shrinks_same)
next
  case SelfHeal
  assume o: "only_removals s"
  then have "only_removals (s\<lparr>heals := r\<rparr>)" for r by (simp add: only_removals_def)
  with SelfHeal o show ?thesis by (cases "heals s") (auto simp: self_heal_def wipe_heal intro!: shrinks_same)
next
  case Drain
  assume "only_removals s"
  with Drain show ?thesis by (auto simp: drainWriteChain_def intro!: shrinks_same)
qed (auto simp: wipe_refuses wipe_run wipe_settle hydrate_wiping hydrate_frames hydrateAll_def hydrateKeys_def intro: shrinks_same)



section \<open>Where cache and disk part\<close>

text \<open>Two writes in flight that the disk both refuses: the second rolls the cache back to the
  first's value, which no disk ever held.\<close>

lemma refused_writes_leave_ghost:
  "(let s = srun [Set ''k'' ''A'', Set ''k'' ''B'', RunJob ''k'' False, RunJob ''k'' False] (boot (\<lambda>_. None) vault_off)
    in (getItem ''k'' s, disk s ''k'', chain s ''k'', pending s ''k'')) = (Some ''A'', None, [], None)"
  by code_simp

text \<open>The same value called for again while the first call of it is queued: the first's end takes
  the pin, a hydration reads the disk between, and the cache keeps the value in the middle.\<close>

lemma repeated_value_left_stale:
  "(let k = ''deepview.lastFile''; s = srun [Set k ''A'', Set k ''B'', Set k ''A'', RunJob k True, RunJob k True,
        HydrateOne k, HydrateStep 0, HydrateStep 0, RunJob k True] (boot (\<lambda>_. None) vault_off)
    in (getItem k s, disk s k, chain s k)) = (Some ''B'', Some (Plaintext ''A''), [])"
  by code_simp

text \<open>Another tab re-keys the vault between a call and its write: the write is not refused, it goes
  to the disk in plaintext under an enabled vault.\<close>

lemma locked_write_in_plaintext:
  "(let s = srun [Set ''k'' ''secret'', VaultBecomes \<lparr>enabled = True, session = None, identity = []\<rparr>, RunJob ''k'' True]
        (boot (\<lambda>_. None) vault_open)
    in (enabled (vault s), disk s ''k'')) = (True, Some (Plaintext ''secret''))"
  by code_simp

end
