(* ===== verification/SyncCrypto.thy ===== *)
theory SyncCrypto
  imports Utf8
begin

text \<open>
  The bytes of the sync protocol (\<^verbatim>\<open>src/client/sync/sync-crypto.ts\<close>,
  \<^verbatim>\<open>src/server-e2e/sign.ts\<close>, \<^verbatim>\<open>src/server-e2e/validation.ts\<close>, and the capped
  decompression of \<^verbatim>\<open>src/common/gzip.js\<close>): what a signature covers, as the client and as
  the relay write it; the gates a field passes before it is signed over; and the envelope of a
  changeset, compressed, framed and padded to a power of two before it is encrypted. Text on
  the wire is its code units. Ed25519, SHA-256, ChaCha20-Poly1305, gzip, base64 and JSON are the
  platform's and are arguments.
\<close>

type_synonym ustr = "unit16 list"

definition units :: "string \<Rightarrow> ustr" where
  "units s = map (\<lambda>c. word_of_nat (of_char c)) s"

section \<open>What a signature covers\<close>

fun join_lines :: "ustr list \<Rightarrow> ustr" where
  "join_lines [] = []"
| "join_lines [x] = x"
| "join_lines (x # y # xs) = x @ 10 # join_lines (y # xs)"

definition SIGN_DOMAIN :: ustr where
  "SIGN_DOMAIN = units ''deepview-triage-sync.v1.save''"

definition SUBSCRIBE_DOMAIN :: ustr where
  "SUBSCRIBE_DOMAIN = units ''deepview-triage-sync.v1.subscribe''"

record save_payload =
  p_key :: ustr
  p_base :: "ustr option"
  p_keyframe :: bool
  p_nonce :: ustr
  p_cipher :: ustr

definition or_blank :: "ustr option \<Rightarrow> ustr" where
  "or_blank b = (case b of None \<Rightarrow> [] | Some s \<Rightarrow> s)"

definition save_lines :: "save_payload \<Rightarrow> ustr list" where
  "save_lines p = [SIGN_DOMAIN, p_key p, or_blank (p_base p), if p_keyframe p then units ''1'' else [],
     p_nonce p, p_cipher p]"

definition canonicalSavePayload :: "save_payload \<Rightarrow> utf8_error + byte list" where
  "canonicalSavePayload p = encodeUtf8 (Text (join_lines (save_lines p)))"

definition canonicalSubscribePayload :: "ustr \<Rightarrow> ustr option \<Rightarrow> ustr \<Rightarrow> utf8_error + byte list" where
  "canonicalSubscribePayload key from nonce =
     encodeUtf8 (Text (join_lines [SUBSCRIBE_DOMAIN, key, or_blank from, nonce]))"

text \<open>The additional data an envelope is bound to.\<close>

definition buildAad :: "ustr \<Rightarrow> ustr option \<Rightarrow> utf8_error + byte list" where
  "buildAad tag base = encodeUtf8 (Text (tag @ units ''|'' @ or_blank base))"

section \<open>The relay's side\<close>

text \<open>A field of a parsed message: absent, or what it was parsed to. Numbers, arrays and
  objects are all one value, which no test lets through.\<close>

datatype wval = WAbsent | WNull | WBool bool | WStr ustr | WOther

record save_msg =
  m_tag :: wval
  m_base :: wval
  m_keyframe :: wval
  m_nonce :: wval
  m_cipher :: wval
  m_sig :: wval

datatype canon_error = TagNotString | NonceNotString | CipherNotString | BaseNotString | BadText utf8_error

definition wnullish :: "wval \<Rightarrow> bool" where
  "wnullish v = (v = WAbsent \<or> v = WNull)"

fun wstr :: "wval \<Rightarrow> ustr option" where
  "wstr (WStr s) = Some s"
| "wstr _ = None"

definition of_utf8 :: "utf8_error + byte list \<Rightarrow> canon_error + byte list" where
  "of_utf8 r = (case r of Inl e \<Rightarrow> Inl (BadText e) | Inr bs \<Rightarrow> Inr bs)"

definition canonicalSave :: "save_msg \<Rightarrow> canon_error + byte list" where
  "canonicalSave m = (case wstr (m_tag m) of None \<Rightarrow> Inl TagNotString | Some tag \<Rightarrow>
     (case wstr (m_nonce m) of None \<Rightarrow> Inl NonceNotString | Some nonce \<Rightarrow>
     (case wstr (m_cipher m) of None \<Rightarrow> Inl CipherNotString | Some cipher \<Rightarrow>
        if \<not> wnullish (m_base m) \<and> wstr (m_base m) = None then Inl BaseNotString
        else of_utf8 (encodeUtf8 (Text (join_lines [SIGN_DOMAIN, tag, or_blank (wstr (m_base m)),
               if m_keyframe m = WBool True then units ''1'' else [], nonce, cipher]))))))"

definition canonicalSubscribe :: "wval \<Rightarrow> wval \<Rightarrow> ustr \<Rightarrow> canon_error + byte list" where
  "canonicalSubscribe tag from nonce =
     (if \<not> wnullish from \<and> wstr from = None then Inl BaseNotString
      else case wstr tag of None \<Rightarrow> Inl TagNotString | Some t \<Rightarrow>
        of_utf8 (encodeUtf8 (Text (join_lines [SUBSCRIBE_DOMAIN, t, or_blank (wstr from), nonce]))))"

text \<open>\<open>fromB64Url\<close> and the verification of the platform are arguments; the latter may throw.\<close>

definition verifyEd25519 ::
    "(ustr \<Rightarrow> byte list) \<Rightarrow> (byte list \<Rightarrow> byte list \<Rightarrow> byte list \<Rightarrow> bool option)
      \<Rightarrow> ustr \<Rightarrow> byte list \<Rightarrow> ustr \<Rightarrow> bool" where
  "verifyEd25519 b64 ed pubkey message sig =
     (if length (b64 pubkey) \<noteq> 32 then False
      else if length (b64 sig) \<noteq> 64 then False
      else ed (b64 pubkey) (b64 sig) message = Some True)"

definition verifySaveSigAndCanonical ::
    "(ustr \<Rightarrow> byte list) \<Rightarrow> (byte list \<Rightarrow> byte list \<Rightarrow> byte list \<Rightarrow> bool option)
      \<Rightarrow> save_msg \<Rightarrow> byte list option" where
  "verifySaveSigAndCanonical b64 ed m = (case (wstr (m_tag m), wstr (m_sig m)) of
       (Some tag, Some sig) \<Rightarrow> (case canonicalSave m of Inl _ \<Rightarrow> None
          | Inr bytes \<Rightarrow> if verifyEd25519 b64 ed tag bytes sig then Some bytes else None)
     | _ \<Rightarrow> None)"

definition verifySubscribeSig ::
    "(ustr \<Rightarrow> byte list) \<Rightarrow> (byte list \<Rightarrow> byte list \<Rightarrow> byte list \<Rightarrow> bool option)
      \<Rightarrow> wval \<Rightarrow> wval \<Rightarrow> wval \<Rightarrow> wval \<Rightarrow> bool" where
  "verifySubscribeSig b64 ed tag from sig nonce = (case (wstr tag, wstr sig, wstr nonce) of
       (Some t, Some s, Some n) \<Rightarrow> (case canonicalSubscribe tag from n of Inl _ \<Rightarrow> False
          | Inr bytes \<Rightarrow> verifyEd25519 b64 ed t bytes s)
     | _ \<Rightarrow> False)"

section \<open>The gates of a field\<close>

definition in_range :: "unit16 \<Rightarrow> string \<Rightarrow> bool" where
  "in_range u ends = (of_char (ends ! 0) \<le> unat u \<and> unat u \<le> of_char (ends ! 1))"

definition word_char :: "unit16 \<Rightarrow> bool" where
  "word_char u = (in_range u ''AZ'' \<or> in_range u ''az'' \<or> in_range u ''09'' \<or> u \<in> set (units ''_''))"

definition tag_char :: "unit16 \<Rightarrow> bool" where
  "tag_char u = (word_char u \<or> u \<in> set (units ''-''))"

definition cipher_char :: "unit16 \<Rightarrow> bool" where
  "cipher_char u = (word_char u \<or> u \<in> set (units ''+/=-''))"

definition MAX_FIELD_LEN :: nat where "MAX_FIELD_LEN = 128"
definition MAX_CIPHERTEXT_LEN :: nat where "MAX_CIPHERTEXT_LEN = 2 * 1024 * 1024"

definition validTagSigBase :: "wval \<Rightarrow> nat \<Rightarrow> bool" where
  "validTagSigBase v most = (case v of WStr s \<Rightarrow> s \<noteq> [] \<and> length s \<le> most \<and> list_all tag_char s | _ \<Rightarrow> False)"

definition validNonce :: "wval \<Rightarrow> nat \<Rightarrow> bool" where
  "validNonce v most = (case v of WStr s \<Rightarrow> s \<noteq> [] \<and> length s \<le> most \<and> list_all cipher_char s | _ \<Rightarrow> False)"

definition validCiphertextShape :: "wval \<Rightarrow> bool" where
  "validCiphertextShape v = (case v of WStr s \<Rightarrow> s \<noteq> [] \<and> list_all cipher_char s | _ \<Rightarrow> False)"

text \<open>The first test of \<open>commitSave\<close>.\<close>

definition save_shape_ok :: "save_msg \<Rightarrow> bool" where
  "save_shape_ok m = (validTagSigBase (m_tag m) MAX_FIELD_LEN \<and> validNonce (m_nonce m) MAX_FIELD_LEN
     \<and> validCiphertextShape (m_cipher m) \<and> validTagSigBase (m_sig m) MAX_FIELD_LEN
     \<and> (wnullish (m_base m) \<or> validTagSigBase (m_base m) MAX_FIELD_LEN))"

section \<open>The envelope\<close>

definition PAD_FLOOR :: nat where "PAD_FLOOR = 64"
definition MAX_DECOMPRESSED_BYTES :: nat where "MAX_DECOMPRESSED_BYTES = 64 * 1024 * 1024"

definition clz32 :: "32 word \<Rightarrow> nat" where
  "clz32 w = length (takeWhile (\<lambda>i. \<not> bit w i) (rev [0..<32]))"

definition nextPow2AtLeast :: "nat \<Rightarrow> nat \<Rightarrow> nat" where
  "nextPow2AtLeast n floor = (if n \<le> floor then floor else 2 ^ (32 - clz32 (word_of_nat (n - 1))))"

text \<open>\<open>setUint32\<close> and \<open>getUint32\<close>, big-endian.\<close>

definition be32 :: "nat \<Rightarrow> byte list" where
  "be32 n = [word_of_nat (n div 2 ^ 24), word_of_nat (n div 2 ^ 16), word_of_nat (n div 2 ^ 8), word_of_nat n]"

definition of_be32 :: "byte list \<Rightarrow> nat" where
  "of_be32 bs = ((unat (bs ! 0) * 256 + unat (bs ! 1)) * 256 + unat (bs ! 2)) * 256 + unat (bs ! 3)"

datatype envelope_error = BadUtf8 utf8_error | PayloadTooLarge | PlaintextTooShort | LengthExceedsBuffer
  | Inflate | OverCap | NotDecrypted | NotJson

text \<open>\<open>gunzipBytes\<close>: the decompressor yields its output in chunks and may fail after some
  of them. With a cap, reading stops at the chunk that crosses it.\<close>

datatype inflated = Chunk "byte list" inflated | Done | Corrupt

fun read_chunks :: "nat option \<Rightarrow> nat \<Rightarrow> inflated \<Rightarrow> envelope_error + byte list" where
  "read_chunks cap used Done = Inr []"
| "read_chunks cap used Corrupt = Inl Inflate"
| "read_chunks cap used (Chunk bs rest) =
     (if (case cap of None \<Rightarrow> False | Some m \<Rightarrow> used + length bs > m) then Inl OverCap
      else case read_chunks cap (used + length bs) rest of Inl e \<Rightarrow> Inl e | Inr cs \<Rightarrow> Inr (bs @ cs))"

definition gunzipBytes :: "(byte list \<Rightarrow> inflated) \<Rightarrow> nat option \<Rightarrow> byte list \<Rightarrow> envelope_error + byte list" where
  "gunzipBytes inflate cap bytes = read_chunks cap 0 (inflate bytes)"

definition frame :: "byte list \<Rightarrow> byte list" where
  "frame compressed = be32 (length compressed) @ compressed
     @ replicate (nextPow2AtLeast (4 + length compressed) PAD_FLOOR - (4 + length compressed)) 0"

definition frameAndPad ::
    "(byte list \<Rightarrow> byte list) \<Rightarrow> ('v \<Rightarrow> ustr) \<Rightarrow> 'v \<Rightarrow> envelope_error + byte list" where
  "frameAndPad gzip stringify v = (case encodeUtf8 (Text (stringify v)) of Inl e \<Rightarrow> Inl (BadUtf8 e)
     | Inr json \<Rightarrow> (let compressed = gzip json in
         if length compressed > 0x3FFFFFFC then Inl PayloadTooLarge else Inr (frame compressed)))"

definition unframeAndUngzip ::
    "(byte list \<Rightarrow> inflated) \<Rightarrow> (ustr \<Rightarrow> 'v option) \<Rightarrow> byte list \<Rightarrow> envelope_error + 'v" where
  "unframeAndUngzip inflate parse plaintext =
     (if length plaintext < 4 then Inl PlaintextTooShort
      else let len = of_be32 plaintext in
      if len + 4 > length plaintext then Inl LengthExceedsBuffer
      else case gunzipBytes inflate (Some MAX_DECOMPRESSED_BYTES) (take len (drop 4 plaintext)) of
         Inl e \<Rightarrow> Inl e
       | Inr json \<Rightarrow> (case decodeUtf8 (Buffer json) of Inl e \<Rightarrow> Inl (BadUtf8 e)
          | Inr s \<Rightarrow> (case parse s of None \<Rightarrow> Inl NotJson | Some v \<Rightarrow> Inr v)))"

text \<open>The cipher, with the nonce drawn: the platform's where it has one, else the library's.\<close>

record cipher =
  seal :: "byte list \<Rightarrow> byte list \<Rightarrow> byte list \<Rightarrow> byte list \<Rightarrow> byte list"
  unseal :: "byte list \<Rightarrow> byte list \<Rightarrow> byte list \<Rightarrow> byte list \<Rightarrow> byte list option"

definition pick_cipher :: "bool \<Rightarrow> cipher \<Rightarrow> cipher \<Rightarrow> cipher" where
  "pick_cipher native_ok native lib = (if native_ok then native else lib)"

record envelope_env =
  native_ok :: bool
  native :: cipher
  noble :: cipher
  to_b64 :: "byte list \<Rightarrow> ustr"
  from_b64 :: "ustr \<Rightarrow> byte list option"
  gz :: "byte list \<Rightarrow> byte list"
  ungz :: "byte list \<Rightarrow> inflated"

definition encryptJson ::
    "envelope_env \<Rightarrow> ('v \<Rightarrow> ustr) \<Rightarrow> byte list \<Rightarrow> byte list \<Rightarrow> 'v \<Rightarrow> byte list
      \<Rightarrow> envelope_error + ustr \<times> ustr" where
  "encryptJson env stringify nonce key v aad = (case frameAndPad (gz env) stringify v of Inl e \<Rightarrow> Inl e
     | Inr plaintext \<Rightarrow> Inr (to_b64 env nonce,
         to_b64 env (seal (pick_cipher (native_ok env) (native env) (noble env)) key nonce aad plaintext)))"

definition decryptJson ::
    "envelope_env \<Rightarrow> (ustr \<Rightarrow> 'v option) \<Rightarrow> byte list \<Rightarrow> ustr \<Rightarrow> ustr \<Rightarrow> byte list \<Rightarrow> envelope_error + 'v" where
  "decryptJson env parse key nonceB64 ciphertextB64 aad =
     (case (from_b64 env nonceB64, from_b64 env ciphertextB64) of
       (Some nonce, Some ct) \<Rightarrow>
         (case unseal (pick_cipher (native_ok env) (native env) (noble env)) key nonce aad ct of
            None \<Rightarrow> Inl NotDecrypted | Some pt \<Rightarrow> unframeAndUngzip (ungz env) parse pt)
     | _ \<Rightarrow> Inl NotDecrypted)"

section \<open>Lines\<close>

lemma join_lines_append: "xs \<noteq> [] \<Longrightarrow> join_lines (x # xs) = x @ 10 # join_lines xs"
  by (cases xs) simp_all

lemma split_line: "10 \<notin> set x \<Longrightarrow> 10 \<notin> set y \<Longrightarrow> x @ (10 :: unit16) # a = y @ 10 # b \<longleftrightarrow> x = y \<and> a = b"
proof (induction x arbitrary: y)
  case Nil
  then show ?case by (cases y) auto
next
  case (Cons u us)
  then show ?case by (cases y) auto
qed

lemma join_lines_inj:
  "length xs = length ys \<Longrightarrow> \<forall>x \<in> set (xs @ ys). 10 \<notin> set x \<Longrightarrow> join_lines xs = join_lines ys \<longleftrightarrow> xs = ys"
proof (induction xs ys rule: list_induct2)
  case (Cons x xs y ys)
  then show ?case
    by (cases "xs = []"; cases "ys = []") (auto simp: join_lines_append split_line)
qed simp

section \<open>Text of the alphabet\<close>

lemma tag_char_bounds: "tag_char u \<Longrightarrow> 45 \<le> unat u \<and> unat u < 128"
  by (auto simp: tag_char_def word_char_def in_range_def units_def)

lemma cipher_char_bounds: "cipher_char u \<Longrightarrow> 43 \<le> unat u \<and> unat u < 128"
  by (auto simp: cipher_char_def word_char_def in_range_def units_def)

text \<open>Plain text: no line break, no surrogate.\<close>

definition plain :: "ustr \<Rightarrow> bool" where
  "plain s = list_all (\<lambda>u. 43 \<le> unat u \<and> unat u < 128) s"

lemma plain_no_break: "plain s \<Longrightarrow> 10 \<notin> set s"
proof
  assume "plain s" "(10 :: unit16) \<in> set s"
  then have "43 \<le> unat (10 :: unit16)" unfolding plain_def list_all_iff by blast
  then show False by simp
qed

lemma plain_Nil [simp]: "plain []"
  by (simp add: plain_def)

lemma valid_tag_plain: "validTagSigBase v n \<Longrightarrow> \<exists>s. v = WStr s \<and> s \<noteq> [] \<and> plain s"
  by (auto simp: validTagSigBase_def plain_def list_all_iff tag_char_bounds split: wval.splits
      dest!: bspec tag_char_bounds)

lemma valid_nonce_plain: "validNonce v n \<Longrightarrow> \<exists>s. v = WStr s \<and> plain s"
  by (auto simp: validNonce_def plain_def list_all_iff split: wval.splits dest!: bspec cipher_char_bounds)

lemma valid_cipher_plain: "validCiphertextShape v \<Longrightarrow> \<exists>s. v = WStr s \<and> plain s"
  by (auto simp: validCiphertextShape_def plain_def list_all_iff split: wval.splits dest!: bspec cipher_char_bounds)

lemma well_formed_small: "list_all (\<lambda>u. u < 0xD800) us \<Longrightarrow> well_formed us"
  by (induction us rule: well_formed.induct) (auto simp: lead_def trail_def)

definition small :: "ustr \<Rightarrow> bool" where
  "small s = list_all (\<lambda>u. unat u < 0xD800) s"

lemma plain_small: "plain s \<Longrightarrow> small s"
  by (auto simp: plain_def small_def list_all_iff)

lemma small_join: "\<forall>x \<in> set xs. small x \<Longrightarrow> small (join_lines xs)"
  by (induction xs rule: join_lines.induct) (auto simp: small_def)

lemma small_encodes: "small s \<Longrightarrow> encodeUtf8 (Text s) = Inr (encode s)"
  by (simp add: encodeUtf8_def small_def well_formed_small list.pred_map comp_def)

lemma domain_small [simp]: "small SIGN_DOMAIN" "small SUBSCRIBE_DOMAIN" "small (units ''1'')"
  by (simp_all add: SIGN_DOMAIN_def SUBSCRIBE_DOMAIN_def units_def small_def)

lemma domain_no_break [simp]: "10 \<notin> set SIGN_DOMAIN" "10 \<notin> set SUBSCRIBE_DOMAIN" "10 \<notin> set (units ''1'')"
  by (simp_all add: SIGN_DOMAIN_def SUBSCRIBE_DOMAIN_def units_def)

lemma encodeUtf8_inj: "encodeUtf8 (Text s) = Inr b \<Longrightarrow> encodeUtf8 (Text t) = Inr b \<Longrightarrow> s = t"
  using decode_encoded [of s] decode_encoded [of t]
  by (auto simp: encodeUtf8_def split: if_splits)

text \<open>What the relay reads of a message that passes the gates.\<close>

definition read_save :: "save_msg \<Rightarrow> save_payload" where
  "read_save m = \<lparr>p_key = or_blank (wstr (m_tag m)), p_base = wstr (m_base m),
     p_keyframe = (m_keyframe m = WBool True), p_nonce = or_blank (wstr (m_nonce m)),
     p_cipher = or_blank (wstr (m_cipher m))\<rparr>"

lemma or_blank_simps [simp]: "or_blank None = []" "or_blank (Some s) = s"
  by (simp_all add: or_blank_def)

lemma gates_give_texts:
  assumes "save_shape_ok m"
  obtains tag nonce cipher where "m_tag m = WStr tag" "plain tag" "m_nonce m = WStr nonce" "plain nonce"
    "m_cipher m = WStr cipher" "plain cipher" "wnullish (m_base m) \<or> (\<exists>b. m_base m = WStr b \<and> b \<noteq> [] \<and> plain b)"
  using assms valid_tag_plain valid_nonce_plain valid_cipher_plain unfolding save_shape_ok_def by metis

lemma wstr_nullish: "wnullish v \<Longrightarrow> wstr v = None"
  by (auto simp: wnullish_def)

lemma canonical_gated:
  assumes "save_shape_ok m"
  shows "canonicalSave m = Inr (encode (join_lines (save_lines (read_save m))))"
    and "\<forall>x \<in> set (save_lines (read_save m)). 10 \<notin> set x"
    and "p_base (read_save m) \<noteq> Some []"
proof -
  obtain tag nonce cipher where f: "m_tag m = WStr tag" "plain tag" "m_nonce m = WStr nonce" "plain nonce"
      "m_cipher m = WStr cipher" "plain cipher"
      and b: "wnullish (m_base m) \<or> (\<exists>b. m_base m = WStr b \<and> b \<noteq> [] \<and> plain b)"
    by (rule gates_give_texts [OF assms])
  have pb: "plain (or_blank (wstr (m_base m)))" using b by (auto simp: wstr_nullish)
  have lines: "save_lines (read_save m) = [SIGN_DOMAIN, tag, or_blank (wstr (m_base m)),
      if m_keyframe m = WBool True then units ''1'' else [], nonce, cipher]"
    using f by (simp add: save_lines_def read_save_def)
  have sm: "\<forall>x \<in> set (save_lines (read_save m)). small x"
    using f pb plain_small by (auto simp: lines)
  show "\<forall>x \<in> set (save_lines (read_save m)). 10 \<notin> set x"
    using f pb plain_no_break by (auto simp: lines)
  show "canonicalSave m = Inr (encode (join_lines (save_lines (read_save m))))"
    using f b small_encodes [OF small_join [OF sm]] by (auto simp: canonicalSave_def of_utf8_def wstr_nullish lines)
  show "p_base (read_save m) \<noteq> Some []" using b by (auto simp: read_save_def wstr_nullish)
qed

lemma or_blank_inj: "b \<noteq> Some [] \<Longrightarrow> c \<noteq> Some [] \<Longrightarrow> or_blank b = or_blank c \<longleftrightarrow> b = c"
  by (cases b; cases c) auto

lemma flag_text_inj: "(if b then units ''1'' else []) = (if c then units ''1'' else []) \<longleftrightarrow> b = c"
  by (simp add: units_def)

lemma save_lines_inj:
  assumes "p_base p \<noteq> Some []" "p_base q \<noteq> Some []"
  shows "save_lines p = save_lines q \<longleftrightarrow> p = q"
  using or_blank_inj [OF assms] flag_text_inj [of "p_keyframe p" "p_keyframe q"]
  by (auto simp: save_lines_def intro: save_payload.equality simp del: flag_text_inj split del: if_split)

text \<open>The message a client sends for a payload.\<close>

definition wire_save :: "save_payload \<Rightarrow> ustr \<Rightarrow> save_msg" where
  "wire_save p sig = \<lparr>m_tag = WStr (p_key p), m_base = (case p_base p of None \<Rightarrow> WNull | Some b \<Rightarrow> WStr b),
     m_keyframe = (if p_keyframe p then WBool True else WAbsent), m_nonce = WStr (p_nonce p),
     m_cipher = WStr (p_cipher p), m_sig = WStr sig\<rparr>"

lemma read_wire [simp]: "read_save (wire_save p sig) = p"
  by (cases p) (auto simp: read_save_def wire_save_def split: option.splits)

section \<open>Sizes\<close>

lemma bit_unat: "bit (unat (w :: 32 word)) i \<longleftrightarrow> bit w i"
  by (auto simp: bit_unsigned_iff dest: bit_imp_le_length)

lemma bit_le: "bit (a :: nat) k \<Longrightarrow> 2 ^ k \<le> a"
  by (metis bit_iff_odd div_less even_zero not_le)

lemma clz32_bounds:
  assumes "w \<noteq> 0"
  shows "clz32 w < 32" "2 ^ (31 - clz32 w) \<le> unat w" "unat w < 2 ^ (32 - clz32 w)"
proof -
  let ?P = "\<lambda>i. \<not> bit w i" and ?xs = "rev [0..<32]"
  have at: "?xs ! j = 31 - j" if "j < 32" for j using that by (simp add: rev_nth)
  obtain i where i: "bit w i" using assms by (metis bit_eqI bit_0_eq bot_apply bot_bool_def)
  then have "i < 32" using bit_imp_le_length by fastforce
  with i have "\<not> list_all ?P ?xs" by (auto simp: list_all_iff)
  then have less: "clz32 w < length ?xs" unfolding clz32_def
    by (metis length_takeWhile_le le_neq_implies_less list_all_iff takeWhile_eq_all_conv takeWhile_eq_take take_all le_refl)
  then show n: "clz32 w < 32" by simp
  have "\<not> ?P (?xs ! clz32 w)" using less unfolding clz32_def by (rule nth_length_takeWhile)
  with at [OF n] show "2 ^ (31 - clz32 w) \<le> unat w" by (simp add: bit_le bit_unat)
  have unset: "\<not> bit w i" if "32 - clz32 w \<le> i" for i
  proof (cases "i < 32")
    case True
    have "31 - i < clz32 w" using that True n by linarith
    then have "?P (?xs ! (31 - i))" unfolding clz32_def by (metis nth_mem set_takeWhileD takeWhile_nth)
    then show ?thesis using at [of "31 - i"] True by simp
  next
    case False
    then show ?thesis using bit_imp_le_length by fastforce
  qed
  have "take_bit (32 - clz32 w) (unat w) = unat w"
  proof (rule bit_eqI)
    fix i show "bit (take_bit (32 - clz32 w) (unat w)) i = bit (unat w) i"
      by (cases "i < 32 - clz32 w") (simp_all add: bit_take_bit_iff bit_unat unset)
  qed
  then show "unat w < 2 ^ (32 - clz32 w)" by (simp only: take_bit_nat_eq_self_iff)
qed

lemma nextPow2_bounds:
  assumes "n \<le> 2 ^ 30"
  shows "n \<le> nextPow2AtLeast n 64" and "\<exists>k. nextPow2AtLeast n 64 = 2 ^ k \<and> 6 \<le> k \<and> k \<le> 30"
    and "64 < n \<Longrightarrow> nextPow2AtLeast n 64 < 2 * n"
proof -
  let ?w = "word_of_nat (n - 1) :: 32 word"
  have "n \<le> nextPow2AtLeast n 64 \<and> (\<exists>k. nextPow2AtLeast n 64 = 2 ^ k \<and> 6 \<le> k \<and> k \<le> 30)
      \<and> nextPow2AtLeast n 64 < 2 * n" if big: "64 < n"
  proof -
    have u: "unat ?w = n - 1" using assms by (simp add: unat_of_nat)
    have nz: "?w \<noteq> 0"
    proof
      assume "?w = 0"
      then have "unat ?w = 0" by (simp only: unsigned_0)
      with u big show False by linarith
    qed
    define c where "c = clz32 ?w"
    have b: "c < 32" "2 ^ (31 - c) \<le> n - 1" "n - 1 < 2 ^ (32 - c)"
      using clz32_bounds [OF nz] unfolding u c_def by simp_all
    have e: "nextPow2AtLeast n 64 = 2 ^ (32 - c)" using big by (simp add: nextPow2AtLeast_def c_def)
    have "32 - c = Suc (31 - c)" using b(1) by linarith
    then have d: "(2 :: nat) ^ (32 - c) = 2 * 2 ^ (31 - c)" by (simp only: power_Suc)
    have "(2 :: nat) ^ (31 - c) < 2 ^ 30" using b(2) big assms by linarith
    then have "31 - c < 30" by (simp only: power_strict_increasing_iff one_less_numeral_iff semiring_norm(76))
    moreover have "(2 :: nat) ^ 6 \<le> n - 1" using big by simp
    then have "(2 :: nat) ^ 6 < 2 ^ (32 - c)" using b(3) by linarith
    then have "6 < 32 - c" by (simp only: power_strict_increasing_iff one_less_numeral_iff semiring_norm(76))
    ultimately have "6 \<le> 32 - c" "32 - c \<le> 30" by linarith+
    moreover have "n \<le> 2 ^ (32 - c)" using b(3) big by linarith
    moreover have "2 ^ (32 - c) < 2 * n" unfolding d using b(2) big by linarith
    ultimately show ?thesis unfolding e by blast
  qed
  moreover have "nextPow2AtLeast n 64 = 2 ^ 6" if "\<not> 64 < n" using that by (simp add: nextPow2AtLeast_def)
  ultimately show "n \<le> nextPow2AtLeast n 64" "\<exists>k. nextPow2AtLeast n 64 = 2 ^ k \<and> 6 \<le> k \<and> k \<le> 30"
      "64 < n \<Longrightarrow> nextPow2AtLeast n 64 < 2 * n"
    by (cases "64 < n"; fastforce intro: exI [of _ 6] simp: nextPow2AtLeast_def)+
qed

lemma unat_byte: "unat (word_of_nat n :: byte) = n mod 256"
  by (simp add: unat_of_nat)

lemma be32_read: "n < 2 ^ 32 \<Longrightarrow> of_be32 (be32 n @ bs) = n"
proof -
  assume n: "n < 2 ^ 32"
  define x y z where "x = n div 256" and "y = x div 256" and "z = y div 256"
  have d: "n div 2 ^ 8 = x" "n div 2 ^ 16 = y" "n div 2 ^ 24 = z"
    by (simp_all add: x_def y_def z_def div_mult2_eq [symmetric])
  have "z < 256" using n unfolding d(3) [symmetric] by (simp add: less_mult_imp_div_less)
  then have "of_be32 (be32 n @ bs) = ((z * 256 + y mod 256) * 256 + x mod 256) * 256 + n mod 256"
    by (simp add: of_be32_def be32_def d unat_byte del: power_numeral)
  also have "z * 256 + y mod 256 = y" unfolding z_def by (rule div_mult_mod_eq)
  also have "y * 256 + x mod 256 = x" unfolding y_def by (rule div_mult_mod_eq)
  also have "x * 256 + n mod 256 = n" unfolding x_def by (rule div_mult_mod_eq)
  finally show ?thesis .
qed

lemma length_be32 [simp]: "length (be32 n) = 4"
  by (simp add: be32_def)

lemma length_frame:
  assumes "length c \<le> 0x3FFFFFFC"
  shows "length (frame c) = nextPow2AtLeast (4 + length c) 64"
proof -
  have "4 + length c \<le> nextPow2AtLeast (4 + length c) 64" using assms by (intro nextPow2_bounds(1)) simp
  then show ?thesis by (simp add: frame_def PAD_FLOOR_def)
qed

lemma read_chunks_cap:
  "read_chunks None used c = Inr b \<Longrightarrow> used \<le> m \<Longrightarrow>
     read_chunks (Some m) used c = (if used + length b \<le> m then Inr b else Inl OverCap)"
proof (induction "None :: nat option" used c arbitrary: b rule: read_chunks.induct)
  case (3 used bs rest)
  then obtain b' where "read_chunks None (used + length bs) rest = Inr b'" "b = bs @ b'"
    by (auto split: sum.splits)
  with 3 show ?case by (auto split: sum.splits)
qed auto

lemma bucket_small: "nextPow2AtLeast n 64 = 2 ^ k \<Longrightarrow> \<not> 64 < n \<Longrightarrow> k = 6"
proof -
  assume "nextPow2AtLeast n 64 = 2 ^ k" "\<not> 64 < n"
  then have "(2 :: nat) ^ k = 2 ^ 6" by (simp add: nextPow2AtLeast_def)
  then show "k = 6" by (rule power_inject_exp [THEN iffD1, rotated]) simp
qed

lemma utf8_back: "encodeUtf8 (Text s) = Inr (encode s) \<Longrightarrow> decodeUtf8 (Buffer (encode s)) = Inr s"
  using decode_encoded [of s] by (simp add: encodeUtf8_def decodeUtf8_def split: if_splits)

lemma unframe_frame:
  assumes "length c \<le> 0x3FFFFFFC" "read_chunks None 0 (inflate c) = Inr (encode s)"
    "encodeUtf8 (Text s) = Inr (encode s)" "parse s = Some v"
  shows "unframeAndUngzip inflate parse (frame c) =
    (if length (encode s) \<le> MAX_DECOMPRESSED_BYTES then Inr v else Inl OverCap)"
proof -
  have len: "of_be32 (frame c) = length c" using assms(1) by (simp add: frame_def be32_read)
  have body: "take (length c) (drop 4 (frame c)) = c" by (simp add: frame_def)
  have fits: "length c + 4 \<le> length (frame c)" by (simp add: frame_def)
  have "decodeUtf8 (Buffer (encode s)) = Inr s" using utf8_back [OF assms(3)] .
  then show ?thesis using fits assms(4) read_chunks_cap [OF assms(2), of MAX_DECOMPRESSED_BYTES]
    by (simp add: unframeAndUngzip_def gunzipBytes_def len body not_le)
qed

section \<open>Domains\<close>

lemma canonical_text:
  "save_shape_ok m \<Longrightarrow> encodeUtf8 (Text (join_lines (save_lines (read_save m)))) = Inr (encode (join_lines (save_lines (read_save m))))"
  using canonical_gated(1) [of m]
  by (auto simp: canonicalSave_def of_utf8_def save_lines_def read_save_def split: option.splits if_splits sum.splits
      dest!: wstr_nullish)

lemma domains_differ: "SIGN_DOMAIN \<noteq> SUBSCRIBE_DOMAIN"
  by (simp add: SIGN_DOMAIN_def SUBSCRIBE_DOMAIN_def units_def)

lemma subscribe_differs:
  assumes "encodeUtf8 (Text (join_lines (save_lines p))) = Inr bs"
  shows "canonicalSubscribe tag from nonce \<noteq> Inr bs"
proof
  assume "canonicalSubscribe tag from nonce = Inr bs"
  then obtain t f where "encodeUtf8 (Text (join_lines [SUBSCRIBE_DOMAIN, t, f, nonce])) = Inr bs"
    by (auto simp: canonicalSubscribe_def of_utf8_def split: if_splits option.splits sum.splits)
  from encodeUtf8_inj [OF assms this] show False
    by (simp add: save_lines_def split_line domains_differ)
qed

section \<open>Properties\<close>

text \<open>C29: the bytes a save is signed over and hashed to its id say which save it is: behind the
  gates of the relay, two messages have the same bytes exactly when key, base, keyframe flag, nonce
  and ciphertext agree; they are the bytes the client signs; and never those of a subscribe.\<close>

theorem canonical_exact:
  assumes "save_shape_ok m" "save_shape_ok m'"
  shows "(canonicalSave m = canonicalSave m') = (read_save m = read_save m')
    \<and> canonicalSave m = of_utf8 (canonicalSavePayload (read_save m))
    \<and> canonicalSave m \<noteq> canonicalSubscribe tag from nonce"
proof (intro conjI)
  let ?t = "\<lambda>m. join_lines (save_lines (read_save m))"
  have c: "canonicalSave m = Inr (encode (?t m))" "canonicalSave m' = Inr (encode (?t m'))"
    using canonical_gated(1) assms by auto
  have e: "encodeUtf8 (Text (?t m)) = Inr (encode (?t m))" "encodeUtf8 (Text (?t m')) = Inr (encode (?t m'))"
    using canonical_text assms by auto
  have "canonicalSave m = canonicalSave m' \<longleftrightarrow> ?t m = ?t m'"
    unfolding c using encodeUtf8_inj e by (metis sum.inject(2))
  also have "\<dots> \<longleftrightarrow> save_lines (read_save m) = save_lines (read_save m')"
    using canonical_gated(2) assms by (intro join_lines_inj) (auto simp: save_lines_def)
  also have "\<dots> \<longleftrightarrow> read_save m = read_save m'"
    using canonical_gated(3) assms by (intro save_lines_inj) auto
  finally show "(canonicalSave m = canonicalSave m') = (read_save m = read_save m')" .
  show "canonicalSave m = of_utf8 (canonicalSavePayload (read_save m))"
    by (simp add: c e canonicalSavePayload_def of_utf8_def)
  show "canonicalSave m \<noteq> canonicalSubscribe tag from nonce"
    unfolding c by (rule not_sym [OF subscribe_differs [OF e(1)]])
qed

definition a_save :: "bool \<Rightarrow> save_msg" where
  "a_save kf = wire_save \<lparr>p_key = units ''k3y'', p_base = None, p_keyframe = kf, p_nonce = units ''n='',
     p_cipher = units ''c+/=''\<rparr> (units ''s_g'')"

theorem canonical_exact_witness:
  "save_shape_ok (a_save True) \<and> save_shape_ok (a_save False)
    \<and> canonicalSave (a_save True) \<noteq> canonicalSave (a_save False)"
proof -
  have ok: "save_shape_ok (a_save kf)" for kf
    by (simp add: a_save_def wire_save_def save_shape_ok_def validTagSigBase_def validNonce_def
        validCiphertextShape_def units_def tag_char_def cipher_char_def word_char_def in_range_def
        MAX_FIELD_LEN_def wnullish_def)
  have "read_save (a_save True) \<noteq> read_save (a_save False)" by (simp add: a_save_def)
  with canonical_exact [OF ok ok, of True False] ok show ?thesis by blast
qed

text \<open>C28: a changeset comes back from its envelope: what one peer encrypts under a key and binds
  to a base another reads back, unless its text is longer than the receiver agrees to inflate, or its
  compression too long to be framed, which the sender is told. What is encrypted is a power of two
  long, at least 64 and less than twice what is in it, so the wire shows only that bucket.\<close>

theorem envelope_roundtrip:
  fixes env :: envelope_env and key nonce aad json :: "byte list"
  defines "c \<equiv> pick_cipher (native_ok env) (native env) (noble env)"
  assumes "\<forall>pt. unseal c key nonce aad (seal c key nonce aad pt) = Some pt"
    and "\<forall>bs. from_b64 env (to_b64 env bs) = Some bs"
    and enc: "encodeUtf8 (Text (stringify v)) = Inr json" and "parse (stringify v) = Some v"
    and "read_chunks None 0 (ungz env (gz env json)) = Inr json"
  shows "if length (gz env json) > 0x3FFFFFFC then encryptJson env stringify nonce key v aad = Inl PayloadTooLarge
    else \<exists>pt n ct k. frameAndPad (gz env) stringify v = Inr pt \<and> encryptJson env stringify nonce key v aad = Inr (n, ct)
      \<and> decryptJson env parse key n ct aad = (if length json \<le> MAX_DECOMPRESSED_BYTES then Inr v else Inl OverCap)
      \<and> length pt = 2 ^ k \<and> 6 \<le> k \<and> k \<le> 30 \<and> 4 + length (gz env json) \<le> length pt
      \<and> (k = 6 \<or> length pt < 2 * (4 + length (gz env json)))"
proof (cases "length (gz env json) > 0x3FFFFFFC")
  case True
  then show ?thesis using enc by (simp add: encryptJson_def frameAndPad_def Let_def)
next
  case False
  let ?z = "gz env json"
  have small: "length ?z \<le> 0x3FFFFFFC" using False by simp
  have json: "json = encode (stringify v)" using enc by (simp add: encodeUtf8_def split: if_splits)
  have framed: "frameAndPad (gz env) stringify v = Inr (frame ?z)"
    using enc False by (simp add: frameAndPad_def Let_def)
  have "unframeAndUngzip (ungz env) parse (frame ?z)
      = (if length json \<le> MAX_DECOMPRESSED_BYTES then Inr v else Inl OverCap)"
    unfolding json using assms(4-6) small unfolding json by (intro unframe_frame) auto
  then have "\<exists>n ct. encryptJson env stringify nonce key v aad = Inr (n, ct)
      \<and> decryptJson env parse key n ct aad = (if length json \<le> MAX_DECOMPRESSED_BYTES then Inr v else Inl OverCap)"
    using assms(2,3) by (simp add: encryptJson_def decryptJson_def framed c_def)
  moreover have "4 + length ?z \<le> 2 ^ 30" using small by simp
  note nextPow2_bounds [OF this]
  then have "\<exists>k. length (frame ?z) = 2 ^ k \<and> 6 \<le> k \<and> k \<le> 30 \<and> 4 + length ?z \<le> length (frame ?z)
      \<and> (k = 6 \<or> length (frame ?z) < 2 * (4 + length ?z))"
    unfolding length_frame [OF small] using bucket_small [of "4 + length ?z"] by metis
  ultimately show ?thesis using framed False by auto
qed

definition plain_env :: envelope_env where
  "plain_env = \<lparr>native_ok = False,
     native = \<lparr>seal = (\<lambda>k n a pt. pt), unseal = (\<lambda>k n a ct. Some ct)\<rparr>,
     noble = \<lparr>seal = (\<lambda>k n a pt. a @ pt), unseal = (\<lambda>k n a ct. if take (length a) ct = a then Some (drop (length a) ct) else None)\<rparr>,
     to_b64 = map ucast, from_b64 = (\<lambda>s. Some (map ucast s)), gz = (\<lambda>b. b), ungz = (\<lambda>b. Chunk b Done)\<rparr>"

definition bool_text :: "bool \<Rightarrow> ustr" where
  "bool_text b = units (if b then ''true'' else ''false'')"

definition text_bool :: "ustr \<Rightarrow> bool option" where
  "text_bool s = (if s = units ''true'' then Some True else if s = units ''false'' then Some False else None)"

theorem envelope_roundtrip_witness:
  "\<exists>n ct. encryptJson plain_env bool_text [1] [2] True [3] = Inr (n, ct)
    \<and> decryptJson plain_env text_bool [2] n ct [3] = Inr True"
proof -
  have e: "encodeUtf8 (Text (bool_text True)) = Inr [116, 114, 117, 101]"
    by (simp add: bool_text_def units_def encodeUtf8_def encode_def lead_def trail_def utf8_bytes_def)
  have s: "length (gz plain_env [116, 114, 117, 101]) = 4" by (simp add: plain_env_def)
  have b: "map ucast (map ucast bs :: ustr) = bs" for bs :: "byte list"
    by (simp add: comp_def ucast_up_ucast_id is_up)
  have cipher: "\<forall>pt. unseal (pick_cipher (native_ok plain_env) (native plain_env) (noble plain_env)) [2] [1] [3]
      (seal (pick_cipher (native_ok plain_env) (native plain_env) (noble plain_env)) [2] [1] [3] pt) = Some pt"
    by (simp add: plain_env_def pick_cipher_def)
  have b64: "\<forall>bs. from_b64 plain_env (to_b64 plain_env bs) = Some bs" using b by (simp add: plain_env_def del: map_map)
  have parse: "text_bool (bool_text True) = Some True" by (simp add: text_bool_def bool_text_def)
  have gzip: "read_chunks None 0 (ungz plain_env (gz plain_env [116, 114, 117, 101])) = Inr [116, 114, 117, 101]"
    by (simp add: plain_env_def)
  have "\<not> length (gz plain_env [116, 114, 117, 101]) > 0x3FFFFFFC" "length [116 :: byte, 114, 117, 101] \<le> MAX_DECOMPRESSED_BYTES"
    using s by (simp_all add: MAX_DECOMPRESSED_BYTES_def)
  with envelope_roundtrip [where env = plain_env and stringify = bool_text and parse = text_bool and v = True, OF cipher b64 e parse gzip] show ?thesis by (simp only: if_False if_True) blast
qed

end
