(* ===== verification/SyncRelay.thy ===== *)
theory SyncRelay
  imports SyncCrypto
begin

text \<open>
  The relay's chain of revisions: the table and its statements
  (\<^verbatim>\<open>src/server-e2e/db-revision-sql.ts\<close>, \<^verbatim>\<open>src/server-e2e/db.ts\<close>), the pipeline every save goes
  through (\<^verbatim>\<open>src/server-e2e/sync-handlers.ts\<close>) with its two renderings, protocol frames and HTTP
  answers, and what a client makes of an HTTP answer (\<open>postSaveRest\<close> of
  \<^verbatim>\<open>src/client/sync/triage-sync.ts\<close>). A statement is atomic, as SQLite runs it; between two of them
  other saves may commit, so each reads a table of its own.
\<close>

section \<open>The table\<close>

record rev_row =
  r_tag :: ustr
  r_seq :: nat
  r_id :: ustr
  r_base :: "ustr option"
  r_keyframe :: nat
  r_nonce :: ustr
  r_cipher :: ustr
  r_sig :: ustr

type_synonym rev_table = "rev_row list"

definition by_seq :: "rev_table \<Rightarrow> ustr \<Rightarrow> rev_row list" where
  "by_seq tbl tag = sort_key r_seq (filter (\<lambda>r. r_tag r = tag) tbl)"

definition last_row :: "rev_row list \<Rightarrow> rev_row option" where
  "last_row rs = (if rs = [] then None else Some (last rs))"

definition headFor :: "rev_table \<Rightarrow> ustr \<Rightarrow> ustr option" where
  "headFor tbl tag = map_option r_id (last_row (by_seq tbl tag))"

definition seqOfId :: "rev_table \<Rightarrow> ustr \<Rightarrow> ustr \<Rightarrow> nat option" where
  "seqOfId tbl tag i = map_option r_seq (find (\<lambda>r. r_tag r = tag \<and> r_id r = i) tbl)"

definition max_seq :: "rev_row list \<Rightarrow> nat option" where
  "max_seq rs = (if rs = [] then None else Some (Max (set (map r_seq rs))))"

definition lastKeyframeSeq :: "rev_table \<Rightarrow> ustr \<Rightarrow> nat option" where
  "lastKeyframeSeq tbl tag = max_seq (filter (\<lambda>r. r_tag r = tag \<and> r_keyframe r = 1) tbl)"

definition revisionExists :: "rev_table \<Rightarrow> ustr \<Rightarrow> ustr \<Rightarrow> bool" where
  "revisionExists tbl tag i = list_ex (\<lambda>r. r_tag r = tag \<and> r_id r = i) tbl"

text \<open>\<open>mapRevisionRow\<close>: the columns a chain carries, the flag made 0 or 1.\<close>

definition mapRevisionRow :: "rev_row \<Rightarrow> rev_row" where
  "mapRevisionRow r = r\<lparr>r_keyframe := if r_keyframe r = 1 then 1 else 0\<rparr>"

definition chainAll :: "rev_table \<Rightarrow> ustr \<Rightarrow> rev_row list" where
  "chainAll tbl tag = map mapRevisionRow (by_seq tbl tag)"

definition chainAfterSeq :: "rev_table \<Rightarrow> ustr \<Rightarrow> nat \<Rightarrow> rev_row list" where
  "chainAfterSeq tbl tag s = map mapRevisionRow (filter (\<lambda>r. r_seq r > s) (by_seq tbl tag))"

definition chainFromSeq :: "rev_table \<Rightarrow> ustr \<Rightarrow> nat \<Rightarrow> rev_row list" where
  "chainFromSeq tbl tag s = map mapRevisionRow (filter (\<lambda>r. r_seq r \<ge> s) (by_seq tbl tag))"

definition chainFrom :: "rev_table \<Rightarrow> ustr \<Rightarrow> ustr option \<Rightarrow> rev_row list" where
  "chainFrom tbl tag fromId =
     (case Option.bind fromId (seqOfId tbl tag) of
        Some s \<Rightarrow> chainAfterSeq tbl tag s
      | None \<Rightarrow> (case lastKeyframeSeq tbl tag of
          Some s \<Rightarrow> chainFromSeq tbl tag s
        | None \<Rightarrow> chainAll tbl tag))"

section \<open>Committing\<close>

text \<open>What the constraints of the table refuse: a second row of a tag with its number or its id.\<close>

definition violates :: "rev_table \<Rightarrow> rev_row \<Rightarrow> bool" where
  "violates tbl r = list_ex (\<lambda>q. r_tag q = r_tag r \<and> (r_seq q = r_seq r \<or> r_id q = r_id r)) tbl"

datatype insert_result = Violation | NoRow | Inserted rev_table

record rev_insert =
  i_tag :: ustr
  i_id :: ustr
  i_base :: "ustr option"
  i_keyframe :: bool
  i_nonce :: ustr
  i_cipher :: ustr
  i_sig :: ustr

definition new_row :: "rev_table \<Rightarrow> rev_insert \<Rightarrow> rev_row" where
  "new_row tbl i = \<lparr>r_tag = i_tag i,
     r_seq = (case max_seq (filter (\<lambda>r. r_tag r = i_tag i) tbl) of None \<Rightarrow> 0 | Some s \<Rightarrow> s) + 1,
     r_id = i_id i, r_base = i_base i, r_keyframe = (if i_keyframe i then 1 else 0),
     r_nonce = i_nonce i, r_cipher = i_cipher i, r_sig = i_sig i\<rparr>"

definition gatedInsert :: "rev_table \<Rightarrow> rev_insert \<Rightarrow> insert_result" where
  "gatedInsert tbl i =
     (if revisionExists tbl (i_tag i) (i_id i) \<or> headFor tbl (i_tag i) \<noteq> i_base i then NoRow
      else if violates tbl (new_row tbl i) then Violation
      else Inserted (tbl @ [new_row tbl i]))"

datatype commit_result = Committed | Duplicate | StaleBase "ustr option"

definition commitRevisionSqlite :: "rev_table \<Rightarrow> rev_insert \<Rightarrow> rev_table \<times> commit_result" where
  "commitRevisionSqlite tbl i = (case gatedInsert tbl i of
       Inserted tbl' \<Rightarrow> (tbl', Committed)
     | NoRow \<Rightarrow> (tbl, if revisionExists tbl (i_tag i) (i_id i) then Duplicate
                      else StaleBase (headFor tbl (i_tag i)))
     | Violation \<Rightarrow> (tbl, if revisionExists tbl (i_tag i) (i_id i) then Committed
                          else StaleBase (headFor tbl (i_tag i))))"

section \<open>Frames\<close>

text \<open>One entry of a chain on the wire, and the frames a client may receive. Every field is
  what a client parsed; the relay writes texts, booleans and nulls.\<close>

record wire_rev =
  w_base :: wval
  w_id :: wval
  w_keyframe :: wval
  w_nonce :: wval
  w_cipher :: wval
  w_sig :: wval

text \<open>The entries of an array, \<open>None\<close> for one that is no object; no array at all is \<open>None\<close>.\<close>

type_synonym wire_chain = "wire_rev option list option"

datatype frame =
  SaveAck wval wval wval
| StateFrame wval wire_chain
| SaveError wval wval wval
| Subscribed wval bool
| Unauthorized wval wval wval wval
| Authenticated
| OtherFrame

definition wopt :: "ustr option \<Rightarrow> wval" where
  "wopt b = (case b of None \<Rightarrow> WNull | Some s \<Rightarrow> WStr s)"

definition row_wire :: "rev_row \<Rightarrow> wire_rev" where
  "row_wire r = \<lparr>w_base = wopt (r_base r), w_id = WStr (r_id r), w_keyframe = WBool (r_keyframe r = 1),
     w_nonce = WStr (r_nonce r), w_cipher = WStr (r_cipher r), w_sig = WStr (r_sig r)\<rparr>"

definition chainForWire :: "rev_row list \<Rightarrow> wire_chain" where
  "chainForWire rs = Some (map (\<lambda>r. Some (row_wire r)) rs)"

definition SAVE_ERROR_REASONS :: "string list" where
  "SAVE_ERROR_REASONS = [''too-large'', ''busy'', ''stale-base'']"

definition RECOVERABLE_SAVE_ERROR_REASONS :: "string list" where
  "RECOVERABLE_SAVE_ERROR_REASONS = [''busy'']"

text \<open>\<open>sendSaveError\<close> throws on a reason outside the taxonomy, sending nothing.\<close>

definition sendSaveError :: "ustr \<Rightarrow> ustr option \<Rightarrow> string \<Rightarrow> frame list option" where
  "sendSaveError tag base reason =
     (if reason \<in> set SAVE_ERROR_REASONS then Some [SaveError (WStr tag) (wopt base) (WStr (units reason))] else None)"

section \<open>The pipeline of a save\<close>

datatype save_outcome =
  Rejected
| Acked ustr "ustr option"
| Replayed ustr "ustr option"
| TooLarge "ustr option"
| NeedsAuth "ustr option"
| Stale "ustr option" wire_chain

text \<open>The platform: the digest of the canonical bytes in base64url, and the verification.\<close>

record relay_env =
  digest :: "byte list \<Rightarrow> ustr"
  b64url :: "ustr \<Rightarrow> byte list"
  ed25519 :: "byte list \<Rightarrow> byte list \<Rightarrow> byte list \<Rightarrow> bool option"

definition insert_of :: "save_msg \<Rightarrow> ustr \<Rightarrow> rev_insert" where
  "insert_of m i = \<lparr>i_tag = or_blank (wstr (m_tag m)), i_id = i, i_base = wstr (m_base m),
     i_keyframe = (m_keyframe m = WBool True), i_nonce = or_blank (wstr (m_nonce m)),
     i_cipher = or_blank (wstr (m_cipher m)), i_sig = or_blank (wstr (m_sig m))\<rparr>"

text \<open>The tables are those the precheck, the commit and the catch-up find; \<open>exists\<close> is the answer
  about the workspace, asked only where the sender must authenticate. The second component
  is the table after the commit, the third the revision broadcast.\<close>

definition commitSave ::
    "relay_env \<Rightarrow> rev_table \<Rightarrow> bool \<Rightarrow> rev_table \<Rightarrow> (rev_table \<Rightarrow> rev_table) \<Rightarrow> save_msg \<Rightarrow> bool
      \<Rightarrow> save_outcome \<times> rev_table \<times> wire_rev option" where
  "commitSave env pre known tbl later m authRequired =
     (if \<not> save_shape_ok m then (Rejected, tbl, None)
      else case canonicalSave m of Inl _ \<Rightarrow> (Rejected, tbl, None)
      | Inr bytes \<Rightarrow>
        (let i = digest env bytes; tag = or_blank (wstr (m_tag m)); base = wstr (m_base m) in
         if revisionExists pre tag i then (Replayed i base, tbl, None)
         else if \<not> verifyEd25519 (b64url env) (ed25519 env) tag bytes (or_blank (wstr (m_sig m)))
           then (Rejected, tbl, None)
         else if length (or_blank (wstr (m_cipher m))) > MAX_CIPHERTEXT_LEN then (TooLarge base, tbl, None)
         else if authRequired \<and> \<not> known then (NeedsAuth base, tbl, None)
         else (case commitRevisionSqlite tbl (insert_of m i) of
             (tbl', Duplicate) \<Rightarrow> (Replayed i base, tbl', None)
           | (tbl', StaleBase h) \<Rightarrow> (Stale base (chainForWire (chainFrom (later tbl') tag base)), tbl', None)
           | (tbl', Committed) \<Rightarrow> (Acked i base, tbl',
               Some \<lparr>w_base = wopt base, w_id = WStr i, w_keyframe = WBool (m_keyframe m = WBool True),
                 w_nonce = m_nonce m, w_cipher = m_cipher m, w_sig = m_sig m\<rparr>))))"

text \<open>\<open>handleSave\<close>: the frames sent back to the socket.\<close>

definition save_frames :: "ustr \<Rightarrow> save_outcome \<Rightarrow> frame list" where
  "save_frames tag out = (case out of
       Rejected \<Rightarrow> []
     | NeedsAuth base \<Rightarrow> [Unauthorized (WStr (units ''gated'')) (WStr tag) (wopt base) WAbsent]
     | TooLarge base \<Rightarrow> the (sendSaveError tag base ''too-large'')
     | Stale base revs \<Rightarrow> StateFrame (WStr tag) revs # the (sendSaveError tag base ''stale-base'')
     | Acked i base \<Rightarrow> [SaveAck (WStr tag) (wopt base) (WStr i)]
     | Replayed i base \<Rightarrow> [SaveAck (WStr tag) (wopt base) (WStr i)])"

text \<open>\<open>handleSaveRest\<close>: status and body; a body that is no object is refused unread.\<close>

datatype rest_body = RestReason string | RestId ustr | RestRevisions wire_chain | RestUnreadable

definition handleSaveRest :: "save_outcome option \<Rightarrow> nat \<times> rest_body" where
  "handleSaveRest r = (case r of
       None \<Rightarrow> (400, RestReason ''bad-request'')
     | Some (Acked i _) \<Rightarrow> (200, RestId i)
     | Some (Replayed i _) \<Rightarrow> (200, RestId i)
     | Some (Stale _ revs) \<Rightarrow> (409, RestRevisions revs)
     | Some (TooLarge _) \<Rightarrow> (413, RestReason ''too-large'')
     | Some (NeedsAuth _) \<Rightarrow> (401, RestReason ''unauthorized'')
     | Some Rejected \<Rightarrow> (400, RestReason ''bad-request''))"

section \<open>The client's reading of an HTTP answer\<close>

text \<open>\<open>postSaveRest\<close> from the response on: whether to send the frame on the stream instead, and the
  frames fed to the message path. No response is \<open>None\<close>; \<open>current\<close> says whether the save
  is still the one in flight, when the answer and when its body arrive.\<close>

definition ok_status :: "nat \<Rightarrow> bool" where
  "ok_status n = (200 \<le> n \<and> n \<le> 299)"

definition postSaveRest :: "wval \<Rightarrow> wval \<Rightarrow> (nat \<times> rest_body) option \<Rightarrow> bool \<Rightarrow> bool \<Rightarrow> bool \<times> frame list" where
  "postSaveRest tag base response current current' = (case response of
       None \<Rightarrow> (True, [])
     | Some (status, body) \<Rightarrow>
        if \<not> current then (False, [])
        else if status = 401 then (True, [])
        else if ok_status status then
          (case body of RestUnreadable \<Rightarrow> (True, [])
           | _ \<Rightarrow> if \<not> current' then (False, [])
                else case body of RestId i \<Rightarrow> (False, [SaveAck tag base (WStr i)]) | _ \<Rightarrow> (True, []))
        else if status = 409 then
          (case body of RestUnreadable \<Rightarrow> (True, [])
           | _ \<Rightarrow> if \<not> current' then (False, [])
                else (False, [StateFrame tag (case body of RestRevisions (Some revs) \<Rightarrow> Some revs | _ \<Rightarrow> Some []),
                   SaveError tag base (WStr (units ''stale-base''))]))
        else if status = 413 then (False, [SaveError tag base (WStr (units ''too-large''))])
        else (True, []))"

section \<open>The chain of a tag\<close>

definition tag_rows :: "rev_table \<Rightarrow> ustr \<Rightarrow> rev_row list" where
  "tag_rows tbl tag = filter (\<lambda>r. r_tag r = tag) tbl"

fun linked :: "ustr option \<Rightarrow> rev_row list \<Rightarrow> bool" where
  "linked b [] = True"
| "linked b (r # rs) = (r_base r = b \<and> linked (Some (r_id r)) rs)"

definition end_id :: "ustr option \<Rightarrow> rev_row list \<Rightarrow> ustr option" where
  "end_id b rs = (if rs = [] then b else Some (r_id (last rs)))"

lemma linked_append: "linked b (rs @ qs) \<longleftrightarrow> linked b rs \<and> linked (end_id b rs) qs"
  by (induction rs arbitrary: b) (auto simp: end_id_def)

definition table_ok :: "rev_table \<Rightarrow> bool" where
  "table_ok tbl = ((\<forall>tag. map r_seq (tag_rows tbl tag) = [1..<Suc (length (tag_rows tbl tag))]
      \<and> linked None (tag_rows tbl tag) \<and> distinct (map r_id (tag_rows tbl tag)))
    \<and> (\<forall>r \<in> set tbl. r_keyframe r = 0 \<or> r_keyframe r = 1))"

lemma table_okD:
  assumes "table_ok tbl"
  shows "map r_seq (tag_rows tbl tag) = [1..<Suc (length (tag_rows tbl tag))]"
    and "linked None (tag_rows tbl tag)" and "distinct (map r_id (tag_rows tbl tag))"
    and "r \<in> set tbl \<Longrightarrow> r_keyframe r = 0 \<or> r_keyframe r = 1"
  using assms unfolding table_ok_def by blast+

lemma table_ok_Nil [simp]: "table_ok []"
  by (simp add: table_ok_def tag_rows_def)

lemma by_seq_rows:
  assumes "table_ok tbl"
  shows "by_seq tbl tag = tag_rows tbl tag"
proof -
  have "sorted (map r_seq (tag_rows tbl tag))" unfolding table_okD(1) [OF assms] by (rule sorted_upt)
  then show ?thesis unfolding by_seq_def tag_rows_def by (rule sort_key_id_if_sorted)
qed

lemma headFor_rows: "table_ok tbl \<Longrightarrow> headFor tbl tag = end_id None (tag_rows tbl tag)"
  by (simp add: headFor_def by_seq_rows last_row_def end_id_def)

lemma seq_at:
  assumes "table_ok tbl" "k < length (tag_rows tbl tag)"
  shows "r_seq (tag_rows tbl tag ! k) = Suc k"
proof -
  have "map r_seq (tag_rows tbl tag) ! k = [1..<Suc (length (tag_rows tbl tag))] ! k"
    unfolding table_okD(1) [OF assms(1)] ..
  with assms(2) show ?thesis by (simp del: upt_Suc)
qed

lemma max_seq_rows: "table_ok tbl \<Longrightarrow>
    (case max_seq (tag_rows tbl tag) of None \<Rightarrow> 0 | Some s \<Rightarrow> s) = length (tag_rows tbl tag)"
proof -
  assume ok: "table_ok tbl"
  let ?rs = "tag_rows tbl tag"
  show ?thesis
  proof (cases "?rs = []")
    case False
    have "set (map r_seq ?rs) = {1..length ?rs}" unfolding table_okD(1) [OF ok] by auto
    moreover have "Max {1..length ?rs} = length ?rs" using False by (intro Max_eqI) (auto simp: Suc_le_eq)
    ultimately show ?thesis using False by (simp add: max_seq_def)
  qed (simp add: max_seq_def)
qed

lemma new_row_fields [simp]:
  "r_tag (new_row tbl i) = i_tag i" "r_id (new_row tbl i) = i_id i" "r_base (new_row tbl i) = i_base i"
  "r_keyframe (new_row tbl i) = (if i_keyframe i then 1 else 0)" "r_nonce (new_row tbl i) = i_nonce i"
  "r_cipher (new_row tbl i) = i_cipher i" "r_sig (new_row tbl i) = i_sig i"
  by (simp_all add: new_row_def)

lemma new_row_seq: "table_ok tbl \<Longrightarrow> r_seq (new_row tbl i) = Suc (length (tag_rows tbl (i_tag i)))"
  using max_seq_rows [of tbl "i_tag i"] by (simp add: new_row_def tag_rows_def)

lemma revisionExists_rows: "revisionExists tbl tag i \<longleftrightarrow> i \<in> r_id ` set (tag_rows tbl tag)"
  by (auto simp: revisionExists_def list_ex_iff tag_rows_def)

lemma seq_bound: "table_ok tbl \<Longrightarrow> r \<in> set (tag_rows tbl tag) \<Longrightarrow> r_seq r \<le> length (tag_rows tbl tag)"
  by (metis in_set_conv_nth seq_at Suc_leI)

lemma no_violation:
  assumes "table_ok tbl" "\<not> revisionExists tbl (i_tag i) (i_id i)"
  shows "\<not> violates tbl (new_row tbl i)"
proof
  assume "violates tbl (new_row tbl i)"
  then obtain q where "q \<in> set (tag_rows tbl (i_tag i))" and
      q: "r_seq q = Suc (length (tag_rows tbl (i_tag i))) \<or> r_id q = i_id i"
    by (auto simp: violates_def list_ex_iff tag_rows_def new_row_seq [OF assms(1)])
  moreover from this(1) have "r_seq q \<le> length (tag_rows tbl (i_tag i))" by (rule seq_bound [OF assms(1)])
  ultimately have "q \<in> set (tag_rows tbl (i_tag i))" "r_id q = i_id i" by simp_all
  then have "i_id i \<in> r_id ` set (tag_rows tbl (i_tag i))" by (rule rev_image_eqI [OF _ sym])
  with assms(2) show False by (simp add: revisionExists_rows)
qed

lemma commit_cases:
  assumes "table_ok tbl"
  shows "commitRevisionSqlite tbl i =
    (if revisionExists tbl (i_tag i) (i_id i) then (tbl, Duplicate)
     else if headFor tbl (i_tag i) \<noteq> i_base i then (tbl, StaleBase (headFor tbl (i_tag i)))
     else (tbl @ [new_row tbl i], Committed))"
  using no_violation [OF assms] by (simp add: commitRevisionSqlite_def gatedInsert_def)

lemma tag_rows_snoc: "tag_rows (tbl @ [r]) tag = tag_rows tbl tag @ (if r_tag r = tag then [r] else [])"
  by (simp add: tag_rows_def)

lemma table_ok_insert:
  assumes ok: "table_ok tbl" and fresh: "\<not> revisionExists tbl (i_tag i) (i_id i)" and head: "headFor tbl (i_tag i) = i_base i"
  shows "table_ok (tbl @ [new_row tbl i])"
  unfolding table_ok_def
proof (intro conjI allI ballI)
  fix tag
  let ?t = "tbl @ [new_row tbl i]"
  show "map r_seq (tag_rows ?t tag) = [1..<Suc (length (tag_rows ?t tag))]"
    using table_okD(1) [OF ok, of tag] new_row_seq [OF ok] by (simp add: tag_rows_snoc)
  show "linked None (tag_rows ?t tag)"
    using table_okD(2) [OF ok, of tag] head by (auto simp: tag_rows_snoc linked_append headFor_rows [OF ok])
  show "distinct (map r_id (tag_rows ?t tag))"
    using table_okD(3) [OF ok, of tag] fresh by (auto simp: tag_rows_snoc revisionExists_rows)
qed (use table_okD(4) [OF ok] in auto)

lemma commit_ok: "table_ok tbl \<Longrightarrow> table_ok (fst (commitRevisionSqlite tbl i))"
  by (auto simp: commit_cases table_ok_insert)

section \<open>Serving a chain\<close>

lemma mapRevisionRow_id: "table_ok tbl \<Longrightarrow> r \<in> set tbl \<Longrightarrow> mapRevisionRow r = r"
  using table_okD(4) [of tbl r] by (auto simp: mapRevisionRow_def)

lemma map_rows_id: "table_ok tbl \<Longrightarrow> set rs \<subseteq> set tbl \<Longrightarrow> map mapRevisionRow rs = rs"
  by (rule map_idI) (auto simp: mapRevisionRow_id)

lemma filter_suffix:
  assumes "map f rs = [a..<a + length rs]"
  shows "filter (\<lambda>r. f r > a + k) rs = drop (Suc k) rs" and "filter (\<lambda>r. f r \<ge> a + k) rs = drop k rs"
proof -
  have at: "f (rs ! j) = a + j" if "j < length rs" for j
    using assms that by (metis add.commute length_map nth_map nth_upt diff_add_inverse length_upt less_diff_conv)
  have cut: "filter P rs = drop m rs" if "\<And>j. j < length rs \<Longrightarrow> P (rs ! j) \<longleftrightarrow> m \<le> j" for P m
  proof -
    have "\<forall>x \<in> set (take m rs). \<not> P x" "\<forall>x \<in> set (drop m rs). P x"
      using that by (auto simp: in_set_conv_nth)
    then have "filter P (take m rs @ drop m rs) = drop m rs"
      unfolding filter_append by (simp add: filter_empty_conv [THEN iffD2])
    then show ?thesis by simp
  qed
  show "filter (\<lambda>r. f r > a + k) rs = drop (Suc k) rs" by (rule cut) (auto simp: at)
  show "filter (\<lambda>r. f r \<ge> a + k) rs = drop k rs" by (rule cut) (auto simp: at)
qed

lemma tag_rows_sub: "set (tag_rows tbl tag) \<subseteq> set tbl"
  by (auto simp: tag_rows_def)

lemma chain_suffix:
  assumes "table_ok tbl"
  shows "chainAfterSeq tbl tag (Suc k) = drop (Suc k) (tag_rows tbl tag)"
    and "chainFromSeq tbl tag (Suc k) = drop k (tag_rows tbl tag)" and "chainAll tbl tag = tag_rows tbl tag"
proof -
  let ?rs = "tag_rows tbl tag"
  have seqs: "map r_seq ?rs = [1..<1 + length ?rs]" using table_okD(1) [OF assms] by simp
  have sub: "set (drop m ?rs) \<subseteq> set tbl" for m by (rule subset_trans [OF set_drop_subset tag_rows_sub])
  show "chainAfterSeq tbl tag (Suc k) = drop (Suc k) ?rs" "chainFromSeq tbl tag (Suc k) = drop k ?rs"
    using filter_suffix [OF seqs, of k] map_rows_id [OF assms sub] 
    unfolding chainAfterSeq_def chainFromSeq_def by_seq_rows [OF assms] by (simp_all only: plus_1_eq_Suc)
  show "chainAll tbl tag = ?rs"
    using map_rows_id [OF assms tag_rows_sub] by (simp add: chainAll_def by_seq_rows [OF assms])
qed

section \<open>The catch-up, by the chain alone\<close>

primrec after_id :: "ustr \<Rightarrow> rev_row list \<Rightarrow> rev_row list option" where
  "after_id i [] = None"
| "after_id i (r # rs) = (if r_id r = i then Some rs else after_id i rs)"

primrec since_keyframe :: "rev_row list \<Rightarrow> rev_row list option" where
  "since_keyframe [] = None"
| "since_keyframe (r # rs) = (case since_keyframe rs of Some s \<Rightarrow> Some s
     | None \<Rightarrow> if r_keyframe r = 1 then Some (r # rs) else None)"

definition catch_up :: "ustr option \<Rightarrow> rev_row list \<Rightarrow> rev_row list" where
  "catch_up from rs = (case Option.bind from (\<lambda>i. after_id i rs) of Some s \<Rightarrow> s
     | None \<Rightarrow> (case since_keyframe rs of Some s \<Rightarrow> s | None \<Rightarrow> rs))"

lemma after_id_None: "after_id i rs = None \<longleftrightarrow> i \<notin> r_id ` set rs"
  by (induction rs) auto

lemma after_id_at: "distinct (map r_id rs) \<Longrightarrow> k < length rs \<Longrightarrow> after_id (r_id (rs ! k)) rs = Some (drop (Suc k) rs)"
proof (induction rs arbitrary: k)
  case (Cons r rs)
  then show ?case by (cases k) (auto dest: nth_mem)
qed simp

lemma since_keyframe_None: "since_keyframe rs = None \<longleftrightarrow> (\<forall>r \<in> set rs. r_keyframe r \<noteq> 1)"
  by (induction rs) (auto split: option.splits)

lemma since_keyframe_at:
  "k < length rs \<Longrightarrow> r_keyframe (rs ! k) = 1 \<Longrightarrow> \<forall>j. k < j \<longrightarrow> j < length rs \<longrightarrow> r_keyframe (rs ! j) \<noteq> 1 \<Longrightarrow>
     since_keyframe rs = Some (drop k rs)"
proof (induction rs arbitrary: k)
  case (Cons r rs)
  show ?case
  proof (cases k)
    case 0
    have "\<forall>x \<in> set rs. r_keyframe x \<noteq> 1" using Cons.prems(3) unfolding 0 by (force simp: in_set_conv_nth)
    then have "since_keyframe rs = None" by (simp add: since_keyframe_None)
    then show ?thesis using Cons.prems 0 by simp
  next
    case (Suc m)
    have "since_keyframe rs = Some (drop m rs)"
      using Cons.prems Suc by (intro Cons.IH) (auto dest: spec [of _ "Suc _"])
    then show ?thesis using Suc by simp
  qed
qed simp

lemma find_rev_row:
  assumes "table_ok tbl"
  shows "seqOfId tbl tag i = (case find (\<lambda>r. r_id r = i) (tag_rows tbl tag) of None \<Rightarrow> None | Some r \<Rightarrow> Some (r_seq r))"
  unfolding seqOfId_def tag_rows_def by (induction tbl) auto

lemma seqOfId_at:
  assumes "table_ok tbl" "k < length (tag_rows tbl tag)"
  shows "seqOfId tbl tag (r_id (tag_rows tbl tag ! k)) = Some (Suc k)"
proof -
  let ?rs = "tag_rows tbl tag"
  have "find (\<lambda>r. r_id r = r_id (?rs ! k)) ?rs = Some (?rs ! k)"
    using assms(2) table_okD(3) [OF assms(1), of tag]
    by (auto simp: find_Some_iff distinct_conv_nth intro!: exI [of _ k])
  then show ?thesis using seq_at [OF assms] by (simp add: find_rev_row [OF assms(1)])
qed

lemma lastKeyframe_at:
  assumes "table_ok tbl" "s = lastKeyframeSeq tbl tag" "s \<noteq> None"
  obtains k where "s = Some (Suc k)" "since_keyframe (tag_rows tbl tag) = Some (drop k (tag_rows tbl tag))"
proof -
  let ?rs = "tag_rows tbl tag" and ?ks = "filter (\<lambda>r. r_keyframe r = 1) (tag_rows tbl tag)"
  have ks: "filter (\<lambda>r. r_tag r = tag \<and> r_keyframe r = 1) tbl = ?ks"
    by (simp add: tag_rows_def conj_commute)
  then have s: "s = Some (Max (set (map r_seq ?ks)))" "?ks \<noteq> []"
    using assms(2,3) by (auto simp: lastKeyframeSeq_def max_seq_def split: if_splits)
  let ?S = "set (map r_seq ?ks)"
  have "finite ?S" by (rule finite_set)
  moreover have "?S \<noteq> {}" unfolding set_empty using s(2) by (simp only: map_is_Nil_conv simp_thms)
  ultimately have "Max ?S \<in> ?S" by (rule Max_in)
  have top: "\<And>x. x \<in> ?S \<Longrightarrow> x \<le> Max ?S" by (rule Max_ge [OF finite_set])
  with \<open>Max ?S \<in> ?S\<close> obtain r where r: "r \<in> set ?rs" "r_keyframe r = 1" "r_seq r = Max ?S" by auto
  then obtain k where k: "k < length ?rs" "?rs ! k = r" by (metis in_set_conv_nth)
  then have seq: "Max ?S = Suc k" using seq_at [OF assms(1) k(1)] r(3) by simp
  have "\<forall>j. k < j \<longrightarrow> j < length ?rs \<longrightarrow> r_keyframe (?rs ! j) \<noteq> 1"
  proof (intro allI impI notI)
    fix j assume j: "k < j" "j < length ?rs" "r_keyframe (?rs ! j) = 1"
    then have "?rs ! j \<in> set ?ks" by simp
    then have "r_seq (?rs ! j) \<in> ?S" by (simp only: set_map imageI)
    then show False using top seq_at [OF assms(1) j(2)] j(1) seq by fastforce
  qed
  then have "since_keyframe ?rs = Some (drop k ?rs)" using k r(2) by (intro since_keyframe_at) auto
  then show thesis using that s(1) seq by simp
qed

lemma lastKeyframe_none:
  assumes "lastKeyframeSeq tbl tag = None"
  shows "since_keyframe (tag_rows tbl tag) = None"
  using assms by (auto simp: lastKeyframeSeq_def max_seq_def since_keyframe_None tag_rows_def filter_empty_conv split: if_splits)

lemma chainFrom_catch_up:
  assumes "table_ok tbl"
  shows "chainFrom tbl tag from = catch_up from (tag_rows tbl tag)"
proof -
  let ?rs = "tag_rows tbl tag"
  have fallback: "(case lastKeyframeSeq tbl tag of Some s \<Rightarrow> chainFromSeq tbl tag s | None \<Rightarrow> chainAll tbl tag)
      = (case since_keyframe ?rs of Some s \<Rightarrow> s | None \<Rightarrow> ?rs)"
  proof (cases "lastKeyframeSeq tbl tag = None")
    case True
    then show ?thesis by (simp add: lastKeyframe_none chain_suffix(3) [OF assms])
  next
    case False
    then obtain k where "lastKeyframeSeq tbl tag = Some (Suc k)" "since_keyframe ?rs = Some (drop k ?rs)"
      by (rule lastKeyframe_at [OF assms refl])
    then show ?thesis by (simp add: chain_suffix(2) [OF assms])
  qed
  show ?thesis
  proof (cases "\<exists>i. from = Some i \<and> i \<in> r_id ` set ?rs")
    case True
    then obtain k where k: "k < length ?rs" "from = Some (r_id (?rs ! k))" by (auto simp: in_set_conv_nth)
    then show ?thesis using seqOfId_at [OF assms k(1)] after_id_at [OF table_okD(3) [OF assms] k(1)]
      by (simp add: chainFrom_def catch_up_def chain_suffix(1) [OF assms])
  next
    case False
    then have "Option.bind from (\<lambda>i. after_id i ?rs) = None" by (cases "from") (auto simp: after_id_None)
    moreover have "Option.bind from (seqOfId tbl tag) = None"
      using False by (cases "from") (auto simp: find_rev_row [OF assms] find_None_iff split: option.splits)
    ultimately show ?thesis using fallback by (simp add: chainFrom_def catch_up_def)
  qed
qed

section \<open>Every stored revision is one its signer sent\<close>

text \<open>The message a row stands for.\<close>

definition row_msg :: "rev_row \<Rightarrow> save_msg" where
  "row_msg r = \<lparr>m_tag = WStr (r_tag r), m_base = wopt (r_base r),
     m_keyframe = (if r_keyframe r = 1 then WBool True else WAbsent), m_nonce = WStr (r_nonce r),
     m_cipher = WStr (r_cipher r), m_sig = WStr (r_sig r)\<rparr>"

definition genuine_row :: "relay_env \<Rightarrow> rev_row \<Rightarrow> bool" where
  "genuine_row env r = (save_shape_ok (row_msg r) \<and> (case canonicalSave (row_msg r) of Inl _ \<Rightarrow> False
     | Inr bytes \<Rightarrow> digest env bytes = r_id r
         \<and> verifyEd25519 (b64url env) (ed25519 env) (r_tag r) bytes (r_sig r)))"

definition commits :: "rev_insert list \<Rightarrow> rev_table" where
  "commits xs = fold (\<lambda>i tbl. fst (commitRevisionSqlite tbl i)) xs []"

lemma commits_ok: "table_ok (commits xs)"
  unfolding commits_def by (rule fold_invariant [where P = table_ok]) (simp_all add: commit_ok)

lemma wopt_simps [simp]: "wopt None = WNull" "wopt (Some s) = WStr s" "wstr (wopt b) = b" "wnullish (wopt b) = (b = None)"
  by (cases b; simp add: wopt_def wnullish_def)+

text \<open>The row a message becomes stands for a message of the same bytes.\<close>

lemma row_of_msg:
  fixes tbl i
  assumes "save_shape_ok m"
  defines "r \<equiv> new_row tbl (insert_of m i)"
  shows "save_shape_ok (row_msg r)" "canonicalSave (row_msg r) = canonicalSave m"
    and "r_tag r = or_blank (wstr (m_tag m))" "r_sig r = or_blank (wstr (m_sig m))" "r_id r = i"
proof -
  have s: "m_sig m = WStr (or_blank (wstr (m_sig m)))"
    using assms(1) by (auto simp: save_shape_ok_def validTagSigBase_def split: wval.splits)
  have fields: "row_msg r = \<lparr>m_tag = m_tag m, m_base = wopt (wstr (m_base m)),
      m_keyframe = (if m_keyframe m = WBool True then WBool True else WAbsent), m_nonce = m_nonce m,
      m_cipher = m_cipher m, m_sig = m_sig m\<rparr>"
  proof -
    obtain tag nonce cipher where "m_tag m = WStr tag" "m_nonce m = WStr nonce" "m_cipher m = WStr cipher"
      by (rule gates_give_texts [OF assms(1)])
    then show ?thesis using s unfolding r_def by (simp add: row_msg_def insert_of_def)
  qed
  have base: "m_base m = WAbsent \<or> m_base m = WNull \<or> m_base m = wopt (wstr (m_base m))"
    using assms(1) by (auto simp: save_shape_ok_def validTagSigBase_def wnullish_def split: wval.splits)
  show shape: "save_shape_ok (row_msg r)"
    using assms(1) base unfolding fields by (auto simp: save_shape_ok_def wstr_nullish)
  have "read_save (row_msg r) = read_save m"
    unfolding fields by (simp add: read_save_def)
  then show "canonicalSave (row_msg r) = canonicalSave m"
    using canonical_gated(1) shape assms(1) by simp
qed (simp_all add: r_def insert_of_def)

lemma commitSave_rejects:
  assumes "table_ok tbl" "commitSave env pre known tbl later m authRequired = (out, tbl', bc)"
  shows "tbl' = tbl \<and> bc = None \<or> (\<exists>i b. out = Acked i b)"
  using assms by (auto simp: commitSave_def commit_cases Let_def split: if_splits sum.splits)

lemma commitSave_acked:
  assumes "table_ok tbl" "commitSave env pre known tbl later m authRequired = (Acked i b, tbl', bc)"
  defines "r \<equiv> new_row tbl (insert_of m i)"
  shows "save_shape_ok m" "tbl' = tbl @ [r]" "bc = Some (row_wire r)" "b = wstr (m_base m)"
    and "table_ok tbl'" "genuine_row env r" "r_base r = b"
proof -
  have shape: "save_shape_ok m" using assms(2) by (simp add: commitSave_def split: if_splits)
  then obtain bytes where bytes: "canonicalSave m = Inr bytes" using canonical_gated(1) by blast
  from assms(2) shape have facts: "i = digest env bytes" "b = wstr (m_base m)" "tbl' = tbl @ [r]"
      "verifyEd25519 (b64url env) (ed25519 env) (or_blank (wstr (m_tag m))) bytes (or_blank (wstr (m_sig m)))"
      "\<not> revisionExists tbl (i_tag (insert_of m i)) (i_id (insert_of m i))"
      "headFor tbl (i_tag (insert_of m i)) = i_base (insert_of m i)"
      "bc = Some \<lparr>w_base = wopt b, w_id = WStr i, w_keyframe = WBool (m_keyframe m = WBool True),
         w_nonce = m_nonce m, w_cipher = m_cipher m, w_sig = m_sig m\<rparr>"
    by (auto simp: commitSave_def commit_cases [OF assms(1)] bytes Let_def r_def split: if_splits)
  show "save_shape_ok m" "tbl' = tbl @ [r]" "b = wstr (m_base m)" by fact+
  show "table_ok tbl'" unfolding facts(3) r_def by (rule table_ok_insert) (use assms(1) facts in auto)
  show "genuine_row env r"
    using row_of_msg [OF shape, of tbl i] facts(1,4) bytes by (simp add: genuine_row_def r_def)
  show "r_base r = b" by (simp add: r_def insert_of_def facts(2))
  have "m_nonce m = WStr (or_blank (wstr (m_nonce m)))" "m_cipher m = WStr (or_blank (wstr (m_cipher m)))"
      "m_sig m = WStr (or_blank (wstr (m_sig m)))"
    using shape by (auto simp: save_shape_ok_def validTagSigBase_def validNonce_def validCiphertextShape_def split: wval.splits)
  then show "bc = Some (row_wire r)"
    unfolding facts(7) by (simp add: row_wire_def r_def insert_of_def facts(2))
qed

section \<open>Properties\<close>

text \<open>C7: whatever saves arrive in whatever order, the revisions of a workspace form one line: the first
  has no base, each later one is based on the one before it, numbers count from 1 and no id repeats. A
  save enters exactly when its base is the last revision and its id is new; it is a duplicate when its id
  is there, and stale otherwise; the constraints of the table are never what refuses it.\<close>

theorem relay_chain_linear:
  "linked None (tag_rows (commits xs) tag) \<and> distinct (map r_id (tag_rows (commits xs) tag))
    \<and> map r_seq (tag_rows (commits xs) tag) = [1..<Suc (length (tag_rows (commits xs) tag))]
    \<and> gatedInsert (commits xs) i \<noteq> Violation
    \<and> commitRevisionSqlite (commits xs) i =
      (if revisionExists (commits xs) (i_tag i) (i_id i) then (commits xs, Duplicate)
       else if end_id None (tag_rows (commits xs) (i_tag i)) \<noteq> i_base i
         then (commits xs, StaleBase (end_id None (tag_rows (commits xs) (i_tag i))))
       else (commits xs @ [new_row (commits xs) i], Committed))"
  using table_okD(1-3) [OF commits_ok] commit_cases [OF commits_ok] no_violation [OF commits_ok]
  by (simp add: gatedInsert_def headFor_rows [OF commits_ok])

text \<open>C32: the catch-up computed by the statements is that of the chain: what follows the asked revision
  where the chain has it; else what the last full state starts; else all of it.\<close>

theorem chainFrom_exact:
  "chainFrom (commits xs) tag from = catch_up from (tag_rows (commits xs) tag)"
  by (rule chainFrom_catch_up [OF commits_ok])

text \<open>A platform for examples: the id is the bytes read as text, and a signature verifies when it is
  the length of a signature.\<close>

definition open_env :: relay_env where
  "open_env = \<lparr>digest = map ucast, b64url = map ucast, ed25519 = (\<lambda>k s b. Some True)\<rparr>"

definition sample_save :: "ustr option \<Rightarrow> save_msg" where
  "sample_save base = wire_save \<lparr>p_key = replicate 32 (hd (units ''k'')), p_base = base, p_keyframe = False,
     p_nonce = units ''n'', p_cipher = units ''c''\<rparr> (replicate 64 (hd (units ''s'')))"

lemma sample_run:
  "\<exists>i r. commitSave open_env [] True [] (\<lambda>t. t) (sample_save None) True = (Acked i None, [r], Some (row_wire r))
    \<and> r_tag r = or_blank (wstr (m_tag (sample_save None)))"
proof -
  have shape: "save_shape_ok (sample_save None)"
    by (simp add: sample_save_def wire_save_def save_shape_ok_def validTagSigBase_def validNonce_def
        validCiphertextShape_def units_def tag_char_def cipher_char_def word_char_def in_range_def
        MAX_FIELD_LEN_def wnullish_def list_all_iff)
  obtain bytes where bytes: "canonicalSave (sample_save None) = Inr bytes" using canonical_gated(1) [OF shape] by blast
  show ?thesis
  proof -
    have fields: "or_blank (wstr (m_tag (sample_save None))) = replicate 32 107" "wstr (m_base (sample_save None)) = None"
        "or_blank (wstr (m_sig (sample_save None))) = replicate 64 115" "length (or_blank (wstr (m_cipher (sample_save None)))) = 1"
      by (simp_all add: sample_save_def wire_save_def units_def)
    let ?c = "commitSave open_env [] True [] (\<lambda>t. t) (sample_save None) True"
    have "fst ?c = Acked (digest open_env bytes) None"
      using shape fields by (simp add: commitSave_def bytes revisionExists_def verifyEd25519_def open_env_def commit_cases
          MAX_CIPHERTEXT_LEN_def insert_of_def headFor_def by_seq_def last_row_def Let_def)
    then obtain t bc where "?c = (Acked (digest open_env bytes) None, t, bc)" by (cases ?c) auto
    with commitSave_acked [OF table_ok_Nil this] row_of_msg(3) [OF shape] show ?thesis by auto
  qed
qed

text \<open>C4: what a save does to a chain of genuine revisions: nothing, or it adds one revision, genuine too,
  that is acknowledged and broadcast as it is stored. An acknowledged id is in the chain. A stale
  save is answered with the catch-up of its base, and only where that base is not the last revision.\<close>

theorem commitSave_spec:
  assumes "table_ok tbl" "\<forall>r \<in> set tbl. genuine_row env r" "set pre \<subseteq> set tbl" "table_ok (later tbl)"
    and "commitSave env pre known tbl later m authRequired = (out, tbl', bc)"
  shows "table_ok tbl' \<and> (\<forall>r \<in> set tbl'. genuine_row env r)
    \<and> (tbl' = tbl \<and> bc = None \<or> (\<exists>r. tbl' = tbl @ [r] \<and> bc = Some (row_wire r) \<and> out = Acked (r_id r) (r_base r)))
    \<and> (\<forall>i b. out = Acked i b \<or> out = Replayed i b \<longrightarrow>
         b = wstr (m_base m) \<and> revisionExists tbl' (or_blank (wstr (m_tag m))) i)
    \<and> (\<forall>b revs. out = Stale b revs \<longrightarrow> b = wstr (m_base m) \<and> headFor tbl (or_blank (wstr (m_tag m))) \<noteq> b
         \<and> revs = chainForWire (catch_up b (tag_rows (later tbl) (or_blank (wstr (m_tag m))))))"
proof (cases "\<exists>i b. out = Acked i b")
  case True
  then obtain i b where out: "out = Acked i b" by blast
  note a = commitSave_acked [OF assms(1) assms(5) [unfolded out]]
  have "revisionExists tbl' (or_blank (wstr (m_tag m))) i"
    using row_of_msg(3,5) [OF a(1), of tbl i] unfolding a(2) by (simp add: revisionExists_def)
  moreover have "r_id (new_row tbl (insert_of m i)) = i" by (rule row_of_msg(5) [OF a(1)])
  ultimately show ?thesis using a assms(2) out by auto
next
  case False
  with commitSave_rejects [OF assms(1,5)] have same: "tbl' = tbl" "bc = None" by auto
  have "revisionExists pre t i \<Longrightarrow> revisionExists tbl t i" for t i
    using assms(3) by (auto simp: revisionExists_def list_ex_iff)
  then show ?thesis using assms(1,2,5) False chainFrom_catch_up [OF assms(4)] unfolding same
    by (auto simp: commitSave_def commit_cases [OF assms(1)] insert_of_def Let_def split: if_splits sum.splits)
qed

theorem commitSave_spec_witness:
  "\<exists>i r. commitSave open_env [] True [] (\<lambda>t. t) (sample_save None) True = (Acked i None, [r], Some (row_wire r))
    \<and> genuine_row open_env r \<and> revisionExists [r] (r_tag r) i"
proof -
  obtain i r where run: "commitSave open_env [] True [] (\<lambda>t. t) (sample_save None) True = (Acked i None, [r], Some (row_wire r))"
    and tag: "r_tag r = or_blank (wstr (m_tag (sample_save None)))"
    using sample_run by blast
  from commitSave_spec [OF table_ok_Nil _ _ table_ok_Nil run] run tag show ?thesis by auto
qed

text \<open>A save answered over HTTP reaches the client as the same frames as on the stream; where the answer
  is a refusal the stream has to handle (no frame, or the password), the frame is sent there instead.\<close>

theorem rest_plane_as_stream:
  assumes "commitSave env pre known tbl later m authRequired = (out, tbl', bc)"
    and "m_tag m = WStr tag" "m_base m = wopt base"
  shows "postSaveRest (WStr tag) (wopt base) (Some (handleSaveRest (Some out))) True True =
    (if out = Rejected \<or> (\<exists>b. out = NeedsAuth b) then (True, []) else (False, save_frames tag out))"
proof -
  have base: "\<forall>b. (out = Stale b revs \<or> out = Acked i b \<or> out = Replayed i b \<or> out = TooLarge b) \<longrightarrow> b = base" for i revs
    using assms by (auto simp: commitSave_def Let_def split: if_splits sum.splits prod.splits commit_result.splits)
  have revs: "\<forall>b w. out = Stale b w \<longrightarrow> (\<exists>rs. w = Some rs)"
    using assms(1) by (auto simp: commitSave_def Let_def chainForWire_def split: if_splits sum.splits prod.splits commit_result.splits)
  show ?thesis using base revs
    by (cases out) (auto simp: postSaveRest_def handleSaveRest_def ok_status_def save_frames_def sendSaveError_def
        SAVE_ERROR_REASONS_def)
qed

theorem rest_plane_as_stream_witness:
  "\<exists>i. postSaveRest (WStr (replicate 32 107)) WNull (Some (handleSaveRest (Some (fst
        (commitSave open_env [] True [] (\<lambda>t. t) (sample_save None) True))))) True True
      = (False, [SaveAck (WStr (replicate 32 107)) WNull (WStr i)])"
proof -
  obtain i r where run: "commitSave open_env [] True [] (\<lambda>t. t) (sample_save None) True = (Acked i None, [r], Some (row_wire r))"
    using sample_run by blast
  have "m_tag (sample_save None) = WStr (replicate 32 107)" "m_base (sample_save None) = wopt None"
    by (simp_all add: sample_save_def wire_save_def units_def)
  from rest_plane_as_stream [OF run this] run show ?thesis by (auto simp: save_frames_def)
qed

end
