(* ===== verification/SyncChain.thy ===== *)
theory SyncChain
  imports SyncRelay TriageChangeset
begin

text \<open>
  The base of a sync session and how a chain of revisions moves it
  (\<open>applyChainToBase\<close> of \<^verbatim>\<open>src/client/sync/triage-sync.ts\<close>, \<open>verifySavePayload\<close> and
  \<open>computeRevisionId\<close> of \<^verbatim>\<open>src/client/sync/sync-crypto.ts\<close>): a revision is applied only where
  it follows the base, its signature verifies, its id is the digest of what was signed and it decrypts.
  \<open>replays\<close> is the state a revision stands for, whoever applied it; the lemmas say that the base
  of a session is that state, and that the chain a relay serves brings it to the relay's head.
\<close>

section \<open>The session\<close>

record pending_save =
  ps_base :: "ustr option"
  ps_id :: ustr
  ps_changeset :: changeset
  ps_keyframe :: bool

record session =
  workspaceId :: string
  workspaceTag :: "ustr option"
  signingKey :: "byte list option"
  verifyingKey :: "byte list option"
  ids :: "string list"
  baseRevision :: "ustr option"
  appliedRevisions :: "ustr list"
  baseState :: tmap
  hasBase :: bool
  savesSinceKeyframe :: nat
  localState :: tmap
  pending :: "pending_save option"
  pendingSave :: bool
  key :: "byte list option"
  encrypting :: bool
  receiving :: bool
  generation :: nat
  subscribed :: bool
  subscribeAcked :: bool
  resyncAttempted :: bool
  staleResetAttempted :: bool
  consecutiveFailures :: nat
  error :: "string option"
  keyDerivationGen :: nat
  busyRetryTimer :: bool
  waiters :: nat

text \<open>The platform as the client uses it. \<open>c_parse\<close> is \<open>JSON.parse\<close> of a changeset, with
  \<open>null\<close> read as no change.\<close>

record client_env =
  c_digest :: "byte list \<Rightarrow> ustr"
  c_sig :: "ustr \<Rightarrow> byte list option"
  c_ed25519 :: "byte list \<Rightarrow> byte list \<Rightarrow> byte list \<Rightarrow> bool option"
  c_envelope :: envelope_env
  c_parse :: "ustr \<Rightarrow> changeset option"
  keyframeInterval :: nat

definition verifySavePayload :: "client_env \<Rightarrow> byte list \<Rightarrow> save_payload \<Rightarrow> ustr \<Rightarrow> bool" where
  "verifySavePayload env publicKey p signature = (case c_sig env signature of None \<Rightarrow> False
     | Some sig \<Rightarrow> (case canonicalSavePayload p of Inl _ \<Rightarrow> False
        | Inr bytes \<Rightarrow> c_ed25519 env publicKey sig bytes = Some True))"

text \<open>Throws where the text of the payload has no encoding.\<close>

definition computeRevisionId :: "client_env \<Rightarrow> save_payload \<Rightarrow> ustr option" where
  "computeRevisionId env p = (case canonicalSavePayload p of Inl _ \<Rightarrow> None | Inr bytes \<Rightarrow> Some (c_digest env bytes))"

definition decryptRevision :: "client_env \<Rightarrow> byte list \<Rightarrow> save_payload \<Rightarrow> changeset option" where
  "decryptRevision env k p = (case buildAad (p_key p) (p_base p) of Inl _ \<Rightarrow> None
     | Inr aad \<Rightarrow> (case decryptJson (c_envelope env) (c_parse env) k (p_nonce p) (p_cipher p) aad of
          Inl _ \<Rightarrow> None | Inr cs \<Rightarrow> Some cs))"

section \<open>Applying a chain\<close>

definition known_revision :: "ustr list \<Rightarrow> session \<Rightarrow> wire_rev \<Rightarrow> bool" where
  "known_revision known s rv = (case w_id rv of
     WStr i \<Rightarrow> baseRevision s = Some i \<or> i \<in> set (appliedRevisions s) \<or> i \<in> set known | _ \<Rightarrow> False)"

definition continues :: "session \<Rightarrow> wire_rev \<Rightarrow> bool" where
  "continues s rv = (case baseRevision s of
     None \<Rightarrow> wnullish (w_base rv) \<or> w_keyframe rv = WBool True
   | Some b \<Rightarrow> w_base rv = WStr b)"

definition payload_of :: "ustr \<Rightarrow> wire_rev \<Rightarrow> save_payload" where
  "payload_of tag rv = \<lparr>p_key = tag, p_base = wstr (w_base rv), p_keyframe = (w_keyframe rv = WBool True),
     p_nonce = or_blank (wstr (w_nonce rv)), p_cipher = or_blank (wstr (w_cipher rv))\<rparr>"

definition advance :: "client_env \<Rightarrow> bool \<Rightarrow> ustr \<Rightarrow> changeset \<Rightarrow> session \<Rightarrow> session" where
  "advance env isKeyframe i cs s = s\<lparr>
     baseState := applyChangeset (if isKeyframe then [] else baseState s) cs,
     baseRevision := Some i,
     appliedRevisions := set_add (appliedRevisions s) i,
     pending := (if map_option ps_id (pending s) = Some i then None else pending s),
     savesSinceKeyframe := (if isKeyframe then 0 else min (savesSinceKeyframe s + 1) (keyframeInterval env))\<rparr>"

fun all_texts :: "wire_rev \<Rightarrow> bool" where
  "all_texts rv = (wstr (w_sig rv) \<noteq> None \<and> wstr (w_nonce rv) \<noteq> None
     \<and> wstr (w_cipher rv) \<noteq> None \<and> wstr (w_id rv) \<noteq> None)"

text \<open>One revision that is none of the known: the changeset to apply, or why the apply stops, and
  whether the next save must be a keyframe.\<close>

datatype verdict = Apply bool ustr changeset | Stop bool

definition check_revision :: "client_env \<Rightarrow> session \<Rightarrow> wire_rev \<Rightarrow> verdict" where
  "check_revision env s rv =
     (if \<not> continues s rv then Stop False
      else if \<not> all_texts rv then Stop True
      else case (workspaceTag s, verifyingKey s, key s) of
        (Some tag, Some vk, Some k) \<Rightarrow>
          (let p = payload_of tag rv in
           if \<not> verifySavePayload env vk p (or_blank (wstr (w_sig rv))) then Stop True
           else if computeRevisionId env p \<noteq> wstr (w_id rv) then Stop True
           else case decryptRevision env k p of None \<Rightarrow> Stop True
             | Some cs \<Rightarrow> Apply (p_keyframe p) (or_blank (wstr (w_id rv))) cs)
      | _ \<Rightarrow> Stop False)"

fun applyChainToBase :: "client_env \<Rightarrow> ustr list \<Rightarrow> wire_rev option list \<Rightarrow> session \<Rightarrow> session \<times> bool" where
  "applyChainToBase env known [] s = (s, True)"
| "applyChainToBase env known (None # revs) s = applyChainToBase env known revs s"
| "applyChainToBase env known (Some rv # revs) s =
     (if known_revision known s rv then applyChainToBase env known revs s
      else case check_revision env s rv of
        Stop heal \<Rightarrow> (if heal then s\<lparr>savesSinceKeyframe := keyframeInterval env\<rparr> else s, False)
      | Apply kf i cs \<Rightarrow> applyChainToBase env known revs (advance env kf i cs s))"

section \<open>The state of a revision\<close>

text \<open>A revision of the workspace: a payload under its tag that verifies and decrypts.\<close>

definition revision_of :: "client_env \<Rightarrow> ustr \<Rightarrow> byte list \<Rightarrow> byte list \<Rightarrow> save_payload \<Rightarrow> ustr \<Rightarrow> changeset \<Rightarrow> bool" where
  "revision_of env tag vk k p i cs = (p_key p = tag \<and> (\<exists>sig. verifySavePayload env vk p sig)
     \<and> computeRevisionId env p = Some i \<and> decryptRevision env k p = Some cs)"

inductive replays :: "client_env \<Rightarrow> ustr \<Rightarrow> byte list \<Rightarrow> byte list \<Rightarrow> ustr option \<Rightarrow> tmap \<Rightarrow> bool"
  for env tag vk k where
  replays_start: "replays env tag vk k None []"
| replays_full: "revision_of env tag vk k p i cs \<Longrightarrow> p_keyframe p \<Longrightarrow> replays env tag vk k (Some i) (applyChangeset [] cs)"
| replays_delta: "revision_of env tag vk k p i cs \<Longrightarrow> \<not> p_keyframe p \<Longrightarrow> replays env tag vk k (p_base p) m \<Longrightarrow>
    replays env tag vk k (Some i) (applyChangeset m cs)"

inductive_cases replays_NoneE: "replays env tag vk k None m"
inductive_cases replays_SomeE: "replays env tag vk k (Some i) m"

text \<open>The base of a session is exact where it is the state of its revision; where it is not, the next save is
  a keyframe, which replaces it everywhere.\<close>

definition exact_base :: "client_env \<Rightarrow> ustr \<Rightarrow> byte list \<Rightarrow> byte list \<Rightarrow> session \<Rightarrow> bool" where
  "exact_base env tag vk k s = replays env tag vk k (baseRevision s) (baseState s)"

definition heals_next :: "client_env \<Rightarrow> session \<Rightarrow> bool" where
  "heals_next env s = (savesSinceKeyframe s \<ge> keyframeInterval env)"

definition keys_are :: "ustr \<Rightarrow> byte list \<Rightarrow> byte list \<Rightarrow> session \<Rightarrow> bool" where
  "keys_are tag vk k s = (workspaceTag s = Some tag \<and> verifyingKey s = Some vk \<and> key s = Some k)"

section \<open>Lemmas\<close>

lemma advance_fields [simp]:
  "baseState (advance env kf i cs s) = applyChangeset (if kf then [] else baseState s) cs"
  "baseRevision (advance env kf i cs s) = Some i"
  "appliedRevisions (advance env kf i cs s) = set_add (appliedRevisions s) i"
  "workspaceTag (advance env kf i cs s) = workspaceTag s" "verifyingKey (advance env kf i cs s) = verifyingKey s"
  "key (advance env kf i cs s) = key s"
  "savesSinceKeyframe (advance env kf i cs s) = (if kf then 0 else min (savesSinceKeyframe s + 1) (keyframeInterval env))"
  by (simp_all add: advance_def)

lemma keys_advance [simp]: "keys_are tag vk k (advance env kf i cs s) = keys_are tag vk k s"
  by (simp add: keys_are_def)

text \<open>What passes the checks is a revision, based where the session is.\<close>

lemma check_revision_Apply:
  assumes "check_revision env s rv = Apply kf i cs" "keys_are tag vk k s"
  obtains p where "p = payload_of tag rv" "revision_of env tag vk k p i cs" "p_keyframe p = kf" "continues s rv"
    "wstr (w_id rv) = Some i"
proof -
  have *: "continues s rv" "all_texts rv" "verifySavePayload env vk (payload_of tag rv) (or_blank (wstr (w_sig rv)))"
      "computeRevisionId env (payload_of tag rv) = wstr (w_id rv)" "decryptRevision env k (payload_of tag rv) = Some cs"
      "p_keyframe (payload_of tag rv) = kf" "i = or_blank (wstr (w_id rv))"
    using assms by (auto simp: check_revision_def keys_are_def Let_def split: if_splits option.splits)
  then obtain j where j: "wstr (w_id rv) = Some j" by auto
  show thesis
  proof (rule that [OF refl])
    show "revision_of env tag vk k (payload_of tag rv) i cs"
      using * j by (auto simp: revision_of_def payload_of_def)
  qed (use * j in auto)
qed

lemma exact_advance:
  assumes "check_revision env s rv = Apply kf i cs" "keys_are tag vk k s"
    and "exact_base env tag vk k s \<or> heals_next env s"
  shows "exact_base env tag vk k (advance env kf i cs s) \<or> heals_next env (advance env kf i cs s)"
proof -
  obtain p where p: "p = payload_of tag rv" "revision_of env tag vk k p i cs" "p_keyframe p = kf" "continues s rv"
    using check_revision_Apply [OF assms(1,2)] .
  show ?thesis
  proof (cases kf)
    case True
    then show ?thesis using replays_full [OF p(2)] p(3) by (simp add: exact_base_def)
  next
    case False
    have "p_base p = baseRevision s"
      using p(1,3,4) False by (auto simp: continues_def payload_of_def wstr_nullish split: option.splits)
    with replays_delta [OF p(2)] p(3) False assms(3) show ?thesis
      by (auto simp: exact_base_def heals_next_def)
  qed
qed

text \<open>Whatever chain is applied, from whatever relay.\<close>

lemma chain_exact:
  assumes "exact_base env tag vk k s \<or> heals_next env s" "keys_are tag vk k s"
  shows "(exact_base env tag vk k (fst (applyChainToBase env known revs s))
      \<or> heals_next env (fst (applyChainToBase env known revs s)))"
  using assms
proof (induction env known revs s rule: applyChainToBase.induct)
  case (3 env known rv revs s)
  show ?case
  proof (cases "known_revision known s rv")
    case False
    show ?thesis
    proof (cases "check_revision env s rv")
      case (Apply kf i cs)
      then show ?thesis using 3 False exact_advance [OF Apply] by simp
    qed (use 3 False in \<open>auto simp: exact_base_def heals_next_def\<close>)
  qed (use 3 in simp)
qed simp_all

section \<open>One state per revision\<close>

definition plain_payload :: "save_payload \<Rightarrow> bool" where
  "plain_payload q = (plain (p_key q) \<and> plain (or_blank (p_base q)) \<and> p_base q \<noteq> Some []
     \<and> plain (p_nonce q) \<and> plain (p_cipher q))"

text \<open>What the platform is relied on for: digests do not collide, and a signature verifies only over the
  bytes of a payload the holders of the key signed, whose fields are base64.\<close>

definition authentic :: "client_env \<Rightarrow> byte list \<Rightarrow> save_payload set \<Rightarrow> bool" where
  "authentic env vk sgd = (inj (c_digest env) \<and> (\<forall>b. c_digest env b \<noteq> [])
     \<and> (\<forall>p sig. verifySavePayload env vk p sig \<longrightarrow> (\<exists>q \<in> sgd. canonicalSavePayload q = canonicalSavePayload p))
     \<and> (\<forall>q \<in> sgd. plain_payload q))"

definition breaks :: "ustr \<Rightarrow> nat" where
  "breaks s = length (filter (\<lambda>u. u = 10) s)"

lemma breaks_0: "breaks s = 0 \<longleftrightarrow> 10 \<notin> set s"
  by (auto simp: breaks_def filter_empty_conv)

lemma breaks_join: "xs \<noteq> [] \<Longrightarrow> breaks (join_lines xs) = sum_list (map breaks xs) + (length xs - 1)"
  by (induction xs rule: join_lines.induct) (simp_all add: breaks_def)

text \<open>Moving a line break between fields cannot pass for what was signed: the count of lines is the same.\<close>

lemma join_lines_unique:
  assumes "\<forall>y \<in> set ys. 10 \<notin> set y" "join_lines xs = join_lines ys" "length xs = length ys"
  shows "xs = ys"
proof (cases "xs = []")
  case False
  have "sum_list (map breaks xs) = sum_list (map breaks ys)"
    using breaks_join [of xs] breaks_join [of ys] False assms(2,3) by fastforce
  also have "\<dots> = 0" using assms(1) by (simp add: sum_list_eq_0_iff breaks_0)
  finally have "\<forall>x \<in> set xs. 10 \<notin> set x" by (auto simp: breaks_0)
  then show ?thesis using join_lines_inj [of xs ys] assms by auto
qed (use assms in simp)

lemma payload_lines_plain: "plain_payload q \<Longrightarrow> y \<in> set (save_lines q) \<Longrightarrow> 10 \<notin> set y"
  by (auto simp: save_lines_def plain_payload_def dest: plain_no_break split: if_splits)

lemma same_fields:
  assumes "save_lines p = save_lines q"
  shows "p_key p = p_key q \<and> or_blank (p_base p) = or_blank (p_base q) \<and> p_keyframe p = p_keyframe q
    \<and> p_nonce p = p_nonce q \<and> p_cipher p = p_cipher q"
  using assms flag_text_inj [of "p_keyframe p" "p_keyframe q"] by (auto simp: save_lines_def split del: if_split)

lemma signed_lines:
  assumes "plain_payload q" "canonicalSavePayload q = canonicalSavePayload p" "canonicalSavePayload p = Inr bytes"
  shows "save_lines p = save_lines q"
proof -
  have "join_lines (save_lines p) = join_lines (save_lines q)"
    using assms(2,3) encodeUtf8_inj unfolding canonicalSavePayload_def by metis
  then show ?thesis
    using payload_lines_plain [OF assms(1)] by (intro join_lines_unique) (auto simp: save_lines_def)
qed

lemma revision_unique:
  assumes "authentic env vk sgd" "revision_of env tag vk k p i cs" "revision_of env tag vk k q i ds"
  shows "cs = ds" "p_keyframe p = p_keyframe q" "or_blank (p_base p) = or_blank (p_base q)"
proof -
  obtain b c where b: "canonicalSavePayload p = Inr b" "c_digest env b = i"
      and c: "canonicalSavePayload q = Inr c" "c_digest env c = i"
    using assms(2,3) by (auto simp: revision_of_def computeRevisionId_def split: sum.splits)
  then have "b = c" using assms(1) by (metis authentic_def injD)
  obtain w where w: "w \<in> sgd" "canonicalSavePayload w = canonicalSavePayload p"
    using assms(1,2) unfolding authentic_def revision_of_def by blast
  have "plain_payload w" using assms(1) w(1) unfolding authentic_def by blast
  then have "save_lines p = save_lines q"
    using signed_lines [of w p b] signed_lines [of w q c] w(2) b(1) c(1) \<open>b = c\<close> by simp
  note f = same_fields [OF this]
  then show "p_keyframe p = p_keyframe q" "or_blank (p_base p) = or_blank (p_base q)" by auto
  have "decryptRevision env k p = decryptRevision env k q"
    unfolding decryptRevision_def buildAad_def f [THEN conjunct1] f [THEN conjunct2, THEN conjunct1]
      f [THEN conjunct2, THEN conjunct2, THEN conjunct2, THEN conjunct1] f [THEN conjunct2, THEN conjunct2, THEN conjunct2, THEN conjunct2] ..
  then show "cs = ds" using assms(2,3) by (simp add: revision_of_def)
qed

lemma replays_not_blank: "authentic env vk sgd \<Longrightarrow> \<not> replays env tag vk k (Some []) m"
  by (auto elim!: replays_SomeE simp: revision_of_def computeRevisionId_def authentic_def split: sum.splits)

lemma replays_SomeD:
  "replays env tag vk k (Some i) m \<Longrightarrow> \<exists>p cs m0. revision_of env tag vk k p i cs \<and> m = applyChangeset m0 cs
     \<and> (if p_keyframe p then m0 = [] else replays env tag vk k (p_base p) m0)"
  by (erule replays_SomeE) metis+

lemma replays_unique:
  assumes "authentic env vk sgd"
  shows "replays env tag vk k r m \<Longrightarrow> replays env tag vk k r m' \<Longrightarrow> m = m'"
proof (induction arbitrary: m' rule: replays.induct)
  case replays_start
  then show ?case by (auto elim: replays_NoneE)
next
  case (replays_full p i cs)
  obtain q ds m0 where q: "revision_of env tag vk k q i ds" "m' = applyChangeset m0 ds"
      "if p_keyframe q then m0 = [] else replays env tag vk k (p_base q) m0"
    using replays_SomeD [OF replays_full.prems] by blast
  then show ?case using revision_unique(1,2) [OF assms replays_full.hyps(1) q(1)] replays_full.hyps(2) by simp
next
  case (replays_delta p i cs m)
  obtain q ds m0 where q: "revision_of env tag vk k q i ds" "m' = applyChangeset m0 ds"
      "if p_keyframe q then m0 = [] else replays env tag vk k (p_base q) m0"
    using replays_SomeD [OF replays_delta.prems] by blast
  note u = revision_unique [OF assms replays_delta.hyps(1) q(1)]
  have m0: "replays env tag vk k (p_base q) m0" using q(3) u(2) replays_delta.hyps(2) by simp
  have "p_base p \<noteq> Some []" "p_base q \<noteq> Some []"
    using replays_not_blank [OF assms] replays_delta.hyps(3) m0 by metis+
  then have "p_base p = p_base q" using u(3) or_blank_inj by blast
  then show ?case using replays_delta.IH m0 q(2) u(1) by simp
qed

lemma chain_keys: "keys_are tag vk k s \<Longrightarrow> keys_are tag vk k (fst (applyChainToBase env known revs s))"
proof (induction env known revs s rule: applyChainToBase.induct)
  case (3 env known rv revs s)
  then show ?case by (cases "check_revision env s rv") (simp_all add: keys_are_def)
qed simp_all

section \<open>The chain of a relay\<close>

definition row_payload :: "rev_row \<Rightarrow> save_payload" where
  "row_payload r = \<lparr>p_key = r_tag r, p_base = r_base r, p_keyframe = (r_keyframe r = 1),
     p_nonce = r_nonce r, p_cipher = r_cipher r\<rparr>"

text \<open>A row the client can use: it verifies, carries its own digest and decrypts.\<close>

definition readable_row :: "client_env \<Rightarrow> ustr \<Rightarrow> byte list \<Rightarrow> byte list \<Rightarrow> rev_row \<Rightarrow> bool" where
  "readable_row env tag vk k r = (r_tag r = tag \<and> verifySavePayload env vk (row_payload r) (r_sig r)
     \<and> computeRevisionId env (row_payload r) = Some (r_id r) \<and> decryptRevision env k (row_payload r) \<noteq> None)"

lemma payload_row [simp]: "r_tag r = tag \<Longrightarrow> payload_of tag (row_wire r) = row_payload r"
  by (simp add: payload_of_def row_wire_def row_payload_def)

lemma continues_row: "continues s (row_wire r) \<longleftrightarrow>
    (case baseRevision s of None \<Rightarrow> r_base r = None \<or> r_keyframe r = 1 | Some b \<Rightarrow> r_base r = Some b)"
  by (cases "r_base r") (auto simp: continues_def row_wire_def wnullish_def split: option.splits)

lemma check_readable:
  assumes "readable_row env tag vk k r" "keys_are tag vk k s" "continues s (row_wire r)"
  shows "\<exists>cs. check_revision env s (row_wire r) = Apply (r_keyframe r = 1) (r_id r) cs"
proof -
  from assms(1) obtain cs where "decryptRevision env k (row_payload r) = Some cs" by (auto simp: readable_row_def)
  moreover have "wstr (w_sig (row_wire r)) = Some (r_sig r)" "wstr (w_nonce (row_wire r)) = Some (r_nonce r)"
      "wstr (w_cipher (row_wire r)) = Some (r_cipher r)" "wstr (w_id (row_wire r)) = Some (r_id r)"
    by (simp_all add: row_wire_def)
  ultimately show ?thesis using assms
    by (simp add: check_revision_def keys_are_def readable_row_def Let_def) (simp add: row_payload_def)
qed

lemma known_row: "known_revision known s (row_wire r) \<longleftrightarrow>
    baseRevision s = Some (r_id r) \<or> r_id r \<in> set (appliedRevisions s) \<or> r_id r \<in> set known"
  by (simp add: known_revision_def row_wire_def)

definition wired :: "rev_row list \<Rightarrow> wire_rev option list" where
  "wired rs = map (\<lambda>r. Some (row_wire r)) rs"

text \<open>Rows that follow the base, none seen before: all are applied.\<close>

lemma apply_rows:
  assumes "keys_are tag vk k s" "\<forall>r \<in> set rs. readable_row env tag vk k r" "distinct (map r_id rs)"
    and "\<forall>r \<in> set rs. \<not> known_revision known s (row_wire r)"
    and "rs \<noteq> [] \<longrightarrow> continues s (row_wire (hd rs)) \<and> linked (Some (r_id (hd rs))) (tl rs)"
  shows "\<exists>s'. applyChainToBase env known (wired rs) s = (s', True) \<and> baseRevision s' = end_id (baseRevision s) rs
    \<and> keys_are tag vk k s'"
  using assms
proof (induction rs arbitrary: s)
  case Nil
  then show ?case by (simp add: end_id_def wired_def)
next
  case (Cons r rs)
  obtain cs where c: "check_revision env s (row_wire r) = Apply (r_keyframe r = 1) (r_id r) cs"
    using check_readable [of env tag vk k r s] Cons.prems by auto
  let ?s = "advance env (r_keyframe r = 1) (r_id r) cs s"
  have "\<exists>s'. applyChainToBase env known (wired rs) ?s = (s', True) \<and> baseRevision s' = end_id (baseRevision ?s) rs
      \<and> keys_are tag vk k s'"
  proof (rule Cons.IH)
    show "\<forall>x \<in> set rs. \<not> known_revision known ?s (row_wire x)"
      using Cons.prems(3,4) unfolding known_row by (auto intro: rev_image_eqI)
    show "rs \<noteq> [] \<longrightarrow> continues ?s (row_wire (hd rs)) \<and> linked (Some (r_id (hd rs))) (tl rs)"
      using Cons.prems(5) by (cases rs) (auto simp: continues_row)
  qed (use Cons.prems in auto)
  moreover have "applyChainToBase env known (wired (r # rs)) s = applyChainToBase env known (wired rs) ?s"
    using c Cons.prems(4) by (simp add: wired_def)
  ultimately show ?case by (auto simp: end_id_def)
qed

lemma linked_drop: "linked b rs \<Longrightarrow> k < length rs \<Longrightarrow> linked (Some (r_id (rs ! k))) (drop (Suc k) rs)"
proof (induction rs arbitrary: b k)
  case (Cons r rs)
  then show ?case by (cases k) auto
qed simp

lemma since_keyframe_head: "since_keyframe rs = Some qs \<Longrightarrow> \<exists>k < length rs. qs = drop k rs \<and> r_keyframe (rs ! k) = 1"
proof (induction rs arbitrary: qs)
  case (Cons r rs)
  show ?case
  proof (cases "since_keyframe rs")
    case None
    then show ?thesis using Cons.prems by (auto split: if_splits intro!: exI [of _ 0])
  next
    case (Some ps)
    then obtain k where k: "k < length rs" "ps = drop k rs" "r_keyframe (rs ! k) = 1" using Cons.IH [OF Some] by blast
    moreover have "qs = ps" using Some Cons.prems by simp
    ultimately show ?thesis by (intro exI [of _ "Suc k"]) simp
  qed
qed simp

text \<open>The catch-up starts where the session is and goes to the end.\<close>

lemma catch_up_from_base:
  assumes rows: "linked None rs" "distinct (map r_id rs)"
    and base: "baseRevision s = None \<or> (\<exists>r \<in> set rs. baseRevision s = Some (r_id r))"
  defines "qs \<equiv> catch_up (baseRevision s) rs"
  shows "qs \<noteq> [] \<longrightarrow> continues s (row_wire (hd qs)) \<and> linked (Some (r_id (hd qs))) (tl qs)"
    and "end_id (baseRevision s) qs = end_id None rs" and "set qs \<subseteq> set rs" and "distinct (map r_id qs)"
proof -
  have shape: "\<exists>k \<le> length rs. qs = drop k rs \<and> (k < length rs \<longrightarrow> continues s (row_wire (rs ! k)))
      \<and> (k = length rs \<longrightarrow> baseRevision s = end_id None rs)"
  proof (cases "baseRevision s")
    case None
    show ?thesis
    proof (cases "since_keyframe rs")
      case none: None
      then show ?thesis using None rows(1) unfolding qs_def
        by (cases rs) (auto simp: catch_up_def continues_row end_id_def intro!: exI [of _ 0])
    next
      case (Some ps)
      then obtain m where m: "m < length rs" "ps = drop m rs" "r_keyframe (rs ! m) = 1"
        using since_keyframe_head [OF Some] by blast
      then have "qs = drop m rs" using None Some by (simp add: qs_def catch_up_def)
      then show ?thesis using m None by (intro exI [of _ m]) (simp add: continues_row)
    qed
  next
    case (Some b)
    then obtain j where j: "j < length rs" "b = r_id (rs ! j)" using base by (auto simp: in_set_conv_nth)
    have qs: "qs = drop (Suc j) rs" using after_id_at [OF rows(2) j(1)] j(2) Some by (simp add: qs_def catch_up_def)
    have next_base: "r_base (rs ! Suc j) = Some b" if "Suc j < length rs"
    proof -
      have "drop (Suc j) rs = rs ! Suc j # drop (Suc (Suc j)) rs" using that by (simp add: Cons_nth_drop_Suc)
      with linked_drop [OF rows(1) j(1)] j(2) show ?thesis by simp
    qed
    moreover have "end_id None rs = Some b" if "Suc j = length rs"
      using that j by (cases rs rule: rev_cases) (auto simp: end_id_def nth_append)
    ultimately show ?thesis using qs j Some by (intro exI [of _ "Suc j"]) (auto simp: continues_row)
  qed
  then obtain k where k: "k \<le> length rs" "qs = drop k rs" "k < length rs \<longrightarrow> continues s (row_wire (rs ! k))"
      "k = length rs \<longrightarrow> baseRevision s = end_id None rs" by blast
  show "qs \<noteq> [] \<longrightarrow> continues s (row_wire (hd qs)) \<and> linked (Some (r_id (hd qs))) (tl qs)"
    using k linked_drop [OF rows(1), of k] by (auto simp: hd_drop_conv_nth tl_drop drop_Suc)
  show "end_id (baseRevision s) qs = end_id None rs"
    using k by (cases "k = length rs") (auto simp: end_id_def)
  show "set qs \<subseteq> set rs" using k(2) set_drop_subset by fastforce
  show "distinct (map r_id qs)" using rows(2) k(2) by (simp add: drop_map [symmetric] distinct_drop)
qed

section \<open>Properties\<close>

text \<open>C17: two sessions of a workspace that stand at the same revision hold the same base, whatever chains
  whatever relays fed them, complete or not, in whatever pieces: unless a session knows that its base may
  be off, and then its next save is the keyframe that replaces it.\<close>

theorem same_revision_same_base:
  assumes "authentic env vk sgd" "keys_are tag vk k s" "keys_are tag vk k t"
    and "baseRevision s = None" "baseState s = []" "baseRevision t = None" "baseState t = []"
    and "s' = fold (\<lambda>(known, revs) s. fst (applyChainToBase env known revs s)) feed s"
    and "t' = fold (\<lambda>(known, revs) s. fst (applyChainToBase env known revs s)) feed' t"
    and "baseRevision s' = baseRevision t'"
  shows "baseState s' = baseState t' \<or> heals_next env s' \<or> heals_next env t'"
proof -
  let ?f = "\<lambda>(known, revs) s. fst (applyChainToBase env known revs s)"
  have run: "(exact_base env tag vk k (fold ?f cs x) \<or> heals_next env (fold ?f cs x)) \<and> keys_are tag vk k (fold ?f cs x)"
    if "keys_are tag vk k x" "baseRevision x = None" "baseState x = []" for cs x
  proof (rule fold_invariant [where P = "\<lambda>x. (exact_base env tag vk k x \<or> heals_next env x) \<and> keys_are tag vk k x"])
    show "(exact_base env tag vk k x \<or> heals_next env x) \<and> keys_are tag vk k x"
      using that by (simp add: exact_base_def replays_start)
  qed (use chain_exact chain_keys in \<open>simp split: prod.splits\<close>)
  show ?thesis
    using run [OF assms(2,4,5), of feed] run [OF assms(3,6,7), of feed'] replays_unique [OF assms(1)] assms(8-10)
    unfolding exact_base_def by metis
qed

text \<open>C18: the chain a relay serves a session brings it to the relay's head: where the session is at a revision
  of that relay or at none, and can read what is served and has not seen it, every revision of the catch-up applies.\<close>

theorem catch_up_reaches_head:
  assumes "keys_are tag vk k s" "\<forall>r \<in> set (tag_rows (commits xs) tag). readable_row env tag vk k r"
    and "baseRevision s = None \<or> (\<exists>r \<in> set (tag_rows (commits xs) tag). baseRevision s = Some (r_id r))"
    and "\<forall>r \<in> set (chainFrom (commits xs) tag (baseRevision s)). \<not> known_revision known s (row_wire r)"
  shows "\<exists>s'. applyChainToBase env known (wired (chainFrom (commits xs) tag (baseRevision s))) s = (s', True)
    \<and> baseRevision s' = headFor (commits xs) tag"
proof -
  let ?rs = "tag_rows (commits xs) tag" and ?qs = "chainFrom (commits xs) tag (baseRevision s)"
  note q = chainFrom_catch_up [OF commits_ok, of xs tag "baseRevision s"]
  note f = catch_up_from_base [OF table_okD(2,3) [OF commits_ok, of xs tag] assms(3), folded q]
  have "\<exists>s'. applyChainToBase env known (wired ?qs) s = (s', True) \<and> baseRevision s' = end_id (baseRevision s) ?qs
      \<and> keys_are tag vk k s'"
    using assms(1,2,4) f by (intro apply_rows) auto
  then show ?thesis using f(2) headFor_rows [OF commits_ok, of xs tag] by auto
qed

section \<open>Examples\<close>

text \<open>A workspace with one revision, on a platform that verifies its bytes alone.\<close>

definition sample_payload :: save_payload where
  "sample_payload = \<lparr>p_key = units ''k'', p_base = None, p_keyframe = False, p_nonce = units ''n'', p_cipher = units ''n''\<rparr>"

definition sample_bytes :: "byte list" where
  "sample_bytes = encode (join_lines (save_lines sample_payload))"

definition sample_changeset :: changeset where
  "sample_changeset = [(''f'', Put (no_fields\<lparr>e_color := JStr ''red''\<rparr>))]"

definition sample_env :: client_env where
  "sample_env = \<lparr>c_digest = (\<lambda>b. 100 # map ucast b), c_sig = (\<lambda>s. Some (map ucast s)),
     c_ed25519 = (\<lambda>k s b. Some (b = sample_bytes)),
     c_envelope = \<lparr>native_ok = True,
       native = \<lparr>seal = (\<lambda>k n a pt. pt), unseal = (\<lambda>k n a ct. Some (replicate 64 0))\<rparr>,
       noble = \<lparr>seal = (\<lambda>k n a pt. pt), unseal = (\<lambda>k n a ct. None)\<rparr>,
       to_b64 = (\<lambda>b. units ''n''), from_b64 = (\<lambda>s. Some (map ucast s)), gz = (\<lambda>b. b), ungz = (\<lambda>b. Done)\<rparr>,
     c_parse = (\<lambda>s. Some sample_changeset), keyframeInterval = 100\<rparr>"

definition sample_insert :: rev_insert where
  "sample_insert = \<lparr>i_tag = units ''k'', i_id = 100 # map ucast sample_bytes, i_base = None, i_keyframe = False,
     i_nonce = units ''n'', i_cipher = units ''n'', i_sig = units ''s''\<rparr>"

definition sample_row :: rev_row where
  "sample_row = new_row [] sample_insert"

definition fresh_session :: "ustr \<Rightarrow> byte list \<Rightarrow> byte list \<Rightarrow> session" where
  "fresh_session tag vk k = \<lparr>workspaceId = ''w'', workspaceTag = Some tag, signingKey = Some k, verifyingKey = Some vk,
     ids = [''f''], baseRevision = None, appliedRevisions = [], baseState = [], hasBase = False, savesSinceKeyframe = 0,
     localState = [], pending = None, pendingSave = False, key = Some k, encrypting = False, receiving = False,
     generation = 0, subscribed = False, subscribeAcked = False, resyncAttempted = False, staleResetAttempted = False,
     consecutiveFailures = 0, error = None, keyDerivationGen = 0, busyRetryTimer = False, waiters = 0\<rparr>"

lemma fresh_session_simps [simp]:
  "baseRevision (fresh_session tag vk k) = None" "baseState (fresh_session tag vk k) = []"
  "appliedRevisions (fresh_session tag vk k) = []" "savesSinceKeyframe (fresh_session tag vk k) = 0"
  "keys_are tag vk k (fresh_session tag vk k)"
  by (simp_all add: fresh_session_def keys_are_def)

lemma sample_fields:
  "small (p_key sample_payload)" "canonicalSavePayload sample_payload = Inr sample_bytes" "plain_payload sample_payload"
proof -
  have "\<forall>x \<in> set (save_lines sample_payload). small x"
    by (simp add: save_lines_def sample_payload_def) (simp add: units_def small_def)
  then show "canonicalSavePayload sample_payload = Inr sample_bytes"
    by (simp add: canonicalSavePayload_def sample_bytes_def small_encodes small_join)
qed (simp_all add: sample_payload_def plain_payload_def plain_def small_def units_def)

lemma sample_authentic: "authentic sample_env vk {sample_payload}"
proof -
  have undo: "map ucast (map ucast b :: unit16 list) = b" for b :: "byte list"
    by (simp add: comp_def ucast_up_ucast_id is_up)
  have "inj (c_digest sample_env)"
  proof (rule injI)
    fix x y assume "c_digest sample_env x = c_digest sample_env y"
    then have "(map ucast x :: unit16 list) = map ucast y" by (simp add: sample_env_def)
    then have "(map ucast (map ucast x :: unit16 list) :: byte list) = map ucast (map ucast y :: unit16 list)" by (rule arg_cong)
    then show "x = y" unfolding undo .
  qed
  moreover have "canonicalSavePayload p = Inr sample_bytes" if "verifySavePayload sample_env vk p sig" for p sig
    using that by (cases "canonicalSavePayload p") (auto simp: verifySavePayload_def sample_env_def)
  moreover have "c_digest sample_env b \<noteq> []" for b by (simp add: sample_env_def)
  ultimately show ?thesis using sample_fields(2,3) unfolding authentic_def by auto
qed

lemma sample_decrypts: "decryptRevision sample_env k sample_payload = Some sample_changeset"
proof -
  have "encodeUtf8 (Text (units ''k'' @ units ''|'')) = Inr (encode (units ''k'' @ units ''|''))"
    by (rule small_encodes) (simp add: small_def units_def)
  then show ?thesis
    by (simp add: decryptRevision_def buildAad_def sample_payload_def decryptJson_def sample_env_def pick_cipher_def
        unframeAndUngzip_def of_be32_def gunzipBytes_def decodeUtf8_def decode_def decode_all.simps)
qed

lemma sample_commits: "commits [sample_insert] = [sample_row]"
  by (simp add: commits_def commit_cases revisionExists_def headFor_def by_seq_def last_row_def sample_row_def sample_insert_def)

lemma sample_row_fields: "row_payload sample_row = sample_payload" "r_id sample_row = 100 # map ucast sample_bytes"
  "r_tag sample_row = units ''k''" "r_base sample_row = None" "r_keyframe sample_row = 0"
  by (simp_all add: sample_row_def row_payload_def sample_insert_def sample_payload_def)

lemma sample_interval: "keyframeInterval sample_env = 100"
  by (simp add: sample_env_def)

lemma sample_readable: "readable_row sample_env (units ''k'') vk k sample_row"
  using sample_fields(2) sample_decrypts
  by (simp add: readable_row_def sample_row_fields verifySavePayload_def computeRevisionId_def) (simp add: sample_env_def)

lemma sample_applies:
  assumes "keys_are (units ''k'') vk k s" "baseRevision s = None" "appliedRevisions s = []"
  shows "applyChainToBase sample_env [] (Some (row_wire sample_row) # revs) s =
    applyChainToBase sample_env [] revs (advance sample_env False (r_id sample_row) sample_changeset s)"
proof -
  have "continues s (row_wire sample_row)" using assms(2) by (simp add: continues_row sample_row_fields)
  moreover have "payload_of (units ''k'') (row_wire sample_row) = sample_payload" by (simp add: sample_row_fields)
  ultimately have "check_revision sample_env s (row_wire sample_row) = Apply False (r_id sample_row) sample_changeset"
    using sample_readable [of vk k] sample_decrypts [of k] assms(1)
    by (simp add: check_revision_def keys_are_def readable_row_def sample_row_fields Let_def)
      (simp add: row_wire_def sample_payload_def sample_row_fields)
  then show ?thesis using assms(2,3) by (simp add: known_row)
qed

theorem same_revision_same_base_witness:
  "\<exists>s' t'. s' = fst (applyChainToBase sample_env [] [Some (row_wire sample_row)] (fresh_session (units ''k'') [1] [2]))
    \<and> t' = fst (applyChainToBase sample_env [] [Some (row_wire sample_row)]
          (fst (applyChainToBase sample_env [] [None] (fresh_session (units ''k'') [1] [2]))))
    \<and> baseRevision s' = Some (r_id sample_row) \<and> baseState s' = baseState t'"
proof -
  let ?s = "fresh_session (units ''k'') [1] [2]"
  let ?f = "\<lambda>(known, revs) s. fst (applyChainToBase sample_env known revs s)"
  note r = same_revision_same_base [OF sample_authentic fresh_session_simps(5) fresh_session_simps(5)
      fresh_session_simps(1,2,1,2) refl refl, of "[([], [Some (row_wire sample_row)])]" _ _ _
      "[([], [None]), ([], [Some (row_wire sample_row)])]"]
  show ?thesis using r [of "units ''k''" "[1]" "[2]"]
    by (simp add: sample_applies [where vk = "[1]" and k = "[2]"] heals_next_def sample_interval del: applyChainToBase.simps(3))
qed

theorem catch_up_reaches_head_witness:
  "\<exists>s'. applyChainToBase sample_env [] (wired (chainFrom (commits [sample_insert]) (units ''k'') None))
      (fresh_session (units ''k'') [1] [2]) = (s', True)
    \<and> baseRevision s' = headFor (commits [sample_insert]) (units ''k'')"
proof -
  let ?s = "fresh_session (units ''k'') [1] [2]"
  have rows: "tag_rows (commits [sample_insert]) (units ''k'') = [sample_row]"
    by (simp add: sample_commits tag_rows_def sample_row_fields)
  have "chainFrom (commits [sample_insert]) (units ''k'') None = [sample_row]"
    by (simp add: chainFrom_catch_up [OF commits_ok] rows catch_up_def sample_row_fields)
  then have new: "\<forall>r \<in> set (chainFrom (commits [sample_insert]) (units ''k'') (baseRevision ?s)).
      \<not> known_revision [] ?s (row_wire r)"
    by (simp add: known_row)
  have "\<forall>r \<in> set (tag_rows (commits [sample_insert]) (units ''k'')). readable_row sample_env (units ''k'') [1] [2] r"
    unfolding rows using sample_readable by simp
  from catch_up_reaches_head [OF fresh_session_simps(5) this _ new] show ?thesis by simp
qed

end
