(* ===== verification/SyncStore.thy ===== *)
theory SyncStore
  imports SyncCrypto TriageEntry
begin

text \<open>
  What a sync session keeps across reloads (\<^verbatim>\<open>src/client/sync/triage-session-store.ts\<close>, with
  \<open>persistSession\<close>'s change and the reaction to a hydration of
  \<^verbatim>\<open>src/client/sync/triage-sync.ts\<close>): one entry per workspace in a versioned blob, changed under a
  lock, and the latch that tells the user when nothing is being kept. The blob is given parsed; a
  version that is no number counts as a number other than the current one.
\<close>

section \<open>The blob\<close>

record pentry =
  pe_url :: wval
  pe_base :: wval
  pe_state :: "tmap option"
  pe_hasBase :: wval
  pe_saves :: "nat option"

type_synonym pmap = "(string, pentry) jsmap"

definition SESSIONS_VERSION :: int where "SESSIONS_VERSION = 1"

text \<open>No text, or none that parses to an object; an object without a version; one with a version
  and, where they are an object, its sessions.\<close>

datatype blob = NoBlob | Bare pmap | Tagged int "pmap option"

datatype load_result = LoadedV1 pmap | LoadedLegacy pmap | LoadedEmpty | UnknownVersion

definition loadAllSessionsResult :: "blob \<Rightarrow> load_result" where
  "loadAllSessionsResult b = (case b of
       NoBlob \<Rightarrow> LoadedEmpty
     | Tagged v (Some m) \<Rightarrow> if v = SESSIONS_VERSION then LoadedV1 m else UnknownVersion
     | Tagged v None \<Rightarrow> if v = SESSIONS_VERSION then LoadedEmpty else UnknownVersion
     | Bare m \<Rightarrow> LoadedLegacy m)"

definition loadAllSessions :: "blob \<Rightarrow> pmap" where
  "loadAllSessions b = (case loadAllSessionsResult b of LoadedV1 m \<Rightarrow> m | LoadedLegacy m \<Rightarrow> m | _ \<Rightarrow> [])"

record restored_session =
  rs_base :: "ustr option"
  rs_hasBase :: bool
  rs_state :: tmap
  rs_saves :: nat

definition loadPersistedSession :: "blob \<Rightarrow> string \<Rightarrow> ustr \<Rightarrow> restored_session option" where
  "loadPersistedSession b w url =
     (if url = [] then None
      else case map_of (loadAllSessions b) w of
        None \<Rightarrow> None
      | Some e \<Rightarrow> if pe_url e \<noteq> WStr url then None
          else Some \<lparr>rs_base = wstr (pe_base e), rs_hasBase = (pe_hasBase e = WBool True),
             rs_state = (case pe_state e of Some m \<Rightarrow> m | None \<Rightarrow> []),
             rs_saves = (case pe_saves e of Some n \<Rightarrow> n | None \<Rightarrow> 0)\<rparr>)"

section \<open>The latch\<close>

text \<open>The state and the values its listeners were called with.\<close>

record latch =
  degraded :: bool
  announced :: "bool list"

definition setPersistenceDegraded :: "bool \<Rightarrow> latch \<Rightarrow> latch" where
  "setPersistenceDegraded b l = (if degraded l = b then l else l\<lparr>degraded := b, announced := announced l @ [b]\<rparr>)"

definition handleSecureStorageHydrated :: "blob \<Rightarrow> latch \<Rightarrow> latch" where
  "handleSecureStorageHydrated b l = (case loadAllSessionsResult b of
       UnknownVersion \<Rightarrow> setPersistenceDegraded True l
     | LoadedEmpty \<Rightarrow> l
     | _ \<Rightarrow> setPersistenceDegraded False l)"

section \<open>Changing the blob under the lock\<close>

text \<open>\<open>writes\<close>: whether the storage takes the write.\<close>

definition writeAllSessionsRaw :: "bool \<Rightarrow> pmap \<Rightarrow> blob \<Rightarrow> blob \<times> bool" where
  "writeAllSessionsRaw writes m b = (if writes then (Tagged SESSIONS_VERSION (Some m), True) else (b, False))"

text \<open>A mutator returns the changed map, or \<open>None\<close> for the \<open>false\<close> that skips the write.\<close>

definition mutateAllSessions :: "bool \<Rightarrow> (pmap \<Rightarrow> pmap option) \<Rightarrow> blob \<times> latch \<Rightarrow> blob \<times> latch" where
  "mutateAllSessions writes mutator s = (case s of (b, l) \<Rightarrow>
     if loadAllSessionsResult b = UnknownVersion then (b, setPersistenceDegraded True l)
     else case mutator (loadAllSessions b) of
       None \<Rightarrow> (b, l)
     | Some m \<Rightarrow> (case writeAllSessionsRaw writes m b of (b', wrote) \<Rightarrow> (b', setPersistenceDegraded (\<not> wrote) l)))"

definition is_stale :: "string list \<Rightarrow> ustr option \<Rightarrow> pmap \<Rightarrow> string \<Rightarrow> bool" where
  "is_stale live currentUrl all w = (w \<notin> set live
     \<or> (case currentUrl of None \<Rightarrow> False | Some url \<Rightarrow> map_option pe_url (map_of all w) \<noteq> Some (WStr url)))"

definition prunePersistedSessions :: "bool \<Rightarrow> string list \<Rightarrow> ustr option \<Rightarrow> blob \<times> latch \<Rightarrow> blob \<times> latch" where
  "prunePersistedSessions writes live currentUrl = mutateAllSessions writes (\<lambda>all.
     let doomed = filter (is_stale live currentUrl all) (map_keys all) in
     if doomed = [] then None else Some (fold map_del doomed all))"

definition dropPersistedSession :: "bool \<Rightarrow> string \<Rightarrow> blob \<times> latch \<Rightarrow> blob \<times> latch" where
  "dropPersistedSession writes w = mutateAllSessions writes (\<lambda>all. if map_has all w then Some (map_del w all) else None)"

text \<open>\<open>persistSession\<close>: the snapshot taken at the call, written if the session that took it is still the
  one for its workspace.\<close>

definition snapshot :: "ustr \<Rightarrow> ustr option \<Rightarrow> nat \<Rightarrow> tmap \<Rightarrow> bool \<Rightarrow> pentry" where
  "snapshot url base saves state hasBase = \<lparr>pe_url = WStr url, pe_base = (case base of None \<Rightarrow> WNull | Some i \<Rightarrow> WStr i),
     pe_state = Some state, pe_hasBase = (if base = None \<and> hasBase then WBool True else WAbsent), pe_saves = Some saves\<rparr>"

definition write_snapshot :: "bool \<Rightarrow> bool \<Rightarrow> string \<Rightarrow> pentry \<Rightarrow> blob \<times> latch \<Rightarrow> blob \<times> latch" where
  "write_snapshot writes current w e = mutateAllSessions writes (\<lambda>all. if current then Some (map_set w e all) else None)"

section \<open>Lemmas\<close>

lemma loadAll_simps [simp]:
  "loadAllSessions (Tagged SESSIONS_VERSION (Some m)) = m" "loadAllSessions NoBlob = []" "loadAllSessions (Bare m) = m"
  by (simp_all add: loadAllSessions_def loadAllSessionsResult_def)

lemma mutateAll_cases:
  "mutateAllSessions writes f (b, l) =
    (if loadAllSessionsResult b = UnknownVersion then (b, setPersistenceDegraded True l)
     else case f (loadAllSessions b) of None \<Rightarrow> (b, l)
       | Some m \<Rightarrow> if writes then (Tagged SESSIONS_VERSION (Some m), setPersistenceDegraded False l)
                  else (b, setPersistenceDegraded True l))"
  by (simp add: mutateAllSessions_def writeAllSessionsRaw_def split: option.splits)

lemma degraded_set [simp]: "degraded (setPersistenceDegraded b l) = b"
  by (simp add: setPersistenceDegraded_def)

lemma map_of_fold_del: "map_of (fold map_del ks m) w = (if w \<in> set ks then None else map_of m w)"
  by (induction ks arbitrary: m) auto

section \<open>Properties\<close>

text \<open>A blob a newer build wrote is left as it is by every change, and the user is told that nothing is
  kept; what another workspace keeps survives every change but a prune of it.\<close>

theorem store_frames:
  "(loadAllSessionsResult b = UnknownVersion \<longrightarrow>
      mutateAllSessions writes f (b, l) = (b, setPersistenceDegraded True l)
      \<and> degraded (handleSecureStorageHydrated b l))
    \<and> (w' \<noteq> w \<longrightarrow> loadPersistedSession (fst (write_snapshot writes current w e (b, l))) w' url = loadPersistedSession b w' url
      \<and> loadPersistedSession (fst (dropPersistedSession writes w (b, l))) w' url = loadPersistedSession b w' url)
    \<and> (w' \<in> set kept \<and> (\<forall>u. currentUrl = Some u \<longrightarrow> u = url) \<longrightarrow>
      loadPersistedSession (fst (prunePersistedSessions writes kept currentUrl (b, l))) w' url = loadPersistedSession b w' url)"
proof (intro conjI impI)
  assume "w' \<noteq> w"
  then show "loadPersistedSession (fst (write_snapshot writes current w e (b, l))) w' url = loadPersistedSession b w' url"
    "loadPersistedSession (fst (dropPersistedSession writes w (b, l))) w' url = loadPersistedSession b w' url"
    by (auto simp: write_snapshot_def dropPersistedSession_def mutateAll_cases loadPersistedSession_def)
next
  assume *: "w' \<in> set kept \<and> (\<forall>u. currentUrl = Some u \<longrightarrow> u = url)"
  show "loadPersistedSession (fst (prunePersistedSessions writes kept currentUrl (b, l))) w' url = loadPersistedSession b w' url"
  proof (cases "map_of (loadAllSessions b) w'")
    case None
    then show ?thesis
      by (auto simp: prunePersistedSessions_def mutateAll_cases loadPersistedSession_def Let_def map_of_fold_del)
  next
    case (Some x)
    then show ?thesis using *
      by (auto simp: prunePersistedSessions_def mutateAll_cases loadPersistedSession_def Let_def map_of_fold_del is_stale_def
          split: option.splits)
  qed
qed (simp_all add: mutateAll_cases handleSecureStorageHydrated_def)

text \<open>C31: what a session writes is what the next one restores from the same server, and nothing from another:
  its revision, its base and the count to the next keyframe, and that it has a base where it has no revision.
  After a drop nothing is restored.\<close>

theorem store_roundtrip:
  assumes "loadAllSessionsResult b \<noteq> UnknownVersion" "url \<noteq> []"
    and "(b', l') = write_snapshot True True w (snapshot url base saves state hasBase) (b, l)"
  shows "loadPersistedSession b' w url = Some \<lparr>rs_base = base, rs_hasBase = (base = None \<and> hasBase), rs_state = state, rs_saves = saves\<rparr>
    \<and> (url' \<noteq> url \<longrightarrow> loadPersistedSession b' w url' = None) \<and> \<not> degraded l'
    \<and> loadPersistedSession (fst (dropPersistedSession True w (b', l'))) w url = None
    \<and> (\<forall>live. w \<notin> set live \<longrightarrow> loadPersistedSession (fst (prunePersistedSessions True live None (b', l'))) w url = None)"
proof -
  have b: "b' = Tagged SESSIONS_VERSION (Some (map_set w (snapshot url base saves state hasBase) (loadAllSessions b)))"
      "l' = setPersistenceDegraded False l"
    using assms(1,3) by (simp_all add: write_snapshot_def mutateAll_cases)
  have kind: "loadAllSessionsResult b' \<noteq> UnknownVersion" by (simp add: b loadAllSessionsResult_def)
  have all: "loadAllSessions b' = map_set w (snapshot url base saves state hasBase) (loadAllSessions b)" by (simp add: b)
  have entry: "map_of (loadAllSessions b') w = Some (snapshot url base saves state hasBase)" by (simp add: all)
  have mem: "w \<in> fst ` set (loadAllSessions b')" using entry by (metis map_of_eq_None_iff option.distinct(1))
  have drop: "loadPersistedSession (fst (dropPersistedSession True w (b', l'))) w url = None"
    using kind mem by (simp add: dropPersistedSession_def mutateAll_cases loadPersistedSession_def)
  have prune: "loadPersistedSession (fst (prunePersistedSessions True live None (b', l'))) w url = None" if "w \<notin> set live" for live
  proof -
    let ?doomed = "filter (is_stale live None (loadAllSessions b')) (map_keys (loadAllSessions b'))"
    have in_doomed: "w \<in> set ?doomed" using that mem by (simp add: is_stale_def)
    then have "?doomed \<noteq> []" by (metis list.set(1) empty_iff)
    with kind in_doomed show ?thesis
      by (simp add: prunePersistedSessions_def mutateAll_cases loadPersistedSession_def Let_def map_of_fold_del del: set_filter)
  qed
  show ?thesis using assms(2) entry drop prune
    by (simp add: loadPersistedSession_def b(2)) (cases base; simp add: snapshot_def)
qed

theorem store_roundtrip_witness:
  "\<exists>b' l'. (b', l') = write_snapshot True True ''w'' (snapshot (units ''u'') None 100 [] True)
      (Bare [(''v'', snapshot (units ''x'') None 0 [] False)], \<lparr>degraded = True, announced = []\<rparr>)
    \<and> loadPersistedSession b' ''w'' (units ''u'') = Some \<lparr>rs_base = None, rs_hasBase = True, rs_state = [], rs_saves = 100\<rparr>
    \<and> \<not> degraded l'"
proof -
  obtain b' l' where run: "(b', l') = write_snapshot True True ''w'' (snapshot (units ''u'') None 100 [] True)
      (Bare [(''v'', snapshot (units ''x'') None 0 [] False)], \<lparr>degraded = True, announced = []\<rparr>)"
    by (metis surj_pair)
  have "loadAllSessionsResult (Bare [(''v'', snapshot (units ''x'') None 0 [] False)]) \<noteq> UnknownVersion" "units ''u'' \<noteq> []"
    by (simp_all add: loadAllSessionsResult_def units_def)
  from store_roundtrip [OF this run] run show ?thesis by auto
qed

theorem store_frames_witness:
  "mutateAllSessions True (\<lambda>m. Some []) (Tagged 2 None, \<lparr>degraded = False, announced = []\<rparr>)
    = (Tagged 2 None, \<lparr>degraded = True, announced = [True]\<rparr>)"
  using store_frames [of "Tagged 2 None" True "\<lambda>m. Some []" "\<lparr>degraded = False, announced = []\<rparr>"]
  by (simp add: loadAllSessionsResult_def SESSIONS_VERSION_def setPersistenceDegraded_def)

end
