(* ===== verification/SyncSession.thy ===== *)
theory SyncSession
  imports SyncChain SyncStore TriageProjection
begin

text \<open>
  One sync session of one tab as a machine of events (\<^verbatim>\<open>src/client/sync/triage-sync.ts\<close>): the sends, the
  handlers of every frame, the lifecycle of the connection and the switches. The code runs to its next
  \<open>await\<close> in one step; what waits there (an encryption, a signature, the crypto of a chain, a dialog, a
  save of the triage map) is kept as a task with what it captured, and finishes in any order. The live triage map
  and the workspace's findings change under it at any time, by the user and by the sessions of other
  workspaces. Frames are whatever a relay sends: an HTTP answer is fed in as the frames it stands for. A session that is
  closed and opened again starts over (\<open>Reopen\<close>); the keys are those of one identity throughout. Left out are
  the status shown to the user, the probe of a proxy, redrawing, and the waiters of the object store but for their number.
\<close>

section \<open>State\<close>

record platform =
  penv :: client_env
  stringify :: "changeset \<Rightarrow> ustr"
  sign :: "byte list \<Rightarrow> byte list \<Rightarrow> ustr"
  has_resolver :: bool

text \<open>The keys derived for the workspace.\<close>

record identity =
  id_tag :: ustr
  id_verifying :: "byte list"
  id_signing :: "byte list"
  id_key :: "byte list"

record enc_task =
  e_gen :: nat
  e_tag :: ustr
  e_base :: "ustr option"
  e_changeset :: changeset
  e_keyframe :: bool
  e_key :: "byte list"
  e_signing :: "byte list"

record sub_task =
  u_gen :: nat
  u_tag :: ustr
  u_from :: "ustr option"
  u_socket :: nat
  u_nonce :: ustr
  u_signing :: "byte list"

datatype outgoing = SendSave save_payload ustr | SendSubscribe ustr "ustr option" ustr

text \<open>A handler at its \<open>await\<close>: the crypto of a chain, the dialog of its conflicts, and the saves of the triage
  map after a chain and after an acknowledgement. Each holds the generation and the tag it started under.\<close>

record chain_start =
  k_gen :: nat
  k_tag :: "ustr option"
  k_oldBase :: tmap
  k_pending :: "pending_save option"
  k_before :: "ustr option"
  k_candidate :: session
  k_ok :: bool

datatype waiting =
  ChainCrypto chain_start
| ChainDialog chain_start tmap "string list" "conflict list"
| ChainSaved nat "ustr option" bool
| AckSaved nat

record sync =
  sess :: session
  live :: tmap
  scope :: "string list"
  userEnabled :: bool
  forcedOff :: bool
  hasWorkspaces :: bool
  socket :: "nat option"
  challenge :: "ustr option"
  serverUrl :: ustr
  inbox :: "(frame \<times> nat) list"
  handler :: "waiting option"
  encs :: "enc_task list"
  subs :: "sub_task list"
  dialogs :: "(nat \<times> conflict list) list"
  persists :: "(nat \<times> ustr \<times> pentry) list"
  disk :: blob
  degradation :: latch
  outbox :: "outgoing list"

abbreviation on_sess :: "(session \<Rightarrow> session) \<Rightarrow> sync \<Rightarrow> sync" where
  "on_sess f y \<equiv> y\<lparr>sess := f (sess y)\<rparr>"

definition isActive :: "sync \<Rightarrow> bool" where
  "isActive y = (userEnabled y \<and> \<not> forcedOff y \<and> serverUrl y \<noteq> [] \<and> hasWorkspaces y)"

definition maxConsecutiveFailures :: nat where "maxConsecutiveFailures = 5"

section \<open>Ids, overlay and persistence\<close>

definition refreshSessionIds :: "sync \<Rightarrow> sync \<times> conflict list \<times> bool" where
  "refreshSessionIds y =
     (let newIds = scope y; newlyAdded = filter (\<lambda>i. i \<notin> set (ids (sess y))) newIds;
          (live', conflicts) = (if newlyAdded = [] then (live y, [])
            else hydrateStateFromBaseState (baseState (sess y)) (live y) newlyAdded)
      in (y\<lparr>live := live', sess := (sess y)\<lparr>ids := newIds\<rparr>\<rparr>, conflicts, newlyAdded \<noteq> []))"

definition read_local :: "sync \<Rightarrow> sync" where
  "read_local y = on_sess (\<lambda>s. s\<lparr>localState := effectiveLocalState (baseState s) (live y) (ids s)\<rparr>) y"

text \<open>\<open>captureOverlay\<close>, up to the changeset it returns.\<close>

definition captureOverlay :: "sync \<Rightarrow> sync" where
  "captureOverlay y = read_local (fst (refreshSessionIds y))"

definition session_entry :: "ustr \<Rightarrow> session \<Rightarrow> pentry" where
  "session_entry url s = snapshot url (baseRevision s) (savesSinceKeyframe s) (baseState s) (hasBase s)"

definition persistSession :: "sync \<Rightarrow> sync" where
  "persistSession y = (if serverUrl y = [] then y
     else y\<lparr>persists := persists y @ [(generation (sess y), serverUrl y, session_entry (serverUrl y) (sess y))]\<rparr>)"

section \<open>Sending\<close>

definition trySendSubscribe :: "bool \<Rightarrow> sync \<Rightarrow> sync" where
  "trySendSubscribe force y =
     (if \<not> isActive y then y
      else case (socket y, challenge y, signingKey (sess y), workspaceTag (sess y)) of
        (Some k, Some nonce, Some sk, Some tag) \<Rightarrow>
          (if \<not> force \<and> subscribed (sess y) then y
           else y\<lparr>subs := subs y @ [\<lparr>u_gen = generation (sess y), u_tag = tag, u_from = baseRevision (sess y),
              u_socket = k, u_nonce = nonce, u_signing = sk\<rparr>]\<rparr>)
      | _ \<Rightarrow> y)"

definition trySendSave :: "client_env \<Rightarrow> sync \<Rightarrow> sync" where
  "trySendSave env y =
     (if \<not> isActive y then y
      else if error (sess y) \<noteq> None then y
      else if pending (sess y) \<noteq> None \<or> encrypting (sess y) \<or> receiving (sess y)
        then on_sess (\<lambda>s. s\<lparr>pendingSave := True\<rparr>) y
      else case (key (sess y), signingKey (sess y), workspaceTag (sess y)) of
        (Some k, Some sk, Some tag) \<Rightarrow>
          (let y1 = captureOverlay y; s = sess y1;
               isKeyframe = (savesSinceKeyframe s \<ge> keyframeInterval env);
               changeset = computeChangeset (if isKeyframe then [] else baseState s) (localState s)
           in if socket y = None then y1
              else if changesetEmpty changeset \<and> \<not> isKeyframe then y1
              else y1\<lparr>sess := s\<lparr>encrypting := True\<rparr>,
                encs := encs y1 @ [\<lparr>e_gen = generation s, e_tag = tag, e_base = baseRevision s,
                  e_changeset = changeset, e_keyframe = isKeyframe, e_key = k, e_signing = sk\<rparr>]\<rparr>)
      | _ \<Rightarrow> on_sess (\<lambda>s. s\<lparr>pendingSave := True\<rparr>) y)"

text \<open>\<open>session.pendingSave = false; trySendSave(session)\<close>.\<close>

definition flush :: "client_env \<Rightarrow> sync \<Rightarrow> sync" where
  "flush env y = trySendSave env (on_sess (\<lambda>s. s\<lparr>pendingSave := False\<rparr>) y)"

text \<open>The payload of a task, with the nonce drawn; \<open>None\<close> where a step of the crypto throws.\<close>

definition seal_save :: "platform \<Rightarrow> enc_task \<Rightarrow> byte list \<Rightarrow> (save_payload \<times> ustr \<times> ustr) option" where
  "seal_save pf t nonce = (case buildAad (e_tag t) (e_base t) of Inl _ \<Rightarrow> None
     | Inr aad \<Rightarrow> (case encryptJson (c_envelope (penv pf)) (stringify pf) nonce (e_key t) (e_changeset t) aad of Inl _ \<Rightarrow> None
       | Inr (n, ct) \<Rightarrow> (let p = \<lparr>p_key = e_tag t, p_base = e_base t, p_keyframe = e_keyframe t, p_nonce = n, p_cipher = ct\<rparr> in
         (case canonicalSavePayload p of Inl _ \<Rightarrow> None
           | Inr bytes \<Rightarrow> Some (p, sign pf (e_signing t) bytes, c_digest (penv pf) bytes)))))"

text \<open>The \<open>finally\<close> of the encryption.\<close>

definition enc_finally :: "client_env \<Rightarrow> enc_task \<Rightarrow> sync \<Rightarrow> sync" where
  "enc_finally env t y =
     (if generation (sess y) \<noteq> e_gen t then y
      else let y1 = on_sess (\<lambda>s. s\<lparr>encrypting := False\<rparr>) y; s = sess y1 in
        if error s = None \<and> pendingSave s \<and> pending s = None \<and> \<not> receiving s then flush env y1 else y1)"

definition enc_failed :: "enc_task \<Rightarrow> sync \<Rightarrow> sync" where
  "enc_failed t y = (if generation (sess y) \<noteq> e_gen t then y
     else on_sess (\<lambda>s. s\<lparr>consecutiveFailures := consecutiveFailures s + 1,
       error := (if consecutiveFailures s + 1 \<ge> maxConsecutiveFailures then Some ''encrypt/sign failed'' else error s)\<rparr>) y)"

definition enc_sealed :: "enc_task \<Rightarrow> save_payload \<Rightarrow> ustr \<Rightarrow> ustr \<Rightarrow> sync \<Rightarrow> sync" where
  "enc_sealed t p sig i y =
     (if generation (sess y) \<noteq> e_gen t \<or> workspaceTag (sess y) \<noteq> Some (e_tag t) then y
      else if baseRevision (sess y) \<noteq> e_base t \<or> receiving (sess y)
        then on_sess (\<lambda>s. s\<lparr>pendingSave := True\<rparr>) y
      else y\<lparr>sess := (sess y)\<lparr>
          pending := Some \<lparr>ps_base = e_base t, ps_id = i, ps_changeset = e_changeset t, ps_keyframe = e_keyframe t\<rparr>,
          pendingSave := False, consecutiveFailures := 0, error := None\<rparr>,
        outbox := outbox y @ [SendSave p sig]\<rparr>)"

definition enc_done :: "platform \<Rightarrow> enc_task \<Rightarrow> byte list option \<Rightarrow> sync \<Rightarrow> sync" where
  "enc_done pf t nonce y = enc_finally (penv pf) t (case Option.bind nonce (seal_save pf t) of
       None \<Rightarrow> enc_failed t y
     | Some (p, sig, i) \<Rightarrow> enc_sealed t p sig i y)"

definition sub_done :: "platform \<Rightarrow> sub_task \<Rightarrow> sync \<Rightarrow> sync" where
  "sub_done pf t y =
     (if generation (sess y) \<noteq> u_gen t \<or> workspaceTag (sess y) \<noteq> Some (u_tag t)
        \<or> socket y \<noteq> Some (u_socket t) \<or> challenge y \<noteq> Some (u_nonce t) then y
      else case canonicalSubscribePayload (u_tag t) (u_from t) (u_nonce t) of Inl _ \<Rightarrow> y
        | Inr bytes \<Rightarrow> y\<lparr>sess := (sess y)\<lparr>subscribed := True\<rparr>,
            outbox := outbox y @ [SendSubscribe (u_tag t) (u_from t) (sign pf (u_signing t) bytes)]\<rparr>)"

section \<open>Handling frames\<close>

text \<open>\<open>applyOverlayAndPersist\<close> up to its \<open>await saveTriage()\<close>.\<close>

definition applyOverlayAndPersist ::
    "changeset \<Rightarrow> conflict list \<Rightarrow> (string, string) jsmap option \<Rightarrow> sync \<Rightarrow> sync" where
  "applyOverlayAndPersist overlay conflicts decisions y =
     (let y1 = on_sess (\<lambda>s. s\<lparr>localState := applyChangeset (baseState s) overlay\<rparr>) y;
          y2 = y1\<lparr>live := applyToReactiveState (localState (sess y1)) (live y1) (ids (sess y1))\<rparr>;
          y3 = (case decisions of Some d \<Rightarrow>
                 if conflicts \<noteq> [] then read_local (y2\<lparr>live := applyHydrationDecisions
                     (filter (\<lambda>c. c_id c \<in> set (ids (sess y2))) conflicts) d (live y2)\<rparr>) else y2
               | None \<Rightarrow> y2)
      in persistSession y3)"

definition handleAck :: "client_env \<Rightarrow> wval \<Rightarrow> wval \<Rightarrow> sync \<Rightarrow> sync" where
  "handleAck env base i y = (case pending (sess y) of
       Some p \<Rightarrow>
         if base = wopt (ps_base p) \<and> i = WStr (ps_id p) then
           (let y1 = captureOverlay y;
                local = localState (sess y1);
                y2 = on_sess (\<lambda>s. s\<lparr>
                  baseState := applyChangeset (if ps_keyframe p then [] else baseState s) (ps_changeset p),
                  baseRevision := Some (ps_id p), hasBase := True,
                  appliedRevisions := set_add (appliedRevisions s) (ps_id p),
                  savesSinceKeyframe := (if ps_keyframe p then 0
                    else min (savesSinceKeyframe s + 1) (keyframeInterval env)),
                  pending := None, staleResetAttempted := False\<rparr>) y1
            in (applyOverlayAndPersist (computeChangeset (baseState (sess y2)) local) [] None y2)
                 \<lparr>handler := Some (AckSaved (generation (sess y2)))\<rparr>)
         else y
     | None \<Rightarrow>
         if i \<noteq> wopt (baseRevision (sess y)) then trySendSave env (on_sess (\<lambda>s. s\<lparr>pendingSave := True\<rparr>) y)
         else y)"

definition ack_saved :: "client_env \<Rightarrow> nat \<Rightarrow> sync \<Rightarrow> sync" where
  "ack_saved env gen y =
     (if generation (sess y) \<noteq> gen then y
      else let y1 = read_local y; s = sess y1 in
        if pendingSave s \<or> \<not> statesEqual (localState s) (baseState s) then flush env y1 else y1)"

definition handleChain :: "client_env \<Rightarrow> wire_chain \<Rightarrow> sync \<Rightarrow> sync" where
  "handleChain env revisions y = (case revisions of
       None \<Rightarrow> y
     | Some revs \<Rightarrow>
       if key (sess y) = None then y
       else if revs = [] then
         (if resyncAttempted (sess y) then
            (let y1 = on_sess (\<lambda>s. s\<lparr>resyncAttempted := False\<rparr>) y in
             if pending (sess y) = None then flush env y1 else y1)
          else y)
       else
         (let y1 = captureOverlay (on_sess (\<lambda>s. s\<lparr>receiving := True\<rparr>) y);
              s = sess y1;
              (cand, ok) = applyChainToBase env (appliedRevisions s) revs (s\<lparr>appliedRevisions := []\<rparr>)
          in y1\<lparr>handler := Some (ChainCrypto \<lparr>k_gen = generation s, k_tag = workspaceTag s,
               k_oldBase = baseState s, k_pending = pending s, k_before = baseRevision s,
               k_candidate = cand, k_ok = ok\<rparr>)\<rparr>))"

definition is_current :: "nat \<Rightarrow> ustr option \<Rightarrow> sync \<Rightarrow> bool" where
  "is_current gen tag y = (generation (sess y) = gen \<and> workspaceTag (sess y) = tag)"

text \<open>The \<open>finally\<close> of a chain.\<close>

definition chain_finally :: "client_env \<Rightarrow> nat \<Rightarrow> ustr option \<Rightarrow> sync \<Rightarrow> sync" where
  "chain_finally env gen tag y =
     (if \<not> is_current gen tag y then y
      else let y1 = on_sess (\<lambda>s. s\<lparr>receiving := False\<rparr>) y; s = sess y1 in
        if pendingSave s \<and> pending s = None \<and> error s = None then flush env y1 else y1)"

text \<open>What follows the apply: a second try for a broken chain, then the push of the whole state.\<close>

definition chain_tail :: "client_env \<Rightarrow> bool \<Rightarrow> sync \<Rightarrow> sync" where
  "chain_tail env ok y =
     (if \<not> ok then
        (let y1 = on_sess (\<lambda>s. s\<lparr>pendingSave := False\<rparr>) y in
         if \<not> resyncAttempted (sess y1) then trySendSubscribe True (on_sess (\<lambda>s. s\<lparr>resyncAttempted := True\<rparr>) y1)
         else persistSession (on_sess (\<lambda>s. s\<lparr>baseRevision := None, appliedRevisions := [],
                savesSinceKeyframe := keyframeInterval env, pending := None, resyncAttempted := False,
                pendingSave := True\<rparr>) y1))
      else on_sess (\<lambda>s. s\<lparr>resyncAttempted := False, staleResetAttempted := False,
             pendingSave := (pendingSave s \<or> \<not> statesEqual (localState s) (baseState s))\<rparr>) y)"

definition own_echo :: "chain_start \<Rightarrow> bool" where
  "own_echo k = (k_pending k \<noteq> None \<and> pending (k_candidate k) = None)"

definition overlay_base :: "chain_start \<Rightarrow> tmap" where
  "overlay_base k = (case k_pending k of
     Some p \<Rightarrow> if pending (k_candidate k) = None
       then applyChangeset (if ps_keyframe p then [] else k_oldBase k) (ps_changeset p) else k_oldBase k
   | None \<Rightarrow> k_oldBase k)"

definition preserved_ids :: "chain_start \<Rightarrow> tmap \<Rightarrow> session \<Rightarrow> string list" where
  "preserved_ids k overlayBase s = (if k_before k = None \<and> \<not> own_echo k
     then js_set (map_keys overlayBase @ (if hasBase s then ids s else [])) else [])"

text \<open>After the dialog, or where none is needed: the merge with what the user has by now.\<close>

definition chain_merge ::
    "chain_start \<Rightarrow> tmap \<Rightarrow> string list \<Rightarrow> conflict list \<Rightarrow> (string, string) jsmap option \<Rightarrow> sync \<Rightarrow> sync" where
  "chain_merge k overlayBase preserve conflicts decisions y =
     (let y1 = captureOverlay y;
          cand = k_candidate k;
          merged = rebaseLocalState overlayBase (localState (sess y1)) (baseState cand) preserve;
          y2 = on_sess (\<lambda>s. s\<lparr>baseRevision := baseRevision cand, hasBase := True,
            appliedRevisions := foldl set_add (appliedRevisions s) (appliedRevisions cand),
            baseState := baseState cand, savesSinceKeyframe := savesSinceKeyframe cand,
            pendingSave := (pendingSave s \<or> pending s \<noteq> None), pending := None\<rparr>) y1
      in (applyOverlayAndPersist (computeChangeset (baseState cand) merged) conflicts decisions y2)
           \<lparr>handler := Some (ChainSaved (k_gen k) (k_tag k) (k_ok k))\<rparr>)"

definition chain_verified :: "platform \<Rightarrow> chain_start \<Rightarrow> sync \<Rightarrow> sync" where
  "chain_verified pf k y =
     (let env = penv pf; cand = k_candidate k in
      if \<not> is_current (k_gen k) (k_tag k) y then y
      else if baseRevision cand \<noteq> k_before k then
        (let overlayBase = overlay_base k;
             y1 = captureOverlay y; s = sess y1;
             preserve = preserved_ids k overlayBase s;
             overlay = fold (\<lambda>i. map_set i (case map_of (localState s) i of Some e \<Rightarrow> Put e | None \<Rightarrow> Null)) preserve
               (computeChangeset overlayBase (localState s));
             conflicts = filter (\<lambda>c. c_id c \<in> set (ids s))
               (collectChainConflicts overlay overlayBase (baseState cand) preserve)
         in if conflicts \<noteq> [] \<and> has_resolver pf
            then y1\<lparr>handler := Some (ChainDialog k overlayBase preserve conflicts)\<rparr>
            else chain_merge k overlayBase preserve conflicts None y1)
      else chain_finally env (k_gen k) (k_tag k) (chain_tail env (k_ok k)
        (on_sess (\<lambda>s. s\<lparr>savesSinceKeyframe := savesSinceKeyframe cand\<rparr>) y)))"

definition chain_saved :: "client_env \<Rightarrow> nat \<Rightarrow> ustr option \<Rightarrow> bool \<Rightarrow> sync \<Rightarrow> sync" where
  "chain_saved env gen tag ok y =
     (if \<not> is_current gen tag y then y
      else chain_finally env gen tag (chain_tail env ok (read_local y)))"

text \<open>\<open>SAVE_ERROR_REASON_RE\<close> and its fallback.\<close>

definition save_error_reason :: "wval \<Rightarrow> ustr" where
  "save_error_reason v = (case v of WStr r \<Rightarrow> if r \<noteq> [] \<and> length r \<le> 64 \<and> list_all tag_char r then r else units ''rejected''
     | _ \<Rightarrow> units ''rejected'')"

definition matches_pending :: "wval \<Rightarrow> session \<Rightarrow> bool" where
  "matches_pending base s = (case pending s of None \<Rightarrow> False | Some p \<Rightarrow> base = wopt (ps_base p))"

definition handleSaveError :: "client_env \<Rightarrow> wval \<Rightarrow> wval \<Rightarrow> sync \<Rightarrow> sync" where
  "handleSaveError env base reason y =
     (if \<not> matches_pending base (sess y) then y
      else let r = save_error_reason reason; y1 = on_sess (\<lambda>s. s\<lparr>pending := None\<rparr>) y in
        if r \<in> set (map units RECOVERABLE_SAVE_ERROR_REASONS)
          then on_sess (\<lambda>s. s\<lparr>pendingSave := True, busyRetryTimer := True\<rparr>) y1
        else if r = units ''stale-base'' \<and> \<not> staleResetAttempted (sess y1) then
          trySendSave env (persistSession (on_sess (\<lambda>s. s\<lparr>staleResetAttempted := True, baseRevision := None,
            appliedRevisions := [], savesSinceKeyframe := keyframeInterval env, pendingSave := False,
            resyncAttempted := False\<rparr>) y1))
        else on_sess (\<lambda>s. s\<lparr>consecutiveFailures := consecutiveFailures s + 1,
               error := Some ''server rejected save''\<rparr>) y1)"

definition handleUnauthorizedForSave :: "wval \<Rightarrow> sync \<Rightarrow> sync" where
  "handleUnauthorizedForSave base y =
     (if matches_pending base (sess y) then on_sess (\<lambda>s. s\<lparr>pending := None, pendingSave := True\<rparr>) y else y)"

definition tag_is :: "wval \<Rightarrow> session \<Rightarrow> bool" where
  "tag_is v s = (case workspaceTag s of None \<Rightarrow> False | Some t \<Rightarrow> v = WStr t)"

definition handleMessage :: "client_env \<Rightarrow> frame \<Rightarrow> sync \<Rightarrow> sync" where
  "handleMessage env f y = (case f of
       Authenticated \<Rightarrow> trySendSave env (trySendSubscribe False y)
     | Unauthorized kind tag base resource \<Rightarrow>
         if kind = WStr (units ''gated'') \<and> tag_is tag (sess y) \<and> wstr resource = None
         then handleUnauthorizedForSave base y else y
     | SaveAck tag base i \<Rightarrow> if tag_is tag (sess y) then handleAck env base i y else y
     | StateFrame tag revs \<Rightarrow> if tag_is tag (sess y) then handleChain env revs y else y
     | SaveError tag base reason \<Rightarrow> if tag_is tag (sess y) then handleSaveError env base reason y else y
     | Subscribed tag usable \<Rightarrow> if tag_is tag (sess y) then on_sess (\<lambda>s. s\<lparr>subscribeAcked := True,
           waiters := (if usable then 0 else waiters s)\<rparr>) y else y
     | OtherFrame \<Rightarrow> y)"

section \<open>Switches and the connection\<close>

definition deactivateSession :: "session \<Rightarrow> session" where
  "deactivateSession s = s\<lparr>generation := generation s + 1, receiving := False, pending := None, pendingSave := False,
     encrypting := False, subscribed := False, subscribeAcked := False, resyncAttempted := False,
     staleResetAttempted := False, busyRetryTimer := False\<rparr>"

text \<open>\<open>kickKeyDerivation\<close>: what it starts finishes as an event carrying the new number.\<close>

definition kickKeyDerivation :: "session \<Rightarrow> session" where
  "kickKeyDerivation s = s\<lparr>keyDerivationGen := keyDerivationGen s + 1\<rparr>"

definition clearSessionErrorForRetry :: "session \<Rightarrow> session" where
  "clearSessionErrorForRetry s =
     (let s1 = s\<lparr>error := None, consecutiveFailures := 0\<rparr> in
      if error s \<noteq> None \<and> (key s = None \<or> signingKey s = None) then kickKeyDerivation s1 else s1)"

text \<open>\<open>transportGeneration++\<close> with a new queue: frames received before are dropped, and a handler
  that waits belongs to a generation that is gone.\<close>

definition new_queue :: "sync \<Rightarrow> sync" where
  "new_queue y = y\<lparr>inbox := [], handler := None\<rparr>"

definition onTransportConnected :: "client_env \<Rightarrow> nat \<Rightarrow> ustr \<Rightarrow> sync \<Rightarrow> sync" where
  "onTransportConnected env n nonce y =
     trySendSave env (trySendSubscribe False (on_sess (\<lambda>s. s\<lparr>pending := None, pendingSave := False\<rparr>)
       (y\<lparr>socket := Some n, challenge := Some nonce\<rparr>)))"

definition onTransportDisconnected :: "sync \<Rightarrow> sync" where
  "onTransportDisconnected y = on_sess (\<lambda>s. s\<lparr>generation := generation s + 1, encrypting := False, receiving := False,
     pending := None, subscribed := False, subscribeAcked := False, resyncAttempted := False,
     staleResetAttempted := False, pendingSave := True, busyRetryTimer := False\<rparr>)
     (new_queue y\<lparr>socket := None, challenge := None\<rparr>)"

text \<open>What both switches do once they are set.\<close>

definition switched :: "sync \<Rightarrow> sync" where
  "switched y = (if isActive y then on_sess clearSessionErrorForRetry y else on_sess deactivateSession (new_queue y))"

definition setEnabled :: "bool \<Rightarrow> sync \<Rightarrow> sync" where
  "setEnabled next y = (if next = userEnabled y then y else switched (y\<lparr>userEnabled := next\<rparr>))"

definition setForcedOff :: "bool \<Rightarrow> sync \<Rightarrow> sync" where
  "setForcedOff next y = (if next = forcedOff y then y else switched (y\<lparr>forcedOff := next\<rparr>))"

definition restored_at :: "string \<Rightarrow> blob \<Rightarrow> ustr \<Rightarrow> restored_session" where
  "restored_at w b url = (case loadPersistedSession b w url of Some r \<Rightarrow> r
     | None \<Rightarrow> \<lparr>rs_base = None, rs_hasBase = False, rs_state = [], rs_saves = 0\<rparr>)"

definition restore :: "restored_session \<Rightarrow> session \<Rightarrow> session" where
  "restore r s = s\<lparr>baseRevision := rs_base r, appliedRevisions := [], baseState := rs_state r,
     hasBase := (rs_hasBase r \<or> rs_base r \<noteq> None \<or> rs_state r \<noteq> []), savesSinceKeyframe := rs_saves r\<rparr>"

definition setServerUrl :: "ustr \<Rightarrow> sync \<Rightarrow> sync" where
  "setServerUrl next y =
     (if next = serverUrl y then y
      else on_sess clearSessionErrorForRetry (read_local (on_sess
        (\<lambda>s. restore (restored_at (workspaceId s) (disk y) next) (deactivateSession s))
        (new_queue y\<lparr>serverUrl := next\<rparr>))))"

definition dismissError :: "client_env \<Rightarrow> sync \<Rightarrow> sync" where
  "dismissError env y =
     (if error (sess y) = None then y
      else let y1 = on_sess (\<lambda>s. s\<lparr>error := None, consecutiveFailures := 0\<rparr>) y in
        if key (sess y) = None \<or> signingKey (sess y) = None then on_sess kickKeyDerivation y1
        else if socket y \<noteq> None then trySendSave env (trySendSubscribe False y1) else y1)"

definition keys_derived :: "client_env \<Rightarrow> identity \<Rightarrow> nat \<Rightarrow> sync \<Rightarrow> sync" where
  "keys_derived env who gen y =
     (if keyDerivationGen (sess y) \<noteq> gen then y
      else let y1 = on_sess (\<lambda>s. s\<lparr>key := Some (id_key who), signingKey := Some (id_signing who),
             verifyingKey := Some (id_verifying who), workspaceTag := Some (id_tag who)\<rparr>) y in
        if socket y = None then y1 else trySendSave env (trySendSubscribe False y1))"

definition keys_failed :: "nat \<Rightarrow> sync \<Rightarrow> sync" where
  "keys_failed gen y = (if keyDerivationGen (sess y) \<noteq> gen then y
     else on_sess (\<lambda>s. s\<lparr>error := Some ''key derivation failed''\<rparr>) y)"

text \<open>The workspace's key was replaced: the session is disarmed until it is opened anew.\<close>

definition key_rotated :: "sync \<Rightarrow> sync" where
  "key_rotated y = on_sess (\<lambda>s. (deactivateSession (s\<lparr>signingKey := None, key := None, verifyingKey := None,
     workspaceTag := None\<rparr>))\<lparr>keyDerivationGen := keyDerivationGen s + 1\<rparr>) y"

definition busy_retry :: "client_env \<Rightarrow> sync \<Rightarrow> sync" where
  "busy_retry env y =
     (if \<not> busyRetryTimer (sess y) then y
      else let y1 = on_sess (\<lambda>s. s\<lparr>busyRetryTimer := False\<rparr>) y; s = sess y1 in
        if error s \<noteq> None \<or> pending s \<noteq> None \<or> \<not> pendingSave s then y1 else flush env y1)"

text \<open>\<open>closeSession\<close> and \<open>openSession\<close>: what waited for the old session object finds it gone.\<close>

definition openSession :: "string \<Rightarrow> sync \<Rightarrow> sync" where
  "openSession w y =
     (let r = restored_at w (disk y) (serverUrl y);
          live' = fst (hydrateStateFromBaseState (rs_state r) (live y) (scope y));
          s = \<lparr>workspaceId = w, workspaceTag = None, signingKey = None, verifyingKey = None, ids = scope y,
             baseRevision = rs_base r, appliedRevisions = [], baseState = rs_state r,
             hasBase = (rs_hasBase r \<or> rs_base r \<noteq> None \<or> rs_state r \<noteq> []), savesSinceKeyframe = rs_saves r,
             localState = effectiveLocalState (rs_state r) live' (scope y), pending = None, pendingSave = False,
             key = None, encrypting = False, receiving = False, generation = 0, subscribed = False,
             subscribeAcked = False, resyncAttempted = False, staleResetAttempted = False, consecutiveFailures = 0,
             error = None, keyDerivationGen = 1, busyRetryTimer = False, waiters = 0\<rparr>
      in y\<lparr>sess := s, live := live', inbox := [], handler := None, encs := [], subs := [], dialogs := [], persists := []\<rparr>)"

definition refreshAndPropagate :: "platform \<Rightarrow> sync \<Rightarrow> sync" where
  "refreshAndPropagate pf y = (case refreshSessionIds y of (y1, conflicts, hydrated) \<Rightarrow>
     if conflicts = [] then (if hydrated then y1 else trySendSave (penv pf) y1)
     else if has_resolver pf then y1\<lparr>dialogs := dialogs y1 @ [(generation (sess y1), conflicts)]\<rparr> else y1)"

definition attach_decided :: "nat \<times> conflict list \<Rightarrow> (string, string) jsmap option \<Rightarrow> sync \<Rightarrow> sync" where
  "attach_decided d decisions y =
     (if generation (sess y) \<noteq> fst d then y
      else case decisions of None \<Rightarrow> y
        | Some ds \<Rightarrow> y\<lparr>live := applyHydrationDecisions (filter (\<lambda>c. c_id c \<in> set (ids (sess y))) (snd d)) ds (live y)\<rparr>)"

text \<open>The lock comes round: the snapshot is written if its session, generation and server are still the ones.\<close>

definition persist_run :: "nat \<times> ustr \<times> pentry \<Rightarrow> bool \<Rightarrow> sync \<Rightarrow> sync" where
  "persist_run q writes y = (case q of (gen, url, e) \<Rightarrow>
     (case write_snapshot writes (generation (sess y) = gen \<and> serverUrl y = url) (workspaceId (sess y)) e
         (disk y, degradation y) of
       (b, l) \<Rightarrow> y\<lparr>disk := b, degradation := l\<rparr>))"

section \<open>Events\<close>

datatype event =
  EditLive tmap | SetScope "string list" | Notify | Refresh
| EncDone nat "byte list option" | SubDone nat
| Receive frame | NextFrame | Resume "(string, string) jsmap option"
| AttachDone nat "(string, string) jsmap option" | PersistRun nat bool
| Connected nat ustr | Disconnected | BusyTimer
| SetEnabled bool | SetForcedOff bool | WorkspacesLeft bool | SetServerUrl ustr | DismissError
| KeysDerived nat | KeysFailed nat | KeyRotated | Reopen
| PruneRun bool "string list" "ustr option" | DropRun bool

definition nth_option :: "'a list \<Rightarrow> nat \<Rightarrow> 'a option" where
  "nth_option xs n = (if n < length xs then Some (xs ! n) else None)"

definition drop_nth :: "nat \<Rightarrow> 'a list \<Rightarrow> 'a list" where
  "drop_nth n xs = take n xs @ drop (Suc n) xs"

definition receive :: "frame \<Rightarrow> sync \<Rightarrow> sync" where
  "receive f y = (if f = Authenticated \<or> (case f of Unauthorized _ t _ _ \<Rightarrow> tag_is t (sess y)
       | SaveAck t _ _ \<Rightarrow> tag_is t (sess y) | StateFrame t _ \<Rightarrow> tag_is t (sess y)
       | SaveError t _ _ \<Rightarrow> tag_is t (sess y) | Subscribed t _ \<Rightarrow> tag_is t (sess y) | _ \<Rightarrow> False)
     then y\<lparr>inbox := inbox y @ [(f, generation (sess y))]\<rparr> else y)"

definition next_frame :: "client_env \<Rightarrow> sync \<Rightarrow> sync" where
  "next_frame env y = (case (handler y, inbox y) of
       (None, (f, gen) # rest) \<Rightarrow>
         (let y1 = y\<lparr>inbox := rest\<rparr> in
          if f \<noteq> Authenticated \<and> generation (sess y1) \<noteq> gen then y1 else handleMessage env f y1)
     | _ \<Rightarrow> y)"

definition resume :: "platform \<Rightarrow> (string, string) jsmap option \<Rightarrow> sync \<Rightarrow> sync" where
  "resume pf decisions y = (let y1 = y\<lparr>handler := None\<rparr> in case handler y of
       None \<Rightarrow> y
     | Some (ChainCrypto k) \<Rightarrow> chain_verified pf k y1
     | Some (ChainDialog k b p cs) \<Rightarrow> if is_current (k_gen k) (k_tag k) y1 then chain_merge k b p cs decisions y1 else y1
     | Some (ChainSaved gen tag ok) \<Rightarrow> chain_saved (penv pf) gen tag ok y1
     | Some (AckSaved gen) \<Rightarrow> ack_saved (penv pf) gen y1)"

fun step :: "platform \<Rightarrow> identity \<Rightarrow> event \<Rightarrow> sync \<Rightarrow> sync" where
  "step pf who (EditLive m) y = y\<lparr>live := m\<rparr>"
| "step pf who (SetScope xs) y = y\<lparr>scope := xs\<rparr>"
| "step pf who Notify y = trySendSave (penv pf) y"
| "step pf who Refresh y = refreshAndPropagate pf y"
| "step pf who (EncDone n nonce) y = (case nth_option (encs y) n of None \<Rightarrow> y
     | Some t \<Rightarrow> enc_done pf t nonce (y\<lparr>encs := drop_nth n (encs y)\<rparr>))"
| "step pf who (SubDone n) y = (case nth_option (subs y) n of None \<Rightarrow> y
     | Some t \<Rightarrow> sub_done pf t (y\<lparr>subs := drop_nth n (subs y)\<rparr>))"
| "step pf who (Receive f) y = receive f y"
| "step pf who NextFrame y = next_frame (penv pf) y"
| "step pf who (Resume d) y = resume pf d y"
| "step pf who (AttachDone n d) y = (case nth_option (dialogs y) n of None \<Rightarrow> y
     | Some q \<Rightarrow> attach_decided q d (y\<lparr>dialogs := drop_nth n (dialogs y)\<rparr>))"
| "step pf who (PersistRun n writes) y = (case nth_option (persists y) n of None \<Rightarrow> y
     | Some q \<Rightarrow> persist_run q writes (y\<lparr>persists := drop_nth n (persists y)\<rparr>))"
| "step pf who (Connected n nonce) y = (if isActive y \<and> socket y = None then onTransportConnected (penv pf) n nonce y else y)"
| "step pf who Disconnected y = onTransportDisconnected y"
| "step pf who BusyTimer y = busy_retry (penv pf) y"
| "step pf who (SetEnabled b) y = setEnabled b y"
| "step pf who (SetForcedOff b) y = setForcedOff b y"
| "step pf who (WorkspacesLeft b) y = y\<lparr>hasWorkspaces := b\<rparr>"
| "step pf who (SetServerUrl u) y = setServerUrl u y"
| "step pf who DismissError y = dismissError (penv pf) y"
| "step pf who (KeysDerived gen) y = keys_derived (penv pf) who gen y"
| "step pf who (KeysFailed gen) y = keys_failed gen y"
| "step pf who KeyRotated y = key_rotated y"
| "step pf who Reopen y = openSession (workspaceId (sess y)) y"
| "step pf who (PruneRun writes open_ids url) y = (case prunePersistedSessions writes open_ids url (disk y, degradation y) of
     (b, l) \<Rightarrow> y\<lparr>disk := b, degradation := l\<rparr>)"
| "step pf who (DropRun writes) y = (case dropPersistedSession writes (workspaceId (sess y)) (disk y, degradation y) of
     (b, l) \<Rightarrow> y\<lparr>disk := b, degradation := l\<rparr>)"

definition run :: "platform \<Rightarrow> identity \<Rightarrow> event list \<Rightarrow> sync \<Rightarrow> sync" where
  "run pf who evs y = fold (step pf who) evs y"

section \<open>Tabs over one storage\<close>

text \<open>The tabs of one browser: each has its own session, and all share the secure storage. A world starts with tabs that
  opened the workspace where the storage held no session of it, each with whatever triage and findings it had.\<close>

record world =
  tabs :: "sync list"
  shared :: blob

definition gstep :: "platform \<Rightarrow> identity \<Rightarrow> nat \<times> event \<Rightarrow> world \<Rightarrow> world" where
  "gstep pf who q g = (case q of (i, ev) \<Rightarrow>
     if i < length (tabs g)
     then let y = step pf who ev ((tabs g ! i)\<lparr>disk := shared g\<rparr>) in g\<lparr>tabs := (tabs g)[i := y], shared := disk y\<rparr>
     else g)"

definition grun :: "platform \<Rightarrow> identity \<Rightarrow> (nat \<times> event) list \<Rightarrow> world \<Rightarrow> world" where
  "grun pf who evs g = fold (gstep pf who) evs g"

definition opened :: "string \<Rightarrow> world \<Rightarrow> bool" where
  "opened w g = (map_of (loadAllSessions (shared g)) w = None
     \<and> (\<forall>y \<in> set (tabs g). \<exists>z. y = openSession w (z\<lparr>disk := shared g\<rparr>)))"

end
