(* ===== verification/SyncSound.thy ===== *)
theory SyncSound
  imports SyncSession
begin

text \<open>
  The invariant of \<^verbatim>\<open>SyncSession\<close>'s machine: in every state a tab can reach, its base is the state of its
  revision or the next save is a keyframe, its keys are the workspace's or missing, what it has in flight is a revision
  based on its base, what it stored or will store is as sound, and a chain at an \<open>await\<close> will put a sound base
  in place. One lemma per operation, each for the whole handler, then one for every event and every run.
\<close>

section \<open>What every step keeps\<close>

text \<open>The platform as a session needs it: what it seals for a task under the keys of the workspace verifies and
  reads back (a JSON text over the 64 MiB a reader takes would not), and no chain of digests runs in a circle.\<close>

definition reads_back :: "platform \<Rightarrow> identity \<Rightarrow> enc_task \<Rightarrow> bool" where
  "reads_back pf who t = (\<forall>nonce p sig i. seal_save pf t nonce = Some (p, sig, i) \<longrightarrow>
     verifySavePayload (penv pf) (id_verifying who) p sig \<and> decryptRevision (penv pf) (id_key who) p = Some (e_changeset t))"

definition acyclic_digest :: "client_env \<Rightarrow> bool" where
  "acyclic_digest env = (\<exists>rank :: ustr \<Rightarrow> nat. \<forall>p i b. computeRevisionId env p = Some i \<longrightarrow> p_base p = Some b \<longrightarrow> rank b < rank i)"

abbreviation state_of :: "platform \<Rightarrow> identity \<Rightarrow> ustr option \<Rightarrow> tmap \<Rightarrow> bool" where
  "state_of pf who \<equiv> replays (penv pf) (id_tag who) (id_verifying who) (id_key who)"

text \<open>The base is the state of its revision, or the next save is a keyframe.\<close>

definition sound :: "platform \<Rightarrow> identity \<Rightarrow> session \<Rightarrow> bool" where
  "sound pf who s = (state_of pf who (baseRevision s) (baseState s) \<or> heals_next (penv pf) s)"

definition keyed :: "identity \<Rightarrow> session \<Rightarrow> bool" where
  "keyed who s = (workspaceTag s \<in> {None, Some (id_tag who)} \<and> verifyingKey s \<in> {None, Some (id_verifying who)}
     \<and> signingKey s \<in> {None, Some (id_signing who)} \<and> key s \<in> {None, Some (id_key who)})"

text \<open>The save in flight is based on the base, and is a revision of the workspace.\<close>

definition flight_ok :: "platform \<Rightarrow> identity \<Rightarrow> session \<Rightarrow> bool" where
  "flight_ok pf who s = (\<forall>p. pending s = Some p \<longrightarrow> ps_base p = baseRevision s
     \<and> (\<exists>pl. revision_of (penv pf) (id_tag who) (id_verifying who) (id_key who) pl (ps_id p) (ps_changeset p)
          \<and> p_base pl = ps_base p \<and> p_keyframe pl = ps_keyframe p))"

definition task_ok :: "identity \<Rightarrow> enc_task \<Rightarrow> bool" where
  "task_ok who t = (e_tag t = id_tag who \<and> e_key t = id_key who \<and> e_signing t = id_signing who)"

definition entry_sound :: "platform \<Rightarrow> identity \<Rightarrow> pentry \<Rightarrow> bool" where
  "entry_sound pf who e = (state_of pf who (wstr (pe_base e)) (case pe_state e of Some m \<Rightarrow> m | None \<Rightarrow> [])
     \<or> (case pe_saves e of Some n \<Rightarrow> n | None \<Rightarrow> 0) \<ge> keyframeInterval (penv pf))"

definition disk_sound :: "platform \<Rightarrow> identity \<Rightarrow> string \<Rightarrow> blob \<Rightarrow> bool" where
  "disk_sound pf who w b = (\<forall>e. map_of (loadAllSessions b) w = Some e \<longrightarrow> entry_sound pf who e)"

text \<open>What a chain in its crypto or its dialog will put in place is as sound as the base it replaces.\<close>

definition handler_ok :: "platform \<Rightarrow> identity \<Rightarrow> sync \<Rightarrow> bool" where
  "handler_ok pf who y = (case handler y of
       Some (ChainCrypto k) \<Rightarrow> k_gen k \<le> generation (sess y) \<and> (k_gen k = generation (sess y) \<longrightarrow> sound pf who (k_candidate k)
         \<and> (baseRevision (k_candidate k) = k_before k \<longrightarrow>
              state_of pf who (baseRevision (sess y)) (baseState (sess y)) \<or> heals_next (penv pf) (k_candidate k)))
     | Some (ChainDialog k b p cs) \<Rightarrow> k_gen k \<le> generation (sess y)
         \<and> (k_gen k = generation (sess y) \<longrightarrow> sound pf who (k_candidate k))
     | _ \<Rightarrow> True)"

definition sess_ok :: "platform \<Rightarrow> identity \<Rightarrow> string \<Rightarrow> session \<Rightarrow> bool" where
  "sess_ok pf who w s = (workspaceId s = w \<and> sound pf who s \<and> keyed who s \<and> flight_ok pf who s)"

definition sync_ok :: "platform \<Rightarrow> identity \<Rightarrow> string \<Rightarrow> sync \<Rightarrow> bool" where
  "sync_ok pf who w y = (sess_ok pf who w (sess y) \<and> list_all (task_ok who) (encs y)
     \<and> list_all (\<lambda>(g, u, e). entry_sound pf who e) (persists y) \<and> disk_sound pf who w (disk y) \<and> handler_ok pf who y)"

text \<open>The part of a session these speak of.\<close>

definition core :: "session \<Rightarrow> _" where
  "core s = (workspaceId s, workspaceTag s, verifyingKey s, signingKey s, key s, baseRevision s, baseState s,
     savesSinceKeyframe s, pending s, generation s)"

definition keeps :: "identity \<Rightarrow> sync \<Rightarrow> sync \<Rightarrow> bool" where
  "keeps who y y' = (core (sess y') = core (sess y) \<and> handler y' = handler y \<and> disk y' = disk y \<and> persists y' = persists y
     \<and> (keyed who (sess y) \<longrightarrow> list_all (task_ok who) (encs y) \<longrightarrow> list_all (task_ok who) (encs y')))"

lemma core_eq:
  "core s = core t \<longleftrightarrow> workspaceId s = workspaceId t \<and> workspaceTag s = workspaceTag t \<and> verifyingKey s = verifyingKey t
    \<and> signingKey s = signingKey t \<and> key s = key t \<and> baseRevision s = baseRevision t \<and> baseState s = baseState t
    \<and> savesSinceKeyframe s = savesSinceKeyframe t \<and> pending s = pending t \<and> generation s = generation t"
  by (simp add: core_def)

lemma keeps_refl [simp]: "keeps who y y"
  by (simp add: keeps_def)

lemma keyed_core: "core s = core t \<Longrightarrow> keyed who s = keyed who t"
  by (simp add: core_eq keyed_def)

lemma keeps_trans: "keeps who x y \<Longrightarrow> keeps who y z \<Longrightarrow> keeps who x z"
  using keyed_core [of "sess y" "sess x" who] by (simp add: keeps_def)

lemma sess_ok_core: "core s = core t \<Longrightarrow> sess_ok pf who w s = sess_ok pf who w t"
  by (simp add: core_eq sess_ok_def sound_def keyed_def flight_ok_def heals_next_def)

lemma handler_ok_core:
  "core (sess y') = core (sess y) \<Longrightarrow> handler y' = handler y \<Longrightarrow> handler_ok pf who y' = handler_ok pf who y"
  by (simp add: core_eq handler_ok_def split: option.splits waiting.splits)

lemma keeps_ok: "keeps who y y' \<Longrightarrow> sync_ok pf who w y \<Longrightarrow> sync_ok pf who w y'"
  using sess_ok_core [of "sess y'" "sess y" pf who w] handler_ok_core [of y' y pf who]
  by (auto simp: keeps_def sync_ok_def sess_ok_def)

text \<open>Steps that touch none of it.\<close>

lemma keeps_sess: "(\<And>s. core (f s) = core s) \<Longrightarrow> keeps who y (on_sess f y)"
  by (simp add: keeps_def)

lemma keeps_read_local [simp]: "keeps who y (read_local y)"
  unfolding read_local_def by (rule keeps_sess) (simp add: core_def)

lemma keeps_refresh [simp]: "keeps who y (fst (refreshSessionIds y))"
  by (auto simp: refreshSessionIds_def keeps_def core_def Let_def split: prod.splits if_splits)

lemma keeps_capture [simp]: "keeps who y (captureOverlay y)"
  unfolding captureOverlay_def by (rule keeps_trans [OF keeps_refresh keeps_read_local])

lemma keeps_subscribe [simp]: "keeps who y (trySendSubscribe force y)"
  by (simp add: trySendSubscribe_def keeps_def split: option.splits)

lemma keeps_save [simp]: "keeps who y (trySendSave env y)"
proof -
  have flag: "keeps who y (on_sess (\<lambda>s. s\<lparr>pendingSave := True\<rparr>) y)" by (rule keeps_sess) (simp add: core_def)
  let ?z = "captureOverlay y"
  have c: "keeps who y ?z" by simp
  then have "core (sess ?z) = core (sess y)" by (simp add: keeps_def)
  have task: "keeps who y (?z\<lparr>sess := (sess ?z)\<lparr>encrypting := True\<rparr>, encs := encs ?z @ [t]\<rparr>)"
    if "keyed who (sess y) \<Longrightarrow> task_ok who t" for t
    using c that by (simp add: keeps_def core_def)
  show ?thesis
  proof (cases "\<exists>k sk tag. key (sess y) = Some k \<and> signingKey (sess y) = Some sk \<and> workspaceTag (sess y) = Some tag")
    case True
    then obtain k sk tag where k: "key (sess y) = Some k" "signingKey (sess y) = Some sk" "workspaceTag (sess y) = Some tag" by blast
    have "keyed who (sess y) \<Longrightarrow> task_ok who \<lparr>e_gen = g, e_tag = tag, e_base = b, e_changeset = cs, e_keyframe = kf, e_key = k, e_signing = sk\<rparr>"
      for g b cs kf using k by (simp add: keyed_def task_ok_def)
    then show ?thesis using flag c task by (simp add: trySendSave_def k Let_def)
  next
    case False
    then show ?thesis using flag by (auto simp: trySendSave_def split: option.splits)
  qed
qed

lemma keeps_flush [simp]: "keeps who y (flush env y)"
  unfolding flush_def by (rule keeps_trans [OF _ keeps_save]) (rule keeps_sess, simp add: core_def)

section \<open>The base stays sound\<close>

lemma entry_sound_session: "sound pf who s \<Longrightarrow> entry_sound pf who (session_entry url s)"
  by (auto simp: sound_def entry_sound_def session_entry_def snapshot_def heals_next_def split: option.splits)

lemma persist_ok: "sync_ok pf who w y \<Longrightarrow> sync_ok pf who w (persistSession y)"
  using entry_sound_session [of pf who "sess y" "serverUrl y"]
  by (auto simp: persistSession_def sync_ok_def sess_ok_def handler_ok_def split: option.splits waiting.splits)

lemma sess_change_ok:
  "sync_ok pf who w y \<Longrightarrow> handler y = None \<Longrightarrow> sess_ok pf who w s \<Longrightarrow> sync_ok pf who w (y\<lparr>sess := s\<rparr>)"
  by (simp add: sync_ok_def handler_ok_def)

lemma handler_waits_ok:
  "sync_ok pf who w y \<Longrightarrow> sync_ok pf who w (y\<lparr>handler := Some (AckSaved g)\<rparr>)"
  "sync_ok pf who w y \<Longrightarrow> sync_ok pf who w (y\<lparr>handler := Some (ChainSaved g t b)\<rparr>)"
  "sync_ok pf who w y \<Longrightarrow> sync_ok pf who w (y\<lparr>handler := None\<rparr>)"
  by (simp_all add: sync_ok_def handler_ok_def)

lemma keeps_apply: "\<exists>z. keeps who y z \<and> applyOverlayAndPersist overlay conflicts decisions y = persistSession z"
proof -
  let ?y1 = "on_sess (\<lambda>s. s\<lparr>localState := applyChangeset (baseState s) overlay\<rparr>) y"
  have 1: "keeps who y (?y1\<lparr>live := m\<rparr>)" for m by (simp add: keeps_def core_def)
  then have "keeps who y (read_local (?y1\<lparr>live := m\<rparr>))" for m by (rule keeps_trans [OF _ keeps_read_local])
  moreover have "(?y1\<lparr>live := m\<rparr>)\<lparr>live := n\<rparr> = ?y1\<lparr>live := n\<rparr>" for m n by simp
  ultimately show ?thesis using 1
    by (cases decisions; cases "conflicts = []") (auto simp: applyOverlayAndPersist_def Let_def)
qed

lemma apply_ok: "sync_ok pf who w y \<Longrightarrow> sync_ok pf who w (applyOverlayAndPersist overlay conflicts decisions y)"
  using keeps_apply [of who y overlay conflicts decisions] keeps_ok persist_ok by metis

lemma keeps_handler: "keeps who y z \<Longrightarrow> handler z = handler y"
  by (simp add: keeps_def)

lemma handler_capture [simp]: "handler (captureOverlay y) = handler y"
  using keeps_capture by (rule keeps_handler)

lemma capture_ok: "sync_ok pf who w y \<Longrightarrow> sync_ok pf who w (captureOverlay y)"
  by (rule keeps_ok [OF keeps_capture])

lemma core_capture: "core (sess (captureOverlay y)) = core (sess y)"
  using keeps_capture [of _ y] by (simp add: keeps_def)

text \<open>An acknowledged save moves the base to its revision.\<close>

lemma acked_sound:
  assumes "sess_ok pf who w s" "pending s = Some p"
    and "s' = s\<lparr>baseState := applyChangeset (if ps_keyframe p then [] else baseState s) (ps_changeset p),
      baseRevision := Some (ps_id p), hasBase := True, appliedRevisions := set_add (appliedRevisions s) (ps_id p),
      savesSinceKeyframe := (if ps_keyframe p then 0 else min (savesSinceKeyframe s + 1) (keyframeInterval (penv pf))),
      pending := None, staleResetAttempted := False\<rparr>"
  shows "sess_ok pf who w s'"
proof -
  obtain pl where pl: "revision_of (penv pf) (id_tag who) (id_verifying who) (id_key who) pl (ps_id p) (ps_changeset p)"
      "p_base pl = ps_base p" "p_keyframe pl = ps_keyframe p" "ps_base p = baseRevision s"
    using assms(1,2) by (auto simp: sess_ok_def flight_ok_def)
  have "sound pf who s'"
  proof (cases "ps_keyframe p")
    case True
    then show ?thesis using replays_full [OF pl(1)] pl(3) by (simp add: sound_def assms(3))
  next
    case False
    then show ?thesis using replays_delta [OF pl(1)] pl assms(1)
      by (auto simp: sound_def sess_ok_def heals_next_def assms(3))
  qed
  then show ?thesis using assms(1) by (simp add: sess_ok_def keyed_def flight_ok_def assms(3))
qed

lemma handleAck_ok:
  assumes "sync_ok pf who w y" "handler y = None"
  shows "sync_ok pf who w (handleAck (penv pf) base i y)"
proof (cases "pending (sess y)")
  case None
  have "keeps who y (on_sess (\<lambda>s. s\<lparr>pendingSave := True\<rparr>) y)" by (rule keeps_sess) (simp add: core_def)
  then have "sync_ok pf who w (trySendSave (penv pf) (on_sess (\<lambda>s. s\<lparr>pendingSave := True\<rparr>) y))"
    using assms(1) by (intro keeps_ok [OF keeps_save]) (rule keeps_ok)
  then show ?thesis using assms(1) None by (simp add: handleAck_def)
next
  case (Some p)
  let ?y1 = "captureOverlay y"
  have ok: "sync_ok pf who w ?y1" using assms(1) by (rule capture_ok)
  have "pending (sess ?y1) = Some p" using core_capture [of y] Some by (simp add: core_eq)
  then have sess: "sess_ok pf who w (sess ?y1\<lparr>
      baseState := applyChangeset (if ps_keyframe p then [] else baseState (sess ?y1)) (ps_changeset p),
      baseRevision := Some (ps_id p), hasBase := True, appliedRevisions := set_add (appliedRevisions (sess ?y1)) (ps_id p),
      savesSinceKeyframe := (if ps_keyframe p then 0
        else min (savesSinceKeyframe (sess ?y1) + 1) (keyframeInterval (penv pf))),
      pending := None, staleResetAttempted := False\<rparr>)"
    using ok unfolding sync_ok_def by (intro acked_sound [OF _ _ refl]) auto
  have "handler ?y1 = None" using assms(2) by simp
  note sess_change_ok [OF ok this sess, THEN apply_ok, THEN handler_waits_ok(1)]
  then show ?thesis using assms(1) by (simp add: handleAck_def Some Let_def)
qed

text \<open>Applying a chain under keys that may not be there yet, and what a chain that ends where it began did.\<close>

lemma chain_sound:
  assumes "sound pf who s" "keyed who s"
  shows "sound pf who (fst (applyChainToBase (penv pf) known revs s))"
  using assms
proof (induction "penv pf" known revs s rule: applyChainToBase.induct)
  case (3 known rv revs s)
  show ?case
  proof (cases "known_revision known s rv")
    case False
    show ?thesis
    proof (cases "check_revision (penv pf) s rv")
      case (Apply kf i cs)
      then have keys: "keys_are (id_tag who) (id_verifying who) (id_key who) s"
        using 3(4) by (auto simp: check_revision_def keys_are_def keyed_def split: if_splits option.splits)
      have "sound pf who (advance (penv pf) kf i cs s)"
        using exact_advance [OF Apply keys] 3(3) by (simp add: sound_def exact_base_def)
      moreover have "keyed who (advance (penv pf) kf i cs s)" using 3(4) by (simp add: keyed_def advance_def)
      ultimately show ?thesis using 3(2) False Apply by simp
    qed (use 3 False in \<open>auto simp: sound_def heals_next_def\<close>)
  qed (use 3 in simp)
qed simp_all

lemma Apply_rises:
  assumes "\<forall>p i b. computeRevisionId env p = Some i \<longrightarrow> p_base p = Some b \<longrightarrow> rank b < (rank i :: nat)"
    and "check_revision env s rv = Apply kf i cs" "baseRevision s = Some b"
  shows "rank b < rank i"
proof -
  obtain tag where "computeRevisionId env (payload_of tag rv) = wstr (w_id rv)" "continues s rv" "wstr (w_id rv) = Some i"
    using assms(2) by (auto simp: check_revision_def Let_def split: if_splits option.splits)
  moreover from this have "p_base (payload_of tag rv) = Some b" using assms(3) by (simp add: continues_def payload_of_def)
  ultimately show ?thesis using assms(1) by metis
qed

lemma chain_no_circle:
  assumes "\<forall>p i b. computeRevisionId env p = Some i \<longrightarrow> p_base p = Some b \<longrightarrow> rank b < (rank i :: nat)"
  shows "(baseRevision (fst (applyChainToBase env known revs s)) = baseRevision s
        \<and> (savesSinceKeyframe (fst (applyChainToBase env known revs s)) \<in> {savesSinceKeyframe s, keyframeInterval env}))
    \<or> (\<exists>i. baseRevision (fst (applyChainToBase env known revs s)) = Some i \<and> (\<forall>b. baseRevision s = Some b \<longrightarrow> rank b < rank i))"
  using assms
proof (induction env known revs s rule: applyChainToBase.induct)
  case (3 env known rv revs s)
  show ?case
  proof (cases "known_revision known s rv")
    case False
    show ?thesis
    proof (cases "check_revision env s rv")
      case (Apply kf i cs)
      have "\<forall>b. baseRevision s = Some b \<longrightarrow> rank b < rank i" using Apply_rises [OF 3(3) Apply] by blast
      moreover note 3(2) [OF False Apply 3(3)]
      ultimately show ?thesis using False Apply by (auto dest: less_trans)
    qed (use False in auto)
  qed (use 3 in simp)
qed simp_all

lemma handleChain_ok:
  assumes "sync_ok pf who w y" "handler y = None" "acyclic_digest (penv pf)"
  shows "sync_ok pf who w (handleChain (penv pf) revisions y)"
proof -
  have flag: "keeps who y (on_sess (\<lambda>s. s\<lparr>resyncAttempted := False\<rparr>) y)" "keeps who y (on_sess (\<lambda>s. s\<lparr>receiving := True\<rparr>) y)"
    by (rule keeps_sess, simp add: core_def)+
  have resync: "sync_ok pf who w (flush (penv pf) (on_sess (\<lambda>s. s\<lparr>resyncAttempted := False\<rparr>) y))"
      "sync_ok pf who w (on_sess (\<lambda>s. s\<lparr>resyncAttempted := False\<rparr>) y)"
    using assms(1) flag(1) keeps_ok keeps_trans keeps_flush by metis+
  let ?y1 = "captureOverlay (on_sess (\<lambda>s. s\<lparr>receiving := True\<rparr>) y)"
  have keep: "keeps who y ?y1" by (rule keeps_trans [OF flag(2)]) simp
  have ok: "sync_ok pf who w ?y1" using keep assms(1) by (rule keeps_ok)
  define s where "s = sess ?y1"
  let ?s0 = "s\<lparr>appliedRevisions := []\<rparr>"
  have sound: "sound pf who s" "keyed who s" using ok unfolding sync_ok_def sess_ok_def s_def by auto
  have start: "sync_ok pf who w (?y1\<lparr>handler := Some (ChainCrypto \<lparr>k_gen = generation s, k_tag = workspaceTag s,
      k_oldBase = baseState s, k_pending = pending s, k_before = baseRevision s, k_candidate = cand, k_ok = good\<rparr>)\<rparr>)"
    if c: "applyChainToBase (penv pf) known revs ?s0 = (cand, good)" for known revs cand good
  proof -
    have cand: "sound pf who cand"
      using chain_sound [of pf who ?s0 known revs] sound c by (simp add: sound_def keyed_def heals_next_def)
    obtain rank :: "ustr \<Rightarrow> nat" where rank: "\<forall>p i b. computeRevisionId (penv pf) p = Some i \<longrightarrow> p_base p = Some b \<longrightarrow> rank b < rank i"
      using assms(3) unfolding acyclic_digest_def by blast
    have "state_of pf who (baseRevision s) (baseState s) \<or> heals_next (penv pf) cand" if "baseRevision cand = baseRevision s"
    proof -
      have "savesSinceKeyframe cand \<in> {savesSinceKeyframe s, keyframeInterval (penv pf)}"
        using chain_no_circle [OF rank, of known revs ?s0] c that by fastforce
      then show ?thesis using sound(1) by (auto simp: sound_def heals_next_def)
    qed
    with cand ok show ?thesis by (simp add: sync_ok_def handler_ok_def s_def)
  qed
  show ?thesis using assms(1) resync start
    by (auto simp: handleChain_def Let_def s_def split: option.splits prod.splits)
qed

lemma keeps_chain_finally [simp]: "keeps who y (chain_finally env gen tag y)"
proof -
  have "keeps who y (on_sess (\<lambda>s. s\<lparr>receiving := False\<rparr>) y)" by (rule keeps_sess) (simp add: core_def)
  then show ?thesis by (auto simp: chain_finally_def Let_def intro: keeps_trans [OF _ keeps_flush])
qed

text \<open>A base that is given up is not exact, but the next save is a keyframe.\<close>

lemma reset_sess_ok:
  assumes "sess_ok pf who w s" "baseRevision s' = None" "savesSinceKeyframe s' = keyframeInterval (penv pf)"
    "pending s' = None" "workspaceId s' = workspaceId s" "keyed who s' = keyed who s"
  shows "sess_ok pf who w s'"
  using assms by (simp add: sess_ok_def sound_def heals_next_def flight_ok_def)

lemma chain_tail_ok:
  assumes "sync_ok pf who w y" "handler y = None"
  shows "sync_ok pf who w (chain_tail (penv pf) good y)"
proof -
  let ?y1 = "on_sess (\<lambda>s. s\<lparr>pendingSave := False\<rparr>) y"
  have "keeps who y (trySendSubscribe True (on_sess (\<lambda>s. s\<lparr>resyncAttempted := True\<rparr>) ?y1))"
    by (rule keeps_trans [OF _ keeps_subscribe]) (simp add: keeps_def core_def)
  then have first: "sync_ok pf who w (trySendSubscribe True (on_sess (\<lambda>s. s\<lparr>resyncAttempted := True\<rparr>) ?y1))"
    using assms(1) by (rule keeps_ok)
  have "keeps who y (on_sess (\<lambda>s. s\<lparr>resyncAttempted := False, staleResetAttempted := False,
      pendingSave := pendingSave s \<or> \<not> statesEqual (localState s) (baseState s)\<rparr>) y)"
    by (rule keeps_sess) (simp add: core_def)
  then have fine: "sync_ok pf who w (on_sess (\<lambda>s. s\<lparr>resyncAttempted := False, staleResetAttempted := False,
      pendingSave := pendingSave s \<or> \<not> statesEqual (localState s) (baseState s)\<rparr>) y)"
    using assms(1) by (rule keeps_ok)
  have "sess_ok pf who w (sess y)" using assms(1) by (simp add: sync_ok_def)
  then have "sess_ok pf who w (sess ?y1\<lparr>baseRevision := None, appliedRevisions := [],
      savesSinceKeyframe := keyframeInterval (penv pf), pending := None, resyncAttempted := False, pendingSave := True\<rparr>)"
    by (rule reset_sess_ok) (simp_all add: keyed_def)
  then have "sync_ok pf who w (persistSession (?y1\<lparr>sess := sess ?y1\<lparr>baseRevision := None, appliedRevisions := [],
      savesSinceKeyframe := keyframeInterval (penv pf), pending := None, resyncAttempted := False, pendingSave := True\<rparr>\<rparr>))"
    using sess_change_ok [OF assms] by (intro persist_ok) simp
  with first fine show ?thesis by (simp add: chain_tail_def Let_def)
qed

lemma chain_merge_ok:
  assumes "sync_ok pf who w y" "handler y = None" "sound pf who (k_candidate k)"
  shows "sync_ok pf who w (chain_merge k b preserve conflicts decisions y)"
proof -
  let ?y1 = "captureOverlay y"
  let ?c = "k_candidate k"
  have ok: "sync_ok pf who w ?y1" using assms(1) by (rule capture_ok)
  have "sess_ok pf who w (sess ?y1)" using ok by (simp add: sync_ok_def)
  then have "sess_ok pf who w (sess ?y1\<lparr>baseRevision := baseRevision ?c, hasBase := True,
      appliedRevisions := foldl set_add (appliedRevisions (sess ?y1)) (appliedRevisions ?c), baseState := baseState ?c,
      savesSinceKeyframe := savesSinceKeyframe ?c,
      pendingSave := (pendingSave (sess ?y1) \<or> pending (sess ?y1) \<noteq> None), pending := None\<rparr>)"
    using assms(3) by (simp add: sess_ok_def sound_def keyed_def flight_ok_def heals_next_def)
  from sess_change_ok [OF ok _ this, THEN apply_ok, THEN handler_waits_ok(2)] assms(2)
  show ?thesis by (simp add: chain_merge_def Let_def)
qed

lemma flight_cong: "pending s = pending t \<Longrightarrow> baseRevision s = baseRevision t \<Longrightarrow> flight_ok pf who s = flight_ok pf who t"
  by (simp add: flight_ok_def)

lemma chain_verified_ok:
  assumes "sync_ok pf who w y" "handler y = None" "sync_ok pf who w (y\<lparr>handler := Some (ChainCrypto k)\<rparr>)"
  shows "sync_ok pf who w (chain_verified pf k y)"
proof (cases "is_current (k_gen k) (k_tag k) y")
  case True
  then have cand: "sound pf who (k_candidate k)"
      and same: "baseRevision (k_candidate k) = k_before k \<Longrightarrow>
        state_of pf who (baseRevision (sess y)) (baseState (sess y)) \<or> heals_next (penv pf) (k_candidate k)"
    using assms(3) by (auto simp: sync_ok_def handler_ok_def is_current_def)
  let ?y1 = "captureOverlay y"
  have ok1: "sync_ok pf who w ?y1" "handler ?y1 = None" using assms(1,2) by (simp_all add: capture_ok)
  have merge: "sync_ok pf who w (chain_merge k b p cs d ?y1)" for b p cs d using ok1 cand by (rule chain_merge_ok)
  have "generation (sess ?y1) = k_gen k" using core_capture [of y] True by (simp add: core_eq is_current_def)
  then have dialog: "sync_ok pf who w (?y1\<lparr>handler := Some (ChainDialog k b p cs)\<rparr>)" for b p cs
    using ok1 cand by (simp add: sync_ok_def handler_ok_def)
  have sess: "sess_ok pf who w (sess y)" using assms(1) by (simp add: sync_ok_def)
  have idle: "sync_ok pf who w (chain_finally (penv pf) (k_gen k) (k_tag k) (chain_tail (penv pf) (k_ok k)
      (on_sess (\<lambda>s. s\<lparr>savesSinceKeyframe := savesSinceKeyframe (k_candidate k)\<rparr>) y)))"
    if "baseRevision (k_candidate k) = k_before k"
  proof -
    have "sess_ok pf who w (sess y\<lparr>savesSinceKeyframe := savesSinceKeyframe (k_candidate k)\<rparr>)"
      using same [OF that] sess flight_cong [of "sess y\<lparr>savesSinceKeyframe := savesSinceKeyframe (k_candidate k)\<rparr>" "sess y" pf who]
      by (simp add: sess_ok_def sound_def keyed_def heals_next_def)
    from sess_change_ok [OF assms(1,2) this] assms(2) show ?thesis
      by (intro keeps_ok [OF keeps_chain_finally] chain_tail_ok) simp_all
  qed
  show ?thesis using True merge dialog idle by (simp add: chain_verified_def Let_def)
qed (simp add: chain_verified_def assms(1))

lemma ack_saved_ok: "sync_ok pf who w y \<Longrightarrow> sync_ok pf who w (ack_saved (penv pf) gen y)"
  by (auto simp: ack_saved_def Let_def intro: keeps_ok [OF keeps_trans [OF keeps_read_local keeps_flush]] keeps_ok [OF keeps_read_local])

lemma chain_saved_ok:
  assumes "sync_ok pf who w y" "handler y = None"
  shows "sync_ok pf who w (chain_saved (penv pf) gen tag good y)"
proof -
  have "handler (read_local y) = None" using keeps_handler [OF keeps_read_local, of y] assms(2) by simp
  with keeps_ok [OF keeps_read_local assms(1)]
  have "sync_ok pf who w (chain_finally (penv pf) gen tag (chain_tail (penv pf) good (read_local y)))"
    by (intro keeps_ok [OF keeps_chain_finally] chain_tail_ok)
  then show ?thesis using assms(1) by (simp add: chain_saved_def)
qed

lemma resume_ok:
  assumes "sync_ok pf who w y"
  shows "sync_ok pf who w (resume pf d y)"
proof (cases "handler y")
  case (Some h)
  let ?y = "y\<lparr>handler := None\<rparr>"
  have ok: "sync_ok pf who w ?y" using assms by (rule handler_waits_ok(3))
  show ?thesis
  proof (cases h)
    case (ChainCrypto k)
    then have "y = ?y\<lparr>handler := Some (ChainCrypto k)\<rparr>" using Some by simp
    then have "sync_ok pf who w (chain_verified pf k ?y)" using ok assms by (intro chain_verified_ok) simp_all
    then show ?thesis by (simp add: resume_def Some ChainCrypto Let_def)
  next
    case (ChainDialog k b p cs)
    have "sound pf who (k_candidate k)" if "is_current (k_gen k) (k_tag k) ?y"
      using assms that by (simp add: sync_ok_def handler_ok_def Some ChainDialog is_current_def)
    then show ?thesis using ok chain_merge_ok [OF ok] by (simp add: resume_def Some ChainDialog Let_def)
  qed (use ok ack_saved_ok chain_saved_ok in \<open>simp_all add: resume_def Some Let_def\<close>)
qed (use assms in \<open>simp add: resume_def\<close>)

lemma sync_ok_change:
  assumes "sync_ok pf who w y" "sess_ok pf who w (sess z)" "handler z = handler y" "generation (sess z) = generation (sess y)"
    "baseRevision (sess z) = baseRevision (sess y)" "baseState (sess z) = baseState (sess y)"
    "list_all (task_ok who) (encs z)" "list_all (\<lambda>(g, u, e). entry_sound pf who e) (persists z)" "disk_sound pf who w (disk z)"
  shows "sync_ok pf who w z"
proof -
  have "handler_ok pf who z = handler_ok pf who y"
    using assms(3-6) by (simp add: handler_ok_def split: option.splits waiting.splits)
  then show ?thesis using assms by (simp add: sync_ok_def)
qed

lemma sync_okD:
  assumes "sync_ok pf who w y"
  shows "sess_ok pf who w (sess y)" "list_all (task_ok who) (encs y)" "list_all (\<lambda>(g, u, e). entry_sound pf who e) (persists y)"
    "disk_sound pf who w (disk y)"
  using assms by (simp_all add: sync_ok_def)

lemma handleSaveError_ok:
  assumes "sync_ok pf who w y" "handler y = None"
  shows "sync_ok pf who w (handleSaveError (penv pf) base reason y)"
proof -
  have sess: "sess_ok pf who w (sess y)" using assms(1) by (simp add: sync_ok_def)
  then have drop: "sess_ok pf who w (sess y\<lparr>pending := None\<rparr>)"
    by (simp add: sess_ok_def sound_def keyed_def flight_ok_def heals_next_def)
  have busy: "sync_ok pf who w (y\<lparr>sess := sess y\<lparr>pending := None, pendingSave := True, busyRetryTimer := True\<rparr>\<rparr>)"
      "sync_ok pf who w (y\<lparr>sess := sess y\<lparr>pending := None, consecutiveFailures := n, error := e\<rparr>\<rparr>)" for n e
    using drop by (intro sess_change_ok [OF assms], simp add: sess_ok_def sound_def keyed_def flight_ok_def heals_next_def)+
  have "sess_ok pf who w (sess y\<lparr>pending := None, staleResetAttempted := True, baseRevision := None,
      appliedRevisions := [], savesSinceKeyframe := keyframeInterval (penv pf), pendingSave := False, resyncAttempted := False\<rparr>)"
    using sess by (rule reset_sess_ok) (simp_all add: keyed_def)
  then have "sync_ok pf who w (trySendSave (penv pf) (persistSession (y\<lparr>sess := sess y\<lparr>pending := None, staleResetAttempted := True,
      baseRevision := None, appliedRevisions := [], savesSinceKeyframe := keyframeInterval (penv pf), pendingSave := False,
      resyncAttempted := False\<rparr>\<rparr>)))"
    by (intro keeps_ok [OF keeps_save] persist_ok sess_change_ok [OF assms])
  then show ?thesis using busy assms(1) by (simp add: handleSaveError_def Let_def)
qed

lemma clear_pending_ok:
  assumes "sync_ok pf who w y" "handler y = None"
  shows "sync_ok pf who w (y\<lparr>sess := sess y\<lparr>pending := None, pendingSave := b\<rparr>\<rparr>)"
proof -
  have "sess_ok pf who w (sess y\<lparr>pending := None, pendingSave := b\<rparr>)"
    using assms(1) by (simp add: sync_ok_def sess_ok_def sound_def keyed_def flight_ok_def heals_next_def)
  then show ?thesis by (rule sess_change_ok [OF assms])
qed

lemma handleMessage_ok:
  assumes "sync_ok pf who w y" "handler y = None" "acyclic_digest (penv pf)"
  shows "sync_ok pf who w (handleMessage (penv pf) f y)"
proof -
  have "keeps who y (trySendSave (penv pf) (trySendSubscribe False y))"
    by (rule keeps_trans [OF keeps_subscribe keeps_save])
  then have both: "sync_ok pf who w (trySendSave (penv pf) (trySendSubscribe False y))" using assms(1) by (rule keeps_ok)
  have "keeps who y (y\<lparr>sess := sess y\<lparr>subscribeAcked := True, waiters := 0\<rparr>\<rparr>)" by (simp add: keeps_def core_def)
  then have acked: "sync_ok pf who w (y\<lparr>sess := sess y\<lparr>subscribeAcked := True, waiters := 0\<rparr>\<rparr>)" using assms(1) by (rule keeps_ok)
  have "keeps who y (y\<lparr>sess := sess y\<lparr>subscribeAcked := True\<rparr>\<rparr>)" by (simp add: keeps_def core_def)
  then have "sync_ok pf who w (y\<lparr>sess := sess y\<lparr>subscribeAcked := True\<rparr>\<rparr>)" using assms(1) by (rule keeps_ok)
  then show ?thesis
    using assms both acked handleAck_ok [OF assms(1,2)] handleChain_ok [OF assms] handleSaveError_ok [OF assms(1,2)]
      clear_pending_ok [OF assms(1,2)]
    by (cases f) (simp_all add: handleMessage_def handleUnauthorizedForSave_def)
qed

lemma next_frame_ok:
  assumes "sync_ok pf who w y" "acyclic_digest (penv pf)"
  shows "sync_ok pf who w (next_frame (penv pf) y)"
proof -
  have "sync_ok pf who w (y\<lparr>inbox := q\<rparr>)" for q
    using sync_okD [OF assms(1)] by (intro sync_ok_change [OF assms(1)]) simp_all
  then show ?thesis using assms handleMessage_ok [of pf who w "y\<lparr>inbox := _\<rparr>"]
    by (auto simp: next_frame_def Let_def split: option.splits list.splits)
qed

text \<open>A sealed save is a revision of the workspace.\<close>

lemma sealed_revision:
  assumes "reads_back pf who t" "task_ok who t" "seal_save pf t nonce = Some (p, sig, i)"
  shows "revision_of (penv pf) (id_tag who) (id_verifying who) (id_key who) p i (e_changeset t)"
    "p_base p = e_base t" "p_keyframe p = e_keyframe t"
proof -
  have own: "verifySavePayload (penv pf) (id_verifying who) p sig" "decryptRevision (penv pf) (id_key who) p = Some (e_changeset t)"
    using assms(1,3) unfolding reads_back_def by blast+
  from assms(3) have "p_key p = e_tag t" "computeRevisionId (penv pf) p = Some i" "p_base p = e_base t" "p_keyframe p = e_keyframe t"
    by (auto simp: seal_save_def computeRevisionId_def Let_def split: sum.splits prod.splits)
  with own assms(2) show "revision_of (penv pf) (id_tag who) (id_verifying who) (id_key who) p i (e_changeset t)"
      "p_base p = e_base t" "p_keyframe p = e_keyframe t"
    by (auto simp: revision_of_def task_ok_def)
qed

lemma keeps_enc_finally [simp]: "keeps who y (enc_finally env t y)"
proof -
  have "keeps who y (on_sess (\<lambda>s. s\<lparr>encrypting := False\<rparr>) y)" by (rule keeps_sess) (simp add: core_def)
  then show ?thesis by (auto simp: enc_finally_def Let_def intro: keeps_trans [OF _ keeps_flush])
qed

lemma enc_sealed_ok:
  assumes "sync_ok pf who w y" "reads_back pf who t" "task_ok who t" "seal_save pf t nonce = Some (p, sig, i)"
  shows "sync_ok pf who w (enc_sealed t p sig i y)"
proof -
  note r = sealed_revision [OF assms(2-4)]
  have queue: "keeps who y (on_sess (\<lambda>s. s\<lparr>pendingSave := True\<rparr>) y)" by (rule keeps_sess) (simp add: core_def)
  let ?s = "sess y\<lparr>pending := Some \<lparr>ps_base = e_base t, ps_id = i, ps_changeset = e_changeset t, ps_keyframe = e_keyframe t\<rparr>,
    pendingSave := False, consecutiveFailures := 0, error := None\<rparr>"
  have "sess_ok pf who w ?s" if "baseRevision (sess y) = e_base t"
  proof -
    have "flight_ok pf who ?s" using r that by (auto simp: flight_ok_def)
    then show ?thesis using assms(1) by (simp add: sync_ok_def sess_ok_def sound_def keyed_def heals_next_def)
  qed
  then have "sync_ok pf who w (y\<lparr>sess := ?s, outbox := outbox y @ [SendSave p sig]\<rparr>)" if "baseRevision (sess y) = e_base t"
    using sync_okD [OF assms(1)] that by (intro sync_ok_change [OF assms(1)]) simp_all
  then show ?thesis using assms(1) keeps_ok [OF queue] by (simp add: enc_sealed_def)
qed

lemma enc_done_ok:
  assumes "sync_ok pf who w y" "reads_back pf who t" "task_ok who t"
  shows "sync_ok pf who w (enc_done pf t nonce y)"
proof -
  have "keeps who y (enc_failed t y)" by (simp add: enc_failed_def keeps_def core_def)
  then have "sync_ok pf who w (enc_failed t y)" using assms(1) by (rule keeps_ok)
  then have "sync_ok pf who w (case Option.bind nonce (seal_save pf t) of None \<Rightarrow> enc_failed t y
      | Some (p, sig, i) \<Rightarrow> enc_sealed t p sig i y)"
    using enc_sealed_ok [OF assms] by (cases nonce) (auto split: option.splits)
  then show ?thesis unfolding enc_done_def by (rule keeps_ok [OF keeps_enc_finally])
qed

text \<open>The switches and the connection.\<close>

lemma deactivate_ok: "sess_ok pf who w s \<Longrightarrow> sess_ok pf who w (deactivateSession s)"
  by (simp add: sess_ok_def sound_def keyed_def flight_ok_def heals_next_def deactivateSession_def)

lemma core_clear_error [simp]: "core (clearSessionErrorForRetry s) = core s"
  by (simp add: clearSessionErrorForRetry_def kickKeyDerivation_def core_def Let_def)

lemma onTransportConnected_ok:
  assumes "sync_ok pf who w y"
  shows "sync_ok pf who w (onTransportConnected (penv pf) n nonce y)"
proof -
  have "sess_ok pf who w (sess y\<lparr>pending := None, pendingSave := False\<rparr>)"
    using sync_okD(1) [OF assms] by (simp add: sess_ok_def sound_def keyed_def flight_ok_def heals_next_def)
  then have "sync_ok pf who w (y\<lparr>socket := Some n, challenge := Some nonce, sess := sess y\<lparr>pending := None, pendingSave := False\<rparr>\<rparr>)"
    using sync_okD [OF assms] by (intro sync_ok_change [OF assms]) simp_all
  then show ?thesis unfolding onTransportConnected_def
    by (intro keeps_ok [OF keeps_trans [OF keeps_subscribe keeps_save]]) simp
qed

lemma onTransportDisconnected_ok:
  assumes "sync_ok pf who w y"
  shows "sync_ok pf who w (onTransportDisconnected y)"
proof -
  have "sess_ok pf who w (sess y\<lparr>generation := generation (sess y) + 1, encrypting := False, receiving := False,
     pending := None, subscribed := False, subscribeAcked := False, resyncAttempted := False,
     staleResetAttempted := False, pendingSave := True, busyRetryTimer := False\<rparr>)"
    using sync_okD(1) [OF assms] by (simp add: sess_ok_def sound_def keyed_def flight_ok_def heals_next_def)
  with sync_okD [OF assms] show ?thesis by (simp add: onTransportDisconnected_def new_queue_def sync_ok_def handler_ok_def)
qed

lemma switched_ok:
  assumes "sync_ok pf who w y"
  shows "sync_ok pf who w (switched y)"
proof -
  have "keeps who y (on_sess clearSessionErrorForRetry y)" by (simp add: keeps_def)
  then have "sync_ok pf who w (on_sess clearSessionErrorForRetry y)" using assms by (rule keeps_ok)
  moreover have "sync_ok pf who w (on_sess deactivateSession (new_queue y))"
    using deactivate_ok [OF sync_okD(1) [OF assms]] sync_okD [OF assms] by (simp add: new_queue_def sync_ok_def handler_ok_def)
  ultimately show ?thesis by (simp add: switched_def)
qed

lemma setEnabled_ok:
  assumes "sync_ok pf who w y"
  shows "sync_ok pf who w (setEnabled b y)" "sync_ok pf who w (setForcedOff b y)"
proof -
  have "keeps who y (y\<lparr>userEnabled := b\<rparr>)" "keeps who y (y\<lparr>forcedOff := b\<rparr>)" by (simp_all add: keeps_def)
  then have "sync_ok pf who w (y\<lparr>userEnabled := b\<rparr>)" "sync_ok pf who w (y\<lparr>forcedOff := b\<rparr>)" using assms keeps_ok by blast+
  then show "sync_ok pf who w (setEnabled b y)" "sync_ok pf who w (setForcedOff b y)"
    unfolding setEnabled_def setForcedOff_def by (simp_all only: assms switched_ok split: if_split) simp_all
qed

lemma restored_sound:
  assumes "disk_sound pf who w b"
  shows "state_of pf who (rs_base (restored_at w b url)) (rs_state (restored_at w b url))
    \<or> rs_saves (restored_at w b url) \<ge> keyframeInterval (penv pf)"
proof (cases "loadPersistedSession b w url")
  case None
  then show ?thesis by (simp add: restored_at_def replays_start)
next
  case (Some r)
  then obtain e where "map_of (loadAllSessions b) w = Some e" and r: "rs_base r = wstr (pe_base e)"
      "rs_state r = (case pe_state e of Some m \<Rightarrow> m | None \<Rightarrow> [])" "rs_saves r = (case pe_saves e of Some n \<Rightarrow> n | None \<Rightarrow> 0)"
    by (auto simp: loadPersistedSession_def split: if_splits option.splits)
  with assms have "entry_sound pf who e" by (simp add: disk_sound_def)
  then show ?thesis by (simp add: restored_at_def Some entry_sound_def r)
qed

lemma restore_ok:
  assumes "sess_ok pf who w s" "pending s = None" "disk_sound pf who w b"
  shows "sess_ok pf who w (restore (restored_at w b url) s)"
  using assms(1,2) restored_sound [OF assms(3), of url]
  by (simp add: sess_ok_def sound_def keyed_def flight_ok_def heals_next_def restore_def)

lemma setServerUrl_ok:
  assumes "sync_ok pf who w y"
  shows "sync_ok pf who w (setServerUrl next y)"
proof -
  let ?s = "restore (restored_at (workspaceId (sess y)) (disk y) next) (deactivateSession (sess y))"
  let ?z = "(new_queue y)\<lparr>serverUrl := next, sess := ?s\<rparr>"
  have w: "workspaceId (sess y) = w" using sync_okD(1) [OF assms] by (simp add: sess_ok_def)
  have "pending (deactivateSession (sess y)) = None" by (simp add: deactivateSession_def)
  then have "sess_ok pf who w ?s"
    unfolding w by (rule restore_ok [OF deactivate_ok [OF sync_okD(1) [OF assms]] _ sync_okD(4) [OF assms]])
  then have z: "sync_ok pf who w ?z" using sync_okD [OF assms] by (simp add: new_queue_def sync_ok_def handler_ok_def)
  have "keeps who ?z (on_sess clearSessionErrorForRetry (read_local ?z))"
    by (rule keeps_trans [OF keeps_read_local]) (simp add: keeps_def)
  from keeps_ok [OF this z] assms show ?thesis by (simp add: setServerUrl_def new_queue_def deactivateSession_def)
qed

lemma keeps_dismiss [simp]: "keeps who y (dismissError env y)"
proof -
  let ?y1 = "on_sess (\<lambda>s. s\<lparr>error := None, consecutiveFailures := 0\<rparr>) y"
  have "keeps who y ?y1" by (rule keeps_sess) (simp add: core_def)
  moreover from this have "keeps who y (trySendSave env (trySendSubscribe False ?y1))"
    by (rule keeps_trans [OF _ keeps_trans [OF keeps_subscribe keeps_save]])
  moreover have "keeps who y (on_sess kickKeyDerivation ?y1)" by (simp add: keeps_def core_def kickKeyDerivation_def)
  ultimately show ?thesis by (simp add: dismissError_def Let_def)
qed

lemma keys_derived_ok:
  assumes "sync_ok pf who w y"
  shows "sync_ok pf who w (keys_derived (penv pf) who gen y)"
proof -
  let ?z = "y\<lparr>sess := sess y\<lparr>key := Some (id_key who), signingKey := Some (id_signing who),
    verifyingKey := Some (id_verifying who), workspaceTag := Some (id_tag who)\<rparr>\<rparr>"
  have "flight_ok pf who (sess ?z) = flight_ok pf who (sess y)" by (rule flight_cong) simp_all
  then have "sess_ok pf who w (sess ?z)"
    using sync_okD(1) [OF assms] by (simp add: sess_ok_def sound_def keyed_def heals_next_def)
  then have z: "sync_ok pf who w ?z" using sync_okD [OF assms] by (intro sync_ok_change [OF assms]) simp_all
  have "sync_ok pf who w (trySendSave (penv pf) (trySendSubscribe False ?z))"
    by (rule keeps_ok [OF keeps_trans [OF keeps_subscribe keeps_save] z])
  with z assms show ?thesis by (simp add: keys_derived_def Let_def)
qed

lemma key_rotated_ok:
  assumes "sync_ok pf who w y"
  shows "sync_ok pf who w (key_rotated y)"
proof -
  have "sess_ok pf who w (sess (key_rotated y))"
    using sync_okD(1) [OF assms]
    by (simp add: key_rotated_def sess_ok_def sound_def keyed_def flight_ok_def heals_next_def deactivateSession_def)
  moreover have "handler_ok pf who (key_rotated y)"
    using assms by (auto simp: sync_ok_def handler_ok_def key_rotated_def deactivateSession_def split: option.splits waiting.splits)
  ultimately show ?thesis using sync_okD [OF assms] by (simp add: sync_ok_def key_rotated_def)
qed

lemma keeps_busy [simp]: "keeps who y (busy_retry env y)"
proof -
  have "keeps who y (on_sess (\<lambda>s. s\<lparr>busyRetryTimer := False\<rparr>) y)" by (rule keeps_sess) (simp add: core_def)
  then show ?thesis by (auto simp: busy_retry_def Let_def intro: keeps_trans [OF _ keeps_flush])
qed

lemma openSession_ok:
  assumes "sync_ok pf who w y"
  shows "sync_ok pf who w (openSession w y)"
  using restored_sound [OF sync_okD(4) [OF assms], of "serverUrl y"] sync_okD(4) [OF assms]
  by (simp add: openSession_def Let_def sync_ok_def handler_ok_def sess_ok_def sound_def keyed_def flight_ok_def heals_next_def)

lemma keeps_propagate [simp]: "keeps who y (refreshAndPropagate pf y)"
proof -
  obtain z cs h where r: "refreshSessionIds y = (z, cs, h)" by (metis prod_cases3)
  then have z: "keeps who y z" using keeps_refresh [of who y] by simp
  moreover from z have "keeps who y (trySendSave (penv pf) z)" by (rule keeps_trans) simp
  moreover from z have "keeps who y (z\<lparr>dialogs := d\<rparr>)" for d by (simp add: keeps_def)
  ultimately show ?thesis by (simp add: refreshAndPropagate_def r)
qed

lemma disk_change_ok:
  assumes "sync_ok pf who w y" "disk_sound pf who w b"
  shows "sync_ok pf who w (y\<lparr>disk := b, degradation := l\<rparr>)"
  using sync_okD [OF assms(1)] assms(2) by (intro sync_ok_change [OF assms(1)]) simp_all

lemma persist_run_ok:
  assumes "sync_ok pf who w y" "entry_sound pf who e"
  shows "sync_ok pf who w (persist_run (gen, url, e) writes y)"
proof -
  have w: "workspaceId (sess y) = w" using sync_okD(1) [OF assms(1)] by (simp add: sess_ok_def)
  obtain b l where r: "write_snapshot writes (generation (sess y) = gen \<and> serverUrl y = url) w e (disk y, degradation y) = (b, l)"
    by (metis surj_pair)
  then have "disk_sound pf who w b" using sync_okD(4) [OF assms(1)] assms(2)
    by (auto simp: disk_sound_def write_snapshot_def mutateAll_cases split: if_splits)
  from disk_change_ok [OF assms(1) this] show ?thesis by (simp add: persist_run_def w r)
qed

lemma prune_ok:
  assumes "sync_ok pf who w y" "prunePersistedSessions writes xs url (disk y, degradation y) = (b, l)"
  shows "sync_ok pf who w (y\<lparr>disk := b, degradation := l\<rparr>)"
proof (rule disk_change_ok [OF assms(1)])
  show "disk_sound pf who w b" using sync_okD(4) [OF assms(1)] assms(2)
    by (auto simp: disk_sound_def prunePersistedSessions_def mutateAll_cases Let_def map_of_fold_del split: if_splits)
qed

lemma drop_ok:
  assumes "sync_ok pf who w y" "dropPersistedSession writes w' (disk y, degradation y) = (b, l)"
  shows "sync_ok pf who w (y\<lparr>disk := b, degradation := l\<rparr>)"
proof (rule disk_change_ok [OF assms(1)])
  show "disk_sound pf who w b" using sync_okD(4) [OF assms(1)] assms(2)
    by (auto simp: disk_sound_def dropPersistedSession_def mutateAll_cases split: if_splits)
qed

section \<open>Every event\<close>

lemma nth_option_mem: "nth_option xs n = Some x \<Longrightarrow> x \<in> set xs"
  by (auto simp: nth_option_def split: if_splits)

lemma set_drop_nth: "set (drop_nth n xs) \<subseteq> set xs"
  using set_take_subset [of n xs] set_drop_subset [of "Suc n" xs] by (auto simp: drop_nth_def)

lemma all_drop_nth: "list_all P xs \<Longrightarrow> list_all P (drop_nth n xs)"
  using set_drop_nth [of n xs] by (auto simp: list_all_iff)

lemma keeps_receive: "keeps who y (receive f y)"
  by (simp add: receive_def keeps_def)

lemma keeps_sub_done: "keeps who y (sub_done pf t y)"
  by (auto simp: sub_done_def keeps_def core_def split: sum.splits)

lemma keeps_attach: "keeps who y (attach_decided d ds y)"
  by (auto simp: attach_decided_def keeps_def split: option.splits)

lemma keeps_keys_failed: "keeps who y (keys_failed gen y)"
  by (simp add: keys_failed_def keeps_def core_def)

text \<open>Starting a task that waited takes it off its list.\<close>

lemma drop_enc_ok:
  assumes "sync_ok pf who w y"
  shows "sync_ok pf who w (y\<lparr>encs := drop_nth n (encs y)\<rparr>)"
  using sync_okD [OF assms] all_drop_nth [of "task_ok who" "encs y" n] by (intro sync_ok_change [OF assms]) simp_all

lemma drop_persist_ok:
  assumes "sync_ok pf who w y"
  shows "sync_ok pf who w (y\<lparr>persists := drop_nth n (persists y)\<rparr>)"
  using sync_okD [OF assms] all_drop_nth [OF sync_okD(3) [OF assms], of n] by (intro sync_ok_change [OF assms]) simp_all

lemma enc_step_ok:
  assumes "sync_ok pf who w y" "list_all (reads_back pf who) (encs y)"
  shows "sync_ok pf who w (step pf who (EncDone n nonce) y)"
proof (cases "nth_option (encs y) n")
  case (Some t)
  from nth_option_mem [OF Some] have "reads_back pf who t" "task_ok who t"
    using assms(2) sync_okD(2) [OF assms(1)] by (auto simp: list_all_iff)
  then show ?thesis using enc_done_ok [OF drop_enc_ok [OF assms(1)]] by (simp add: Some)
qed (use assms in simp)

lemma persist_step_ok:
  assumes "sync_ok pf who w y"
  shows "sync_ok pf who w (step pf who (PersistRun n writes) y)"
proof (cases "nth_option (persists y) n")
  case (Some q)
  obtain gen url e where q: "q = (gen, url, e)" by (metis prod_cases3)
  from nth_option_mem [OF Some] have "entry_sound pf who e" using sync_okD(3) [OF assms] by (auto simp: list_all_iff q)
  then show ?thesis using persist_run_ok [OF drop_persist_ok [OF assms]] by (simp add: Some q)
qed (use assms in simp)

lemma step_ok:
  assumes "sync_ok pf who w y" "list_all (reads_back pf who) (encs y)" "acyclic_digest (penv pf)"
  shows "sync_ok pf who w (step pf who ev y)"
proof -
  have keep: "sync_ok pf who w z" if "keeps who y z" for z using that assms(1) by (rule keeps_ok)
  have w: "workspaceId (sess y) = w" using sync_okD(1) [OF assms(1)] by (simp add: sess_ok_def)
  have "keeps who y (step pf who (SubDone n) y)" for n
  proof (cases "nth_option (subs y) n")
    case (Some t)
    have "keeps who y (y\<lparr>subs := drop_nth n (subs y)\<rparr>)" by (simp add: keeps_def)
    then show ?thesis using keeps_sub_done by (simp add: Some keeps_trans)
  qed simp
  moreover have "keeps who y (step pf who (AttachDone n d) y)" for n d
  proof (cases "nth_option (dialogs y) n")
    case (Some t)
    have "keeps who y (y\<lparr>dialogs := drop_nth n (dialogs y)\<rparr>)" by (simp add: keeps_def)
    then show ?thesis using keeps_attach by (simp add: Some keeps_trans)
  qed simp
  moreover have "keeps who y (y\<lparr>live := m\<rparr>)" "keeps who y (y\<lparr>scope := xs\<rparr>)" "keeps who y (y\<lparr>hasWorkspaces := b\<rparr>)" for m xs b
    by (simp_all add: keeps_def)
  moreover have "sync_ok pf who w (step pf who (PruneRun writes xs url) y)" for writes xs url
    using prune_ok [OF assms(1)] by (simp split: prod.splits)
  moreover have "sync_ok pf who w (step pf who (DropRun writes) y)" for writes
    using drop_ok [OF assms(1)] by (simp split: prod.splits)
  ultimately show ?thesis
    using keep enc_step_ok [OF assms(1,2)] persist_step_ok [OF assms(1)] next_frame_ok [OF assms(1,3)] resume_ok [OF assms(1)]
      onTransportConnected_ok [OF assms(1)] onTransportDisconnected_ok [OF assms(1)] setEnabled_ok [OF assms(1)]
      setServerUrl_ok [OF assms(1)] keys_derived_ok [OF assms(1)] key_rotated_ok [OF assms(1)] openSession_ok [OF assms(1)]
      assms(1) keeps_receive keeps_keys_failed
    by (cases ev) (simp_all del: step.simps(5,6,10,11,24,25) add: w)
qed

section \<open>Tabs over one storage\<close>

text \<open>Whatever the tabs are sealing as the run goes reads back.\<close>

definition run_reads_back :: "platform \<Rightarrow> identity \<Rightarrow> (nat \<times> event) list \<Rightarrow> world \<Rightarrow> bool" where
  "run_reads_back pf who evs g =
     (\<forall>n \<le> length evs. \<forall>y \<in> set (tabs (grun pf who (take n evs) g)). list_all (reads_back pf who) (encs y))"

definition world_ok :: "platform \<Rightarrow> identity \<Rightarrow> string \<Rightarrow> world \<Rightarrow> bool" where
  "world_ok pf who w g = (disk_sound pf who w (shared g) \<and> (\<forall>y \<in> set (tabs g). sync_ok pf who w (y\<lparr>disk := shared g\<rparr>)))"

lemma disk_ok:
  assumes "sync_ok pf who w y" "disk_sound pf who w b"
  shows "sync_ok pf who w (y\<lparr>disk := b\<rparr>)"
  using sync_okD [OF assms(1)] assms(2) by (intro sync_ok_change [OF assms(1)]) simp_all

lemma gstep_ok:
  assumes "world_ok pf who w g" "\<forall>y \<in> set (tabs g). list_all (reads_back pf who) (encs y)" "acyclic_digest (penv pf)"
  shows "world_ok pf who w (gstep pf who q g)"
proof -
  obtain i ev where q: "q = (i, ev)" by (metis surj_pair)
  show ?thesis
  proof (cases "i < length (tabs g)")
    case True
    let ?y = "(tabs g ! i)\<lparr>disk := shared g\<rparr>"
    have "sync_ok pf who w ?y" "list_all (reads_back pf who) (encs ?y)" using assms(1,2) True by (simp_all add: world_ok_def)
    then have y: "sync_ok pf who w (step pf who ev ?y)" using assms(3) by (rule step_ok)
    define y' where "y' = step pf who ev ?y"
    have d: "disk_sound pf who w (disk y')" using sync_okD(4) [OF y] by (simp add: y'_def)
    have "sync_ok pf who w (z\<lparr>disk := disk y'\<rparr>)" if "z \<in> set ((tabs g)[i := y'])" for z
    proof -
      from that have "z = y' \<or> z \<in> set (tabs g)" using set_update_subset_insert by fastforce
      then show ?thesis using disk_ok [OF y d] disk_ok [of pf who w "z\<lparr>disk := shared g\<rparr>", OF _ d] assms(1)
        by (auto simp: world_ok_def y'_def)
    qed
    with d show ?thesis using True by (simp add: gstep_def q world_ok_def Let_def y'_def)
  qed (use assms q in \<open>simp add: gstep_def\<close>)
qed

lemma opened_ok: "opened w g \<Longrightarrow> world_ok pf who w g"
proof -
  assume g: "opened w g"
  then have empty: "disk_sound pf who w (shared g)" by (simp add: opened_def disk_sound_def)
  have "sync_ok pf who w (openSession w (z\<lparr>disk := shared g\<rparr>)\<lparr>disk := shared g\<rparr>)" for z
    using restored_sound [OF empty, of "serverUrl z"] empty
    by (simp add: openSession_def Let_def sync_ok_def handler_ok_def sess_ok_def sound_def keyed_def flight_ok_def heals_next_def)
  with g empty show ?thesis by (auto simp: opened_def world_ok_def)
qed

lemma grun_ok:
  assumes "opened w g" "run_reads_back pf who evs g" "acyclic_digest (penv pf)"
  shows "world_ok pf who w (grun pf who evs g)"
  using assms
proof (induction evs rule: rev_induct)
  case Nil
  then show ?case by (simp add: grun_def opened_ok)
next
  case (snoc q evs)
  have all: "list_all (reads_back pf who) (encs y)" if "n \<le> length evs" "y \<in> set (tabs (grun pf who (take n evs) g))" for n y
    using snoc.prems(2) that unfolding run_reads_back_def by (elim allE [of _ n]) simp
  then have "run_reads_back pf who evs g" unfolding run_reads_back_def by blast
  then have "world_ok pf who w (grun pf who evs g)" using snoc by simp
  moreover have "\<forall>y \<in> set (tabs (grun pf who evs g)). list_all (reads_back pf who) (encs y)"
    using all [of "length evs"] by simp
  ultimately have "world_ok pf who w (gstep pf who q (grun pf who evs g))" using assms(3) by (rule gstep_ok)
  then show ?case by (simp add: grun_def)
qed

lemma run_sound:
  assumes "opened w g" "run_reads_back pf who evs g" "acyclic_digest (penv pf)" "y \<in> set (tabs (grun pf who evs g))"
  shows "sound pf who (sess y)" "flight_ok pf who (sess y)"
  using grun_ok [OF assms(1-3)] assms(4) by (auto simp: world_ok_def sync_ok_def sess_ok_def)

end
