(* ===== verification/SyncLane.thy ===== *)
theory SyncLane
  imports SyncSound
begin

text \<open>
  The lane of a session's saves in \<^verbatim>\<open>SyncSession\<close>'s machine: the flag \<open>encrypting\<close>, the tasks that seal
  a save and the save in flight. \<open>lane\<close> relates states between which nothing enters it; each operation keeps \<open>lane_ok\<close>.
\<close>

lemma persist_fields [simp]: "live (persistSession y) = live y" "sess (persistSession y) = sess y" "outbox (persistSession y) = outbox y"
    "encs (persistSession y) = encs y" "handler (persistSession y) = handler y"
  by (simp_all add: persistSession_def)

section \<open>One save at a time\<close>

text \<open>At most one task seals a save of this generation, the flag says whether one does, and none is in flight meanwhile.\<close>

definition lane_ok :: "sync \<Rightarrow> bool" where
  "lane_ok y = (list_all (\<lambda>t. e_gen t \<le> generation (sess y)) (encs y)
     \<and> length (filter (\<lambda>t. e_gen t = generation (sess y)) (encs y)) = (if encrypting (sess y) then 1 else 0)
     \<and> (encrypting (sess y) \<longrightarrow> pending (sess y) = None))"

definition lane :: "sync \<Rightarrow> sync \<Rightarrow> bool" where
  "lane y y' = (generation (sess y') = generation (sess y) \<and> encrypting (sess y') = encrypting (sess y)
     \<and> encs y' = encs y \<and> pending (sess y') \<in> {None, pending (sess y)})"

lemma lane_lane_ok: "lane y y' \<Longrightarrow> lane_ok y \<Longrightarrow> lane_ok y'"
  by (auto simp: lane_def lane_ok_def)

lemma lane_refl [simp]: "lane y y"
  by (simp add: lane_def)

lemma lane_trans: "lane x y \<Longrightarrow> lane y z \<Longrightarrow> lane x z"
  by (auto simp: lane_def)

lemma lane_read_local [simp]: "lane y (read_local y)"
  by (simp add: lane_def read_local_def)

lemma lane_capture [simp]: "lane y (captureOverlay y)"
  by (auto simp: captureOverlay_def refreshSessionIds_def read_local_def lane_def Let_def split: prod.splits if_splits)

lemma lane_subscribe [simp]: "lane y (trySendSubscribe force y)"
  by (simp add: trySendSubscribe_def lane_def split: option.splits)

lemma lane_persist [simp]: "lane y (persistSession y)"
  by (simp add: lane_def)

lemma lane_apply [simp]: "lane y (applyOverlayAndPersist overlay conflicts decisions y)"
  by (auto simp: applyOverlayAndPersist_def lane_def read_local_def Let_def split: option.splits)

text \<open>A new generation: what was sealed for the old one counts no more.\<close>

lemma lane_new_generation:
  assumes "lane_ok y" "generation (sess z) = Suc (generation (sess y))" "\<not> encrypting (sess z)" "encs z = encs y"
  shows "lane_ok z"
proof -
  have "e_gen t \<le> generation (sess y)" if "t \<in> set (encs y)" for t using assms(1) that by (auto simp: lane_ok_def list_all_iff)
  then have "filter (\<lambda>t. e_gen t = Suc (generation (sess y))) (encs y) = []" "list_all (\<lambda>t. e_gen t \<le> Suc (generation (sess y))) (encs y)"
    by (fastforce simp: filter_empty_conv, fastforce simp: list_all_iff)
  then show ?thesis using assms(2-4) by (simp add: lane_ok_def)
qed

lemma lane_save:
  assumes "lane_ok y"
  shows "lane_ok (trySendSave env y)"
proof -
  let ?z = "captureOverlay y"
  have same: "generation (sess ?z) = generation (sess y)" "encrypting (sess ?z) = encrypting (sess y)" "encs ?z = encs y"
      "pending (sess ?z) \<in> {None, pending (sess y)}"
    using lane_capture [of y] by (simp_all add: lane_def)
  have capture: "lane_ok ?z" using assms lane_lane_ok lane_capture by blast
  have "lane y (on_sess (\<lambda>s. s\<lparr>pendingSave := True\<rparr>) y)" by (simp add: lane_def)
  then have queue: "lane_ok (on_sess (\<lambda>s. s\<lparr>pendingSave := True\<rparr>) y)" using assms lane_lane_ok by blast
  have "lane_ok (?z\<lparr>sess := sess ?z\<lparr>encrypting := True\<rparr>, encs := encs ?z @ [t]\<rparr>)"
    if "e_gen t = generation (sess ?z)" "pending (sess y) = None" "\<not> encrypting (sess y)" for t
    using that assms same by (auto simp: lane_ok_def)
  then show ?thesis using assms capture queue
    by (auto simp: trySendSave_def Let_def split: option.splits)
qed

lemma lane_sess: "lane_ok y \<Longrightarrow> (\<And>s. generation (f s) = generation s \<and> encrypting (f s) = encrypting s \<and> pending (f s) \<in> {None, pending s})
    \<Longrightarrow> lane_ok (on_sess f y)"
  by (rule lane_lane_ok) (auto simp: lane_def)

lemma lane_flush:
  assumes "lane_ok y"
  shows "lane_ok (flush env y)"
proof -
  have "lane_ok (on_sess (\<lambda>s. s\<lparr>pendingSave := False\<rparr>) y)" using assms by (rule lane_sess) simp
  then show ?thesis unfolding flush_def by (rule lane_save)
qed

lemma lane_kick [simp]: "generation (kickKeyDerivation s) = generation s" "encrypting (kickKeyDerivation s) = encrypting s"
    "pending (kickKeyDerivation s) = pending s" "generation (clearSessionErrorForRetry s) = generation s"
    "encrypting (clearSessionErrorForRetry s) = encrypting s" "pending (clearSessionErrorForRetry s) = pending s"
  by (simp_all add: kickKeyDerivation_def clearSessionErrorForRetry_def Let_def)

lemma lane_handler [simp]: "lane y (z\<lparr>handler := h\<rparr>) = lane y z"
  by (simp add: lane_def)

lemma lane_handleAck:
  assumes "lane_ok y"
  shows "lane_ok (handleAck env base i y)"
proof (cases "pending (sess y)")
  case None
  have "lane_ok (trySendSave env (on_sess (\<lambda>s. s\<lparr>pendingSave := True\<rparr>) y))"
    using assms by (intro lane_save lane_sess) simp_all
  then show ?thesis using assms None by (simp add: handleAck_def)
next
  case (Some p)
  have "lane (captureOverlay y) (captureOverlay y\<lparr>sess := sess (captureOverlay y)\<lparr>baseState := m, baseRevision := b, hasBase := True,
      appliedRevisions := a, savesSinceKeyframe := n, pending := None, staleResetAttempted := False\<rparr>\<rparr>)" for m b a n
    by (simp add: lane_def)
  note lane_trans [OF lane_trans [OF lane_capture this] lane_apply]
  then have "lane y (handleAck env base i y)" by (simp add: handleAck_def Some Let_def)
  then show ?thesis using assms by (rule lane_lane_ok)
qed

lemma lane_handleChain:
  assumes "lane_ok y"
  shows "lane_ok (handleChain env revs y)"
proof -
  have "lane_ok (on_sess (\<lambda>s. s\<lparr>resyncAttempted := False\<rparr>) y)" using assms by (intro lane_sess) simp_all
  then have "lane_ok (flush env (on_sess (\<lambda>s. s\<lparr>resyncAttempted := False\<rparr>) y))" "lane_ok (on_sess (\<lambda>s. s\<lparr>resyncAttempted := False\<rparr>) y)"
    by (simp_all add: lane_flush)
  moreover have "lane_ok (captureOverlay (on_sess (\<lambda>s. s\<lparr>receiving := True\<rparr>) y)\<lparr>handler := h\<rparr>)" for h
    using lane_capture [of "on_sess (\<lambda>s. s\<lparr>receiving := True\<rparr>) y"] by (intro lane_lane_ok [OF _ assms]) (simp add: lane_def)
  ultimately show ?thesis using assms by (auto simp: handleChain_def Let_def split: option.splits prod.splits)
qed

lemma lane_handleSaveError:
  assumes "lane_ok y"
  shows "lane_ok (handleSaveError env base reason y)"
proof -
  let ?r = "y\<lparr>sess := sess y\<lparr>pending := None, staleResetAttempted := True, baseRevision := None, appliedRevisions := [],
    savesSinceKeyframe := keyframeInterval env, pendingSave := False, resyncAttempted := False\<rparr>\<rparr>"
  have "lane y ?r" by (simp add: lane_def)
  then have "lane_ok (trySendSave env (persistSession ?r))"
    using assms by (intro lane_save lane_lane_ok [OF lane_persist]) (rule lane_lane_ok)
  moreover have "lane_ok (y\<lparr>sess := sess y\<lparr>pending := None, pendingSave := True, busyRetryTimer := True\<rparr>\<rparr>)"
      "lane_ok (y\<lparr>sess := sess y\<lparr>pending := None, consecutiveFailures := n, error := e\<rparr>\<rparr>)" for n e
    by (rule lane_lane_ok [OF _ assms], simp add: lane_def)+
  ultimately show ?thesis using assms by (simp add: handleSaveError_def Let_def)
qed

lemma lane_handleMessage:
  assumes "lane_ok y"
  shows "lane_ok (handleMessage env f y)"
proof -
  have "lane_ok (trySendSave env (trySendSubscribe False y))" by (intro lane_save lane_lane_ok [OF lane_subscribe] assms)
  moreover have "lane_ok (y\<lparr>sess := sess y\<lparr>subscribeAcked := True, waiters := n\<rparr>\<rparr>)"
      "lane_ok (y\<lparr>sess := sess y\<lparr>subscribeAcked := True\<rparr>\<rparr>)" "lane_ok (y\<lparr>sess := sess y\<lparr>pending := None, pendingSave := True\<rparr>\<rparr>)" for n
    by (rule lane_lane_ok [OF _ assms], simp add: lane_def)+
  ultimately show ?thesis using assms lane_handleAck [OF assms] lane_handleChain [OF assms] lane_handleSaveError [OF assms]
    by (cases f) (simp_all add: handleMessage_def handleUnauthorizedForSave_def)
qed

lemma lane_inbox [simp]: "lane y (z\<lparr>inbox := q\<rparr>) = lane y z"
  by (simp add: lane_def)

lemma lane_next_frame:
  assumes "lane_ok y"
  shows "lane_ok (next_frame env y)"
proof -
  have "lane_ok (y\<lparr>inbox := q\<rparr>)" for q by (rule lane_lane_ok [OF _ assms]) simp
  then show ?thesis using assms lane_handleMessage by (auto simp: next_frame_def Let_def split: option.splits list.splits)
qed

lemma lane_chain_finally:
  assumes "lane_ok y"
  shows "lane_ok (chain_finally env gen tag y)"
proof -
  have "lane_ok (on_sess (\<lambda>s. s\<lparr>receiving := False\<rparr>) y)" using assms by (rule lane_sess) simp
  then show ?thesis using assms lane_flush by (simp add: chain_finally_def Let_def)
qed

lemma lane_chain_tail [simp]: "lane y (chain_tail env good y)"
proof -
  let ?y1 = "y\<lparr>sess := sess y\<lparr>pendingSave := False, resyncAttempted := True\<rparr>\<rparr>"
  have "lane y (trySendSubscribe True ?y1)" by (rule lane_trans [OF _ lane_subscribe]) (simp add: lane_def)
  then show ?thesis by (simp add: chain_tail_def Let_def) (simp add: lane_def)
qed

lemma lane_chain_merge [simp]: "lane y (chain_merge k b preserve conflicts decisions y)"
proof -
  let ?y1 = "captureOverlay y" and ?c = "k_candidate k"
  have "lane ?y1 (?y1\<lparr>sess := sess ?y1\<lparr>baseRevision := baseRevision ?c, hasBase := True,
      appliedRevisions := foldl set_add (appliedRevisions (sess ?y1)) (appliedRevisions ?c), baseState := baseState ?c,
      savesSinceKeyframe := savesSinceKeyframe ?c,
      pendingSave := (pendingSave (sess ?y1) \<or> pending (sess ?y1) \<noteq> None), pending := None\<rparr>\<rparr>)"
    by (simp add: lane_def)
  note lane_trans [OF lane_trans [OF lane_capture this] lane_apply]
  then show ?thesis by (simp add: chain_merge_def Let_def)
qed

lemma lane_chain_verified:
  assumes "lane_ok y"
  shows "lane_ok (chain_verified pf k y)"
proof -
  have "lane y (chain_tail (penv pf) (k_ok k) (y\<lparr>sess := sess y\<lparr>savesSinceKeyframe := n\<rparr>\<rparr>))" for n
    by (rule lane_trans [OF _ lane_chain_tail]) (simp add: lane_def)
  then have "lane_ok (chain_finally (penv pf) g t (chain_tail (penv pf) (k_ok k) (y\<lparr>sess := sess y\<lparr>savesSinceKeyframe := n\<rparr>\<rparr>)))" for g t n
    using lane_lane_ok [OF _ assms] by (intro lane_chain_finally) blast
  moreover have "lane y (chain_merge k b p c d (captureOverlay y))" for b p c d
    by (rule lane_trans [OF lane_capture lane_chain_merge])
  then have "lane_ok (chain_merge k b p c d (captureOverlay y))" for b p c d using assms by (rule lane_lane_ok)
  moreover have "lane_ok (captureOverlay y\<lparr>handler := h\<rparr>)" for h by (rule lane_lane_ok [OF _ assms]) simp
  ultimately show ?thesis using assms by (simp add: chain_verified_def Let_def)
qed

lemma lane_saved:
  assumes "lane_ok y"
  shows "lane_ok (chain_saved env gen tag good y)" "lane_ok (ack_saved env gen y)"
proof -
  have "lane y (chain_tail env good (read_local y))" by (rule lane_trans [OF lane_read_local lane_chain_tail])
  then show "lane_ok (chain_saved env gen tag good y)"
    using assms lane_lane_ok by (auto simp: chain_saved_def intro: lane_chain_finally)
  have "lane_ok (read_local y)" by (rule lane_lane_ok [OF lane_read_local assms])
  then show "lane_ok (ack_saved env gen y)" using assms lane_flush by (simp add: ack_saved_def Let_def)
qed

lemma lane_resume:
  assumes "lane_ok y"
  shows "lane_ok (resume pf d y)"
proof -
  have y: "lane_ok (y\<lparr>handler := None\<rparr>)" by (rule lane_lane_ok [OF _ assms]) simp
  then have "lane_ok (chain_merge k b p cs d (y\<lparr>handler := None\<rparr>))" for k b p cs by (rule lane_lane_ok [OF lane_chain_merge])
  then show ?thesis using assms y lane_chain_verified [OF y] lane_saved [OF y]
    by (simp add: resume_def Let_def split: option.splits waiting.splits)
qed

lemma filter_drop_nth:
  assumes "n < length xs"
  shows "length (filter P xs) = length (filter P (drop_nth n xs)) + (if P (xs ! n) then 1 else 0)"
proof -
  have "filter P xs = filter P (take n xs) @ filter P (xs ! n # drop (Suc n) xs)"
    using id_take_nth_drop [OF assms] filter_append by metis
  then show ?thesis by (simp add: drop_nth_def)
qed

lemma lane_enc_finally:
  assumes "list_all (\<lambda>t. e_gen t \<le> generation (sess y)) (encs y)" "e_gen t = generation (sess y)"
    and "filter (\<lambda>t. e_gen t = generation (sess y)) (encs y) = []"
  shows "lane_ok (enc_finally env t y)"
proof -
  have "lane_ok (on_sess (\<lambda>s. s\<lparr>encrypting := False\<rparr>) y)" using assms by (simp add: lane_ok_def)
  then show ?thesis using assms(2) lane_flush by (simp add: enc_finally_def Let_def)
qed

lemma lane_enc:
  assumes "lane_ok y"
  shows "lane_ok (step pf who (EncDone n nonce) y)"
proof (cases "n < length (encs y)")
  case True
  define t where "t = encs y ! n"
  let ?y = "y\<lparr>encs := drop_nth n (encs y)\<rparr>"
  have step: "step pf who (EncDone n nonce) y = enc_done pf t nonce ?y" using True by (simp add: nth_option_def t_def)
  have old: "list_all (\<lambda>t. e_gen t \<le> generation (sess y)) (drop_nth n (encs y))"
    using assms by (intro all_drop_nth) (simp add: lane_ok_def)
  have count: "length (filter (\<lambda>t. e_gen t = generation (sess y)) (encs y)) =
      length (filter (\<lambda>t. e_gen t = generation (sess y)) (drop_nth n (encs y))) + (if e_gen t = generation (sess y) then 1 else 0)"
    using filter_drop_nth [OF True] by (simp add: t_def)
  define z where "z = (case Option.bind nonce (seal_save pf t) of None \<Rightarrow> enc_failed t ?y | Some (p, sig, i) \<Rightarrow> enc_sealed t p sig i ?y)"
  have z: "generation (sess z) = generation (sess y)" "encs z = drop_nth n (encs y)"
    by (simp_all add: z_def enc_failed_def enc_sealed_def split: option.splits)
  have done_z: "enc_done pf t nonce ?y = enc_finally (penv pf) t z" by (simp add: enc_done_def z_def)
  show ?thesis
  proof (cases "e_gen t = generation (sess y)")
    case True
    with count assms have "filter (\<lambda>t. e_gen t = generation (sess y)) (drop_nth n (encs y)) = []"
      by (auto simp: lane_ok_def split: if_splits)
    then have "lane_ok (enc_finally (penv pf) t z)" using old True by (intro lane_enc_finally) (simp_all add: z)
    then show ?thesis by (simp only: step done_z)
  next
    case False
    then have "enc_finally (penv pf) t z = ?y"
      using z(1) by (simp add: enc_finally_def z_def enc_failed_def enc_sealed_def split: option.splits)
    then show ?thesis using old count False assms unfolding step done_z by (simp add: lane_ok_def)
  qed
qed (use assms in \<open>simp add: nth_option_def\<close>)

lemma lane_connected:
  assumes "lane_ok y"
  shows "lane_ok (onTransportConnected env n nonce y)"
proof -
  let ?y = "y\<lparr>socket := Some n, challenge := Some nonce, sess := sess y\<lparr>pending := None, pendingSave := False\<rparr>\<rparr>"
  have "lane y (trySendSubscribe False ?y)" by (rule lane_trans [OF _ lane_subscribe]) (simp add: lane_def)
  then show ?thesis using lane_lane_ok [OF _ assms] by (simp add: onTransportConnected_def lane_save)
qed

lemma lane_ended:
  assumes "lane_ok y"
  shows "lane_ok (onTransportDisconnected y)" "lane_ok (setEnabled b y)" "lane_ok (setForcedOff b y)" "lane_ok (setServerUrl url y)" "lane_ok (key_rotated y)"
proof -
  show "lane_ok (onTransportDisconnected y)" "lane_ok (key_rotated y)"
    by (rule lane_new_generation [OF assms]; simp add: onTransportDisconnected_def new_queue_def key_rotated_def deactivateSession_def)+
  have "lane_ok (switched z)" if "lane_ok z" for z
    using lane_sess [OF that, of clearSessionErrorForRetry]
    by (auto simp: switched_def new_queue_def deactivateSession_def intro!: lane_new_generation [OF that])
  moreover have "lane_ok (y\<lparr>userEnabled := b\<rparr>)" "lane_ok (y\<lparr>forcedOff := b\<rparr>)"
    by (rule lane_lane_ok [OF _ assms], simp add: lane_def)+
  ultimately show "lane_ok (setEnabled b y)" "lane_ok (setForcedOff b y)"
    unfolding setEnabled_def setForcedOff_def by (simp_all only: assms split: if_split) simp_all
  show "lane_ok (setServerUrl url y)"
    using assms lane_new_generation [OF assms, of "setServerUrl url y"]
    by (cases "url = serverUrl y") (simp_all add: setServerUrl_def read_local_def new_queue_def restore_def deactivateSession_def)
qed

lemma lane_retry:
  assumes "lane_ok y"
  shows "lane_ok (dismissError env y)" "lane_ok (keys_derived env who gen y)" "lane_ok (busy_retry env y)"
    "lane_ok (refreshAndPropagate pf y)"
proof -
  have sends: "lane_ok (trySendSave env (trySendSubscribe False z))" if "lane y z" for z env
    using lane_trans [OF that lane_subscribe] lane_lane_ok [OF _ assms] lane_save by blast
  have keep: "lane_ok z" if "lane y z" for z using that assms by (rule lane_lane_ok)
  show "lane_ok (dismissError env y)" using assms by (simp add: dismissError_def Let_def) (simp add: lane_def keep sends)
  show "lane_ok (keys_derived env who gen y)" using assms by (simp add: keys_derived_def Let_def) (simp add: lane_def keep sends)
  have "lane_ok (on_sess (\<lambda>s. s\<lparr>busyRetryTimer := False\<rparr>) y)" by (rule keep) (simp add: lane_def)
  then show "lane_ok (busy_retry env y)" using assms lane_flush by (simp add: busy_retry_def Let_def)
  obtain z cs h where r: "refreshSessionIds y = (z, cs, h)" by (metis prod_cases3)
  then have "lane y z" by (auto simp: refreshSessionIds_def lane_def Let_def split: prod.splits if_splits)
  then have "lane_ok z" "lane_ok (z\<lparr>dialogs := d\<rparr>)" for d by (auto intro!: keep simp: lane_def)
  then show "lane_ok (refreshAndPropagate pf y)" using lane_save by (simp add: refreshAndPropagate_def r)
qed

lemma lane_step:
  assumes "lane_ok y"
  shows "lane_ok (step pf who ev y)"
proof -
  have keep: "lane_ok z" if "lane y z" for z using that assms by (rule lane_lane_ok)
  have "lane y (y\<lparr>live := m\<rparr>)" "lane y (y\<lparr>scope := xs\<rparr>)" "lane y (y\<lparr>hasWorkspaces := e\<rparr>)" "lane y (receive f y)" "lane y (keys_failed g y)"
      "lane y (y\<lparr>disk := b, degradation := l\<rparr>)" for m xs e f g b l
    by (simp_all add: lane_def receive_def keys_failed_def)
  moreover have "lane y (step pf who (SubDone n) y)" "lane y (step pf who (AttachDone n d) y)" "lane y (step pf who (PersistRun n b) y)" for n d b
    by (auto simp: lane_def sub_done_def attach_decided_def persist_run_def split: option.splits sum.splits prod.splits)
  moreover have "lane_ok (openSession w y)" for w by (simp add: lane_ok_def openSession_def Let_def)
  ultimately show ?thesis
    using keep lane_enc [OF assms] lane_next_frame [OF assms] lane_resume [OF assms] lane_connected [OF assms]
      lane_ended [OF assms] lane_retry [OF assms] lane_save [OF assms] assms
    by (cases ev) (simp_all del: step.simps(5,6,10,11) split: prod.splits)
qed

lemma gstep_tabs:
  assumes "z \<in> set (tabs (gstep pf who (i, ev) g))"
  shows "z \<in> set (tabs g) \<or> i < length (tabs g) \<and> z = step pf who ev ((tabs g ! i)\<lparr>disk := shared g\<rparr>)"
proof (cases "i < length (tabs g)")
  case True
  define y where "y = step pf who ev ((tabs g ! i)\<lparr>disk := shared g\<rparr>)"
  have "tabs (gstep pf who (i, ev) g) = (tabs g)[i := y]" using True by (simp add: gstep_def Let_def y_def)
  then have "z = y \<or> z \<in> set (tabs g)" using assms set_update_subset_insert [of "tabs g" i y] by auto
  then show ?thesis using True by (auto simp: y_def)
qed (use assms in \<open>simp add: gstep_def\<close>)

lemma lane_grun:
  assumes "opened w g" "y \<in> set (tabs (grun pf who evs g))"
  shows "lane_ok y"
proof -
  have "\<forall>y \<in> set (tabs (grun pf who evs g)). lane_ok y"
    unfolding grun_def
  proof (rule fold_invariant [where P = "\<lambda>g. \<forall>y \<in> set (tabs g). lane_ok y"])
    show "\<forall>y \<in> set (tabs g). lane_ok y" using assms(1) by (auto simp: opened_def lane_ok_def openSession_def Let_def)
  next
    fix q :: "nat \<times> event" and g :: world assume ok: "\<forall>y \<in> set (tabs g). lane_ok y"
    obtain i ev where q: "q = (i, ev)" by (metis surj_pair)
    have "lane_ok (step pf who ev ((tabs g ! i)\<lparr>disk := shared g\<rparr>))" if "i < length (tabs g)"
      by (rule lane_step, rule lane_lane_ok [of "tabs g ! i"]) (use ok that in \<open>simp_all add: lane_def\<close>)
    with ok show "\<forall>y \<in> set (tabs (gstep pf who q g)). lane_ok y"
      unfolding q using gstep_tabs by blast
  qed
  with assms(2) show ?thesis by blast
qed

end
