(* ===== verification/SyncTabs.thy ===== *)
theory SyncTabs
  imports SyncLane
begin

text \<open>
  What holds of the sessions of a workspace, over any run of their tabs: bases agree, the user's edits survive
  acknowledgements and chains, one save at a time, every answer to a rejected save, and a save's way to the relay's
  chain and back.
\<close>

section \<open>What the user has\<close>

lemma apply_compute_view:
  assumes "f \<in> set scalar_fields"
  shows "get_field f (view (map_of (applyChangeset base (computeChangeset base target)) i)) = get_field f (view (map_of target i))"
  using csEntriesEqual_view [OF _ assms, of base i target]
  by (auto simp: applyChangeset_lookup computeChangeset_lookup split: option.splits)

lemma effective_view: "view (map_of (effectiveLocalState base m xs) i) = view (map_of (if i \<in> set xs then m else base) i)"
  by (simp add: effective_lookup)

lemma scalar_main: "f \<in> set scalar_fields \<Longrightarrow> f \<in> set main_fields"
  by (auto simp: scalar_fields_def main_fields_def)

lemma reactive_view:
  assumes "f \<in> set scalar_fields"
  shows "get_field f (view (map_of (applyToReactiveState target m xs) i)) =
    get_field f (view (map_of (if i \<in> set xs then target else m) i))"
proof (cases "i \<in> set xs")
  case True
  let ?n = "normalizeEntry (Some (spread (map_of target i) [(Ignored,
    if allowsReportIgnores (map_of target i) then e_ignored (or_no_fields (map_of target i)) else JUndef)]))"
  have "map_of (applyToReactiveState target m xs) i = map_of (fst (write_back m i ?n)) i"
    unfolding applyToReactiveState_def write_back_lookup
    using True target_loop.fold_at [of "js_set xs" i target m] by simp
  also have "get_field f (view \<dots>) = get_field f (view (map_of target i))"
    unfolding view_write_back [OF scalar_main [OF assms]] view_normalize view_Some
    using assms by (cases "map_of target i") (auto simp: scalar_fields_def spread_def keep_str_def [of JUndef])
  finally show ?thesis using True by simp
qed (simp add: applyToReactiveState_def target_loop.fold_frame)

lemma effective_at: "i \<in> set xs \<Longrightarrow> view (map_of (effectiveLocalState base m xs) i) = view (map_of m i)"
  by (simp add: effective_view)

lemma captured_local: "localState (sess (captureOverlay y)) =
    effectiveLocalState (baseState (sess (captureOverlay y))) (live (captureOverlay y)) (ids (sess (captureOverlay y)))"
  by (simp add: captureOverlay_def read_local_def)

lemma applied_live:
  "live (applyOverlayAndPersist overlay [] None y) =
     applyToReactiveState (applyChangeset (baseState (sess y)) overlay) (live y) (ids (sess y))"
  "baseRevision (sess (applyOverlayAndPersist overlay [] None y)) = baseRevision (sess y)"
  "baseState (sess (applyOverlayAndPersist overlay [] None y)) = baseState (sess y)"
  "localState (sess (applyOverlayAndPersist overlay [] None y)) = applyChangeset (baseState (sess y)) overlay"
  "pending (sess (applyOverlayAndPersist overlay [] None y)) = pending (sess y)"
  by (simp_all add: applyOverlayAndPersist_def Let_def)

lemma save_leaves:
  "error (sess (trySendSave env y)) = error (sess y)" "staleResetAttempted (sess (trySendSave env y)) = staleResetAttempted (sess y)"
proof -
  have "error (sess (captureOverlay y)) = error (sess y)" "staleResetAttempted (sess (captureOverlay y)) = staleResetAttempted (sess y)"
    by (auto simp: captureOverlay_def refreshSessionIds_def read_local_def Let_def split: prod.splits if_splits)
  then show "error (sess (trySendSave env y)) = error (sess y)"
      "staleResetAttempted (sess (trySendSave env y)) = staleResetAttempted (sess y)"
    by (auto simp: trySendSave_def Let_def split: option.splits)
qed

lemma save_core: "core (sess (trySendSave env y)) = core (sess y)"
  using keeps_save [of _ y env] by (simp add: keeps_def)

section \<open>Properties\<close>

text \<open>C1: across the tabs of any browsers that share a workspace, under any interleaving of their edits, sends, dialogs,
  reconnections, key rotations, server switches and storage writes, and whatever frames relays send: two sessions at
  the same revision hold the same base, unless one of them will send the keyframe that replaces its base next.\<close>

theorem tabs_agree:
  assumes "authentic (penv pf) (id_verifying who) sgd" "acyclic_digest (penv pf)"
    and "opened w g" "run_reads_back pf who evs g" "opened w' g'" "run_reads_back pf who evs' g'"
    and "y \<in> set (tabs (grun pf who evs g))" "z \<in> set (tabs (grun pf who evs' g'))"
    and "baseRevision (sess y) = baseRevision (sess z)"
  shows "baseState (sess y) = baseState (sess z) \<or> heals_next (penv pf) (sess y) \<or> heals_next (penv pf) (sess z)"
  using run_sound(1) [OF assms(3,4,2,7)] run_sound(1) [OF assms(5,6,2,8)] replays_unique [OF assms(1)] assms(9)
  unfolding sound_def by metis



text \<open>C11: in every tab, whatever happened to it, at most one save of the current connection is being sealed, and while one
  is, none is in flight: what a session puts on the wire is its only save there.\<close>

theorem one_save_at_a_time:
  assumes "opened w g" "y \<in> set (tabs (grun pf who evs g))"
  shows "length (filter (\<lambda>t. e_gen t = generation (sess y)) (encs y)) \<le> 1
    \<and> (\<forall>t \<in> set (encs y). e_gen t = generation (sess y) \<longrightarrow> pending (sess y) = None)"
  using lane_grun [OF assms] by (auto simp: lane_ok_def filter_empty_conv split: if_splits)

text \<open>C13: every answer to a rejected save: one that is not of the save in flight changes nothing; a relay that is busy or down
  has the save sent again after a pause; the first stale base gives the base up, so that the next save is a keyframe over
  whatever the relay has, and the state is kept; a second one, or any other reason, stops the session with an error,
  and it sends no save until the error is cleared.\<close>

theorem save_error_answers:
  "let y' = handleSaveError env base reason y; r = save_error_reason reason; recoverable = map units RECOVERABLE_SAVE_ERROR_REASONS;
       kept = (baseRevision (sess y') = baseRevision (sess y) \<and> encs y' = encs y) in
    if \<not> matches_pending base (sess y) then y' = y
    else pending (sess y') = None \<and> baseState (sess y') = baseState (sess y)
      \<and> (if r \<in> set recoverable then kept \<and> pendingSave (sess y') \<and> busyRetryTimer (sess y') \<and> error (sess y') = error (sess y)
         else if r = units ''stale-base'' \<and> \<not> staleResetAttempted (sess y)
         then baseRevision (sess y') = None \<and> heals_next env (sess y') \<and> staleResetAttempted (sess y') \<and> error (sess y') = error (sess y)
         else kept \<and> error (sess y') \<noteq> None \<and> trySendSave env y' = y')"
proof -
  have "core (sess (persistSession z)) = core (sess z)" "error (sess (persistSession z)) = error (sess z)" for z by simp_all
  then show ?thesis
    using save_core [unfolded core_eq] save_leaves
    by (simp add: handleSaveError_def Let_def heals_next_def trySendSave_def [of _ "_\<lparr>sess := _\<lparr>pending := None, consecutiveFailures := _, error := _\<rparr>\<rparr>"])
qed

text \<open>C9: what tabs keep across reloads: a session stored for the workspace and a session at the same revision, of any tab
  of any browser, hold the same base, unless one of the two is to be replaced by the keyframe sent next.\<close>

theorem stored_session_agrees:
  assumes "authentic (penv pf) (id_verifying who) sgd" "acyclic_digest (penv pf)"
    and "opened w g" "run_reads_back pf who evs g" "opened w' g'" "run_reads_back pf who evs' g'"
    and "loadPersistedSession (shared (grun pf who evs g)) w url = Some r" "z \<in> set (tabs (grun pf who evs' g'))"
    and "rs_base r = baseRevision (sess z)"
  shows "rs_state r = baseState (sess z) \<or> keyframeInterval (penv pf) \<le> rs_saves r \<or> heals_next (penv pf) (sess z)"
proof -
  have "disk_sound pf who w (shared (grun pf who evs g))" using grun_ok [OF assms(3,4,2)] by (simp add: world_ok_def)
  then have "state_of pf who (rs_base r) (rs_state r) \<or> keyframeInterval (penv pf) \<le> rs_saves r"
    using restored_sound [of pf who w "shared (grun pf who evs g)" url] assms(7) by (simp add: restored_at_def)
  then show ?thesis
    using run_sound(1) [OF assms(5,6,2,8)] replays_unique [OF assms(1)] assms(9) unfolding sound_def by metis
qed

lemma sealed_payload:
  assumes "seal_save pf t nonce = Some (p, sig, i)"
  shows "p_key p = e_tag t" "p_base p = e_base t" "\<exists>b. canonicalSavePayload p = Inr b \<and> c_digest (penv pf) b = i"
  using assms by (auto simp: seal_save_def Let_def split: sum.splits prod.splits)

text \<open>C14: from a session's save to the relay and back: when a relay commits the save a session has in flight, the frame it
  answers with is the one the session waits for, and takes the session's base to the relay's head.\<close>

theorem acked_save_is_head:
  assumes "seal_save pf t nonce = Some (p, sig, i)" "digest renv = c_digest (penv pf)"
    and "commitSave renv pre known (commits xs) later (wire_save p sig) authRequired = (Acked j b, tbl', bc)"
    and "pending (sess y) = Some q" "ps_base q = e_base t" "ps_id q = i" "workspaceTag (sess y) = Some (e_tag t)"
  shows "\<exists>f. save_frames (e_tag t) (Acked j b) = [f] \<and> pending (sess (handleMessage (penv pf) f y)) = None
    \<and> baseRevision (sess (handleMessage (penv pf) f y)) = headFor tbl' (e_tag t)"
proof -
  note a = commitSave_acked [OF commits_ok assms(3)] and s = sealed_payload [OF assms(1)]
  note r = row_of_msg [OF a(1), of "commits xs" j]
  obtain bytes where bytes: "canonicalSavePayload p = Inr bytes" "c_digest (penv pf) bytes = i" using s(3) by blast
  have "encodeUtf8 (Text (join_lines (save_lines p))) = Inr (encode (join_lines (save_lines p)))"
    using canonical_text [OF a(1)] by simp
  then have "canonicalSave (wire_save p sig) = Inr bytes"
    using canonical_gated(1) [OF a(1)] bytes(1) by (simp add: canonicalSavePayload_def)
  then have j: "j = i" using assms(2,3) a(1) bytes(2)
    by (auto simp: commitSave_def commit_cases [OF commits_ok] Let_def split: if_splits)
  have tag: "r_tag (new_row (commits xs) (insert_of (wire_save p sig) j)) = e_tag t"
    using r(3) s(1) by (simp add: wire_save_def)
  have "headFor tbl' (e_tag t) = end_id None (tag_rows tbl' (e_tag t))" by (rule headFor_rows [OF a(5)])
  also have "tag_rows tbl' (e_tag t) = tag_rows (commits xs) (e_tag t) @ [new_row (commits xs) (insert_of (wire_save p sig) j)]"
    using tag by (simp add: a(2) tag_rows_def)
  finally have "headFor tbl' (e_tag t) = Some i" using r(5) j by (simp add: end_id_def)
  moreover have "b = e_base t" unfolding a(4) by (cases "p_base p") (simp_all add: wire_save_def s(2) [symmetric])
  ultimately show ?thesis using assms(4-7) j
    by (simp add: save_frames_def handleMessage_def tag_is_def handleAck_def applied_live Let_def)
qed

section \<open>Examples\<close>

definition sample_pf :: platform where
  "sample_pf = \<lparr>penv = sample_env, stringify = (\<lambda>cs. []), sign = (\<lambda>k b. units ''s''), has_resolver = False\<rparr>"

definition sample_who :: identity where
  "sample_who = \<lparr>id_tag = units ''k'', id_verifying = [1], id_signing = [3], id_key = [2]\<rparr>"

definition raw_tab :: "tmap \<Rightarrow> sync" where
  "raw_tab m = \<lparr>sess = fresh_session [] [] [], live = m, scope = [''f''], userEnabled = True, forcedOff = False, hasWorkspaces = True, socket = Some 0,
     challenge = Some [], serverUrl = units ''u'', inbox = [], handler = None, encs = [], subs = [], dialogs = [],
     persists = [], disk = NoBlob, degradation = \<lparr>degraded = False, announced = []\<rparr>, outbox = []\<rparr>"

definition sample_tab :: "tmap \<Rightarrow> sync" where
  "sample_tab m = openSession ''w'' (raw_tab m)"

definition one_tab :: "sync \<Rightarrow> world" where
  "one_tab y = \<lparr>tabs = [y], shared = disk y\<rparr>"

definition red :: tmap where
  "red = [(''f'', no_fields\<lparr>e_color := JStr ''red''\<rparr>)]"

definition sample_id :: ustr where
  "sample_id = 100 # map ucast sample_bytes"

definition saving :: "event list" where
  "saving = [KeysDerived 1, EncDone 0 (Some []), Receive (SaveAck (WStr (units ''k'')) WNull (WStr sample_id)), NextFrame,
     PersistRun 0 True]"

definition following :: "event list" where
  "following = [KeysDerived 1, Receive (StateFrame (WStr (units ''k'')) (Some [Some (row_wire sample_row)])), NextFrame, Resume None]"

lemma one_tab_run: "grun pf who (map (Pair 0) evs) (one_tab y) = one_tab (run pf who evs y)"
proof (induction evs arbitrary: y)
  case (Cons ev evs)
  then show ?case by (simp add: grun_def run_def gstep_def one_tab_def Let_def)
qed (simp add: grun_def run_def)

lemma one_tab_opened: "opened ''w'' (one_tab (sample_tab m))"
proof -
  have d: "disk (sample_tab m) = NoBlob" by (simp add: sample_tab_def openSession_def Let_def raw_tab_def)
  have "raw_tab m\<lparr>disk := NoBlob\<rparr> = raw_tab m" by (simp add: raw_tab_def)
  then have "sample_tab m = openSession ''w'' (raw_tab m\<lparr>disk := NoBlob\<rparr>)" by (simp add: sample_tab_def)
  then show ?thesis unfolding opened_def one_tab_def d by auto
qed

fun all_along :: "platform \<Rightarrow> identity \<Rightarrow> (sync \<Rightarrow> bool) \<Rightarrow> event list \<Rightarrow> sync \<Rightarrow> bool" where
  "all_along pf who P [] y = P y"
| "all_along pf who P (ev # evs) y = (P y \<and> all_along pf who P evs (step pf who ev y))"

lemma all_along_iff: "all_along pf who P evs y \<longleftrightarrow> (\<forall>n \<le> length evs. P (run pf who (take n evs) y))"
proof (induction evs arbitrary: y)
  case (Cons ev evs)
  have "(\<forall>n \<le> Suc k. Q n) \<longleftrightarrow> Q 0 \<and> (\<forall>n \<le> k. Q (Suc n))" for Q and k :: nat
    by (metis Suc_le_mono le0 not0_implies_Suc)
  note this [of "length evs" "\<lambda>n. P (run pf who (take n (ev # evs)) y)"]
  then have "(\<forall>n \<le> length (ev # evs). P (run pf who (take n (ev # evs)) y)) \<longleftrightarrow>
      P y \<and> (\<forall>n \<le> length evs. P (run pf who (take n evs) (step pf who ev y)))"
    by (simp add: run_def)
  then show ?case by (simp add: Cons.IH)
qed (simp add: run_def)

lemma one_tab_reads: "run_reads_back pf who (map (Pair 0) evs) (one_tab y) \<longleftrightarrow> all_along pf who (\<lambda>y. list_all (reads_back pf who) (encs y)) evs y"
  unfolding run_reads_back_def all_along_iff take_map one_tab_run by (simp add: one_tab_def)

text \<open>The states of the two runs.\<close>

definition keyed_session :: "tmap \<Rightarrow> session" where
  "keyed_session m = (fresh_session (units ''k'') [1] [2])\<lparr>signingKey := Some [3], localState := m, keyDerivationGen := 1\<rparr>"

definition sample_task :: enc_task where
  "sample_task = \<lparr>e_gen = 0, e_tag = units ''k'', e_base = None, e_changeset = sample_changeset, e_keyframe = False,
     e_key = [2], e_signing = [3]\<rparr>"

definition sample_subscribe :: sub_task where
  "sample_subscribe = \<lparr>u_gen = 0, u_tag = units ''k'', u_from = None, u_socket = 0, u_nonce = [], u_signing = [3]\<rparr>"

definition sample_pending :: pending_save where
  "sample_pending = \<lparr>ps_base = None, ps_id = sample_id, ps_changeset = sample_changeset, ps_keyframe = False\<rparr>"

definition acked_session :: session where
  "acked_session = (keyed_session red)\<lparr>baseState := red, baseRevision := Some sample_id, hasBase := True,
     appliedRevisions := [sample_id], savesSinceKeyframe := 1\<rparr>"

definition acked_tab :: sync where
  "acked_tab = (raw_tab red)\<lparr>sess := acked_session, subs := [sample_subscribe], handler := Some (AckSaved 0),
     persists := [(0, units ''u'', session_entry (units ''u'') acked_session)],
     outbox := [SendSave sample_payload (units ''s'')]\<rparr>"

lemma hydrates: "m \<in> {red, []} \<Longrightarrow> hydrateStateFromBaseState [] m [''f''] = (m, [])"
  by (auto simp: hydrateStateFromBaseState_def hydrate_id_def red_def)

lemma norm_red: "normalizeEntry (Some (no_fields\<lparr>e_color := JStr ''red''\<rparr>)) = Some (no_fields\<lparr>e_color := JStr ''red''\<rparr>)"
    "normalizeEntry None = None"
  by (code_simp, simp add: normalizeEntry.simps)

lemma effective_red: "m \<in> {red, []} \<Longrightarrow> effectiveLocalState base m [''f''] = store_entry ''f'' (map_of m ''f'') base"
  by (auto simp: effectiveLocalState_def red_def js_set_def set_add_def norm_red)

lemma changes_red: "computeChangeset [] red = sample_changeset" "computeChangeset red red = []" "computeChangeset [] [] = []"
    "applyChangeset [] sample_changeset = red" "applyChangeset red [] = red" "store_entry ''f'' (map_of red ''f'') red = red"
    "store_entry ''f'' (map_of red ''f'') [] = red" "store_entry ''f'' None [] = []"
  by code_simp+

lemma sample_opens: "m \<in> {red, []} \<Longrightarrow> sample_tab m = (raw_tab m)\<lparr>sess := (keyed_session m)\<lparr>key := None, signingKey := None,
    verifyingKey := None, workspaceTag := None\<rparr>\<rparr>"
  using changes_red(7,8)
  by (auto simp: sample_tab_def raw_tab_def openSession_def restored_at_def loadPersistedSession_def Let_def hydrates
      effective_red keyed_session_def fresh_session_def)

lemma saving_1: "step sample_pf sample_who (KeysDerived 1) (sample_tab red) = (raw_tab red)\<lparr>
    sess := (keyed_session red)\<lparr>encrypting := True\<rparr>, subs := [sample_subscribe], encs := [sample_task]\<rparr>"
  using changes_red(1,7)
  by (simp add: sample_opens keys_derived_def raw_tab_def keyed_session_def fresh_session_def trySendSubscribe_def trySendSave_def
      captureOverlay_def refreshSessionIds_def read_local_def effective_red Let_def sample_who_def sample_pf_def sample_interval
      isActive_def units_def sample_subscribe_def sample_task_def changesetEmpty_def sample_changeset_def)

lemma sample_parts:
  "penv sample_pf = sample_env" "stringify sample_pf = (\<lambda>cs. [])" "sign sample_pf = (\<lambda>k b. units ''s'')" "\<not> has_resolver sample_pf"
  "e_gen sample_task = 0" "e_tag sample_task = units ''k''" "e_base sample_task = None" "e_changeset sample_task = sample_changeset"
  "e_keyframe sample_task = False"
  by (simp_all add: sample_pf_def sample_task_def)

lemma sample_sealed: "seal_save sample_pf sample_task nonce = Some (sample_payload, units ''s'', sample_id)"
proof -
  have aad: "buildAad (units ''k'') None = Inr (encode (units ''k'' @ units ''|''))"
    unfolding buildAad_def or_blank_simps append_Nil2 by (rule small_encodes) (simp add: small_def units_def)
  have "encodeUtf8 (Text []) = Inr (encode [])" by (rule small_encodes) (simp add: small_def)
  moreover have "encode [] = []" by code_simp
  ultimately have enc: "encryptJson (c_envelope sample_env) (\<lambda>cs. []) nonce key cs a = Inr (units ''n'', units ''n'')" for key cs a
    by (simp add: encryptJson_def frameAndPad_def Let_def) (simp add: sample_env_def)
  have p: "\<lparr>p_key = units ''k'', p_base = None, p_keyframe = False, p_nonce = units ''n'', p_cipher = units ''n''\<rparr> = sample_payload"
    by (simp add: sample_payload_def)
  show ?thesis unfolding seal_save_def sample_parts aad enc sum.case prod.case Let_def p sample_fields(2)
    by (simp add: sample_id_def) (simp add: sample_env_def)
qed

lemma saving_2: "step sample_pf sample_who (EncDone 0 (Some [])) ((raw_tab red)\<lparr>
    sess := (keyed_session red)\<lparr>encrypting := True\<rparr>, subs := [sample_subscribe], encs := [sample_task]\<rparr>) =
  (raw_tab red)\<lparr>sess := (keyed_session red)\<lparr>pending := Some sample_pending\<rparr>, subs := [sample_subscribe],
    outbox := [SendSave sample_payload (units ''s'')]\<rparr>"
  by (simp add: nth_option_def drop_nth_def enc_done_def sample_sealed enc_sealed_def enc_finally_def raw_tab_def keyed_session_def
      fresh_session_def sample_pending_def) (simp add: sample_parts)

abbreviation ack_frame :: frame where
  "ack_frame \<equiv> SaveAck (WStr (units ''k'')) WNull (WStr sample_id)"

lemma reactive_red: "applyToReactiveState red red [''f''] = red" "applyToReactiveState red [] [''f''] = red"
  by code_simp+

lemma saving_3:
  fixes y defines "y \<equiv> (raw_tab red)\<lparr>sess := (keyed_session red)\<lparr>pending := Some sample_pending\<rparr>, subs := [sample_subscribe],
    outbox := [SendSave sample_payload (units ''s'')]\<rparr>"
  shows "step sample_pf sample_who (Receive ack_frame) y = y\<lparr>inbox := [(ack_frame, 0)]\<rparr>"
    "step sample_pf sample_who NextFrame (y\<lparr>inbox := [(ack_frame, 0)]\<rparr>) = acked_tab"
proof -
  have k: "workspaceTag (keyed_session red) = Some (units ''k'')" "generation (keyed_session red) = 0"
    by (simp_all add: keyed_session_def fresh_session_def)
  show "step sample_pf sample_who (Receive ack_frame) y = y\<lparr>inbox := [(ack_frame, 0)]\<rparr>"
    by (simp add: y_def receive_def tag_is_def k raw_tab_def)
  have c: "captureOverlay (y\<lparr>inbox := []\<rparr>) = y"
    using changes_red(7)
    by (simp add: y_def captureOverlay_def refreshSessionIds_def read_local_def raw_tab_def keyed_session_def fresh_session_def
        Let_def effective_red)
  have f: "handler y = None" "pending (sess y) = Some sample_pending" "workspaceTag (sess y) = Some (units ''k'')"
      "generation (sess y) = 0" "localState (sess y) = red" "baseState (sess y) = []" "appliedRevisions (sess y) = []"
      "savesSinceKeyframe (sess y) = 0" "live y = red" "ids (sess y) = [''f'']" "serverUrl y = units ''u''"
      "persists y = []"
    by (simp_all add: y_def raw_tab_def keyed_session_def fresh_session_def)
  have "handleAck sample_env WNull (WStr sample_id) (y\<lparr>inbox := []\<rparr>) = acked_tab"
    using f changes_red(2,4,5) reactive_red(1)
    by (simp add: handleAck_def c Let_def sample_pending_def applyOverlayAndPersist_def persistSession_def sample_interval units_def set_add_def)
      (simp add: acked_tab_def acked_session_def y_def units_def raw_tab_def keyed_session_def fresh_session_def)
  then show "step sample_pf sample_who NextFrame (y\<lparr>inbox := [(ack_frame, 0)]\<rparr>) = acked_tab"
    by (simp add: next_frame_def f handleMessage_def tag_is_def sample_parts)
qed

lemma saving_4: "step sample_pf sample_who (PersistRun 0 True) acked_tab =
    acked_tab\<lparr>persists := [], disk := Tagged SESSIONS_VERSION (Some [(''w'', session_entry (units ''u'') acked_session)])\<rparr>"
proof -
  have f: "persists acked_tab = [(0, units ''u'', session_entry (units ''u'') acked_session)]" "disk acked_tab = NoBlob"
      "generation (sess acked_tab) = 0" "serverUrl acked_tab = units ''u''" "workspaceId (sess acked_tab) = ''w''"
      "degradation acked_tab = \<lparr>degraded = False, announced = []\<rparr>"
    by (simp_all add: acked_tab_def raw_tab_def acked_session_def keyed_session_def fresh_session_def)
  have "map_set ''w'' e [] = [(''w'', e)]" for e :: pentry by simp
  then show ?thesis
    by (simp add: f nth_option_def drop_nth_def persist_run_def write_snapshot_def mutateAllSessions_def loadAllSessionsResult_def
        writeAllSessionsRaw_def setPersistenceDegraded_def)
qed

abbreviation chain_frame :: frame where
  "chain_frame \<equiv> StateFrame (WStr (units ''k'')) (Some [Some (row_wire sample_row)])"

definition followed_start :: chain_start where
  "followed_start = \<lparr>k_gen = 0, k_tag = Some (units ''k''), k_oldBase = [], k_pending = None, k_before = None,
     k_candidate = advance sample_env False sample_id sample_changeset ((keyed_session [])\<lparr>receiving := True\<rparr>), k_ok = True\<rparr>"

definition listening_tab :: sync where
  "listening_tab = (raw_tab [])\<lparr>sess := keyed_session [], subs := [sample_subscribe]\<rparr>"

definition waiting_tab :: sync where
  "waiting_tab = listening_tab\<lparr>sess := (keyed_session [])\<lparr>receiving := True\<rparr>\<rparr>"

lemma following_1: "step sample_pf sample_who (KeysDerived 1) (sample_tab []) = listening_tab"
  using changes_red(3,8)
  by (simp add: sample_opens keys_derived_def raw_tab_def keyed_session_def fresh_session_def trySendSubscribe_def trySendSave_def
      captureOverlay_def refreshSessionIds_def read_local_def effective_red Let_def sample_who_def sample_pf_def sample_interval
      isActive_def units_def sample_subscribe_def changesetEmpty_def listening_tab_def)

lemma following_2: "step sample_pf sample_who (Receive chain_frame) listening_tab = listening_tab\<lparr>inbox := [(chain_frame, 0)]\<rparr>"
  by (simp add: receive_def tag_is_def listening_tab_def raw_tab_def keyed_session_def fresh_session_def)

lemma following_3: "step sample_pf sample_who NextFrame (listening_tab\<lparr>inbox := [(chain_frame, 0)]\<rparr>) =
    waiting_tab\<lparr>handler := Some (ChainCrypto followed_start)\<rparr>"
proof -
  let ?y = "listening_tab\<lparr>inbox := []\<rparr>"
  have f: "handler ?y = None" "workspaceTag (sess ?y) = Some (units ''k'')" "generation (sess ?y) = 0" "key (sess ?y) = Some [2]"
    by (simp_all add: listening_tab_def raw_tab_def keyed_session_def fresh_session_def)
  have c: "captureOverlay (listening_tab\<lparr>inbox := [], sess := sess listening_tab\<lparr>receiving := True\<rparr>\<rparr>) = waiting_tab"
    using changes_red(8)
    by (simp add: waiting_tab_def listening_tab_def captureOverlay_def refreshSessionIds_def read_local_def raw_tab_def
        keyed_session_def fresh_session_def Let_def effective_red)
  have s: "sess waiting_tab = (keyed_session [])\<lparr>receiving := True\<rparr>" by (simp add: waiting_tab_def)
  have k: "keys_are (units ''k'') [1] [2] (keyed_session [])" "baseRevision (keyed_session []) = None"
      "appliedRevisions (keyed_session []) = []" "(keyed_session [])\<lparr>appliedRevisions := []\<rparr> = keyed_session []"
      "generation (keyed_session []) = 0" "workspaceTag (keyed_session []) = Some (units ''k'')" "baseState (keyed_session []) = []"
      "pending (keyed_session []) = None"
    by (simp_all add: keyed_session_def fresh_session_def keys_are_def)
  have r: "(keyed_session [])\<lparr>receiving := True, appliedRevisions := []\<rparr> = (keyed_session [])\<lparr>receiving := True\<rparr>"
    by (simp add: keyed_session_def fresh_session_def)
  have "keys_are (units ''k'') [1] [2] (keyed_session []\<lparr>receiving := True\<rparr>)" using k(1) by (simp add: keys_are_def)
  from sample_applies [OF this, of "[]"] have "applyChainToBase sample_env [] [Some (row_wire sample_row)] (keyed_session []\<lparr>receiving := True\<rparr>) =
      (advance sample_env False sample_id sample_changeset (keyed_session []\<lparr>receiving := True\<rparr>), True)"
    using k by (simp add: sample_row_fields sample_id_def del: applyChainToBase.simps(3))
  then have "handleChain sample_env (Some [Some (row_wire sample_row)]) ?y = waiting_tab\<lparr>handler := Some (ChainCrypto followed_start)\<rparr>"
    using f k by (simp add: handleChain_def c s r Let_def followed_start_def del: applyChainToBase.simps(3))
  then show ?thesis
    using f by (simp add: next_frame_def handleMessage_def tag_is_def sample_parts)
qed

lemma following_4:
  fixes y defines "y \<equiv> step sample_pf sample_who (Resume None) (waiting_tab\<lparr>handler := Some (ChainCrypto followed_start)\<rparr>)"
  shows "baseRevision (sess y) = Some sample_id" "savesSinceKeyframe (sess y) = 1" "encs y = []"
proof -
  have f: "generation (sess waiting_tab) = 0" "workspaceTag (sess waiting_tab) = Some (units ''k'')" "encs waiting_tab = []"
      "handler waiting_tab = None" "k_before followed_start = None" "k_gen followed_start = 0" "k_tag followed_start = Some (units ''k'')"
      "baseRevision (k_candidate followed_start) = Some sample_id" "savesSinceKeyframe (k_candidate followed_start) = 1"
    by (simp_all add: waiting_tab_def listening_tab_def raw_tab_def keyed_session_def fresh_session_def followed_start_def sample_interval)
  have w: "waiting_tab\<lparr>handler := None\<rparr> = waiting_tab" using f(4) by simp
  obtain p where y: "y = chain_merge followed_start (overlay_base followed_start) p [] None (captureOverlay waiting_tab)
      \<or> (\<exists>cs. y = chain_merge followed_start (overlay_base followed_start) p cs None (captureOverlay waiting_tab))"
    using f by (auto simp: y_def resume_def w chain_verified_def is_current_def sample_parts Let_def)
  have "baseRevision (sess (chain_merge followed_start b p cs None z)) = Some sample_id"
      "savesSinceKeyframe (sess (chain_merge followed_start b p cs None z)) = 1" for b p cs z
    using f by (simp_all add: chain_merge_def applyOverlayAndPersist_def Let_def)
  with y show "baseRevision (sess y) = Some sample_id" "savesSinceKeyframe (sess y) = 1" by auto
  have "encs (chain_merge k b p cs None (captureOverlay z)) = encs z" for k b p cs z
    using lane_trans [OF lane_capture lane_chain_merge] by (simp add: lane_def)
  with y show "encs y = []" using f(3) by auto
qed

lemma sample_reads_back: "reads_back sample_pf sample_who sample_task"
proof -
  have "verifySavePayload sample_env vk sample_payload sig" for vk sig
    using sample_fields(2) by (simp add: verifySavePayload_def) (simp add: sample_env_def)
  then show ?thesis by (simp add: reads_back_def sample_sealed sample_parts sample_decrypts sample_who_def)
qed

definition saved_tab :: sync where
  "saved_tab = acked_tab\<lparr>persists := [], disk := Tagged SESSIONS_VERSION (Some [(''w'', session_entry (units ''u'') acked_session)])\<rparr>"

lemma saving_run: "run sample_pf sample_who saving (sample_tab red) = saved_tab"
  by (simp add: run_def saving_def saving_1 saving_2 saving_3 saving_4 saved_tab_def del: step.simps One_nat_def)

lemma saving_reads_back: "all_along sample_pf sample_who (\<lambda>y. list_all (reads_back sample_pf sample_who) (encs y)) saving (sample_tab red)"
  using sample_reads_back
  by (simp add: saving_def saving_1 saving_2 saving_3 saving_4 del: step.simps One_nat_def) (simp add: sample_opens raw_tab_def acked_tab_def)

definition following_tab :: sync where
  "following_tab = step sample_pf sample_who (Resume None) (waiting_tab\<lparr>handler := Some (ChainCrypto followed_start)\<rparr>)"

lemma following_run: "run sample_pf sample_who following (sample_tab []) = following_tab"
  by (simp add: run_def following_def following_1 following_2 following_3 following_tab_def del: step.simps One_nat_def)

lemma following_reads_back: "all_along sample_pf sample_who (\<lambda>y. list_all (reads_back sample_pf sample_who) (encs y)) following (sample_tab [])"
  by (simp add: following_def following_1 following_2 following_3 following_4 del: step.simps One_nat_def)
    (simp add: sample_opens raw_tab_def listening_tab_def waiting_tab_def)

lemma units_le_bytes: "length us \<le> length (concat (map utf8_bytes (scalars us)))"
proof (induction us rule: scalars.induct)
  case (2 u)
  then show ?case using utf8_bytes_not_Nil [of u] by (cases "utf8_bytes u") (auto simp: utf8_bytes_def [of 65533])
next
  case (3 u v us)
  then show ?case
    using utf8_bytes_not_Nil [of u] by (cases "utf8_bytes u") (auto simp: utf8_bytes_def)
qed simp

lemma sample_acyclic: "acyclic_digest sample_env"
proof -
  have "length b < length i" if r: "computeRevisionId sample_env p = Some i" "p_base p = Some b" for p i b
  proof -
    obtain bytes where b: "canonicalSavePayload p = Inr bytes" "i = 100 # map ucast bytes"
      using r(1) by (auto simp: computeRevisionId_def sample_env_def split: sum.splits)
    then have "bytes = encode (join_lines (save_lines p))"
      by (simp add: canonicalSavePayload_def encodeUtf8_def split: if_splits)
    then have "length (join_lines (save_lines p)) \<le> length bytes"
      using units_le_bytes [of "map unat (join_lines (save_lines p))"] by (simp add: encode_def)
    moreover have "length b \<le> length (join_lines (save_lines p))" using r(2) by (simp add: save_lines_def)
    ultimately show ?thesis using b(2) by simp
  qed
  then show ?thesis unfolding acyclic_digest_def by blast
qed

lemma sample_interval_pf: "keyframeInterval (penv sample_pf) = 100"
  by (simp add: sample_parts sample_interval)

lemmas both_runs = one_tab_opened one_tab_reads [THEN iffD2, OF saving_reads_back] one_tab_opened
  one_tab_reads [THEN iffD2, OF following_reads_back]

lemma saved_fields:
  "baseRevision (sess saved_tab) = Some sample_id" "baseState (sess saved_tab) = red" "savesSinceKeyframe (sess saved_tab) = 1"
  by (simp_all add: saved_tab_def acked_tab_def acked_session_def)

lemma following_fields: "baseRevision (sess following_tab) = Some sample_id" "savesSinceKeyframe (sess following_tab) = 1"
  unfolding following_tab_def by (fact following_4)+

lemma run_tabs:
  "set (tabs (grun sample_pf sample_who (map (Pair 0) saving) (one_tab (sample_tab red)))) = {saved_tab}"
  "set (tabs (grun sample_pf sample_who (map (Pair 0) following) (one_tab (sample_tab [])))) = {following_tab}"
  unfolding one_tab_run saving_run following_run by (simp_all add: one_tab_def)

theorem tabs_agree_witness:
  "baseRevision (sess (run sample_pf sample_who saving (sample_tab red))) = Some sample_id
    \<and> baseState (sess (run sample_pf sample_who saving (sample_tab red)))
        = baseState (sess (run sample_pf sample_who following (sample_tab [])))"
proof -
  have a: "authentic (penv sample_pf) (id_verifying sample_who) {sample_payload}" "acyclic_digest (penv sample_pf)"
    using sample_authentic sample_acyclic by (simp_all add: sample_parts)
  have "baseRevision (sess saved_tab) = baseRevision (sess following_tab)" by (simp add: saved_fields following_fields)
  from tabs_agree [OF a both_runs _ _ this]
  have "baseState (sess saved_tab) = baseState (sess following_tab)"
    by (simp add: run_tabs heals_next_def saved_fields following_fields sample_interval_pf)
  then show ?thesis by (simp add: saving_run following_run saved_fields)
qed

theorem stored_session_agrees_witness:
  "\<exists>r. loadPersistedSession (disk (run sample_pf sample_who saving (sample_tab red))) ''w'' (units ''u'') = Some r
    \<and> rs_base r = Some sample_id \<and> rs_state r = baseState (sess (run sample_pf sample_who following (sample_tab [])))"
proof -
  have a: "authentic (penv sample_pf) (id_verifying sample_who) {sample_payload}" "acyclic_digest (penv sample_pf)"
    using sample_authentic sample_acyclic by (simp_all add: sample_parts)
  have shared: "shared (grun sample_pf sample_who (map (Pair 0) saving) (one_tab (sample_tab red))) = disk saved_tab"
    unfolding one_tab_run saving_run by (simp add: one_tab_def)
  obtain r where r: "loadPersistedSession (disk saved_tab) ''w'' (units ''u'') = Some r" "rs_base r = Some sample_id" "rs_saves r = 1"
    by (auto simp: saved_tab_def loadPersistedSession_def session_entry_def snapshot_def acked_session_def units_def)
  have load: "loadPersistedSession (shared (grun sample_pf sample_who (map (Pair 0) saving) (one_tab (sample_tab red)))) ''w'' (units ''u'') = Some r"
    unfolding shared by (rule r(1))
  have "rs_base r = baseRevision (sess following_tab)" by (simp add: r following_fields)
  from stored_session_agrees [OF a both_runs load _ this] have "rs_state r = baseState (sess following_tab)"
    by (simp add: run_tabs heals_next_def r following_fields sample_interval_pf)
  then show ?thesis using r by (simp add: saving_run following_run)
qed

theorem one_save_at_a_time_witness:
  "encs (run sample_pf sample_who [KeysDerived 1] (sample_tab red)) = [sample_task]
    \<and> pending (sess (run sample_pf sample_who [KeysDerived 1] (sample_tab red))) = None"
proof -
  let ?y = "run sample_pf sample_who [KeysDerived 1] (sample_tab red)"
  have y: "?y = (raw_tab red)\<lparr>sess := (keyed_session red)\<lparr>encrypting := True\<rparr>, subs := [sample_subscribe], encs := [sample_task]\<rparr>"
    by (simp add: run_def saving_1 del: step.simps One_nat_def)
  have "?y \<in> set (tabs (grun sample_pf sample_who (map (Pair 0) [KeysDerived 1]) (one_tab (sample_tab red))))"
    unfolding one_tab_run by (simp add: one_tab_def)
  from one_save_at_a_time [OF one_tab_opened this] have "\<forall>t \<in> set (encs ?y). e_gen t = generation (sess ?y) \<longrightarrow> pending (sess ?y) = None" ..
  then show ?thesis unfolding y by (simp add: sample_parts keyed_session_def fresh_session_def)
qed

definition in_flight_tab :: sync where
  "in_flight_tab = (raw_tab red)\<lparr>sess := (keyed_session red)\<lparr>pending := Some sample_pending\<rparr>\<rparr>"

lemma in_flight_live: "live (captureOverlay in_flight_tab) = red" "ids (sess (captureOverlay in_flight_tab)) = [''f'']"
  by (simp_all add: in_flight_tab_def captureOverlay_def refreshSessionIds_def read_local_def raw_tab_def keyed_session_def fresh_session_def Let_def)



definition sample_relay :: relay_env where
  "sample_relay = \<lparr>digest = c_digest sample_env, b64url = (\<lambda>s. if s = units ''k'' then replicate 32 0 else replicate 64 0),
     ed25519 = (\<lambda>k s b. Some True)\<rparr>"

theorem acked_save_is_head_witness:
  "\<exists>tbl'. fst (snd (commitSave sample_relay [] True [] (\<lambda>t. t) (wire_save sample_payload (units ''s'')) True)) = tbl'
    \<and> baseRevision (sess (handleMessage sample_env ack_frame in_flight_tab)) = headFor tbl' (units ''k'')"
proof -
  define m where "m = wire_save sample_payload (units ''s'')"
  have shape: "save_shape_ok m"
    by (simp add: m_def sample_payload_def wire_save_def save_shape_ok_def validTagSigBase_def validNonce_def validCiphertextShape_def
        units_def tag_char_def cipher_char_def word_char_def in_range_def MAX_FIELD_LEN_def wnullish_def)
  obtain bytes where bytes: "canonicalSave m = Inr bytes" using canonical_gated(1) [OF shape] by blast
  let ?c = "commitSave sample_relay [] True [] (\<lambda>t. t) m True"
  have fields: "or_blank (wstr (m_tag m)) = units ''k''" "wstr (m_base m) = None" "or_blank (wstr (m_sig m)) = units ''s''"
      "or_blank (wstr (m_cipher m)) = units ''n''" "read_save m = sample_payload"
    by (simp_all add: m_def wire_save_def sample_payload_def read_save_def)
  have "fst ?c = Acked (digest sample_relay bytes) None"
    using shape fields by (simp add: commitSave_def bytes revisionExists_def verifyEd25519_def sample_relay_def commit_cases
        MAX_CIPHERTEXT_LEN_def insert_of_def headFor_def by_seq_def last_row_def Let_def units_def)
  then obtain tbl' bc where c: "?c = (Acked (digest sample_relay bytes) None, tbl', bc)" by (cases ?c) auto
  have d: "digest sample_relay = c_digest (penv sample_pf)" by (simp add: sample_relay_def sample_parts)
  have y: "pending (sess in_flight_tab) = Some sample_pending" "ps_base sample_pending = e_base sample_task"
      "ps_id sample_pending = sample_id" "workspaceTag (sess in_flight_tab) = Some (e_tag sample_task)"
    by (simp_all add: in_flight_tab_def sample_pending_def sample_parts keyed_session_def fresh_session_def)
  have "commits [] = []" by (simp add: commits_def)
  note acked_save_is_head [OF sample_sealed d, of "[]" True "[]" "\<lambda>t. t" True, unfolded this, OF c [unfolded m_def] y]
  moreover have "c_digest sample_env bytes = sample_id"
    using bytes sample_fields(2) canonical_gated(1) [OF shape] canonical_text [OF shape] fields(5)
    by (simp add: canonicalSavePayload_def sample_id_def) (simp add: sample_env_def)
  ultimately show ?thesis using c by (simp add: m_def save_frames_def sample_parts sample_relay_def)
qed

end
