(* ===== verification/SyncHub.thy ===== *)
theory SyncHub
  imports SyncRelay
begin

text \<open>
  The relay's fan-out of revisions: the subscriber registry with its pauses and its limit on what waits
  for a slow socket (\<^verbatim>\<open>src/server-e2e/hub.ts\<close>), the connections (\<^verbatim>\<open>src/server-e2e/peer.ts\<close>, \<open>setupPeerConnection\<close> of
  \<^verbatim>\<open>src/server-e2e/ws-server.ts\<close>), the lookups a subscribe starts and the turns of a save
  (\<^verbatim>\<open>src/server-e2e/sync-handlers.ts\<close>). Every \<open>await\<close> of the handlers ends a turn, and the turns of all
  handlers interleave as the events of \<open>hstep\<close>; the statements of a catch-up each read the table as it
  is then. A socket, a subscribe and a save are numbered as they come.
\<close>

section \<open>Sockets and pauses\<close>

type_synonym sock = nat

datatype ready_state = Unopened | Open | Closing | Closed

text \<open>What is held back for a paused socket. The code shares the object between the pauses of a socket and
  compares it by identity: a reference into \<open>cells\<close>.\<close>

record pausing =
  depth :: int
  payloads :: "frame list"
  held_bytes :: nat

record peer =
  challenge :: ustr
  peer_tags :: "ustr list"

record hub =
  ready :: "sock \<Rightarrow> ready_state"
  buffered :: "sock \<Rightarrow> nat"
  sent :: "sock \<Rightarrow> frame list"
  peers :: "sock \<Rightarrow> peer option"
  subscribers :: "ustr \<Rightarrow> sock list"
  cells :: "pausing list"
  paused :: "sock \<Rightarrow> nat option"

text \<open>The limit on buffered bytes, the length of a frame's JSON, and the platform of \<open>commitSave\<close>.\<close>

record hub_env =
  maxBufferedBytes :: nat
  byteLength :: "frame \<Rightarrow> nat"
  platform :: relay_env

definition terminate :: "sock \<Rightarrow> 'a hub_scheme \<Rightarrow> 'a hub_scheme" where
  "terminate s h = (if ready h s = Open then h\<lparr>ready := (ready h)(s := Closing)\<rparr> else h)"

definition sendRaw :: "hub_env \<Rightarrow> sock \<Rightarrow> frame \<Rightarrow> 'a hub_scheme \<Rightarrow> 'a hub_scheme" where
  "sendRaw env s f h =
     (if ready h s \<noteq> Open then h
      else if buffered h s > maxBufferedBytes env then terminate s h
      else h\<lparr>sent := (sent h)(s := sent h s @ [f]), buffered := (buffered h)(s := buffered h s + byteLength env f)\<rparr>)"

definition pauseBroadcasts :: "sock \<Rightarrow> 'a hub_scheme \<Rightarrow> nat \<times> 'a hub_scheme" where
  "pauseBroadcasts s h = (case paused h s of
       Some c \<Rightarrow> (c, h\<lparr>cells := (cells h)[c := (cells h ! c)\<lparr>depth := depth (cells h ! c) + 1\<rparr>]\<rparr>)
     | None \<Rightarrow> (length (cells h), h\<lparr>cells := cells h @ [\<lparr>depth = 1, payloads = [], held_bytes = 0\<rparr>],
         paused := (paused h)(s := Some (length (cells h)))\<rparr>))"

text \<open>The release \<open>pauseBroadcasts\<close> returns, on its first call.\<close>

definition release :: "hub_env \<Rightarrow> sock \<Rightarrow> nat \<Rightarrow> 'a hub_scheme \<Rightarrow> 'a hub_scheme" where
  "release env s c h =
     (let p = (cells h ! c)\<lparr>depth := depth (cells h ! c) - 1\<rparr>; h' = h\<lparr>cells := (cells h)[c := p]\<rparr> in
      if depth p > 0 \<or> paused h s \<noteq> Some c then h'
      else fold (sendRaw env s) (payloads p)
        (h'\<lparr>paused := (paused h)(s := None), cells := (cells h)[c := p\<lparr>payloads := []\<rparr>]\<rparr>))"

definition subscribe :: "sock \<Rightarrow> ustr \<Rightarrow> 'a hub_scheme \<Rightarrow> 'a hub_scheme" where
  "subscribe s tag h = h\<lparr>subscribers := (subscribers h)(tag := List.insert s (subscribers h tag)),
     peers := (peers h)(s := map_option (\<lambda>p. p\<lparr>peer_tags := List.insert tag (peer_tags p)\<rparr>) (peers h s))\<rparr>"

definition unsubscribeAll :: "sock \<Rightarrow> 'a hub_scheme \<Rightarrow> 'a hub_scheme" where
  "unsubscribeAll s h =
     (let h' = (case paused h s of None \<Rightarrow> h
        | Some c \<Rightarrow> h\<lparr>cells := (cells h)[c := (cells h ! c)\<lparr>payloads := []\<rparr>], paused := (paused h)(s := None)\<rparr>)
      in case peers h' s of None \<Rightarrow> h'
       | Some p \<Rightarrow> h'\<lparr>subscribers := (\<lambda>tag. if tag \<in> set (peer_tags p) then removeAll s (subscribers h' tag)
                                        else subscribers h' tag)\<rparr>)"

text \<open>One socket of a fan-out: sent, held back, or dropped when too much is held back.\<close>

definition fan_one :: "hub_env \<Rightarrow> frame \<Rightarrow> sock option \<Rightarrow> sock \<Rightarrow> 'a hub_scheme \<Rightarrow> 'a hub_scheme" where
  "fan_one env f except s h =
     (if except = Some s then h
      else case paused h s of None \<Rightarrow> sendRaw env s f h
      | Some c \<Rightarrow>
        (let p = (cells h ! c)\<lparr>held_bytes := held_bytes (cells h ! c) + byteLength env f\<rparr> in
         if held_bytes p > maxBufferedBytes env
         then terminate s (h\<lparr>cells := (cells h)[c := p\<lparr>payloads := []\<rparr>], paused := (paused h)(s := None)\<rparr>)
         else h\<lparr>cells := (cells h)[c := p\<lparr>payloads := payloads p @ [f]\<rparr>]\<rparr>))"

definition fanOut :: "hub_env \<Rightarrow> sock list \<Rightarrow> frame \<Rightarrow> sock option \<Rightarrow> 'a hub_scheme \<Rightarrow> 'a hub_scheme" where
  "fanOut env ss f except h = fold (fan_one env f except) ss h"

definition broadcast :: "hub_env \<Rightarrow> ustr \<Rightarrow> frame \<Rightarrow> sock option \<Rightarrow> 'a hub_scheme \<Rightarrow> 'a hub_scheme" where
  "broadcast env tag f except h = fanOut env (subscribers h tag) f except h"

definition broadcastLocalRaw :: "hub_env \<Rightarrow> ustr \<Rightarrow> frame \<Rightarrow> 'a hub_scheme \<Rightarrow> 'a hub_scheme" where
  "broadcastLocalRaw env tag f h = fanOut env (subscribers h tag) f None h"

section \<open>Lookups and saves under way\<close>

text \<open>Where \<open>chainFrom\<close> stands: its next statement. \<open>Served\<close> and \<open>Dropped\<close> are the ends of a lookup.\<close>

datatype reading = FirstRead | Keyframe | AfterSeq nat | FromSeq nat | AllRows

datatype lookup_stage = Resources | Reading reading | HasChain "rev_row list" | Served | Dropped

record lookup_run =
  t_sock :: sock
  t_tag :: ustr
  t_from :: "ustr option"
  t_cell :: nat
  t_released :: bool
  t_stage :: lookup_stage

datatype save_stage = ToCatchUp "ustr option" | ToBroadcast save_outcome wire_rev | ToAnswer "frame list" | Answered

text \<open>A save from a socket, or from the REST plane, which no socket waits for.\<close>

record save_task =
  v_sock :: "sock option"
  v_tag :: ustr
  v_stage :: save_stage

record relay = hub +
  lookups :: "sock \<Rightarrow> ustr \<Rightarrow> nat option"
  tasks :: "lookup_run list"
  saves :: "save_task list"
  table :: rev_table

definition resume :: "hub_env \<Rightarrow> nat \<Rightarrow> relay \<Rightarrow> relay" where
  "resume env j h =
     (let t = tasks h ! j in
      if t_released t then h
      else release env (t_sock t) (t_cell t) (h\<lparr>tasks := (tasks h)[j := t\<lparr>t_released := True\<rparr>]\<rparr>))"

definition set_stage :: "nat \<Rightarrow> lookup_stage \<Rightarrow> relay \<Rightarrow> relay" where
  "set_stage j g h = h\<lparr>tasks := (tasks h)[j := (tasks h ! j)\<lparr>t_stage := g\<rparr>]\<rparr>"

definition set_save :: "nat \<Rightarrow> save_stage \<Rightarrow> relay \<Rightarrow> relay" where
  "set_save k g h = h\<lparr>saves := (saves h)[k := (saves h ! k)\<lparr>v_stage := g\<rparr>]\<rparr>"

section \<open>Subscribing\<close>

definition subscribe_admitted :: "relay_env \<Rightarrow> ustr \<Rightarrow> wval \<Rightarrow> wval \<Rightarrow> wval \<Rightarrow> bool" where
  "subscribe_admitted renv nonce tag from sig =
     (validTagSigBase tag MAX_FIELD_LEN \<and> validTagSigBase sig MAX_FIELD_LEN
       \<and> (wnullish from \<or> validTagSigBase from MAX_FIELD_LEN)
       \<and> verifySubscribeSig (b64url renv) (ed25519 renv) tag from sig (WStr nonce))"

text \<open>\<open>handleSubscribe\<close> from the test after the verification to the wait for the inventory.\<close>

definition startLookup :: "hub_env \<Rightarrow> sock \<Rightarrow> ustr \<Rightarrow> ustr option \<Rightarrow> relay \<Rightarrow> relay" where
  "startLookup env s tag from h =
     (let previous = lookups h s tag; (c, h1) = pauseBroadcasts s h; j = length (tasks h);
        h2 = h1\<lparr>tasks := tasks h1 @ [\<lparr>t_sock = s, t_tag = tag, t_from = from, t_cell = c, t_released = False,
               t_stage = Resources\<rparr>],
             lookups := (lookups h1)(s := (lookups h1 s)(tag := Some j))\<rparr>;
        h3 = (case previous of None \<Rightarrow> h2 | Some i \<Rightarrow> resume env i h2)
      in subscribe s tag h3)"

definition handleSubscribe :: "hub_env \<Rightarrow> sock \<Rightarrow> wval \<Rightarrow> wval \<Rightarrow> wval \<Rightarrow> relay \<Rightarrow> relay" where
  "handleSubscribe env s tag from sig h = (case peers h s of
       None \<Rightarrow> h
     | Some p \<Rightarrow>
        if \<not> subscribe_admitted (platform env) (challenge p) tag from sig \<or> ready h s \<noteq> Open then h
        else startLookup env s (or_blank (wstr tag)) (wstr from) h)"

text \<open>\<open>finally\<close>: the lookup is forgotten where it is still the newest, and the pause released.\<close>

definition finishLookup :: "hub_env \<Rightarrow> nat \<Rightarrow> lookup_stage \<Rightarrow> relay \<Rightarrow> relay" where
  "finishLookup env j g h =
     (let t = tasks h ! j;
        h1 = (if lookups h (t_sock t) (t_tag t) = Some j
              then h\<lparr>lookups := (lookups h)(t_sock t := (lookups h (t_sock t))(t_tag t := None))\<rparr> else h)
      in resume env j (set_stage j g h1))"

definition wanted :: "nat \<Rightarrow> relay \<Rightarrow> bool" where
  "wanted j h = (ready h (t_sock (tasks h ! j)) = Open
     \<and> lookups h (t_sock (tasks h ! j)) (t_tag (tasks h ! j)) = Some j)"

definition gotResources :: "hub_env \<Rightarrow> nat \<Rightarrow> relay \<Rightarrow> relay" where
  "gotResources env j h = (if wanted j h then set_stage j (Reading FirstRead) h else finishLookup env j Dropped h)"

definition after_keyframe :: "rev_table \<Rightarrow> ustr \<Rightarrow> reading" where
  "after_keyframe tbl tag = (case lastKeyframeSeq tbl tag of Some q \<Rightarrow> FromSeq q | None \<Rightarrow> AllRows)"

text \<open>One statement of \<open>chainFrom\<close>.\<close>

definition read_step :: "rev_table \<Rightarrow> ustr \<Rightarrow> ustr option \<Rightarrow> reading \<Rightarrow> lookup_stage" where
  "read_step tbl tag from r = (case r of
       FirstRead \<Rightarrow> (case from of
           Some i \<Rightarrow> (case seqOfId tbl tag i of Some q \<Rightarrow> Reading (AfterSeq q) | None \<Rightarrow> Reading Keyframe)
         | None \<Rightarrow> Reading (after_keyframe tbl tag))
     | Keyframe \<Rightarrow> Reading (after_keyframe tbl tag)
     | AfterSeq q \<Rightarrow> HasChain (chainAfterSeq tbl tag q)
     | FromSeq q \<Rightarrow> HasChain (chainFromSeq tbl tag q)
     | AllRows \<Rightarrow> HasChain (chainAll tbl tag))"

definition chain_frame :: "ustr \<Rightarrow> rev_row list \<Rightarrow> frame" where
  "chain_frame tag rs = StateFrame (WStr tag) (chainForWire rs)"

definition gotChain :: "hub_env \<Rightarrow> nat \<Rightarrow> rev_row list \<Rightarrow> relay \<Rightarrow> relay" where
  "gotChain env j rs h =
     (let s = t_sock (tasks h ! j); tag = t_tag (tasks h ! j) in
      if wanted j h
      then finishLookup env j Served (sendRaw env s (chain_frame tag rs) (sendRaw env s (Subscribed (WStr tag) True) h))
      else finishLookup env j Dropped h)"

text \<open>The inventory or the chain could not be read: the newest lookup closes its socket, which as
  \<open>terminate\<close> does leaves it closing.\<close>

definition lookupFailed :: "hub_env \<Rightarrow> nat \<Rightarrow> relay \<Rightarrow> relay" where
  "lookupFailed env j h =
     (let t = tasks h ! j in
      finishLookup env j Dropped (if lookups h (t_sock t) (t_tag t) = Some j then terminate (t_sock t) h else h))"

section \<open>Saving\<close>

text \<open>The first turn of a save, up to the commit: the precheck may have read an earlier table, the first
  \<open>n\<close> rows of this one.\<close>

definition startSave :: "hub_env \<Rightarrow> sock option \<Rightarrow> save_msg \<Rightarrow> nat \<Rightarrow> bool \<Rightarrow> bool \<Rightarrow> relay \<Rightarrow> relay" where
  "startSave env so m n known authRequired h =
     (let tag = or_blank (wstr (m_tag m)) in
      case commitSave (platform env) (take n (table h)) known (table h) (\<lambda>t. t) m authRequired of
        (out, tbl, bc) \<Rightarrow> h\<lparr>table := tbl, saves := saves h @ [\<lparr>v_sock = so, v_tag = tag, v_stage =
          (case bc of Some w \<Rightarrow> ToBroadcast out w
           | None \<Rightarrow> (case out of Stale b _ \<Rightarrow> ToCatchUp b | _ \<Rightarrow> ToAnswer (save_frames tag out)))\<rparr>]\<rparr>)"

definition saveTurn :: "hub_env \<Rightarrow> nat \<Rightarrow> relay \<Rightarrow> relay" where
  "saveTurn env k h =
     (let v = saves h ! k in case v_stage v of
        ToCatchUp b \<Rightarrow> set_save k (ToAnswer (save_frames (v_tag v)
          (Stale b (chainForWire (chainFrom (table h) (v_tag v) b))))) h
      | ToBroadcast out w \<Rightarrow> set_save k (ToAnswer (save_frames (v_tag v) out))
          (broadcast env (v_tag v) (StateFrame (WStr (v_tag v)) (Some [Some w])) (v_sock v) h)
      | ToAnswer fs \<Rightarrow> set_save k Answered
          (case v_sock v of None \<Rightarrow> h | Some s \<Rightarrow> fold (sendRaw env s) fs h)
      | Answered \<Rightarrow> h)"

section \<open>The machine\<close>

datatype hub_event =
  Connect sock ustr
| Lost sock
| CloseSock sock
| Drained sock nat
| SubscribeMsg sock wval wval wval
| LookupTurn nat
| LookupFails nat
| SaveMsg "sock option" save_msg nat bool bool
| SaveTurn nat
| Notify ustr frame "sock option"

definition lookupTurn :: "hub_env \<Rightarrow> nat \<Rightarrow> relay \<Rightarrow> relay" where
  "lookupTurn env j h = (case t_stage (tasks h ! j) of
       Resources \<Rightarrow> gotResources env j h
     | Reading r \<Rightarrow> set_stage j (read_step (table h) (t_tag (tasks h ! j)) (t_from (tasks h ! j)) r) h
     | HasChain rs \<Rightarrow> gotChain env j rs h
     | _ \<Rightarrow> h)"

definition lookup_waiting :: "lookup_stage \<Rightarrow> bool" where
  "lookup_waiting g = (case g of Resources \<Rightarrow> True | Reading _ \<Rightarrow> True | _ \<Rightarrow> False)"

text \<open>A connection is accepted: its nonce, and two frames about the relay.\<close>

definition setupPeerConnection :: "hub_env \<Rightarrow> sock \<Rightarrow> ustr \<Rightarrow> relay \<Rightarrow> relay" where
  "setupPeerConnection env s nonce h =
     (if ready h s \<noteq> Unopened then h
      else sendRaw env s OtherFrame (sendRaw env s OtherFrame
        (h\<lparr>ready := (ready h)(s := Open), peers := (peers h)(s := Some \<lparr>challenge = nonce, peer_tags = []\<rparr>)\<rparr>)))"

text \<open>Its \<open>close\<close> listener.\<close>

definition closePeer :: "sock \<Rightarrow> relay \<Rightarrow> relay" where
  "closePeer s h =
     (if ready h s \<in> {Unopened, Closed} then h
      else let h' = unsubscribeAll s (h\<lparr>ready := (ready h)(s := Closed)\<rparr>) in h'\<lparr>peers := (peers h')(s := None)\<rparr>)"

definition hstep :: "hub_env \<Rightarrow> hub_event \<Rightarrow> relay \<Rightarrow> relay" where
  "hstep env e h = (case e of
       Connect s nonce \<Rightarrow> setupPeerConnection env s nonce h
     | Lost s \<Rightarrow> terminate s h
     | CloseSock s \<Rightarrow> closePeer s h
     | Drained s n \<Rightarrow> h\<lparr>buffered := (buffered h)(s := buffered h s - n)\<rparr>
     | SubscribeMsg s tag from sig \<Rightarrow> handleSubscribe env s tag from sig h
     | LookupTurn j \<Rightarrow> if j < length (tasks h) then lookupTurn env j h else h
     | LookupFails j \<Rightarrow>
         if j < length (tasks h) \<and> lookup_waiting (t_stage (tasks h ! j)) then lookupFailed env j h else h
     | SaveMsg so m n known authRequired \<Rightarrow> startSave env so m n known authRequired h
     | SaveTurn k \<Rightarrow> if k < length (saves h) then saveTurn env k h else h
     | Notify tag f except \<Rightarrow> broadcast env tag f except h)"

lemmas hstep_simps = hstep_def setupPeerConnection_def closePeer_def

definition hub_start :: relay where
  "hub_start = \<lparr>ready = (\<lambda>_. Unopened), buffered = (\<lambda>_. 0), sent = (\<lambda>_. []), peers = (\<lambda>_. None),
     subscribers = (\<lambda>_. []), cells = [], paused = (\<lambda>_. None),
     lookups = (\<lambda>_ _. None), tasks = [], saves = [], table = []\<rparr>"

definition hrun :: "hub_env \<Rightarrow> hub_event list \<Rightarrow> relay" where
  "hrun env evs = fold (hstep env) evs hub_start"

end
