(* ===== verification/SyncHubSound.thy ===== *)
theory SyncHubSound
  imports SyncHub
begin

text \<open>
  What holds of the relay's fan-out in every run of \<open>SyncHub\<close>: pauses are counted by the lookups that
  took them, bounded, and of one socket each; the newest lookup of a workspace is the one that
  still holds its pause; and every stored revision is, for a subscriber served its chain,
  sent, held back, about to be broadcast, its own, or superseded.
\<close>

section \<open>What an operation leaves alone\<close>

lemma terminate_fields [simp]:
  "sent (terminate s h) = sent h" "cells (terminate s h) = cells h" "paused (terminate s h) = paused h"
  "peers (terminate s h) = peers h" "subscribers (terminate s h) = subscribers h" "buffered (terminate s h) = buffered h"
  "tasks (terminate s h') = tasks h'" "lookups (terminate s h') = lookups h'" "saves (terminate s h') = saves h'"
  "table (terminate s h') = table h'"
  by (simp_all add: terminate_def)

lemma sendRaw_fields [simp]:
  "cells (sendRaw env s f h) = cells h" "paused (sendRaw env s f h) = paused h"
  "peers (sendRaw env s f h) = peers h" "subscribers (sendRaw env s f h) = subscribers h"
  "tasks (sendRaw env s f h') = tasks h'" "lookups (sendRaw env s f h') = lookups h'"
  "saves (sendRaw env s f h') = saves h'" "table (sendRaw env s f h') = table h'"
  by (simp_all add: sendRaw_def)

lemma sends_fields [simp]:
  "cells (fold (sendRaw env s) fs h) = cells h" "paused (fold (sendRaw env s) fs h) = paused h"
  "peers (fold (sendRaw env s) fs h) = peers h" "subscribers (fold (sendRaw env s) fs h) = subscribers h"
  "tasks (fold (sendRaw env s) fs h') = tasks h'" "lookups (fold (sendRaw env s) fs h') = lookups h'"
  "saves (fold (sendRaw env s) fs h') = saves h'" "table (fold (sendRaw env s) fs h') = table h'"
  by (induction fs arbitrary: h h') simp_all

lemma terminate_ready:
  "ready (terminate s h) = (if ready h s = Open then (ready h)(s := Closing) else ready h)"
  by (simp add: terminate_def)

lemma sendRaw_ready:
  "ready (sendRaw env s f h) = ready h \<or> ready h s = Open \<and> ready (sendRaw env s f h) = (ready h)(s := Closing)"
  by (simp add: sendRaw_def terminate_def)

lemma sends_ready:
  "ready (fold (sendRaw env s) fs h) = ready h
    \<or> ready h s = Open \<and> ready (fold (sendRaw env s) fs h) = (ready h)(s := Closing)"
proof (induction fs arbitrary: h)
  case (Cons f fs)
  show ?case using Cons.IH [of "sendRaw env s f h"] sendRaw_ready [of env s f h]
    by (auto simp: fun_upd_idem_iff)
qed simp

lemma sendRaw_sent:
  "sent (sendRaw env s f h) x = (if x = s \<and> ready (sendRaw env s f h) s = Open then sent h s @ [f] else sent h x)"
  by (simp add: sendRaw_def terminate_def)

lemma sends_closed: "ready h s \<noteq> Open \<Longrightarrow> fold (sendRaw env s) fs h = h"
  by (induction fs) (simp_all add: sendRaw_def)

lemma sends_sent:
  "x \<noteq> s \<Longrightarrow> sent (fold (sendRaw env s) fs h) x = sent h x"
  "ready (fold (sendRaw env s) fs h) s = Open \<Longrightarrow> sent (fold (sendRaw env s) fs h) s = sent h s @ fs"
proof (induction fs arbitrary: h)
  case (Cons f fs)
  {
    case 1
    then show ?case using Cons.IH(1) [of "sendRaw env s f h"] by (simp add: sendRaw_sent)
  next
    case 2
    then have "ready (sendRaw env s f h) s = Open"
      using sends_closed [of "sendRaw env s f h" s env fs] by (cases "ready (sendRaw env s f h) s = Open") auto
    then show ?case using Cons.IH(2) [of "sendRaw env s f h"] 2 by (simp add: sendRaw_sent)
  }
qed simp_all

lemma sends_more: "set (sent h x) \<subseteq> set (sent (fold (sendRaw env s) fs h) x)"
proof (induction fs arbitrary: h)
  case (Cons f fs)
  have "set (sent h x) \<subseteq> set (sent (sendRaw env s f h) x)" by (auto simp: sendRaw_sent)
  with Cons.IH [of "sendRaw env s f h"] show ?case by auto
qed simp

section \<open>Nothing received or held back is lost\<close>

definition carries :: "rev_row \<Rightarrow> frame \<Rightarrow> bool" where
  "carries r f = (case f of StateFrame t (Some ws) \<Rightarrow> t = WStr (r_tag r) \<and> Some (row_wire r) \<in> set ws | _ \<Rightarrow> False)"

definition gets :: "'a hub_scheme \<Rightarrow> sock \<Rightarrow> rev_row \<Rightarrow> bool" where
  "gets h s r = list_ex (carries r) (sent h s)"

definition held :: "'a hub_scheme \<Rightarrow> sock \<Rightarrow> rev_row \<Rightarrow> bool" where
  "held h s r = (case paused h s of None \<Rightarrow> False | Some c \<Rightarrow> list_ex (carries r) (payloads (cells h ! c)))"

definition acked :: "'a hub_scheme \<Rightarrow> sock \<Rightarrow> rev_row \<Rightarrow> bool" where
  "acked h s r = list_ex (\<lambda>f. f = SaveAck (WStr (r_tag r)) (wopt (r_base r)) (WStr (r_id r))) (sent h s)"

text \<open>Every socket open afterwards was open before, and lost nothing.\<close>

definition keeps :: "relay \<Rightarrow> relay \<Rightarrow> bool" where
  "keeps h h' = (\<forall>s. ready h' s = Open \<longrightarrow> ready h s = Open \<and> set (sent h s) \<subseteq> set (sent h' s)
     \<and> (\<forall>r. held h s r \<longrightarrow> gets h' s r \<or> held h' s r))"

lemma gets_mono: "set (sent h s) \<subseteq> set (sent h' s) \<Longrightarrow> gets h s r \<Longrightarrow> gets h' s r"
  by (auto simp: gets_def list_ex_iff)

lemma acked_mono: "set (sent h s) \<subseteq> set (sent h' s) \<Longrightarrow> acked h s r \<Longrightarrow> acked h' s r"
  by (auto simp: acked_def list_ex_iff)

lemma keeps_self [simp]: "keeps h h"
  by (simp add: keeps_def)

lemma keeps_then: "keeps h h' \<Longrightarrow> keeps h' h'' \<Longrightarrow> keeps h h''"
  unfolding keeps_def by (meson gets_mono subset_trans)

lemma held_cong: "paused h' s = paused h s \<Longrightarrow> cells h' = cells h \<Longrightarrow> held h' s r = held h s r"
  unfolding held_def by (simp split: option.split)

lemma held_same [simp]:
  "held (terminate x h) s r = held h s r" "held (fold (sendRaw env x) fs h) s r = held h s r"
  by (rule held_cong; simp)+

lemma keeps_sends: "keeps h (fold (sendRaw env s) fs h)"
  using sends_ready [of env s fs h] sends_more [of h _ env s fs]
  by (auto simp: keeps_def split: if_splits)

lemma keeps_sendRaw: "keeps h (sendRaw env s f h)"
  using keeps_sends [of h env s "[f]"] by simp

lemma keeps_terminate: "keeps h (terminate s h)"
  by (auto simp: keeps_def terminate_ready)

text \<open>A pause belongs to one socket.\<close>

definition apart :: "'a hub_scheme \<Rightarrow> bool" where
  "apart h = (\<forall>s c. paused h s = Some c \<longrightarrow> c < length (cells h) \<and> (\<forall>x. paused h x = Some c \<longrightarrow> x = s))"

lemma apartD:
  assumes "apart h" "paused h s = Some c"
  shows "c < length (cells h)" and "paused h x = Some d \<Longrightarrow> x \<noteq> s \<Longrightarrow> c \<noteq> d"
  using assms unfolding apart_def by blast+

lemma held_Some: "paused h s = Some c \<Longrightarrow> held h s r = list_ex (carries r) (payloads (cells h ! c))"
  and held_None: "paused h s = None \<Longrightarrow> \<not> held h s r"
  by (simp_all add: held_def)

lemma held_other:
  assumes "apart h" "paused h s = Some c" "x \<noteq> s" "paused h' x = paused h x" "cells h' = (cells h)[c := p]"
  shows "held h' x r = held h x r"
proof (cases "paused h x")
  case (Some d)
  then have "d \<noteq> c" using apartD(2) [OF assms(1,2) _ assms(3)] by blast
  then show ?thesis using Some assms(4,5) by (simp add: held_Some)
qed (use assms(4) in \<open>simp add: held_None\<close>)

lemma fan_one_held:
  assumes "paused h s = Some c" "except \<noteq> Some s"
    and "held_bytes (cells h ! c) + byteLength env f \<le> maxBufferedBytes env"
  shows "fan_one env f except s h = h\<lparr>cells := (cells h)[c := (cells h ! c)\<lparr>
    held_bytes := held_bytes (cells h ! c) + byteLength env f, payloads := payloads (cells h ! c) @ [f]\<rparr>]\<rparr>"
  using assms by (simp add: fan_one_def Let_def)

lemma fan_one_drop:
  assumes "paused h s = Some c" "except \<noteq> Some s"
    and "held_bytes (cells h ! c) + byteLength env f > maxBufferedBytes env"
  shows "fan_one env f except s h = terminate s (h\<lparr>cells := (cells h)[c := (cells h ! c)\<lparr>
    held_bytes := held_bytes (cells h ! c) + byteLength env f, payloads := []\<rparr>], paused := (paused h)(s := None)\<rparr>)"
  using assms by (simp add: fan_one_def Let_def)

lemma fan_one_cases:
  obtains (skip) "except = Some s" "fan_one env f except s h = h"
  | (send) "except \<noteq> Some s" "paused h s = None" "fan_one env f except s h = sendRaw env s f h"
  | (hold) c where "except \<noteq> Some s" "paused h s = Some c"
      "held_bytes (cells h ! c) + byteLength env f \<le> maxBufferedBytes env"
  | (drop) c where "except \<noteq> Some s" "paused h s = Some c"
      "held_bytes (cells h ! c) + byteLength env f > maxBufferedBytes env"
proof -
  have "except = Some s \<Longrightarrow> fan_one env f except s h = h"
    "except \<noteq> Some s \<Longrightarrow> paused h s = None \<Longrightarrow> fan_one env f except s h = sendRaw env s f h"
    by (simp_all add: fan_one_def)
  then show thesis using that by (cases "except = Some s"; cases "paused h s") (auto simp: not_le [symmetric])
qed

lemma keeps_fan_one:
  assumes "apart h"
  shows "keeps h (fan_one env f except s h)"
proof (cases rule: fan_one_cases [of except s env f h])
  case (hold c)
  let ?h = "fan_one env f except s h"
  note eq = fan_one_held [OF hold(2,1,3)]
  have "held h x r \<longrightarrow> held ?h x r" for x r
  proof (cases "x = s")
    case True
    then show ?thesis using hold(2) apartD(1) [OF assms hold(2)] unfolding eq by (simp add: held_Some)
  next
    case False
    have "held ?h x r = held h x r" unfolding eq by (rule held_other [OF assms hold(2) False]) simp_all
    then show ?thesis by simp
  qed
  then show ?thesis unfolding keeps_def by (simp add: eq)
next
  case (drop c)
  let ?h = "fan_one env f except s h"
  note eq = fan_one_drop [OF drop(2,1,3)]
  have "held ?h x r = held h x r" if "x \<noteq> s" for x r
    unfolding eq held_same by (rule held_other [OF assms drop(2) that]) (simp_all add: that)
  moreover have "ready ?h x = Open \<Longrightarrow> x \<noteq> s \<and> ready h x = Open" for x
    by (auto simp: eq terminate_ready split: if_splits)
  moreover have "sent ?h = sent h" by (simp add: eq)
  ultimately show ?thesis unfolding keeps_def by auto
qed (simp_all add: keeps_sendRaw)

lemma keeps_release:
  assumes "apart h" "c < length (cells h)" "\<And>x. paused h x = Some c \<Longrightarrow> x = s"
  shows "keeps h (release env s c h)"
proof (cases "depth (cells h ! c) - 1 > 0 \<or> paused h s \<noteq> Some c")
  case True
  then have eq: "release env s c h = h\<lparr>cells := (cells h)[c := (cells h ! c)\<lparr>depth := depth (cells h ! c) - 1\<rparr>]\<rparr>"
    by (simp add: release_def Let_def)
  have "held (release env s c h) x r = held h x r" for x r
    unfolding eq held_def using assms(2) by (auto simp: nth_list_update split: option.splits)
  then show ?thesis unfolding keeps_def by (simp add: eq)
next
  case False
  let ?p = "(cells h ! c)\<lparr>depth := depth (cells h ! c) - 1, payloads := []\<rparr>"
  let ?m = "h\<lparr>paused := (paused h)(s := None), cells := (cells h)[c := ?p]\<rparr>"
  let ?h = "fold (sendRaw env s) (payloads (cells h ! c)) ?m"
  have eq: "release env s c h = ?h" using False by (simp add: release_def Let_def)
  have c: "paused h s = Some c" using False by simp
  show ?thesis unfolding keeps_def eq
  proof (intro allI impI conjI)
    fix x assume op: "ready ?h x = Open"
    then show "ready h x = Open" using sends_ready [of env s "payloads (cells h ! c)" ?m] by (auto split: if_splits)
    show "set (sent h x) \<subseteq> set (sent ?h x)" using sends_more [of ?m x env s] by simp
    fix r assume held: "held h x r"
    show "gets ?h x r \<or> held ?h x r"
    proof (cases "x = s")
      case True
      with op have "sent ?h s = sent h s @ payloads (cells h ! c)" using sends_sent(2) [of env s _ ?m] by simp
      then show ?thesis using held c True by (simp add: gets_def held_Some)
    next
      case False
      have "held ?h x r = held h x r" unfolding held_same by (rule held_other [OF assms(1) c False]) (simp_all add: False)
      with held show ?thesis by simp
    qed
  qed
qed

section \<open>Pauses and lookups\<close>

definition ended :: "lookup_stage \<Rightarrow> bool" where
  "ended g = (g = Served \<or> g = Dropped)"

definition pausers :: "relay \<Rightarrow> nat \<Rightarrow> lookup_run list" where
  "pausers h c = filter (\<lambda>t. \<not> t_released t \<and> t_cell t = c) (tasks h)"

text \<open>The depth of a pause is the number of its lookups still running; a running lookup of an open socket
  is the newest of its workspace and has its socket paused.\<close>

definition cells_ok :: "hub_env \<Rightarrow> relay \<Rightarrow> bool" where
  "cells_ok env h = ((\<forall>c < length (cells h). depth (cells h ! c) = int (length (pausers h c)))
    \<and> (\<forall>s c. paused h s = Some c \<longrightarrow> c < length (cells h) \<and> pausers h c \<noteq> []
         \<and> held_bytes (cells h ! c) = sum_list (map (byteLength env) (payloads (cells h ! c)))
         \<and> held_bytes (cells h ! c) \<le> maxBufferedBytes env
         \<and> (\<forall>t \<in> set (tasks h). t_cell t = c \<longrightarrow> t_sock t = s)))"

definition tasks_ok :: "relay \<Rightarrow> bool" where
  "tasks_ok h = ((\<forall>j < length (tasks h). (\<not> t_released (tasks h ! j))
         = (lookups h (t_sock (tasks h ! j)) (t_tag (tasks h ! j)) = Some j))
    \<and> (\<forall>s tag j. lookups h s tag = Some j \<longrightarrow> j < length (tasks h) \<and> t_sock (tasks h ! j) = s
         \<and> t_tag (tasks h ! j) = tag)
    \<and> (\<forall>t \<in> set (tasks h). t_cell t < length (cells h) \<and> ready h (t_sock t) \<noteq> Unopened
         \<and> (ended (t_stage t) \<longrightarrow> t_released t)
         \<and> (ready h (t_sock t) = Open \<longrightarrow> t_sock t \<in> set (subscribers h (t_tag t))
              \<and> (\<not> t_released t \<longrightarrow> paused h (t_sock t) = Some (t_cell t)))))"

definition hub_ok :: "hub_env \<Rightarrow> relay \<Rightarrow> bool" where
  "hub_ok env h = (cells_ok env h \<and> tasks_ok h)"

lemma cells_okD:
  assumes "cells_ok env h"
  shows "c < length (cells h) \<Longrightarrow> depth (cells h ! c) = int (length (pausers h c))"
    and "paused h s = Some c \<Longrightarrow> c < length (cells h)" and "paused h s = Some c \<Longrightarrow> pausers h c \<noteq> []"
    and "paused h s = Some c \<Longrightarrow> held_bytes (cells h ! c) = sum_list (map (byteLength env) (payloads (cells h ! c)))"
    and "paused h s = Some c \<Longrightarrow> held_bytes (cells h ! c) \<le> maxBufferedBytes env"
    and "paused h s = Some c \<Longrightarrow> t \<in> set (tasks h) \<Longrightarrow> t_cell t = c \<Longrightarrow> t_sock t = s"
  using assms unfolding cells_ok_def by blast+

lemma tasks_okD:
  assumes "tasks_ok h"
  shows "j < length (tasks h) \<Longrightarrow> (\<not> t_released (tasks h ! j))
      = (lookups h (t_sock (tasks h ! j)) (t_tag (tasks h ! j)) = Some j)"
    and "lookups h s tag = Some j \<Longrightarrow> j < length (tasks h) \<and> t_sock (tasks h ! j) = s \<and> t_tag (tasks h ! j) = tag"
    and "t \<in> set (tasks h) \<Longrightarrow> t_cell t < length (cells h)" "t \<in> set (tasks h) \<Longrightarrow> ready h (t_sock t) \<noteq> Unopened"
    and "t \<in> set (tasks h) \<Longrightarrow> ended (t_stage t) \<Longrightarrow> t_released t"
    and "t \<in> set (tasks h) \<Longrightarrow> ready h (t_sock t) = Open \<Longrightarrow> t_sock t \<in> set (subscribers h (t_tag t))"
    and "t \<in> set (tasks h) \<Longrightarrow> ready h (t_sock t) = Open \<Longrightarrow> \<not> t_released t \<Longrightarrow> paused h (t_sock t) = Some (t_cell t)"
  using assms unfolding tasks_ok_def by blast+

lemma ok_apart: "cells_ok env h \<Longrightarrow> apart h"
proof (unfold apart_def, intro allI impI conjI)
  fix s c x assume ok: "cells_ok env h" and c: "paused h s = Some c"
  show "c < length (cells h)" by (rule cells_okD(2) [OF ok c])
  assume x: "paused h x = Some c"
  obtain t where "t \<in> set (tasks h)" "t_cell t = c"
    using cells_okD(3) [OF ok c] by (auto simp: pausers_def filter_empty_conv)
  then show "x = s" using cells_okD(6) [OF ok c] cells_okD(6) [OF ok x] by blast
qed

text \<open>An operation that only sends, closes or drops keeps both.\<close>

lemma tasks_ok_weaker:
  assumes "tasks_ok h" "tasks h' = tasks h" "lookups h' = lookups h"
    and "\<And>x tag. ready h' x = Open \<Longrightarrow> x \<in> set (subscribers h tag) \<Longrightarrow> x \<in> set (subscribers h' tag)"
    and "length (cells h') = length (cells h)"
    and "\<And>s. ready h' s = Unopened \<Longrightarrow> ready h s = Unopened"
    and "\<And>s. ready h' s = Open \<Longrightarrow> ready h s = Unopened \<or> ready h s = Open \<and> (paused h s \<noteq> None \<longrightarrow> paused h' s = paused h s)"
  shows "tasks_ok h'"
  unfolding tasks_ok_def assms(2,3,5)
proof (intro conjI allI ballI impI)
  fix t assume t: "t \<in> set (tasks h)"
  show "ready h' (t_sock t) \<noteq> Unopened" using assms(6) tasks_okD(4) [OF assms(1) t] by blast
  assume now: "ready h' (t_sock t) = Open"
  with assms(7) tasks_okD(4) [OF assms(1) t] have op: "ready h (t_sock t) = Open"
    and keep: "paused h (t_sock t) \<noteq> None \<Longrightarrow> paused h' (t_sock t) = paused h (t_sock t)" by blast+
  show "t_sock t \<in> set (subscribers h' (t_tag t))" by (rule assms(4) [OF now tasks_okD(6) [OF assms(1) t op]])
  assume "\<not> t_released t"
  then show "paused h' (t_sock t) = Some (t_cell t)" using tasks_okD(7) [OF assms(1) t op] keep by simp
qed (use tasks_okD [OF assms(1)] in blast)+

lemma pausers_cong: "tasks h' = tasks h \<Longrightarrow> pausers h' c = pausers h c"
  by (simp add: pausers_def)

lemma cells_ok_same:
  assumes "cells_ok env h" "cells h' = cells h" "paused h' = paused h" "tasks h' = tasks h"
  shows "cells_ok env h'"
  using assms(1) unfolding cells_ok_def assms(2-4) pausers_cong [OF assms(4)] .

lemma sends_ok:
  assumes "hub_ok env h"
  shows "hub_ok env (fold (sendRaw env s) fs h)"
  unfolding hub_ok_def
proof
  show "cells_ok env (fold (sendRaw env s) fs h)"
    using assms [unfolded hub_ok_def, THEN conjunct1] by (rule cells_ok_same) simp_all
  show "tasks_ok (fold (sendRaw env s) fs h)"
    using assms [unfolded hub_ok_def, THEN conjunct2] sends_ready [of env s fs h]
    by (elim disjE; elim tasks_ok_weaker) (auto split: if_splits)
qed

lemma sendRaw_ok: "hub_ok env h \<Longrightarrow> hub_ok env (sendRaw env s f h)"
  using sends_ok [of env h s "[f]"] by simp

lemma terminate_ok:
  assumes "hub_ok env h"
  shows "hub_ok env (terminate s h)"
  unfolding hub_ok_def
proof
  show "cells_ok env (terminate s h)"
    using assms [unfolded hub_ok_def, THEN conjunct1] by (rule cells_ok_same) simp_all
  show "tasks_ok (terminate s h)"
    using assms [unfolded hub_ok_def, THEN conjunct2] by (rule tasks_ok_weaker) (auto simp: terminate_ready split: if_splits)
qed

text \<open>Rewriting the cell of a socket, whose pause it may take away.\<close>

lemma cells_ok_cell:
  assumes ok: "cells_ok env h" and c: "paused h s = Some c"
    and h': "cells h' = (cells h)[c := p]" "tasks h' = tasks h" "\<And>x. x \<noteq> s \<Longrightarrow> paused h' x = paused h x"
    and p: "depth p = depth (cells h ! c)"
    and s: "paused h' s = None \<or> paused h' s = Some c \<and> held_bytes p = sum_list (map (byteLength env) (payloads p))
      \<and> held_bytes p \<le> maxBufferedBytes env"
  shows "cells_ok env h'"
  unfolding cells_ok_def pausers_cong [OF h'(2)]
proof (rule conjI; intro allI impI)
  fix d assume "d < length (cells h')"
  then show "depth (cells h' ! d) = int (length (pausers h d))"
    using cells_okD(1) [OF ok, of d] cells_okD(2) [OF ok c] h'(1) p by (auto simp: nth_list_update)
next
  fix x d assume d: "paused h' x = Some d"
  show "d < length (cells h') \<and> pausers h d \<noteq> []
    \<and> held_bytes (cells h' ! d) = sum_list (map (byteLength env) (payloads (cells h' ! d)))
    \<and> held_bytes (cells h' ! d) \<le> maxBufferedBytes env \<and> (\<forall>t \<in> set (tasks h'). t_cell t = d \<longrightarrow> t_sock t = x)"
  proof (cases "x = s")
    case True
    then show ?thesis using s d c cells_okD(2,3,6) [OF ok c] h'(1,2) by auto
  next
    case False
    with d h'(3) have d': "paused h x = Some d" by simp
    then have "c \<noteq> d" using apartD(2) [OF ok_apart [OF ok] c] False by blast
    then show ?thesis using cells_okD(2-6) [OF ok d'] h'(1,2) by auto
  qed
qed

lemma fan_one_ok:
  assumes "hub_ok env h"
  shows "hub_ok env (fan_one env f except s h)"
proof (cases rule: fan_one_cases [of except s env f h])
  case (hold c)
  have ok: "cells_ok env h" "tasks_ok h" using assms by (simp_all add: hub_ok_def)
  note eq = fan_one_held [OF hold(2,1,3)]
  have "cells_ok env (fan_one env f except s h)"
    by (rule cells_ok_cell [OF ok(1) hold(2), where p = "(cells h ! c)\<lparr>held_bytes := held_bytes (cells h ! c) + byteLength env f,
        payloads := payloads (cells h ! c) @ [f]\<rparr>"]) (use hold(2,3) cells_okD(4) [OF ok(1) hold(2)] in \<open>simp_all add: eq\<close>)
  moreover have "tasks_ok (fan_one env f except s h)"
    by (rule tasks_ok_weaker [OF ok(2)]) (simp_all add: eq)
  ultimately show ?thesis by (simp add: hub_ok_def)
next
  case (drop c)
  have ok: "cells_ok env h" "tasks_ok h" using assms by (simp_all add: hub_ok_def)
  note eq = fan_one_drop [OF drop(2,1,3)]
  have "cells_ok env (fan_one env f except s h)"
    by (rule cells_ok_cell [OF ok(1) drop(2), where p = "(cells h ! c)\<lparr>held_bytes := held_bytes (cells h ! c) + byteLength env f,
        payloads := []\<rparr>"]) (simp_all add: eq)
  moreover have "tasks_ok (fan_one env f except s h)"
    by (rule tasks_ok_weaker [OF ok(2)]) (auto simp: eq terminate_ready split: if_splits)
  ultimately show ?thesis by (simp add: hub_ok_def)
qed (simp_all add: assms sendRaw_ok)

lemma fan_one_rest [simp]:
  "tasks (fan_one env f except s h) = tasks h" "saves (fan_one env f except s h) = saves h"
  "table (fan_one env f except s h) = table h" "subscribers (fan_one env f except s g) = subscribers g"
  "lookups (fan_one env f except s h) = lookups h"
  by (simp_all add: fan_one_def Let_def split: option.split)

lemma fanOut_rest [simp]:
  "tasks (fanOut env ss f except h) = tasks h" "saves (fanOut env ss f except h) = saves h"
  "table (fanOut env ss f except h) = table h" "subscribers (fanOut env ss f except g) = subscribers g"
  "lookups (fanOut env ss f except h) = lookups h"
  unfolding fanOut_def by (induction ss arbitrary: h g) simp_all

lemma fanOut_ok: "hub_ok env h \<Longrightarrow> hub_ok env (fanOut env ss f except h)"
  unfolding fanOut_def by (induction ss arbitrary: h) (simp_all add: fan_one_ok)

lemma keeps_fanOut: "hub_ok env h \<Longrightarrow> keeps h (fanOut env ss f except h)"
  unfolding fanOut_def
proof (induction ss arbitrary: h)
  case (Cons s ss)
  have "keeps h (fan_one env f except s h)"
    by (rule keeps_fan_one) (use Cons.prems ok_apart in \<open>auto simp: hub_ok_def\<close>)
  then show ?case using Cons.IH [OF fan_one_ok [OF Cons.prems]] by (auto intro: keeps_then)
qed simp

section \<open>A lookup ends\<close>

lemma filter_update:
  assumes "j < length xs"
  shows "length (filter P (xs[j := y])) + (if P (xs ! j) then 1 else 0) = length (filter P xs) + (if P y then 1 else 0)"
proof -
  have "xs = take j xs @ xs ! j # drop (Suc j) xs" using assms by (rule id_take_nth_drop)
  then have "length (filter P xs) = length (filter P (take j xs @ xs ! j # drop (Suc j) xs))" by (rule arg_cong)
  then show ?thesis using assms by (simp add: upd_conv_take_nth_drop)
qed

definition ended_task :: "nat \<Rightarrow> lookup_stage \<Rightarrow> relay \<Rightarrow> relay" where
  "ended_task j g h = (let t = tasks h ! j in
     h\<lparr>lookups := (lookups h)(t_sock t := (lookups h (t_sock t))(t_tag t := None)),
       tasks := (tasks h)[j := t\<lparr>t_stage := g, t_released := True\<rparr>]\<rparr>)"

lemma ended_task_fields [simp]:
  "cells (ended_task j g h) = cells h" "paused (ended_task j g h) = paused h" "ready (ended_task j g h) = ready h"
  "subscribers (ended_task j g h) = subscribers h" "sent (ended_task j g h) = sent h" "table (ended_task j g h) = table h"
  "saves (ended_task j g h) = saves h" "peers (ended_task j g h) = peers h"
  "tasks (ended_task j g h) = (tasks h)[j := (tasks h ! j)\<lparr>t_stage := g, t_released := True\<rparr>]"
  by (simp_all add: ended_task_def Let_def)

text \<open>The pauses of the cells once lookup \<open>j\<close> has let go of its own.\<close>

lemma pausers_ended:
  assumes "j < length (tasks h)" "\<not> t_released (tasks h ! j)"
  shows "length (pausers h d) = length (pausers (ended_task j g h) d) + (if d = t_cell (tasks h ! j) then 1 else 0)"
  using filter_update [OF assms(1), where P = "\<lambda>t. \<not> t_released t \<and> t_cell t = d"
      and y = "(tasks h ! j)\<lparr>t_stage := g, t_released := True\<rparr>"] assms(2)
  by (auto simp: pausers_def split: if_splits)

lemma ended_cells_ok:
  assumes ok: "hub_ok env h" and j: "j < length (tasks h)" "\<not> t_released (tasks h ! j)"
    and t: "s = t_sock (tasks h ! j)" "c = t_cell (tasks h ! j)"
    and h': "h' = (ended_task j g h)\<lparr>paused := P, cells := (cells h)[c := p]\<rparr>" "depth p = depth (cells h ! c) - 1"
    and P: "P = paused h \<and> payloads p = payloads (cells h ! c) \<and> held_bytes p = held_bytes (cells h ! c)
        \<and> (depth p > 0 \<or> paused h s \<noteq> Some c) \<or> P = (paused h)(s := None)"
  shows "cells_ok env h'"
proof -
  have cok: "cells_ok env h" and tok: "tasks_ok h" using ok by (simp_all add: hub_ok_def)
  have mem: "tasks h ! j \<in> set (tasks h)" using j(1) by simp
  have c: "c < length (cells h)" using tasks_okD(3) [OF tok mem] t by simp
  have count: "length (pausers h d) = length (pausers h' d) + (if d = c then 1 else 0)" for d
    using pausers_ended [OF j, of d g] t(2) unfolding h'(1) by (simp add: pausers_def)
  have socks: "t \<in> set (tasks h') \<Longrightarrow> \<exists>t' \<in> set (tasks h). t_cell t' = t_cell t \<and> t_sock t' = t_sock t" for t
    using j(1) mem unfolding h'(1) by (auto dest!: set_update_subset_insert [THEN subsetD])
  show ?thesis unfolding cells_ok_def
  proof (rule conjI; intro allI impI)
    fix d assume d: "d < length (cells h')"
    then have "depth (cells h ! d) = int (length (pausers h d))" using cells_okD(1) [OF cok, of d] by (simp add: h'(1))
    then show "depth (cells h' ! d) = int (length (pausers h' d))"
      using count [of d] c h'(2) by (auto simp: h'(1) nth_list_update split: if_splits)
  next
    fix x d assume d: "paused h' x = Some d"
    then have d': "paused h x = Some d" using P by (auto simp: h'(1) split: if_splits)
    have own: "d = c \<Longrightarrow> x = s" using cells_okD(6) [OF cok d' mem] t by simp
    then have same: "d = c \<Longrightarrow> P = paused h \<and> payloads p = payloads (cells h ! c)
        \<and> held_bytes p = held_bytes (cells h ! c) \<and> depth p > 0" using P d d' by (auto simp: h'(1))
    have "pausers h' d \<noteq> []"
    proof (cases "d = c")
      case True
      have "depth (cells h ! c) = int (length (pausers h c))" by (rule cells_okD(1) [OF cok c])
      then show ?thesis using same [OF True] h'(2) count [of c] True by auto
    next
      case False
      then show ?thesis using cells_okD(3) [OF cok d'] count [of d] by (auto simp: length_greater_0_conv [symmetric] simp del: length_greater_0_conv)
    qed
    moreover have "payloads (cells h' ! d) = payloads (cells h ! d) \<and> held_bytes (cells h' ! d) = held_bytes (cells h ! d)"
      using same c by (cases "d = c") (simp_all add: h'(1))
    moreover have "\<forall>t \<in> set (tasks h'). t_cell t = d \<longrightarrow> t_sock t = x" using socks cells_okD(6) [OF cok d'] by metis
    ultimately show "d < length (cells h') \<and> pausers h' d \<noteq> []
      \<and> held_bytes (cells h' ! d) = sum_list (map (byteLength env) (payloads (cells h' ! d)))
      \<and> held_bytes (cells h' ! d) \<le> maxBufferedBytes env \<and> (\<forall>t \<in> set (tasks h'). t_cell t = d \<longrightarrow> t_sock t = x)"
      using cells_okD(2,4,5) [OF cok d'] by (simp add: h'(1))
  qed
qed

lemma survivor_elsewhere:
  assumes ok: "hub_ok env h" and j: "j < length (tasks h)" "\<not> t_released (tasks h ! j)"
    and i: "i < length (tasks h)" "i \<noteq> j" "\<not> t_released (tasks h ! i)"
    and p: "paused h (t_sock (tasks h ! i)) = Some (t_cell (tasks h ! i))"
    and c: "c = t_cell (tasks h ! j)" "depth (cells h ! c) \<le> 1"
  shows "t_cell (tasks h ! i) \<noteq> c"
proof
  assume "t_cell (tasks h ! i) = c"
  then have "tasks h ! i \<in> set (pausers (ended_task j Dropped h) c)"
    using i by (auto simp: pausers_def in_set_conv_nth intro!: exI [of _ i])
  then have "length (pausers (ended_task j Dropped h) c) > 0" by (cases "pausers (ended_task j Dropped h) c") auto
  moreover have "depth (cells h ! c) = int (length (pausers h c))"
    using ok j(1) c(1) by (intro cells_okD(1)) (auto simp: hub_ok_def intro: tasks_okD(3))
  ultimately show False using c pausers_ended [OF j, of c Dropped] by simp
qed

lemma ended_tasks_ok:
  assumes ok: "hub_ok env h" and j: "j < length (tasks h)" "\<not> t_released (tasks h ! j)"
    and t: "s = t_sock (tasks h ! j)" "c = t_cell (tasks h ! j)"
    and h': "h' = (ended_task j g h)\<lparr>paused := P, cells := (cells h)[c := p]\<rparr>" "depth p = depth (cells h ! c) - 1"
    and P: "P = paused h \<or> P = (paused h)(s := None) \<and> depth p \<le> 0"
  shows "tasks_ok h'"
proof -
  have cok: "cells_ok env h" and tok: "tasks_ok h" using ok by (simp_all add: hub_ok_def)
  let ?t = "tasks h ! j"
  have mem: "?t \<in> set (tasks h)" using j(1) by simp
  have looked: "lookups h s (t_tag ?t) = Some j" using tasks_okD(1) [OF tok j(1)] j(2) t by simp
  have now: "tasks h' ! i = (if i = j then ?t\<lparr>t_stage := g, t_released := True\<rparr> else tasks h ! i)" for i
    using j(1) by (simp add: h'(1))
  have lk: "lookups h' x tag = Some i \<longleftrightarrow> lookups h x tag = Some i \<and> i \<noteq> j" for x tag i
    using looked t tasks_okD(2) [OF tok, of x tag i] by (auto simp: h'(1) ended_task_def Let_def)
  have len: "length (tasks h') = length (tasks h)" by (simp add: h'(1))
  show ?thesis unfolding tasks_ok_def
  proof (intro conjI; intro allI ballI impI)
    fix i assume "i < length (tasks h')"
    then show "(\<not> t_released (tasks h' ! i)) = (lookups h' (t_sock (tasks h' ! i)) (t_tag (tasks h' ! i)) = Some i)"
      using tasks_okD(1) [OF tok, of i] by (simp add: lk now len)
  next
    fix x tag i assume "lookups h' x tag = Some i"
    then show "i < length (tasks h') \<and> t_sock (tasks h' ! i) = x \<and> t_tag (tasks h' ! i) = tag"
      using tasks_okD(2) [OF tok, of x tag i] by (simp add: lk now len)
  next
    fix u assume "u \<in> set (tasks h')"
    then obtain i where i: "i < length (tasks h)" "u = tasks h' ! i" by (auto simp: in_set_conv_nth len)
    then have u: "t_cell u = t_cell (tasks h ! i)" "t_sock u = t_sock (tasks h ! i)" "t_tag u = t_tag (tasks h ! i)"
      and old: "i \<noteq> j \<Longrightarrow> u = tasks h ! i" and "i = j \<Longrightarrow> t_released u" by (simp_all add: now)
    have m: "tasks h ! i \<in> set (tasks h)" using i(1) by simp
    have rel: "ended (t_stage u) \<longrightarrow> t_released u"
      using tasks_okD(5) [OF tok m] old \<open>i = j \<Longrightarrow> t_released u\<close> by blast
    have pause: "paused h' (t_sock u) = Some (t_cell u)" if op: "ready h (t_sock u) = Open" and un: "\<not> t_released u"
    proof -
      have ij: "i \<noteq> j" using \<open>i = j \<Longrightarrow> t_released u\<close> un by blast
      then have p: "paused h (t_sock u) = Some (t_cell u)" using tasks_okD(7) [OF tok m] op un old by simp
      have un': "\<not> t_released (tasks h ! i)" "paused h (t_sock (tasks h ! i)) = Some (t_cell (tasks h ! i))"
        using un p u old [OF ij] by simp_all
      have "t_sock u \<noteq> s" if low: "depth p \<le> 0"
      proof
        assume "t_sock u = s"
        then have "t_cell u = c" using p op tasks_okD(7) [OF tok mem _ j(2)] t by simp
        moreover have "t_cell (tasks h ! i) \<noteq> c"
          by (rule survivor_elsewhere [OF ok j i(1) ij un' t(2)]) (use low h'(2) in simp)
        ultimately show False using u by simp
      qed
      then show ?thesis using P p by (auto simp: h'(1))
    qed
    show "t_cell u < length (cells h') \<and> ready h' (t_sock u) \<noteq> Unopened \<and> (ended (t_stage u) \<longrightarrow> t_released u)
      \<and> (ready h' (t_sock u) = Open \<longrightarrow> t_sock u \<in> set (subscribers h' (t_tag u))
           \<and> (\<not> t_released u \<longrightarrow> paused h' (t_sock u) = Some (t_cell u)))"
      using tasks_okD(3,4,6) [OF tok m] u rel pause by (simp add: h'(1))
  qed
qed

lemma release_ended:
  assumes ok: "hub_ok env h" and j: "j < length (tasks h)" "\<not> t_released (tasks h ! j)"
    and t: "s = t_sock (tasks h ! j)" "c = t_cell (tasks h ! j)"
  shows "hub_ok env (release env s c (ended_task j g h))" and "keeps h (release env s c (ended_task j g h))"
proof -
  let ?m = "ended_task j g h" and ?p = "(cells h ! c)\<lparr>depth := depth (cells h ! c) - 1\<rparr>"
  have cok: "cells_ok env h" and tok: "tasks_ok h" using ok by (simp_all add: hub_ok_def)
  have mem: "tasks h ! j \<in> set (tasks h)" using j(1) by simp
  show "hub_ok env (release env s c ?m)"
  proof (cases "depth ?p > 0 \<or> paused h s \<noteq> Some c")
    case True
    then have eq: "release env s c ?m = ?m\<lparr>paused := paused h, cells := (cells h)[c := ?p]\<rparr>"
      by (simp add: release_def Let_def)
    show ?thesis unfolding eq hub_ok_def
      by (rule conjI [OF ended_cells_ok [OF ok j t refl] ended_tasks_ok [OF ok j t refl]]) (use True in simp_all)
  next
    case False
    let ?q = "?m\<lparr>paused := (paused h)(s := None), cells := (cells h)[c := ?p\<lparr>payloads := []\<rparr>]\<rparr>"
    have eq: "release env s c ?m = fold (sendRaw env s) (payloads (cells h ! c)) ?q"
      using False by (simp add: release_def Let_def)
    have "hub_ok env ?q" unfolding hub_ok_def
      by (rule conjI [OF ended_cells_ok [OF ok j t refl] ended_tasks_ok [OF ok j t refl]]) (use False in simp_all)
    then show ?thesis unfolding eq by (rule sends_ok)
  qed
  have "keeps ?m (release env s c ?m)"
  proof (rule keeps_release)
    show "apart ?m" using ok_apart [OF cok] by (simp add: apart_def)
    show "c < length (cells ?m)" using tasks_okD(3) [OF tok mem] t by simp
    show "paused ?m x = Some c \<Longrightarrow> x = s" for x using cells_okD(6) [OF cok _ mem] t by simp
  qed
  moreover have "keeps h ?m" using held_cong [of ?m _ h] by (simp add: keeps_def)
  ultimately show "keeps h (release env s c ?m)" by (rule keeps_then [rotated])
qed

lemma list_update_twice: "j < length xs \<Longrightarrow> (xs[j := y])[j := z] = xs[j := z]"
  by simp

lemma finish_newest:
  assumes "j < length (tasks h)" "\<not> t_released (tasks h ! j)"
    and "lookups h (t_sock (tasks h ! j)) (t_tag (tasks h ! j)) = Some j"
  shows "finishLookup env j g h = release env (t_sock (tasks h ! j)) (t_cell (tasks h ! j)) (ended_task j g h)"
  using assms by (simp add: finishLookup_def resume_def set_stage_def ended_task_def Let_def)

lemma finish_older:
  assumes "j < length (tasks h)" "t_released (tasks h ! j)"
    and "lookups h (t_sock (tasks h ! j)) (t_tag (tasks h ! j)) \<noteq> Some j"
  shows "finishLookup env j g h = set_stage j g h"
  using assms by (simp add: finishLookup_def resume_def set_stage_def Let_def)

lemma set_stage_fields [simp]:
  "buffered (set_stage j g h) = buffered h"
  "cells (set_stage j g h) = cells h" "paused (set_stage j g h) = paused h" "ready (set_stage j g h) = ready h"
  "subscribers (set_stage j g h) = subscribers h" "sent (set_stage j g h) = sent h" "table (set_stage j g h) = table h"
  "saves (set_stage j g h) = saves h" "lookups (set_stage j g h) = lookups h"
  "tasks (set_stage j g h) = (tasks h)[j := (tasks h ! j)\<lparr>t_stage := g\<rparr>]"
  by (simp_all add: set_stage_def)

lemma set_stage_ok:
  assumes ok: "hub_ok env h" and j: "j < length (tasks h)" and g: "ended g \<longrightarrow> t_released (tasks h ! j)"
  shows "hub_ok env (set_stage j g h)"
proof -
  let ?h = "set_stage j g h" and ?t = "(tasks h ! j)\<lparr>t_stage := g\<rparr>"
  have cok: "cells_ok env h" and tok: "tasks_ok h" using ok by (simp_all add: hub_ok_def)
  have "length (pausers ?h c) = length (pausers h c)" for c
    using filter_update [OF j, where P = "\<lambda>t. \<not> t_released t \<and> t_cell t = c" and y = ?t] by (simp add: pausers_def split: if_splits)
  then have count: "length (pausers ?h c) = length (pausers h c)" "pausers ?h c = [] \<longleftrightarrow> pausers h c = []" for c
    by (metis length_0_conv)+
  have j_mem: "tasks h ! j \<in> set (tasks h)" using j by simp
  have mem: "t \<in> set (tasks ?h) \<Longrightarrow> \<exists>u \<in> set (tasks h). t_cell t = t_cell u \<and> t_sock t = t_sock u \<and> t_tag t = t_tag u
      \<and> t_released t = t_released u \<and> (ended (t_stage t) \<longrightarrow> t_released t)" for t
  proof -
    assume "t \<in> set (tasks ?h)"
    then consider "t = ?t" | "t \<in> set (tasks h)" using set_update_subset_insert [of "tasks h" j ?t] by auto
    then show ?thesis
    proof cases
      case 1
      then show ?thesis using g by (intro bexI [OF _ j_mem]) simp
    next
      case 2
      then show ?thesis using tasks_okD(5) [OF tok 2] by (intro bexI [OF _ 2]) simp
    qed
  qed
  have "cells_ok env ?h"
    unfolding cells_ok_def count
  proof (intro conjI)
    show "\<forall>c < length (cells ?h). depth (cells ?h ! c) = int (length (pausers h c))" using cells_okD(1) [OF cok] by simp
    show "\<forall>s c. paused ?h s = Some c \<longrightarrow> c < length (cells ?h) \<and> pausers h c \<noteq> []
        \<and> held_bytes (cells ?h ! c) = sum_list (map (byteLength env) (payloads (cells ?h ! c)))
        \<and> held_bytes (cells ?h ! c) \<le> maxBufferedBytes env \<and> (\<forall>t \<in> set (tasks ?h). t_cell t = c \<longrightarrow> t_sock t = s)"
    proof (intro allI impI)
      fix s c assume "paused ?h s = Some c"
      then have c: "paused h s = Some c" by simp
      have "\<forall>t \<in> set (tasks ?h). t_cell t = c \<longrightarrow> t_sock t = s"
      proof (intro ballI impI)
        fix t assume t: "t \<in> set (tasks ?h)" "t_cell t = c"
        from mem [OF t(1)] obtain u where "u \<in> set (tasks h)" "t_cell t = t_cell u" "t_sock t = t_sock u" by blast
        then show "t_sock t = s" using cells_okD(6) [OF cok c, of u] t(2) by simp
      qed
      then show "c < length (cells ?h) \<and> pausers h c \<noteq> []
        \<and> held_bytes (cells ?h ! c) = sum_list (map (byteLength env) (payloads (cells ?h ! c)))
        \<and> held_bytes (cells ?h ! c) \<le> maxBufferedBytes env \<and> (\<forall>t \<in> set (tasks ?h). t_cell t = c \<longrightarrow> t_sock t = s)"
        using cells_okD(2-5) [OF cok c] by simp
    qed
  qed
  moreover have "tasks_ok ?h"
    unfolding tasks_ok_def
  proof (intro conjI ballI)
    show "\<forall>i < length (tasks ?h). (\<not> t_released (tasks ?h ! i))
        = (lookups ?h (t_sock (tasks ?h ! i)) (t_tag (tasks ?h ! i)) = Some i)"
      using tasks_okD(1) [OF tok] j by (auto simp: nth_list_update)
    show "\<forall>s tag i. lookups ?h s tag = Some i \<longrightarrow> i < length (tasks ?h) \<and> t_sock (tasks ?h ! i) = s \<and> t_tag (tasks ?h ! i) = tag"
      using tasks_okD(2) [OF tok] j by (auto simp: nth_list_update)
    fix t assume "t \<in> set (tasks ?h)"
    from mem [OF this] obtain u where "u \<in> set (tasks h)" "t_cell t = t_cell u" "t_sock t = t_sock u" "t_tag t = t_tag u"
      "t_released t = t_released u" "ended (t_stage t) \<longrightarrow> t_released t" by blast
    then show "t_cell t < length (cells ?h)" "ready ?h (t_sock t) \<noteq> Unopened" "ended (t_stage t) \<longrightarrow> t_released t"
      "ready ?h (t_sock t) = Open \<longrightarrow> t_sock t \<in> set (subscribers ?h (t_tag t))
        \<and> (\<not> t_released t \<longrightarrow> paused ?h (t_sock t) = Some (t_cell t))"
      using tasks_okD(3,4,6,7) [OF tok, of u] by simp_all
  qed
  ultimately show ?thesis by (simp add: hub_ok_def)
qed

lemma keeps_set_stage: "keeps h (set_stage j g h)"
  using held_cong [of "set_stage j g h" _ h] by (simp add: keeps_def)

lemma endLookup_ok:
  assumes ok: "hub_ok env h" and j: "j < length (tasks h)"
  shows "hub_ok env (finishLookup env j g h) \<and> keeps h (finishLookup env j g h)"
proof (cases "t_released (tasks h ! j)")
  case True
  then have "lookups h (t_sock (tasks h ! j)) (t_tag (tasks h ! j)) \<noteq> Some j"
    using tasks_okD(1) [OF _ j] ok by (auto simp: hub_ok_def)
  then show ?thesis using finish_older [OF j True] set_stage_ok [OF ok j] True keeps_set_stage by simp
next
  case False
  then have "lookups h (t_sock (tasks h ! j)) (t_tag (tasks h ! j)) = Some j"
    using tasks_okD(1) [OF _ j] ok by (auto simp: hub_ok_def)
  then show ?thesis using finish_newest [OF j False] release_ended [OF ok j False refl refl] by simp
qed

section \<open>A lookup starts\<close>

definition new_task :: "sock \<Rightarrow> ustr \<Rightarrow> ustr option \<Rightarrow> nat \<Rightarrow> lookup_run" where
  "new_task s tag from c = \<lparr>t_sock = s, t_tag = tag, t_from = from, t_cell = c, t_released = False, t_stage = Resources\<rparr>"

lemma new_task_fields [simp]:
  "t_sock (new_task s tag from c) = s" "t_tag (new_task s tag from c) = tag" "t_from (new_task s tag from c) = from"
  "t_cell (new_task s tag from c) = c" "\<not> t_released (new_task s tag from c)" "t_stage (new_task s tag from c) = Resources"
  by (simp_all add: new_task_def)

definition superseded :: "nat option \<Rightarrow> lookup_run list \<Rightarrow> lookup_run list" where
  "superseded prev ts = (case prev of None \<Rightarrow> ts | Some i \<Rightarrow> ts[i := (ts ! i)\<lparr>t_released := True\<rparr>])"

text \<open>The state a lookup starts in: a first pause, one more of a pause, or its predecessor's.\<close>

definition started :: "sock \<Rightarrow> ustr \<Rightarrow> ustr option \<Rightarrow> nat \<Rightarrow> pausing list \<Rightarrow> relay \<Rightarrow> relay" where
  "started s tag from c cs h = h\<lparr>cells := cs, paused := (paused h)(s := Some c),
     tasks := superseded (lookups h s tag) (tasks h) @ [new_task s tag from c],
     lookups := (lookups h)(s := (lookups h s)(tag := Some (length (tasks h))))\<rparr>"

definition start_cell :: "sock \<Rightarrow> ustr \<Rightarrow> relay \<Rightarrow> nat \<Rightarrow> pausing list \<Rightarrow> bool" where
  "start_cell s tag h c cs = (
     paused h s = None \<and> lookups h s tag = None \<and> c = length (cells h)
       \<and> cs = cells h @ [\<lparr>depth = 1, payloads = [], held_bytes = 0\<rparr>]
   \<or> paused h s = Some c \<and> lookups h s tag = None
       \<and> cs = (cells h)[c := (cells h ! c)\<lparr>depth := depth (cells h ! c) + 1\<rparr>]
   \<or> paused h s = Some c \<and> lookups h s tag \<noteq> None \<and> cs = cells h)"

lemma lookups_after_tasks: "(h::relay)\<lparr>lookups := l, tasks := t\<rparr> = h\<lparr>tasks := t, lookups := l\<rparr>"
  by simp

lemma startLookup_started:
  assumes ok: "hub_ok env h" and op: "ready h s = Open"
  shows "\<exists>c cs. start_cell s tag h c cs \<and> startLookup env s tag from h = subscribe s tag (started s tag from c cs h)"
proof (cases "lookups h s tag")
  case None
  then show ?thesis
  proof (cases "paused h s")
    case None
    with \<open>lookups h s tag = None\<close> show ?thesis
      by (simp add: start_cell_def startLookup_def pauseBroadcasts_def started_def superseded_def new_task_def Let_def)
  next
    case (Some c)
    then have "(paused h)(s := Some c) = paused h" by auto
    with \<open>lookups h s tag = None\<close> Some show ?thesis
      by (simp add: start_cell_def startLookup_def pauseBroadcasts_def started_def superseded_def new_task_def Let_def)
  qed
next
  case (Some i)
  have cok: "cells_ok env h" and tok: "tasks_ok h" using ok by (simp_all add: hub_ok_def)
  have i: "i < length (tasks h)" "t_sock (tasks h ! i) = s" "t_tag (tasks h ! i) = tag"
    using tasks_okD(2) [OF tok Some] by simp_all
  have un: "\<not> t_released (tasks h ! i)" using tasks_okD(1) [OF tok i(1)] i Some by simp
  define c where "c = t_cell (tasks h ! i)"
  have mem: "tasks h ! i \<in> set (tasks h)" using i(1) by simp
  have c: "paused h s = Some c" using tasks_okD(7) [OF tok mem _ un] i op c_def by simp
  then have len: "c < length (cells h)" by (rule cells_okD(2) [OF cok])
  have "pausers h c \<noteq> []" by (rule cells_okD(3) [OF cok c])
  then have pos: "depth (cells h ! c) > 0" using cells_okD(1) [OF cok len] by simp
  have same: "(cells h)[c := cells h ! c] = cells h" "(paused h)(s := Some c) = paused h" using c by auto
  have "startLookup env s tag from h = subscribe s tag (started s tag from c (cells h) h)"
    using Some c len pos i un
    by (simp add: startLookup_def pauseBroadcasts_def started_def superseded_def new_task_def Let_def resume_def
        release_def nth_append list_update_append same lookups_after_tasks c_def [symmetric])
  then show ?thesis using c Some by (auto simp: start_cell_def)
qed

lemma started_fields [simp]:
  "ready (started s tag from c cs h) = ready h" "sent (started s tag from c cs h) = sent h"
  "buffered (started s tag from c cs h) = buffered h"
  "subscribers (started s tag from c cs h) = subscribers h" "table (started s tag from c cs h) = table h"
  "saves (started s tag from c cs h) = saves h" "cells (started s tag from c cs h) = cs"
  "paused (started s tag from c cs h) = (paused h)(s := Some c)"
  "tasks (started s tag from c cs h) = superseded (lookups h s tag) (tasks h) @ [new_task s tag from c]"
  "lookups (started s tag from c cs h) = (lookups h)(s := (lookups h s)(tag := Some (length (tasks h))))"
  by (simp_all add: started_def)

lemma superseded_length [simp]: "length (superseded prev ts) = length ts"
  by (simp add: superseded_def split: option.split)

lemma superseded_nth: "i < length ts \<Longrightarrow> superseded prev ts ! i =
    (if prev = Some i then (ts ! i)\<lparr>t_released := True\<rparr> else ts ! i)"
  by (auto simp: superseded_def nth_list_update split: option.split)

lemma superseded_mem:
  assumes "\<And>i. prev = Some i \<Longrightarrow> i < length ts" "t \<in> set (superseded prev ts)"
  obtains u where "u \<in> set ts" "t_cell t = t_cell u" "t_sock t = t_sock u" "t_tag t = t_tag u" "t_stage t = t_stage u"
    "t_from t = t_from u" "t_released u \<longrightarrow> t_released t"
proof -
  obtain i where i: "i < length ts" "t = superseded prev ts ! i" using assms(2) by (auto simp: in_set_conv_nth)
  then show thesis using that [of "ts ! i"] by (auto simp: superseded_nth)
qed

lemma started_pausers:
  assumes ok: "hub_ok env h" "ready h s = Open" and c: "start_cell s tag h c cs"
  shows "int (length (pausers (started s tag from c cs h) d)) =
    int (length (pausers h d)) + (if d = c \<and> lookups h s tag = None then 1 else 0)"
proof (cases "lookups h s tag")
  case None
  then show ?thesis by (auto simp: pausers_def superseded_def)
next
  case (Some i)
  have tok: "tasks_ok h" using ok by (simp add: hub_ok_def)
  have i: "i < length (tasks h)" "t_sock (tasks h ! i) = s" "t_tag (tasks h ! i) = tag"
    using tasks_okD(2) [OF tok Some] by simp_all
  have un: "\<not> t_released (tasks h ! i)" using tasks_okD(1) [OF tok i(1)] i Some by simp
  have "t_cell (tasks h ! i) = c"
    using tasks_okD(7) [OF tok _ _ un] i ok(2) c Some by (auto simp: start_cell_def)
  then show ?thesis
    using filter_update [OF i(1), where P = "\<lambda>t. \<not> t_released t \<and> t_cell t = d" and y = "(tasks h ! i)\<lparr>t_released := True\<rparr>"] un Some
    by (auto simp: pausers_def superseded_def split: if_splits)
qed

lemma started_cells_ok:
  assumes ok: "hub_ok env h" "ready h s = Open" and c: "start_cell s tag h c cs"
  shows "cells_ok env (started s tag from c cs h)"
proof -
  let ?h = "started s tag from c cs h"
  have cok: "cells_ok env h" and tok: "tasks_ok h" using ok(1) by (simp_all add: hub_ok_def)
  note count = started_pausers [OF ok c, of "from"]
  have grown: "length (cells h) \<le> length cs" "c < length cs"
    using c cells_okD(2) [OF cok, of s c] by (auto simp: start_cell_def)
  have other: "d < length (cells h) \<Longrightarrow> payloads (cs ! d) = payloads (cells h ! d) \<and> held_bytes (cs ! d) = held_bytes (cells h ! d)" for d
    using c cells_okD(2) [OF cok, of s c] by (auto simp: start_cell_def nth_append nth_list_update)
  have fresh: "paused h s = None \<Longrightarrow> payloads (cs ! c) = [] \<and> held_bytes (cs ! c) = 0" using c by (auto simp: start_cell_def)
  have depths: "depth (cs ! d) = int (length (pausers ?h d))" if "d < length cs" for d
  proof (cases "d < length (cells h)")
    case True
    then show ?thesis using c count [of d] cells_okD(1) [OF cok True] cells_okD(2) [OF cok, of s c]
      by (auto simp: start_cell_def nth_append nth_list_update)
  next
    case False
    then have d: "d = c" "depth (cs ! c) = 1" "lookups h s tag = None" "c = length (cells h)"
      using c that by (auto simp: start_cell_def nth_append split: if_splits)
    have "pausers h c = []" using tasks_okD(3) [OF tok] d(4) by (fastforce simp: pausers_def filter_empty_conv)
    then show ?thesis using d(1-3) count [of c] by simp
  qed
  have fits: "payloads (cs ! d) = payloads (cells h ! d) \<and> held_bytes (cs ! d) = held_bytes (cells h ! d) \<or>
      payloads (cs ! d) = [] \<and> held_bytes (cs ! d) = 0" if "paused ?h x = Some d" for x d
    using that other fresh c cells_okD(2) [OF cok] by (cases "x = s"; cases "paused h s") (auto simp: start_cell_def)
  show ?thesis unfolding cells_ok_def
  proof (rule conjI; intro allI impI)
    fix x d assume d: "paused ?h x = Some d"
    have old: "paused h x = Some d \<or> x = s \<and> d = c \<and> c = length (cells h)"
      using d c by (auto simp: start_cell_def split: if_splits)
    have "d < length cs" using old cells_okD(2) [OF cok, of x d] grown by auto
    moreover have "pausers ?h d \<noteq> []"
      using old cells_okD(3) [OF cok, of x d] count [of d] c by (auto simp: start_cell_def split: if_splits)
    moreover have "held_bytes (cs ! d) = sum_list (map (byteLength env) (payloads (cs ! d))) \<and> held_bytes (cs ! d) \<le> maxBufferedBytes env"
      using fits [OF d] old cells_okD(4,5) [OF cok, of x d] fresh c by (auto simp: start_cell_def)
    moreover have "t_sock t = x" if t: "t \<in> set (tasks ?h)" "t_cell t = d" for t
    proof (cases "t = new_task s tag from c")
      case True
      then have "d = c" using t(2) by simp
      then show ?thesis using True old c apartD(2) [OF ok_apart [OF cok], of s c x c] cells_okD(2) [OF cok, of x d]
        by (auto simp: start_cell_def)
    next
      case False
      then have "t \<in> set (superseded (lookups h s tag) (tasks h))" using t(1) by simp
      with tasks_okD(2) [OF tok, of s tag] obtain u where u: "u \<in> set (tasks h)" "t_cell t = t_cell u" "t_sock t = t_sock u"
        by (elim superseded_mem [rotated]) auto
      then show ?thesis using old t(2) tasks_okD(3) [OF tok u(1)] cells_okD(6) [OF cok _ u(1)] by auto
    qed
    ultimately show "d < length (cells ?h) \<and> pausers ?h d \<noteq> []
        \<and> held_bytes (cells ?h ! d) = sum_list (map (byteLength env) (payloads (cells ?h ! d)))
        \<and> held_bytes (cells ?h ! d) \<le> maxBufferedBytes env \<and> (\<forall>t \<in> set (tasks ?h). t_cell t = d \<longrightarrow> t_sock t = x)"
      by auto
  qed (use depths in simp)
qed

lemma started_released:
  assumes tok: "tasks_ok h" and i: "i < length (tasks h)"
  shows "(\<not> t_released (superseded (lookups h s tag) (tasks h) ! i)) =
    (lookups (started s tag from c cs h) (t_sock (tasks h ! i)) (t_tag (tasks h ! i)) = Some i)"
  using tasks_okD(1) [OF tok i] tasks_okD(2) [OF tok, of s tag i] i by (auto simp: superseded_nth)

lemma started_tasks_ok:
  assumes ok: "hub_ok env h" "ready h s = Open" and c: "start_cell s tag h c cs"
  shows "tasks_ok (subscribe s tag (started s tag from c cs h))"
proof -
  let ?m = "started s tag from c cs h" and ?ts = "superseded (lookups h s tag) (tasks h)"
  let ?h = "subscribe s tag ?m"
  have cok: "cells_ok env h" and tok: "tasks_ok h" using ok(1) by (simp_all add: hub_ok_def)
  have f: "ready ?h = ready h" "paused ?h = (paused h)(s := Some c)" "cells ?h = cs" "lookups ?h = lookups ?m"
    "tasks ?h = ?ts @ [new_task s tag from c]" "subscribers ?h = (subscribers h)(tag := List.insert s (subscribers h tag))"
    by (simp_all add: subscribe_def)
  have grown: "length (cells h) \<le> length cs" "c < length cs"
    using c cells_okD(2) [OF cok, of s c] by (auto simp: start_cell_def)
  show ?thesis unfolding tasks_ok_def
  proof (intro conjI; intro allI ballI impI)
    fix i assume "i < length (tasks ?h)"
    then consider "i < length (tasks h)" | "i = length (tasks h)" by (fastforce simp: f(5) less_Suc_eq)
    then show "(\<not> t_released (tasks ?h ! i)) = (lookups ?h (t_sock (tasks ?h ! i)) (t_tag (tasks ?h ! i)) = Some i)"
    proof cases
      case 1
      then show ?thesis using started_released [OF tok 1, of s tag "from" c cs]
        by (simp add: f(4,5) nth_append superseded_nth)
    qed (simp add: f(4,5) nth_append)
  next
    fix x tg i assume "lookups ?h x tg = Some i"
    then show "i < length (tasks ?h) \<and> t_sock (tasks ?h ! i) = x \<and> t_tag (tasks ?h ! i) = tg"
      using tasks_okD(2) [OF tok, of x tg i] by (auto simp: f(4,5) nth_append superseded_nth split: if_splits)
  next
    fix t assume t: "t \<in> set (tasks ?h)"
    show "t_cell t < length (cells ?h) \<and> ready ?h (t_sock t) \<noteq> Unopened \<and> (ended (t_stage t) \<longrightarrow> t_released t)
      \<and> (ready ?h (t_sock t) = Open \<longrightarrow> t_sock t \<in> set (subscribers ?h (t_tag t))
          \<and> (\<not> t_released t \<longrightarrow> paused ?h (t_sock t) = Some (t_cell t)))"
    proof (cases "t = new_task s tag from c")
      case False
      then have "t \<in> set ?ts" using t by (simp add: f(5))
      with tasks_okD(2) [OF tok, of s tag] obtain u where u: "u \<in> set (tasks h)" "t_cell t = t_cell u" "t_sock t = t_sock u"
        "t_tag t = t_tag u" "t_stage t = t_stage u" "t_released u \<longrightarrow> t_released t" by (elim superseded_mem [rotated]) auto
      note old = tasks_okD(3-7) [OF tok u(1)]
      have "ready h (t_sock u) = Open \<Longrightarrow> \<not> t_released u \<Longrightarrow> t_sock u = s \<Longrightarrow> t_cell u = c"
        using old(5) c by (auto simp: start_cell_def)
      then show ?thesis using u(2-6) old grown(1) by (auto simp: f)
    qed (use grown ok(2) in \<open>simp add: f ended_def\<close>)
  qed
qed

lemma startLookup_ok:
  assumes ok: "hub_ok env h" "ready h s = Open"
  shows "hub_ok env (startLookup env s tag from h) \<and> keeps h (startLookup env s tag from h)"
proof -
  obtain c cs where c: "start_cell s tag h c cs"
    and eq: "startLookup env s tag from h = subscribe s tag (started s tag from c cs h)"
    using startLookup_started [OF ok] by blast
  let ?m = "started s tag from c cs h"
  let ?h = "subscribe s tag ?m"
  have cok: "cells_ok env h" using ok(1) by (simp add: hub_ok_def)
  have f: "ready ?h = ready h" "sent ?h = sent h" "paused ?h = paused ?m" "cells ?h = cells ?m" "tasks ?h = tasks ?m"
    by (simp_all add: subscribe_def)
  have "cells_ok env ?h" by (rule cells_ok_same [OF started_cells_ok [OF ok c] f(4,3,5)])
  moreover have "tasks_ok ?h" by (rule started_tasks_ok [OF ok c])
  moreover have "held h x r \<Longrightarrow> held ?h x r" for x r
  proof -
    assume held: "held h x r"
    then obtain d where d: "paused h x = Some d" by (cases "paused h x") (auto simp: held_None)
    then have len: "d < length (cells h)" by (rule cells_okD(2) [OF cok])
    have "payloads (cs ! d) = payloads (cells h ! d)" using c len cells_okD(2) [OF cok, of s c] by (auto simp: start_cell_def nth_append nth_list_update)
    moreover have "paused ?h x = Some d" using c d by (auto simp: f(3) start_cell_def)
    ultimately show "held ?h x r" using held d by (simp add: held_Some f(4))
  qed
  ultimately show ?thesis unfolding eq by (simp add: hub_ok_def keeps_def f(1,2))
qed

lemma handleSubscribe_ok:
  assumes "hub_ok env h"
  shows "hub_ok env (handleSubscribe env s tag from sig h) \<and> keeps h (handleSubscribe env s tag from sig h)"
  using assms startLookup_ok [OF assms] by (simp add: handleSubscribe_def split: option.split)

section \<open>Every step\<close>

lemma broadcast_ok: "hub_ok env h \<Longrightarrow> hub_ok env (broadcast env tag f except h) \<and> keeps h (broadcast env tag f except h)"
  by (simp add: broadcast_def fanOut_ok keeps_fanOut)

lemma close_ok:
  fixes s :: sock
  assumes ok: "hub_ok env h"
  defines "h' \<equiv> (let h1 = unsubscribeAll s (h\<lparr>ready := (ready h)(s := Closed)\<rparr>) in h1\<lparr>peers := (peers h1)(s := None)\<rparr>)"
  shows "hub_ok env h' \<and> keeps h h' \<and> saves h' = saves h \<and> table h' = table h \<and> tasks h' = tasks h \<and> sent h' = sent h
    \<and> ready h' = (ready h)(s := Closed)"
proof -
  have cok: "cells_ok env h" and tok: "tasks_ok h" using ok by (simp_all add: hub_ok_def)
  define cs where "cs = (case paused h s of None \<Rightarrow> cells h | Some c \<Rightarrow> (cells h)[c := (cells h ! c)\<lparr>payloads := []\<rparr>])"
  have f: "ready h' = (ready h)(s := Closed)" "sent h' = sent h" "cells h' = cs"
    "paused h' = (paused h)(s := None)" "tasks h' = tasks h" "saves h' = saves h" "table h' = table h" "lookups h' = lookups h"
    unfolding h'_def cs_def unsubscribeAll_def Let_def by (auto split: option.split)
  have subs: "x \<noteq> s \<Longrightarrow> x \<in> set (subscribers h tag) \<Longrightarrow> x \<in> set (subscribers h' tag)" for x tag
    unfolding h'_def unsubscribeAll_def Let_def by (auto split: option.split)
  have "cells_ok env h'"
  proof (cases "paused h s")
    case None
    then show ?thesis using f(3,4,5) cs_def by (intro cells_ok_same [OF cok]) auto
  next
    case (Some c)
    then show ?thesis using f(3,4,5) cs_def
      by (intro cells_ok_cell [OF cok Some, where p = "(cells h ! c)\<lparr>payloads := []\<rparr>"]) simp_all
  qed
  moreover have "tasks_ok h'"
    by (rule tasks_ok_weaker [OF tok]) (use f subs cs_def in \<open>auto split: if_splits option.splits\<close>)
  moreover have "held h x r \<Longrightarrow> x \<noteq> s \<Longrightarrow> held h' x r" for x r
  proof (cases "paused h s")
    case None
    then show "held h x r \<Longrightarrow> x \<noteq> s \<Longrightarrow> held h' x r" using f(3,4) cs_def held_cong [of h' x h r] by simp
  next
    case (Some c)
    then show "held h x r \<Longrightarrow> x \<noteq> s \<Longrightarrow> held h' x r"
      using held_other [OF ok_apart [OF cok] Some, of x h' _ r] f(3,4) cs_def by simp
  qed
  ultimately show ?thesis using f by (auto simp: hub_ok_def keeps_def)
qed

lemma lookupTurn_ok:
  assumes ok: "hub_ok env h" and j: "j < length (tasks h)"
  shows "hub_ok env (lookupTurn env j h) \<and> keeps h (lookupTurn env j h)"
proof -
  have stage: "hub_ok env (set_stage j g h) \<and> keeps h (set_stage j g h)" if "\<not> ended g" for g
    using set_stage_ok [OF ok j] keeps_set_stage that by simp
  have read: "\<not> ended (read_step tbl tag from r)" for tbl tag "from" r
    by (simp add: read_step_def ended_def split: reading.split option.split)
  let ?s = "t_sock (tasks h ! j)"
  have "hub_ok env (finishLookup env j g (sendRaw env ?s a (sendRaw env ?s b h)))
      \<and> keeps h (finishLookup env j g (sendRaw env ?s a (sendRaw env ?s b h)))" for g a b
  proof -
    let ?h = "sendRaw env ?s a (sendRaw env ?s b h)"
    have "keeps h ?h" by (rule keeps_then [OF keeps_sendRaw keeps_sendRaw])
    moreover have "hub_ok env (finishLookup env j g ?h)" "keeps ?h (finishLookup env j g ?h)"
      using endLookup_ok [OF sendRaw_ok [OF sendRaw_ok [OF ok]]] j by simp_all
    ultimately show ?thesis using keeps_then by blast
  qed
  then show ?thesis using ok stage read endLookup_ok [OF ok j]
    by (simp add: lookupTurn_def gotResources_def gotChain_def Let_def ended_def split: lookup_stage.split)
qed

lemma lookupFailed_ok:
  assumes ok: "hub_ok env h" and j: "j < length (tasks h)"
  shows "hub_ok env (lookupFailed env j h) \<and> keeps h (lookupFailed env j h)"
proof -
  have "keeps h (finishLookup env j Dropped (terminate s h))" for s
    using endLookup_ok [OF terminate_ok [OF ok]] j keeps_then [OF keeps_terminate] by simp blast
  then show ?thesis using endLookup_ok [OF ok j] endLookup_ok [OF terminate_ok [OF ok]] j by (simp add: lookupFailed_def Let_def)
qed

text \<open>Rows and saves are nothing to sockets and pauses.\<close>

lemma hub_ok_rest:
  assumes "hub_ok env h"
  shows "hub_ok env (h\<lparr>saves := vs\<rparr>)" "hub_ok env (h\<lparr>table := tbl, saves := vs\<rparr>)" "hub_ok env (h\<lparr>buffered := b\<rparr>)"
proof -
  have same: "hub_ok env h'" if "cells h' = cells h" "paused h' = paused h" "tasks h' = tasks h" "lookups h' = lookups h"
    "subscribers h' = subscribers h" "ready h' = ready h" for h'
    unfolding hub_ok_def using assms cells_ok_same [of env h h'] tasks_ok_weaker [of h h'] that by (simp add: hub_ok_def)
  show "hub_ok env (h\<lparr>saves := vs\<rparr>)" "hub_ok env (h\<lparr>table := tbl, saves := vs\<rparr>)" "hub_ok env (h\<lparr>buffered := b\<rparr>)"
    by (rule same; simp)+
qed

lemma keeps_rest [simp]:
  "keeps h (h\<lparr>saves := vs\<rparr>)" "keeps h (h\<lparr>table := tbl, saves := vs\<rparr>)" "keeps h (h\<lparr>buffered := b\<rparr>)"
  unfolding keeps_def by (auto simp: held_def split: option.splits)

lemma startSave_ok:
  assumes "hub_ok env h"
  shows "hub_ok env (startSave env so m n known a h) \<and> keeps h (startSave env so m n known a h)"
  using assms by (simp add: startSave_def Let_def hub_ok_rest split: prod.split)

lemma saveTurn_ok:
  assumes ok: "hub_ok env h"
  shows "hub_ok env (saveTurn env k h) \<and> keeps h (saveTurn env k h)"
proof -
  have set: "hub_ok env (set_save k g h') \<and> keeps h (set_save k g h')" if "hub_ok env h'" "keeps h h'" for g h'
    using that hub_ok_rest(1) keeps_then [OF that(2) keeps_rest(1)] by (simp add: set_save_def)
  show ?thesis
    using set [OF ok] set [OF sends_ok [OF ok] keeps_sends] set broadcast_ok [OF ok] ok
    by (simp add: saveTurn_def Let_def split: save_stage.split option.split)
qed

lemma connect_ok:
  assumes ok: "hub_ok env h" and s: "ready h s = Unopened"
  shows "hub_ok env (hstep env (Connect s nonce) h)"
proof -
  let ?h = "h\<lparr>ready := (ready h)(s := Open), peers := (peers h)(s := Some \<lparr>challenge = nonce, peer_tags = []\<rparr>)\<rparr>"
  have ok': "cells_ok env h" "tasks_ok h" using ok by (simp_all add: hub_ok_def)
  have "cells_ok env ?h" by (rule cells_ok_same [OF ok'(1)]) simp_all
  moreover have "tasks_ok ?h" by (rule tasks_ok_weaker [OF ok'(2)]) (use s in \<open>auto split: if_splits\<close>)
  ultimately have "hub_ok env ?h" by (simp add: hub_ok_def)
  then show ?thesis using s sendRaw_ok [OF sendRaw_ok] by (simp add: hstep_simps)
qed

lemma hstep_ok:
  assumes ok: "hub_ok env h"
  shows "hub_ok env (hstep env e h)"
  using ok connect_ok [OF ok] terminate_ok [OF ok] close_ok [OF ok, THEN conjunct1] hub_ok_rest(3) [OF ok]
    handleSubscribe_ok [OF ok] lookupTurn_ok [OF ok] lookupFailed_ok [OF ok] startSave_ok [OF ok] saveTurn_ok [OF ok]
    broadcast_ok [OF ok]
  by (cases e) (simp_all add: hstep_simps Let_def)

lemma hstep_keeps:
  assumes ok: "hub_ok env h" and e: "\<And>s nonce. e \<noteq> Connect s nonce"
  shows "keeps h (hstep env e h)"
proof (cases e)
  case (Connect s nonce)
  then show ?thesis using e [of s nonce] by simp
qed (use keeps_terminate close_ok [OF ok, THEN conjunct2, THEN conjunct1] handleSubscribe_ok [OF ok] lookupTurn_ok [OF ok]
    lookupFailed_ok [OF ok] startSave_ok [OF ok] saveTurn_ok [OF ok] broadcast_ok [OF ok]
  in \<open>simp_all add: hstep_simps Let_def\<close>)

lemma hub_start_ok: "hub_ok env hub_start"
  by (simp add: hub_ok_def cells_ok_def tasks_ok_def hub_start_def)

lemma hrun_ok: "hub_ok env (hrun env evs)"
  unfolding hrun_def by (rule fold_invariant [where P = "hub_ok env"]) (simp_all add: hub_start_ok hstep_ok)

end
