(* ===== verification/SyncFanOut.thy ===== *)
theory SyncFanOut
  imports SyncHubSound
begin

text \<open>
  What a subscriber is owed. A revision that is stored reaches every subscriber that was served its
  chain, over any interleaving of saves, subscribes and slow sockets of \<open>SyncHub\<close>; what a socket
  is sent while its chain is being read waits behind the chain; and what waits is bounded.
\<close>

section \<open>The ways of a revision to a subscriber\<close>

definition ack_of :: "rev_row \<Rightarrow> frame" where
  "ack_of r = SaveAck (WStr (r_tag r)) (wopt (r_base r)) (WStr (r_id r))"

text \<open>Committed and not yet broadcast.\<close>

definition due :: "relay \<Rightarrow> rev_row \<Rightarrow> bool" where
  "due h r = list_ex (\<lambda>v. v_stage v = ToBroadcast (Acked (r_id r) (r_base r)) (row_wire r) \<and> v_tag v = r_tag r) (saves h)"

text \<open>Saved by the socket itself: its acknowledgement was sent, or is about to be.\<close>

definition owned :: "relay \<Rightarrow> sock \<Rightarrow> rev_row \<Rightarrow> bool" where
  "owned h s r = (ack_of r \<in> set (sent h s) \<or>
     list_ex (\<lambda>v. v_sock v = Some s \<and> (case v_stage v of ToAnswer fs \<Rightarrow> ack_of r \<in> set fs | _ \<Rightarrow> False)) (saves h))"

definition reaches :: "relay \<Rightarrow> sock \<Rightarrow> rev_row \<Rightarrow> bool" where
  "reaches h s r = (gets h s r \<or> held h s r \<or> due h r \<or> owned h s r)"

text \<open>At or before the revision the subscriber said it had.\<close>

definition known_before :: "rev_table \<Rightarrow> ustr option \<Rightarrow> rev_row \<Rightarrow> bool" where
  "known_before tbl from r =
     list_ex (\<lambda>x. from = Some (r_id x) \<and> r_tag x = r_tag r \<and> r_seq r \<le> r_seq x) tbl"

text \<open>A full state of the workspace that is newer.\<close>

definition supersedes :: "rev_row \<Rightarrow> rev_row \<Rightarrow> bool" where
  "supersedes k r = (r_tag k = r_tag r \<and> r_keyframe k = 1 \<and> r_seq r < r_seq k)"

definition covered :: "relay \<Rightarrow> lookup_run \<Rightarrow> rev_row \<Rightarrow> bool" where
  "covered h t r = (case t_stage t of
       HasChain rs \<Rightarrow> known_before (table h) (t_from t) r \<or> r \<in> set rs \<or> list_ex (\<lambda>k. supersedes k r) rs
         \<or> reaches h (t_sock t) r
     | Served \<Rightarrow> known_before (table h) (t_from t) r
         \<or> list_ex (\<lambda>k. supersedes k r \<and> gets h (t_sock t) k) (table h) \<or> reaches h (t_sock t) r
     | _ \<Rightarrow> True)"

text \<open>What a statement of \<open>chainFrom\<close> found is still so when the next one runs.\<close>

definition reading_ok :: "rev_table \<Rightarrow> lookup_run \<Rightarrow> bool" where
  "reading_ok tbl t = (case t_stage t of
       Reading (AfterSeq q) \<Rightarrow> list_ex (\<lambda>x. t_from t = Some (r_id x) \<and> r_tag x = t_tag t \<and> r_seq x = q) tbl
     | Reading (FromSeq q) \<Rightarrow> list_ex (\<lambda>x. r_tag x = t_tag t \<and> r_keyframe x = 1 \<and> r_seq x = q) tbl
     | HasChain rs \<Rightarrow> list_all (\<lambda>x. x \<in> set tbl \<and> r_tag x = t_tag t) rs
     | _ \<Rightarrow> True)"

definition fan_ok :: "relay \<Rightarrow> bool" where
  "fan_ok h = (table_ok (table h) \<and> (\<forall>t \<in> set (tasks h). reading_ok (table h) t
    \<and> (ready h (t_sock t) = Open \<longrightarrow> (\<forall>r \<in> set (table h). r_tag r = t_tag t \<longrightarrow> covered h t r))))"

lemma fan_okD:
  assumes "fan_ok h"
  shows "table_ok (table h)" and "t \<in> set (tasks h) \<Longrightarrow> reading_ok (table h) t"
    and "t \<in> set (tasks h) \<Longrightarrow> ready h (t_sock t) = Open \<Longrightarrow> r \<in> set (table h) \<Longrightarrow> r_tag r = t_tag t \<Longrightarrow> covered h t r"
  using assms unfolding fan_ok_def by blast+

lemma reaches_keeps:
  assumes "keeps h h'" "saves h' = saves h" "ready h' s = Open" "reaches h s r"
  shows "reaches h' s r"
proof -
  have "set (sent h s) \<subseteq> set (sent h' s)" "held h s r \<Longrightarrow> gets h' s r \<or> held h' s r"
    using assms(1,3) unfolding keeps_def by blast+
  then show ?thesis using assms(2,4) gets_mono [of h s h' r] by (auto simp: reaches_def due_def owned_def)
qed

section \<open>What a step leaves covered\<close>

text \<open>A lookup is as before, just begun, or covered anew; open sockets keep what reaches them; and every
  revision the step adds is due.\<close>

lemma covered_mono:
  assumes "covered h t r" "set (table h) \<subseteq> set (table h')" "set (sent h (t_sock t)) \<subseteq> set (sent h' (t_sock t))"
    and "reaches h (t_sock t) r \<Longrightarrow> reaches h' (t_sock t) r"
    and "t_sock t' = t_sock t" "t_from t' = t_from t" "t_stage t' = t_stage t"
  shows "covered h' t' r"
  using assms(1,2,4) gets_mono [OF assms(3)] unfolding covered_def assms(5-7)
  by (cases "t_stage t") (auto simp: known_before_def list_ex_iff)

lemma reading_mono:
  "reading_ok tbl t \<Longrightarrow> set tbl \<subseteq> set tbl' \<Longrightarrow> t_from t' = t_from t \<Longrightarrow> t_tag t' = t_tag t \<Longrightarrow> t_stage t' = t_stage t \<Longrightarrow>
    reading_ok tbl' t'"
  unfolding reading_ok_def by (auto simp: list_ex_iff list_all_iff split: lookup_stage.splits reading.splits)

lemma covered_due: "due h r \<Longrightarrow> covered h t r"
  by (simp add: covered_def reaches_def split: lookup_stage.split)

definition as_before :: "relay \<Rightarrow> lookup_run \<Rightarrow> bool" where
  "as_before h t' = (\<exists>t \<in> set (tasks h). t_sock t' = t_sock t \<and> t_tag t' = t_tag t \<and> t_from t' = t_from t \<and> t_stage t' = t_stage t)"

definition all_covered :: "relay \<Rightarrow> lookup_run \<Rightarrow> bool" where
  "all_covered h t = (reading_ok (table h) t
    \<and> (ready h (t_sock t) = Open \<longrightarrow> (\<forall>r \<in> set (table h). r_tag r = t_tag t \<longrightarrow> covered h t r)))"

lemma fan_transfer:
  assumes ok: "fan_ok h" "table_ok (table h')" "set (table h) \<subseteq> set (table h')"
    and new: "\<And>r. r \<in> set (table h') \<Longrightarrow> r \<notin> set (table h) \<Longrightarrow> due h' r"
    and tasks: "\<And>t. t \<in> set (tasks h') \<Longrightarrow> as_before h t \<or> all_covered h' t"
    and mono: "\<And>t r. t \<in> set (tasks h) \<Longrightarrow> ready h' (t_sock t) = Open \<Longrightarrow> r_tag r = t_tag t \<Longrightarrow> ready h (t_sock t) = Open
      \<and> set (sent h (t_sock t)) \<subseteq> set (sent h' (t_sock t)) \<and> (reaches h (t_sock t) r \<longrightarrow> reaches h' (t_sock t) r)"
  shows "fan_ok h'"
proof -
  have "all_covered h' t'" if "t' \<in> set (tasks h')" for t'
  proof (cases "as_before h t'")
    case True
    then obtain t where t: "t \<in> set (tasks h)" "t_sock t' = t_sock t" "t_tag t' = t_tag t" "t_from t' = t_from t"
      "t_stage t' = t_stage t" by (auto simp: as_before_def)
    have "covered h' t' r" if op: "ready h' (t_sock t') = Open" and r: "r \<in> set (table h')" "r_tag r = t_tag t'" for r
    proof (cases "r \<in> set (table h)")
      case True
      note m = mono [OF t(1) op [unfolded t(2)] r(2) [unfolded t(3)]]
      have "covered h t r" using fan_okD(3) [OF ok(1) t(1) _ True] m r(2) t(3) by simp
      then show ?thesis using m by (rule_tac covered_mono [OF _ ok(3) _ _ t(2,4,5)]) blast+
    qed (rule covered_due [OF new [OF r(1)]])
    then show ?thesis using reading_mono [OF fan_okD(2) [OF ok(1) t(1)] ok(3) t(4,3,5)] by (simp add: all_covered_def)
  qed (use tasks [OF that] in simp)
  then show ?thesis using ok(2) by (simp add: fan_ok_def all_covered_def)
qed

text \<open>A step that adds no revision and answers no save.\<close>

lemma fan_keeps:
  assumes "fan_ok h" "keeps h h'" "saves h' = saves h" "table h' = table h"
    and "\<And>t. t \<in> set (tasks h') \<Longrightarrow> as_before h t \<or> all_covered h' t"
  shows "fan_ok h'"
proof (rule fan_transfer [OF assms(1)])
  fix t r assume "ready h' (t_sock t) = Open"
  then show "ready h (t_sock t) = Open \<and> set (sent h (t_sock t)) \<subseteq> set (sent h' (t_sock t))
      \<and> (reaches h (t_sock t) r \<longrightarrow> reaches h' (t_sock t) r)"
    using assms(2) reaches_keeps [OF assms(2,3)] by (auto simp: keeps_def)
qed (use assms fan_okD(1) in simp_all)

lemma as_before_refl: "t \<in> set (tasks h) \<Longrightarrow> as_before h t"
  by (auto simp: as_before_def)

section \<open>Lookups\<close>

lemma release_rest [simp]:
  "tasks (release env s c h) = tasks h" "saves (release env s c h) = saves h" "table (release env s c h) = table h"
  by (simp_all add: release_def Let_def)

lemma finish_rest [simp]:
  "saves (finishLookup env j g h) = saves h" "table (finishLookup env j g h) = table h"
  by (simp_all add: finishLookup_def resume_def set_stage_def Let_def)

lemma finish_tasks:
  assumes "hub_ok env h" "j < length (tasks h)"
  shows "\<exists>b. tasks (finishLookup env j g h) = (tasks h)[j := (tasks h ! j)\<lparr>t_stage := g, t_released := b\<rparr>]"
proof (cases "t_released (tasks h ! j)")
  case True
  then have "lookups h (t_sock (tasks h ! j)) (t_tag (tasks h ! j)) \<noteq> Some j"
    using tasks_okD(1) assms by (auto simp: hub_ok_def)
  then have "tasks (finishLookup env j g h) = (tasks h)[j := (tasks h ! j)\<lparr>t_stage := g\<rparr>]"
    using finish_older [OF assms(2) True] by simp
  moreover have "(tasks h ! j)\<lparr>t_stage := g\<rparr> = (tasks h ! j)\<lparr>t_stage := g, t_released := True\<rparr>" using True by simp
  ultimately show ?thesis by metis
next
  case False
  then have "lookups h (t_sock (tasks h ! j)) (t_tag (tasks h ! j)) = Some j"
    using tasks_okD(1) assms by (auto simp: hub_ok_def)
  then show ?thesis using finish_newest [OF assms(2) False] by auto
qed

lemma updated_tasks:
  assumes "t \<in> set ((tasks h)[j := t'])" "t \<noteq> t'"
  shows "as_before h t"
  using assms set_update_subset_insert [of "tasks h" j t'] by (intro as_before_refl) auto

lemma fan_finish:
  assumes ok: "hub_ok env h" "fan_ok h" and j: "j < length (tasks h)"
    and k: "keeps h h1" "hub_ok env h1" "saves h1 = saves h" "table h1 = table h" "tasks h1 = tasks h"
    and g: "g = Dropped \<or> (\<forall>b. all_covered (finishLookup env j g h1) ((tasks h ! j)\<lparr>t_stage := g, t_released := b\<rparr>))"
  shows "fan_ok (finishLookup env j g h1)"
proof (rule fan_keeps [OF ok(2)])
  show "keeps h (finishLookup env j g h1)" using keeps_then [OF k(1)] endLookup_ok [OF k(2)] j k(5) by simp
  fix t assume "t \<in> set (tasks (finishLookup env j g h1))"
  then obtain b where t: "t \<in> set ((tasks h)[j := (tasks h ! j)\<lparr>t_stage := g, t_released := b\<rparr>])"
    using finish_tasks [OF k(2), of j g] j k(5) by auto
  show "as_before h t \<or> all_covered (finishLookup env j g h1) t"
  proof (cases "t = (tasks h ! j)\<lparr>t_stage := g, t_released := b\<rparr>")
    case True
    then show ?thesis using g by (auto simp: all_covered_def covered_def reading_ok_def)
  qed (use updated_tasks [OF t] in simp)
qed (use k in simp_all)

lemma fan_stage:
  assumes ok: "hub_ok env h" "fan_ok h" and j: "j < length (tasks h)"
    and g: "all_covered h ((tasks h ! j)\<lparr>t_stage := g\<rparr>)"
  shows "fan_ok (set_stage j g h)"
proof (rule fan_keeps [OF ok(2) keeps_set_stage])
  fix t assume "t \<in> set (tasks (set_stage j g h))"
  then have t: "t \<in> set ((tasks h)[j := (tasks h ! j)\<lparr>t_stage := g\<rparr>])" by simp
  have same: "covered (set_stage j g h) u r = covered h u r" for u r
    using held_cong [of "set_stage j g h" _ h]
    by (simp add: covered_def reaches_def gets_def due_def owned_def split: lookup_stage.split)
  show "as_before h t \<or> all_covered (set_stage j g h) t"
  proof (cases "t = (tasks h ! j)\<lparr>t_stage := g\<rparr>")
    case True
    then show ?thesis using g by (simp add: all_covered_def same)
  qed (use updated_tasks [OF t] in simp)
qed simp_all

text \<open>Reading the chain leaves no revision out but those before the start.\<close>

lemma chain_rows:
  assumes "table_ok tbl" "r \<in> set tbl" "r_tag r = tag"
  shows "r_seq r > q \<Longrightarrow> r \<in> set (chainAfterSeq tbl tag q)" "r_seq r \<ge> q \<Longrightarrow> r \<in> set (chainFromSeq tbl tag q)"
    "r \<in> set (chainAll tbl tag)"
  using assms mapRevisionRow_id [OF assms(1,2)]
  by (auto simp: chainAfterSeq_def chainFromSeq_def chainAll_def by_seq_def image_iff intro!: bexI [of _ r])

lemma chain_stored:
  assumes "table_ok tbl"
  shows "set (chainAfterSeq tbl tag q) \<subseteq> {x \<in> set tbl. r_tag x = tag}" "set (chainFromSeq tbl tag q) \<subseteq> {x \<in> set tbl. r_tag x = tag}"
    "set (chainAll tbl tag) \<subseteq> {x \<in> set tbl. r_tag x = tag}"
  using mapRevisionRow_id [OF assms]
  by (auto simp: chainAfterSeq_def chainFromSeq_def chainAll_def by_seq_def)

lemma keyframe_found:
  assumes "lastKeyframeSeq tbl tag = Some q"
  shows "\<exists>x \<in> set tbl. r_tag x = tag \<and> r_keyframe x = 1 \<and> r_seq x = q"
proof -
  let ?ks = "filter (\<lambda>r. r_tag r = tag \<and> r_keyframe r = 1) tbl"
  have "?ks \<noteq> []" "q = Max (set (map r_seq ?ks))"
    using assms by (auto simp: lastKeyframeSeq_def max_seq_def split: if_splits)
  then have "q \<in> set (map r_seq ?ks)" using Max_in [of "set (map r_seq ?ks)"] by (simp only: finite_set) fastforce
  then show ?thesis by auto
qed

lemma read_covers:
  assumes ok: "fan_ok h" and t: "t \<in> set (tasks h)" "t_stage t = Reading r"
  shows "all_covered h (t\<lparr>t_stage := read_step (table h) (t_tag t) (t_from t) r\<rparr>)"
proof -
  let ?tbl = "table h" and ?tag = "t_tag t"
  note tbl = fan_okD(1) [OF ok]
  have before: "reading_ok ?tbl t" by (rule fan_okD(2) [OF ok t(1)])
  have kf: "reading_ok ?tbl (t\<lparr>t_stage := Reading (after_keyframe ?tbl ?tag)\<rparr>)"
    using keyframe_found [of ?tbl ?tag] by (auto simp: reading_ok_def after_keyframe_def list_ex_iff split: option.split)
  have found: "seqOfId ?tbl ?tag i = Some q \<Longrightarrow> \<exists>x \<in> set ?tbl. r_id x = i \<and> r_tag x = ?tag \<and> r_seq x = q" for i q
    unfolding seqOfId_def by (auto simp: find_Some_iff)
  show ?thesis
  proof (cases r)
    case FirstRead
    then show ?thesis using kf found
      by (auto simp: all_covered_def covered_def read_step_def reading_ok_def list_ex_iff split: option.split)
  next
    case Keyframe
    then show ?thesis using kf by (simp add: all_covered_def covered_def read_step_def)
  next
    case (AfterSeq q)
    then obtain x where x: "x \<in> set ?tbl" "t_from t = Some (r_id x)" "r_tag x = ?tag" "r_seq x = q"
      using before t(2) by (auto simp: reading_ok_def list_ex_iff)
    then show ?thesis using AfterSeq chain_rows(1) [OF tbl, of _ ?tag q] chain_stored(1) [OF tbl, of ?tag q]
      by (fastforce simp: all_covered_def covered_def read_step_def reading_ok_def known_before_def list_ex_iff list_all_iff not_less)
  next
    case (FromSeq q)
    then obtain x where x: "x \<in> set ?tbl" "r_tag x = ?tag" "r_keyframe x = 1" "r_seq x = q"
      using before t(2) by (auto simp: reading_ok_def list_ex_iff)
    have "x \<in> set (chainFromSeq ?tbl ?tag q)" using x by (intro chain_rows(2) [OF tbl]) simp_all
    then show ?thesis using FromSeq x chain_rows(2) [OF tbl, of _ ?tag q] chain_stored(2) [OF tbl, of ?tag q]
      by (fastforce simp: all_covered_def covered_def read_step_def reading_ok_def supersedes_def list_ex_iff list_all_iff not_le)
  next
    case AllRows
    then show ?thesis using chain_rows(3) [OF tbl, of _ ?tag] chain_stored(3) [OF tbl, of ?tag]
      by (auto simp: all_covered_def covered_def read_step_def reading_ok_def list_all_iff)
  qed
qed

lemma chain_frame_carries:
  "r \<in> set rs \<Longrightarrow> r_tag r = tag \<Longrightarrow> carries r (chain_frame tag rs)"
  by (auto simp: carries_def chain_frame_def chainForWire_def)

lemma served_covers:
  assumes ok: "fan_ok h" and t: "t \<in> set (tasks h)" "t_stage t = HasChain rs"
    and k: "keeps h h'" "saves h' = saves h" "table h' = table h" and g: "t_stage t' = Served"
      "t_sock t' = t_sock t" "t_tag t' = t_tag t" "t_from t' = t_from t"
    and sent: "ready h' (t_sock t) = Open \<Longrightarrow> chain_frame (t_tag t) rs \<in> set (sent h' (t_sock t))"
  shows "all_covered h' t'"
proof -
  have rows: "list_all (\<lambda>x. x \<in> set (table h) \<and> r_tag x = t_tag t) rs"
    using fan_okD(2) [OF ok t(1)] t(2) by (simp add: reading_ok_def)
  have "covered h' t' r" if op: "ready h' (t_sock t) = Open" and r: "r \<in> set (table h)" "r_tag r = t_tag t" for r
  proof -
    have "ready h (t_sock t) = Open" using k(1) op by (simp add: keeps_def)
    then have "covered h t r" using fan_okD(3) [OF ok t(1) _ r] by simp
    moreover have "x \<in> set rs \<Longrightarrow> x \<in> set (table h) \<and> gets h' (t_sock t) x" for x
      using rows chain_frame_carries [of x rs "t_tag t"]
      by (auto simp: list_all_iff gets_def list_ex_iff intro!: bexI [OF _ sent [OF op]])
    ultimately show ?thesis using reaches_keeps [OF k(1,2) op] t(2) g k(3)
      by (auto simp: covered_def list_ex_iff reaches_def)
  qed
  then show ?thesis using g k(3) by (simp add: all_covered_def reading_ok_def)
qed

lemma sends_two:
  "ready (sendRaw env s b (sendRaw env s a h)) s = Open \<Longrightarrow> sent (sendRaw env s b (sendRaw env s a h)) s = sent h s @ [a, b]"
  using sends_sent(2) [of env s "[a, b]" h] by simp

lemma fan_lookupTurn:
  assumes ok: "hub_ok env h" "fan_ok h" and j: "j < length (tasks h)"
  shows "fan_ok (lookupTurn env j h)"
proof -
  let ?t = "tasks h ! j"
  let ?s = "t_sock ?t"
  have mem: "?t \<in> set (tasks h)" using j by simp
  have stop: "fan_ok (finishLookup env j Dropped h)" by (rule fan_finish [OF ok j keeps_self ok(1)]) simp_all
  show ?thesis
  proof (cases "t_stage ?t")
    case Resources
    have "fan_ok (set_stage j (Reading FirstRead) h)"
      by (rule fan_stage [OF ok j]) (simp add: all_covered_def covered_def reading_ok_def)
    then show ?thesis using stop Resources by (simp add: lookupTurn_def gotResources_def)
  next
    case (Reading r)
    then show ?thesis using fan_stage [OF ok j read_covers [OF ok(2) mem Reading]] by (simp add: lookupTurn_def)
  next
    case (HasChain rs)
    let ?h1 = "sendRaw env ?s (chain_frame (t_tag ?t) rs) (sendRaw env ?s (Subscribed (WStr (t_tag ?t)) True) h)"
    have k: "keeps h ?h1" by (rule keeps_then [OF keeps_sendRaw keeps_sendRaw])
    have ok1: "hub_ok env ?h1" by (rule sendRaw_ok [OF sendRaw_ok [OF ok(1)]])
    note f = endLookup_ok [OF ok1, of j Served]
    have "all_covered (finishLookup env j Served ?h1) (?t\<lparr>t_stage := Served, t_released := b\<rparr>)" for b
    proof (rule served_covers [OF ok(2) mem HasChain])
      show "keeps h (finishLookup env j Served ?h1)" using keeps_then [OF k] f j by simp
      assume op: "ready (finishLookup env j Served ?h1) ?s = Open"
      then have "ready ?h1 ?s = Open" "set (sent ?h1 ?s) \<subseteq> set (sent (finishLookup env j Served ?h1) ?s)"
        using f j by (auto simp: keeps_def)
      then show "chain_frame (t_tag ?t) rs \<in> set (sent (finishLookup env j Served ?h1) ?s)"
        using sends_two [of env ?s "chain_frame (t_tag ?t) rs" "Subscribed (WStr (t_tag ?t)) True" h] by auto
    qed simp_all
    then have "fan_ok (finishLookup env j Served ?h1)" by (intro fan_finish [OF ok j k ok1]) simp_all
    then show ?thesis using stop HasChain by (simp add: lookupTurn_def gotChain_def Let_def)
  qed (simp_all add: lookupTurn_def ok)
qed

lemma fan_lookupFailed:
  assumes ok: "hub_ok env h" "fan_ok h" and j: "j < length (tasks h)"
  shows "fan_ok (lookupFailed env j h)"
  using fan_finish [OF ok j keeps_self ok(1), where g = Dropped]
    fan_finish [OF ok j keeps_terminate terminate_ok [OF ok(1)], where g = Dropped] by (simp add: lookupFailed_def Let_def)

lemma fan_subscribe:
  assumes ok: "hub_ok env h" "fan_ok h"
  shows "fan_ok (handleSubscribe env s tag from sig h)"
proof -
  have "fan_ok (startLookup env s tg fr h)" if op: "ready h s = Open" for tg fr
  proof (rule fan_keeps [OF ok(2)])
    show "keeps h (startLookup env s tg fr h)" using startLookup_ok [OF ok(1) op] by simp
    obtain c cs where eq: "startLookup env s tg fr h = subscribe s tg (started s tg fr c cs h)"
      using startLookup_started [OF ok(1) op] by blast
    then show "saves (startLookup env s tg fr h) = saves h" "table (startLookup env s tg fr h) = table h"
      by (simp_all add: subscribe_def)
    fix t assume "t \<in> set (tasks (startLookup env s tg fr h))"
    then consider "t = new_task s tg fr c" | "t \<in> set (superseded (lookups h s tg) (tasks h))"
      unfolding eq by (auto simp: subscribe_def)
    then show "as_before h t \<or> all_covered (startLookup env s tg fr h) t"
    proof cases
      case 2
      have "lookups h s tg = Some i \<Longrightarrow> i < length (tasks h)" for i
        using ok(1) tasks_okD(2) by (auto simp: hub_ok_def)
      from superseded_mem [OF this 2] have "as_before h t" unfolding as_before_def by metis
      then show ?thesis ..
    qed (simp add: all_covered_def covered_def reading_ok_def)
  qed
  then show ?thesis using ok(2) by (simp add: handleSubscribe_def split: option.split)
qed

section \<open>Saves\<close>

lemma fan_one_delivers:
  assumes "apart h" "except \<noteq> Some s" "ready (fan_one env f except s h) s = Open" "carries r f"
  shows "gets (fan_one env f except s h) s r \<or> held (fan_one env f except s h) s r"
proof (cases rule: fan_one_cases [of except s env f h])
  case send
  then show ?thesis using assms(3,4) by (auto simp: gets_def sendRaw_sent list_ex_iff)
next
  case (hold c)
  then have "held (fan_one env f except s h) s r"
    unfolding fan_one_held [OF hold(2,1,3)] using apartD(1) [OF assms(1) hold(2)] assms(4) by (simp add: held_Some)
  then show ?thesis ..
next
  case (drop c)
  then show ?thesis using assms(3) unfolding fan_one_drop [OF drop(2,1,3)] by (simp add: terminate_ready split: if_splits)
qed (use assms(2) in simp)

lemma fanOut_delivers:
  assumes "hub_ok env h" "s \<in> set ss" "except \<noteq> Some s" "carries r f" "ready (fanOut env ss f except h) s = Open"
  shows "gets (fanOut env ss f except h) s r \<or> held (fanOut env ss f except h) s r"
  using assms(1,2,5) unfolding fanOut_def
proof (induction ss arbitrary: h)
  case (Cons x ss)
  let ?h = "fan_one env f except x h"
  have ok: "hub_ok env ?h" by (rule fan_one_ok [OF Cons.prems(1)])
  show ?case
  proof (cases "s \<in> set ss")
    case True
    then show ?thesis using Cons.IH [OF ok] Cons.prems(3) by simp
  next
    case False
    have k: "keeps ?h (fold (fan_one env f except) ss ?h)" using keeps_fanOut [OF ok] by (simp add: fanOut_def)
    have "ready ?h s = Open" using k Cons.prems(3) by (simp add: keeps_def)
    moreover have "apart h" using Cons.prems(1) ok_apart by (auto simp: hub_ok_def)
    ultimately have "gets ?h s r \<or> held ?h s r" using fan_one_delivers [of h except s env f r] assms(3,4) False Cons.prems(2) by auto
    then have "gets (fold (fan_one env f except) ss ?h) s r \<or> held (fold (fan_one env f except) ss ?h) s r"
      using k Cons.prems(3) gets_mono [of ?h s "fold (fan_one env f except) ss ?h" r] by (simp add: keeps_def) blast
    then show ?thesis by simp
  qed
qed simp

lemma set_save_fields [simp]:
  "cells (set_save k g h) = cells h" "paused (set_save k g h) = paused h" "ready (set_save k g h) = ready h"
  "sent (set_save k g h) = sent h" "table (set_save k g h) = table h" "tasks (set_save k g h) = tasks h"
  "lookups (set_save k g h) = lookups h" "buffered (set_save k g h) = buffered h"
  "saves (set_save k g h) = (saves h)[k := (saves h ! k)\<lparr>v_stage := g\<rparr>]"
  by (simp_all add: set_save_def)

lemma set_save_gets [simp]: "gets (set_save k g h) s r = gets h s r" "held (set_save k g h) s r = held h s r"
  using held_cong [of "set_save k g h" s h r] by (simp_all add: gets_def)

lemma list_ex_update:
  assumes "list_ex P xs" "k < length xs"
  shows "list_ex P (xs[k := y]) \<or> P (xs ! k)"
proof -
  obtain i where i: "i < length xs" "P (xs ! i)" using assms(1) by (auto simp: list_ex_iff in_set_conv_nth)
  show ?thesis
  proof (cases "i = k")
    case False
    then have "xs ! i \<in> set (xs[k := y])" using i(1) by (metis in_set_conv_nth length_list_update nth_list_update_neq)
    then show ?thesis using i(2) by (auto simp: list_ex_iff)
  qed (use i in simp)
qed

text \<open>A turn of a save: what it was waiting with goes where the turn puts it.\<close>

lemma save_reaches:
  assumes "reaches h s r" "keeps h h'" "saves h' = saves h" "ready h' s = Open" and k: "k < length (saves h)"
    and bc: "v_stage (saves h ! k) = ToBroadcast (Acked (r_id r) (r_base r)) (row_wire r) \<Longrightarrow> v_tag (saves h ! k) = r_tag r \<Longrightarrow>
       gets h' s r \<or> held h' s r \<or> owned (set_save k g h') s r"
    and ans: "\<And>fs. v_stage (saves h ! k) = ToAnswer fs \<Longrightarrow> v_sock (saves h ! k) = Some s \<Longrightarrow> ack_of r \<in> set fs \<Longrightarrow>
       ack_of r \<in> set (sent h' s)"
  shows "reaches (set_save k g h') s r"
proof -
  let ?v = "(saves h ! k)\<lparr>v_stage := g\<rparr>"
  from reaches_keeps [OF assms(2,3,4,1)] consider "gets h' s r \<or> held h' s r" | "due h' r" | "owned h' s r"
    by (auto simp: reaches_def)
  then show ?thesis
  proof cases
    case 2
    then have "due (set_save k g h') r \<or> v_stage (saves h ! k) = ToBroadcast (Acked (r_id r) (r_base r)) (row_wire r)
        \<and> v_tag (saves h ! k) = r_tag r"
      using list_ex_update [OF _ k, of _ ?v] assms(3) unfolding due_def by (simp only: set_save_fields) blast
    then show ?thesis using bc by (auto simp: reaches_def)
  next
    case 3
    let ?P = "\<lambda>v. v_sock v = Some s \<and> (case v_stage v of ToAnswer fs \<Rightarrow> ack_of r \<in> set fs | _ \<Rightarrow> False)"
    have "ack_of r \<in> set (sent h' s) \<or> list_ex ?P ((saves h)[k := ?v]) \<or> ?P (saves h ! k)"
      using 3 list_ex_update [OF _ k, of ?P ?v] assms(3) unfolding owned_def by auto
    then have "owned (set_save k g h') s r"
      using ans assms(3) unfolding owned_def by (auto split: save_stage.splits)
    then show ?thesis by (simp add: reaches_def)
  qed (auto simp: reaches_def)
qed

lemma fan_set_save:
  assumes ok: "fan_ok h" and k: "keeps h h'" "saves h' = saves h" "table h' = table h" "tasks h' = tasks h"
    and r: "\<And>t r. t \<in> set (tasks h) \<Longrightarrow> ready h' (t_sock t) = Open \<Longrightarrow> r_tag r = t_tag t \<Longrightarrow> reaches h (t_sock t) r \<Longrightarrow>
       reaches (set_save n g h') (t_sock t) r"
  shows "fan_ok (set_save n g h')"
  by (rule fan_transfer [OF ok]) (use k fan_okD(1) [OF ok] r as_before_refl in \<open>auto simp: keeps_def\<close>)

lemma save_frames_acked: "save_frames (r_tag r) (Acked (r_id r) (r_base r)) = [ack_of r]"
  by (simp add: save_frames_def ack_of_def)

lemma row_wire_carried: "carries r (StateFrame (WStr (r_tag r)) (Some [Some (row_wire r)]))"
  by (simp add: carries_def)

lemma fan_broadcast_turn:
  assumes ok: "hub_ok env h" "fan_ok h" and k: "k < length (saves h)"
    and ToBroadcast: "v_stage (saves h ! k) = ToBroadcast out w"
  shows "fan_ok (saveTurn env k h)"
proof -
  let ?v = "saves h ! k"
  let ?h = "broadcast env (v_tag ?v) (StateFrame (WStr (v_tag ?v)) (Some [Some w])) (v_sock ?v) h"
  let ?g = "ToAnswer (save_frames (v_tag ?v) out)"
  have same: "saves ?h = saves h" "table ?h = table h" "tasks ?h = tasks h" by (simp_all add: broadcast_def)
  have keep: "keeps h ?h" using broadcast_ok [OF ok(1)] by blast
  have "fan_ok (set_save k ?g ?h)"
  proof (rule fan_set_save [OF ok(2) keep same])
    fix t r assume t: "t \<in> set (tasks h)" "ready ?h (t_sock t) = Open" "r_tag r = t_tag t" "reaches h (t_sock t) r"
    show "reaches (set_save k ?g ?h) (t_sock t) r"
    proof (rule save_reaches [OF t(4) keep same(1) t(2) k])
      assume "v_stage ?v = ToBroadcast (Acked (r_id r) (r_base r)) (row_wire r)" "v_tag ?v = r_tag r"
      with ToBroadcast have v: "out = Acked (r_id r) (r_base r)" "w = row_wire r" "v_tag ?v = r_tag r" by simp_all
      show "gets ?h (t_sock t) r \<or> held ?h (t_sock t) r \<or> owned (set_save k ?g ?h) (t_sock t) r"
      proof (cases "v_sock ?v = Some (t_sock t)")
        case True
        have "?v\<lparr>v_stage := ?g\<rparr> \<in> set (saves (set_save k ?g ?h))"
          using k set_update_memI [of k "saves h"] same(1) by simp
        moreover have "ack_of r \<in> set (save_frames (v_tag ?v) out)" by (simp add: v save_frames_acked)
        ultimately show ?thesis using True unfolding owned_def list_ex_iff by (intro disjI2) (rule bexI, simp_all)
      next
        case False
        have "ready h (t_sock t) = Open" using keep t(2) by (simp add: keeps_def)
        then have "t_sock t \<in> set (subscribers h (v_tag ?v))"
          using tasks_okD(6) [OF _ t(1)] ok(1) t(3) v(3) by (simp add: hub_ok_def)
        then show ?thesis
          using fanOut_delivers [OF ok(1) _ False row_wire_carried, of "subscribers h (v_tag ?v)" r] t(2)
          unfolding broadcast_def v by blast
      qed
    qed (use ToBroadcast in simp)
  qed
  then show ?thesis using ToBroadcast by (simp add: saveTurn_def Let_def)
qed

lemma fan_answer_turn:
  assumes ok: "hub_ok env h" "fan_ok h" and k: "k < length (saves h)" and ToAnswer: "v_stage (saves h ! k) = ToAnswer fs"
  shows "fan_ok (saveTurn env k h)"
proof -
  let ?v = "saves h ! k"
  define h1 where "h1 = (case v_sock ?v of None \<Rightarrow> h | Some s \<Rightarrow> fold (sendRaw env s) fs h)"
  have h1: "saves h1 = saves h" "table h1 = table h" "tasks h1 = tasks h" "keeps h h1"
    by (simp_all add: h1_def keeps_sends split: option.split)
  have "fan_ok (set_save k Answered h1)"
  proof (rule fan_set_save [OF ok(2) h1(4,1,2,3)])
    fix t r assume t: "t \<in> set (tasks h)" "ready h1 (t_sock t) = Open" "r_tag r = t_tag t" "reaches h (t_sock t) r"
    show "reaches (set_save k Answered h1) (t_sock t) r"
    proof (rule save_reaches [OF t(4) h1(4,1) t(2) k])
      fix gs assume "v_stage ?v = ToAnswer gs" "v_sock ?v = Some (t_sock t)" "ack_of r \<in> set gs"
      with ToAnswer t(2) show "ack_of r \<in> set (sent h1 (t_sock t))"
        using sends_sent(2) [of env "t_sock t" fs h] by (simp add: h1_def)
    qed (use ToAnswer in simp)
  qed
  then show ?thesis using ToAnswer by (simp add: saveTurn_def h1_def Let_def)
qed

lemma fan_saveTurn:
  assumes ok: "hub_ok env h" "fan_ok h" and k: "k < length (saves h)"
  shows "fan_ok (saveTurn env k h)"
proof (cases "v_stage (saves h ! k)")
  case (ToCatchUp b)
  have "fan_ok (set_save k g h)" for g
    by (rule fan_set_save [OF ok(2) keeps_self]) (use save_reaches [OF _ keeps_self refl _ k] ToCatchUp in simp_all)
  then show ?thesis using ToCatchUp by (simp add: saveTurn_def Let_def)
qed (simp_all add: fan_broadcast_turn [OF ok k] fan_answer_turn [OF ok k], simp add: saveTurn_def ok)

lemma fan_startSave:
  assumes ok: "fan_ok h"
  shows "fan_ok (startSave env so m n known a h)"
proof -
  obtain out tbl bc where c: "commitSave (platform env) (take n (table h)) known (table h) (\<lambda>t. t) m a = (out, tbl, bc)"
    by (rule prod_cases3)
  define v where "v = \<lparr>v_sock = so, v_tag = or_blank (wstr (m_tag m)), v_stage = (case bc of Some w \<Rightarrow> ToBroadcast out w
      | None \<Rightarrow> (case out of Stale b _ \<Rightarrow> ToCatchUp b | _ \<Rightarrow> ToAnswer (save_frames (or_blank (wstr (m_tag m))) out)))\<rparr>"
  let ?h = "h\<lparr>table := tbl, saves := saves h @ [v]\<rparr>"
  have eq: "startSave env so m n known a h = ?h" unfolding startSave_def Let_def c v_def by simp
  note tok = fan_okD(1) [OF ok]
  have "tbl = table h \<or> (\<exists>r. tbl = table h @ [r] \<and> table_ok tbl \<and> due ?h r)"
  proof (cases "\<exists>i b. out = Acked i b")
    case True
    then obtain i b where out: "out = Acked i b" by blast
    note c' = commitSave_acked [OF tok c [unfolded out]]
    let ?r = "new_row (table h) (insert_of m i)"
    have "r_id ?r = i" "r_tag ?r = or_blank (wstr (m_tag m))" using row_of_msg(3,5) [OF c'(1)] by auto
    then have "due ?h ?r" using c'(3,7) out by (simp add: due_def v_def)
    then show ?thesis using c'(2,5) by blast
  qed (use commitSave_rejects [OF tok c] in auto)
  then have tbl: "table_ok tbl" "set (table h) \<subseteq> set tbl" "\<And>r. r \<in> set tbl \<Longrightarrow> r \<notin> set (table h) \<Longrightarrow> due ?h r"
    using tok by auto
  show ?thesis unfolding eq
  proof (rule fan_transfer [OF ok])
    fix t r assume op: "ready ?h (t_sock t) = Open"
    have "reaches h (t_sock t) r \<longrightarrow> reaches ?h (t_sock t) r"
      using held_cong [of ?h "t_sock t" h r] by (auto simp: reaches_def gets_def due_def owned_def)
    then show "ready h (t_sock t) = Open \<and> set (sent h (t_sock t)) \<subseteq> set (sent ?h (t_sock t))
        \<and> (reaches h (t_sock t) r \<longrightarrow> reaches ?h (t_sock t) r)" using op by simp
  qed (use tbl as_before_refl in simp_all)
qed

section \<open>Every run\<close>

lemma fan_connect:
  assumes ok: "hub_ok env h" "fan_ok h" and s: "ready h s = Unopened"
  shows "fan_ok (hstep env (Connect s nonce) h)"
proof -
  let ?m = "h\<lparr>ready := (ready h)(s := Open), peers := (peers h)(s := Some \<lparr>challenge = nonce, peer_tags = []\<rparr>)\<rparr>"
  let ?h = "sendRaw env s OtherFrame (sendRaw env s OtherFrame ?m)"
  have k: "keeps ?m ?h" by (rule keeps_then [OF keeps_sendRaw keeps_sendRaw])
  have "fan_ok ?h"
  proof (rule fan_transfer [OF ok(2)])
    fix t r assume t: "t \<in> set (tasks h)" "ready ?h (t_sock t) = Open"
    have "ready h (t_sock t) \<noteq> Unopened" using tasks_okD(4) [OF _ t(1)] ok(1) by (simp add: hub_ok_def)
    then have "t_sock t \<noteq> s" using s by auto
    moreover have "ready ?m (t_sock t) = Open" "set (sent ?m (t_sock t)) \<subseteq> set (sent ?h (t_sock t))"
      using k t(2) unfolding keeps_def by blast+
    moreover have "reaches h (t_sock t) r \<Longrightarrow> reaches ?m (t_sock t) r"
      using held_cong [of ?m "t_sock t" h r] by (auto simp: reaches_def gets_def due_def owned_def)
    ultimately show "ready h (t_sock t) = Open \<and> set (sent h (t_sock t)) \<subseteq> set (sent ?h (t_sock t))
        \<and> (reaches h (t_sock t) r \<longrightarrow> reaches ?h (t_sock t) r)"
      using reaches_keeps [OF k _ t(2)] by simp
  qed (use fan_okD(1) [OF ok(2)] as_before_refl in simp_all)
  then show ?thesis using s by (simp add: hstep_simps)
qed

lemma fan_step:
  assumes ok: "hub_ok env h" "fan_ok h"
  shows "fan_ok (hstep env e h)"
proof -
  have same: "fan_ok h'" if "keeps h h'" "saves h' = saves h" "table h' = table h" "tasks h' = tasks h" for h'
    by (rule fan_keeps [OF ok(2) that(1-3)]) (use that(4) as_before_refl in simp)
  show ?thesis
  proof (cases e)
    case (Connect s nonce)
    then show ?thesis using fan_connect [OF ok] ok(2) by (cases "ready h s = Unopened") (simp_all add: hstep_simps)
  next
    case (CloseSock s)
    then show ?thesis using close_ok [OF ok(1), of s] same ok(2) by (simp add: hstep_simps Let_def)
  qed (use ok(2) fan_lookupTurn [OF ok] fan_lookupFailed [OF ok] fan_subscribe [OF ok] fan_startSave [OF ok(2)]
      fan_saveTurn [OF ok] same keeps_terminate keeps_rest(3) broadcast_ok [OF ok(1)]
    in \<open>simp_all add: hstep_simps broadcast_def\<close>)
qed

lemma hrun_fan_ok: "fan_ok (hrun env evs)"
proof -
  have "hub_ok env (hrun env evs) \<and> fan_ok (hrun env evs)"
    unfolding hrun_def
    by (rule fold_invariant [where P = "\<lambda>h. hub_ok env h \<and> fan_ok h"])
      (simp_all add: hub_start_ok hstep_ok fan_step, simp_all add: fan_ok_def hub_start_def)
  then show ?thesis ..
qed

section \<open>A run for examples\<close>

text \<open>One socket subscribes to a workspace while a save to it arrives over HTTP: the table is read
  with the revision in it, the broadcast comes while the chain is on its way.\<close>

definition demo_env :: hub_env where
  "demo_env = \<lparr>maxBufferedBytes = 10, byteLength = (\<lambda>_. 1), platform = open_env\<rparr>"

definition demo_tag :: ustr where
  "demo_tag = replicate 32 107"

definition demo_waiting :: "hub_event list" where
  "demo_waiting = [SaveMsg None (sample_save None) 0 True True, Connect 0 [],
     SubscribeMsg 0 (WStr demo_tag) WNull (WStr (replicate 64 115)), LookupTurn 0, LookupTurn 0, LookupTurn 0, SaveTurn 0]"

lemma demo_admitted: "subscribe_admitted open_env [] (WStr demo_tag) WNull (WStr (replicate 64 115))"
proof -
  have "small demo_tag" by (simp add: demo_tag_def small_def list_all_iff)
  then have "small (join_lines [SUBSCRIBE_DOMAIN, demo_tag, [], []])" by (intro small_join) (auto, simp add: small_def)
  then have "canonicalSubscribe (WStr demo_tag) WNull [] = Inr (encode (join_lines [SUBSCRIBE_DOMAIN, demo_tag, [], []]))"
    using small_encodes by (simp add: canonicalSubscribe_def wnullish_def of_utf8_def)
  then show ?thesis
    by (simp add: subscribe_admitted_def verifySubscribeSig_def verifyEd25519_def open_env_def validTagSigBase_def
        demo_tag_def MAX_FIELD_LEN_def wnullish_def list_all_iff tag_char_def word_char_def in_range_def)
qed

lemma demo_row:
  obtains i r where "commitSave open_env [] True [] (\<lambda>t. t) (sample_save None) True = (Acked i None, [r], Some (row_wire r))"
    and "r_tag r = demo_tag" "or_blank (wstr (m_tag (sample_save None))) = demo_tag"
  using sample_run by (auto simp: sample_save_def wire_save_def units_def demo_tag_def)

lemma demo_steps:
  obtains r where "r_tag r = demo_tag" "table (hrun demo_env demo_waiting) = [r]"
    and "ready (hrun demo_env demo_waiting) 0 = Open" "lookups (hrun demo_env demo_waiting) 0 = (\<lambda>_. None)(demo_tag := Some 0)"
    and "paused (hrun demo_env demo_waiting) 0 = Some 0" "buffered (hrun demo_env demo_waiting) 0 = 2"
    and "saves (hrun demo_env demo_waiting) = [\<lparr>v_sock = None, v_tag = demo_tag,
      v_stage = ToAnswer [SaveAck (WStr demo_tag) WNull (WStr (r_id r))]\<rparr>]" "r_keyframe r = 0"
    and "tasks (hrun demo_env demo_waiting) = [(new_task 0 demo_tag None 0)\<lparr>t_stage := HasChain [r]\<rparr>]"
    and "cells (hrun demo_env demo_waiting) = [\<lparr>depth = 1, payloads = [StateFrame (WStr demo_tag) (Some [Some (row_wire r)])],
      held_bytes = 1\<rparr>]"
    and "sent (hrun demo_env demo_waiting) 0 = [OtherFrame, OtherFrame]"
proof -
  obtain i r where c: "commitSave open_env [] True [] (\<lambda>t. t) (sample_save None) True = (Acked i None, [r], Some (row_wire r))"
    and t: "r_tag r = demo_tag" "or_blank (wstr (m_tag (sample_save None))) = demo_tag" by (rule demo_row)
  have ok: "table_ok [r]" using commitSave_acked(5) [OF table_ok_Nil c] .
  have r: "r = new_row [] (insert_of (sample_save None) i)" using commitSave_acked(2) [OF table_ok_Nil c] by simp
  then have kf: "r_keyframe r = 0" "r_id r = i" by (simp_all add: insert_of_def sample_save_def wire_save_def)
  have chain: "chainAll [r] demo_tag = [r]" using t(1) kf by (simp add: chainAll_def by_seq_def mapRevisionRow_def)
  have read: "after_keyframe [r] demo_tag = AllRows"
    using kf by (simp add: after_keyframe_def lastKeyframeSeq_def max_seq_def)
  let ?v = "\<lparr>v_sock = None, v_tag = demo_tag, v_stage = ToBroadcast (Acked i None) (row_wire r)\<rparr>"
  let ?h1 = "hub_start\<lparr>table := [r], saves := [?v]\<rparr>"
  have 1: "hstep demo_env (SaveMsg None (sample_save None) 0 True True) hub_start = ?h1"
    using c t by (simp add: hstep_simps startSave_def hub_start_def demo_env_def)
  define h2 where "h2 = hstep demo_env (Connect 0 []) ?h1"
  have 2: "ready h2 = (\<lambda>_. Unopened)(0 := Open)" "peers h2 0 = Some \<lparr>challenge = [], peer_tags = []\<rparr>"
    "sent h2 0 = [OtherFrame, OtherFrame]" "buffered h2 0 = 2" "cells h2 = []" "paused h2 = (\<lambda>_. None)"
    "subscribers h2 = (\<lambda>_. [])" "lookups h2 = (\<lambda>_ _. None)" "tasks h2 = []" "table h2 = [r]" "saves h2 = [?v]"
    by (simp_all add: h2_def hstep_simps hub_start_def sendRaw_def demo_env_def)
  define h3 where "h3 = hstep demo_env (SubscribeMsg 0 (WStr demo_tag) WNull (WStr (replicate 64 115))) h2"
  have "h3 = subscribe 0 demo_tag (started 0 demo_tag None 0 [\<lparr>depth = 1, payloads = [], held_bytes = 0\<rparr>] h2)"
    using 2 demo_admitted by (simp add: h3_def hstep_simps handleSubscribe_def demo_env_def startLookup_def pauseBroadcasts_def
        started_def superseded_def new_task_def)
  then have 3: "ready h3 0 = Open" "buffered h3 0 = 2" "sent h3 0 = [OtherFrame, OtherFrame]" "cells h3 = [\<lparr>depth = 1, payloads = [], held_bytes = 0\<rparr>]"
    "paused h3 0 = Some 0" "subscribers h3 demo_tag = [0]" "lookups h3 0 = (\<lambda>_. None)(demo_tag := Some 0)" "tasks h3 = [new_task 0 demo_tag None 0]"
    "table h3 = [r]" "saves h3 = [?v]"
    using 2 by (simp_all add: subscribe_def superseded_def)
  define h6 where "h6 = fold (hstep demo_env) [LookupTurn 0, LookupTurn 0, LookupTurn 0] h3"
  have "h6 = set_stage 0 (HasChain [r]) (set_stage 0 (Reading AllRows) (set_stage 0 (Reading FirstRead) h3))"
    using 3 chain read by (simp add: h6_def hstep_simps lookupTurn_def gotResources_def wanted_def read_step_def)
  then have 6: "ready h6 0 = Open" "buffered h6 0 = 2" "sent h6 0 = [OtherFrame, OtherFrame]" "cells h6 = [\<lparr>depth = 1, payloads = [], held_bytes = 0\<rparr>]"
    "paused h6 0 = Some 0" "subscribers h6 demo_tag = [0]" "lookups h6 0 = (\<lambda>_. None)(demo_tag := Some 0)"
    "tasks h6 = [(new_task 0 demo_tag None 0)\<lparr>t_stage := HasChain [r]\<rparr>]" "table h6 = [r]" "saves h6 = [?v]"
    using 3 by simp_all
  have last: "hrun demo_env demo_waiting = hstep demo_env (SaveTurn 0) h6"
    by (simp add: hrun_def demo_waiting_def 1 h2_def h3_def h6_def)
  have env: "maxBufferedBytes demo_env = 10" "byteLength demo_env f = 1" for f by (simp_all add: demo_env_def)
  show thesis
    by (rule that [of r]) (use t kf 6 in \<open>simp_all add: last hstep_simps saveTurn_def broadcast_def fanOut_def fan_one_def env save_frames_def\<close>)
qed

text \<open>The chain comes, and the save is answered.\<close>

definition demo_done :: "hub_event list" where
  "demo_done = demo_waiting @ [LookupTurn 0, SaveTurn 0]"

lemma demo_done_steps:
  obtains r where "r_tag r = demo_tag" "r_keyframe r = 0" "table (hrun demo_env demo_done) = [r]"
    and "ready (hrun demo_env demo_done) 0 = Open" "lookups (hrun demo_env demo_done) 0 = (\<lambda>_. None)"
    and "tasks (hrun demo_env demo_done) = [(new_task 0 demo_tag None 0)\<lparr>t_stage := Served, t_released := True\<rparr>]"
    and "list_all (\<lambda>v. v_stage v = Answered) (saves (hrun demo_env demo_done))"
proof -
  obtain r where d: "r_tag r = demo_tag" "table (hrun demo_env demo_waiting) = [r]"
      "ready (hrun demo_env demo_waiting) 0 = Open" "lookups (hrun demo_env demo_waiting) 0 = (\<lambda>_. None)(demo_tag := Some 0)"
      "paused (hrun demo_env demo_waiting) 0 = Some 0" "buffered (hrun demo_env demo_waiting) 0 = 2"
      "saves (hrun demo_env demo_waiting) = [\<lparr>v_sock = None, v_tag = demo_tag,
        v_stage = ToAnswer [SaveAck (WStr demo_tag) WNull (WStr (r_id r))]\<rparr>]" "r_keyframe r = 0"
      "tasks (hrun demo_env demo_waiting) = [(new_task 0 demo_tag None 0)\<lparr>t_stage := HasChain [r]\<rparr>]"
      "cells (hrun demo_env demo_waiting) = [\<lparr>depth = 1, payloads = [StateFrame (WStr demo_tag) (Some [Some (row_wire r)])],
        held_bytes = 1\<rparr>]" by (rule demo_steps)
  have env: "maxBufferedBytes demo_env = 10" "byteLength demo_env f = 1" for f by (simp_all add: demo_env_def)
  have run: "hrun demo_env demo_done = hstep demo_env (SaveTurn 0) (hstep demo_env (LookupTurn 0) (hrun demo_env demo_waiting))"
    by (simp add: demo_done_def hrun_def)
  show thesis
    by (rule that [of r]) (use d in \<open>simp_all add: run hstep_simps lookupTurn_def gotChain_def wanted_def finishLookup_def resume_def
        release_def set_stage_def sendRaw_def saveTurn_def env\<close>)
qed

lemma demo_still_open: "ready (hstep demo_env (LookupTurn 0) (hrun demo_env demo_waiting)) 0 = Open"
proof -
  let ?h = "hstep demo_env (LookupTurn 0) (hrun demo_env demo_waiting)"
  have "hrun demo_env demo_done = hstep demo_env (SaveTurn 0) ?h" by (simp add: demo_done_def hrun_def)
  moreover have "ready (hrun demo_env demo_done) 0 = Open" by (rule demo_done_steps)
  ultimately show ?thesis
    using hstep_keeps [OF hstep_ok [OF hrun_ok [of demo_env demo_waiting], of "LookupTurn 0"], of "SaveTurn 0"] by (simp add: keeps_def)
qed

section \<open>Properties\<close>

lemma paused_lookup:
  assumes ok: "hub_ok env h" and c: "paused h s = Some c"
  shows "\<exists>tag. lookups h s tag \<noteq> None"
proof -
  have cok: "cells_ok env h" and tok: "tasks_ok h" using ok by (simp_all add: hub_ok_def)
  obtain t where t: "t \<in> set (tasks h)" "\<not> t_released t" "t_cell t = c"
    using cells_okD(3) [OF cok c] by (auto simp: pausers_def filter_empty_conv)
  then obtain j where "j < length (tasks h)" "t = tasks h ! j" by (auto simp: in_set_conv_nth)
  then show ?thesis using tasks_okD(1) [OF tok, of j] t cells_okD(6) [OF cok c t(1,3)] by auto
qed



lemma fan_silent:
  fixes h :: relay
  assumes "paused h s \<noteq> None \<or> ready h s \<noteq> Open"
  shows "sent (fan_one env f except x h) s = sent h s
    \<and> (paused (fan_one env f except x h) s \<noteq> None \<or> ready (fan_one env f except x h) s \<noteq> Open)"
proof (cases rule: fan_one_cases [of except x env f h])
  case send
  have "ready (sendRaw env x f h) s = Open \<Longrightarrow> ready h s = Open" using keeps_sendRaw [of h env x f] by (simp add: keeps_def)
  then show ?thesis using send assms by (auto simp: sendRaw_sent)
next
  case (hold c)
  then show ?thesis using assms unfolding fan_one_held [OF hold(2,1,3)] by simp
next
  case (drop c)
  then show ?thesis using assms unfolding fan_one_drop [OF drop(2,1,3)] by (auto simp: terminate_ready)
qed (use assms in simp)

lemma fanOut_silent:
  fixes h :: relay
  shows "paused h s \<noteq> None \<or> ready h s \<noteq> Open \<Longrightarrow> sent (fanOut env ss f except h) s = sent h s"
  unfolding fanOut_def
proof (induction ss arbitrary: h)
  case (Cons x ss)
  from fan_silent [OF Cons.prems, of env f except x] Cons.IH [of "fan_one env f except x h"] show ?case by simp
qed simp

lemma newest_lookup:
  assumes ok: "hub_ok env h" and l: "lookups h s tag = Some j" and op: "ready h s = Open"
  shows "j < length (tasks h)" "t_sock (tasks h ! j) = s" "t_tag (tasks h ! j) = tag" "\<not> t_released (tasks h ! j)"
    and "paused h s = Some (t_cell (tasks h ! j))"
proof -
  have tok: "tasks_ok h" using ok by (simp add: hub_ok_def)
  show j: "j < length (tasks h)" "t_sock (tasks h ! j) = s" "t_tag (tasks h ! j) = tag" using tasks_okD(2) [OF tok l] by simp_all
  then show un: "\<not> t_released (tasks h ! j)" using tasks_okD(1) [OF tok j(1)] l by simp
  show "paused h s = Some (t_cell (tasks h ! j))" using tasks_okD(7) [OF tok _ _ un] j op by simp
qed

text \<open>The pause of an open socket is as deep as the lookups it is waiting for.\<close>

lemma last_lookup:
  assumes ok: "hub_ok env h" and l: "lookups h s tag = Some j" and op: "ready h s = Open" and c: "paused h s = Some c"
  shows "depth (cells h ! c) > 1 \<longleftrightarrow> (\<exists>other. other \<noteq> tag \<and> lookups h s other \<noteq> None)"
proof -
  have cok: "cells_ok env h" and tok: "tasks_ok h" using ok by (simp_all add: hub_ok_def)
  note n = newest_lookup [OF ok l op]
  have cell: "t_cell (tasks h ! j) = c" using n(5) c by simp
  have "depth (cells h ! c) = int (length (pausers (ended_task j Dropped h) c)) + 1"
    using cells_okD(1,2) [OF cok] c pausers_ended [OF n(1,4), of c Dropped] cell by simp
  then have "depth (cells h ! c) > 1 \<longleftrightarrow> (\<exists>t. t \<in> set (pausers (ended_task j Dropped h) c))"
    by (cases "pausers (ended_task j Dropped h) c") auto
  also have "\<dots> \<longleftrightarrow> (\<exists>i < length (tasks h). i \<noteq> j \<and> \<not> t_released (tasks h ! i) \<and> t_cell (tasks h ! i) = c)"
  proof
    assume "\<exists>t. t \<in> set (pausers (ended_task j Dropped h) c)"
    then obtain i where "i < length (tasks h)" "\<not> t_released (tasks (ended_task j Dropped h) ! i)"
      "t_cell (tasks (ended_task j Dropped h) ! i) = c" by (auto simp: pausers_def in_set_conv_nth)
    then show "\<exists>i < length (tasks h). i \<noteq> j \<and> \<not> t_released (tasks h ! i) \<and> t_cell (tasks h ! i) = c"
      by (intro exI [of _ i]) (cases "i = j", simp_all)
  next
    assume "\<exists>i < length (tasks h). i \<noteq> j \<and> \<not> t_released (tasks h ! i) \<and> t_cell (tasks h ! i) = c"
    then obtain i where i: "i < length (tasks h)" "i \<noteq> j" "\<not> t_released (tasks h ! i)" "t_cell (tasks h ! i) = c" by blast
    then have "tasks h ! i \<in> set (tasks (ended_task j Dropped h))"
      by (auto simp: in_set_conv_nth intro!: exI [of _ i])
    then show "\<exists>t. t \<in> set (pausers (ended_task j Dropped h) c)" using i by (auto simp: pausers_def)
  qed
  also have "\<dots> \<longleftrightarrow> (\<exists>other. other \<noteq> tag \<and> lookups h s other \<noteq> None)"
  proof
    assume "\<exists>i < length (tasks h). i \<noteq> j \<and> \<not> t_released (tasks h ! i) \<and> t_cell (tasks h ! i) = c"
    then obtain i where i: "i < length (tasks h)" "i \<noteq> j" "\<not> t_released (tasks h ! i)" "t_cell (tasks h ! i) = c" by blast
    then have "lookups h s (t_tag (tasks h ! i)) = Some i"
      using tasks_okD(1) [OF tok i(1)] cells_okD(6) [OF cok c, of "tasks h ! i"] by simp
    then show "\<exists>other. other \<noteq> tag \<and> lookups h s other \<noteq> None" using i(2) l by (intro exI [of _ "t_tag (tasks h ! i)"]) auto
  next
    assume "\<exists>other. other \<noteq> tag \<and> lookups h s other \<noteq> None"
    then obtain other i where "other \<noteq> tag" "lookups h s other = Some i" by blast
    then show "\<exists>i < length (tasks h). i \<noteq> j \<and> \<not> t_released (tasks h ! i) \<and> t_cell (tasks h ! i) = c"
      using newest_lookup [OF ok _ op, of other i] n(3) c by (intro exI [of _ i]) auto
  qed
  finally show ?thesis .
qed

text \<open>C12: nothing overtakes a chain. While a socket waits for the chain of a workspace, no broadcast of any
  workspace puts a frame on it; and when the chain comes, what is sent is the acknowledgement of the subscribe,
  the chain, and then all that was held back, in the order it came, unless the socket waits for
  another chain still.\<close>

theorem chain_before_broadcasts:
  fixes env evs
  defines "h \<equiv> hrun env evs"
  assumes "lookups h s tag = Some j" "ready h s = Open"
  shows "sent (broadcast env other f except h) s = sent h s
    \<and> (t_stage (tasks h ! j) = HasChain rs \<and> ready (hstep env (LookupTurn j) h) s = Open \<longrightarrow>
        sent (hstep env (LookupTurn j) h) s = sent h s @ [Subscribed (WStr tag) True, chain_frame tag rs]
          @ (if \<exists>rival. rival \<noteq> tag \<and> lookups h s rival \<noteq> None then [] else payloads (cells h ! the (paused h s))))"
proof -
  have ok: "hub_ok env h" unfolding h_def by (rule hrun_ok)
  note n = newest_lookup [OF ok assms(2,3)]
  let ?c = "t_cell (tasks h ! j)"
  let ?h1 = "sendRaw env s (chain_frame tag rs) (sendRaw env s (Subscribed (WStr tag) True) h)"
  have "sent (hstep env (LookupTurn j) h) s = sent h s @ [Subscribed (WStr tag) True, chain_frame tag rs]
      @ (if depth (cells h ! ?c) > 1 then [] else payloads (cells h ! ?c))"
    if rs: "t_stage (tasks h ! j) = HasChain rs" and op: "ready (hstep env (LookupTurn j) h) s = Open"
  proof -
    have eq: "hstep env (LookupTurn j) h = release env s ?c (ended_task j Served ?h1)"
      using rs n assms(2,3) finish_newest [of j ?h1 env Served]
      by (simp add: hstep_simps lookupTurn_def gotChain_def wanted_def Let_def)
    have c: "?c < length (cells h)" using cells_okD(2) ok n(5) by (auto simp: hub_ok_def)
    have "keeps ?h1 (finishLookup env j Served ?h1)"
      using endLookup_ok [OF sendRaw_ok [OF sendRaw_ok [OF ok]]] n(1) by simp
    then have op1: "ready ?h1 s = Open"
      using op finish_newest [of j ?h1 env Served] n assms(2) by (simp add: eq keeps_def)
    show ?thesis using op sends_two [OF op1] n(5)
      unfolding eq by (simp add: release_def Let_def sends_sent(2) split: if_splits)
  qed
  moreover have "sent (broadcast env other f except h) s = sent h s"
    unfolding broadcast_def by (rule fanOut_silent) (use n(5) in simp)
  ultimately show ?thesis using last_lookup [OF ok assms(2,3) n(5)] n(5) by auto
qed

theorem chain_before_broadcasts_witness:
  "\<exists>r. sent (broadcast demo_env demo_tag OtherFrame None (hrun demo_env demo_waiting)) 0 = [OtherFrame, OtherFrame]
    \<and> t_stage (tasks (hrun demo_env demo_waiting) ! 0) = HasChain [r]
    \<and> sent (hstep demo_env (LookupTurn 0) (hrun demo_env demo_waiting)) 0 = [OtherFrame, OtherFrame,
          Subscribed (WStr demo_tag) True, chain_frame demo_tag [r], StateFrame (WStr demo_tag) (Some [Some (row_wire r)])]"
proof -
  obtain r where d: "ready (hrun demo_env demo_waiting) 0 = Open"
      "lookups (hrun demo_env demo_waiting) 0 = (\<lambda>_. None)(demo_tag := Some 0)" "paused (hrun demo_env demo_waiting) 0 = Some 0"
      "tasks (hrun demo_env demo_waiting) = [(new_task 0 demo_tag None 0)\<lparr>t_stage := HasChain [r]\<rparr>]"
      "cells (hrun demo_env demo_waiting) = [\<lparr>depth = 1, payloads = [StateFrame (WStr demo_tag) (Some [Some (row_wire r)])],
        held_bytes = 1\<rparr>]" "sent (hrun demo_env demo_waiting) 0 = [OtherFrame, OtherFrame]" by (rule demo_steps)
  moreover have "ready (hstep demo_env (LookupTurn 0) (hrun demo_env demo_waiting)) 0 = Open" by (rule demo_still_open)
  ultimately show ?thesis
    using chain_before_broadcasts [where env = demo_env and evs = demo_waiting and s = 0 and tag = demo_tag and j = 0
        and other = demo_tag and f = OtherFrame and except = None and rs = "[r]"] by (intro exI [of _ r]) simp
qed

text \<open>C39: what waits is bounded. In any run, a socket is paused exactly while it is open and waits for a chain, or
  has closed meanwhile; what is held back for it never exceeds the limit, and no other socket shares it.\<close>

theorem held_back_bounded:
  "(paused (hrun env evs) s = Some c \<longrightarrow>
      sum_list (map (byteLength env) (payloads (cells (hrun env evs) ! c))) \<le> maxBufferedBytes env
      \<and> (\<forall>x. paused (hrun env evs) x = Some c \<longrightarrow> x = s))
    \<and> (ready (hrun env evs) s = Open \<longrightarrow>
      (paused (hrun env evs) s \<noteq> None \<longleftrightarrow> (\<exists>tag. lookups (hrun env evs) s tag \<noteq> None)))"
proof -
  have ok: "hub_ok env (hrun env evs)" by (rule hrun_ok)
  then have cok: "cells_ok env (hrun env evs)" by (simp add: hub_ok_def)
  show ?thesis
    using cells_okD(4,5) [OF cok, of s c] ok_apart [OF cok] newest_lookup(5) [OF ok] paused_lookup [OF ok]
    by (fastforce simp: apart_def)
qed

theorem held_back_bounded_witness:
  "paused (hrun demo_env demo_waiting) 0 = Some 0
    \<and> sum_list (map (byteLength demo_env) (payloads (cells (hrun demo_env demo_waiting) ! 0))) \<le> maxBufferedBytes demo_env
    \<and> payloads (cells (hrun demo_env demo_waiting) ! 0) \<noteq> []"
proof -
  obtain r where d: "paused (hrun demo_env demo_waiting) 0 = Some 0"
      "cells (hrun demo_env demo_waiting) = [\<lparr>depth = 1, payloads = [StateFrame (WStr demo_tag) (Some [Some (row_wire r)])],
        held_bytes = 1\<rparr>]" by (rule demo_steps)
  then show ?thesis using held_back_bounded [where env = demo_env and evs = demo_waiting and s = 0 and c = 0] by simp
qed

end
