(* ===== verification/Spec2Isabelle.thy ===== *)
theory Spec2Isabelle
  imports TriageGc TriageExport LinkedIndex WorkspaceTabs WorkspaceImport VersionCompare WorkspaceApp LineDiff Utf8
    SecureStorage SyncTabs SyncFanOut
begin

text \<open>
  \<^bold>\<open>Triage: a verification library of the client's core.\<close>

  The program shows findings of code-review reports, lets a user triage them, groups reports
  into workspaces, syncs a workspace's triage over a relay and keeps everything in the
  storage of the browser. This library models the parts that decide \<^emph>\<open>what the user's data
  is\<close>: the triage map and its changesets, its persistence across tabs and crashes, the
  workspaces and their files, the merging of rows, the links between findings, and the storage
  layer below all of it, and the protocol by which clients and a relay agree on it. This
  root theory imports every other one and states nothing itself.

  \<^bold>\<open>Parts and theories.\<close> Files are named under \<^verbatim>\<open>src/\<close>.

  Values and text. Prelude: JavaScript values, truthiness, nullish tests, \<open>Map\<close>, \<open>Set\<close> and
  null-prototype objects with their insertion order (association lists without duplicates), error
  sums, folds that keep an invariant. JsText: the string methods the program calls. Utf8
  (\<^verbatim>\<open>common/utf8.js\<close>): 16-bit code units and 8-bit bytes, the strict encoder and decoder and the
  size found without encoding.

  Triage. TriageEntry (\<^verbatim>\<open>client/triage-entry.ts\<close>): the unified map, one entry per finding id, every
  setter, and the patch the sync applies. TriageChangeset (\<^verbatim>\<open>client/sync/triage-changeset.ts\<close>):
  the difference of two states, its application, the three-way rebase with its conflicts.
  TriageProjection (\<^verbatim>\<open>client/sync/triage-state-projection.ts\<close>): the bridge between the two. TriageStore
  (\<^verbatim>\<open>client/triage.js\<close>): load, cross-tab reload, and the save with its pending and committed keys as a
  step relation with a crash at any moment. TriageGc (\<^verbatim>\<open>client/triage-gc.js\<close>), TriageExport
  (\<^verbatim>\<open>client/triage-export.js\<close>) and IgnoredTriage (\<^verbatim>\<open>client/ignored-triage.js\<close>,
  \<^verbatim>\<open>client/dependency-paths.js\<close>) use the same map.

  Rows. Grouping and UnionFind hold what the mergers share: lists per key, and a parent map with
  the path shortening the code does. RevalidationSplit, FindingDuplicates, WorkspaceGroups and
  LinkedGroups (\<^verbatim>\<open>common/revalidation-input-groups.js\<close>, \<^verbatim>\<open>common/finding-duplicates.js\<close>,
  \<^verbatim>\<open>common/revalidation-conflicts.js\<close>, \<^verbatim>\<open>common/workspace-groups.js\<close>,
  \<^verbatim>\<open>common/linked-workspace-groups.js\<close>) are the mergers; ConfidenceFilters
  (\<^verbatim>\<open>common/finding-filters.js\<close>) decides which rows a filter shows; WorkspaceApp
  (\<^verbatim>\<open>common/workspace-app.js\<close>) composes merge, links and filters into the view the user sees.

  Links and caches. FindingLink (\<^verbatim>\<open>client/finding-link.js\<close>, \<^verbatim>\<open>common/finding-id.js\<close>), LinkedFindings
  (\<^verbatim>\<open>client/linked-findings.js\<close>), and two caches filled by asynchronous walks, FileCounts
  (\<^verbatim>\<open>client/counts.js\<close>) and LinkedIndex (\<^verbatim>\<open>client/linked-findings-index.js\<close>).

  Workspaces. Workspaces and WorkspaceTabs (\<^verbatim>\<open>client/workspaces.js\<close>,
  \<^verbatim>\<open>client/workspace-listeners.js\<close>): the stored rows, each operation as a change under the lock, and
  several tabs over one storage. WorkspaceImport (\<^verbatim>\<open>client/workspace-import.js\<close>,
  \<^verbatim>\<open>client/workspace-format.js\<close>): the shape check and the import of a file.

  Sync. SyncCrypto (\<^verbatim>\<open>client/sync/sync-crypto.ts\<close>, \<^verbatim>\<open>server-e2e/sign.ts\<close>,
  \<^verbatim>\<open>server-e2e/validation.ts\<close>): the bytes a save signs and hashes, on both sides, and the frame inside an
  envelope. SyncRelay (\<^verbatim>\<open>server-e2e/db.ts\<close>, \<^verbatim>\<open>server-e2e/db-revision-sql.ts\<close>,
  \<^verbatim>\<open>server-e2e/sync-handlers.ts\<close>): the relay's table of revisions and the pipeline of a save. SyncHub
  (\<^verbatim>\<open>server-e2e/hub.ts\<close>, \<^verbatim>\<open>server-e2e/ws-server.ts\<close>, \<^verbatim>\<open>server-e2e/sync-handlers.ts\<close>): the fan-out of
  revisions to sockets, with the turns of subscribes and saves as the events of \<open>hstep\<close>; SyncHubSound proves its
  pauses exact and bounded, SyncFanOut that a stored revision reaches every subscriber. SyncChain,
  SyncSession (\<^verbatim>\<open>client/sync/triage-sync.ts\<close>): a client's session, which applies chains of revisions to its
  base and sends its changesets, as a machine whose events are the user's edits, the frames, the ends of every
  \<open>await\<close>, reconnections, switches and writes of the store; \<open>step\<close> is one event, \<open>grun\<close> a run of several
  tabs over one storage. SyncStore (\<^verbatim>\<open>client/sync/triage-session-store.ts\<close>): what a session keeps across reloads.
  SyncSound and SyncLane carry the invariants of the machine through every operation, SyncTabs states what
  follows. A run is one identity's: after a workspace's key is replaced, its sessions run under the new one from
  a storage whose entry was dropped. The platform's cryptography enters as hypotheses: digests do not collide and no
  chain of them runs in a circle, a signature verifies only over bytes a holder of the key signed, and what a tab seals
  in the run reads back.
  Storage. SecureStorage (\<^verbatim>\<open>client/secure-storage.js\<close>): one tab's cache, pins, write queues and
  hydration against a disk other tabs and the vault change. The triage and workspace theories
  call it through what it answers: a read of the cached text, a write that may be refused.

  Comparisons. VersionCompare (\<^verbatim>\<open>common/bundle-compare-versions.js\<close>) and LineDiff
  (\<^verbatim>\<open>common/line-diff.js\<close>).

  \<^bold>\<open>How code is read.\<close> A function is a HOL function of the same name; an object the code mutates is
  passed and returned. Exceptions and early returns are branches of a sum or an option. A
  field that may be absent is an option, with \<open>undefined\<close>, \<open>null\<close> and the empty string kept
  apart where the code tells them apart. An \<open>await\<close> ends a step wherever another task may run
  between: such code is an \<open>inductive\<close> relation or a run over an explicit list of events, and
  every property holds for all orders of the events. Code not in the sources (the report and
  bundle parsers, digests, sealing and opening of envelopes, \<open>JSON.parse\<close>, file systems) is an
  argument of the definitions that use it; what a property needs of it is a hypothesis, met by a
  concrete function in the property's witness.

  \<^bold>\<open>Interfaces.\<close> A locale states what several operations share, and is interpreted on the code's own
  definitions where they are declared: \<^verbatim>\<open>pointwise_update\<close> (a loop that writes one key per step),
  \<^verbatim>\<open>keyed_walk\<close> (a loop over entries that keeps the map well formed and settles its own key),
  \<^verbatim>\<open>migration_pass\<close> (a pass over stored ignores), \<^verbatim>\<open>finder\<close> (a find that shortens paths, met by both
  ways the code does it) and \<^verbatim>\<open>comparison\<close> (a comparison function that is that of a sort key).

  \<^bold>\<open>What is shown.\<close> Safety and refinement first: a saved snapshot survives a crash until a newer
  save; the changes of all tabs act on the stored rows as one sequence; the last call for a key
  is what the disk ends with; merges lose and invent no finding and are the components of an
  abstract relation; an import stores bytes only under their own hash. Then round trips
  (changeset and application, save and load, backup and restore, link and reading, encoding and
  decoding), the three-way law of the rebase and its symmetry, the exact outcomes and bounds of
  the checks, and the accounts of each operation on every branch.

  \<^bold>\<open>Recursion and bounds.\<close> Loops over lists are structural recursion; nothing is cut off by fuel. The
  walks of the union-find, which would not return on a cyclic parent map, are partial functions into an
  option: that every merge answers \<open>Some\<close> is part of the properties. Readers of text recurse on
  what is left of it. Words are used where width matters (code units, bytes, the arithmetic of UTF-8);
  generations and call numbers are naturals, since they stay far below the exact range of a double. Lengths and
  caps are those of the code.

  \<^bold>\<open>Not modelled.\<close> The cryptography and the passkey vault (platform calls; envelopes are symbolic,
  the vault's state is an environment); the file systems of the browser; the parsers of reports and
  bundles (packages outside the sources); the sockets, event streams and authentication below the sync sessions and the transfer of report files; rendering and event handling of the user
  interface; HTTP handlers and SQL of the servers, whose state is a database outside the sources; the
  command line tools over the npm registry. The manifest lists each with its reason.
\<close>

end
